(* ===== verification/Prelude.thy ===== *)
theory Prelude
  imports Main "HOL-Library.Word" "HOL-Library.AList"
begin

text \<open>
  Shared vocabulary of the development: machine integers and byte strings, the
  little- and big-endian encodings of the standard library, Rust's \<open>HashMap\<close> as an
  association list with distinct keys (the list order stands for the unspecified
  iteration order), results as sums, and the generic list and arithmetic facts the
  components share.  Every component theory imports this one.
\<close>

section \<open>Machine integers and byte strings\<close>

type_synonym byte = "8 word"
type_synonym bytes = "byte list"
type_synonym u16 = "16 word"
type_synonym u32 = "32 word"
type_synonym u64 = "64 word"

text \<open>IEEE doubles that the program only transports: their 64 bits.\<close>

type_synonym f64_bits = "64 word"

abbreviation zero32 :: bytes where "zero32 \<equiv> replicate 32 0"

named_theorems codec_simps "lengths and inverses of the byte encodings"
named_theorems inv_intros "preservation of the component invariants"

definition ascii :: "string \<Rightarrow> bytes" where
  "ascii s = map of_char s"

lemma length_ascii [simp, codec_simps]: "length (ascii s) = length s"
  by (simp add: ascii_def)

text \<open>The decimal form of a number (\<open>to_string\<close>).\<close>

fun decimal :: "nat \<Rightarrow> string" where
  "decimal n = (if n < 10 then [char_of (48 + n)] else decimal (n div 10) @ [char_of (48 + n mod 10)])"

declare decimal.simps [simp del]

definition le_bytes :: "nat \<Rightarrow> 'a::len word \<Rightarrow> bytes" where
  "le_bytes n w = map (\<lambda>i. ucast (drop_bit (8 * i) w)) [0..<n]"

definition be_bytes :: "nat \<Rightarrow> 'a::len word \<Rightarrow> bytes" where
  "be_bytes n w = rev (le_bytes n w)"

abbreviation le32 :: "u32 \<Rightarrow> bytes" where "le32 w \<equiv> le_bytes 4 w"
abbreviation le64 :: "u64 \<Rightarrow> bytes" where "le64 w \<equiv> le_bytes 8 w"
abbreviation le16 :: "u16 \<Rightarrow> bytes" where "le16 w \<equiv> le_bytes 2 w"
abbreviation be32 :: "u32 \<Rightarrow> bytes" where "be32 w \<equiv> be_bytes 4 w"

lemma length_le_bytes [simp, codec_simps]: "length (le_bytes n w) = n"
  by (simp add: le_bytes_def)

lemma length_be_bytes [simp, codec_simps]: "length (be_bytes n w) = n"
  by (simp add: be_bytes_def)

lemma bit_le_bytes:
  assumes "i < n" and "j < 8"
  shows "bit (le_bytes n w ! i) j \<longleftrightarrow> bit w (8 * i + j)"
  using assms by (simp add: le_bytes_def bit_ucast_iff bit_drop_bit_eq)

lemma le_bytes_inject:
  fixes v w :: "'a::len word"
  assumes len: "LENGTH('a) \<le> 8 * n" and eq: "le_bytes n v = le_bytes n w"
  shows "v = w"
proof (rule bit_word_eqI)
  fix m assume m: "m < LENGTH('a)"
  have i: "m div 8 < n" and j: "m mod 8 < 8" using m len by auto
  have "bit (le_bytes n v ! (m div 8)) (m mod 8) = bit (le_bytes n w ! (m div 8)) (m mod 8)"
    by (simp only: eq)
  then show "bit v m = bit w m"
    by (simp only: bit_le_bytes [OF i j] mult_div_mod_eq)
qed

lemma le32_eq_iff [simp]: "le32 v = le32 w \<longleftrightarrow> v = w"
  using le_bytes_inject [of 4 v w] by auto

lemma le64_eq_iff [simp]: "le64 v = le64 w \<longleftrightarrow> v = w"
  using le_bytes_inject [of 8 v w] by auto

lemma le16_eq_iff [simp]: "le16 v = le16 w \<longleftrightarrow> v = w"
  using le_bytes_inject [of 2 v w] by auto

lemma be32_eq_iff [simp]: "be32 v = be32 w \<longleftrightarrow> v = w"
  by (simp add: be_bytes_def)

text \<open>Reading a little-endian integer back, as the loops \<open>v |= (b as u64) << (8 * i)\<close> do.\<close>

definition of_le_bytes :: "bytes \<Rightarrow> 'a::len word" where
  "of_le_bytes bs = foldr (\<lambda>(i, b) v. or (push_bit (8 * i) (ucast b)) v) (enumerate 0 bs) 0"

definition of_be_bytes :: "bytes \<Rightarrow> 'a::len word" where
  "of_be_bytes bs = of_le_bytes (rev bs)"

lemma bit_foldr_or:
  "bit (foldr (\<lambda>(i, b) v. or (f i b) v) xs (0 :: 'a::len word)) m
     \<longleftrightarrow> (\<exists>(i, b) \<in> set xs. bit (f i b) m)"
  by (induction xs) (auto simp: bit_or_iff)

lemma of_le_bytes_le_bytes:
  fixes w :: "'a::len word"
  assumes "LENGTH('a) \<le> 8 * n"
  shows "of_le_bytes (le_bytes n w) = w"
proof (rule bit_word_eqI)
  fix m assume m: "m < LENGTH('a)"
  let ?f = "\<lambda>i (b::byte). push_bit (8 * i) (ucast b) :: 'a word"
  have i: "m div 8 < n" using m assms by auto
  have "bit (of_le_bytes (le_bytes n w) :: 'a word) m
      \<longleftrightarrow> (\<exists>(i, b) \<in> set (enumerate 0 (le_bytes n w)). bit (?f i b) m)"
    unfolding of_le_bytes_def by (rule bit_foldr_or)
  also have "\<dots> \<longleftrightarrow> (\<exists>i < n. bit (?f i (le_bytes n w ! i)) m)"
    by (fastforce simp: in_set_enumerate_eq)
  also have "\<dots> \<longleftrightarrow> (\<exists>i < n. 8 * i \<le> m \<and> m - 8 * i < 8 \<and> bit (le_bytes n w ! i) (m - 8 * i))"
    using m by (auto simp: bit_push_bit_iff bit_ucast_iff) (use bit_imp_le_length [where 'a = 8] in force)
  also have "\<dots> \<longleftrightarrow> bit w m"
  proof
    assume "\<exists>i < n. 8 * i \<le> m \<and> m - 8 * i < 8 \<and> bit (le_bytes n w ! i) (m - 8 * i)"
    then show "bit w m" by (auto simp: bit_le_bytes)
  next
    assume "bit w m"
    moreover have "8 * (m div 8) \<le> m" "m - 8 * (m div 8) < 8"
      "m - 8 * (m div 8) = m mod 8"
      by (auto simp: minus_mult_div_eq_mod)
    ultimately show "\<exists>i < n. 8 * i \<le> m \<and> m - 8 * i < 8 \<and> bit (le_bytes n w ! i) (m - 8 * i)"
      using i by (intro exI [of _ "m div 8"]) (simp add: bit_le_bytes)
  qed
  finally show "bit (of_le_bytes (le_bytes n w) :: 'a word) m = bit w m" .
qed

lemma of_be_bytes_be_bytes:
  fixes w :: "'a::len word"
  assumes "LENGTH('a) \<le> 8 * n"
  shows "of_be_bytes (be_bytes n w) = w"
  using of_le_bytes_le_bytes [OF assms, of w] by (simp add: of_be_bytes_def be_bytes_def)

lemma le64_nat_inj:
  "a < 2 ^ 64 \<Longrightarrow> b < 2 ^ 64 \<Longrightarrow> (word_of_nat a :: u64) = word_of_nat b \<longleftrightarrow> a = b"
  by (auto dest!: arg_cong [of _ _ unat] simp: unat_of_nat)

text \<open>Fields of fixed length at the front of two equal byte strings.\<close>

lemma concat_fixed_inject:
  assumes "length xs = length ys" "\<forall>x \<in> set xs \<union> set ys. length x = n"
  shows "concat xs @ r = concat ys @ r' \<longleftrightarrow> xs = ys \<and> r = r'"
  using assms by (induction xs ys rule: list_induct2) auto

section \<open>Hash maps as association lists\<close>

type_synonym ('k, 'v) hashmap = "('k \<times> 'v) list"

abbreviation hm_get :: "('k, 'v) hashmap \<Rightarrow> 'k \<Rightarrow> 'v option" where
  "hm_get \<equiv> map_of"
abbreviation hm_insert :: "'k \<Rightarrow> 'v \<Rightarrow> ('k, 'v) hashmap \<Rightarrow> ('k, 'v) hashmap" where
  "hm_insert \<equiv> AList.update"
abbreviation hm_remove :: "'k \<Rightarrow> ('k, 'v) hashmap \<Rightarrow> ('k, 'v) hashmap" where
  "hm_remove \<equiv> AList.delete"
abbreviation hm_keys :: "('k, 'v) hashmap \<Rightarrow> 'k list" where
  "hm_keys m \<equiv> map fst m"
abbreviation hm_ok :: "('k, 'v) hashmap \<Rightarrow> bool" where
  "hm_ok m \<equiv> distinct (map fst m)"

lemma hm_ok_insert [intro, simp]: "hm_ok m \<Longrightarrow> hm_ok (hm_insert k v m)"
  by (rule distinct_update)

lemma hm_ok_remove [intro, simp]: "hm_ok m \<Longrightarrow> hm_ok (hm_remove k m)"
  by (rule distinct_delete)

lemma hm_keys_remove [simp]: "fst ` set (hm_remove k m) = fst ` set m - {k}"
  by (auto simp: AList.delete_eq image_iff)

lemma hm_keys_insert [simp]: "fst ` set (hm_insert k v m) = insert k (fst ` set m)"
  by (induction m) auto

lemma hm_length_remove:
  assumes "hm_ok m" "k \<in> fst ` set m"
  shows "length (hm_remove k m) = length m - 1"
proof -
  have ok: "hm_ok (hm_remove k m)" using assms(1) by (rule hm_ok_remove)
  have "length (hm_remove k m) = card (fst ` set (hm_remove k m))"
    using distinct_card [OF ok] by simp
  also have "\<dots> = card (fst ` set m) - 1" using assms(2) by (simp del: One_nat_def)
  also have "card (fst ` set m) = length m"
    using distinct_card [OF assms(1)] by simp
  finally show ?thesis .
qed

lemma hm_length_insert_new:
  "k \<notin> fst ` set m \<Longrightarrow> length (hm_insert k v m) = Suc (length m)"
  by (induction m) auto

lemma hm_remove_absent: "k \<notin> fst ` set m \<Longrightarrow> hm_remove k m = m"
  by (induction m) auto

lemma hm_length_remove_le: "length (hm_remove k m) \<le> length m"
  by (rule length_delete_le)

lemma hm_in_insert: "(a, b) \<in> set (hm_insert k v m) \<Longrightarrow> hm_ok m \<Longrightarrow>
    (a = k \<and> b = v) \<or> (a \<noteq> k \<and> (a, b) \<in> set m)"
  by (induction m) (force split: if_splits)+

lemma hm_in_remove: "(a, b) \<in> set (hm_remove k m) \<longleftrightarrow> a \<noteq> k \<and> (a, b) \<in> set m"
  by (auto simp: AList.delete_eq)

lemma hm_get_in: "hm_get m k = Some v \<Longrightarrow> (k, v) \<in> set m"
  by (rule map_of_SomeD)

lemma hm_in_get: "hm_ok m \<Longrightarrow> (k, v) \<in> set m \<Longrightarrow> hm_get m k = Some v"
  by simp

end
