(* ===== verification/Externals.thy ===== *)
theory Externals
  imports Prelude
begin

text \<open>
  What the swarm crates use and this development does not define: the third-party
  crates (\<open>sha3\<close>, \<open>sha2\<close>, \<open>fips204\<close>, \<open>hex\<close>) as the operations of a
  record \<open>ext\<close>, and the boundary to the STARK prover of \<open>crates/deep_ali\<close> as the record
  \<open>stark\<close>.  Every definition that uses one takes the record as an argument, so a
  theorem holds for all implementations; what a theorem needs of them is a named
  hypothesis (\<open>hex_ok\<close>, \<open>signer_ok\<close>, \<open>sha3_len_ok\<close>, \<open>codec_ok\<close>).
\<close>

section \<open>Third-party crates\<close>

datatype mldsa_set = MlDsa44 | MlDsa65 | MlDsa87

record ext =
  sha3_256 :: "bytes \<Rightarrow> bytes"
  sha3_384 :: "bytes \<Rightarrow> bytes"
  sha3_512 :: "bytes \<Rightarrow> bytes"
  sha2_256 :: "bytes \<Rightarrow> bytes"
  hex_encode :: "bytes \<Rightarrow> string"
  hex_decode :: "string \<Rightarrow> bytes option"
  pk_len :: "mldsa_set \<Rightarrow> nat"
  sig_len :: "mldsa_set \<Rightarrow> nat"
  mldsa_keygen :: "mldsa_set \<Rightarrow> bytes \<Rightarrow> bytes \<times> bytes"  \<comment> \<open>seed to (pk, sk)\<close>
  mldsa_pk_ok :: "mldsa_set \<Rightarrow> bytes \<Rightarrow> bool"            \<comment> \<open>\<open>try_from_bytes\<close> succeeds\<close>
  mldsa_sign :: "mldsa_set \<Rightarrow> bytes \<Rightarrow> bytes \<Rightarrow> bytes \<Rightarrow> bytes"  \<comment> \<open>set, randomness, sk, message\<close>
  mldsa_verify :: "mldsa_set \<Rightarrow> bytes \<Rightarrow> bytes \<Rightarrow> bytes \<Rightarrow> bool" \<comment> \<open>set, pk, message, sig\<close>

text \<open>
  An incremental hasher: \<open>update\<close> calls followed by \<open>finalize\<close> hash the concatenation.
\<close>

definition sha3_256_parts :: "ext \<Rightarrow> bytes list \<Rightarrow> bytes" where
  "sha3_256_parts E parts = sha3_256 E (concat parts)"

definition sha3_len_ok :: "ext \<Rightarrow> bool" where
  "sha3_len_ok E \<longleftrightarrow> (\<forall>x. length (sha3_256 E x) = 32)"

lemma length_sha3 [codec_simps]: "sha3_len_ok E \<Longrightarrow> length (sha3_256 E x) = 32"
  by (simp add: sha3_len_ok_def)

definition hex_ok :: "ext \<Rightarrow> bool" where
  "hex_ok E \<longleftrightarrow> (\<forall>b. hex_decode E (hex_encode E b) = Some b)"

lemma hex_round [codec_simps]: "hex_ok E \<Longrightarrow> hex_decode E (hex_encode E b) = Some b"
  by (simp add: hex_ok_def)

text \<open>
  \<open>fips204\<close>: for a key pair made by key generation, the encoded public key has its
  nominal length and parses, a signature has its nominal length and verifies.  The three
  public-key lengths differ.
\<close>

definition signer_ok :: "ext \<Rightarrow> bool" where
  "signer_ok E \<longleftrightarrow> inj (pk_len E) \<and>
     (\<forall>s seed pk sk. mldsa_keygen E s seed = (pk, sk) \<longrightarrow>
        length pk = pk_len E s \<and> mldsa_pk_ok E s pk \<and>
        (\<forall>rnd m. length (mldsa_sign E s rnd sk m) = sig_len E s \<and>
                 mldsa_verify E s pk m (mldsa_sign E s rnd sk m)))"

text \<open>A pair of distinct inputs on which a hash agrees.\<close>

definition collision :: "(bytes \<Rightarrow> bytes) \<Rightarrow> bytes \<Rightarrow> bytes \<Rightarrow> bool" where
  "collision H x y \<longleftrightarrow> x \<noteq> y \<and> H x = H y"

lemma collisionI: "H x = H y \<Longrightarrow> x \<noteq> y \<Longrightarrow> collision H x y"
  by (simp add: collision_def)

text \<open>
  Two computations collide when an input hashed by the first and an input hashed by the second
  do.  Binding theorems name the inputs, so they exhibit the colliding pair.
\<close>

definition collides :: "(bytes \<Rightarrow> bytes) \<Rightarrow> bytes list \<Rightarrow> bytes list \<Rightarrow> bool" where
  "collides H xs ys \<longleftrightarrow> (\<exists>x \<in> set xs. \<exists>y \<in> set ys. collision H x y)"

lemma collides_append:
  "collides H xs ys \<Longrightarrow> collides H (xs @ us) (ys @ vs)"
  "collides H us vs \<Longrightarrow> collides H (xs @ us) (ys @ vs)"
  by (auto simp: collides_def)

lemma collides_mono: "collides H xs ys \<Longrightarrow> set xs \<subseteq> set us \<Longrightarrow> set ys \<subseteq> set vs \<Longrightarrow> collides H us vs"
  by (auto simp: collides_def)

section \<open>Dispatch on the public-key length\<close>

text \<open>
  \<open>verify_worker_sig\<close> of the controller and \<open>verify_ml_dsa\<close> of the verifier are the
  same function: the parameter set is chosen by the length of the key bytes.
\<close>

definition verify_with :: "ext \<Rightarrow> mldsa_set \<Rightarrow> bytes \<Rightarrow> bytes \<Rightarrow> bytes \<Rightarrow> bool" where
  "verify_with E s pk msg sig =
     (if \<not> mldsa_pk_ok E s pk then False
      else if length sig \<noteq> sig_len E s then False
      else mldsa_verify E s pk msg sig)"

definition verify_worker_sig :: "ext \<Rightarrow> bytes \<Rightarrow> bytes \<Rightarrow> bytes \<Rightarrow> bool" where
  "verify_worker_sig E pk digest sig =
     (if length pk = pk_len E MlDsa44 then verify_with E MlDsa44 pk digest sig
      else if length pk = pk_len E MlDsa65 then verify_with E MlDsa65 pk digest sig
      else if length pk = pk_len E MlDsa87 then verify_with E MlDsa87 pk digest sig
      else False)"

lemma verify_worker_sig_set:
  assumes "inj (pk_len E)" "length pk = pk_len E s"
  shows "verify_worker_sig E pk m sig = verify_with E s pk m sig"
  using assms by (cases s) (auto simp: verify_worker_sig_def inj_eq)

lemma verify_worker_sig_unknown_length:
  "(\<And>s. length pk \<noteq> pk_len E s) \<Longrightarrow> \<not> verify_worker_sig E pk m sig"
  by (simp add: verify_worker_sig_def)

lemma signed_verifies:
  assumes "signer_ok E" "mldsa_keygen E s seed = (pk, sk)"
  shows "verify_worker_sig E pk m (mldsa_sign E s rnd sk m)"
proof -
  have "length pk = pk_len E s" "inj (pk_len E)" "mldsa_pk_ok E s pk"
    "length (mldsa_sign E s rnd sk m) = sig_len E s"
    "mldsa_verify E s pk m (mldsa_sign E s rnd sk m)"
    using assms unfolding signer_ok_def by blast+
  then show ?thesis by (simp add: verify_worker_sig_set verify_with_def)
qed

section \<open>NIST levels and the authority key\<close>

datatype nist_level = L1 | L3 | L5

fun mldsa_of :: "nist_level \<Rightarrow> mldsa_set" where
  "mldsa_of L1 = MlDsa44"
| "mldsa_of L3 = MlDsa65"
| "mldsa_of L5 = MlDsa87"

fun parse_nist_level :: "string \<Rightarrow> nist_level option" where
  "parse_nist_level s =
     (if s = ''1'' then Some L1 else if s = ''3'' then Some L3
      else if s = ''5'' then Some L5 else None)"

fun ml_dsa_name :: "nist_level \<Rightarrow> string" where
  "ml_dsa_name L1 = ''ML-DSA-44''"
| "ml_dsa_name L3 = ''ML-DSA-65''"
| "ml_dsa_name L5 = ''ML-DSA-87''"

fun hash_name :: "nist_level \<Rightarrow> string" where
  "hash_name L1 = ''SHA3-256''"
| "hash_name L3 = ''SHA3-384''"
| "hash_name L5 = ''SHA3-512''"

fun digest_size :: "nist_level \<Rightarrow> nat" where
  "digest_size L1 = 32"
| "digest_size L3 = 48"
| "digest_size L5 = 64"

definition level_pk_len :: "ext \<Rightarrow> nist_level \<Rightarrow> nat" where
  "level_pk_len E l = pk_len E (mldsa_of l)"

definition level_sig_len :: "ext \<Rightarrow> nist_level \<Rightarrow> nat" where
  "level_sig_len E l = sig_len E (mldsa_of l)"

fun level_hash :: "ext \<Rightarrow> nist_level \<Rightarrow> bytes list \<Rightarrow> bytes" where
  "level_hash E L1 parts = sha3_256 E (concat parts)"
| "level_hash E L3 parts = sha3_384 E (concat parts)"
| "level_hash E L5 parts = sha3_512 E (concat parts)"

definition pk_binding_hash :: "ext \<Rightarrow> bytes \<Rightarrow> bytes" where
  "pk_binding_hash E pk = sha3_256_parts E [ascii ''DNS-AUTHORITY-PK-V1'', pk]"

record keypair =
  kp_level :: nist_level
  kp_pk :: bytes
  kp_sk :: bytes

definition keygen :: "ext \<Rightarrow> nist_level \<Rightarrow> bytes \<Rightarrow> keypair" where
  "keygen E l seed =
     (let (pk, sk) = mldsa_keygen E (mldsa_of l) seed
      in \<lparr>kp_level = l, kp_pk = pk, kp_sk = sk\<rparr>)"

definition kp_sign :: "ext \<Rightarrow> bytes \<Rightarrow> keypair \<Rightarrow> bytes \<Rightarrow> bytes" where
  "kp_sign E rnd kp msg = mldsa_sign E (mldsa_of (kp_level kp)) rnd (kp_sk kp) msg"

definition kp_verify :: "ext \<Rightarrow> keypair \<Rightarrow> bytes \<Rightarrow> bytes \<Rightarrow> bool" where
  "kp_verify E kp msg sig =
     (let s = mldsa_of (kp_level kp)
      in if length sig \<noteq> sig_len E s then False else mldsa_verify E s (kp_pk kp) msg sig)"

lemma mldsa_of_inj [simp]: "mldsa_of a = mldsa_of b \<longleftrightarrow> a = b"
  by (cases a; cases b) auto

lemma keygen_sign_verify_worker_sig:
  assumes "signer_ok E"
  shows "verify_worker_sig E (kp_pk (keygen E l seed)) m (kp_sign E rnd (keygen E l seed) m)"
  using signed_verifies [OF assms] by (auto simp: keygen_def kp_sign_def split: prod.splits)

lemma keygen_sign_kp_verify:
  assumes "signer_ok E"
  shows "kp_verify E (keygen E l seed) m (kp_sign E rnd (keygen E l seed) m)"
  using assms unfolding signer_ok_def
  by (auto simp: keygen_def kp_sign_def kp_verify_def Let_def split: prod.splits)

section \<open>The STARK boundary\<close>

datatype ldt_mode = Stir | Fri

record deep_fri_params =
  schedule :: "nat list"
  num_queries :: nat
  seed_z :: u64
  coeff_commit_final :: bool
  d_final :: nat
  stir :: bool
  s0 :: nat
  public_inputs_hash :: "bytes option"

text \<open>
  \<open>stark_prove\<close> stands for the pipeline \<open>build_hash_rollup_trace\<close>, \<open>lde_trace_columns\<close>,
  \<open>deep_ali_merge_general\<close>, \<open>deep_fri_prove\<close> run on a list of 64-bit leaves; the others
  are \<open>deep_fri_verify\<close>, the \<open>root_f0\<close> field and the \<open>ark-serialize\<close> codec of a proof.
\<close>

record 'p stark =
  stark_prove :: "u64 list \<Rightarrow> deep_fri_params \<Rightarrow> 'p"
  fri_verify :: "deep_fri_params \<Rightarrow> 'p \<Rightarrow> bool"
  root_f0_of :: "'p \<Rightarrow> bytes"
  proof_ser :: "'p \<Rightarrow> bytes"
  proof_deser :: "bytes \<Rightarrow> 'p option"

definition codec_ok :: "'p stark \<Rightarrow> bool" where
  "codec_ok S \<longleftrightarrow> (\<forall>p. proof_deser S (proof_ser S p) = Some p \<and> length (root_f0_of S p) = 32)"

end
