(* ===== verification/Proto_Messages.thy ===== *)
theory Proto_Messages
  imports Externals
begin

text \<open>
  \<open>crates/swarm-proto\<close>: the wire messages between worker and controller, the
  domain-separated digests that are signed or bound into a transcript
  (\<open>messages.rs\<close>), and the length-prefixed framing (\<open>frame.rs\<close>).
\<close>

section \<open>Messages\<close>

type_synonym worker_id = u32

record dns_record =
  domain :: bytes
  record_type :: u16
  ttl :: u32
  rdata :: bytes

record capabilities =
  cap_nist_level :: byte
  max_records_per_shard :: nat
  cores :: u32
  cap_label :: string

record shard_spec =
  sp_shard_id :: u32
  sp_zone_salt :: bytes
  sp_authority_pk_hash :: bytes
  sp_job_id :: bytes
  sp_shard_nonce :: bytes
  sp_ldt :: ldt_mode
  sp_records :: "dns_record list"

record shard_result =
  sr_shard_id :: u32
  sr_pi_hash :: bytes
  sr_merkle_root :: bytes
  sr_root_f0 :: bytes
  sr_record_count :: u64
  sr_n_trace :: u64
  sr_proof_bytes_len :: u64
  sr_prove_ms :: f64_bits
  sr_local_verify_ms :: f64_bits
  sr_worker_sig :: bytes
  sr_proof_blob :: bytes

record shard_receipt =
  rc_job_id :: bytes
  rc_shard_id :: u32
  rc_worker_id :: worker_id
  rc_pi_hash :: bytes
  rc_merkle_root :: bytes
  rc_accepted_at_unix_ms :: u64
  rc_ctrl_authority_pk :: bytes
  rc_ctrl_sig :: bytes

record worker_evidence =
  ev_worker_id :: worker_id
  ev_job_id :: bytes
  ev_shard_id :: u32
  ev_pi_hash :: bytes
  ev_merkle_root :: bytes
  ev_root_f0 :: bytes
  ev_worker_sig :: bytes

datatype client_msg =
    Register string bytes capabilities
  | Heartbeat worker_id
  | ShardDone worker_id shard_result
  | WorkerEvidence worker_evidence
  | ShardFailed worker_id u32 string
  | Goodbye worker_id

datatype server_msg =
    RegisterAck worker_id u32 string
  | RegisterDenied string
  | HeartbeatAck
  | AssignShard shard_spec
  | Receipt shard_receipt
  | Shutdown string

section \<open>Digests\<close>

definition shard_fs_binding :: "ext \<Rightarrow> bytes \<Rightarrow> bytes \<Rightarrow> u32 \<Rightarrow> bytes \<Rightarrow> bytes" where
  "shard_fs_binding E authority_pk_hash job_id shard_id shard_nonce =
     sha3_256_parts E [ascii ''DNS-SWARM-SHARD-FS-V1'', authority_pk_hash, job_id,
                       le32 shard_id, shard_nonce]"

definition worker_attestation_digest :: "ext \<Rightarrow> u32 \<Rightarrow> bytes \<Rightarrow> bytes \<Rightarrow> bytes \<Rightarrow> bytes" where
  "worker_attestation_digest E shard_id pi_hash merkle_root root_f0 =
     sha3_256_parts E [ascii ''DNS-SWARM-WORKER-ATTEST-V1'', le32 shard_id, pi_hash,
                       merkle_root, root_f0]"

definition ctrl_receipt_digest ::
  "ext \<Rightarrow> bytes \<Rightarrow> u32 \<Rightarrow> worker_id \<Rightarrow> bytes \<Rightarrow> bytes \<Rightarrow> u64 \<Rightarrow> bytes" where
  "ctrl_receipt_digest E job_id shard_id worker_id pi_hash merkle_root accepted_at_unix_ms =
     sha3_256_parts E [ascii ''DNS-SWARM-CTRL-RECEIPT-V1'', job_id, le32 shard_id,
                       le32 worker_id, pi_hash, merkle_root, le64 accepted_at_unix_ms]"

lemmas digest_defs = shard_fs_binding_def worker_attestation_digest_def ctrl_receipt_digest_def
  sha3_256_parts_def

text \<open>The strings the three digests hash.\<close>

definition shard_fs_input :: "bytes \<Rightarrow> bytes \<Rightarrow> u32 \<Rightarrow> bytes \<Rightarrow> bytes" where
  "shard_fs_input a j s n = ascii ''DNS-SWARM-SHARD-FS-V1'' @ a @ j @ le32 s @ n"

definition attest_input :: "u32 \<Rightarrow> bytes \<Rightarrow> bytes \<Rightarrow> bytes \<Rightarrow> bytes" where
  "attest_input s p m r = ascii ''DNS-SWARM-WORKER-ATTEST-V1'' @ le32 s @ p @ m @ r"

definition receipt_input :: "bytes \<Rightarrow> u32 \<Rightarrow> worker_id \<Rightarrow> bytes \<Rightarrow> bytes \<Rightarrow> u64 \<Rightarrow> bytes" where
  "receipt_input j s w p m t = ascii ''DNS-SWARM-CTRL-RECEIPT-V1'' @ j @ le32 s @ le32 w @ p @ m @ le64 t"

lemmas input_defs = shard_fs_input_def attest_input_def receipt_input_def

text \<open>The pre-images: fixed-width fields after a tag, so equal strings have equal fields.\<close>

lemma append_eq_same_length:
  "length a = length b \<Longrightarrow> a @ x = b @ y \<longleftrightarrow> a = b \<and> x = y"
  by simp

lemma worker_attestation_binding:
  assumes "worker_attestation_digest E s p m r = worker_attestation_digest E s' p' m' r'"
    and "length p = 32" "length p' = 32" "length m = 32" "length m' = 32"
    and "(s, p, m, r) \<noteq> (s', p', m', r')"
  shows "collision (sha3_256 E) (attest_input s p m r) (attest_input s' p' m' r')"
  using assms by (intro collisionI) (auto simp: digest_defs input_defs)

lemma shard_fs_binding_binding:
  assumes "shard_fs_binding E a j s n = shard_fs_binding E a' j' s' n'"
    and "length a = 32" "length a' = 32" "length j = 32" "length j' = 32"
    and "(a, j, s, n) \<noteq> (a', j', s', n')"
  shows "collision (sha3_256 E) (shard_fs_input a j s n) (shard_fs_input a' j' s' n')"
  using assms by (intro collisionI) (auto simp: digest_defs input_defs)

lemma ctrl_receipt_binding:
  assumes "ctrl_receipt_digest E j s w p m t = ctrl_receipt_digest E j' s' w' p' m' t'"
    and "length j = 32" "length j' = 32" "length p = 32" "length p' = 32"
      "length m = 32" "length m' = 32"
    and "(j, s, w, p, m, t) \<noteq> (j', s', w', p', m', t')"
  shows "collision (sha3_256 E) (receipt_input j s w p m t) (receipt_input j' s' w' p' m' t')"
  using assms by (intro collisionI) (auto simp: digest_defs input_defs)

text \<open>Domain separation: the tags differ within their first eleven bytes.\<close>

lemma tag_clash: "take 11 a \<noteq> take 11 b \<Longrightarrow> a \<noteq> b"
  by auto

lemma input_domains:
  "attest_input s p m r \<noteq> receipt_input j s' w p' m' t"
  "attest_input s p m r \<noteq> shard_fs_input a j s' n"
  "receipt_input j s' w p' m' t \<noteq> shard_fs_input a j' s'' n"
  by (rule tag_clash; simp add: input_defs ascii_def)+

lemma digest_inputs:
  "worker_attestation_digest E s p m r = sha3_256 E (attest_input s p m r)"
  "ctrl_receipt_digest E j s w p m t = sha3_256 E (receipt_input j s w p m t)"
  "shard_fs_binding E a j s n = sha3_256 E (shard_fs_input a j s n)"
  by (simp_all add: digest_defs input_defs)

section \<open>Framing\<close>

definition max_frame_bytes :: nat where
  "max_frame_bytes = 16 * 1024 * 1024"

datatype frame_error = IoEof | TooLarge nat | EncodeErr | DecodeErr

text \<open>
  \<open>enc\<close> and \<open>dec\<close> are the CBOR codec (\<open>ciborium\<close>).  The stream is the list of bytes not
  yet read; \<open>read_exact\<close> on a shorter stream is an \<open>UnexpectedEof\<close>.
\<close>

definition write_frame :: "('m \<Rightarrow> bytes option) \<Rightarrow> 'm \<Rightarrow> frame_error + bytes" where
  "write_frame enc msg =
     (case enc msg of None \<Rightarrow> Inl EncodeErr
      | Some buf \<Rightarrow>
          if length buf > max_frame_bytes then Inl (TooLarge (length buf))
          else Inr (be32 (word_of_nat (length buf)) @ buf))"

definition read_exact :: "nat \<Rightarrow> bytes \<Rightarrow> (bytes \<times> bytes) option" where
  "read_exact n s = (if length s < n then None else Some (take n s, drop n s))"

definition read_frame :: "(bytes \<Rightarrow> 'm option) \<Rightarrow> bytes \<Rightarrow> frame_error + ('m \<times> bytes)" where
  "read_frame dec s =
     (case read_exact 4 s of None \<Rightarrow> Inl IoEof
      | Some (len_buf, s1) \<Rightarrow>
         (let len = unat (of_be_bytes len_buf :: u32)
          in if len > max_frame_bytes then Inl (TooLarge len)
             else (case read_exact len s1 of None \<Rightarrow> Inl IoEof
                   | Some (payload, s2) \<Rightarrow>
                      (case dec payload of None \<Rightarrow> Inl DecodeErr
                       | Some msg \<Rightarrow> Inr (msg, s2)))))"

lemma read_exact_append: "length a = n \<Longrightarrow> read_exact n (a @ b) = Some (a, b)"
  by (auto simp: read_exact_def)

lemma read_frame_write_frame:
  assumes w: "write_frame enc msg = Inr bs"
    and dec: "\<And>buf. enc msg = Some buf \<Longrightarrow> dec buf = Some msg"
  shows "read_frame dec (bs @ rest) = Inr (msg, rest)"
proof -
  from w obtain buf where buf: "enc msg = Some buf" "length buf \<le> max_frame_bytes"
      and bs: "bs = be32 (word_of_nat (length buf)) @ buf"
    by (auto simp: write_frame_def split: option.splits if_splits)
  have "length buf < 2 ^ LENGTH(32)" using buf(2) by (simp add: max_frame_bytes_def)
  then have u: "unat (word_of_nat (length buf) :: u32) = length buf"
    by (simp add: unat_of_nat)
  show ?thesis
    using buf dec [OF buf(1)]
    by (simp add: bs read_frame_def read_exact_append of_be_bytes_be_bytes u)
qed

text \<open>A sequence of frames on one stream is read back message by message.\<close>

fun write_all :: "('m \<Rightarrow> bytes option) \<Rightarrow> 'm list \<Rightarrow> frame_error + bytes" where
  "write_all enc [] = Inr []"
| "write_all enc (m # ms) =
     (case write_frame enc m of Inl e \<Rightarrow> Inl e
      | Inr b \<Rightarrow> (case write_all enc ms of Inl e \<Rightarrow> Inl e | Inr bs \<Rightarrow> Inr (b @ bs)))"

fun read_n :: "nat \<Rightarrow> (bytes \<Rightarrow> 'm option) \<Rightarrow> bytes \<Rightarrow> frame_error + ('m list \<times> bytes)" where
  "read_n 0 dec s = Inr ([], s)"
| "read_n (Suc n) dec s =
     (case read_frame dec s of Inl e \<Rightarrow> Inl e
      | Inr (m, s') \<Rightarrow> (case read_n n dec s' of Inl e \<Rightarrow> Inl e
                        | Inr (ms, s'') \<Rightarrow> Inr (m # ms, s'')))"

lemma read_n_write_all:
  assumes "\<And>m buf. enc m = Some buf \<Longrightarrow> dec buf = Some m"
  shows "write_all enc ms = Inr bs \<Longrightarrow> read_n (length ms) dec (bs @ rest) = Inr (ms, rest)"
proof (induction ms arbitrary: bs)
  case (Cons m ms)
  then obtain b bs' where b: "write_frame enc m = Inr b" "write_all enc ms = Inr bs'"
      "bs = b @ bs'"
    by (auto split: sum.splits)
  have "read_frame dec (b @ bs' @ rest) = Inr (m, bs' @ rest)"
    using b(1) assms by (rule read_frame_write_frame)
  then show ?case using Cons.IH [OF b(2)] b(3) by simp
qed simp

lemma read_frame_bounds:
  assumes "read_frame dec s = Inr (m, rest)"
  shows "\<exists>payload. length payload \<le> max_frame_bytes \<and> dec payload = Some m \<and>
           length s = 4 + length payload + length rest"
  using assms
  by (auto simp: read_frame_def read_exact_def Let_def split: option.splits if_splits
      intro!: exI [of _ "take (unat (of_be_bytes (take 4 s) :: u32)) (drop 4 s)"])

lemma read_frame_too_large:
  assumes "length hdr = 4" "unat (of_be_bytes hdr :: u32) > max_frame_bytes"
  shows "read_frame dec (hdr @ s) = Inl (TooLarge (unat (of_be_bytes hdr :: u32)))"
  using assms by (simp add: read_frame_def read_exact_append)

end
