(* ===== verification/Dns_Zone.thy ===== *)
theory Dns_Zone
  imports Proto_Messages
begin

text \<open>
  \<open>crates/swarm-dns/src/dns.rs\<close> (record encoding, doubly salted leaf hash, binary
  Merkle tree) and the zone composition of the controller (\<open>split_evenly\<close>,
  \<open>compute_merkle_root\<close>).  A panic (\<open>assert!\<close>, \<open>unwrap\<close>, an index out of range) is
  \<open>None\<close>.  The locale \<open>inclusion_scheme\<close> is the contract a commitment with membership
  proofs offers its clients; the DNS tree is one provider.
\<close>

section \<open>Records and leaf hashes\<close>

definition canonical_bytes :: "dns_record \<Rightarrow> bytes" where
  "canonical_bytes r =
     ascii ''DNS-RECORD-V1'' @
     le32 (word_of_nat (length (domain r))) @ domain r @
     le16 (record_type r) @ le32 (ttl r) @
     le32 (word_of_nat (length (rdata r))) @ rdata r"

definition leaf_h1 :: "ext \<Rightarrow> bytes \<Rightarrow> dns_record \<Rightarrow> bytes" where
  "leaf_h1 E salt r = sha3_256_parts E [ascii ''DNS-LEAF-V1'', salt, canonical_bytes r]"

definition leaf_hash :: "ext \<Rightarrow> bytes \<Rightarrow> dns_record \<Rightarrow> bytes" where
  "leaf_hash E salt r =
     sha3_256_parts E [ascii ''DNS-LEAF-DOUBLE-V1'', salt, leaf_h1 E salt r]"

text \<open>Lengths that the 32-bit length prefixes can represent.\<close>

definition record_wf :: "dns_record \<Rightarrow> bool" where
  "record_wf r \<longleftrightarrow> length (domain r) < 2 ^ 32 \<and> length (rdata r) < 2 ^ 32"

lemma word_of_nat_eq_u32:
  "a < 2 ^ 32 \<Longrightarrow> b < 2 ^ 32 \<Longrightarrow> (word_of_nat a :: u32) = word_of_nat b \<Longrightarrow> a = b"
  by (drule arg_cong [of _ _ unat]) (simp add: unat_of_nat)

lemma canonical_bytes_inject:
  assumes "record_wf r" "record_wf r'" and eq: "canonical_bytes r = canonical_bytes r'"
  shows "r = r'"
proof -
  from eq have d: "(word_of_nat (length (domain r)) :: u32) = word_of_nat (length (domain r'))"
    and rest: "domain r @ le16 (record_type r) @ le32 (ttl r) @
        le32 (word_of_nat (length (rdata r))) @ rdata r =
      domain r' @ le16 (record_type r') @ le32 (ttl r') @
        le32 (word_of_nat (length (rdata r'))) @ rdata r'"
    by (simp_all add: canonical_bytes_def)
  have "length (domain r) = length (domain r')"
    using d assms(1,2) word_of_nat_eq_u32 by (simp add: record_wf_def)
  with rest show ?thesis by simp
qed

text \<open>The two strings hashed for a leaf.\<close>

definition leaf_inputs :: "ext \<Rightarrow> bytes \<Rightarrow> dns_record \<Rightarrow> bytes list" where
  "leaf_inputs E salt r = [ascii ''DNS-LEAF-V1'' @ salt @ canonical_bytes r,
     ascii ''DNS-LEAF-DOUBLE-V1'' @ salt @ leaf_h1 E salt r]"

lemma leaf_hash_binding:
  assumes "leaf_hash E salt r = leaf_hash E salt' r'"
    and "length salt = 16" "length salt' = 16" "record_wf r" "record_wf r'"
    and "(salt, r) \<noteq> (salt', r')"
  shows "collides (sha3_256 E) (leaf_inputs E salt r) (leaf_inputs E salt' r')"
proof (cases "leaf_h1 E salt r = leaf_h1 E salt' r' \<and> salt = salt'")
  case True
  then have "collision (sha3_256 E) (leaf_inputs E salt r ! 0) (leaf_inputs E salt' r' ! 0)"
    using assms(4-6) canonical_bytes_inject
    by (auto simp: leaf_inputs_def leaf_h1_def sha3_256_parts_def collision_def)
  then show ?thesis by (simp add: collides_def leaf_inputs_def)
next
  case False
  then have "collision (sha3_256 E) (leaf_inputs E salt r ! 1) (leaf_inputs E salt' r' ! 1)"
    using assms(1-3) by (auto simp: leaf_inputs_def leaf_hash_def sha3_256_parts_def collision_def)
  then show ?thesis by (simp add: collides_def leaf_inputs_def)
qed

section \<open>The binary Merkle tree\<close>

definition node_hash :: "ext \<Rightarrow> bytes \<Rightarrow> bytes \<Rightarrow> bytes" where
  "node_hash E l r = sha3_256_parts E [ascii ''DNS-NODE-V1'', l, r]"

text \<open>One pass over \<open>prev.chunks(2)\<close>: a lone last node is paired with itself.\<close>

fun next_level :: "ext \<Rightarrow> bytes list \<Rightarrow> bytes list" where
  "next_level E [] = []"
| "next_level E [a] = [node_hash E a a]"
| "next_level E (a # b # xs) = node_hash E a b # next_level E xs"

lemma length_next_level [simp]: "length (next_level E xs) = (length xs + 1) div 2"
  by (induction E xs rule: next_level.induct) auto

function merkle_levels :: "ext \<Rightarrow> bytes list \<Rightarrow> bytes list list" where
  "merkle_levels E xs =
     (if length xs > 1 then xs # merkle_levels E (next_level E xs) else [xs])"
  by pat_completeness auto
termination by (relation "measure (\<lambda>(E, xs). length xs)") auto

declare merkle_levels.simps [simp del]

definition merkle_build :: "ext \<Rightarrow> bytes list \<Rightarrow> bytes list list option" where
  "merkle_build E leaves = (if leaves = [] then None else Some (merkle_levels E leaves))"

definition merkle_root :: "bytes list list \<Rightarrow> bytes option" where
  "merkle_root levels =
     (if levels = [] then None
      else (case last levels of [] \<Rightarrow> None | x # _ \<Rightarrow> Some x))"

fun path_from :: "bytes list list \<Rightarrow> nat \<Rightarrow> bytes list option" where
  "path_from [] idx = Some []"
| "path_from (level # ls) idx =
     (let sib_idx = xor idx 1
      in if sib_idx < length level then map_option ((#) (level ! sib_idx)) (path_from ls (idx div 2))
         else if idx < length level then map_option ((#) (level ! idx)) (path_from ls (idx div 2))
         else None)"

definition merkle_path :: "bytes list list \<Rightarrow> nat \<Rightarrow> bytes list option" where
  "merkle_path levels leaf_index =
     (if levels = [] then None else path_from (butlast levels) leaf_index)"

fun merkle_climb :: "ext \<Rightarrow> bytes \<Rightarrow> nat \<Rightarrow> bytes list \<Rightarrow> bytes" where
  "merkle_climb E cur i [] = cur"
| "merkle_climb E cur i (sib # path) =
     merkle_climb E (if even i then node_hash E cur sib else node_hash E sib cur) (i div 2) path"

definition merkle_verify :: "ext \<Rightarrow> bytes \<Rightarrow> nat \<Rightarrow> bytes list \<Rightarrow> bytes \<Rightarrow> bool" where
  "merkle_verify E leaf leaf_index path root \<longleftrightarrow> merkle_climb E leaf leaf_index path = root"

text \<open>The parent of index \<open>i\<close> hashes the node at \<open>i\<close> with the sibling the path picks.\<close>

definition sibling :: "bytes list \<Rightarrow> nat \<Rightarrow> bytes" where
  "sibling level i = (if xor i 1 < length level then level ! xor i 1 else level ! i)"

lemma xor_1_nat: "xor i (Suc 0) = (if even i then Suc i else i - 1)"
  using xor_Suc_0_eq [of i] by simp

lemma next_level_nth:
  "i < length xs \<Longrightarrow> next_level E xs ! (i div 2) =
     (if even i then node_hash E (xs ! i) (sibling xs i) else node_hash E (sibling xs i) (xs ! i))"
proof (induction E xs arbitrary: i rule: next_level.induct)
  case (2 E a)
  then show ?case by (simp add: sibling_def xor_1_nat)
next
  case (3 E a b xs)
  show ?case
  proof (cases "i < 2")
    case True
    then have "i = 0 \<or> i = 1" by auto
    then show ?thesis by (auto simp: sibling_def xor_1_nat)
  next
    case False
    then obtain j where j: "i = Suc (Suc j)" by (metis add_2_eq_Suc le_Suc_ex not_less)
    have "sibling (a # b # xs) i = sibling xs j"
    proof (cases "even j")
      case True then show ?thesis by (simp add: sibling_def xor_1_nat j)
    next
      case False
      then obtain k where "j = Suc k" by (cases j) auto
      then show ?thesis using False by (simp add: sibling_def xor_1_nat j)
    qed
    then show ?thesis using 3 j by simp
  qed
qed simp

lemma merkle_levels_nonempty [simp]: "merkle_levels E xs \<noteq> []"
  by (subst merkle_levels.simps) simp

definition tree_root :: "ext \<Rightarrow> bytes list \<Rightarrow> bytes" where
  "tree_root E leaves = hd (last (merkle_levels E leaves))"

lemma merkle_levels_last:
  "xs \<noteq> [] \<Longrightarrow> length (last (merkle_levels E xs)) = 1"
proof (induction E xs rule: merkle_levels.induct)
  case (1 E xs)
  show ?case
  proof (cases "length xs > 1")
    case True
    then have "next_level E xs \<noteq> []" by (simp flip: length_greater_0_conv)
    with 1 True show ?thesis by (subst merkle_levels.simps) simp
  next
    case False
    then show ?thesis using 1(2) by (subst merkle_levels.simps) (cases xs; simp)
  qed
qed

lemma merkle_root_tree_root:
  assumes "merkle_build E leaves = Some lv"
  shows "merkle_root lv = Some (tree_root E leaves)"
proof -
  have lv: "leaves \<noteq> []" "lv = merkle_levels E leaves"
    using assms by (auto simp: merkle_build_def split: if_splits)
  then have "length (last lv) = 1" using merkle_levels_last by simp
  then show ?thesis
    using lv by (cases "last lv") (auto simp: merkle_root_def tree_root_def)
qed

lemma tree_root_step:
  "length xs > 1 \<Longrightarrow> tree_root E xs = tree_root E (next_level E xs)"
  unfolding tree_root_def by (subst merkle_levels.simps) simp

lemma tree_root_single [simp]: "tree_root E [x] = x"
  unfolding tree_root_def by (subst merkle_levels.simps) simp

lemma path_climbs_to_root:
  "i < length xs \<Longrightarrow>
     \<exists>p. path_from (butlast (merkle_levels E xs)) i = Some p \<and>
         merkle_climb E (xs ! i) i p = tree_root E xs"
proof (induction E xs arbitrary: i rule: merkle_levels.induct)
  case (1 E xs)
  show ?case
  proof (cases "length xs > 1")
    case True
    have "i div 2 < length (next_level E xs)" using 1(2) by simp
    from "1.IH" [OF True this] obtain p where
      p: "path_from (butlast (merkle_levels E (next_level E xs))) (i div 2) = Some p"
        "merkle_climb E (next_level E xs ! (i div 2)) (i div 2) p = tree_root E (next_level E xs)"
      by blast
    have b: "butlast (merkle_levels E xs) = xs # butlast (merkle_levels E (next_level E xs))"
      using True by (subst merkle_levels.simps) simp
    have "path_from (butlast (merkle_levels E xs)) i = Some (sibling xs i # p)"
      using p(1) 1(2) by (simp add: b sibling_def Let_def)
    moreover have "merkle_climb E (xs ! i) i (sibling xs i # p) = tree_root E xs"
      using p(2) next_level_nth [OF 1(2), of E] tree_root_step [OF True, of E] by simp
    ultimately show ?thesis by blast
  next
    case False
    then have "xs = [xs ! 0]" "i = 0" using 1(2) by (cases xs; auto)+
    moreover from this have "merkle_levels E xs = [xs]" using False by (subst merkle_levels.simps) simp
    ultimately show ?thesis by (metis append_butlast_last_id butlast.simps(2) merkle_climb.simps(1)
          path_from.simps(1) tree_root_single)
  qed
qed

section \<open>Membership proofs as an interface\<close>

locale inclusion_scheme =
  fixes fits :: "'a list \<Rightarrow> bool"
    and build :: "'a list \<Rightarrow> 'lv option"
    and root :: "'lv \<Rightarrow> 'h option"
    and path :: "'lv \<Rightarrow> nat \<Rightarrow> 'p option"
    and verify :: "'a \<Rightarrow> nat \<Rightarrow> 'p \<Rightarrow> 'h \<Rightarrow> bool"
  assumes build_total: "fits items \<Longrightarrow> \<exists>lv. build items = Some lv"
    and root_total: "build items = Some lv \<Longrightarrow> \<exists>r. root lv = Some r"
    and open_verifies: "build items = Some lv \<Longrightarrow> i < length items \<Longrightarrow> root lv = Some r \<Longrightarrow>
      \<exists>p. path lv i = Some p \<and> verify (items ! i) i p r"
begin

text \<open>A client that commits to the images of its items can open every one of them.\<close>

lemma committed_items_open:
  assumes "fits (map f items)"
  shows "\<exists>lv r. build (map f items) = Some lv \<and> root lv = Some r \<and>
    (\<forall>i < length items. \<exists>p. path lv i = Some p \<and> verify (f (items ! i)) i p r)"
proof -
  obtain lv where lv: "build (map f items) = Some lv" using build_total assms by fastforce
  obtain r where r: "root lv = Some r" using root_total [OF lv] by blast
  have "\<exists>p. path lv i = Some p \<and> verify (f (items ! i)) i p r" if "i < length items" for i
    using open_verifies [OF lv _ r, of i] that by simp
  then show ?thesis using lv r by blast
qed

end

interpretation dns: inclusion_scheme "\<lambda>leaves. leaves \<noteq> []" "merkle_build E" merkle_root merkle_path
  "merkle_verify E" for E
proof (unfold_locales, goal_cases)
  case (1 leaves) then show ?case by (simp add: merkle_build_def)
next
  case (2 leaves lv) then show ?case using merkle_root_tree_root by blast
next
  case (3 leaves lv i r)
  then have "lv = merkle_levels E leaves" "r = tree_root E leaves"
    using merkle_root_tree_root [OF 3(1)] by (auto simp: merkle_build_def split: if_splits)
  then show ?case
    using path_climbs_to_root [OF 3(2), of E] by (auto simp: merkle_path_def merkle_verify_def)
qed

section \<open>What a root commits to\<close>

text \<open>The strings hashed for a node, along a path, and for all levels of a tree.\<close>

definition node_input :: "bytes \<Rightarrow> bytes \<Rightarrow> bytes" where
  "node_input l r = ascii ''DNS-NODE-V1'' @ l @ r"

fun climb_inputs :: "ext \<Rightarrow> bytes \<Rightarrow> nat \<Rightarrow> bytes list \<Rightarrow> bytes list" where
  "climb_inputs E cur i [] = []"
| "climb_inputs E cur i (sib # path) =
     (let inp = if even i then node_input cur sib else node_input sib cur
      in inp # climb_inputs E (sha3_256 E inp) (i div 2) path)"

fun level_inputs :: "bytes list \<Rightarrow> bytes list" where
  "level_inputs [] = []"
| "level_inputs [a] = [node_input a a]"
| "level_inputs (a # b # xs) = node_input a b # level_inputs xs"

function tree_inputs :: "ext \<Rightarrow> bytes list \<Rightarrow> bytes list" where
  "tree_inputs E xs =
     (if length xs > 1 then level_inputs xs @ tree_inputs E (next_level E xs) else [])"
  by pat_completeness auto
termination by (relation "measure (\<lambda>(E, xs). length xs)") auto

declare tree_inputs.simps [simp del]

lemma node_hash_input: "node_hash E l r = sha3_256 E (node_input l r)"
  by (simp add: node_hash_def node_input_def sha3_256_parts_def)

lemma node_input_inject [simp]:
  "length l = 32 \<Longrightarrow> length l' = 32 \<Longrightarrow> node_input l r = node_input l' r' \<longleftrightarrow> l = l' \<and> r = r'"
  by (auto simp: node_input_def)

lemma length_node_hash [simp]: "sha3_len_ok E \<Longrightarrow> length (node_hash E l r) = 32"
  by (simp add: node_hash_def sha3_256_parts_def length_sha3)

text \<open>Two openings of one root at one index and depth agree, or two hashed nodes collide.\<close>

lemma merkle_climb_binding:
  assumes "sha3_len_ok E"
  shows "length p = length q \<Longrightarrow> merkle_climb E a i p = merkle_climb E b i q \<Longrightarrow> a \<noteq> b \<Longrightarrow>
    length a = 32 \<Longrightarrow> length b = 32 \<Longrightarrow> \<forall>x \<in> set p \<union> set q. length x = 32 \<Longrightarrow>
    collides (sha3_256 E) (climb_inputs E a i p) (climb_inputs E b i q)"
proof (induction p q arbitrary: a b i rule: list_induct2)
  case (Cons s p t q)
  let ?a = "if even i then node_input a s else node_input s a"
  let ?b = "if even i then node_input b t else node_input t b"
  have ne: "?a \<noteq> ?b" using Cons.prems by auto
  show ?case
  proof (cases "sha3_256 E ?a = sha3_256 E ?b")
    case True
    then show ?thesis using ne by (auto simp: Let_def collides_def collision_def)
  next
    case False
    have "collides (sha3_256 E) (climb_inputs E (sha3_256 E ?a) (i div 2) p)
        (climb_inputs E (sha3_256 E ?b) (i div 2) q)"
      by (rule Cons.IH [OF _ False])
        (use Cons.prems assms in \<open>auto simp: node_hash_input length_sha3 split: if_splits\<close>)
    then show ?thesis
      using collides_append(2) [of _ _ _ "[?a]" "[?b]"] by (auto simp: Let_def)
  qed
qed simp

text \<open>Equal roots over equally many 32-byte leaves come from equal leaves, or two nodes collide.\<close>

lemma next_level_binding:
  "next_level E xs = next_level E ys \<Longrightarrow> length xs = length ys \<Longrightarrow> xs \<noteq> ys \<Longrightarrow>
    \<forall>x \<in> set xs \<union> set ys. length x = 32 \<Longrightarrow> collides (sha3_256 E) (level_inputs xs) (level_inputs ys)"
proof (induction E xs arbitrary: ys rule: next_level.induct)
  case (2 E a)
  then obtain b where "ys = [b]" by (cases ys) auto
  with 2 show ?case by (auto simp: collides_def collision_def node_hash_input)
next
  case (3 E a b xs)
  then obtain c d zs where ys: "ys = c # d # zs" by (cases ys; cases "tl ys") auto
  show ?case
  proof (cases "(a, b) = (c, d)")
    case True
    then have "collides (sha3_256 E) (level_inputs xs) (level_inputs zs)" using 3 ys by auto
    then show ?thesis using ys by (auto simp: collides_def)
  next
    case False
    then show ?thesis using 3 ys by (auto simp: collides_def collision_def node_hash_input)
  qed
qed simp

lemma next_level_lengths:
  "sha3_len_ok E \<Longrightarrow> x \<in> set (next_level E xs) \<Longrightarrow> length x = 32"
  by (induction E xs rule: next_level.induct) auto

lemma tree_root_binding:
  "sha3_len_ok E \<Longrightarrow> tree_root E xs = tree_root E ys \<Longrightarrow> length xs = length ys \<Longrightarrow> xs \<noteq> ys \<Longrightarrow>
    \<forall>x \<in> set xs \<union> set ys. length x = 32 \<Longrightarrow> collides (sha3_256 E) (tree_inputs E xs) (tree_inputs E ys)"
proof (induction E xs arbitrary: ys rule: merkle_levels.induct)
  case (1 E xs)
  show ?case
  proof (cases "length xs > 1")
    case True
    have inputs: "tree_inputs E xs = level_inputs xs @ tree_inputs E (next_level E xs)"
      "tree_inputs E ys = level_inputs ys @ tree_inputs E (next_level E ys)"
      using True 1 tree_inputs.simps [of E] by simp_all
    show ?thesis
    proof (cases "next_level E xs = next_level E ys")
      case eq: True
      show ?thesis unfolding inputs
        by (intro collides_append(1) next_level_binding [OF eq]) (use 1 in auto)
    next
      case False
      show ?thesis unfolding inputs
        by (intro collides_append(2) "1.IH" [OF True "1.prems"(1) _ _ False])
          (use 1 True in \<open>auto simp: tree_root_step next_level_lengths\<close>)
    qed
  next
    case False
    then show ?thesis using 1 by (cases xs; cases ys) auto
  qed
qed

text \<open>
  The root does not determine the number of leaves: repeating the last of an odd number
  of leaves leaves it unchanged.  (The shard digests bind the record count separately.)
\<close>

lemma next_level_repeat_last:
  "odd (length xs) \<Longrightarrow> next_level E (xs @ [last xs]) = next_level E xs"
  by (induction E xs rule: next_level.induct) auto

lemma tree_root_repeat_last:
  assumes "odd (length xs)" "length xs > 1"
  shows "tree_root E (xs @ [last xs]) = tree_root E xs"
proof -
  have "length (xs @ [last xs]) > 1" using assms(2) by (cases xs) auto
  from tree_root_step [OF this, of E] tree_root_step [OF assms(2), of E] show ?thesis
    by (simp add: next_level_repeat_last assms(1))
qed

text \<open>Only the low bits of the index matter: as many as the path has siblings.\<close>

lemma merkle_climb_index_mod:
  "merkle_climb E a (i + k * 2 ^ length p) p = merkle_climb E a i p"
proof (induction p arbitrary: a i)
  case (Cons s p)
  have "(i + k * 2 ^ length (s # p)) div 2 = i div 2 + k * 2 ^ length p"
    by (simp add: algebra_simps)
  then show ?case using Cons by simp
qed simp

section \<open>Composing a zone\<close>

fun split_from :: "nat \<Rightarrow> nat \<Rightarrow> 'a list \<Rightarrow> nat \<Rightarrow> nat \<Rightarrow> nat \<Rightarrow> 'a list list" where
  "split_from base remain records s i 0 = []"
| "split_from base remain records s i (Suc k) =
     (let len = base + (if s < remain then 1 else 0)
      in take len (drop i records) # split_from base remain records (Suc s) (i + len) k)"

definition split_evenly :: "'a list \<Rightarrow> nat \<Rightarrow> 'a list list" where
  "split_evenly records n_shards =
     (if n_shards = 0 then []
      else split_from (length records div n_shards) (length records mod n_shards) records 0 0 n_shards)"

definition compute_merkle_root :: "ext \<Rightarrow> bytes \<Rightarrow> dns_record list \<Rightarrow> bytes option" where
  "compute_merkle_root E salt records =
     Option.bind (merkle_build E (map (leaf_hash E salt) records)) merkle_root"

lemma compute_merkle_root_eq:
  "compute_merkle_root E salt records =
     (if records = [] then None else Some (tree_root E (map (leaf_hash E salt) records)))"
  using merkle_root_tree_root [of E "map (leaf_hash E salt) records"]
  by (auto simp: compute_merkle_root_def merkle_build_def)

lemma length_split_from [simp]: "length (split_from b r xs s i k) = k"
  by (induction k arbitrary: s i) (auto simp: Let_def)

text \<open>The slices follow each other; after \<open>k\<close> of them the index has advanced by their sum.\<close>

lemma concat_split_from:
  "concat (split_from b r xs s i k) =
     take (k * b + (min (s + k) r - min s r)) (drop i xs)"
proof (induction k arbitrary: s i)
  case (Suc k)
  define len where "len = b + (if s < r then 1 else 0)"
  define m where "m = k * b + (min (Suc s + k) r - min (Suc s) r)"
  have sum: "Suc k * b + (min (s + Suc k) r - min s r) = len + m"
    by (auto simp: len_def m_def min_def)
  have "concat (split_from b r xs s i (Suc k)) =
      take len (drop i xs) @ take m (drop (i + len) xs)"
    by (simp only: split_from.simps Let_def concat.simps Suc len_def m_def)
  also have "\<dots> = take (len + m) (drop i xs)"
    by (simp add: take_add add.commute)
  finally show ?case by (simp only: sum)
qed simp

lemma concat_split_evenly:
  assumes "0 < n"
  shows "concat (split_evenly xs n) = xs"
proof -
  have r: "length xs mod n < n" using assms by simp
  have "n * (length xs div n) + length xs mod n = length xs" by simp
  then show ?thesis
    using assms r by (simp add: split_evenly_def concat_split_from min_def del: mult_div_mod_eq)
qed

lemma split_from_sizes:
  "i + (k * b + (min (s + k) r - min s r)) \<le> length xs \<Longrightarrow>
     ys \<in> set (split_from b r xs s i k) \<Longrightarrow> length ys = b \<or> length ys = Suc b"
proof (induction k arbitrary: s i)
  case (Suc k)
  let ?len = "b + (if s < r then 1 else 0)"
  have le: "i + ?len + (k * b + (min (Suc s + k) r - min (Suc s) r)) \<le> length xs"
    using Suc.prems(1) by (auto simp: min_def split: if_splits)
  from Suc.prems(2) consider "ys = take ?len (drop i xs)"
    | "ys \<in> set (split_from b r xs (Suc s) (i + ?len) k)"
    by (auto simp only: split_from.simps Let_def list.set)
  then show ?case
  proof cases
    case 1
    then show ?thesis using le by simp
  next
    case 2
    then show ?thesis by (rule Suc.IH [OF le])
  qed
qed simp

lemma split_evenly_sizes:
  assumes "ys \<in> set (split_evenly xs n)"
  shows "length ys = length xs div n \<or> length ys = Suc (length xs div n)"
proof (cases "n = 0")
  case False
  have r: "length xs mod n < n" using False by simp
  show ?thesis
    by (rule split_from_sizes [of 0 n _ 0 "length xs mod n" xs])
      (use assms False r in \<open>auto simp: split_evenly_def min_def\<close>)
qed (use assms in \<open>simp add: split_evenly_def\<close>)

lemma length_split_evenly [simp]: "length (split_evenly xs n) = n"
  by (simp add: split_evenly_def)

end
