(* ===== verification/Shard_Prover.thy ===== *)
theory Shard_Prover
  imports Dns_Zone
begin

text \<open>
  \<open>crates/swarm-dns/src/prover.rs\<close>: the folding schedule and domain sizes, the
  parameter record shared by prover and verifier, the \<open>pi_hash\<close> recipes and the inner and
  outer prove-and-self-verify routines; and \<open>handle_assign\<close> of the worker, which attests an
  inner proof.  A failed \<open>assert!\<close> is \<open>None\<close>.
\<close>

section \<open>Powers of two\<close>

fun is_power_of_two :: "nat \<Rightarrow> bool" where
  "is_power_of_two n =
     (if n = 0 then False else if n = 1 then True
      else if even n then is_power_of_two (n div 2) else False)"

fun trailing_zeros :: "nat \<Rightarrow> nat" where
  "trailing_zeros n = (if n = 0 then 64 else if odd n then 0 else Suc (trailing_zeros (n div 2)))"

declare is_power_of_two.simps [simp del] trailing_zeros.simps [simp del]

lemma is_power_of_two_pow [simp]: "is_power_of_two (2 ^ k)"
  by (induction k) (simp_all add: is_power_of_two.simps [of "2 ^ _"] is_power_of_two.simps [of "2 * 2 ^ _"]
      is_power_of_two.simps [of "Suc 0"])

lemma is_power_of_two_iff: "is_power_of_two n \<longleftrightarrow> (\<exists>k. n = 2 ^ k)"
proof
  show "is_power_of_two n \<Longrightarrow> \<exists>k. n = 2 ^ k"
  proof (induction n rule: is_power_of_two.induct)
    case (1 n)
    show ?case
    proof (cases "n = 1")
      case True
      then show ?thesis by (intro exI [of _ 0]) simp
    next
      case False
      with "1.prems" have n: "n \<noteq> 0" "even n" "is_power_of_two (n div 2)"
        by (auto simp: is_power_of_two.simps [of n] split: if_splits)
      from "1.IH" [OF n(1) False n(2,3)] obtain k where "n div 2 = 2 ^ k" by blast
      then have "n = 2 ^ Suc k" using n(2) by auto
      then show ?thesis by blast
    qed
  qed
qed auto

lemma trailing_zeros_pow [simp]: "trailing_zeros (2 ^ k) = k"
  by (induction k) (simp_all add: trailing_zeros.simps [of "2 * 2 ^ _"] trailing_zeros.simps [of "Suc 0"])

text \<open>\<open>usize::next_power_of_two\<close>: the least power of two that is not smaller.\<close>

function np2_from :: "nat \<Rightarrow> nat \<Rightarrow> nat" where
  "np2_from k x = (if x \<le> 2 ^ k then 2 ^ k else np2_from (Suc k) x)"
  by pat_completeness auto
termination
proof (relation "measure (\<lambda>(k, x). x - k)", simp)
  fix k x :: nat assume "\<not> x \<le> 2 ^ k"
  moreover have "k < 2 ^ k" by simp
  ultimately show "((Suc k, x), k, x) \<in> measure (\<lambda>(k, x). x - k)"
    unfolding in_measure prod.case by linarith
qed

declare np2_from.simps [simp del]

definition next_power_of_two :: "nat \<Rightarrow> nat" where
  "next_power_of_two x = np2_from 0 x"

definition next_pow2 :: "nat \<Rightarrow> nat" where
  "next_pow2 x = max (next_power_of_two x) 8"

lemma np2_from_spec:
  "(k = 0 \<or> 2 ^ (k - 1) < x) \<Longrightarrow>
     \<exists>m \<ge> k. np2_from k x = 2 ^ m \<and> x \<le> 2 ^ m \<and> (m = 0 \<or> 2 ^ (m - 1) < x)"
proof (induction k x rule: np2_from.induct)
  case (1 k x)
  show ?case
  proof (cases "x \<le> 2 ^ k")
    case True
    then show ?thesis using 1(2) by (intro exI [of _ k]) (simp add: np2_from.simps [of k x])
  next
    case False
    then obtain m where "m \<ge> Suc k" "np2_from (Suc k) x = 2 ^ m" "x \<le> 2 ^ m" "m = 0 \<or> 2 ^ (m - 1) < x"
      using 1(1) [OF False] by auto
    then show ?thesis using False by (intro exI [of _ m]) (simp add: np2_from.simps [of k x])
  qed
qed

lemma next_pow2_spec: "\<exists>m \<ge> 3. next_pow2 x = 2 ^ m \<and> x \<le> 2 ^ m \<and> (m = 3 \<or> 2 ^ m < 2 * x)"
proof -
  obtain m where m: "np2_from 0 x = 2 ^ m" "x \<le> 2 ^ m" "m = 0 \<or> 2 ^ (m - 1) < x"
    using np2_from_spec [of 0 x] by auto
  show ?thesis
  proof (cases "m \<le> 3")
    case True
    then have "(2::nat) ^ m \<le> 2 ^ 3" by (rule power_increasing) simp
    then show ?thesis
      using m by (intro exI [of _ 3]) (simp add: next_pow2_def next_power_of_two_def max_def)
  next
    case False
    then have "(2::nat) ^ 3 \<le> 2 ^ m" by (intro power_increasing) auto
    moreover have "2 ^ m = 2 * (2::nat) ^ (m - 1)" using False by (simp flip: power_Suc)
    ultimately show ?thesis
      using m False by (intro exI [of _ m]) (auto simp: next_pow2_def next_power_of_two_def max_def)
  qed
qed

text \<open>\<open>usize\<close> arithmetic of a 64-bit release build, written out where sizes come from a bundle: products wrap,
  and \<open>next_power_of_two\<close> wraps to 0 above 2^63. (A debug build panics on these overflows.) On the
  length of a vector in memory \<open>next_pow2_usize\<close> is \<open>next_pow2\<close>.\<close>

definition usize_mul :: "nat \<Rightarrow> nat \<Rightarrow> nat" where
  "usize_mul a b = a * b mod 2 ^ 64"

definition next_pow2_usize :: "nat \<Rightarrow> nat" where
  "next_pow2_usize x = max (next_power_of_two x mod 2 ^ 64) 8"

lemma usize_mul_less [simp]: "usize_mul a b < 2 ^ 64"
  by (simp add: usize_mul_def)

lemma usize_mul_exact: "a * b < 2 ^ 64 \<Longrightarrow> usize_mul a b = a * b"
  unfolding usize_mul_def by (rule mod_less)

lemma next_power_of_two_spec: "\<exists>m. next_power_of_two x = 2 ^ m \<and> x \<le> 2 ^ m \<and> (m = 0 \<or> 2 ^ (m - 1) < x)"
  using np2_from_spec [of 0 x] by (auto simp: next_power_of_two_def)

lemma next_pow2_usize_exact:
  assumes "x \<le> 2 ^ 63"
  shows "next_pow2_usize x = next_pow2 x"
proof -
  obtain m where m: "next_power_of_two x = 2 ^ m" "m = 0 \<or> 2 ^ (m - 1) < x" using next_power_of_two_spec by blast
  have "m < 64"
  proof (rule ccontr)
    assume "\<not> m < 64"
    then have "(2 :: nat) ^ 63 \<le> 2 ^ (m - 1)" by (intro power_increasing) simp_all
    then show False using m(2) assms \<open>\<not> m < 64\<close> by linarith
  qed
  then have "(2 :: nat) ^ m < 2 ^ 64" by (rule power_strict_increasing) simp
  then show ?thesis unfolding next_pow2_usize_def next_pow2_def m(1) by (simp only: mod_less)
qed

section \<open>Schedule and parameters\<close>

definition blowup :: nat where "blowup = 32"
definition num_queries_const :: nat where "num_queries_const = 54"
definition seed_z_const :: u64 where "seed_z_const = 0xDEEFBAAD"

fun is_stir :: "ldt_mode \<Rightarrow> bool" where
  "is_stir Stir = True"
| "is_stir Fri = False"

fun ldt_label :: "ldt_mode \<Rightarrow> string" where
  "ldt_label Stir = ''STIR''"
| "ldt_label Fri = ''FRI(arity-2)''"

definition make_schedule :: "nat \<Rightarrow> ldt_mode \<Rightarrow> nat list option" where
  "make_schedule n0 ldt =
     (if \<not> is_power_of_two n0 then None
      else let log_n0 = trailing_zeros n0
           in if \<not> is_stir ldt then Some (replicate log_n0 2)
              else let full_folds = log_n0 div 3; remainder_log = log_n0 mod 3
                   in Some (replicate full_folds 8 @
                            (if remainder_log > 0 then [2 ^ remainder_log] else [])))"

definition inner_n0_from_record_count :: "nat \<Rightarrow> nat" where
  "inner_n0_from_record_count record_count = usize_mul (next_pow2_usize (usize_mul record_count 4)) blowup"

definition outer_n0_from_pi_count :: "nat \<Rightarrow> nat" where
  "outer_n0_from_pi_count pi_count = usize_mul (next_pow2_usize (usize_mul pi_count 4)) blowup"

definition build_params :: "nat \<Rightarrow> bytes \<Rightarrow> ldt_mode \<Rightarrow> deep_fri_params option" where
  "build_params n0 pk_hash_32 ldt =
     map_option (\<lambda>sch.
       \<lparr>schedule = sch, num_queries = num_queries_const, seed_z = seed_z_const,
        coeff_commit_final = True, d_final = 1, stir = is_stir ldt,
        s0 = num_queries_const, public_inputs_hash = Some pk_hash_32\<rparr>)
     (make_schedule n0 ldt)"

lemma make_schedule_folds:
  assumes "make_schedule n0 ldt = Some sch"
  shows "prod_list sch = n0 \<and> (\<forall>m \<in> set sch. m \<in> {2, 4, 8})"
proof -
  have p: "is_power_of_two n0" using assms by (simp add: make_schedule_def split: if_splits)
  then obtain k where n0: "n0 = 2 ^ k" by (auto simp: is_power_of_two_iff)
  have "prod_list (replicate n (8::nat)) = 2 ^ (3 * n)" for n
    by (induction n) (simp_all add: power_add)
  moreover have "prod_list (replicate n (2::nat)) = 2 ^ n" for n
    by (induction n) simp_all
  moreover have "(2::nat) ^ (3 * (k div 3)) * 2 ^ (k mod 3) = 2 ^ k"
    by (simp flip: power_add)
  moreover have "k mod 3 = 0 \<or> k mod 3 = 1 \<or> k mod 3 = 2" by auto
  ultimately show ?thesis
    using assms by (auto simp: make_schedule_def Let_def n0 split: if_splits)
qed

lemma make_schedule_defined: "is_power_of_two n0 \<Longrightarrow> \<exists>s. make_schedule n0 ldt = Some s"
  by (simp add: make_schedule_def Let_def)

lemma n0_power_of_two:
  "is_power_of_two (next_pow2 x * blowup)"
proof -
  obtain m where "next_pow2 x = 2 ^ m" using next_pow2_spec by blast
  then have "next_pow2 x * blowup = 2 ^ (m + 5)" by (simp add: blowup_def power_add)
  then show ?thesis by simp
qed

lemma build_params_defined:
  "\<exists>p. build_params (next_pow2 x * blowup) h ldt = Some p"
  using make_schedule_defined [OF n0_power_of_two, of x ldt] by (auto simp: build_params_def)

text \<open>The product with the blow-up factor is a power of two exactly when it does not wrap; then four leaves
  for each record do not wrap either.\<close>

lemma usize_mul_blowup_pow:
  "is_power_of_two (usize_mul (2 ^ a) blowup) \<longleftrightarrow> a + 5 < 64"
  "a + 5 < 64 \<Longrightarrow> usize_mul (2 ^ a) blowup = 2 ^ (a + 5)"
proof -
  have e: "2 ^ a * blowup = 2 ^ (a + 5)" by (simp add: blowup_def power_add)
  have lt: "usize_mul (2 ^ a) blowup = 2 ^ (a + 5)" if "a + 5 < 64"
    using that unfolding usize_mul_def e by (intro mod_less power_strict_increasing) simp_all
  have ge: "usize_mul (2 ^ a) blowup = 0" if "\<not> a + 5 < 64"
    using that unfolding usize_mul_def e by (intro dvd_imp_mod_0 le_imp_power_dvd) simp_all
  show "usize_mul (2 ^ a) blowup = 2 ^ (a + 5)" if "a + 5 < 64" by (rule lt [OF that])
  show "is_power_of_two (usize_mul (2 ^ a) blowup) \<longleftrightarrow> a + 5 < 64"
    using lt ge by (cases "a + 5 < 64") (simp_all add: is_power_of_two.simps [of 0])
qed

lemma n0_no_wrap:
  assumes "is_power_of_two (usize_mul (next_pow2 (k * 4)) blowup)"
  shows "usize_mul (next_pow2 (k * 4)) blowup = inner_n0_from_record_count k"
    and "outer_n0_from_pi_count k = inner_n0_from_record_count k"
    and "k \<le> 2 ^ 56"
proof -
  obtain m where m: "next_pow2 (k * 4) = 2 ^ m" "k * 4 \<le> 2 ^ m" using next_pow2_spec by blast
  have "m \<le> 58" using assms unfolding m(1) usize_mul_blowup_pow by simp
  then have "(2 :: nat) ^ m \<le> 2 ^ 58" by (rule power_increasing) simp
  then have k: "k * 4 \<le> 2 ^ 58" using m(2) by linarith
  then have "usize_mul k 4 = k * 4" by (intro usize_mul_exact) simp
  moreover have "next_pow2_usize (k * 4) = next_pow2 (k * 4)" by (rule next_pow2_usize_exact) (use k in simp)
  ultimately show "usize_mul (next_pow2 (k * 4)) blowup = inner_n0_from_record_count k"
    by (simp add: inner_n0_from_record_count_def)
  show "outer_n0_from_pi_count k = inner_n0_from_record_count k"
    by (simp add: outer_n0_from_pi_count_def inner_n0_from_record_count_def)
  show "k \<le> 2 ^ 56" using k by simp
qed

lemma n0_small:
  assumes "x \<le> 2 ^ 58"
  shows "is_power_of_two (usize_mul (next_pow2 x) blowup)" "usize_mul (next_pow2 x) blowup = next_pow2 x * blowup"
proof -
  obtain m where m: "next_pow2 x = 2 ^ m" "m = 3 \<or> 2 ^ m < 2 * x" using next_pow2_spec by blast
  have "m < 59"
  proof (rule ccontr)
    assume "\<not> m < 59"
    then have "(2 :: nat) ^ 59 \<le> 2 ^ m" by (intro power_increasing) simp_all
    then show False using m(2) assms \<open>\<not> m < 59\<close> by auto
  qed
  then have m5: "m + 5 < 64" by simp
  show "is_power_of_two (usize_mul (next_pow2 x) blowup)" using m5 by (simp only: m(1) usize_mul_blowup_pow(1))
  show "usize_mul (next_pow2 x) blowup = next_pow2 x * blowup"
    unfolding m(1) usize_mul_blowup_pow(2) [OF m5] by (simp add: blowup_def power_add)
qed

lemma build_params_usize_defined:
  "x \<le> 2 ^ 58 \<Longrightarrow> \<exists>p. build_params (usize_mul (next_pow2 x) blowup) h ldt = Some p"
  using n0_small(2) [of x] build_params_defined [of x h ldt] by simp

lemma build_params_power: "build_params n0 h ldt = Some p \<Longrightarrow> is_power_of_two n0"
  by (auto simp: build_params_def make_schedule_def split: if_splits)

section \<open>Commitment recipes\<close>

definition inner_pi_hash :: "ext \<Rightarrow> bytes \<Rightarrow> nat \<Rightarrow> bytes \<Rightarrow> bytes \<Rightarrow> bytes \<Rightarrow> bytes" where
  "inner_pi_hash E salt record_count mroot root_f0 fs_binding =
     sha3_256_parts E [ascii ''DNS-SHARD-PIHASH-V1'', salt, le64 (word_of_nat record_count),
                       mroot, root_f0, fs_binding]"

text \<open>The string an inner \<open>pi_hash\<close> hashes.\<close>

definition inner_pi_input :: "bytes \<Rightarrow> nat \<Rightarrow> bytes \<Rightarrow> bytes \<Rightarrow> bytes \<Rightarrow> bytes" where
  "inner_pi_input s n m r f = ascii ''DNS-SHARD-PIHASH-V1'' @ s @ le64 (word_of_nat n) @ m @ r @ f"

lemma inner_pi_hash_input: "inner_pi_hash E s n m r f = sha3_256 E (inner_pi_input s n m r f)"
  by (simp add: inner_pi_hash_def inner_pi_input_def sha3_256_parts_def)

lemma inner_pi_hash_binding:
  assumes "inner_pi_hash E s n m r f = inner_pi_hash E s' n' m' r' f'"
    and "length s = 16" "length s' = 16" "length m = 32" "length m' = 32"
      "length r = 32" "length r' = 32" "n < 2 ^ 64" "n' < 2 ^ 64"
    and "(s, n, m, r, f) \<noteq> (s', n', m', r', f')"
  shows "collision (sha3_256 E) (inner_pi_input s n m r f) (inner_pi_input s' n' m' r' f')"
proof -
  have "(word_of_nat n :: u64) = word_of_nat n' \<Longrightarrow> n = n'"
    using assms(8,9) by (drule_tac arg_cong [of _ _ unat]) (simp add: unat_of_nat)
  then have "inner_pi_input s n m r f \<noteq> inner_pi_input s' n' m' r' f'"
    using assms(2-7,10) by (auto simp: inner_pi_input_def)
  then show ?thesis using assms(1) by (simp add: inner_pi_hash_input collision_def)
qed

text \<open>A 32-byte hash as four little-endian 64-bit leaves (\<open>air_workloads.rs\<close>).\<close>

fun chunks_exact :: "nat \<Rightarrow> nat \<Rightarrow> 'a list \<Rightarrow> 'a list list" where
  "chunks_exact 0 n xs = []"
| "chunks_exact (Suc k) n xs =
     (if length xs < n then [] else take n xs # chunks_exact k n (drop n xs))"

definition pack_hash_to_leaves :: "bytes \<Rightarrow> u64 list" where
  "pack_hash_to_leaves h = map of_le_bytes (chunks_exact 4 8 h)"

lemma length_pack_hash_to_leaves:
  "length h = 32 \<Longrightarrow> length (pack_hash_to_leaves h) = 4"
  by (simp add: pack_hash_to_leaves_def numeral_eq_Suc)

text \<open>The parameters of a rollup over at most 2^56 hashes exist.\<close>

lemma rollup_params_defined:
  assumes "length hs \<le> 2 ^ 56"
  shows "\<exists>p. build_params (usize_mul (next_pow2 (length (concat (map pack_hash_to_leaves hs)))) blowup) h ldt = Some p"
proof (rule build_params_usize_defined)
  have "length (pack_hash_to_leaves x) \<le> 4" for x by (simp add: pack_hash_to_leaves_def numeral_eq_Suc)
  then have "length (concat (map pack_hash_to_leaves hs)) \<le> 4 * length hs"
    by (induction hs) (auto intro: add_mono)
  also have "\<dots> \<le> 2 ^ 58" using assms by simp
  finally show "length (concat (map pack_hash_to_leaves hs)) \<le> 2 ^ 58" .
qed

definition pad_leaves :: "nat \<Rightarrow> u64 list \<Rightarrow> u64 list" where
  "pad_leaves n xs = (if length xs < n then xs @ replicate (n - length xs) 0 else take n xs)"

section \<open>Inner shard: prove, self-verify, commit\<close>

record inner_shard_output =
  is_pi_hash :: bytes
  is_merkle_root :: bytes
  is_record_count :: nat
  is_n_trace :: nat
  is_root_f0 :: bytes
  is_proof_blob :: bytes

definition prove_inner_shard ::
  "ext \<Rightarrow> 'p stark \<Rightarrow> bytes \<Rightarrow> dns_record list \<Rightarrow> bytes \<Rightarrow> ldt_mode \<Rightarrow> inner_shard_output option" where
  "prove_inner_shard E S salt records fs_binding ldt =
     (let leaf_hashes = map (leaf_hash E salt) records in
      case Option.bind (merkle_build E leaf_hashes) merkle_root of
        None \<Rightarrow> None
      | Some root \<Rightarrow>
          (let active_leaves = concat (map pack_hash_to_leaves leaf_hashes);
               n_trace = next_pow2 (length active_leaves);
               leaves = pad_leaves n_trace active_leaves;
               n0 = usize_mul n_trace blowup
           in case build_params n0 fs_binding ldt of
                None \<Rightarrow> None
              | Some params \<Rightarrow>
                  (let proof = stark_prove S leaves params
                   in if \<not> fri_verify S params proof then None
                      else Some
                        \<lparr>is_pi_hash = inner_pi_hash E salt (length records) root
                                        (root_f0_of S proof) fs_binding,
                         is_merkle_root = root,
                         is_record_count = length records,
                         is_n_trace = n_trace,
                         is_root_f0 = root_f0_of S proof,
                         is_proof_blob = proof_ser S proof\<rparr>)))"

lemma prove_inner_shard_Some:
  assumes "prove_inner_shard E S salt records fs ldt = Some out" and "sha3_len_ok E"
  obtains pf params where
    "records \<noteq> []"
    "build_params (inner_n0_from_record_count (length records)) fs ldt = Some params"
    "fri_verify S params pf"
    "is_proof_blob out = proof_ser S pf"
    "is_root_f0 out = root_f0_of S pf"
    "compute_merkle_root E salt records = Some (is_merkle_root out)"
    "is_pi_hash out = inner_pi_hash E salt (length records) (is_merkle_root out) (is_root_f0 out) fs"
    "is_record_count out = length records"
    "is_n_trace out = next_pow2 (length records * 4)"
    "inner_n0_from_record_count (length records) = usize_mul (is_n_trace out) blowup"
proof -
  have "length (pack_hash_to_leaves (leaf_hash E salt r)) = 4" for r
    using assms(2) by (simp add: length_pack_hash_to_leaves leaf_hash_def sha3_256_parts_def length_sha3)
  then have len: "length (concat (map pack_hash_to_leaves (map (leaf_hash E salt) records))) = length records * 4"
    by (induction records) auto
  then obtain params where "build_params (usize_mul (next_pow2 (length records * 4)) blowup) fs ldt = Some params"
    using assms(1) by (auto simp: prove_inner_shard_def Let_def split: option.splits)
  from n0_no_wrap(1) [OF build_params_power [OF this]] show ?thesis
    using assms(1) len
    by (intro that [of "the (build_params (inner_n0_from_record_count (length records)) fs ldt)"
          "stark_prove S (pad_leaves (next_pow2 (length records * 4))
             (concat (map pack_hash_to_leaves (map (leaf_hash E salt) records))))
           (the (build_params (inner_n0_from_record_count (length records)) fs ldt))"])
      (auto simp: prove_inner_shard_def Let_def compute_merkle_root_def merkle_build_def
        split: option.splits if_splits)
qed

section \<open>Outer rollup\<close>

record outer_rollup_output =
  or_n_trace :: nat
  or_root_f0 :: bytes
  or_proof_blob :: bytes
  or_n0 :: nat

definition prove_outer_rollup ::
  "'p stark \<Rightarrow> bytes list \<Rightarrow> bytes \<Rightarrow> ldt_mode \<Rightarrow> outer_rollup_output option" where
  "prove_outer_rollup S pi_hashes pk_hash_32 ldt =
     (let active = concat (map pack_hash_to_leaves pi_hashes);
          n_trace = next_pow2 (length active);
          leaves = pad_leaves n_trace active;
          n0 = usize_mul n_trace blowup
      in case build_params n0 pk_hash_32 ldt of
           None \<Rightarrow> None
         | Some params \<Rightarrow>
             (let proof = stark_prove S leaves params
              in if \<not> fri_verify S params proof then None
                 else Some \<lparr>or_n_trace = n_trace, or_root_f0 = root_f0_of S proof,
                            or_proof_blob = proof_ser S proof, or_n0 = n0\<rparr>))"

lemma length_concat_pack:
  "\<forall>h \<in> set hs. length h = 32 \<Longrightarrow> length (concat (map pack_hash_to_leaves hs)) = length hs * 4"
  by (induction hs) (auto simp: length_pack_hash_to_leaves)

lemma prove_outer_rollup_Some:
  assumes "prove_outer_rollup S pi_hashes pk_hash ldt = Some out"
    and "\<forall>h \<in> set pi_hashes. length h = 32"
  obtains pf params where
    "build_params (outer_n0_from_pi_count (length pi_hashes)) pk_hash ldt = Some params"
    "fri_verify S params pf"
    "or_proof_blob out = proof_ser S pf"
    "or_root_f0 out = root_f0_of S pf"
    "or_n0 out = outer_n0_from_pi_count (length pi_hashes)"
proof -
  let ?n0 = "usize_mul (next_pow2 (length pi_hashes * 4)) blowup"
  obtain params where "build_params ?n0 pk_hash ldt = Some params"
    using assms by (auto simp: prove_outer_rollup_def Let_def length_concat_pack split: option.splits)
  then have "?n0 = outer_n0_from_pi_count (length pi_hashes)"
    using n0_no_wrap(1,2) [OF build_params_power] by simp
  then show ?thesis
    using assms that by (auto simp: prove_outer_rollup_def Let_def length_concat_pack split: option.splits if_splits)
qed

section \<open>The worker's attested result\<close>

definition handle_assign ::
  "ext \<Rightarrow> 'p stark \<Rightarrow> bytes \<Rightarrow> f64_bits \<Rightarrow> f64_bits \<Rightarrow> keypair \<Rightarrow> shard_spec \<Rightarrow> shard_result option" where
  "handle_assign E S rnd prove_ms local_verify_ms authority spec =
     (let fs_binding = shard_fs_binding E (sp_authority_pk_hash spec) (sp_job_id spec)
                         (sp_shard_id spec) (sp_shard_nonce spec)
      in case prove_inner_shard E S (sp_zone_salt spec) (sp_records spec) fs_binding (sp_ldt spec) of
           None \<Rightarrow> None
         | Some out \<Rightarrow>
             (let digest = worker_attestation_digest E (sp_shard_id spec) (is_pi_hash out)
                             (is_merkle_root out) (is_root_f0 out)
              in Some
                \<lparr>sr_shard_id = sp_shard_id spec,
                 sr_pi_hash = is_pi_hash out,
                 sr_merkle_root = is_merkle_root out,
                 sr_root_f0 = is_root_f0 out,
                 sr_record_count = word_of_nat (is_record_count out),
                 sr_n_trace = word_of_nat (is_n_trace out),
                 sr_proof_bytes_len = word_of_nat (length (is_proof_blob out)),
                 sr_prove_ms = prove_ms,
                 sr_local_verify_ms = local_verify_ms,
                 sr_worker_sig = kp_sign E rnd authority digest,
                 sr_proof_blob = is_proof_blob out\<rparr>))"

end
