(* ===== verification/Ensemble.thy ===== *)
theory Ensemble
  imports Shard_Prover
begin

text \<open>
  \<open>swarm-ctrl\<close>: the k-replicated assignment state of one shard (\<open>ShardEnsemble\<close>) and the
  verdict over its responses (\<open>evaluate_ensemble\<close>).  The abstract specification is a vote:
  \<open>votes rs c\<close> counts the responses that claim \<open>c\<close>; the verdict accepts a claim exactly
  when a strict majority of the \<open>k\<close> replicas makes it (theorem \<open>evaluate_ensemble_spec\<close>).
\<close>

section \<open>Replica bookkeeping\<close>

type_synonym instant = nat  \<comment> \<open>monotonic clock, milliseconds\<close>

record response_entry =
  re_result :: shard_result
  re_worker_pk :: bytes

record shard_ensemble =
  en_spec :: shard_spec
  en_expected_merkle_root :: bytes
  en_target_k :: nat
  en_assigned :: "worker_id set"
  en_pending_workers :: "(worker_id, instant) hashmap"
  en_responses :: "(worker_id, response_entry) hashmap"
  en_attempts :: u32

definition slots_remaining :: "shard_ensemble \<Rightarrow> nat" where
  "slots_remaining ens =
     en_target_k ens - (length (en_pending_workers ens) + length (en_responses ens))"

section \<open>The verdict\<close>

datatype verdict =
    Pending
  | Accepted worker_id
  | MajorityWin worker_id "worker_id list"
  | AllConflict

type_synonym claim = "bytes \<times> bytes \<times> bytes"
type_synonym responses = "(worker_id, response_entry) hashmap"

definition claim_of :: "response_entry \<Rightarrow> claim" where
  "claim_of e = (sr_pi_hash (re_result e), sr_merkle_root (re_result e), sr_root_f0 (re_result e))"

definition push_bucket ::
  "claim \<Rightarrow> worker_id \<Rightarrow> (claim, worker_id list) hashmap \<Rightarrow> (claim, worker_id list) hashmap" where
  "push_bucket c w b = hm_insert c ((case hm_get b c of None \<Rightarrow> [] | Some ws \<Rightarrow> ws) @ [w]) b"

fun bucketize ::
  "(claim, worker_id list) hashmap \<Rightarrow> responses \<Rightarrow> (claim, worker_id list) hashmap" where
  "bucketize b [] = b"
| "bucketize b ((w, e) # rs) = bucketize (push_bucket (claim_of e) w b) rs"

definition evaluate_ensemble :: "shard_ensemble \<Rightarrow> verdict" where
  "evaluate_ensemble ens =
     (if length (en_responses ens) < en_target_k ens then Pending
      else
        let buckets = bucketize [] (en_responses ens) in
        if length buckets = 1 then Accepted (fst (hd (en_responses ens)))
        else
          let sizes = map (\<lambda>(c, v). length v) buckets;
              largest = foldr max sizes 0;
              largest_count = length (filter (\<lambda>n. n = largest) sizes);
              total = en_target_k ens
          in if largest * 2 > total \<and> largest_count = 1 then
               (let majority = (case find (\<lambda>(c, v). length v = largest) buckets of
                                  Some (c, v) \<Rightarrow> v | None \<Rightarrow> [])
                in MajorityWin (hd majority)
                     (concat (map snd (filter (\<lambda>(c, v). length v \<noteq> largest) buckets))))
             else AllConflict)"

section \<open>Votes\<close>

definition voters :: "responses \<Rightarrow> claim \<Rightarrow> worker_id list" where
  "voters rs c = map fst (filter (\<lambda>(w, e). claim_of e = c) rs)"

definition votes :: "responses \<Rightarrow> claim \<Rightarrow> nat" where
  "votes rs c = length (voters rs c)"

lemma voters_Nil [simp]: "voters [] c = []"
  by (simp add: voters_def)

lemma voters_Cons: "voters ((w, e) # rs) c = (if claim_of e = c then w # voters rs c else voters rs c)"
  by (simp add: voters_def)

lemma voters_in: "w \<in> set (voters rs c) \<longleftrightarrow> (\<exists>e. (w, e) \<in> set rs \<and> claim_of e = c)"
  by (force simp: voters_def)

lemma hm_ok_push [simp]: "hm_ok b \<Longrightarrow> hm_ok (push_bucket c w b)"
  unfolding push_bucket_def by (rule hm_ok_insert)

lemma hm_ok_bucketize: "hm_ok b \<Longrightarrow> hm_ok (bucketize b rs)"
  by (induction b rs rule: bucketize.induct) simp_all

lemma bucketize_get:
  "hm_get (bucketize b rs) c =
     (if voters rs c = [] then hm_get b c
      else Some ((case hm_get b c of None \<Rightarrow> [] | Some ws \<Rightarrow> ws) @ voters rs c))"
  by (induction b rs rule: bucketize.induct)
    (auto simp: voters_Cons push_bucket_def update_conv' split: option.splits)

lemma buckets_set:
  "(c, v) \<in> set (bucketize [] rs) \<longleftrightarrow> v = voters rs c \<and> v \<noteq> []"
proof -
  have ok: "hm_ok (bucketize [] rs)" by (rule hm_ok_bucketize) simp
  then have "(c, v) \<in> set (bucketize [] rs) \<longleftrightarrow> hm_get (bucketize [] rs) c = Some v" by simp
  then show ?thesis by (auto simp: bucketize_get)
qed

lemma bucket_keys: "fst ` set (bucketize [] rs) = (claim_of \<circ> snd) ` set rs"
proof -
  have "c \<in> fst ` set (bucketize [] rs) \<longleftrightarrow> voters rs c \<noteq> []" for c
    by (auto simp: buckets_set intro!: image_eqI [of _ _ "(c, voters rs c)"])
  moreover have "voters rs c \<noteq> [] \<longleftrightarrow> c \<in> (claim_of \<circ> snd) ` set rs" for c
    by (force simp: voters_def filter_empty_conv)
  ultimately show ?thesis by blast
qed

lemma length_buckets: "length (bucketize [] rs) = card ((claim_of \<circ> snd) ` set rs)"
  using distinct_card [OF hm_ok_bucketize [of "[]" rs]] by (simp add: bucket_keys)

text \<open>Two different claims share the responses between them.\<close>

lemma votes_disjoint: "c \<noteq> d \<Longrightarrow> votes rs c + votes rs d \<le> length rs"
  unfolding votes_def by (induction rs) (auto simp: voters_Cons)

lemma votes_le: "votes rs c \<le> length rs"
  by (simp add: votes_def voters_def)

lemma majority_unique:
  "length rs \<le> k \<Longrightarrow> k < 2 * votes rs c \<Longrightarrow> k < 2 * votes rs d \<Longrightarrow> c = d"
  using votes_disjoint [of c d rs] by linarith

lemma foldr_max_ge: "x \<in> set xs \<Longrightarrow> x \<le> foldr max xs (0::nat)"
  by (induction xs) auto

lemma foldr_max_in: "foldr max xs (0::nat) = 0 \<or> foldr max xs 0 \<in> set xs"
  by (induction xs) (auto simp: max_def)

section \<open>The verdict is the majority vote\<close>

definition accepts :: "verdict \<Rightarrow> worker_id \<Rightarrow> bool" where
  "accepts v w \<longleftrightarrow> v = Accepted w \<or> (\<exists>ds. v = MajorityWin w ds)"

lemma bucket_sizes:
  "n \<in> set (map (\<lambda>(c, v). length v) (bucketize [] rs)) \<longleftrightarrow> (\<exists>c. n = votes rs c \<and> n \<noteq> 0)"
  by (force simp: buckets_set votes_def)

lemma two_largest:
  assumes "length (filter (\<lambda>n. n = m) (map (\<lambda>(c, v). length v) (bucketize [] rs))) > 1"
  shows "\<exists>c d. c \<noteq> d \<and> votes rs c = m \<and> votes rs d = m"
proof -
  let ?b = "bucketize [] rs"
  define f where "f = filter (\<lambda>(c, v). length v = m) ?b"
  have "length f > 1"
    using assms by (simp add: f_def filter_map o_def case_prod_unfold)
  then obtain x y zs where f: "f = x # y # zs" by (cases f; cases "tl f") auto
  have "distinct (map fst ?b)" by (rule hm_ok_bucketize) simp
  then have "distinct (map fst f)" unfolding f_def by (rule distinct_map_filter)
  then have "fst x \<noteq> fst y" by (simp add: f)
  moreover have "x \<in> set f" "y \<in> set f" by (simp_all add: f)
  then have "votes rs (fst x) = m" "votes rs (fst y) = m"
    by (auto simp: f_def votes_def buckets_set)
  ultimately show ?thesis by blast
qed

lemma largest_votes:
  assumes "rs \<noteq> []"
  defines "largest \<equiv> foldr max (map (\<lambda>(c, v). length v) (bucketize [] rs)) 0"
  shows "votes rs c \<le> largest" and "\<exists>d. votes rs d = largest \<and> votes rs d \<noteq> 0"
proof -
  let ?s = "map (\<lambda>(c, v). length v) (bucketize [] rs)"
  show le: "votes rs c \<le> largest" for c
  proof (cases "votes rs c = 0")
    case False
    then have "votes rs c \<in> set ?s" by (auto simp only: bucket_sizes)
    then show ?thesis unfolding largest_def by (rule foldr_max_ge)
  qed simp
  obtain w e where "(w, e) \<in> set rs" using assms(1) by (cases rs) auto
  then have "w \<in> set (voters rs (claim_of e))" by (auto simp: voters_in)
  then have "votes rs (claim_of e) \<noteq> 0" unfolding votes_def by auto
  then have "largest \<noteq> 0" using le [of "claim_of e"] by linarith
  then have "largest \<in> set ?s" using foldr_max_in [of ?s] by (simp add: largest_def)
  then show "\<exists>d. votes rs d = largest \<and> votes rs d \<noteq> 0" by (auto simp only: bucket_sizes)
qed

lemma evaluate_unanimous:
  assumes "length (en_responses ens) = en_target_k ens" "en_target_k ens \<ge> 1"
    and "\<forall>x \<in> set (en_responses ens). claim_of (snd x) = c"
  shows "evaluate_ensemble ens = Accepted (fst (hd (en_responses ens)))"
proof -
  have ne: "en_responses ens \<noteq> []" using assms by auto
  have "(claim_of \<circ> snd) ` set (en_responses ens) = {c}" using ne assms(3) by (force simp: neq_Nil_conv)
  then show ?thesis using assms(1) by (simp add: evaluate_ensemble_def length_buckets)
qed

lemma evaluate_majority:
  assumes len: "length (en_responses ens) = en_target_k ens"
    and maj: "en_target_k ens < 2 * votes (en_responses ens) c"
    and other: "x \<in> set (en_responses ens)" "claim_of (snd x) \<noteq> c"
  shows "evaluate_ensemble ens = MajorityWin (hd (voters (en_responses ens) c))
           (concat (map snd (filter (\<lambda>(d, v). d \<noteq> c) (bucketize [] (en_responses ens)))))"
proof -
  let ?rs = "en_responses ens" let ?b = "bucketize [] ?rs"
  let ?s = "map (\<lambda>(c, v). length v) ?b"
  define largest where "largest = foldr max ?s 0"
  have ne: "?rs \<noteq> []" using other by auto
  obtain d where "votes ?rs d = largest" and c_le: "votes ?rs c \<le> largest"
    using largest_votes [OF ne] unfolding largest_def by blast
  then have lc: "votes ?rs c = largest"
    using majority_unique [of ?rs "en_target_k ens" c d] maj len by fastforce
  have uniq: "length v = largest \<longleftrightarrow> d = c" if "(d, v) \<in> set ?b" for d v
  proof
    have v: "length v = votes ?rs d" using that by (simp add: buckets_set votes_def)
    show "d = c" if "length v = largest"
    proof (rule majority_unique)
      show "length ?rs \<le> en_target_k ens" using len by simp
      show "en_target_k ens < 2 * votes ?rs d" using that v lc maj by simp
    qed (rule maj)
    show "length v = largest" if "d = c" using that v lc by simp
  qed
  have "votes ?rs c \<noteq> 0" using maj by auto
  then have inb: "(c, voters ?rs c) \<in> set ?b" by (auto simp: buckets_set votes_def)
  have cnt: "length (filter (\<lambda>n. n = largest) ?s) = 1"
  proof (rule ccontr)
    assume "length (filter (\<lambda>n. n = largest) ?s) \<noteq> 1"
    moreover have "largest \<in> set ?s" using inb lc by (force simp: votes_def)
    then have "filter (\<lambda>n. n = largest) ?s \<noteq> []" by (simp only: filter_empty_conv) blast
    then have "length (filter (\<lambda>n. n = largest) ?s) \<noteq> 0" by (simp only: length_0_conv) simp
    ultimately have "length (filter (\<lambda>n. n = largest) ?s) > 1" by linarith
    from two_largest [OF this] obtain a b where "a \<noteq> b" "votes ?rs a = largest" "votes ?rs b = largest"
      by blast
    then show False using majority_unique [of ?rs "en_target_k ens" a b] len maj lc by simp
  qed
  have find: "find (\<lambda>(c, v). length v = largest) ?b = Some (c, voters ?rs c)"
  proof (cases "find (\<lambda>(c, v). length v = largest) ?b")
    case None
    then have "\<not> (\<lambda>(c, v). length v = largest) (c, voters ?rs c)"
      using inb by (simp only: find_None_iff) blast
    then show ?thesis using uniq [OF inb] by simp
  next
    case (Some y)
    then have "y \<in> set ?b" "length (snd y) = largest"
      by (auto simp: find_Some_iff case_prod_unfold)
    then have "fst y = c" using uniq [of "fst y" "snd y"] by simp
    moreover have "(fst y, snd y) \<in> set ?b" using \<open>y \<in> set ?b\<close> by simp
    ultimately have "snd y = voters ?rs c" by (simp only: buckets_set)
    with \<open>fst y = c\<close> have "y = (c, voters ?rs c)" by (simp add: prod_eq_iff)
    with Some show ?thesis by simp
  qed
  have "card ((claim_of \<circ> snd) ` set ?rs) \<noteq> 1"
  proof
    assume "card ((claim_of \<circ> snd) ` set ?rs) = 1"
    then obtain a where a: "(claim_of \<circ> snd) ` set ?rs = {a}" by (auto simp: card_1_singleton_iff)
    moreover have "c \<in> (claim_of \<circ> snd) ` set ?rs" using inb bucket_keys [of ?rs] by force
    moreover have "(claim_of \<circ> snd) x \<in> (claim_of \<circ> snd) ` set ?rs" using other(1) by (rule imageI)
    ultimately show False using other(2) by (metis comp_apply singletonD)
  qed
  then have l1: "length ?b \<noteq> 1" by (simp add: length_buckets)
  have filt: "filter (\<lambda>(c, v). length v \<noteq> largest) ?b = filter (\<lambda>(d, v). d \<noteq> c) ?b"
    by (rule filter_cong) (use uniq in auto)
  have big: "largest * 2 > en_target_k ens" using maj lc by simp
  show ?thesis
    using len l1 cnt find filt big
    by (simp only: evaluate_ensemble_def Let_def flip: largest_def) simp
qed

text \<open>
  The specification.  With all \<open>k\<close> responses in: the verdict accepts a worker whose claim
  has a strict majority and names exactly the other claimants as dissenters; or it is
  \<open>AllConflict\<close> and no claim has a strict majority.
\<close>

lemma dissenters_set:
  "set (concat (map snd (filter (\<lambda>(d, v). d \<noteq> c) (bucketize [] rs)))) =
     {w. \<exists>e. (w, e) \<in> set rs \<and> claim_of e \<noteq> c}"
proof (rule set_eqI)
  fix w
  have "w \<in> set (concat (map snd (filter (\<lambda>(d, v). d \<noteq> c) (bucketize [] rs)))) \<longleftrightarrow>
      (\<exists>d v. (d, v) \<in> set (bucketize [] rs) \<and> d \<noteq> c \<and> w \<in> set v)"
    by force
  also have "\<dots> \<longleftrightarrow> (\<exists>d. d \<noteq> c \<and> w \<in> set (voters rs d))"
    by (simp only: buckets_set) (metis empty_iff empty_set)
  also have "\<dots> \<longleftrightarrow> w \<in> {w. \<exists>e. (w, e) \<in> set rs \<and> claim_of e \<noteq> c}"
    by (simp only: voters_in mem_Collect_eq) blast
  finally show "w \<in> set (concat (map snd (filter (\<lambda>(d, v). d \<noteq> c) (bucketize [] rs)))) \<longleftrightarrow>
      w \<in> {w. \<exists>e. (w, e) \<in> set rs \<and> claim_of e \<noteq> c}" .
qed

lemma evaluate_no_majority:
  assumes "length (en_responses ens) = en_target_k ens" "en_target_k ens \<ge> 1"
    and "\<And>c. 2 * votes (en_responses ens) c \<le> en_target_k ens"
  shows "evaluate_ensemble ens = AllConflict"
proof -
  let ?rs = "en_responses ens"
  have ne: "?rs \<noteq> []" using assms(1,2) by auto
  have small: "\<not> foldr max (map (\<lambda>(c, v). length v) (bucketize [] ?rs)) 0 * 2 > en_target_k ens"
    using largest_votes(2) [OF ne] assms(3) by (metis mult.commute not_le)
  have "length (bucketize [] ?rs) \<noteq> 1"
  proof
    assume "length (bucketize [] ?rs) = 1"
    then obtain a where a: "(claim_of \<circ> snd) ` set ?rs = {a}"
      by (auto simp: length_buckets card_1_singleton_iff)
    then have "filter (\<lambda>(w, e). claim_of e = a) ?rs = ?rs" by (force simp: filter_id_conv)
    then have "votes ?rs a = length ?rs" by (simp add: votes_def voters_def)
    then show False using assms(1,2) assms(3) [of a] by simp
  qed
  then show ?thesis using assms(1) small by (simp add: evaluate_ensemble_def Let_def)
qed

lemma evaluate_ensemble_majority_accepts:
  assumes "length (en_responses ens) = en_target_k ens" "hm_ok (en_responses ens)"
    and "en_target_k ens < 2 * votes (en_responses ens) c"
  shows "\<exists>w e. accepts (evaluate_ensemble ens) w \<and> (w, e) \<in> set (en_responses ens) \<and> claim_of e = c"
proof (cases "\<forall>x \<in> set (en_responses ens). claim_of (snd x) = c")
  case True
  have ne: "en_responses ens \<noteq> []" using assms(1,3) by (auto simp: votes_def)
  then have "hd (en_responses ens) \<in> set (en_responses ens)" by simp
  moreover have "en_target_k ens \<ge> 1" using assms(1) ne by (cases "en_responses ens") auto
  ultimately show ?thesis
    using evaluate_unanimous [OF assms(1) _ True] True
    by (intro exI [of _ "fst (hd (en_responses ens))"] exI [of _ "snd (hd (en_responses ens))"])
      (auto simp: accepts_def)
next
  case False
  then obtain x where "x \<in> set (en_responses ens)" "claim_of (snd x) \<noteq> c" by blast
  from evaluate_majority [OF assms(1,3) this]
  have "accepts (evaluate_ensemble ens) (hd (voters (en_responses ens) c))"
    by (simp add: accepts_def)
  moreover have "voters (en_responses ens) c \<noteq> []" using assms(3) by (auto simp: votes_def)
  then have "hd (voters (en_responses ens) c) \<in> set (voters (en_responses ens) c)" by simp
  then obtain e where "(hd (voters (en_responses ens) c), e) \<in> set (en_responses ens)" "claim_of e = c"
    by (auto simp: voters_in)
  ultimately show ?thesis by blast
qed

lemma evaluate_cases:
  assumes "hm_ok (en_responses ens)" "length (en_responses ens) \<le> en_target_k ens"
    and "en_target_k ens \<ge> 1"
  obtains
    (pending) "evaluate_ensemble ens = Pending" "length (en_responses ens) < en_target_k ens"
  | (unanimous) w e where "evaluate_ensemble ens = Accepted w" "(w, e) \<in> set (en_responses ens)"
      "length (en_responses ens) = en_target_k ens"
      "\<forall>x \<in> set (en_responses ens). claim_of (snd x) = claim_of e"
  | (majority) w e ds where "evaluate_ensemble ens = MajorityWin w ds"
      "(w, e) \<in> set (en_responses ens)" "length (en_responses ens) = en_target_k ens"
      "en_target_k ens < 2 * votes (en_responses ens) (claim_of e)"
      "set ds = {v. \<exists>e'. (v, e') \<in> set (en_responses ens) \<and> claim_of e' \<noteq> claim_of e}"
  | (conflict) "evaluate_ensemble ens = AllConflict" "length (en_responses ens) = en_target_k ens"
      "\<And>c. 2 * votes (en_responses ens) c \<le> en_target_k ens"
proof (cases "length (en_responses ens) < en_target_k ens")
  case True
  then show thesis by (intro pending) (simp_all add: evaluate_ensemble_def)
next
  case False
  then have len: "length (en_responses ens) = en_target_k ens" using assms(2) by simp
  show thesis
  proof (cases "\<exists>c. en_target_k ens < 2 * votes (en_responses ens) c")
    case True
    then obtain c where maj: "en_target_k ens < 2 * votes (en_responses ens) c" by blast
    show thesis
    proof (cases "\<forall>x \<in> set (en_responses ens). claim_of (snd x) = c")
      case True
      have "hd (en_responses ens) \<in> set (en_responses ens)" using len assms(3) by (intro hd_in_set) auto
      then show thesis
        using evaluate_unanimous [OF len assms(3) True] True len
        by (intro unanimous [of "fst (hd (en_responses ens))" "snd (hd (en_responses ens))"]) auto
    next
      case False
      then obtain x where x: "x \<in> set (en_responses ens)" "claim_of (snd x) \<noteq> c" by blast
      have "voters (en_responses ens) c \<noteq> []" using maj by (auto simp: votes_def)
      then have "hd (voters (en_responses ens) c) \<in> set (voters (en_responses ens) c)" by simp
      then obtain e where "(hd (voters (en_responses ens) c), e) \<in> set (en_responses ens)" "claim_of e = c"
        by (auto simp: voters_in)
      then show thesis
        using evaluate_majority [OF len maj x] len maj
        by (intro majority) (auto simp only: dissenters_set)
    qed
  next
    case False
    then show thesis
      using evaluate_no_majority [OF len assms(3)] len by (intro conflict) (auto simp: not_less)
  qed
qed

end
