(* ===== verification/Roster_Session.thy ===== *)
theory Roster_Session
  imports Shard_Prover "HOL-Library.Multiset"
begin

text \<open>
  \<open>swarm-ctrl\<close>: the worker roster and the per-connection session task
  (\<open>handle_session\<close>).  A session handles one input at a time under the roster lock and
  returns the new roster, its outputs (frames to the worker, events to the zone job,
  archived receipts) and whether it goes on.  The step relation \<open>ctrl_step\<close> interleaves
  the sessions and the removals done by the zone job; its safety properties are proved
  through the locale \<open>safe_system\<close>.
\<close>

section \<open>Transition systems with an invariant\<close>

locale safe_system =
  fixes init :: "'s \<Rightarrow> bool" and step :: "'s \<Rightarrow> 's \<Rightarrow> bool" and inv :: "'s \<Rightarrow> bool"
  assumes inv_init: "init s \<Longrightarrow> inv s"
    and inv_step: "inv s \<Longrightarrow> step s t \<Longrightarrow> inv t"
begin

lemma inv_steps: "step\<^sup>*\<^sup>* s t \<Longrightarrow> inv s \<Longrightarrow> inv t"
  by (induction rule: rtranclp_induct) (auto intro: inv_step)

lemma reachable_inv: "init s \<Longrightarrow> step\<^sup>*\<^sup>* s t \<Longrightarrow> inv t"
  by (blast intro: inv_init inv_steps)

end

section \<open>Roster\<close>

record worker_entry =
  we_id :: worker_id
  we_node_id :: string
  we_capabilities :: capabilities
  we_pk_fp :: bytes
  we_ml_dsa_pk :: bytes
  we_last_seen :: nat

record roster =
  ro_next_id :: worker_id
  ro_workers :: "(worker_id, worker_entry) hashmap"

definition roster_default :: roster where
  "roster_default = \<lparr>ro_next_id = 0, ro_workers = []\<rparr>"

definition roster_allocate :: "roster \<Rightarrow> worker_id \<times> roster" where
  "roster_allocate r = (let n = ro_next_id r + 1 in (n, r\<lparr>ro_next_id := n\<rparr>))"

definition roster_insert :: "worker_entry \<Rightarrow> roster \<Rightarrow> roster" where
  "roster_insert ws r = r\<lparr>ro_workers := hm_insert (we_id ws) ws (ro_workers r)\<rparr>"

definition roster_touch :: "nat \<Rightarrow> worker_id \<Rightarrow> roster \<Rightarrow> bool \<times> roster" where
  "roster_touch now wid r =
     (case hm_get (ro_workers r) wid of
        Some ws \<Rightarrow> (True, r\<lparr>ro_workers := hm_insert wid (ws\<lparr>we_last_seen := now\<rparr>) (ro_workers r)\<rparr>)
      | None \<Rightarrow> (False, r))"

definition roster_remove :: "worker_id \<Rightarrow> roster \<Rightarrow> worker_entry option \<times> roster" where
  "roster_remove wid r =
     (hm_get (ro_workers r) wid, r\<lparr>ro_workers := hm_remove wid (ro_workers r)\<rparr>)"

definition roster_count :: "roster \<Rightarrow> nat" where
  "roster_count r = length (ro_workers r)"

definition roster_ids :: "roster \<Rightarrow> worker_id list" where
  "roster_ids r = sort (hm_keys (ro_workers r))"

lemmas roster_op_defs = roster_allocate_def roster_insert_def roster_touch_def roster_remove_def

section \<open>Session inputs and outputs\<close>

datatype ctrl_mode = Primary | Witness

datatype session_event =
    EvRegistered worker_id
  | EvShardDone worker_id shard_result
  | EvShardFailed worker_id u32 string
  | EvDisconnected worker_id

datatype session_out = Send server_msg | Emit session_event | Archive shard_receipt

datatype session_ctl = Continue | Break | Fail

record session_cfg =
  sc_allowlist :: "bytes set option"
  sc_mode :: ctrl_mode
  sc_heartbeat_secs :: u32
  sc_ctrl_label :: string
  sc_authority :: keypair

text \<open>What the environment supplies to one iteration: clocks, signing randomness, and
  whether writing a frame to the socket succeeds.\<close>

record session_inp =
  si_now :: nat
  si_unix_ms :: u64
  si_rnd :: bytes
  si_write_ok :: bool

definition after_write :: "session_inp \<Rightarrow> server_msg \<Rightarrow> session_out list \<times> session_ctl" where
  "after_write inp msg = (if si_write_ok inp then ([Send msg], Continue) else ([], Fail))"

text \<open>\<open>std::mem::discriminant\<close> of a message, as its \<open>Debug\<close> form counts the variants.\<close>

fun msg_discriminant :: "client_msg \<Rightarrow> nat" where
  "msg_discriminant (Register _ _ _) = 0"
| "msg_discriminant (Heartbeat _) = 1"
| "msg_discriminant (ShardDone _ _) = 2"
| "msg_discriminant (WorkerEvidence _) = 3"
| "msg_discriminant (ShardFailed _ _ _) = 4"
| "msg_discriminant (Goodbye _) = 5"

text \<open>The first frame.  \<open>None\<close>: the session ends without a worker id.\<close>

definition session_first ::
  "ext \<Rightarrow> session_cfg \<Rightarrow> session_inp \<Rightarrow> client_msg \<Rightarrow> roster \<Rightarrow>
     roster \<times> session_out list \<times> worker_id option" where
  "session_first E cfg inp first r =
     (case first of
        Register node_id ml_dsa_pk caps \<Rightarrow>
          (let pk_fp = sha3_256 E ml_dsa_pk in
           if (case sc_allowlist cfg of None \<Rightarrow> False | Some allowed \<Rightarrow> pk_fp \<notin> allowed) then
             (r, fst (after_write inp (RegisterDenied ''worker pk fingerprint not in controller allowlist'')), None)
           else
             (let (wid, r1) = roster_allocate r;
                  r2 = roster_insert \<lparr>we_id = wid, we_node_id = node_id, we_capabilities = caps,
                         we_pk_fp = pk_fp, we_ml_dsa_pk = ml_dsa_pk, we_last_seen = si_now inp\<rparr> r1
              in if si_write_ok inp then
                   (r2, [Send (RegisterAck wid (sc_heartbeat_secs cfg) (sc_ctrl_label cfg)),
                         Emit (EvRegistered wid)], Some wid)
                 else (r2, [], None)))
      | _ \<Rightarrow> (r, fst (after_write inp (RegisterDenied
             (''expected Register, got Discriminant('' @ decimal (msg_discriminant first) @ '')''))), None))"

definition mk_receipt ::
  "ext \<Rightarrow> bytes \<Rightarrow> keypair \<Rightarrow> bytes \<Rightarrow> u32 \<Rightarrow> worker_id \<Rightarrow> bytes \<Rightarrow> bytes \<Rightarrow> u64 \<Rightarrow> shard_receipt" where
  "mk_receipt E rnd authority job_id shard_id w pi_hash mroot now_ms =
     \<lparr>rc_job_id = job_id, rc_shard_id = shard_id, rc_worker_id = w, rc_pi_hash = pi_hash,
      rc_merkle_root = mroot, rc_accepted_at_unix_ms = now_ms,
      rc_ctrl_authority_pk = kp_pk authority,
      rc_ctrl_sig = kp_sign E rnd authority
        (ctrl_receipt_digest E job_id shard_id w pi_hash mroot now_ms)\<rparr>"

definition session_evidence ::
  "ext \<Rightarrow> session_cfg \<Rightarrow> session_inp \<Rightarrow> worker_evidence \<Rightarrow> roster \<Rightarrow>
     session_out list \<times> session_ctl" where
  "session_evidence E cfg inp ev r =
     (if sc_mode cfg \<noteq> Witness then ([], Continue)
      else case hm_get (ro_workers r) (ev_worker_id ev) of
        None \<Rightarrow> ([], Continue)
      | Some ws \<Rightarrow>
          (let attest_dig = worker_attestation_digest E (ev_shard_id ev) (ev_pi_hash ev)
                              (ev_merkle_root ev) (ev_root_f0 ev)
           in if \<not> verify_worker_sig E (we_ml_dsa_pk ws) attest_dig (ev_worker_sig ev)
              then ([], Continue)
              else (let receipt = mk_receipt E (si_rnd inp) (sc_authority cfg) (ev_job_id ev)
                          (ev_shard_id ev) (ev_worker_id ev) (ev_pi_hash ev) (ev_merkle_root ev)
                          (si_unix_ms inp);
                        (outs, ctl) = after_write inp (Receipt receipt)
                    in (Archive receipt # outs, ctl))))"

fun session_message ::
  "ext \<Rightarrow> session_cfg \<Rightarrow> session_inp \<Rightarrow> frame_error + client_msg \<Rightarrow> roster \<Rightarrow>
     roster \<times> session_out list \<times> session_ctl" where
  "session_message E cfg inp (Inr (Heartbeat hb_id)) r =
     (snd (roster_touch (si_now inp) hb_id r), after_write inp HeartbeatAck)"
| "session_message E cfg inp (Inr (ShardDone w result)) r =
     (r, if sc_mode cfg = Witness then ([], Continue) else ([Emit (EvShardDone w result)], Continue))"
| "session_message E cfg inp (Inr (ShardFailed w shard_id reason)) r =
     (r, [Emit (EvShardFailed w shard_id reason)], Continue)"
| "session_message E cfg inp (Inr (WorkerEvidence ev)) r = (r, session_evidence E cfg inp ev r)"
| "session_message E cfg inp (Inr (Goodbye bye_id)) r = (r, [], Break)"
| "session_message E cfg inp (Inr (Register a b c)) r = (r, [], Continue)"
| "session_message E cfg inp (Inl IoEof) r = (r, [], Break)"
| "session_message E cfg inp (Inl e) r = (r, [], Fail)"

text \<open>A message pushed by the zone job; \<open>None\<close> is a closed channel.\<close>

fun session_push :: "session_inp \<Rightarrow> server_msg option \<Rightarrow> session_out list \<times> session_ctl" where
  "session_push inp None = ([], Break)"
| "session_push inp (Some msg) = after_write inp msg"

text \<open>After the loop: \<open>Break\<close> runs the clean-up, \<open>Fail\<close> (an error returned with \<open>?\<close>) does not.\<close>

definition session_end :: "worker_id \<Rightarrow> session_ctl \<Rightarrow> roster \<Rightarrow> roster \<times> session_out list" where
  "session_end worker_id ctl r =
     (if ctl = Break then (snd (roster_remove worker_id r), [Emit (EvDisconnected worker_id)])
      else (r, []))"

section \<open>The controller's sessions as a transition system\<close>

inductive ctrl_step :: "ext \<Rightarrow> session_cfg \<Rightarrow> roster \<Rightarrow> roster \<Rightarrow> bool" for E cfg where
  register: "session_first E cfg inp msg r = (r', outs, res) \<Longrightarrow> ctrl_step E cfg r r'"
| message: "session_message E cfg inp m r = (r1, outs, ctl) \<Longrightarrow>
    session_end w ctl r1 = (r', outs') \<Longrightarrow> ctrl_step E cfg r r'"
| push: "session_push inp m = (outs, ctl) \<Longrightarrow> session_end w ctl r = (r', outs') \<Longrightarrow>
    ctrl_step E cfg r r'"
| job_remove: "ctrl_step E cfg r (snd (roster_remove w r))"
| rehash: "mset ws = mset (ro_workers r) \<Longrightarrow> ctrl_step E cfg r (r\<lparr>ro_workers := ws\<rparr>)"

inductive_cases ctrl_stepE: "ctrl_step E cfg r r'"

text \<open>
  Every registered worker is keyed by its id, its fingerprint is the hash of its key, and
  with an allowlist the fingerprint is listed.
\<close>

definition entry_ok :: "ext \<Rightarrow> session_cfg \<Rightarrow> worker_entry \<Rightarrow> bool" where
  "entry_ok E cfg ws \<longleftrightarrow> we_pk_fp ws = sha3_256 E (we_ml_dsa_pk ws) \<and>
     (\<forall>allowed. sc_allowlist cfg = Some allowed \<longrightarrow> we_pk_fp ws \<in> allowed)"

definition roster_inv :: "ext \<Rightarrow> session_cfg \<Rightarrow> roster \<Rightarrow> bool" where
  "roster_inv E cfg r \<longleftrightarrow> hm_ok (ro_workers r) \<and>
     (\<forall>(wid, ws) \<in> set (ro_workers r). we_id ws = wid \<and> entry_ok E cfg ws)"

lemma roster_invI [inv_intros]:
  "hm_ok (ro_workers r) \<Longrightarrow>
   (\<And>wid ws. (wid, ws) \<in> set (ro_workers r) \<Longrightarrow> we_id ws = wid \<and> entry_ok E cfg ws) \<Longrightarrow>
   roster_inv E cfg r"
  by (auto simp: roster_inv_def)

lemma roster_inv_default: "roster_inv E cfg roster_default"
  by (simp add: roster_inv_def roster_default_def)

lemma roster_inv_insert [inv_intros]:
  assumes "roster_inv E cfg r" "entry_ok E cfg ws"
  shows "roster_inv E cfg (roster_insert ws r)"
  using assms by (fastforce simp: roster_inv_def roster_insert_def dest: hm_in_insert)

lemma roster_inv_allocate [inv_intros]:
  "roster_inv E cfg r \<Longrightarrow> roster_inv E cfg (snd (roster_allocate r))"
  by (simp add: roster_inv_def roster_allocate_def Let_def)

lemma roster_inv_touch [inv_intros]:
  assumes "roster_inv E cfg r"
  shows "roster_inv E cfg (snd (roster_touch now wid r))"
proof (cases "hm_get (ro_workers r) wid")
  case (Some ws)
  then have "we_id ws = wid" "entry_ok E cfg ws"
    using assms by (auto simp: roster_inv_def dest: map_of_SomeD)
  then have "roster_inv E cfg (roster_insert (ws\<lparr>we_last_seen := now\<rparr>) r)"
    using assms by (intro roster_inv_insert) (auto simp: entry_ok_def)
  then show ?thesis
    using Some \<open>we_id ws = wid\<close> by (simp add: roster_touch_def roster_insert_def)
qed (use assms in \<open>simp add: roster_touch_def\<close>)

lemma roster_inv_remove [inv_intros]:
  "roster_inv E cfg r \<Longrightarrow> roster_inv E cfg (snd (roster_remove w r))"
  by (auto simp: roster_inv_def roster_remove_def hm_in_remove)

lemma roster_inv_first [inv_intros]:
  assumes "roster_inv E cfg r" "session_first E cfg inp msg r = (r', outs, res)"
  shows "roster_inv E cfg r'"
proof (cases msg)
  case (Register node pk caps)
  let ?ws = "\<lparr>we_id = fst (roster_allocate r), we_node_id = node, we_capabilities = caps,
    we_pk_fp = sha3_256 E pk, we_ml_dsa_pk = pk, we_last_seen = si_now inp\<rparr>"
  have "r' = r \<or> (entry_ok E cfg ?ws \<and> r' = roster_insert ?ws (snd (roster_allocate r)))"
    using assms(2) Register
    by (auto simp: session_first_def Let_def entry_ok_def split: if_splits option.splits prod.splits)
  then show ?thesis using assms(1) by (auto intro: inv_intros)
qed (use assms in \<open>auto simp: session_first_def\<close>)

lemma session_message_roster:
  "session_message E cfg inp m r = (r1, outs, ctl) \<Longrightarrow>
     r1 = r \<or> (\<exists>now wid. r1 = snd (roster_touch now wid r))"
  by (induction E cfg inp m r rule: session_message.induct) auto

lemma roster_inv_end [inv_intros]:
  "roster_inv E cfg r \<Longrightarrow> session_end w ctl r = (r', outs) \<Longrightarrow> roster_inv E cfg r'"
  by (auto simp: session_end_def split: if_splits intro: inv_intros)

lemma roster_inv_rehash [inv_intros]:
  assumes "roster_inv E cfg r" "mset ws = mset (ro_workers r)"
  shows "roster_inv E cfg (r\<lparr>ro_workers := ws\<rparr>)"
proof -
  have "mset (map fst ws) = mset (map fst (ro_workers r))"
    using assms(2) by simp
  then have "hm_ok ws"
    using assms(1) mset_eq_imp_distinct_iff unfolding roster_inv_def by blast
  moreover have "set ws = set (ro_workers r)"
    using assms(2) by (rule mset_eq_setD)
  ultimately show ?thesis
    using assms(1) by (simp add: roster_inv_def)
qed

lemma roster_inv_step:
  assumes "roster_inv E cfg r" "ctrl_step E cfg r r'"
  shows "roster_inv E cfg r'"
  using assms(2)
proof (cases rule: ctrl_step.cases)
  case (message inp m r1 outs ctl w outs')
  then have "roster_inv E cfg r1"
    using assms(1) session_message_roster by (blast intro: inv_intros)
  then show ?thesis using message(2) by (rule roster_inv_end)
qed (use assms(1) in \<open>auto intro: inv_intros\<close>)

interpretation sessions: safe_system "\<lambda>r. r = roster_default" "ctrl_step E cfg" "roster_inv E cfg"
  for E cfg
  by unfold_locales (auto intro: roster_inv_default roster_inv_step)

section \<open>Identifiers\<close>

text \<open>The \<open>n\<close>-th allocation returns \<open>n mod 2\<^sup>3\<^sup>2\<close>; below \<open>2\<^sup>3\<^sup>2\<close> it is new.\<close>

fun allocate_n :: "nat \<Rightarrow> roster \<Rightarrow> roster" where
  "allocate_n 0 r = r"
| "allocate_n (Suc n) r = snd (roster_allocate (allocate_n n r))"

lemma allocate_n_next: "ro_next_id (allocate_n n r) = ro_next_id r + word_of_nat n"
  by (induction n) (simp_all add: roster_allocate_def Let_def)

lemma allocated_ids_distinct:
  assumes "m < n" "n < 2 ^ 32"
  shows "fst (roster_allocate (allocate_n m r)) \<noteq> fst (roster_allocate (allocate_n n r))"
proof
  assume "fst (roster_allocate (allocate_n m r)) = fst (roster_allocate (allocate_n n r))"
  then have "(word_of_nat m :: u32) = word_of_nat n"
    by (simp add: roster_allocate_def allocate_n_next Let_def)
  then show False using assms word_of_nat_eq_u32 [of m n] by simp
qed

lemma allocated_id_wraps:
  "fst (roster_allocate (allocate_n (2 ^ 32) r)) = fst (roster_allocate r)"
proof -
  have "(word_of_nat (2 ^ 32) :: u32) = 0"
    by (simp add: word_eq_iff_unsigned unat_of_nat flip: unat_eq_zero)
  then show ?thesis by (simp add: roster_allocate_def allocate_n_next Let_def del: of_nat_power)
qed

end
