(* ===== verification/Zone_Job.thy ===== *)
theory Zone_Job
  imports Ensemble Roster_Session
begin

text \<open>
  \<open>zone_job\<close> of \<open>swarm-ctrl\<close>: the orchestrator that replicates every shard on \<open>k\<close> workers,
  validates what they return and collects one result per shard.  The state \<open>job\<close> holds the
  task's local variables; a handler returns the new state and its effects (frames pushed to
  sessions, removals from the shared roster).  What the task observes of other tasks (roster
  snapshots taken under separate lock acquisitions, channel sends, clocks) is input.
\<close>

section \<open>State\<close>

record job_cfg =
  jc_salt :: bytes
  jc_ldt :: ldt_mode
  jc_replication :: nat
  jc_heartbeat_secs :: u32
  jc_shard_deadline :: nat  \<comment> \<open>milliseconds\<close>
  jc_authority :: keypair
  jc_job_id :: bytes

definition replicas :: "job_cfg \<Rightarrow> nat" where
  "replicas cfg = max (jc_replication cfg) 1"

datatype job_status = Running | Done | Stuck | Aborted | Closed | Panicked

type_synonym attestation = "worker_id \<times> bytes \<times> bytes \<times> f64_bits"

record job =
  j_queue :: "u32 list"
  j_ensembles :: "(u32, shard_ensemble) hashmap"
  j_expected :: "(u32, bytes) hashmap"
  j_nonces :: "(u32, bytes) hashmap"
  j_total :: nat
  j_busy :: "worker_id set"
  j_blacklisted :: "worker_id set"
  j_results :: "(u32, shard_result) hashmap"
  j_attestations :: "(u32, attestation list) hashmap"
  j_status :: job_status

datatype job_effect =
    SendAssign worker_id shard_spec
  | SendReceipt worker_id shard_receipt
  | RosterRemove worker_id

section \<open>Setting up the ensembles\<close>

definition new_ensemble ::
  "ext \<Rightarrow> job_cfg \<Rightarrow> u32 \<Rightarrow> bytes \<Rightarrow> bytes \<Rightarrow> dns_record list \<Rightarrow> shard_ensemble" where
  "new_ensemble E cfg shard_id nonce expected_root shard_records =
     \<lparr>en_spec = \<lparr>sp_shard_id = shard_id, sp_zone_salt = jc_salt cfg,
                 sp_authority_pk_hash = pk_binding_hash E (kp_pk (jc_authority cfg)),
                 sp_job_id = jc_job_id cfg, sp_shard_nonce = nonce, sp_ldt = jc_ldt cfg,
                 sp_records = shard_records\<rparr>,
      en_expected_merkle_root = expected_root,
      en_target_k = replicas cfg,
      en_assigned = {}, en_pending_workers = [], en_responses = [], en_attempts = 0\<rparr>"

text \<open>The loop over \<open>shards.iter().enumerate()\<close>; \<open>None\<close>: \<open>merkle_build\<close> of an empty shard.\<close>

fun build_ensembles ::
  "ext \<Rightarrow> job_cfg \<Rightarrow> (nat \<Rightarrow> bytes) \<Rightarrow> nat \<Rightarrow> dns_record list list \<Rightarrow> job \<Rightarrow> job option" where
  "build_ensembles E cfg nonces i [] j = Some j"
| "build_ensembles E cfg nonces i (shard_records # shards) j =
     (let shard_id = word_of_nat i + 1; nonce = nonces i in
      case compute_merkle_root E (jc_salt cfg) shard_records of
        None \<Rightarrow> None
      | Some expected_root \<Rightarrow>
          build_ensembles E cfg nonces (Suc i) shards
            (j\<lparr>j_ensembles := hm_insert shard_id
                 (new_ensemble E cfg shard_id nonce expected_root shard_records) (j_ensembles j),
               j_queue := j_queue j @ [shard_id],
               j_expected := hm_insert shard_id expected_root (j_expected j),
               j_nonces := hm_insert shard_id nonce (j_nonces j)\<rparr>))"

definition empty_job :: job where
  "empty_job = \<lparr>j_queue = [], j_ensembles = [], j_expected = [], j_nonces = [], j_total = 0,
     j_busy = {}, j_blacklisted = {}, j_results = [], j_attestations = [], j_status = Running\<rparr>"

definition n_shards_of :: "job_cfg \<Rightarrow> roster \<Rightarrow> nat" where
  "n_shards_of cfg r = max 1 (length (roster_ids r) div replicas cfg)"

definition init_job ::
  "ext \<Rightarrow> job_cfg \<Rightarrow> (nat \<Rightarrow> bytes) \<Rightarrow> roster \<Rightarrow> dns_record list \<Rightarrow> job option" where
  "init_job E cfg nonces r records =
     (case build_ensembles E cfg nonces 0 (split_evenly records (n_shards_of cfg r)) empty_job of
        None \<Rightarrow> None
      | Some j \<Rightarrow> Some (j\<lparr>j_total := length (j_ensembles j)\<rparr>))"

section \<open>Assigning replicas\<close>

text \<open>
  One iteration of \<open>drain_assignments\<close> observes the roster twice (candidate search, channel
  lookup), the result of the channel send and the clock.
\<close>

record drain_obs =
  do_roster1 :: roster
  do_roster2 :: roster
  do_send_ok :: bool
  do_now :: instant

definition put_ensemble :: "u32 \<Rightarrow> shard_ensemble \<Rightarrow> job \<Rightarrow> job" where
  "put_ensemble sid ens j = j\<lparr>j_ensembles := hm_insert sid ens (j_ensembles j)\<rparr>"

definition candidate :: "job \<Rightarrow> shard_ensemble \<Rightarrow> roster \<Rightarrow> worker_id option" where
  "candidate j ens r =
     find (\<lambda>w. w \<notin> j_busy j \<and> w \<notin> j_blacklisted j \<and> w \<notin> en_assigned ens) (hm_keys (ro_workers r))"

definition assign_to :: "worker_id \<Rightarrow> instant \<Rightarrow> shard_ensemble \<Rightarrow> shard_ensemble" where
  "assign_to w now ens =
     ens\<lparr>en_assigned := insert w (en_assigned ens),
         en_pending_workers := hm_insert w now (en_pending_workers ens)\<rparr>"

fun drain_loop ::
  "(nat \<Rightarrow> drain_obs) \<Rightarrow> u32 list \<Rightarrow> u32 list \<Rightarrow> job \<Rightarrow> job \<times> job_effect list" where
  "drain_loop obs [] still j = (j\<lparr>j_queue := still\<rparr>, [])"
| "drain_loop obs (sid # queue) still j =
     (let next = drain_loop (\<lambda>n. obs (Suc n)) queue in
      case hm_get (j_ensembles j) sid of
        None \<Rightarrow> next still j
      | Some ens \<Rightarrow>
          if slots_remaining ens = 0 then next still j
          else case candidate j ens (do_roster1 (obs 0)) of
            None \<Rightarrow> next (still @ [sid]) j
          | Some w \<Rightarrow>
              (case hm_get (ro_workers (do_roster2 (obs 0))) w of
                 None \<Rightarrow> next (still @ [sid]) j
               | Some ws \<Rightarrow>
                   if \<not> do_send_ok (obs 0) then next (still @ [sid]) j
                   else
                     (let ens' = assign_to w (do_now (obs 0)) ens;
                          j' = (put_ensemble sid ens' j)\<lparr>j_busy := insert w (j_busy j)\<rparr>;
                          still' = (if slots_remaining ens' > 0 then still @ [sid] else still);
                          (j'', effs) = next still' j'
                      in (j'', SendAssign w (en_spec ens) # effs))))"

definition drain_assignments :: "(nat \<Rightarrow> drain_obs) \<Rightarrow> job \<Rightarrow> job \<times> job_effect list" where
  "drain_assignments obs j = drain_loop obs (j_queue j) [] j"

section \<open>Handlers\<close>

definition free_slot :: "worker_id \<Rightarrow> shard_ensemble \<Rightarrow> shard_ensemble" where
  "free_slot w ens = ens\<lparr>en_pending_workers := hm_remove w (en_pending_workers ens)\<rparr>"

definition drop_worker_from_ensembles :: "worker_id \<Rightarrow> job \<Rightarrow> job" where
  "drop_worker_from_ensembles w j =
     j\<lparr>j_busy := j_busy j - {w},
       j_queue := j_queue j @
         map fst (filter (\<lambda>(sid, ens). w \<in> set (hm_keys (en_pending_workers ens))) (j_ensembles j)),
       j_ensembles := map (\<lambda>(sid, ens). (sid, free_slot w ens)) (j_ensembles j)\<rparr>"

text \<open>Freeing the slot a worker holds on one shard; with \<open>blacklist\<close> the worker is also expelled.\<close>

definition reopen_slot :: "worker_id \<Rightarrow> u32 \<Rightarrow> job \<Rightarrow> job" where
  "reopen_slot w sid j =
     (case hm_get (j_ensembles j) sid of None \<Rightarrow> j | Some ens \<Rightarrow> put_ensemble sid (free_slot w ens) j)
       \<lparr>j_busy := j_busy j - {w}, j_queue := j_queue j @ [sid]\<rparr>"

definition blacklist_replica :: "worker_id \<Rightarrow> u32 \<Rightarrow> job \<Rightarrow> job" where
  "blacklist_replica w sid j = reopen_slot w sid (j\<lparr>j_blacklisted := insert w (j_blacklisted j)\<rparr>)"

record job_inp =
  ji_now :: instant
  ji_roster :: roster           \<comment> \<open>key lookup, or the reaper's scan\<close>
  ji_receipt_roster :: roster   \<comment> \<open>lookup of the session to push the receipt to\<close>
  ji_unix_ms :: u64
  ji_rnd :: bytes
  ji_obs :: "nat \<Rightarrow> drain_obs"

definition expel :: "job_inp \<Rightarrow> worker_id \<Rightarrow> u32 \<Rightarrow> job \<Rightarrow> job \<times> job_effect list" where
  "expel inp w sid j =
     (let (j', effs) = drain_assignments (ji_obs inp) (blacklist_replica w sid j)
      in (j', RosterRemove w # effs))"

definition attest_entry :: "worker_id \<times> response_entry \<Rightarrow> attestation" where
  "attest_entry = (\<lambda>(w, e). (w, re_worker_pk e, sr_worker_sig (re_result e), sr_prove_ms (re_result e)))"

definition accept_shard :: "u32 \<Rightarrow> shard_result \<Rightarrow> attestation list \<Rightarrow> job \<Rightarrow> job" where
  "accept_shard sid res atts j =
     j\<lparr>j_attestations := hm_insert sid atts (j_attestations j),
       j_results := hm_insert sid res (j_results j),
       j_ensembles := hm_remove sid (j_ensembles j)\<rparr>"

definition settle :: "u32 \<Rightarrow> shard_ensemble \<Rightarrow> job \<Rightarrow> job \<times> job_effect list" where
  "settle sid ens j =
     (case evaluate_ensemble ens of
        Pending \<Rightarrow> (j, [])
      | Accepted canonical_worker \<Rightarrow>
          (case hm_get (en_responses ens) canonical_worker of
             None \<Rightarrow> (j\<lparr>j_status := Panicked\<rparr>, [])
           | Some canonical \<Rightarrow>
               (accept_shard sid (re_result canonical) (map attest_entry (en_responses ens)) j, []))
      | MajorityWin canonical_worker dissenters \<Rightarrow>
          (case hm_get (en_responses ens) canonical_worker of
             None \<Rightarrow> (j\<lparr>j_status := Panicked\<rparr>, [])
           | Some canonical \<Rightarrow>
               (accept_shard sid (re_result canonical)
                  (map attest_entry (filter (\<lambda>(w, e). w \<notin> set dissenters) (en_responses ens)))
                  (j\<lparr>j_blacklisted := j_blacklisted j \<union> set dissenters\<rparr>),
                map RosterRemove dissenters))
      | AllConflict \<Rightarrow>
          (let bad = hm_keys (en_responses ens)
           in (j\<lparr>j_blacklisted := j_blacklisted j \<union> set bad, j_status := Aborted\<rparr>,
               map RosterRemove bad)))"

definition result_digest :: "ext \<Rightarrow> shard_result \<Rightarrow> bytes" where
  "result_digest E res =
     worker_attestation_digest E (sr_shard_id res) (sr_pi_hash res) (sr_merkle_root res) (sr_root_f0 res)"

text \<open>After validation: sign and push a receipt, move the worker to the responses, decide.\<close>

definition record_response ::
  "ext \<Rightarrow> job_cfg \<Rightarrow> job_inp \<Rightarrow> worker_id \<Rightarrow> bytes \<Rightarrow> shard_result \<Rightarrow> shard_ensemble \<Rightarrow> job \<Rightarrow>
     job \<times> job_effect list" where
  "record_response E cfg inp w pk result ens j =
     (let sid = sr_shard_id result;
          receipt = mk_receipt E (ji_rnd inp) (jc_authority cfg) (jc_job_id cfg) sid w
                      (sr_pi_hash result) (sr_merkle_root result) (ji_unix_ms inp);
          pushed = (case hm_get (ro_workers (ji_receipt_roster inp)) w of
                      None \<Rightarrow> [] | Some ws \<Rightarrow> [SendReceipt w receipt]);
          ens' = (free_slot w ens)\<lparr>en_responses :=
                   hm_insert w \<lparr>re_result = result, re_worker_pk = pk\<rparr> (en_responses ens)\<rparr>;
          (j1, effs1) = settle sid ens' ((put_ensemble sid ens' j)\<lparr>j_busy := j_busy j - {w}\<rparr>)
      in if j_status j1 \<noteq> Running then (j1, pushed @ effs1)
         else (let (j2, effs2) = drain_assignments (ji_obs inp) j1
               in (j2, pushed @ effs1 @ effs2)))"

definition shard_done ::
  "ext \<Rightarrow> job_cfg \<Rightarrow> job_inp \<Rightarrow> worker_id \<Rightarrow> shard_result \<Rightarrow> job \<Rightarrow> job \<times> job_effect list" where
  "shard_done E cfg inp w result j =
     (let sid = sr_shard_id result in
      case hm_get (j_ensembles j) sid of
        None \<Rightarrow> (j, [])
      | Some ens \<Rightarrow>
          if w \<notin> set (hm_keys (en_pending_workers ens)) then (j, [])
          else case hm_get (ro_workers (ji_roster inp)) w of
            None \<Rightarrow> (j, [])
          | Some ws \<Rightarrow>
              if \<not> verify_worker_sig E (we_ml_dsa_pk ws) (result_digest E result) (sr_worker_sig result)
              then expel inp w sid j
              else case hm_get (j_expected j) sid of
                None \<Rightarrow> (j\<lparr>j_status := Panicked\<rparr>, [])
              | Some expected \<Rightarrow>
                  if sr_merkle_root result \<noteq> expected then expel inp w sid j
                  else record_response E cfg inp w (we_ml_dsa_pk ws) result ens j)"

fun job_event :: "ext \<Rightarrow> job_cfg \<Rightarrow> job_inp \<Rightarrow> session_event \<Rightarrow> job \<Rightarrow> job \<times> job_effect list" where
  "job_event E cfg inp (EvShardDone w result) j = shard_done E cfg inp w result j"
| "job_event E cfg inp (EvShardFailed w shard_id reason) j =
     drain_assignments (ji_obs inp) (reopen_slot w shard_id j)"
| "job_event E cfg inp (EvDisconnected w) j =
     drain_assignments (ji_obs inp) (drop_worker_from_ensembles w j)"
| "job_event E cfg inp (EvRegistered w) j = drain_assignments (ji_obs inp) j"

section \<open>The reaper\<close>

definition heartbeat_grace :: "job_cfg \<Rightarrow> nat" where
  "heartbeat_grace cfg = 1000 * max (unat (jc_heartbeat_secs cfg) * 2) 2"

definition stale_workers :: "job_cfg \<Rightarrow> instant \<Rightarrow> roster \<Rightarrow> worker_id list" where
  "stale_workers cfg now r =
     map fst (filter (\<lambda>(w, ws). now - we_last_seen ws > heartbeat_grace cfg) (ro_workers r))"

definition overdue :: "job_cfg \<Rightarrow> instant \<Rightarrow> job \<Rightarrow> (worker_id \<times> u32) list" where
  "overdue cfg now j =
     concat (map (\<lambda>(sid, ens).
        map (\<lambda>(w, t0). (w, sid))
          (filter (\<lambda>(w, t0). now - t0 > jc_shard_deadline cfg) (en_pending_workers ens)))
       (j_ensembles j))"

definition reaper_tick :: "job_cfg \<Rightarrow> job_inp \<Rightarrow> job \<Rightarrow> job \<times> job_effect list" where
  "reaper_tick cfg inp j =
     (let stale = stale_workers cfg (ji_now inp) (ji_roster inp);
          j1 = fold drop_worker_from_ensembles stale j;
          to_blacklist = overdue cfg (ji_now inp) j1;
          j2 = fold (\<lambda>(w, sid). blacklist_replica w sid) to_blacklist j1;
          (j3, effs) = drain_assignments (ji_obs inp) j2
      in (j3, map RosterRemove stale @ map (RosterRemove \<circ> fst) to_blacklist @ effs))"

section \<open>The job as a transition system\<close>

text \<open>The head of the loop: completion, then the stuck check.\<close>

definition loop_top :: "job \<Rightarrow> job" where
  "loop_top j =
     (if j_status j \<noteq> Running then j
      else if length (j_results j) = j_total j then j\<lparr>j_status := Done\<rparr>
      else if j_queue j = [] \<and> (\<forall>(sid, ens) \<in> set (j_ensembles j). en_pending_workers ens = []) \<and>
              length (j_results j) < j_total j
           then j\<lparr>j_status := Stuck\<rparr>
      else j)"

inductive job_step :: "ext \<Rightarrow> job_cfg \<Rightarrow> job \<times> job_effect list \<Rightarrow> job \<times> job_effect list \<Rightarrow> bool"
  for E cfg where
  event: "j_status j = Running \<Longrightarrow> job_event E cfg inp ev j = (j', effs) \<Longrightarrow>
    job_step E cfg (j, log) (loop_top j', log @ effs)"
| tick: "j_status j = Running \<Longrightarrow> reaper_tick cfg inp j = (j', effs) \<Longrightarrow>
    job_step E cfg (j, log) (loop_top j', log @ effs)"
| closed: "j_status j = Running \<Longrightarrow> job_step E cfg (j, log) (j\<lparr>j_status := Closed\<rparr>, log)"
| rehash: "mset es = mset (j_ensembles j) \<Longrightarrow>
    job_step E cfg (j, log) (j\<lparr>j_ensembles := es\<rparr>, log)"
| rehash_one: "hm_get (j_ensembles j) sid = Some ens \<Longrightarrow>
    mset p = mset (en_pending_workers ens) \<Longrightarrow> mset r = mset (en_responses ens) \<Longrightarrow>
    job_step E cfg (j, log)
      (put_ensemble sid (ens\<lparr>en_pending_workers := p, en_responses := r\<rparr>) j, log)"

inductive_cases job_stepE: "job_step E cfg s t"

text \<open>Entering the loop: the first drain and the first check.\<close>

definition job_begins :: "job \<Rightarrow> job \<times> job_effect list \<Rightarrow> bool" where
  "job_begins j0 s \<longleftrightarrow>
     (\<exists>obs j1 effs. drain_assignments obs j0 = (j1, effs) \<and> s = (loop_top j1, effs))"

end
