(* ===== verification/Signature_Bindings.thy ===== *)
theory Signature_Bindings
  imports Dns_Zone
begin

text \<open>
  \<open>prover.rs\<close>: the \<open>pi_hash\<close> recipes of the DS-to-KSK and ZSK-to-KSK bindings and the
  native (non-STARK) verification of the latter, versions 1 and 2.  The in-crate Ed25519
  verifier \<open>deep_ali::ed25519_verify::verify\<close> is the parameter \<open>ed\<close>.
\<close>

type_synonym ed25519 = "bytes \<Rightarrow> bytes \<Rightarrow> bytes \<Rightarrow> bool"  \<comment> \<open>public key, signature, message\<close>

definition ds_ksk_pi_hash :: "ext \<Rightarrow> bytes \<Rightarrow> bytes \<Rightarrow> bytes \<Rightarrow> bytes \<Rightarrow> bytes \<Rightarrow> bytes" where
  "ds_ksk_pi_hash E dnskey_bytes parent_ds_hash asserted_digest root_f0 fs_binding =
     sha3_256_parts E [ascii ''DS-KSK-PIHASH-V1'', le64 (word_of_nat (length dnskey_bytes)),
       dnskey_bytes, parent_ds_hash, asserted_digest, root_f0, fs_binding]"

definition zsk_ksk_pi_hash :: "ext \<Rightarrow> bytes \<Rightarrow> bytes \<Rightarrow> bytes \<Rightarrow> bytes \<Rightarrow> bytes" where
  "zsk_ksk_pi_hash E ksk_pubkey signature signed_data fs_binding =
     sha3_256_parts E [ascii ''ZSK-KSK-PIHASH-V1'', ksk_pubkey, signature,
       le64 (word_of_nat (length signed_data)), signed_data, fs_binding]"

definition zsk_ksk_stub_pi_hash :: "ext \<Rightarrow> bytes \<Rightarrow> bytes \<Rightarrow> bytes" where
  "zsk_ksk_stub_pi_hash E root_f0 fs_binding =
     sha3_256_parts E [ascii ''ZSK-KSK-STUB-K8-PIHASH-V1'', root_f0, fs_binding]"

definition zsk_ksk_pi_hash_v2_runtime ::
  "ext \<Rightarrow> bytes \<Rightarrow> bytes \<Rightarrow> bytes \<Rightarrow> bytes \<Rightarrow> bytes \<Rightarrow> bytes" where
  "zsk_ksk_pi_hash_v2_runtime E ksk_pubkey signature signed_data fs_binding mroot =
     sha3_256_parts E [ascii ''ZSK-KSK-PIHASH-V2-RT'', ksk_pubkey, signature,
       le64 (word_of_nat (length signed_data)), signed_data, fs_binding, mroot]"

definition zsk_ksk_pi_hash_v2_stark ::
  "ext \<Rightarrow> bytes \<Rightarrow> bytes \<Rightarrow> bytes \<Rightarrow> bytes \<Rightarrow> bytes \<Rightarrow> bytes \<Rightarrow> bytes" where
  "zsk_ksk_pi_hash_v2_stark E ksk_pubkey signature signed_data fs_binding mroot root_f0 =
     sha3_256_parts E [ascii ''ZSK-KSK-PIHASH-V2-ST'', ksk_pubkey, signature,
       le64 (word_of_nat (length signed_data)), signed_data, fs_binding, mroot, root_f0]"

record zsk_ksk_native_output =
  zn_pi_hash :: bytes
  zn_verified :: bool

definition verify_zsk_ksk_native ::
  "ext \<Rightarrow> ed25519 \<Rightarrow> bytes \<Rightarrow> bytes \<Rightarrow> bytes \<Rightarrow> bytes \<Rightarrow> zsk_ksk_native_output" where
  "verify_zsk_ksk_native E ed pk sig data fs =
     \<lparr>zn_pi_hash = zsk_ksk_pi_hash E pk sig data fs, zn_verified = ed pk sig data\<rparr>"

definition verify_zsk_ksk_native_v2 ::
  "ext \<Rightarrow> ed25519 \<Rightarrow> bytes \<Rightarrow> bytes \<Rightarrow> bytes \<Rightarrow> bytes \<Rightarrow> bytes \<Rightarrow> zsk_ksk_native_output" where
  "verify_zsk_ksk_native_v2 E ed pk sig data fs mroot =
     \<lparr>zn_pi_hash = zsk_ksk_pi_hash_v2_runtime E pk sig data fs mroot, zn_verified = ed pk sig data\<rparr>"

datatype zsk_ksk_error = PiHashMismatch | SignatureInvalid

definition check_native :: "bytes \<Rightarrow> bool \<Rightarrow> bytes \<Rightarrow> zsk_ksk_error + unit" where
  "check_native recomputed sig_ok claimed =
     (if recomputed \<noteq> claimed then Inl PiHashMismatch
      else if \<not> sig_ok then Inl SignatureInvalid else Inr ())"

definition verify_zsk_ksk_runtime_fallback ::
  "ext \<Rightarrow> ed25519 \<Rightarrow> bytes \<Rightarrow> bytes \<Rightarrow> bytes \<Rightarrow> bytes \<Rightarrow> bytes \<Rightarrow> zsk_ksk_error + unit" where
  "verify_zsk_ksk_runtime_fallback E ed pk sig data fs claimed =
     check_native (zsk_ksk_pi_hash E pk sig data fs) (ed pk sig data) claimed"

definition verify_zsk_ksk_runtime_fallback_v2 ::
  "ext \<Rightarrow> ed25519 \<Rightarrow> bytes \<Rightarrow> bytes \<Rightarrow> bytes \<Rightarrow> bytes \<Rightarrow> bytes \<Rightarrow> bytes \<Rightarrow> zsk_ksk_error + unit" where
  "verify_zsk_ksk_runtime_fallback_v2 E ed pk sig data fs mroot claimed =
     check_native (zsk_ksk_pi_hash_v2_runtime E pk sig data fs mroot) (ed pk sig data) claimed"

lemma check_native_ok [simp]: "check_native r s c = Inr () \<longleftrightarrow> r = c \<and> s"
  by (simp add: check_native_def)

lemma fallback_accepts_native:
  "verify_zsk_ksk_runtime_fallback E ed pk sig data fs
     (zn_pi_hash (verify_zsk_ksk_native E ed pk sig data fs)) = Inr () \<longleftrightarrow>
   zn_verified (verify_zsk_ksk_native E ed pk sig data fs)"
  by (simp add: verify_zsk_ksk_runtime_fallback_def verify_zsk_ksk_native_def)

lemma fallback_v2_accepts_native:
  "verify_zsk_ksk_runtime_fallback_v2 E ed pk sig data fs m
     (zn_pi_hash (verify_zsk_ksk_native_v2 E ed pk sig data fs m)) = Inr () \<longleftrightarrow>
   zn_verified (verify_zsk_ksk_native_v2 E ed pk sig data fs m)"
  by (simp add: verify_zsk_ksk_runtime_fallback_v2_def verify_zsk_ksk_native_v2_def)

lemma word_of_nat_length_inj:
  "length a < 2 ^ 64 \<Longrightarrow> length b < 2 ^ 64 \<Longrightarrow>
     (word_of_nat (length a) :: u64) = word_of_nat (length b) \<longleftrightarrow> length a = length b"
  by (auto dest!: arg_cong [of _ _ unat] simp: unat_of_nat)

text \<open>Equal commitments bind all inputs, the variable-length one included, up to a collision.\<close>

lemma zsk_ksk_pi_hash_binding:
  assumes "zsk_ksk_pi_hash E pk sig d f = zsk_ksk_pi_hash E pk' sig' d' f'"
    and "length pk = 32" "length pk' = 32" "length sig = 64" "length sig' = 64"
      "length d < 2 ^ 64" "length d' < 2 ^ 64" "(pk, sig, d, f) \<noteq> (pk', sig', d', f')"
  shows "collision (sha3_256 E)
      (ascii ''ZSK-KSK-PIHASH-V1'' @ pk @ sig @ le64 (word_of_nat (length d)) @ d @ f)
      (ascii ''ZSK-KSK-PIHASH-V1'' @ pk' @ sig' @ le64 (word_of_nat (length d')) @ d' @ f')"
  using assms word_of_nat_length_inj [of d d']
  by (intro collisionI) (auto simp: zsk_ksk_pi_hash_def sha3_256_parts_def)

lemma ds_ksk_pi_hash_binding:
  assumes "ds_ksk_pi_hash E d p a r f = ds_ksk_pi_hash E d' p' a' r' f'"
    and "length d < 2 ^ 64" "length d' < 2 ^ 64" "length p = 32" "length p' = 32"
      "length a = 32" "length a' = 32" "length r = 32" "length r' = 32"
    and "(d, p, a, r, f) \<noteq> (d', p', a', r', f')"
  shows "collision (sha3_256 E)
      (ascii ''DS-KSK-PIHASH-V1'' @ le64 (word_of_nat (length d)) @ d @ p @ a @ r @ f)
      (ascii ''DS-KSK-PIHASH-V1'' @ le64 (word_of_nat (length d')) @ d' @ p' @ a' @ r' @ f')"
  using assms word_of_nat_length_inj [of d d']
  by (intro collisionI) (auto simp: ds_ksk_pi_hash_def sha3_256_parts_def)

end
