(* ===== verification/Bundle.thy ===== *)
theory Bundle
  imports Zone_Job Signature_Bindings
begin

text \<open>
  The on-disk bundle (\<open>zone_bundle.json\<close> and the proof files beside it) and the last phases
  of \<open>zone_job\<close> that write it: persisting the inner proofs, the outer rollup, the zone digest
  and its signature.  Paths are relative to the bundle directory and a file system is a map
  from such paths to contents.  Wall-clock timings are not modelled; no check reads them.
\<close>

section \<open>Bundle format\<close>

record attestation_rec =
  at_worker_id :: worker_id
  at_worker_pk_hex :: string
  at_worker_sig_hex :: string
  at_prove_ms :: f64_bits

record inner_worker =
  iw_shard_id :: u32
  iw_shard_nonce_hex :: string
  iw_pi_hash_hex :: string
  iw_merkle_root_hex :: string
  iw_record_count :: u64
  iw_n_trace :: u64
  iw_proof_bytes_len :: u64
  iw_proof_path :: string
  iw_attestations :: "attestation_rec list"

record ds_ksk_fields =
  dk_proof_path :: "string option"
  dk_pi_hash_hex :: "string option"
  dk_root_f0_hex :: "string option"
  dk_asserted_digest_hex :: "string option"
  dk_n_blocks :: "nat option"
  dk_n_trace :: "nat option"

record zsk_ksk_fields =
  zk_pubkey_hex :: "string option"
  zk_signature_hex :: "string option"
  zk_signed_data_hex :: "string option"
  zk_pi_hash_hex :: "string option"
  zk_fs_binding_hex :: "string option"
  zk_proof_path :: "string option"
  zk_root_f0_hex :: "string option"
  zk_n_trace :: "nat option"
  zk_stark_kind :: "string option"

record zone_bundle =
  zb_bundle_format :: u32
  zb_nist_level :: byte
  zb_ml_dsa_scheme :: string
  zb_signed_digest_hash :: string
  zb_zone_salt_hex :: string
  zb_record_count :: nat
  zb_shard_count :: nat
  zb_shard_replication :: nat
  zb_ldt :: string
  zb_authority_pk_hex :: string
  zb_authority_pk_hash_hex :: string
  zb_job_id_hex :: string
  zb_dnskey_pk_hex :: "string option"
  zb_parent_ds_hash_hex :: "string option"
  zb_ds_ksk :: ds_ksk_fields
  zb_zsk_ksk :: zsk_ksk_fields
  zb_inner_pi_hashes_hex :: "string list"
  zb_outer_root_f0_hex :: string
  zb_outer_n_trace :: nat
  zb_outer_n0 :: nat
  zb_outer_proof_bytes :: nat
  zb_outer_proof_path :: string
  zb_zone_digest_hex :: string
  zb_authority_sig_hex :: string
  zb_inner_workers :: "inner_worker list"

text \<open>Fields that the controller does not write are absent from the JSON and default to \<open>None\<close>.\<close>

definition no_ds_ksk :: ds_ksk_fields where
  "no_ds_ksk = \<lparr>dk_proof_path = None, dk_pi_hash_hex = None, dk_root_f0_hex = None,
     dk_asserted_digest_hex = None, dk_n_blocks = None, dk_n_trace = None\<rparr>"

definition no_zsk_ksk :: zsk_ksk_fields where
  "no_zsk_ksk = \<lparr>zk_pubkey_hex = None, zk_signature_hex = None, zk_signed_data_hex = None,
     zk_pi_hash_hex = None, zk_fs_binding_hex = None, zk_proof_path = None, zk_root_f0_hex = None,
     zk_n_trace = None, zk_stark_kind = None\<rparr>"

fun nist_byte :: "nist_level \<Rightarrow> byte" where
  "nist_byte L1 = 1"
| "nist_byte L3 = 3"
| "nist_byte L5 = 5"

definition zone_digest :: "ext \<Rightarrow> nist_level \<Rightarrow> byte \<Rightarrow> bytes \<Rightarrow> nat \<Rightarrow> bytes \<Rightarrow> bytes \<Rightarrow> bytes \<Rightarrow> bytes \<Rightarrow> bytes" where
  "zone_digest E level nist salt record_count outer_root pk_hash dnskey_bytes ds_hash_bytes =
     level_hash E level
       [ascii ''DNS-ZONE-AUTHORITY-V1'', [nist], salt, le64 (word_of_nat record_count), outer_root,
        pk_hash, ascii ''DS-BIND-V1'',
        le32 (word_of_nat (length dnskey_bytes)), dnskey_bytes,
        le32 (word_of_nat (length ds_hash_bytes)), ds_hash_bytes]"

section \<open>File names\<close>

definition decimal4 :: "nat \<Rightarrow> string" where
  "decimal4 n = replicate (4 - length (decimal n)) CHR ''0'' @ decimal n"

definition inner_proof_path :: "u32 \<Rightarrow> string" where
  "inner_proof_path shard_id = ''proofs/inner-shard-'' @ decimal4 (unat shard_id) @ ''.bin''"

definition outer_proof_path :: string where
  "outer_proof_path = ''proofs/outer-rollup.bin''"

fun undecimal :: "string \<Rightarrow> nat \<Rightarrow> nat" where
  "undecimal [] acc = acc"
| "undecimal (c # cs) acc = undecimal cs (acc * 10 + (of_char c - 48))"

lemma undecimal_append: "undecimal (a @ b) acc = undecimal b (undecimal a acc)"
  by (induction a arbitrary: acc) simp_all

lemma undecimal_zeros: "undecimal (replicate k CHR ''0'' @ s) 0 = undecimal s 0"
  by (induction k) simp_all

lemma undecimal_decimal: "undecimal (decimal n) 0 = n"
proof (induction n rule: decimal.induct)
  case (1 n)
  show ?case
  proof (cases "n < 10")
    case True
    then show ?thesis by (simp add: decimal.simps [of n])
  next
    case False
    then have "decimal n = decimal (n div 10) @ [char_of (48 + n mod 10)]" by (simp add: decimal.simps [of n])
    moreover have "48 + n mod 10 < 256" using mod_less_divisor [of 10 n] by linarith
    ultimately show ?thesis using 1 [OF False] by (simp add: undecimal_append)
  qed
qed

lemma decimal4_inject [simp]: "decimal4 m = decimal4 n \<longleftrightarrow> m = n"
  by (metis decimal4_def undecimal_decimal undecimal_zeros)

lemma inner_proof_path_inject [simp]: "inner_proof_path a = inner_proof_path b \<longleftrightarrow> a = b"
  by (simp add: inner_proof_path_def word_unat_eq_iff)

lemma inner_outer_path [simp]: "inner_proof_path a \<noteq> outer_proof_path"
  by (simp add: inner_proof_path_def outer_proof_path_def)

section \<open>Writing the bundle\<close>

definition sorted_results :: "job \<Rightarrow> shard_result list" where
  "sorted_results j = sort_key sr_shard_id (map snd (j_results j))"

definition hex_opt :: "ext \<Rightarrow> string option \<Rightarrow> bytes option" where
  "hex_opt E h = (case h of None \<Rightarrow> Some [] | Some s \<Rightarrow> hex_decode E s)"

definition inner_record :: "ext \<Rightarrow> job \<Rightarrow> (u32, string) hashmap \<Rightarrow> shard_result \<Rightarrow> inner_worker" where
  "inner_record E j proof_paths r =
     \<lparr>iw_shard_id = sr_shard_id r,
      iw_shard_nonce_hex = hex_encode E (case hm_get (j_nonces j) (sr_shard_id r) of
                              Some nonce \<Rightarrow> nonce | None \<Rightarrow> replicate 32 0),
      iw_pi_hash_hex = hex_encode E (sr_pi_hash r),
      iw_merkle_root_hex = hex_encode E (sr_merkle_root r),
      iw_record_count = sr_record_count r,
      iw_n_trace = sr_n_trace r,
      iw_proof_bytes_len = sr_proof_bytes_len r,
      iw_proof_path = (case hm_get proof_paths (sr_shard_id r) of Some p \<Rightarrow> p | None \<Rightarrow> ''''),
      iw_attestations = map (\<lambda>(w, pk, sig, prove_ms).
          \<lparr>at_worker_id = w, at_worker_pk_hex = hex_encode E pk,
           at_worker_sig_hex = hex_encode E sig, at_prove_ms = prove_ms\<rparr>)
        (case hm_get (j_attestations j) (sr_shard_id r) of Some atts \<Rightarrow> atts | None \<Rightarrow> [])\<rparr>"

record finalize_inp =
  fi_level :: nist_level
  fi_records :: "dns_record list"
  fi_n_shards :: nat
  fi_dnskey_pk_hex :: "string option"
  fi_parent_ds_hash_hex :: "string option"
  fi_rnd :: bytes

text \<open>
  Phases 5 to 7.  \<open>None\<close>: the job returns early (a DS option that does not decode) or panics
  (the outer self-verification, the signature self-check).  Writing the files succeeds.
\<close>

definition finalize_job ::
  "ext \<Rightarrow> 'p stark \<Rightarrow> job_cfg \<Rightarrow> finalize_inp \<Rightarrow> job \<Rightarrow> (zone_bundle \<times> (string, bytes) hashmap) option" where
  "finalize_job E S cfg inp j =
     (let results = map snd (j_results j);
          inner_files = fold (\<lambda>r. hm_insert (inner_proof_path (sr_shard_id r)) (sr_proof_blob r)) results [];
          paths = fold (\<lambda>r. hm_insert (sr_shard_id r) (inner_proof_path (sr_shard_id r))) results [];
          sorted = sorted_results j;
          pi_hashes = map sr_pi_hash sorted;
          pk_bytes = kp_pk (jc_authority cfg);
          pk_hash32 = pk_binding_hash E pk_bytes;
          level = fi_level inp
      in case prove_outer_rollup S pi_hashes pk_hash32 (jc_ldt cfg) of None \<Rightarrow> None
       | Some outer \<Rightarrow>
      (case hex_opt E (fi_dnskey_pk_hex inp) of None \<Rightarrow> None
       | Some dnskey_bytes \<Rightarrow>
      (case hex_opt E (fi_parent_ds_hash_hex inp) of None \<Rightarrow> None
       | Some ds_hash_bytes \<Rightarrow>
         if ds_hash_bytes \<noteq> [] \<and> length ds_hash_bytes \<noteq> 32 then None
         else
           let digest = zone_digest E level (nist_byte level) (jc_salt cfg) (length (fi_records inp))
                          (or_root_f0 outer) pk_hash32 dnskey_bytes ds_hash_bytes;
               sig = kp_sign E (fi_rnd inp) (jc_authority cfg) digest
           in if \<not> kp_verify E (jc_authority cfg) digest sig then None
              else Some
                (\<lparr>zb_bundle_format = 2,
                  zb_nist_level = nist_byte level,
                  zb_ml_dsa_scheme = ml_dsa_name level,
                  zb_signed_digest_hash = hash_name level,
                  zb_zone_salt_hex = hex_encode E (jc_salt cfg),
                  zb_record_count = length (fi_records inp),
                  zb_shard_count = fi_n_shards inp,
                  zb_shard_replication = replicas cfg,
                  zb_ldt = ldt_label (jc_ldt cfg),
                  zb_authority_pk_hex = hex_encode E pk_bytes,
                  zb_authority_pk_hash_hex = hex_encode E pk_hash32,
                  zb_job_id_hex = hex_encode E (jc_job_id cfg),
                  zb_dnskey_pk_hex = fi_dnskey_pk_hex inp,
                  zb_parent_ds_hash_hex = fi_parent_ds_hash_hex inp,
                  zb_ds_ksk = no_ds_ksk,
                  zb_zsk_ksk = no_zsk_ksk,
                  zb_inner_pi_hashes_hex = map (hex_encode E) pi_hashes,
                  zb_outer_root_f0_hex = hex_encode E (or_root_f0 outer),
                  zb_outer_n_trace = or_n_trace outer,
                  zb_outer_n0 = or_n0 outer,
                  zb_outer_proof_bytes = length (or_proof_blob outer),
                  zb_outer_proof_path = outer_proof_path,
                  zb_zone_digest_hex = hex_encode E digest,
                  zb_authority_sig_hex = hex_encode E sig,
                  zb_inner_workers = map (inner_record E j paths) sorted\<rparr>,
                 hm_insert outer_proof_path (or_proof_blob outer) inner_files))))"

end
