(* ===== verification/Bundle_Verify.thy ===== *)
theory Bundle_Verify
  imports Bundle
begin

text \<open>
  \<open>swarm-verify\<close>: every check of the standalone verifier on a parsed bundle, in the code's
  order, and the two optional audits.  A failing check is a value of \<open>verify_error\<close>; \<open>rd\<close>
  reads a file of the bundle directory.
\<close>

section \<open>Errors and helpers\<close>

datatype verify_error =
    UnsupportedFormat | UnknownLevel | UnknownLdt | BadHex | BadLength | PkHashMismatch
  | ShardCountMismatch | MissingFile | ProofSizeMismatch | BadProof | PiRecipeMismatch
  | N0Mismatch | FriFailed | NoAttestations | TooManyAttestations | AttestationSigFailed
  | RootMismatch | ZoneDigestMismatch | AuthoritySigFailed | DsHashLength | MissingField
  | NotPowerOfTwo | BlockCountMismatch | AssertedDigestMismatch | DsBindingFailed
  | UnknownStarkKind | ZskKskFailed zsk_ksk_error | ParamsPanic | Censorship | ImpossibleQuorum
  | QuorumShortfall

definition need :: "'e \<Rightarrow> 'a option \<Rightarrow> ('a \<Rightarrow> 'e + 'b) \<Rightarrow> 'e + 'b" where
  "need err x k = (case x of None \<Rightarrow> Inl err | Some a \<Rightarrow> k a)"

definition ensure :: "bool \<Rightarrow> 'e \<Rightarrow> 'e + 'b \<Rightarrow> 'e + 'b" where
  "ensure cond err k = (if cond then k else Inl err)"

definition andthen :: "'e + unit \<Rightarrow> 'e + 'b \<Rightarrow> 'e + 'b" where
  "andthen x k = (case x of Inl err \<Rightarrow> Inl err | Inr _ \<Rightarrow> k)"

lemma need_Inr [simp]: "need err x k = Inr r \<longleftrightarrow> (\<exists>a. x = Some a \<and> k a = Inr r)"
  by (simp add: need_def split: option.split)

lemma ensure_Inr [simp]: "ensure c err k = Inr r \<longleftrightarrow> c \<and> k = Inr r"
  by (simp add: ensure_def)

lemma andthen_Inr [simp]: "andthen x k = Inr r \<longleftrightarrow> x = Inr () \<and> k = Inr r"
  by (auto simp: andthen_def split: sum.split)

fun all_ok :: "('a \<Rightarrow> 'e + unit) \<Rightarrow> 'a list \<Rightarrow> 'e + unit" where
  "all_ok f [] = Inr ()"
| "all_ok f (x # xs) = andthen (f x) (all_ok f xs)"

lemma all_ok_Inr [simp]: "all_ok f xs = Inr () \<longleftrightarrow> (\<forall>x \<in> set xs. f x = Inr ())"
  by (induction xs) auto

definition parse_level :: "byte \<Rightarrow> nist_level option" where
  "parse_level n = (if n = 1 then Some L1 else if n = 3 then Some L3 else if n = 5 then Some L5 else None)"

definition parse_ldt :: "string \<Rightarrow> ldt_mode option" where
  "parse_ldt s = (if s = ''STIR'' then Some Stir
                  else if s = ''FRI(arity-2)'' \<or> s = ''FRI'' then Some Fri else None)"

lemma parse_level_nist_byte [simp]: "parse_level (nist_byte l) = Some l"
  by (cases l) (simp_all add: parse_level_def)

lemma parse_ldt_label [simp]: "parse_ldt (ldt_label l) = Some l"
  by (cases l) (simp_all add: parse_ldt_def)

definition decode_fixed :: "ext \<Rightarrow> nat \<Rightarrow> string \<Rightarrow> (bytes \<Rightarrow> verify_error + 'b) \<Rightarrow> verify_error + 'b" where
  "decode_fixed E n s k = need BadHex (hex_decode E s) (\<lambda>v. ensure (length v = n) BadLength (k v))"

lemma decode_fixed_Inr [simp]:
  "decode_fixed E n s k = Inr r \<longleftrightarrow> (\<exists>v. hex_decode E s = Some v \<and> length v = n \<and> k v = Inr r)"
  by (simp add: decode_fixed_def)

section \<open>Inner shards\<close>

definition verify_attestation :: "ext \<Rightarrow> bytes \<Rightarrow> attestation_rec \<Rightarrow> verify_error + unit" where
  "verify_attestation E attest_dig a =
     need BadHex (hex_decode E (at_worker_pk_hex a)) (\<lambda>pk.
     need BadHex (hex_decode E (at_worker_sig_hex a)) (\<lambda>sig.
     ensure (verify_worker_sig E pk attest_dig sig) AttestationSigFailed (Inr ())))"

definition verify_inner ::
  "ext \<Rightarrow> 'p stark \<Rightarrow> (string \<Rightarrow> bytes option) \<Rightarrow> bytes \<Rightarrow> bytes \<Rightarrow> bytes \<Rightarrow> ldt_mode \<Rightarrow> nat \<Rightarrow>
     inner_worker \<Rightarrow> verify_error + unit" where
  "verify_inner E S rd salt pk_hash32 job_id ldt replication w =
     decode_fixed E 32 (iw_pi_hash_hex w) (\<lambda>pi_hash_claim.
     decode_fixed E 32 (iw_merkle_root_hex w) (\<lambda>mroot.
     decode_fixed E 32 (iw_shard_nonce_hex w) (\<lambda>shard_nonce.
     let fs_binding = shard_fs_binding E pk_hash32 job_id (iw_shard_id w) shard_nonce;
         record_count = unat (iw_record_count w)
     in need MissingFile (rd (iw_proof_path w)) (\<lambda>proof_bytes.
        ensure (word_of_nat (length proof_bytes) = iw_proof_bytes_len w) ProofSizeMismatch (
        need BadProof (proof_deser S proof_bytes) (\<lambda>pf.
        ensure (inner_pi_hash E salt record_count mroot (root_f0_of S pf) fs_binding = pi_hash_claim)
          PiRecipeMismatch (
        let n0 = inner_n0_from_record_count record_count in
        ensure (n0 = usize_mul (unat (iw_n_trace w)) 32) N0Mismatch (
        need ParamsPanic (build_params n0 fs_binding ldt) (\<lambda>params.
        ensure (fri_verify S params pf) FriFailed (
        let attest_dig = worker_attestation_digest E (iw_shard_id w) pi_hash_claim mroot (root_f0_of S pf) in
        ensure (iw_attestations w \<noteq> []) NoAttestations (
        ensure (length (iw_attestations w) \<le> replication) TooManyAttestations (
        all_ok (verify_attestation E attest_dig) (iw_attestations w)))))))))))))"

section \<open>Outer rollup and authority signature\<close>

definition verify_outer ::
  "ext \<Rightarrow> 'p stark \<Rightarrow> (string \<Rightarrow> bytes option) \<Rightarrow> bytes \<Rightarrow> ldt_mode \<Rightarrow> nat \<Rightarrow> zone_bundle \<Rightarrow>
     (bytes \<Rightarrow> verify_error + 'b) \<Rightarrow> verify_error + 'b" where
  "verify_outer E S rd pk_hash32 ldt n_inner b k =
     need MissingFile (rd (zb_outer_proof_path b)) (\<lambda>outer_bytes.
     ensure (length outer_bytes = zb_outer_proof_bytes b) ProofSizeMismatch (
     need BadProof (proof_deser S outer_bytes) (\<lambda>pf.
     ensure (outer_n0_from_pi_count n_inner = zb_outer_n0 b) N0Mismatch (
     need ParamsPanic (build_params (zb_outer_n0 b) pk_hash32 ldt) (\<lambda>params.
     ensure (fri_verify S params pf) FriFailed (
     decode_fixed E 32 (zb_outer_root_f0_hex b) (\<lambda>outer_root.
     ensure (root_f0_of S pf = outer_root) RootMismatch (k outer_root))))))))"

definition hex_opt_field :: "ext \<Rightarrow> string option \<Rightarrow> (bytes \<Rightarrow> verify_error + 'b) \<Rightarrow> verify_error + 'b" where
  "hex_opt_field E h k = need BadHex (hex_opt E h) k"

lemma hex_opt_field_Inr [simp]: "hex_opt_field E h k = Inr r \<longleftrightarrow> (\<exists>v. hex_opt E h = Some v \<and> k v = Inr r)"
  by (simp add: hex_opt_field_def)

section \<open>DS to KSK\<close>

definition verify_ds_stark ::
  "ext \<Rightarrow> 'p stark \<Rightarrow> (string \<Rightarrow> bytes option) \<Rightarrow> bytes \<Rightarrow> ldt_mode \<Rightarrow> bytes \<Rightarrow> bytes \<Rightarrow> ds_ksk_fields \<Rightarrow>
     string \<Rightarrow> verify_error + unit" where
  "verify_ds_stark E S rd pk_hash32 ldt dnskey_bytes expected d path =
     need MissingFile (rd path) (\<lambda>proof_bytes.
     need BadProof (proof_deser S proof_bytes) (\<lambda>pf.
     need MissingField (dk_n_blocks d) (\<lambda>n_blocks.
     need MissingField (dk_n_trace d) (\<lambda>n_trace.
     ensure (is_power_of_two n_trace) NotPowerOfTwo (
     ensure (n_blocks = (length dnskey_bytes + 9 + 63) div 64) BlockCountMismatch (
     need ParamsPanic (build_params (usize_mul n_trace 32) pk_hash32 ldt) (\<lambda>params.
     ensure (fri_verify S params pf) FriFailed (
     need MissingField (dk_asserted_digest_hex d) (\<lambda>asserted_hex.
     decode_fixed E 32 asserted_hex (\<lambda>asserted.
     ensure (asserted = expected) AssertedDigestMismatch (
     need MissingField (dk_pi_hash_hex d) (\<lambda>pi_hex.
     decode_fixed E 32 pi_hex (\<lambda>pi_claim.
     ensure (ds_ksk_pi_hash E dnskey_bytes expected asserted (root_f0_of S pf) pk_hash32 = pi_claim)
       PiRecipeMismatch (
     need MissingField (dk_root_f0_hex d) (\<lambda>root_hex.
     decode_fixed E 32 root_hex (\<lambda>root_claim.
     ensure (root_f0_of S pf = root_claim) RootMismatch (Inr ())))))))))))))))))"

definition verify_ds_binding ::
  "ext \<Rightarrow> 'p stark \<Rightarrow> (string \<Rightarrow> bytes option) \<Rightarrow> bytes \<Rightarrow> ldt_mode \<Rightarrow> bytes \<Rightarrow> bytes \<Rightarrow> ds_ksk_fields \<Rightarrow>
     verify_error + unit" where
  "verify_ds_binding E S rd pk_hash32 ldt dnskey_bytes ds_hash_bytes d =
     (if dnskey_bytes = [] \<or> ds_hash_bytes = [] then Inr ()
      else ensure (length ds_hash_bytes = 32) DsHashLength
       (case dk_proof_path d of
          Some path \<Rightarrow> verify_ds_stark E S rd pk_hash32 ldt dnskey_bytes ds_hash_bytes d path
        | None \<Rightarrow> ensure (sha2_256 E dnskey_bytes = ds_hash_bytes) DsBindingFailed (Inr ())))"

section \<open>ZSK to KSK\<close>

definition verify_zsk_stark ::
  "ext \<Rightarrow> 'p stark \<Rightarrow> (string \<Rightarrow> bytes option) \<Rightarrow> ldt_mode \<Rightarrow> bytes \<Rightarrow> zsk_ksk_fields \<Rightarrow> string \<Rightarrow>
     verify_error + unit" where
  "verify_zsk_stark E S rd ldt fs_binding z path =
     ensure ((case zk_stark_kind z of Some kind \<Rightarrow> kind | None \<Rightarrow> ''stub-k8'') = ''stub-k8'')
       UnknownStarkKind (
     need MissingFile (rd path) (\<lambda>proof_bytes.
     need BadProof (proof_deser S proof_bytes) (\<lambda>pf.
     need MissingField (zk_n_trace z) (\<lambda>n_trace.
     ensure (is_power_of_two n_trace) NotPowerOfTwo (
     need ParamsPanic (build_params (usize_mul n_trace 32) fs_binding ldt) (\<lambda>params.
     ensure (fri_verify S params pf) FriFailed (
     need MissingField (zk_root_f0_hex z) (\<lambda>root_hex.
     decode_fixed E 32 root_hex (\<lambda>root_claim.
     ensure (root_f0_of S pf = root_claim) RootMismatch (
     need MissingField (zk_pi_hash_hex z) (\<lambda>pi_hex.
     decode_fixed E 32 pi_hex (\<lambda>pi_claim.
     ensure (zsk_ksk_stub_pi_hash E (root_f0_of S pf) fs_binding = pi_claim) PiRecipeMismatch
       (Inr ())))))))))))))"

definition verify_zsk_runtime ::
  "ext \<Rightarrow> ed25519 \<Rightarrow> bytes \<Rightarrow> zsk_ksk_fields \<Rightarrow> verify_error + unit" where
  "verify_zsk_runtime E ed fs_binding z =
     need MissingField (zk_pubkey_hex z) (\<lambda>pubkey_hex.
     need MissingField (zk_signature_hex z) (\<lambda>signature_hex.
     need MissingField (zk_signed_data_hex z) (\<lambda>signed_data_hex.
     need MissingField (zk_pi_hash_hex z) (\<lambda>pi_hash_hex.
     decode_fixed E 32 pubkey_hex (\<lambda>pubkey.
     decode_fixed E 64 signature_hex (\<lambda>signature.
     decode_fixed E 32 pi_hash_hex (\<lambda>claimed_pi.
     need BadHex (hex_decode E signed_data_hex) (\<lambda>signed_data.
     case verify_zsk_ksk_runtime_fallback E ed pubkey signature signed_data fs_binding claimed_pi of
       Inl e \<Rightarrow> Inl (ZskKskFailed e) | Inr _ \<Rightarrow> Inr ()))))))))"

definition verify_zsk_binding ::
  "ext \<Rightarrow> 'p stark \<Rightarrow> ed25519 \<Rightarrow> (string \<Rightarrow> bytes option) \<Rightarrow> bytes \<Rightarrow> ldt_mode \<Rightarrow> zsk_ksk_fields \<Rightarrow>
     verify_error + unit" where
  "verify_zsk_binding E S ed rd pk_hash32 ldt z =
     (if zk_pubkey_hex z = None \<and> zk_signature_hex z = None \<and> zk_signed_data_hex z = None \<and>
         zk_pi_hash_hex z = None \<and> zk_proof_path z = None then Inr ()
      else
        let go = (\<lambda>fs_binding. case zk_proof_path z of
                    Some path \<Rightarrow> verify_zsk_stark E S rd ldt fs_binding z path
                  | None \<Rightarrow> verify_zsk_runtime E ed fs_binding z)
        in case zk_fs_binding_hex z of
             Some h \<Rightarrow> decode_fixed E 32 h go
           | None \<Rightarrow> go pk_hash32)"

section \<open>The bundle\<close>

definition sorted_workers :: "zone_bundle \<Rightarrow> inner_worker list" where
  "sorted_workers b = sort_key iw_shard_id (zb_inner_workers b)"

definition verify_bundle ::
  "ext \<Rightarrow> 'p stark \<Rightarrow> ed25519 \<Rightarrow> (string \<Rightarrow> bytes option) \<Rightarrow> zone_bundle \<Rightarrow> verify_error + unit" where
  "verify_bundle E S ed rd b =
     ensure (zb_bundle_format b = 2) UnsupportedFormat (
     need UnknownLevel (parse_level (zb_nist_level b)) (\<lambda>level.
     need UnknownLdt (parse_ldt (zb_ldt b)) (\<lambda>ldt.
     need BadHex (hex_decode E (zb_authority_pk_hex b)) (\<lambda>pk_bytes.
     decode_fixed E 32 (zb_authority_pk_hash_hex b) (\<lambda>pk_hash32.
     decode_fixed E 16 (zb_zone_salt_hex b) (\<lambda>zone_salt.
     decode_fixed E 32 (zb_job_id_hex b) (\<lambda>job_id.
     ensure (pk_binding_hash E pk_bytes = pk_hash32) PkHashMismatch (
     let sorted = sorted_workers b in
     ensure (length sorted = zb_shard_count b) ShardCountMismatch (
     andthen (all_ok (verify_inner E S rd zone_salt pk_hash32 job_id ldt (zb_shard_replication b)) sorted) (
     verify_outer E S rd pk_hash32 ldt (length sorted) b (\<lambda>outer_root.
     hex_opt_field E (zb_dnskey_pk_hex b) (\<lambda>dnskey_bytes.
     hex_opt_field E (zb_parent_ds_hash_hex b) (\<lambda>ds_hash_bytes.
     let digest = zone_digest E level (zb_nist_level b) zone_salt (zb_record_count b) outer_root
                    pk_hash32 dnskey_bytes ds_hash_bytes in
     need BadHex (hex_decode E (zb_zone_digest_hex b)) (\<lambda>zone_digest_claim.
     ensure (digest = zone_digest_claim) ZoneDigestMismatch (
     need BadHex (hex_decode E (zb_authority_sig_hex b)) (\<lambda>authority_sig.
     ensure (verify_worker_sig E pk_bytes digest authority_sig) AuthoritySigFailed (
     andthen (verify_ds_binding E S rd pk_hash32 ldt dnskey_bytes ds_hash_bytes (zb_ds_ksk b)) (
     verify_zsk_binding E S ed rd pk_hash32 ldt (zb_zsk_ksk b)))))))))))))))))))"

section \<open>Receipt audits\<close>

definition decode_fixed_or_zero :: "ext \<Rightarrow> nat \<Rightarrow> string \<Rightarrow> bytes" where
  "decode_fixed_or_zero E n s =
     (case hex_decode E s of Some v \<Rightarrow> if length v = n then v else replicate n 0
                           | None \<Rightarrow> replicate n 0)"

definition bundle_index :: "ext \<Rightarrow> inner_worker list \<Rightarrow> (u32, bytes) hashmap" where
  "bundle_index E ws =
     fold (\<lambda>w. hm_insert (iw_shard_id w) (decode_fixed_or_zero E 32 (iw_pi_hash_hex w))) ws []"

definition receipt_digest_of :: "ext \<Rightarrow> shard_receipt \<Rightarrow> bytes" where
  "receipt_digest_of E rc =
     ctrl_receipt_digest E (rc_job_id rc) (rc_shard_id rc) (rc_worker_id rc) (rc_pi_hash rc)
       (rc_merkle_root rc) (rc_accepted_at_unix_ms rc)"

text \<open>A directory listing is the list of its parsable \<open>.cbor\<close> receipts; \<open>None\<close>: no such directory.\<close>

datatype receipt_status = OtherJob | WrongPk | SigFailed | Consistent | Censored

definition audit_receipt ::
  "ext \<Rightarrow> bytes \<Rightarrow> bytes \<Rightarrow> (u32, bytes) hashmap \<Rightarrow> shard_receipt \<Rightarrow> receipt_status" where
  "audit_receipt E job_id expected_ctrl_pk index rc =
     (if rc_job_id rc \<noteq> job_id then OtherJob
      else if rc_ctrl_authority_pk rc \<noteq> expected_ctrl_pk then WrongPk
      else if \<not> verify_worker_sig E (rc_ctrl_authority_pk rc) (receipt_digest_of E rc) (rc_ctrl_sig rc)
           then SigFailed
      else if hm_get index (rc_shard_id rc) = Some (rc_pi_hash rc) then Consistent
      else Censored)"

definition audit_receipts ::
  "ext \<Rightarrow> shard_receipt list option \<Rightarrow> bytes \<Rightarrow> bytes \<Rightarrow> inner_worker list \<Rightarrow> verify_error + unit" where
  "audit_receipts E dir job_id expected_ctrl_pk ws =
     (case dir of None \<Rightarrow> Inr ()
      | Some receipts \<Rightarrow>
          let index = bundle_index E ws;
              censored = filter (\<lambda>rc. audit_receipt E job_id expected_ctrl_pk index rc = Censored) receipts
          in if censored \<noteq> [] then Inl Censorship else Inr ())"

text \<open>
  One pass over a witness archive: each matching receipt adds the archive's label to the
  shard's list.
\<close>

definition witness_match :: "ext \<Rightarrow> bytes \<Rightarrow> (u32, bytes) hashmap \<Rightarrow> shard_receipt \<Rightarrow> bool" where
  "witness_match E job_id index rc \<longleftrightarrow>
     rc_job_id rc = job_id \<and>
     verify_worker_sig E (rc_ctrl_authority_pk rc) (receipt_digest_of E rc) (rc_ctrl_sig rc) \<and>
     hm_get index (rc_shard_id rc) = Some (rc_pi_hash rc)"

definition push_label :: "u32 \<Rightarrow> string \<Rightarrow> (u32, string list) hashmap \<Rightarrow> (u32, string list) hashmap" where
  "push_label sid lbl m =
     hm_insert sid ((case hm_get m sid of None \<Rightarrow> [] | Some ls \<Rightarrow> ls) @ [lbl]) m"

fun scan_archive ::
  "ext \<Rightarrow> bytes \<Rightarrow> (u32, bytes) hashmap \<Rightarrow> string \<Rightarrow> shard_receipt list \<Rightarrow>
     (u32, string list) hashmap \<Rightarrow> (u32, string list) hashmap" where
  "scan_archive E job_id index lbl [] m = m"
| "scan_archive E job_id index lbl (rc # rcs) m =
     scan_archive E job_id index lbl rcs
       (if witness_match E job_id index rc then push_label (rc_shard_id rc) lbl m else m)"

fun scan_archives ::
  "ext \<Rightarrow> bytes \<Rightarrow> (u32, bytes) hashmap \<Rightarrow> (string \<times> shard_receipt list option) list \<Rightarrow>
     (u32, string list) hashmap \<Rightarrow> (u32, string list) hashmap" where
  "scan_archives E job_id index [] m = m"
| "scan_archives E job_id index ((lbl, None) # dirs) m = scan_archives E job_id index dirs m"
| "scan_archives E job_id index ((lbl, Some rcs) # dirs) m =
     scan_archives E job_id index dirs (scan_archive E job_id index lbl rcs m)"

definition audit_witnesses ::
  "ext \<Rightarrow> (string \<times> shard_receipt list option) list \<Rightarrow> nat \<Rightarrow> bytes \<Rightarrow> inner_worker list \<Rightarrow>
     verify_error + unit" where
  "audit_witnesses E witness_dirs threshold job_id ws =
     (if threshold > length witness_dirs then Inl ImpossibleQuorum
      else
        let index = bundle_index E ws;
            agreeing = scan_archives E job_id index witness_dirs [];
            shortfalls = filter (\<lambda>w. (case hm_get agreeing (iw_shard_id w) of
                            None \<Rightarrow> 0 | Some ls \<Rightarrow> length ls) < threshold) ws
        in if shortfalls \<noteq> [] then Inl QuorumShortfall else Inr ())"

definition verify_main ::
  "ext \<Rightarrow> 'p stark \<Rightarrow> ed25519 \<Rightarrow> (string \<Rightarrow> bytes option) \<Rightarrow> shard_receipt list option option \<Rightarrow>
     (string \<times> shard_receipt list option) list \<Rightarrow> nat option \<Rightarrow> zone_bundle \<Rightarrow> verify_error + unit" where
  "verify_main E S ed rd receipts_dir witness_receipts witness_threshold b =
     andthen (verify_bundle E S ed rd b) (
     need BadHex (hex_decode E (zb_authority_pk_hex b)) (\<lambda>pk_bytes.
     decode_fixed E 32 (zb_job_id_hex b) (\<lambda>job_id.
     let sorted = sorted_workers b in
     andthen (case receipts_dir of None \<Rightarrow> Inr ()
              | Some dir \<Rightarrow> audit_receipts E dir job_id pk_bytes sorted)
       (if witness_receipts = [] then Inr ()
        else audit_witnesses E witness_receipts
               (case witness_threshold of Some m \<Rightarrow> m | None \<Rightarrow> length witness_receipts)
               job_id sorted))))"

end
