(* ===== verification/Zone_Job_Safety.thy ===== *)
theory Zone_Job_Safety
  imports Zone_Job
begin

text \<open>
  The invariant of the zone job and its preservation by every handler.  \<open>core_inv\<close> speaks of
  the maps (which shards are open, which are settled, what is recorded for them),
  \<open>covered\<close> of the queue, \<open>log_inv\<close> of the assignments sent so far.
\<close>

section \<open>The invariant\<close>

definition response_ok :: "ext \<Rightarrow> u32 \<Rightarrow> bytes \<Rightarrow> response_entry \<Rightarrow> bool" where
  "response_ok E sid root re \<longleftrightarrow>
     sr_shard_id (re_result re) = sid \<and> sr_merkle_root (re_result re) = root \<and>
     verify_worker_sig E (re_worker_pk re) (result_digest E (re_result re))
       (sr_worker_sig (re_result re))"

definition ens_ok :: "ext \<Rightarrow> job_cfg \<Rightarrow> u32 \<Rightarrow> bytes \<Rightarrow> shard_ensemble \<Rightarrow> bool" where
  "ens_ok E cfg sid root e \<longleftrightarrow>
     sp_shard_id (en_spec e) = sid \<and> en_expected_merkle_root e = root \<and>
     en_target_k e = replicas cfg \<and>
     hm_ok (en_pending_workers e) \<and> hm_ok (en_responses e) \<and>
     fst ` set (en_pending_workers e) \<inter> fst ` set (en_responses e) = {} \<and>
     fst ` set (en_pending_workers e) \<union> fst ` set (en_responses e) \<subseteq> en_assigned e \<and>
     length (en_pending_workers e) + length (en_responses e) \<le> replicas cfg \<and>
     (\<forall>(w, re) \<in> set (en_responses e). response_ok E sid root re)"

definition result_ok :: "ext \<Rightarrow> job_cfg \<Rightarrow> u32 \<Rightarrow> bytes \<Rightarrow> shard_result \<Rightarrow> attestation list \<Rightarrow> bool" where
  "result_ok E cfg sid root res atts \<longleftrightarrow>
     sr_shard_id res = sid \<and> sr_merkle_root res = root \<and>
     distinct (map fst atts) \<and> length atts \<le> replicas cfg \<and> replicas cfg < 2 * length atts \<and>
     (\<forall>(w, pk, sig, ms) \<in> set atts. verify_worker_sig E pk (result_digest E res) sig)"

definition open_ids :: "job \<Rightarrow> u32 set" where
  "open_ids j = fst ` set (j_ensembles j)"

definition settled_ids :: "job \<Rightarrow> u32 set" where
  "settled_ids j = fst ` set (j_results j)"

definition core_inv :: "ext \<Rightarrow> job_cfg \<Rightarrow> job \<Rightarrow> bool" where
  "core_inv E cfg j \<longleftrightarrow>
     hm_ok (j_ensembles j) \<and> hm_ok (j_results j) \<and> hm_ok (j_expected j) \<and>
     open_ids j \<inter> settled_ids j = {} \<and> open_ids j \<union> settled_ids j = fst ` set (j_expected j) \<and>
     j_total j = length (j_expected j) \<and>
     (\<forall>sid ens. hm_get (j_ensembles j) sid = Some ens \<longrightarrow>
        (\<exists>root. hm_get (j_expected j) sid = Some root \<and> ens_ok E cfg sid root ens)) \<and>
     (\<forall>sid res. hm_get (j_results j) sid = Some res \<longrightarrow>
        (\<exists>root atts. hm_get (j_expected j) sid = Some root \<and>
           hm_get (j_attestations j) sid = Some atts \<and> result_ok E cfg sid root res atts))"

definition open_inv :: "job_cfg \<Rightarrow> job \<Rightarrow> bool" where
  "open_inv cfg j \<longleftrightarrow>
     (\<forall>sid ens. hm_get (j_ensembles j) sid = Some ens \<longrightarrow> length (en_responses ens) < replicas cfg)"

definition covered :: "u32 set \<Rightarrow> job \<Rightarrow> bool" where
  "covered Q j \<longleftrightarrow>
     (\<forall>sid ens. hm_get (j_ensembles j) sid = Some ens \<longrightarrow> slots_remaining ens > 0 \<longrightarrow> sid \<in> Q)"

definition outstanding :: "job \<Rightarrow> worker_id set" where
  "outstanding j =
     {w. \<exists>sid ens. hm_get (j_ensembles j) sid = Some ens \<and> w \<in> fst ` set (en_pending_workers ens)}"

definition live_inv :: "ext \<Rightarrow> job_cfg \<Rightarrow> u32 set \<Rightarrow> job \<Rightarrow> bool" where
  "live_inv E cfg Q j \<longleftrightarrow> core_inv E cfg j \<and> open_inv cfg j \<and> covered Q j \<and> j_busy j \<subseteq> outstanding j"

text \<open>What every handler establishes: in a job that goes on, the whole invariant.\<close>

definition job_inv :: "ext \<Rightarrow> job_cfg \<Rightarrow> job \<Rightarrow> bool" where
  "job_inv E cfg j \<longleftrightarrow> core_inv E cfg j \<and> j_status j \<noteq> Panicked \<and> j_status j \<noteq> Stuck \<and>
     (j_status j \<noteq> Aborted \<longrightarrow> live_inv E cfg (set (j_queue j)) j) \<and>
     (j_status j = Done \<longleftrightarrow> length (j_results j) = j_total j \<and> j_status j \<notin> {Aborted, Closed})"

lemmas inv_defs = core_inv_def open_inv_def covered_def outstanding_def live_inv_def
  open_ids_def settled_ids_def

lemma replicas_pos [simp]: "0 < replicas cfg" "replicas cfg \<noteq> 0"
  by (simp_all add: replicas_def)

lemma slots_remaining_iff:
  "ens_ok E cfg sid root e \<Longrightarrow>
     slots_remaining e = replicas cfg - (length (en_pending_workers e) + length (en_responses e))"
  by (simp add: slots_remaining_def ens_ok_def)

lemma put_simps [simp]:
  "hm_get (j_ensembles (put_ensemble sid e j)) sid' =
     (if sid' = sid then Some e else hm_get (j_ensembles j) sid')"
  "hm_ok (j_ensembles j) \<Longrightarrow> hm_ok (j_ensembles (put_ensemble sid e j))"
  "j_results (put_ensemble sid e j) = j_results j"
  "j_attestations (put_ensemble sid e j) = j_attestations j"
  "j_expected (put_ensemble sid e j) = j_expected j"
  "j_total (put_ensemble sid e j) = j_total j"
  "j_busy (put_ensemble sid e j) = j_busy j"
  "j_blacklisted (put_ensemble sid e j) = j_blacklisted j"
  "j_status (put_ensemble sid e j) = j_status j"
  "j_queue (put_ensemble sid e j) = j_queue j"
  "j_nonces (put_ensemble sid e j) = j_nonces j"
  by (simp_all add: put_ensemble_def update_conv')

lemma open_ids_put [simp]: "open_ids (put_ensemble sid e j) = insert sid (open_ids j)"
  by (simp add: open_ids_def put_ensemble_def)

lemma settled_ids_put [simp]: "settled_ids (put_ensemble sid e j) = settled_ids j"
  by (simp add: settled_ids_def)

lemma open_ids_iff: "sid \<in> open_ids j \<longleftrightarrow> (\<exists>ens. hm_get (j_ensembles j) sid = Some ens)"
  unfolding open_ids_def by (metis domD domI dom_map_of_conv_image_fst)

lemma core_inv_put:
  assumes "core_inv E cfg j" "hm_get (j_ensembles j) sid = Some e0"
    and "\<And>root. ens_ok E cfg sid root e0 \<Longrightarrow> hm_get (j_expected j) sid = Some root \<Longrightarrow> ens_ok E cfg sid root e"
  shows "core_inv E cfg (put_ensemble sid e j)"
proof -
  have "sid \<in> open_ids j" using assms(2) by (auto simp: open_ids_iff)
  moreover obtain root where "hm_get (j_expected j) sid = Some root" "ens_ok E cfg sid root e0"
    using assms(1,2) unfolding core_inv_def by blast
  then have "hm_get (j_expected j) sid = Some root" "ens_ok E cfg sid root e"
    using assms(3) by simp_all
  ultimately show ?thesis
    using assms(1) unfolding core_inv_def
    by (simp add: insert_absorb del: map_of_eq_Some_iff)
qed

text \<open>Fields the invariant does not read.\<close>

lemma core_inv_cong [simp]:
  "core_inv E cfg (j\<lparr>j_busy := b\<rparr>) = core_inv E cfg j"
  "core_inv E cfg (j\<lparr>j_queue := q\<rparr>) = core_inv E cfg j"
  "core_inv E cfg (j\<lparr>j_blacklisted := bl\<rparr>) = core_inv E cfg j"
  "core_inv E cfg (j\<lparr>j_status := st\<rparr>) = core_inv E cfg j"
  by (simp_all add: core_inv_def open_ids_def settled_ids_def)

lemma open_inv_cong [simp]:
  "open_inv cfg (j\<lparr>j_busy := b\<rparr>) = open_inv cfg j"
  "open_inv cfg (j\<lparr>j_queue := q\<rparr>) = open_inv cfg j"
  "open_inv cfg (j\<lparr>j_blacklisted := bl\<rparr>) = open_inv cfg j"
  "open_inv cfg (j\<lparr>j_status := st\<rparr>) = open_inv cfg j"
  by (simp_all add: open_inv_def)

lemma covered_cong [simp]:
  "covered Q (j\<lparr>j_busy := b\<rparr>) = covered Q j"
  "covered Q (j\<lparr>j_queue := q\<rparr>) = covered Q j"
  "covered Q (j\<lparr>j_blacklisted := bl\<rparr>) = covered Q j"
  "covered Q (j\<lparr>j_status := st\<rparr>) = covered Q j"
  by (simp_all add: covered_def)

lemma outstanding_cong [simp]:
  "outstanding (j\<lparr>j_busy := b\<rparr>) = outstanding j"
  "outstanding (j\<lparr>j_queue := q\<rparr>) = outstanding j"
  "outstanding (j\<lparr>j_blacklisted := bl\<rparr>) = outstanding j"
  "outstanding (j\<lparr>j_status := st\<rparr>) = outstanding j"
  by (simp_all add: outstanding_def)

lemma live_inv_cong [simp]:
  "live_inv E cfg Q (j\<lparr>j_queue := q\<rparr>) = live_inv E cfg Q j"
  "live_inv E cfg Q (j\<lparr>j_blacklisted := bl\<rparr>) = live_inv E cfg Q j"
  "live_inv E cfg Q (j\<lparr>j_status := st\<rparr>) = live_inv E cfg Q j"
  by (simp_all add: live_inv_def)

section \<open>Assigning\<close>

lemma candidate_Some:
  assumes "candidate j ens r = Some w"
  shows "w \<notin> j_busy j" "w \<notin> j_blacklisted j" "w \<notin> en_assigned ens" "w \<in> fst ` set (ro_workers r)"
  using assms unfolding candidate_def by (auto simp: find_Some_iff dest: nth_mem)

lemma ens_ok_assign:
  assumes "ens_ok E cfg sid root e" "slots_remaining e \<noteq> 0" "w \<notin> en_assigned e"
  shows "ens_ok E cfg sid root (assign_to w now e)"
proof -
  have "w \<notin> fst ` set (en_pending_workers e)" "w \<notin> fst ` set (en_responses e)"
    using assms(1,3) by (auto simp: ens_ok_def)
  then show ?thesis
    using assms(1,2)
    by (auto simp: ens_ok_def assign_to_def slots_remaining_def hm_length_insert_new)
qed

lemma live_inv_assign:
  assumes inv: "live_inv E cfg Q j" and e: "hm_get (j_ensembles j) sid = Some e"
    and slots: "slots_remaining e \<noteq> 0" and w: "w \<notin> en_assigned e"
    and Q': "slots_remaining (assign_to w now e) > 0 \<Longrightarrow> sid \<in> Q'" "Q - {sid} \<subseteq> Q'"
  shows "live_inv E cfg Q'
           ((put_ensemble sid (assign_to w now e) j)\<lparr>j_busy := insert w (j_busy j)\<rparr>)"
proof -
  let ?e = "assign_to w now e" let ?j = "put_ensemble sid ?e j"
  have "core_inv E cfg ?j"
    using inv e slots w unfolding live_inv_def
    by (intro core_inv_put [of _ _ _ sid e]) (auto intro: ens_ok_assign)
  moreover have "open_inv cfg ?j"
    using inv e unfolding live_inv_def open_inv_def by (simp add: assign_to_def)
  moreover have "covered Q' ?j"
    using inv Q' unfolding live_inv_def covered_def
    by (auto simp del: map_of_eq_Some_iff)
  moreover have "insert w (j_busy j) \<subseteq> outstanding ?j"
  proof -
    have "w \<in> outstanding ?j"
      unfolding outstanding_def by (auto simp: assign_to_def intro!: exI [of _ sid])
    moreover have "outstanding j \<subseteq> outstanding ?j"
    proof
      fix v assume "v \<in> outstanding j"
      then obtain s f where "hm_get (j_ensembles j) s = Some f" "v \<in> fst ` set (en_pending_workers f)"
        by (auto simp: outstanding_def)
      then show "v \<in> outstanding ?j"
        using e unfolding outstanding_def mem_Collect_eq
        by (intro exI [of _ s] exI [of _ "if s = sid then ?e else f"]) (auto simp: assign_to_def)
    qed
    ultimately show ?thesis using inv unfolding live_inv_def by blast
  qed
  ultimately show ?thesis by (simp add: live_inv_def)
qed

lemma live_inv_skip:
  assumes "live_inv E cfg Q j" "Q - {sid} \<subseteq> Q'"
    and "\<And>e. hm_get (j_ensembles j) sid = Some e \<Longrightarrow> slots_remaining e \<noteq> 0 \<Longrightarrow> sid \<in> Q'"
  shows "live_inv E cfg Q' j"
proof -
  have "covered Q' j"
    unfolding covered_def
  proof (intro allI impI)
    fix s e assume e: "hm_get (j_ensembles j) s = Some e" "slots_remaining e > 0"
    then have "s \<in> Q" using assms(1) unfolding live_inv_def covered_def by blast
    then show "s \<in> Q'" using assms(2,3) e by (cases "s = sid") auto
  qed
  then show ?thesis using assms(1) by (simp add: live_inv_def)
qed

lemma drain_loop_cases:
  obtains
    (skip) "drain_loop obs (sid # q) still j = drain_loop (\<lambda>n. obs (Suc n)) q still j"
      "\<And>e. hm_get (j_ensembles j) sid = Some e \<Longrightarrow> slots_remaining e = 0"
  | (wait) "drain_loop obs (sid # q) still j = drain_loop (\<lambda>n. obs (Suc n)) q (still @ [sid]) j"
  | (assign) e w now still' j' effs where
      "hm_get (j_ensembles j) sid = Some e" "slots_remaining e \<noteq> 0"
      "candidate j e (do_roster1 (obs 0)) = Some w"
      "still' = (if slots_remaining (assign_to w now e) > 0 then still @ [sid] else still)"
      "drain_loop (\<lambda>n. obs (Suc n)) q still'
         ((put_ensemble sid (assign_to w now e) j)\<lparr>j_busy := insert w (j_busy j)\<rparr>) = (j', effs)"
      "drain_loop obs (sid # q) still j = (j', SendAssign w (en_spec e) # effs)"
proof (cases "hm_get (j_ensembles j) sid")
  case None
  then show thesis by (intro skip) simp_all
next
  case e: (Some e)
  consider "slots_remaining e = 0" | "slots_remaining e \<noteq> 0" "candidate j e (do_roster1 (obs 0)) = None"
    | w where "slots_remaining e \<noteq> 0" "candidate j e (do_roster1 (obs 0)) = Some w"
    by blast
  then show thesis
  proof cases
    case 3
    show thesis
    proof (cases "hm_get (ro_workers (do_roster2 (obs 0))) w")
      case None
      show thesis by (rule wait) (simp only: drain_loop.simps Let_def e 3 None option.case if_False)
    next
      case (Some ws)
      show thesis
      proof (cases "do_send_ok (obs 0)")
        case True
        obtain j' effs where "drain_loop (\<lambda>n. obs (Suc n)) q
            (if slots_remaining (assign_to w (do_now (obs 0)) e) > 0 then still @ [sid] else still)
            ((put_ensemble sid (assign_to w (do_now (obs 0)) e) j)\<lparr>j_busy := insert w (j_busy j)\<rparr>) = (j', effs)"
          by fastforce
        with True Some e 3 show thesis by (intro assign) (auto simp: Let_def)
      next
        case False
        then show thesis using Some e 3 by (intro wait) (simp add: Let_def)
      qed
    qed
  qed (use e skip wait in \<open>simp_all\<close>)
qed

lemma drain_loop_live:
  assumes "live_inv E cfg (set q \<union> set still) j" "drain_loop obs q still j = (j', effs)"
  shows "live_inv E cfg (set (j_queue j')) j'"
  using assms
proof (induction q arbitrary: obs still j j' effs)
  case (Cons sid q)
  show ?case
  proof (cases rule: drain_loop_cases [of obs sid q still j])
    case skip
    have "live_inv E cfg (set q \<union> set still) j"
      by (rule live_inv_skip [OF Cons.prems(1), of sid]) (auto dest: skip(2))
    then show ?thesis using Cons skip(1) by metis
  next
    case wait
    have "live_inv E cfg (set q \<union> set (still @ [sid])) j"
      by (rule live_inv_skip [OF Cons.prems(1), of sid]) auto
    then show ?thesis using Cons wait by metis
  next
    case (assign e w now still' j2 effs2)
    have "live_inv E cfg (set q \<union> set still')
        ((put_ensemble sid (assign_to w now e) j)\<lparr>j_busy := insert w (j_busy j)\<rparr>)"
      by (rule live_inv_assign [OF Cons.prems(1) assign(1,2) candidate_Some(3) [OF assign(3)]])
        (auto simp: assign(4))
    from Cons.IH [OF this assign(5)] show ?thesis using assign(6) Cons.prems(2) by simp
  qed
qed (auto simp: live_inv_def)

lemma drain_assignments_live:
  assumes "live_inv E cfg (set (j_queue j)) j" "drain_assignments obs j = (j', effs)"
  shows "live_inv E cfg (set (j_queue j')) j'"
  using drain_loop_live [of E cfg "j_queue j" "[]" j obs j' effs] assms
  by (simp add: drain_assignments_def)

text \<open>What a drain leaves alone, and whom it assigns.\<close>

lemma drain_loop_frame:
  assumes "drain_loop obs q still j = (j', effs)"
  shows "j_status j' = j_status j \<and> j_blacklisted j' = j_blacklisted j \<and> j_results j' = j_results j \<and>
    j_attestations j' = j_attestations j \<and> j_expected j' = j_expected j \<and> j_total j' = j_total j \<and>
    j_nonces j' = j_nonces j \<and> (\<forall>eff \<in> set effs. \<exists>w sp. eff = SendAssign w sp \<and> w \<notin> j_blacklisted j)"
  using assms
proof (induction q arbitrary: obs still j j' effs)
  case (Cons sid q)
  show ?case
  proof (cases rule: drain_loop_cases [of obs sid q still j])
    case (assign e w now still' j2 effs2)
    from Cons.IH [OF assign(5)] show ?thesis
      using assign(6) Cons.prems candidate_Some(2) [OF assign(3)] by auto
  qed (use Cons in metis)+
qed auto

lemma drain_frame:
  assumes "drain_assignments obs j = (j', effs)"
  shows "j_status j' = j_status j" "j_blacklisted j' = j_blacklisted j" "j_results j' = j_results j"
    "j_attestations j' = j_attestations j" "j_expected j' = j_expected j" "j_total j' = j_total j"
    "j_nonces j' = j_nonces j"
    "eff \<in> set effs \<Longrightarrow> \<exists>w sp. eff = SendAssign w sp \<and> w \<notin> j_blacklisted j"
  using drain_loop_frame [OF assms [unfolded drain_assignments_def]] by blast+

section \<open>Freeing slots\<close>

lemma free_slot_simps [simp]:
  "en_responses (free_slot w e) = en_responses e"
  "en_pending_workers (free_slot w e) = hm_remove w (en_pending_workers e)"
  "en_assigned (free_slot w e) = en_assigned e"
  "en_target_k (free_slot w e) = en_target_k e"
  "en_spec (free_slot w e) = en_spec e"
  "en_expected_merkle_root (free_slot w e) = en_expected_merkle_root e"
  by (simp_all add: free_slot_def)

lemma free_slot_absent: "w \<notin> fst ` set (en_pending_workers e) \<Longrightarrow> free_slot w e = e"
  by (simp add: free_slot_def hm_remove_absent)

lemma ens_ok_free_slot [inv_intros]:
  "ens_ok E cfg sid root e \<Longrightarrow> ens_ok E cfg sid root (free_slot w e)"
  using hm_length_remove_le [of w "en_pending_workers e"]
  by (auto simp: ens_ok_def free_slot_def)

lemma outstanding_put:
  assumes "hm_get (j_ensembles j) sid = Some e"
    and "fst ` set (en_pending_workers e) - {w} \<subseteq> fst ` set (en_pending_workers e')"
  shows "outstanding j - {w} \<subseteq> outstanding (put_ensemble sid e' j)"
proof
  fix v assume "v \<in> outstanding j - {w}"
  then obtain s f where f: "hm_get (j_ensembles j) s = Some f" "v \<in> fst ` set (en_pending_workers f)" "v \<noteq> w"
    unfolding outstanding_def by blast
  show "v \<in> outstanding (put_ensemble sid e' j)"
  proof (cases "s = sid")
    case True
    then have "v \<in> fst ` set (en_pending_workers e')" using f assms by auto
    then show ?thesis unfolding outstanding_def mem_Collect_eq True
      by (intro exI [of _ sid] exI [of _ e']) simp
  next
    case False
    then show ?thesis using f(1,2) unfolding outstanding_def mem_Collect_eq
      by (intro exI [of _ s] exI [of _ f]) simp
  qed
qed

abbreviation running_inv :: "ext \<Rightarrow> job_cfg \<Rightarrow> job \<Rightarrow> bool" where
  "running_inv E cfg j \<equiv> live_inv E cfg (set (j_queue j)) j"

lemma running_inv_reopen [inv_intros]:
  assumes inv: "running_inv E cfg j"
  shows "running_inv E cfg (reopen_slot w sid j)"
proof (cases "hm_get (j_ensembles j) sid")
  case None
  have "live_inv E cfg (insert sid (set (j_queue j))) j"
    using inv by (rule live_inv_skip) auto
  then show ?thesis using None by (auto simp: reopen_slot_def live_inv_def)
next
  case (Some e)
  let ?j = "put_ensemble sid (free_slot w e) j"
  have "core_inv E cfg ?j"
    using inv Some unfolding live_inv_def by (intro core_inv_put [of _ _ _ sid e] inv_intros) auto
  moreover have "open_inv cfg ?j"
    using inv Some unfolding live_inv_def open_inv_def by simp
  moreover have "covered (insert sid (set (j_queue j))) ?j"
    using inv unfolding live_inv_def covered_def by (auto simp del: map_of_eq_Some_iff)
  moreover have "outstanding j - {w} \<subseteq> outstanding ?j"
    by (rule outstanding_put [OF Some]) simp
  then have "j_busy j - {w} \<subseteq> outstanding ?j"
    using inv unfolding live_inv_def by blast
  ultimately show ?thesis using Some by (simp add: reopen_slot_def live_inv_def)
qed

lemma running_inv_blacklist [inv_intros]:
  "running_inv E cfg j \<Longrightarrow> running_inv E cfg (blacklist_replica w sid j)"
  unfolding blacklist_replica_def by (rule running_inv_reopen) simp

lemma hm_get_map_free:
  "hm_get (map (\<lambda>(sid, ens). (sid, free_slot w ens)) m) sid = map_option (free_slot w) (hm_get m sid)"
  by (simp add: map_of_map)

lemma running_inv_drop [inv_intros]:
  assumes inv: "running_inv E cfg j"
  shows "running_inv E cfg (drop_worker_from_ensembles w j)"
proof -
  let ?j = "drop_worker_from_ensembles w j"
  let ?held = "map fst (filter (\<lambda>(sid, ens). w \<in> set (hm_keys (en_pending_workers ens))) (j_ensembles j))"
  have ens: "hm_get (j_ensembles ?j) sid = map_option (free_slot w) (hm_get (j_ensembles j) sid)" for sid
    by (simp add: drop_worker_from_ensembles_def hm_get_map_free)
  have keys: "map fst (j_ensembles ?j) = map fst (j_ensembles j)"
    by (simp add: drop_worker_from_ensembles_def case_prod_unfold)
  then have ids: "open_ids ?j = open_ids j" "settled_ids ?j = settled_ids j"
    unfolding open_ids_def settled_ids_def
    by (metis set_map, simp add: drop_worker_from_ensembles_def)
  have same: "j_results ?j = j_results j" "j_expected ?j = j_expected j" "j_total ?j = j_total j"
    "j_attestations ?j = j_attestations j" "set (j_queue ?j) = set (j_queue j) \<union> set ?held"
    "j_busy ?j = j_busy j - {w}"
    by (simp_all add: drop_worker_from_ensembles_def)
  have "core_inv E cfg ?j"
    using inv ens_ok_free_slot unfolding live_inv_def core_inv_def ids same keys ens
    by (simp del: map_of_eq_Some_iff) metis
  moreover have "open_inv cfg ?j"
    using inv unfolding live_inv_def open_inv_def ens by (auto simp del: map_of_eq_Some_iff)
  moreover have "covered (set (j_queue ?j)) ?j"
    unfolding covered_def same ens
  proof (intro allI impI)
    fix sid e' assume "map_option (free_slot w) (hm_get (j_ensembles j) sid) = Some e'"
      and slots: "slots_remaining e' > 0"
    then obtain e where e: "hm_get (j_ensembles j) sid = Some e" "e' = free_slot w e" by blast
    show "sid \<in> set (j_queue j) \<union> set ?held"
    proof (cases "w \<in> fst ` set (en_pending_workers e)")
      case True
      then have "(sid, e) \<in> set (filter (\<lambda>(sid, ens). w \<in> set (hm_keys (en_pending_workers ens))) (j_ensembles j))"
        using hm_get_in [OF e(1)] by simp
      then have "fst (sid, e) \<in> set ?held" by (simp only: set_map) (rule imageI)
      then show ?thesis by simp
    next
      case False
      then show ?thesis
        using inv e slots free_slot_absent [OF False] unfolding live_inv_def covered_def by auto
    qed
  qed
  moreover have "j_busy ?j \<subseteq> outstanding ?j"
  proof
    fix v assume "v \<in> j_busy ?j"
    then have "v \<in> outstanding j" "v \<noteq> w" using inv unfolding live_inv_def same by auto
    then obtain s f where "hm_get (j_ensembles j) s = Some f" "v \<in> fst ` set (en_pending_workers f)"
      unfolding outstanding_def by blast
    with \<open>v \<noteq> w\<close> show "v \<in> outstanding ?j"
      unfolding outstanding_def ens mem_Collect_eq
      by (intro exI [of _ s] exI [of _ "free_slot w f"]) simp
  qed
  ultimately show ?thesis by (simp only: live_inv_def)
qed

section \<open>Settling a shard\<close>

lemma core_inv_accept:
  assumes inv: "core_inv E cfg j" and "hm_get (j_ensembles j) sid = Some e"
    and "hm_get (j_expected j) sid = Some root" "result_ok E cfg sid root res atts"
  shows "core_inv E cfg (accept_shard sid res atts j)"
proof -
  let ?j = "accept_shard sid res atts j"
  have sid: "sid \<in> open_ids j" using assms(2) by (auto simp: open_ids_iff)
  have ids: "open_ids ?j = open_ids j - {sid}" "settled_ids ?j = insert sid (settled_ids j)"
    by (simp_all add: accept_shard_def open_ids_def settled_ids_def)
  have gets: "hm_get (j_ensembles ?j) s = (if s = sid then None else hm_get (j_ensembles j) s)"
    "hm_get (j_results ?j) s = (if s = sid then Some res else hm_get (j_results j) s)"
    "hm_get (j_attestations ?j) s = (if s = sid then Some atts else hm_get (j_attestations j) s)" for s
    by (simp_all add: accept_shard_def update_conv' delete_conv')
  have "hm_ok (j_ensembles ?j)" "hm_ok (j_results ?j)" "j_expected ?j = j_expected j"
    "j_total ?j = j_total j"
    using inv by (simp_all add: accept_shard_def core_inv_def)
  moreover have "open_ids ?j \<inter> settled_ids ?j = {}"
    "open_ids ?j \<union> settled_ids ?j = open_ids j \<union> settled_ids j"
    using inv sid unfolding ids core_inv_def by auto
  ultimately show ?thesis
    using inv assms(3,4) unfolding core_inv_def
    by (auto simp: gets simp del: map_of_eq_Some_iff)
qed

lemma attest_ok:
  assumes "ens_ok E cfg sid root e" "(w, pk, sig, ms) \<in> set (map attest_entry rs)"
    and "set rs \<subseteq> set (en_responses e)"
    and "sr_shard_id res = sid" "\<forall>(w, re) \<in> set rs. claim_of re = (sr_pi_hash res, sr_merkle_root res, sr_root_f0 res)"
  shows "verify_worker_sig E pk (result_digest E res) sig"
proof -
  obtain re where "(w, re) \<in> set rs" "pk = re_worker_pk re" "sig = sr_worker_sig (re_result re)"
    using assms(2) by (auto simp: attest_entry_def)
  moreover from this have "response_ok E sid root re" using assms(1,3) by (auto simp: ens_ok_def)
  moreover have "claim_of re = (sr_pi_hash res, sr_merkle_root res, sr_root_f0 res)"
    using calculation(1) assms(5) by auto
  ultimately show ?thesis
    using assms(4) by (metis response_ok_def result_digest_def claim_of_def prod.inject)
qed

lemma fst_attest_entry [simp]: "fst \<circ> attest_entry = fst"
  by (auto simp: attest_entry_def)

lemma result_ok_of_responses:
  assumes ok: "ens_ok E cfg sid root e" and re: "(w, re) \<in> set (en_responses e)"
    and rs: "rs = filter P (en_responses e)" "replicas cfg < 2 * length rs"
    and claims: "\<forall>x \<in> set rs. claim_of (snd x) = claim_of re"
  shows "result_ok E cfg sid root (re_result re) (map attest_entry rs)"
proof -
  have resp: "response_ok E sid root re" using ok re by (auto simp: ens_ok_def)
  have "distinct (map fst rs)"
    using ok unfolding rs(1) by (intro distinct_map_filter) (simp add: ens_ok_def)
  moreover have "length (en_responses e) \<le> replicas cfg" using ok by (simp add: ens_ok_def)
  then have "length rs \<le> replicas cfg"
    unfolding rs(1) by (rule order_trans [OF length_filter_le])
  moreover have "verify_worker_sig E pk (result_digest E (re_result re)) sig"
    if "(v, pk, sig, ms) \<in> set (map attest_entry rs)" for v pk sig ms
    by (rule attest_ok [OF ok that])
      (use rs(1) resp claims in \<open>auto simp: response_ok_def claim_of_def\<close>)
  then have "\<forall>(v, pk, sig, ms) \<in> set (map attest_entry rs).
      verify_worker_sig E pk (result_digest E (re_result re)) sig"
    by blast
  ultimately show ?thesis
    using resp rs(2) unfolding result_ok_def response_ok_def
    by (simp del: list.set_map)
qed

lemma voters_filter: "length (filter (\<lambda>(w, e). claim_of e = c) rs) = votes rs c"
  by (simp add: votes_def voters_def)

text \<open>The state while a response is being settled: all but \<open>open_inv\<close> at this shard.\<close>

definition settling :: "ext \<Rightarrow> job_cfg \<Rightarrow> u32 \<Rightarrow> shard_ensemble \<Rightarrow> job \<Rightarrow> bool" where
  "settling E cfg sid e j \<longleftrightarrow> core_inv E cfg j \<and> covered (set (j_queue j)) j \<and>
     j_busy j \<subseteq> outstanding j \<and> hm_get (j_ensembles j) sid = Some e \<and> j_status j = Running \<and>
     (\<forall>s f. s \<noteq> sid \<longrightarrow> hm_get (j_ensembles j) s = Some f \<longrightarrow> length (en_responses f) < replicas cfg)"

lemma running_inv_accept:
  assumes st: "settling E cfg sid e j" and full: "length (en_responses e) = replicas cfg"
    and root: "hm_get (j_expected j) sid = Some root" and res: "result_ok E cfg sid root res atts"
  shows "running_inv E cfg (accept_shard sid res atts (j\<lparr>j_blacklisted := bl\<rparr>))"
proof -
  let ?j = "accept_shard sid res atts (j\<lparr>j_blacklisted := bl\<rparr>)"
  have e: "hm_get (j_ensembles j) sid = Some e" using st by (simp add: settling_def)
  have gets: "hm_get (j_ensembles ?j) s = (if s = sid then None else hm_get (j_ensembles j) s)" for s
    by (simp add: accept_shard_def delete_conv')
  have same: "j_queue ?j = j_queue j" "j_busy ?j = j_busy j" by (simp_all add: accept_shard_def)
  have "en_pending_workers e = []"
    using st full root e unfolding settling_def core_inv_def ens_ok_def by fastforce
  have "outstanding j \<subseteq> outstanding ?j"
  proof
    fix v assume "v \<in> outstanding j"
    then obtain s f where f: "hm_get (j_ensembles j) s = Some f" "v \<in> fst ` set (en_pending_workers f)"
      unfolding outstanding_def by blast
    with e \<open>en_pending_workers e = []\<close> have "s \<noteq> sid" by auto
    with f show "v \<in> outstanding ?j"
      unfolding outstanding_def gets mem_Collect_eq by (intro exI [of _ s] exI [of _ f]) simp
  qed
  moreover have "core_inv E cfg ?j"
    using core_inv_accept [of E cfg "j\<lparr>j_blacklisted := bl\<rparr>" sid e root res atts] st root res
    by (simp add: settling_def)
  moreover have "open_inv cfg ?j" "covered (set (j_queue ?j)) ?j"
    using st unfolding settling_def open_inv_def covered_def gets same by simp_all
  ultimately show ?thesis using st unfolding live_inv_def settling_def same by blast
qed

lemma settle_inv:
  assumes st: "settling E cfg sid e j" and res: "settle sid e j = (j', effs)"
  shows "core_inv E cfg j' \<and> j_status j' \<in> {Running, Aborted} \<and>
    (j_status j' = Running \<longrightarrow> running_inv E cfg j')"
proof -
  obtain root where root: "hm_get (j_expected j) sid = Some root" and ok: "ens_ok E cfg sid root e"
    using st unfolding settling_def core_inv_def by blast
  have k: "en_target_k e = replicas cfg" and hm: "hm_ok (en_responses e)"
    "length (en_responses e) \<le> en_target_k e" "en_target_k e \<ge> 1"
    using ok replicas_pos [of cfg] by (auto simp: ens_ok_def simp del: replicas_pos)
  have run: "j_status j = Running" using st by (simp add: settling_def)
  have stat: "j_status (accept_shard sid r a (j\<lparr>j_blacklisted := bl\<rparr>)) = Running" for r a bl
    using run by (simp add: accept_shard_def)
  show ?thesis
  proof (cases rule: evaluate_cases [OF hm, case_names pending unanimous majority conflict])
    case pending
    then have "j' = j" using res by (simp add: settle_def)
    moreover have "open_inv cfg j"
      unfolding open_inv_def
    proof (intro allI impI)
      fix s f assume "hm_get (j_ensembles j) s = Some f"
      then show "length (en_responses f) < replicas cfg"
        using st pending(2) k unfolding settling_def by (cases "s = sid") auto
    qed
    ultimately show ?thesis using st by (simp add: settling_def live_inv_def)
  next
    case (unanimous w re)
    then have j': "j' = accept_shard sid (re_result re) (map attest_entry (en_responses e)) j"
      using res hm by (simp add: settle_def)
    have "result_ok E cfg sid root (re_result re) (map attest_entry (en_responses e))"
      by (rule result_ok_of_responses [OF ok unanimous(2), of _ "\<lambda>_. True"])
        (use unanimous(3,4) k in auto)
    from running_inv_accept [OF st _ root this, of "j_blacklisted j"] show ?thesis
      using unanimous(3) k stat [of _ _ "j_blacklisted j"] by (simp add: j' live_inv_def)
  next
    case (majority w re ds)
    let ?rs = "filter (\<lambda>(w, e). w \<notin> set ds) (en_responses e)"
    have j': "j' = accept_shard sid (re_result re) (map attest_entry ?rs)
        (j\<lparr>j_blacklisted := j_blacklisted j \<union> set ds\<rparr>)"
      using majority(1,2) res hm by (simp add: settle_def)
    have "?rs = filter (\<lambda>(w, x). claim_of x = claim_of re) (en_responses e)"
    proof (rule filter_cong [OF refl], clarify)
      fix v x assume vx: "(v, x) \<in> set (en_responses e)"
      have "x' = x" if "(v, x') \<in> set (en_responses e)" for x'
        using hm_in_get [OF hm(1) vx] hm_in_get [OF hm(1) that] by simp
      then show "v \<notin> set ds \<longleftrightarrow> claim_of x = claim_of re"
        using vx unfolding majority(5) by blast
    qed
    then have "result_ok E cfg sid root (re_result re) (map attest_entry ?rs)"
      using majority(4) k
      by (intro result_ok_of_responses [OF ok majority(2)]) (auto simp: voters_filter)
    from running_inv_accept [OF st _ root this] show ?thesis
      using majority(3) k stat by (simp add: j' live_inv_def)
  next
    case conflict
    then have "j' = j\<lparr>j_blacklisted := j_blacklisted j \<union> set (hm_keys (en_responses e)), j_status := Aborted\<rparr>"
      using res by (simp add: settle_def Let_def)
    then show ?thesis using st by (simp add: settling_def)
  qed
qed

section \<open>Handlers\<close>

lemma settling_response:
  assumes run: "running_inv E cfg j" "j_status j = Running"
    and e: "hm_get (j_ensembles j) sid = Some e"
    and w: "w \<in> fst ` set (en_pending_workers e)"
    and root: "hm_get (j_expected j) sid = Some root"
    and resp: "response_ok E sid root \<lparr>re_result = result, re_worker_pk = pk\<rparr>"
  defines "e' \<equiv> (free_slot w e)\<lparr>en_responses :=
             hm_insert w \<lparr>re_result = result, re_worker_pk = pk\<rparr> (en_responses e)\<rparr>"
  shows "settling E cfg sid e' ((put_ensemble sid e' j)\<lparr>j_busy := j_busy j - {w}\<rparr>)"
proof -
  let ?j = "put_ensemble sid e' j"
  have core: "core_inv E cfg j" using run by (simp add: live_inv_def)
  then obtain root' where "hm_get (j_expected j) sid = Some root'" "ens_ok E cfg sid root' e"
    using e unfolding core_inv_def by blast
  then have ok: "ens_ok E cfg sid root e" using root by simp
  have fresh: "w \<notin> fst ` set (en_responses e)" using ok w by (auto simp: ens_ok_def)
  have pos: "length (en_pending_workers e) > 0" using w by (cases "en_pending_workers e") auto
  have len: "length (en_pending_workers e') = length (en_pending_workers e) - 1"
    "length (en_responses e') = Suc (length (en_responses e))"
    using ok w fresh by (simp_all add: e'_def hm_length_remove hm_length_insert_new ens_ok_def)
  have "en_target_k e' = en_target_k e" by (simp add: e'_def)
  moreover have sum: "length (en_pending_workers e') + length (en_responses e') =
      length (en_pending_workers e) + length (en_responses e)"
    using pos len by linarith
  ultimately have slots: "slots_remaining e' = slots_remaining e"
    by (simp only: slots_remaining_def)
  have "length (en_pending_workers e') + length (en_responses e') \<le> replicas cfg"
    using ok unfolding sum ens_ok_def by blast
  moreover have "\<forall>(v, re) \<in> set (en_responses e'). response_ok E sid root re"
    using ok resp unfolding ens_ok_def e'_def by (auto dest: hm_in_insert)
  ultimately have "ens_ok E cfg sid root e'"
    using ok w unfolding ens_ok_def by (auto simp: e'_def)
  then have "core_inv E cfg ?j"
    using root by (intro core_inv_put [OF core e]) simp
  moreover have "covered (set (j_queue j)) ?j"
    using run e slots unfolding live_inv_def covered_def by (simp del: map_of_eq_Some_iff)
  moreover have "outstanding j - {w} \<subseteq> outstanding ?j"
    by (rule outstanding_put [OF e]) (simp add: e'_def)
  then have "j_busy j - {w} \<subseteq> outstanding ?j"
    using run unfolding live_inv_def by blast
  ultimately show ?thesis
    using run unfolding settling_def live_inv_def open_inv_def
    by (simp add: e'_def [symmetric] del: map_of_eq_Some_iff)
qed

text \<open>The outcome of a handler, before the loop head is reached again.\<close>

definition handler_ok :: "ext \<Rightarrow> job_cfg \<Rightarrow> job \<Rightarrow> bool" where
  "handler_ok E cfg j \<longleftrightarrow> core_inv E cfg j \<and> j_status j \<in> {Running, Aborted} \<and>
     (j_status j = Running \<longrightarrow> running_inv E cfg j)"

lemma handler_ok_drain:
  assumes "running_inv E cfg j" "j_status j = Running" "drain_assignments obs j = (j', effs)"
  shows "handler_ok E cfg j'"
  using drain_assignments_live [OF assms(1,3)] drain_frame(1) [OF assms(3)] assms(2)
  by (simp add: handler_ok_def live_inv_def)

lemma reopen_status [simp]: "j_status (reopen_slot w sid j) = j_status j"
  by (simp add: reopen_slot_def split: option.split)

lemma blacklist_replica_status [simp]: "j_status (blacklist_replica w sid j) = j_status j"
  by (simp add: blacklist_replica_def)

lemma drop_status [simp]: "j_status (drop_worker_from_ensembles w j) = j_status j"
  by (simp add: drop_worker_from_ensembles_def)

lemma handler_ok_expel:
  assumes "running_inv E cfg j" "j_status j = Running" "expel inp w sid j = (j', effs)"
  shows "handler_ok E cfg j'"
proof -
  obtain effs' where "drain_assignments (ji_obs inp) (blacklist_replica w sid j) = (j', effs')"
    using assms(3) by (auto simp: expel_def Let_def split: prod.splits)
  then show ?thesis
    using assms(1,2) by (intro handler_ok_drain [of _ _ "blacklist_replica w sid j"]) (auto intro: inv_intros)
qed

lemma handler_ok_record:
  assumes run: "running_inv E cfg j" "j_status j = Running"
    and e: "hm_get (j_ensembles j) (sr_shard_id result) = Some e"
    and w: "w \<in> fst ` set (en_pending_workers e)"
    and root: "hm_get (j_expected j) (sr_shard_id result) = Some (sr_merkle_root result)"
    and sig: "verify_worker_sig E pk (result_digest E result) (sr_worker_sig result)"
    and res: "record_response E cfg inp w pk result e j = (j', effs)"
  shows "handler_ok E cfg j'"
proof -
  let ?sid = "sr_shard_id result"
  let ?e = "(free_slot w e)\<lparr>en_responses :=
             hm_insert w \<lparr>re_result = result, re_worker_pk = pk\<rparr> (en_responses e)\<rparr>"
  let ?j = "(put_ensemble ?sid ?e j)\<lparr>j_busy := j_busy j - {w}\<rparr>"
  obtain j1 effs1 where j1: "settle ?sid ?e ?j = (j1, effs1)" by fastforce
  have "settling E cfg ?sid ?e ?j"
    by (rule settling_response [OF run e w root]) (simp add: response_ok_def sig)
  note inv = settle_inv [OF this j1]
  show ?thesis
  proof (cases "j_status j1 = Running")
    case False
    then have "j' = j1" using res j1 by (simp add: record_response_def Let_def)
    then show ?thesis using inv False by (simp add: handler_ok_def)
  next
    case True
    then obtain effs2 where "drain_assignments (ji_obs inp) j1 = (j', effs2)"
      using res j1 by (auto simp: record_response_def Let_def split: prod.splits)
    then show ?thesis using inv True by (intro handler_ok_drain [of _ _ j1]) auto
  qed
qed

lemma shard_done_cases:
  assumes res: "shard_done E cfg inp w result j = (j', effs)"
    and e: "hm_get (j_ensembles j) (sr_shard_id result) = Some e"
    and root: "hm_get (j_expected j) (sr_shard_id result) = Some root"
  obtains (ignored) "j' = j" "effs = []"
  | (expelled) "expel inp w (sr_shard_id result) j = (j', effs)"
  | (recorded) ws where "hm_get (ro_workers (ji_roster inp)) w = Some ws"
      "w \<in> fst ` set (en_pending_workers e)"
      "verify_worker_sig E (we_ml_dsa_pk ws) (result_digest E result) (sr_worker_sig result)"
      "sr_merkle_root result = root"
      "record_response E cfg inp w (we_ml_dsa_pk ws) result e j = (j', effs)"
proof (cases "w \<in> fst ` set (en_pending_workers e)")
  case False
  then show thesis using res e by (intro ignored) (simp_all add: shard_done_def)
next
  case w: True
  show thesis
  proof (cases "hm_get (ro_workers (ji_roster inp)) w")
    case None
    with res e w show thesis by (intro ignored) (simp_all add: shard_done_def del: map_of_eq_None_iff)
  next
    case (Some ws)
    show thesis
    proof (cases "verify_worker_sig E (we_ml_dsa_pk ws) (result_digest E result) (sr_worker_sig result) \<and>
        sr_merkle_root result = root")
      case True
      with res e w Some root show thesis by (intro recorded [OF Some w]) (simp_all add: shard_done_def)
    next
      case False
      with res e w Some root show thesis
        by (intro expelled) (simp add: shard_done_def Let_def split: if_split_asm)
    qed
  qed
qed

lemma handler_ok_done:
  assumes run: "running_inv E cfg j" "j_status j = Running"
    and res: "shard_done E cfg inp w result j = (j', effs)"
  shows "handler_ok E cfg j'"
proof -
  let ?sid = "sr_shard_id result"
  have ignored: "handler_ok E cfg j" using run by (simp add: handler_ok_def live_inv_def)
  show ?thesis
  proof (cases "hm_get (j_ensembles j) ?sid")
    case None
    then show ?thesis using res ignored by (simp add: shard_done_def)
  next
    case (Some e)
    then obtain root where root: "hm_get (j_expected j) ?sid = Some root"
      using run unfolding live_inv_def core_inv_def by blast
    show ?thesis
    proof (cases rule: shard_done_cases [OF res Some root, case_names ignored expelled recorded])
      case (recorded ws)
      then show ?thesis using root by (intro handler_ok_record [OF run Some]) auto
    qed (use ignored handler_ok_expel [OF run] in simp_all)
  qed
qed

lemma handler_ok_event:
  assumes run: "running_inv E cfg j" "j_status j = Running"
    and res: "job_event E cfg inp ev j = (j', effs)"
  shows "handler_ok E cfg j'"
proof (cases ev)
  case (EvRegistered w)
  then show ?thesis using res by (intro handler_ok_drain [OF run]) simp
next
  case (EvShardDone w result)
  then show ?thesis using res by (intro handler_ok_done [OF run]) simp
next
  case (EvShardFailed w sid reason)
  then show ?thesis
    using run res by (intro handler_ok_drain [of _ _ "reopen_slot w sid j"]) (auto intro: inv_intros)
next
  case (EvDisconnected w)
  then show ?thesis
    using run res by (intro handler_ok_drain [of _ _ "drop_worker_from_ensembles w j"])
      (auto intro: inv_intros)
qed

lemma fold_drop_inv:
  "running_inv E cfg j \<Longrightarrow> running_inv E cfg (fold drop_worker_from_ensembles ws j) \<and>
     j_status (fold drop_worker_from_ensembles ws j) = j_status j"
  by (induction ws arbitrary: j) (simp_all add: running_inv_drop)

lemma fold_blacklist_inv:
  "running_inv E cfg j \<Longrightarrow> running_inv E cfg (fold (\<lambda>(w, sid). blacklist_replica w sid) ws j) \<and>
     j_status (fold (\<lambda>(w, sid). blacklist_replica w sid) ws j) = j_status j"
  by (induction ws arbitrary: j) (simp_all add: running_inv_blacklist case_prod_unfold)

lemma handler_ok_reaper:
  assumes run: "running_inv E cfg j" "j_status j = Running"
    and res: "reaper_tick cfg inp j = (j', effs)"
  shows "handler_ok E cfg j'"
proof -
  define j1 where "j1 = fold drop_worker_from_ensembles (stale_workers cfg (ji_now inp) (ji_roster inp)) j"
  define j2 where "j2 = fold (\<lambda>(w, sid). blacklist_replica w sid) (overdue cfg (ji_now inp) j1) j1"
  obtain effs' where d: "drain_assignments (ji_obs inp) j2 = (j', effs')"
    using res by (auto simp: reaper_tick_def j1_def [symmetric] j2_def [symmetric] Let_def split: prod.splits)
  have "running_inv E cfg j1 \<and> j_status j1 = Running"
    using fold_drop_inv [OF run(1)] run(2) by (simp add: j1_def)
  then have "running_inv E cfg j2" "j_status j2 = Running"
    using fold_blacklist_inv [of E cfg j1] by (simp_all add: j2_def)
  then show ?thesis using d by (rule handler_ok_drain)
qed

section \<open>The loop head\<close>

lemma total_split:
  assumes "core_inv E cfg j"
  shows "length (j_ensembles j) + length (j_results j) = j_total j"
proof -
  have "length (j_ensembles j) = card (open_ids j)" "length (j_results j) = card (settled_ids j)"
    "j_total j = card (open_ids j \<union> settled_ids j)"
    using assms distinct_card [of "map fst (j_ensembles j)"] distinct_card [of "map fst (j_results j)"]
      distinct_card [of "map fst (j_expected j)"]
    by (simp_all add: core_inv_def open_ids_def settled_ids_def)
  moreover have "open_ids j \<inter> settled_ids j = {}" using assms by (simp add: core_inv_def)
  moreover have "finite (open_ids j)" "finite (settled_ids j)"
    by (simp_all add: open_ids_def settled_ids_def)
  ultimately show ?thesis by (simp add: card_Un_disjoint)
qed

text \<open>An open shard has a free slot, and then it is queued, or a replica in flight.\<close>

lemma never_stuck:
  assumes inv: "running_inv E cfg j" and open_shard: "j_ensembles j \<noteq> []"
  shows "j_queue j \<noteq> [] \<or> (\<exists>(sid, ens) \<in> set (j_ensembles j). en_pending_workers ens \<noteq> [])"
proof -
  obtain sid e where e: "(sid, e) \<in> set (j_ensembles j)" using open_shard by (cases "j_ensembles j") auto
  then have get: "hm_get (j_ensembles j) sid = Some e"
    using inv unfolding live_inv_def core_inv_def by (intro hm_in_get) auto
  then obtain root where ok: "ens_ok E cfg sid root e"
    using inv unfolding live_inv_def core_inv_def by blast
  show ?thesis
  proof (cases "slots_remaining e > 0")
    case True
    then have "sid \<in> set (j_queue j)" using inv get unfolding live_inv_def covered_def by blast
    then show ?thesis by auto
  next
    case False
    have "length (en_responses e) < replicas cfg" using inv get unfolding live_inv_def open_inv_def by blast
    then have "en_pending_workers e \<noteq> []" using False slots_remaining_iff [OF ok] by auto
    then show ?thesis using e by blast
  qed
qed

lemma job_inv_loop_top:
  assumes "handler_ok E cfg j"
  shows "job_inv E cfg (loop_top j)"
proof (cases "j_status j = Running")
  case False
  then show ?thesis using assms by (auto simp: handler_ok_def job_inv_def loop_top_def)
next
  case True
  then have inv: "running_inv E cfg j" "core_inv E cfg j" using assms by (simp_all add: handler_ok_def)
  show ?thesis
  proof (cases "length (j_results j) = j_total j")
    case finished: True
    then show ?thesis using True inv by (simp add: job_inv_def loop_top_def)
  next
    case False
    then have "j_ensembles j \<noteq> []" using total_split [OF inv(2)] by auto
    from never_stuck [OF inv(1) this] have "loop_top j = j"
      using True False by (auto simp: loop_top_def)
    then show ?thesis using True False inv by (simp add: job_inv_def)
  qed
qed

end
