(* ===== verification/Zone_Job_Run.thy ===== *)
theory Zone_Job_Run
  imports Zone_Job_Safety
begin

text \<open>
  Whole runs of the zone job: the initial state satisfies the invariant, every step keeps it
  (hash-map reordering included).
\<close>

section \<open>Reordering of hash maps\<close>

lemma hm_ok_mset: "mset xs = mset ys \<Longrightarrow> hm_ok xs \<Longrightarrow> hm_ok ys"
  by (metis mset_eq_imp_distinct_iff mset_map)

lemma hm_get_mset:
  assumes "mset xs = mset ys" "hm_ok ys"
  shows "hm_get xs = hm_get ys"
proof (rule ext)
  fix k
  have ok: "hm_ok xs" using hm_ok_mset [OF assms(1) [symmetric] assms(2)] .
  have "hm_get xs k = Some v \<longleftrightarrow> hm_get ys k = Some v" for v
    using ok assms mset_eq_setD [OF assms(1)] by simp
  then show "hm_get xs k = hm_get ys k" by (metis option.exhaust)
qed

lemma ens_ok_mset:
  assumes "ens_ok E cfg sid root e"
    and p: "mset p = mset (en_pending_workers e)" and r: "mset r = mset (en_responses e)"
  shows "ens_ok E cfg sid root (e\<lparr>en_pending_workers := p, en_responses := r\<rparr>)"
  using assms(1) hm_ok_mset [OF p [symmetric]] hm_ok_mset [OF r [symmetric]]
    mset_eq_setD [OF p] mset_eq_setD [OF r] mset_eq_length [OF p] mset_eq_length [OF r]
  by (simp add: ens_ok_def)

lemma rehash_maps:
  assumes "mset es = mset (j_ensembles j)" "hm_ok (j_ensembles j)"
  shows "core_inv E cfg (j\<lparr>j_ensembles := es\<rparr>) = core_inv E cfg j"
    "live_inv E cfg Q (j\<lparr>j_ensembles := es\<rparr>) = live_inv E cfg Q j"
proof -
  note get = hm_get_mset [OF assms] and ok = hm_ok_mset [OF assms(1) [symmetric] assms(2)]
    and st = mset_eq_setD [OF assms(1)]
  show core: "core_inv E cfg (j\<lparr>j_ensembles := es\<rparr>) = core_inv E cfg j"
    using assms(2) ok by (simp add: core_inv_def open_ids_def settled_ids_def get st del: map_of_eq_Some_iff)
  show "live_inv E cfg Q (j\<lparr>j_ensembles := es\<rparr>) = live_inv E cfg Q j"
    unfolding live_inv_def core by (simp add: open_inv_def covered_def outstanding_def get)
qed

lemma job_inv_rehash:
  assumes "job_inv E cfg j" "mset es = mset (j_ensembles j)"
  shows "job_inv E cfg (j\<lparr>j_ensembles := es\<rparr>)"
proof -
  have "hm_ok (j_ensembles j)" using assms(1) by (simp add: job_inv_def core_inv_def)
  from rehash_maps [OF assms(2) this] show ?thesis
    using assms(1) by (simp add: job_inv_def)
qed

lemma job_inv_rehash_one:
  assumes inv: "job_inv E cfg j" and e: "hm_get (j_ensembles j) sid = Some e"
    and p: "mset p = mset (en_pending_workers e)" and r: "mset r = mset (en_responses e)"
  shows "job_inv E cfg (put_ensemble sid (e\<lparr>en_pending_workers := p, en_responses := r\<rparr>) j)"
proof -
  let ?e = "e\<lparr>en_pending_workers := p, en_responses := r\<rparr>"
  let ?j = "put_ensemble sid ?e j"
  have core: "core_inv E cfg ?j"
    using inv by (intro core_inv_put [OF _ e] ens_ok_mset [OF _ p r]) (simp_all add: job_inv_def)
  have slots: "slots_remaining ?e = slots_remaining e"
    using mset_eq_length [OF p] mset_eq_length [OF r] by (simp add: slots_remaining_def)
  have "live_inv E cfg (set (j_queue ?j)) ?j" if live: "running_inv E cfg j"
  proof -
    have "(\<exists>f. hm_get (j_ensembles ?j) s = Some f \<and> v \<in> fst ` set (en_pending_workers f)) \<longleftrightarrow>
        (\<exists>f. hm_get (j_ensembles j) s = Some f \<and> v \<in> fst ` set (en_pending_workers f))" for s v
      using e mset_eq_setD [OF p] by (cases "s = sid") auto
    then have "outstanding ?j = outstanding j" by (simp only: outstanding_def)
    moreover have "open_inv cfg ?j" using live e mset_eq_length [OF r] unfolding live_inv_def open_inv_def by simp
    moreover have "covered (set (j_queue ?j)) ?j"
      using live e slots unfolding live_inv_def covered_def by (simp del: map_of_eq_Some_iff)
    ultimately show ?thesis using live core unfolding live_inv_def by simp
  qed
  then show ?thesis using inv core by (auto simp: job_inv_def)
qed

section \<open>The initial state\<close>

lemma shard_ids_inj: "inj_on (\<lambda>i. word_of_nat i + 1 :: u32) {..<2 ^ 32}"
proof (rule inj_onI)
  fix a b assume "a \<in> {..<2 ^ 32}" "b \<in> {..<2 ^ 32}" "(word_of_nat a + 1 :: u32) = word_of_nat b + 1"
  then show "a = b" using word_of_nat_eq_u32 [of a b] by simp
qed

abbreviation shard_id_of :: "nat \<Rightarrow> u32" where
  "shard_id_of i \<equiv> word_of_nat i + 1"

definition spec_of :: "ext \<Rightarrow> job_cfg \<Rightarrow> (nat \<Rightarrow> bytes) \<Rightarrow> dns_record list list \<Rightarrow> nat \<Rightarrow> shard_spec" where
  "spec_of E cfg nonces shards i =
     en_spec (new_ensemble E cfg (shard_id_of i) (nonces i) [] (shards ! i))"

text \<open>After \<open>i\<close> rounds of the loop.\<close>

definition built :: "ext \<Rightarrow> job_cfg \<Rightarrow> (nat \<Rightarrow> bytes) \<Rightarrow> dns_record list list \<Rightarrow> nat \<Rightarrow> job \<Rightarrow> bool" where
  "built E cfg nonces shards i j \<longleftrightarrow>
     map fst (j_ensembles j) = map shard_id_of [0..<i] \<and>
     map fst (j_expected j) = map shard_id_of [0..<i] \<and>
     j_queue j = map shard_id_of [0..<i] \<and>
     (\<forall>n < i. \<exists>root. compute_merkle_root E (jc_salt cfg) (shards ! n) = Some root \<and>
        hm_get (j_expected j) (shard_id_of n) = Some root \<and>
        hm_get (j_nonces j) (shard_id_of n) = Some (nonces n) \<and>
        hm_get (j_ensembles j) (shard_id_of n) =
          Some (new_ensemble E cfg (shard_id_of n) (nonces n) root (shards ! n))) \<and>
     j_busy j = {} \<and> j_blacklisted j = {} \<and> j_results j = [] \<and> j_attestations j = [] \<and>
     j_status j = Running"

lemma built_keys:
  assumes "built E cfg nonces shards i j"
  shows "fst ` set (j_ensembles j) = set (map shard_id_of [0..<i])"
    and "fst ` set (j_expected j) = set (map shard_id_of [0..<i])"
proof -
  have "map fst (j_ensembles j) = map shard_id_of [0..<i]"
    "map fst (j_expected j) = map shard_id_of [0..<i]"
    using assms unfolding built_def by blast+
  then show "fst ` set (j_ensembles j) = set (map shard_id_of [0..<i])"
    "fst ` set (j_expected j) = set (map shard_id_of [0..<i])"
    by (simp_all only: flip: set_map)
qed

lemma hm_keys_insert_new: "k \<notin> fst ` set m \<Longrightarrow> map fst (hm_insert k v m) = map fst m @ [k]"
  by (induction m) auto

lemma shard_id_new: "i < 2 ^ 32 \<Longrightarrow> n < i \<Longrightarrow> shard_id_of n \<noteq> shard_id_of i"
  using inj_onD [OF shard_ids_inj, of n i] by force

lemma built_step:
  assumes "built E cfg nonces shards i j" "i < 2 ^ 32"
    and "compute_merkle_root E (jc_salt cfg) (shards ! i) = Some root"
  shows "built E cfg nonces shards (Suc i)
    (j\<lparr>j_ensembles := hm_insert (shard_id_of i)
         (new_ensemble E cfg (shard_id_of i) (nonces i) root (shards ! i)) (j_ensembles j),
       j_queue := j_queue j @ [shard_id_of i],
       j_expected := hm_insert (shard_id_of i) root (j_expected j),
       j_nonces := hm_insert (shard_id_of i) (nonces i) (j_nonces j)\<rparr>)"
proof -
  have new: "shard_id_of i \<notin> set (map shard_id_of [0..<i])"
  proof
    assume "shard_id_of i \<in> set (map shard_id_of [0..<i])"
    then obtain n where "n < i" "shard_id_of i = shard_id_of n" by auto
    then show False using shard_id_new [OF assms(2)] by metis
  qed
  then have "shard_id_of i \<notin> fst ` set (j_ensembles j)" "shard_id_of i \<notin> fst ` set (j_expected j)"
    using built_keys [OF assms(1)] by metis+
  then show ?thesis
    using assms(1,3) shard_id_new [OF assms(2)] unfolding built_def
    by (auto simp: hm_keys_insert_new less_Suc_eq update_conv' simp del: map_of_eq_Some_iff)
qed

lemma build_ensembles_built:
  assumes "build_ensembles E cfg nonces i (drop i shards) j = Some j'"
    and "built E cfg nonces shards i j" "i \<le> length shards" "length shards \<le> 2 ^ 32"
  shows "built E cfg nonces shards (length shards) j'"
  using assms
proof (induction "length shards - i" arbitrary: i j)
  case 0
  then show ?case by simp
next
  case (Suc n)
  then have i: "i < length shards" by simp
  then have "drop i shards = shards ! i # drop (Suc i) shards" by (rule Cons_nth_drop_Suc [symmetric])
  then obtain root where root: "compute_merkle_root E (jc_salt cfg) (shards ! i) = Some root"
    and rest: "build_ensembles E cfg nonces (Suc i) (drop (Suc i) shards)
      (j\<lparr>j_ensembles := hm_insert (shard_id_of i)
           (new_ensemble E cfg (shard_id_of i) (nonces i) root (shards ! i)) (j_ensembles j),
         j_queue := j_queue j @ [shard_id_of i],
         j_expected := hm_insert (shard_id_of i) root (j_expected j),
         j_nonces := hm_insert (shard_id_of i) (nonces i) (j_nonces j)\<rparr>) = Some j'"
    using Suc.prems(1) by (auto simp: Let_def split: option.splits)
  have "i < 2 ^ 32" using i Suc.prems(4) by linarith
  from built_step [OF Suc.prems(2) this root] show ?case
    using Suc.hyps i Suc.prems(4) by (intro Suc.hyps(1) [OF _ rest]) auto
qed

lemma roster_size: "hm_ok (ro_workers r) \<Longrightarrow> length (ro_workers r) \<le> 2 ^ 32"
proof -
  assume "hm_ok (ro_workers r)"
  then have "length (ro_workers r) = card (fst ` set (ro_workers r))"
    using distinct_card [of "map fst (ro_workers r)"] by simp
  also have "\<dots> \<le> card (UNIV :: u32 set)" by (rule card_mono) simp_all
  also have "\<dots> = 2 ^ 32" by (simp add: card_word)
  finally show ?thesis .
qed

lemma n_shards_bound:
  assumes "hm_ok (ro_workers r)"
  shows "n_shards_of cfg r \<le> 2 ^ 32" "0 < n_shards_of cfg r"
proof -
  have "length (roster_ids r) div replicas cfg \<le> length (roster_ids r)" by (rule div_le_dividend)
  also have "\<dots> \<le> 2 ^ 32" using roster_size [OF assms] by (simp add: roster_ids_def)
  finally show "n_shards_of cfg r \<le> 2 ^ 32" by (simp add: n_shards_of_def)
qed (simp add: n_shards_of_def)

abbreviation zone_shards :: "job_cfg \<Rightarrow> roster \<Rightarrow> dns_record list \<Rightarrow> dns_record list list" where
  "zone_shards cfg r records \<equiv> split_evenly records (n_shards_of cfg r)"

lemma init_job_built:
  assumes "init_job E cfg nonces r records = Some j" "hm_ok (ro_workers r)"
  shows "built E cfg nonces (zone_shards cfg r records) (n_shards_of cfg r) j"
    and "j_total j = n_shards_of cfg r"
proof -
  let ?s = "zone_shards cfg r records"
  obtain j0 where j0: "build_ensembles E cfg nonces 0 ?s empty_job = Some j0"
    and j: "j = j0\<lparr>j_total := length (j_ensembles j0)\<rparr>"
    using assms(1) by (auto simp: init_job_def split: option.splits)
  have "built E cfg nonces ?s 0 empty_job" by (simp add: built_def empty_job_def)
  from build_ensembles_built [of E cfg nonces 0 ?s, simplified, OF j0 this]
  have b: "built E cfg nonces ?s (n_shards_of cfg r) j0" using n_shards_bound [OF assms(2)] by simp
  then show "built E cfg nonces ?s (n_shards_of cfg r) j" by (simp add: j built_def)
  have "length (map fst (j_ensembles j0)) = n_shards_of cfg r" using b by (simp only: built_def) simp
  then show "j_total j = n_shards_of cfg r" by (simp add: j)
qed

lemma ens_ok_new: "ens_ok E cfg sid root (new_ensemble E cfg sid nonce root rs)"
  by (simp add: ens_ok_def new_ensemble_def)

lemma built_running:
  assumes b: "built E cfg nonces shards n j" and n: "n \<le> 2 ^ 32" and total: "j_total j = n"
  shows "running_inv E cfg j \<and> j_status j = Running"
proof -
  have dist: "distinct (map shard_id_of [0..<n])"
    using n by (auto simp: distinct_map intro: inj_on_subset [OF shard_ids_inj])
  have keys: "open_ids j = shard_id_of ` {..<n}" "fst ` set (j_expected j) = shard_id_of ` {..<n}"
    using built_keys [OF b] by (simp_all add: open_ids_def lessThan_atLeast0)
  have ens: "\<exists>i root. i < n \<and> sid = shard_id_of i \<and> hm_get (j_expected j) sid = Some root \<and>
      e = new_ensemble E cfg sid (nonces i) root (shards ! i)"
    if get: "hm_get (j_ensembles j) sid = Some e" for sid e
  proof -
    have "sid \<in> open_ids j" using get by (auto simp: open_ids_iff)
    then obtain i where "i < n" "sid = shard_id_of i" using keys by auto
    moreover obtain root where "hm_get (j_expected j) (shard_id_of i) = Some root"
      "hm_get (j_ensembles j) (shard_id_of i) =
         Some (new_ensemble E cfg (shard_id_of i) (nonces i) root (shards ! i))"
      using b \<open>i < n\<close> unfolding built_def by blast
    ultimately show ?thesis using get by (intro exI [of _ i] exI [of _ root]) simp
  qed
  have "core_inv E cfg j"
    using b dist keys ens total unfolding core_inv_def settled_ids_def
  proof (intro conjI)
    show "j_total j = length (j_expected j)"
      using b total unfolding built_def by (metis length_map length_upt minus_nat.diff_0)
  qed (auto simp: built_def dest!: ens intro: ens_ok_new simp del: map_of_eq_Some_iff)
  moreover have "open_inv cfg j"
    unfolding open_inv_def by (auto dest!: ens simp: new_ensemble_def simp del: map_of_eq_Some_iff)
  moreover have "covered (set (j_queue j)) j"
    using b unfolding covered_def
    by (auto dest!: ens simp: built_def simp del: map_of_eq_Some_iff)
  ultimately show ?thesis using b by (simp add: live_inv_def built_def)
qed

definition zone_start :: "ext \<Rightarrow> job_cfg \<Rightarrow> (nat \<Rightarrow> bytes) \<Rightarrow> roster \<Rightarrow> dns_record list \<Rightarrow> job \<Rightarrow> bool" where
  "zone_start E cfg nonces r records j0 \<longleftrightarrow>
     hm_ok (ro_workers r) \<and> init_job E cfg nonces r records = Some j0"

lemma zone_start_running:
  assumes "zone_start E cfg nonces r records j0"
  shows "running_inv E cfg j0 \<and> j_status j0 = Running"
proof -
  have r: "hm_ok (ro_workers r)" and j0: "init_job E cfg nonces r records = Some j0"
    using assms by (simp_all add: zone_start_def)
  from init_job_built [OF j0 r] n_shards_bound(1) [OF r]
  show ?thesis by (intro built_running) auto
qed

lemma job_begins_inv:
  assumes "zone_start E cfg nonces r records j0" "job_begins j0 s"
  shows "job_inv E cfg (fst s)"
proof -
  obtain obs j1 effs where j1: "drain_assignments obs j0 = (j1, effs)" and s: "s = (loop_top j1, effs)"
    using assms(2) by (auto simp: job_begins_def)
  have "handler_ok E cfg j1" using zone_start_running [OF assms(1)] j1 by (intro handler_ok_drain) auto
  then show ?thesis by (simp add: s job_inv_loop_top)
qed

lemma job_inv_step:
  assumes inv: "job_inv E cfg (fst s)" and step: "job_step E cfg s t"
  shows "job_inv E cfg (fst t)"
  using step
proof (cases rule: job_step.cases)
  case (event j inp ev j' effs log)
  then have "running_inv E cfg j" using inv by (simp add: job_inv_def)
  from handler_ok_event [OF this event(3,4)] show ?thesis by (simp add: event(2) job_inv_loop_top)
next
  case (tick j inp j' effs log)
  then have "running_inv E cfg j" using inv by (simp add: job_inv_def)
  from handler_ok_reaper [OF this tick(3,4)] show ?thesis by (simp add: tick(2) job_inv_loop_top)
next
  case (closed j log)
  then show ?thesis using inv by (simp add: job_inv_def)
next
  case (rehash es j log)
  then show ?thesis using inv job_inv_rehash by simp
next
  case (rehash_one j sid ens p r log)
  then show ?thesis using inv job_inv_rehash_one by simp
qed

end
