(* ===== verification/Zone_Job_Log.thy ===== *)
theory Zone_Job_Log
  imports Zone_Job_Run
begin

text \<open>
  What a run of the zone job has asked of whom.  \<open>evolves\<close>: the parts of the state that only
  grow.  \<open>log_inv\<close>: every assignment sent carries the shard's own specification, no worker
  is asked twice for one shard, and \<open>en_assigned\<close> is the set of workers asked.  \<open>effect_ok\<close>:
  the effects of one step against the state after it.
\<close>

section \<open>Monotone parts\<close>

definition evolves :: "job \<Rightarrow> job \<Rightarrow> bool" where
  "evolves j j' \<longleftrightarrow> j_expected j' = j_expected j \<and> j_total j' = j_total j \<and> j_nonces j' = j_nonces j \<and>
     j_blacklisted j \<subseteq> j_blacklisted j' \<and> hm_get (j_results j) \<subseteq>\<^sub>m hm_get (j_results j')"

lemma evolves_refl [simp]: "evolves j j"
  by (simp add: evolves_def)

lemma evolves_trans: "evolves j k \<Longrightarrow> evolves k l \<Longrightarrow> evolves j l"
  by (auto simp: evolves_def intro: map_le_trans)

lemma evolves_drain: "drain_assignments obs j = (j', effs) \<Longrightarrow> evolves j j'"
  using drain_frame [of obs j j' effs] by (simp add: evolves_def)

lemma evolves_reopen [simp]: "evolves j (reopen_slot w sid j)"
  by (simp add: evolves_def reopen_slot_def split: option.split)

lemma evolves_blacklist [simp]: "evolves j (blacklist_replica w sid j)"
  by (auto simp: evolves_def blacklist_replica_def reopen_slot_def split: option.split)

lemma evolves_drop [simp]: "evolves j (drop_worker_from_ensembles w j)"
  by (simp add: evolves_def drop_worker_from_ensembles_def)

lemma evolves_fold: "(\<And>x j. evolves j (f x j)) \<Longrightarrow> evolves j (fold f xs j)"
  by (induction xs arbitrary: j) (auto intro: evolves_trans)

lemma evolves_top [simp]: "evolves j (loop_top j)"
  by (simp add: evolves_def loop_top_def)

lemma evolves_accept:
  "hm_get (j_results j) sid = None \<Longrightarrow> evolves j (accept_shard sid res atts (j\<lparr>j_blacklisted := j_blacklisted j \<union> D\<rparr>))"
  by (auto simp: evolves_def accept_shard_def map_le_def update_conv' simp del: map_of_eq_None_iff)

lemma settle_cases:
  assumes "settle sid e j = (j', effs)"
  obtains (edit) D st where "j' = j\<lparr>j_blacklisted := j_blacklisted j \<union> D, j_status := st\<rparr>"
  | (accept) res atts D where "j' = accept_shard sid res atts (j\<lparr>j_blacklisted := j_blacklisted j \<union> D\<rparr>)"
proof (cases "evaluate_ensemble e")
  case Pending
  then show thesis using assms by (intro edit [where D = "{}" and st = "j_status j"]) (simp add: settle_def)
next
  case (Accepted w)
  show thesis
  proof (cases "hm_get (en_responses e) w")
    case None
    then show thesis using assms Accepted
      by (intro edit [where D = "{}" and st = Panicked]) (simp add: settle_def)
  next
    case (Some re)
    then have "j' = accept_shard sid (re_result re) (map attest_entry (en_responses e)) j"
      using assms Accepted by (simp add: settle_def)
    then show thesis by (intro accept [where D = "{}"]) simp
  qed
next
  case (MajorityWin w ds)
  show thesis
  proof (cases "hm_get (en_responses e) w")
    case None
    then show thesis using assms MajorityWin
      by (intro edit [where D = "{}" and st = Panicked]) (simp add: settle_def)
  next
    case (Some re)
    then have "j' = accept_shard sid (re_result re)
        (map attest_entry (filter (\<lambda>(w, e). w \<notin> set ds) (en_responses e)))
        (j\<lparr>j_blacklisted := j_blacklisted j \<union> set ds\<rparr>)"
      using assms MajorityWin by (simp add: settle_def)
    then show thesis by (rule accept)
  qed
next
  case AllConflict
  then have "j' = j\<lparr>j_blacklisted := j_blacklisted j \<union> set (hm_keys (en_responses e)), j_status := Aborted\<rparr>"
    using assms by (simp add: settle_def Let_def)
  then show thesis by (rule edit)
qed

lemma evolves_settle:
  assumes "hm_get (j_results j) sid = None" "settle sid e j = (j', effs)"
  shows "evolves j j'"
proof (cases rule: settle_cases [OF assms(2), case_names edit accept])
  case (edit D st)
  then show ?thesis by (simp add: evolves_def)
next
  case (accept res atts D)
  then show ?thesis using evolves_accept [OF assms(1)] by simp
qed

section \<open>Open ensembles keep their specification and their assignees\<close>

definition same_view :: "job \<Rightarrow> job \<Rightarrow> bool" where
  "same_view j j' \<longleftrightarrow> (\<forall>sid e'. hm_get (j_ensembles j') sid = Some e' \<longrightarrow>
     (\<exists>e. hm_get (j_ensembles j) sid = Some e \<and> en_spec e' = en_spec e \<and> en_assigned e' = en_assigned e))"

lemma same_viewI:
  "(\<And>sid e'. hm_get (j_ensembles j') sid = Some e' \<Longrightarrow>
     \<exists>e. hm_get (j_ensembles j) sid = Some e \<and> en_spec e' = en_spec e \<and> en_assigned e' = en_assigned e) \<Longrightarrow>
   same_view j j'"
  by (simp add: same_view_def)

lemma same_view_refl: "j_ensembles j' = j_ensembles j \<Longrightarrow> same_view j j'"
  by (simp add: same_view_def)

lemma same_view_trans: "same_view j k \<Longrightarrow> same_view k l \<Longrightarrow> same_view j l"
  unfolding same_view_def by metis

lemma same_view_put:
  assumes "hm_get (j_ensembles j) sid = Some e" "en_spec e' = en_spec e" "en_assigned e' = en_assigned e"
    and "j_ensembles j' = j_ensembles (put_ensemble sid e' j)"
  shows "same_view j j'"
  using assms by (intro same_viewI) (auto split: if_splits)

lemma same_view_reopen: "same_view j (reopen_slot w sid j)"
proof (cases "hm_get (j_ensembles j) sid")
  case (Some e)
  then show ?thesis by (intro same_view_put [OF Some, of "free_slot w e"]) (simp_all add: reopen_slot_def)
qed (auto intro: same_view_refl simp: reopen_slot_def)

lemma same_view_blacklist: "same_view j (blacklist_replica w sid j)"
  unfolding blacklist_replica_def
  by (rule same_view_trans [OF same_view_refl same_view_reopen]) simp

lemma same_view_drop: "same_view j (drop_worker_from_ensembles w j)"
  by (intro same_viewI) (auto simp: drop_worker_from_ensembles_def hm_get_map_free)

lemma same_view_fold: "(\<And>x j. same_view j (f x j)) \<Longrightarrow> same_view j (fold f xs j)"
  by (induction xs arbitrary: j) (auto intro: same_view_refl same_view_trans)

lemma same_view_accept: "same_view j (accept_shard sid res atts (j\<lparr>j_blacklisted := bl\<rparr>))"
  by (intro same_viewI) (auto simp: accept_shard_def delete_conv' split: if_splits)

lemma same_view_settle:
  assumes "settle sid e j = (j', effs)"
  shows "same_view j j'"
proof (cases rule: settle_cases [OF assms, case_names edit accept])
  case (edit D st)
  then show ?thesis by (intro same_view_refl) simp
next
  case (accept res atts D)
  then show ?thesis using same_view_accept by simp
qed

lemma same_view_top: "same_view j (loop_top j)"
  by (rule same_view_refl) (simp add: loop_top_def)

section \<open>The log of assignments\<close>

fun assignments :: "job_effect list \<Rightarrow> (worker_id \<times> u32) list" where
  "assignments [] = []"
| "assignments (SendAssign w sp # log) = (w, sp_shard_id sp) # assignments log"
| "assignments (eff # log) = assignments log"

lemma assignments_append [simp]: "assignments (a @ b) = assignments a @ assignments b"
  by (induction a rule: assignments.induct) simp_all

lemma assignments_none:
  "(\<And>w sp. SendAssign w sp \<notin> set log) \<Longrightarrow> assignments log = []"
  by (induction log rule: assignments.induct) auto

lemma in_assignments: "(w, sid) \<in> set (assignments log) \<longleftrightarrow>
    (\<exists>sp. SendAssign w sp \<in> set log \<and> sp_shard_id sp = sid)"
  by (induction log rule: assignments.induct) auto

definition log_inv :: "(u32 \<Rightarrow> shard_spec option) \<Rightarrow> job \<Rightarrow> job_effect list \<Rightarrow> bool" where
  "log_inv specs j log \<longleftrightarrow> distinct (assignments log) \<and>
     (\<forall>sid e. hm_get (j_ensembles j) sid = Some e \<longrightarrow>
        specs sid = Some (en_spec e) \<and> sp_shard_id (en_spec e) = sid \<and>
        en_assigned e = {w. (w, sid) \<in> set (assignments log)}) \<and>
     (\<forall>w sp. SendAssign w sp \<in> set log \<longrightarrow> specs (sp_shard_id sp) = Some sp)"

lemma log_inv_view:
  assumes inv: "log_inv specs j log" and view: "same_view j j'"
    and none: "\<And>w sp. SendAssign w sp \<notin> set effs"
  shows "log_inv specs j' (log @ effs)"
proof -
  have "assignments effs = []" using none by (rule assignments_none)
  moreover have "specs sid = Some (en_spec e) \<and> sp_shard_id (en_spec e) = sid \<and>
      en_assigned e = {w. (w, sid) \<in> set (assignments log)}"
    if get: "hm_get (j_ensembles j') sid = Some e" for sid e
  proof -
    obtain e0 where "hm_get (j_ensembles j) sid = Some e0" "en_spec e = en_spec e0"
      "en_assigned e = en_assigned e0"
      using view get unfolding same_view_def by blast
    then show ?thesis using inv unfolding log_inv_def by metis
  qed
  moreover have "SendAssign w sp \<in> set (log @ effs) \<longleftrightarrow> SendAssign w sp \<in> set log" for w sp
    using none by simp
  ultimately show ?thesis using inv unfolding log_inv_def assignments_append by simp
qed

lemma log_inv_assign:
  assumes inv: "log_inv specs j log" and e: "hm_get (j_ensembles j) sid = Some e"
    and w: "w \<notin> en_assigned e"
  shows "log_inv specs ((put_ensemble sid (assign_to w now e) j)\<lparr>j_busy := b\<rparr>)
           (log @ [SendAssign w (en_spec e)])"
proof -
  have e': "specs sid = Some (en_spec e)" "sp_shard_id (en_spec e) = sid"
    "en_assigned e = {w. (w, sid) \<in> set (assignments log)}"
    using inv e unfolding log_inv_def by blast+
  show ?thesis
    using inv w e' unfolding log_inv_def
    by (auto simp: assign_to_def simp del: map_of_eq_Some_iff)
qed

lemma drain_loop_log:
  assumes "log_inv specs j log" "drain_loop obs q still j = (j', effs)"
  shows "log_inv specs j' (log @ effs)"
  using assms
proof (induction q arbitrary: obs still j j' effs log)
  case Nil
  then show ?case by (auto simp: log_inv_def)
next
  case (Cons sid q)
  show ?case
  proof (cases rule: drain_loop_cases [of obs sid q still j])
    case (assign e w now still' j2 effs2)
    have "log_inv specs j2 ((log @ [SendAssign w (en_spec e)]) @ effs2)"
      by (rule Cons.IH [OF log_inv_assign assign(5)])
        (use Cons.prems(1) assign(1) candidate_Some(3) [OF assign(3)] in auto)
    then show ?thesis using assign(6) Cons.prems(2) by simp
  qed (use Cons in metis)+
qed

lemma log_inv_drain:
  assumes "log_inv specs j log" "drain_assignments obs j = (j', effs)"
  shows "log_inv specs j' (log @ effs)"
  using drain_loop_log [OF assms(1)] assms(2) by (simp add: drain_assignments_def)

text \<open>A handler that edits the state, emits \<open>pre\<close>, and then drains.\<close>

lemma log_inv_edit_drain:
  assumes "log_inv specs j log" "same_view j j1" "\<And>w sp. SendAssign w sp \<notin> set pre"
    and "drain_assignments obs j1 = (j', effs)"
  shows "log_inv specs j' (log @ pre @ effs)"
  using log_inv_drain [OF log_inv_view [OF assms(1-3)] assms(4)] by simp

section \<open>Effects of one step\<close>

definition receipt_good :: "ext \<Rightarrow> job_cfg \<Rightarrow> job \<Rightarrow> worker_id \<Rightarrow> shard_receipt \<Rightarrow> bool" where
  "receipt_good E cfg j w rc \<longleftrightarrow>
     hm_get (j_expected j) (rc_shard_id rc) = Some (rc_merkle_root rc) \<and>
     (\<exists>rnd. rc = mk_receipt E rnd (jc_authority cfg) (jc_job_id cfg) (rc_shard_id rc) w
        (rc_pi_hash rc) (rc_merkle_root rc) (rc_accepted_at_unix_ms rc))"

fun effect_ok :: "ext \<Rightarrow> job_cfg \<Rightarrow> job \<Rightarrow> job_effect \<Rightarrow> bool" where
  "effect_ok E cfg j (SendAssign w sp) = (w \<notin> j_blacklisted j)"
| "effect_ok E cfg j (SendReceipt w rc) = receipt_good E cfg j w rc"
| "effect_ok E cfg j (RosterRemove w) = True"

definition step_ok ::
  "ext \<Rightarrow> job_cfg \<Rightarrow> (u32 \<Rightarrow> shard_spec option) \<Rightarrow> job \<Rightarrow> job \<Rightarrow> job_effect list \<Rightarrow> bool" where
  "step_ok E cfg specs j j' effs \<longleftrightarrow> evolves j j' \<and> (\<forall>eff \<in> set effs. effect_ok E cfg j' eff) \<and>
     (\<forall>log. log_inv specs j log \<longrightarrow> log_inv specs j' (log @ effs))"

lemma step_ok_view:
  assumes "evolves j j'" "same_view j j'" "\<And>w sp. SendAssign w sp \<notin> set effs"
    and "\<forall>eff \<in> set effs. effect_ok E cfg j' eff"
  shows "step_ok E cfg specs j j' effs"
  using assms log_inv_view by (simp add: step_ok_def)

lemma step_ok_drain:
  assumes "drain_assignments obs j1 = (j', effs)" "evolves j j1" "same_view j j1"
    and "\<And>w sp. SendAssign w sp \<notin> set pre" "\<forall>eff \<in> set pre. effect_ok E cfg j1 eff"
  shows "step_ok E cfg specs j j' (pre @ effs)"
proof -
  have "effect_ok E cfg j' eff" if "eff \<in> set pre" for eff
    using assms(4,5) that drain_frame(2,5) [OF assms(1)]
    by (cases eff) (auto simp: receipt_good_def)
  moreover have "effect_ok E cfg j' eff" if "eff \<in> set effs" for eff
    using drain_frame(8) [OF assms(1) that] drain_frame(2) [OF assms(1)] by auto
  ultimately show ?thesis
    using evolves_trans [OF assms(2) evolves_drain [OF assms(1)]]
      log_inv_edit_drain [OF _ assms(3,4,1)] unfolding step_ok_def by auto
qed

lemma step_ok_expel: "expel inp w sid j = (j', effs) \<Longrightarrow> step_ok E cfg specs j j' effs"
  using step_ok_drain [of "ji_obs inp" "blacklist_replica w sid j" j' _ j "[RosterRemove w]"]
  by (auto simp: expel_def Let_def same_view_blacklist split: prod.splits)

lemma settle_removals: "settle sid e j = (j', effs) \<Longrightarrow> eff \<in> set effs \<Longrightarrow> \<exists>w. eff = RosterRemove w"
  by (auto simp: settle_def Let_def split: verdict.splits option.splits)

lemma step_ok_record:
  assumes e: "hm_get (j_ensembles j) (sr_shard_id result) = Some e"
    and fresh: "hm_get (j_results j) (sr_shard_id result) = None"
    and root: "hm_get (j_expected j) (sr_shard_id result) = Some (sr_merkle_root result)"
    and res: "record_response E cfg inp w pk result e j = (j', effs)"
  shows "step_ok E cfg specs j j' effs"
proof -
  let ?sid = "sr_shard_id result"
  let ?e = "(free_slot w e)\<lparr>en_responses :=
             hm_insert w \<lparr>re_result = result, re_worker_pk = pk\<rparr> (en_responses e)\<rparr>"
  let ?j = "(put_ensemble ?sid ?e j)\<lparr>j_busy := j_busy j - {w}\<rparr>"
  let ?rc = "mk_receipt E (ji_rnd inp) (jc_authority cfg) (jc_job_id cfg) ?sid w
               (sr_pi_hash result) (sr_merkle_root result) (ji_unix_ms inp)"
  obtain pushed where pushed: "pushed = (case hm_get (ro_workers (ji_receipt_roster inp)) w of
        None \<Rightarrow> [] | Some ws \<Rightarrow> [SendReceipt w ?rc])" by blast
  obtain j1 effs1 where j1: "settle ?sid ?e ?j = (j1, effs1)" by fastforce
  have view: "same_view j j1"
    by (rule same_view_trans [OF same_view_put [OF e, of ?e] same_view_settle [OF j1]]) simp_all
  have "evolves j ?j" by (simp add: evolves_def)
  then have evol: "evolves j j1"
    by (rule evolves_trans) (rule evolves_settle [OF _ j1], simp add: fresh)
  have none: "SendAssign v sp \<notin> set (pushed @ effs1)" for v sp
    using settle_removals [OF j1] by (auto simp: pushed split: option.splits)
  have "receipt_good E cfg j1 w ?rc"
    using root evol unfolding receipt_good_def by (auto simp: evolves_def mk_receipt_def)
  then have effs1: "\<forall>eff \<in> set (pushed @ effs1). effect_ok E cfg j1 eff"
    using settle_removals [OF j1] by (fastforce simp: pushed split: option.splits)
  show ?thesis
  proof (cases "j_status j1 = Running")
    case False
    then have "j' = j1" "effs = pushed @ effs1"
      using res j1 by (auto simp: record_response_def Let_def pushed)
    then show ?thesis using step_ok_view [OF evol view none effs1] by simp
  next
    case True
    then obtain effs2 where "drain_assignments (ji_obs inp) j1 = (j', effs2)"
      "effs = (pushed @ effs1) @ effs2"
      using res j1 by (auto simp: record_response_def Let_def pushed split: prod.splits)
    then show ?thesis using step_ok_drain [OF _ evol view none effs1] by simp
  qed
qed

lemma step_ok_same: "step_ok E cfg specs j j []"
  by (rule step_ok_view) (auto intro: same_view_refl)

lemma step_ok_done:
  assumes core: "core_inv E cfg j" and res: "shard_done E cfg inp w result j = (j', effs)"
  shows "step_ok E cfg specs j j' effs"
proof (cases "hm_get (j_ensembles j) (sr_shard_id result)")
  case None
  then show ?thesis using res by (simp add: shard_done_def step_ok_same)
next
  case (Some e)
  then have "sr_shard_id result \<in> open_ids j" by (auto simp: open_ids_iff)
  then have "sr_shard_id result \<notin> settled_ids j" using core by (auto simp: core_inv_def)
  then have fresh: "hm_get (j_results j) (sr_shard_id result) = None"
    by (simp add: settled_ids_def map_of_eq_None_iff)
  obtain root where root: "hm_get (j_expected j) (sr_shard_id result) = Some root"
    using core Some unfolding core_inv_def by blast
  show ?thesis
  proof (cases rule: shard_done_cases [OF res Some root, case_names ignored expelled recorded])
    case ignored
    then show ?thesis using step_ok_same by simp
  next
    case expelled
    then show ?thesis by (rule step_ok_expel)
  next
    case (recorded ws)
    then show ?thesis using root by (intro step_ok_record [OF Some fresh]) auto
  qed
qed

lemma step_ok_event:
  assumes core: "core_inv E cfg j" and res: "job_event E cfg inp ev j = (j', effs)"
  shows "step_ok E cfg specs j j' effs"
proof (cases ev)
  case (EvShardDone w result)
  then show ?thesis using res by (intro step_ok_done [OF core]) simp
next
  case (EvShardFailed w sid reason)
  then show ?thesis
    using res step_ok_drain [of "ji_obs inp" "reopen_slot w sid j" j' effs j "[]"] same_view_reopen by simp
next
  case (EvDisconnected w)
  then show ?thesis
    using res step_ok_drain [of "ji_obs inp" "drop_worker_from_ensembles w j" j' effs j "[]"]
      same_view_drop by simp
next
  case (EvRegistered w)
  then show ?thesis
    using res step_ok_drain [of "ji_obs inp" j j' effs j "[]"] same_view_refl by simp
qed

lemma step_ok_reaper:
  assumes "reaper_tick cfg inp j = (j', effs)"
  shows "step_ok E cfg specs j j' effs"
proof -
  define stale where "stale = stale_workers cfg (ji_now inp) (ji_roster inp)"
  define j1 where "j1 = fold drop_worker_from_ensembles stale j"
  define late where "late = overdue cfg (ji_now inp) j1"
  define j2 where "j2 = fold (\<lambda>(w, sid). blacklist_replica w sid) late j1"
  obtain effs' where d: "drain_assignments (ji_obs inp) j2 = (j', effs')"
    and effs: "effs = (map RosterRemove stale @ map (RosterRemove \<circ> fst) late) @ effs'"
    using assms by (auto simp: reaper_tick_def Let_def stale_def j1_def late_def j2_def split: prod.splits)
  have "evolves j j2" "same_view j j2"
    unfolding j2_def j1_def
    by (auto intro!: evolves_trans [OF evolves_fold evolves_fold] split: prod.split)
      (auto intro!: same_view_trans [OF same_view_fold same_view_fold] same_view_drop same_view_blacklist
        split: prod.split)
  then show ?thesis unfolding effs by (intro step_ok_drain [OF d]) auto
qed

lemma step_ok_top:
  assumes "step_ok E cfg specs j j' effs"
  shows "step_ok E cfg specs j (loop_top j') effs"
proof -
  have "effect_ok E cfg (loop_top j') eff = effect_ok E cfg j' eff" for eff
    by (cases eff) (simp_all add: loop_top_def receipt_good_def)
  moreover have "log_inv specs (loop_top j') log = log_inv specs j' log" for log
    by (simp add: log_inv_def loop_top_def)
  ultimately show ?thesis
    using assms evolves_trans [OF _ evolves_top] by (auto simp: step_ok_def)
qed

lemma step_ok_step:
  assumes inv: "job_inv E cfg j" and step: "job_step E cfg (j, log) (j', log')"
  shows "\<exists>effs. log' = log @ effs \<and> step_ok E cfg specs j j' effs"
proof -
  have core: "core_inv E cfg j" using inv by (simp add: job_inv_def)
  show ?thesis
    using step
  proof (cases rule: job_step.cases)
    case (event inp ev j1 effs)
    then show ?thesis using step_ok_top [OF step_ok_event [OF core]] by blast
  next
    case (tick inp j1 effs)
    then show ?thesis using step_ok_top [OF step_ok_reaper] by blast
  next
    case closed
    then show ?thesis
      by (intro exI [of _ "[]"] conjI step_ok_view) (auto simp: evolves_def intro: same_view_refl)
  next
    case (rehash es)
    have "hm_get es = hm_get (j_ensembles j)"
      using core rehash(3) by (intro hm_get_mset) (simp_all add: core_inv_def)
    then have "same_view j j'" using rehash(1) by (intro same_viewI) simp
    then show ?thesis using rehash
      by (intro exI [of _ "[]"] conjI step_ok_view) (auto simp: evolves_def)
  next
    case (rehash_one sid ens p r)
    have "same_view j j'" unfolding rehash_one(1)
      by (rule same_view_put [OF rehash_one(3)]) simp_all
    then show ?thesis using rehash_one
      by (intro exI [of _ "[]"] conjI step_ok_view) (auto simp: evolves_def)
  qed
qed

section \<open>Runs\<close>

definition specs_of :: "job \<Rightarrow> u32 \<Rightarrow> shard_spec option" where
  "specs_of j0 sid = map_option en_spec (hm_get (j_ensembles j0) sid)"

definition run_inv :: "ext \<Rightarrow> job_cfg \<Rightarrow> job \<Rightarrow> job \<times> job_effect list \<Rightarrow> bool" where
  "run_inv E cfg j0 s \<longleftrightarrow> job_inv E cfg (fst s) \<and> j_expected (fst s) = j_expected j0 \<and>
     j_nonces (fst s) = j_nonces j0 \<and>
     log_inv (specs_of j0) (fst s) (snd s) \<and>
     (\<forall>w rc. SendReceipt w rc \<in> set (snd s) \<longrightarrow> receipt_good E cfg (fst s) w rc)"

lemma log_inv_start:
  assumes "zone_start E cfg nonces r records j0"
  shows "log_inv (specs_of j0) j0 []"
proof -
  have r: "hm_ok (ro_workers r)" and j0: "init_job E cfg nonces r records = Some j0"
    using assms by (simp_all add: zone_start_def)
  note b = init_job_built(1) [OF j0 r]
  have "sp_shard_id (en_spec e) = sid \<and> en_assigned e = {}" if get: "hm_get (j_ensembles j0) sid = Some e" for sid e
  proof -
    have "sid \<in> fst ` set (j_ensembles j0)" using hm_get_in [OF get] by force
    then obtain i where "i < n_shards_of cfg r" "sid = shard_id_of i" using built_keys(1) [OF b] by auto
    then obtain root where "hm_get (j_ensembles j0) sid =
        Some (new_ensemble E cfg sid (nonces i) root (zone_shards cfg r records ! i))"
      using b unfolding built_def by blast
    then show ?thesis using get by (auto simp: new_ensemble_def)
  qed
  then show ?thesis unfolding log_inv_def specs_of_def by (simp del: map_of_eq_Some_iff)
qed

lemma run_inv_start:
  assumes "zone_start E cfg nonces r records j0" "job_begins j0 s"
  shows "run_inv E cfg j0 s"
proof -
  obtain obs j1 effs where j1: "drain_assignments obs j0 = (j1, effs)" and s: "s = (loop_top j1, effs)"
    using assms(2) by (auto simp: job_begins_def)
  have "step_ok E cfg (specs_of j0) j0 (loop_top j1) effs"
    using step_ok_drain [OF j1, of j0 "[]"] by (intro step_ok_top) (simp add: same_view_refl)
  then have "j_expected (loop_top j1) = j_expected j0" "j_nonces (loop_top j1) = j_nonces j0" "log_inv (specs_of j0) (loop_top j1) effs"
    using log_inv_start [OF assms(1)] unfolding step_ok_def evolves_def by fastforce+
  moreover have "SendReceipt w rc \<notin> set effs" for w rc
    using drain_frame(8) [OF j1] by blast
  ultimately show ?thesis using job_begins_inv [OF assms] by (simp add: run_inv_def s)
qed

lemma run_inv_step:
  assumes inv: "run_inv E cfg j0 s" and step: "job_step E cfg s t"
  shows "run_inv E cfg j0 t"
proof -
  obtain j log j' log' where s: "s = (j, log)" and t: "t = (j', log')" by fastforce
  have "job_inv E cfg j" using inv by (simp add: run_inv_def s)
  from step_ok_step [OF this step [unfolded s t], of "specs_of j0"]
  obtain effs where log': "log' = log @ effs" and ok: "step_ok E cfg (specs_of j0) j j' effs" by blast
  have exp: "j_expected j' = j_expected j" "j_nonces j' = j_nonces j" using ok by (simp_all add: step_ok_def evolves_def)
  have "receipt_good E cfg j' w rc" if "SendReceipt w rc \<in> set log'" for w rc
  proof (cases "SendReceipt w rc \<in> set log")
    case True
    then have "receipt_good E cfg j w rc" using inv by (simp add: run_inv_def s)
    then show ?thesis unfolding receipt_good_def exp(1) .
  next
    case False
    then show ?thesis using that ok log' unfolding step_ok_def by force
  qed
  moreover have "job_inv E cfg j'" using job_inv_step [of E cfg s t] inv step by (simp add: run_inv_def s t)
  ultimately show ?thesis
    using inv ok exp unfolding run_inv_def step_ok_def by (simp add: s t log')
qed

interpretation zone_runs: safe_system
  "\<lambda>s. (\<exists>nonces r records. zone_start E cfg nonces r records j0) \<and> job_begins j0 s" "job_step E cfg"
  "run_inv E cfg j0"
  for E cfg j0
  by unfold_locales (auto intro: run_inv_start run_inv_step)

lemma run_inv_reached:
  "zone_start E cfg nonces r records j0 \<Longrightarrow> job_begins j0 s \<Longrightarrow> (job_step E cfg)\<^sup>*\<^sup>* s t \<Longrightarrow>
     run_inv E cfg j0 t"
  by (rule zone_runs.reachable_inv) blast+

lemma run_grows:
  assumes "(job_step E cfg)\<^sup>*\<^sup>* s t" "run_inv E cfg j0 s"
  shows "\<exists>effs. snd t = snd s @ effs \<and> evolves (fst s) (fst t) \<and>
    (\<forall>w sp. SendAssign w sp \<in> set effs \<longrightarrow> w \<notin> j_blacklisted (fst s))"
  using assms
proof (induction rule: rtranclp_induct)
  case base
  then show ?case by simp
next
  case (step t u)
  then obtain effs where effs: "snd t = snd s @ effs" "evolves (fst s) (fst t)"
    "\<forall>w sp. SendAssign w sp \<in> set effs \<longrightarrow> w \<notin> j_blacklisted (fst s)" by blast
  have "job_inv E cfg (fst t)"
    using zone_runs.inv_steps [OF step(1,4)] by (simp add: run_inv_def)
  from step_ok_step [OF this, of "snd t" "fst u" "snd u"] step(2)
  obtain effs' where effs': "snd u = snd t @ effs'" "step_ok E cfg (specs_of j0) (fst t) (fst u) effs'"
    by auto
  have "w \<notin> j_blacklisted (fst s)" if "SendAssign w sp \<in> set effs'" for w sp
    using effs'(2) effs(2) that unfolding step_ok_def evolves_def by force
  then show ?case
    using effs effs' evolves_trans by (auto simp: step_ok_def intro!: exI [of _ "effs @ effs'"])
qed

lemma done_results:
  assumes inv: "run_inv E cfg j0 (j, log)" and "j_status j = Done"
    and start: "zone_start E cfg nonces r records j0" and i: "i < n_shards_of cfg r"
  obtains res atts root where
    "hm_get (j_results j) (shard_id_of i) = Some res"
    "hm_get (j_attestations j) (shard_id_of i) = Some atts"
    "compute_merkle_root E (jc_salt cfg) (zone_shards cfg r records ! i) = Some root"
    "result_ok E cfg (shard_id_of i) root res atts"
proof -
  have r: "hm_ok (ro_workers r)" and j0: "init_job E cfg nonces r records = Some j0"
    using start by (simp_all add: zone_start_def)
  obtain root where root: "compute_merkle_root E (jc_salt cfg) (zone_shards cfg r records ! i) = Some root"
    "hm_get (j_expected j0) (shard_id_of i) = Some root"
    using init_job_built(1) [OF j0 r] i unfolding built_def by blast
  have core: "core_inv E cfg j" using inv by (simp add: run_inv_def job_inv_def)
  have "length (j_results j) = j_total j" using inv assms(2) by (simp add: run_inv_def job_inv_def)
  then have "open_ids j = {}" using total_split [OF core] by (simp add: open_ids_def)
  moreover have "shard_id_of i \<in> fst ` set (j_expected j)"
    using root(2) inv hm_get_in [OF root(2)] by (force simp: run_inv_def)
  ultimately have "shard_id_of i \<in> settled_ids j" using core by (auto simp: core_inv_def)
  then obtain res where res: "hm_get (j_results j) (shard_id_of i) = Some res"
    unfolding settled_ids_def by (metis map_of_eq_None_iff not_None_eq)
  then obtain root' atts where "hm_get (j_expected j) (shard_id_of i) = Some root'"
    "hm_get (j_attestations j) (shard_id_of i) = Some atts" "result_ok E cfg (shard_id_of i) root' res atts"
    using core unfolding core_inv_def by blast
  moreover from this have "root' = root" using root(2) inv by (simp add: run_inv_def)
  ultimately show thesis using that res root(1) by blast
qed

end
