(* ===== verification/Concrete.thy ===== *)
theory Concrete
  imports Externals
begin

text \<open>
  Concrete functions for the parameters of the model, on which the hypotheses of the theorems
  hold: a hash that keeps the first 32 bytes of its zero-padded input, a signature that repeats
  a prefix of the message, a byte-per-character hex codec, a prover whose proof is its leaf
  count.  They show that the hypotheses are satisfiable and let the theorems be applied to
  evaluated runs.
\<close>

definition pad32 :: "bytes \<Rightarrow> bytes" where
  "pad32 b = take 32 (b @ replicate 32 0)"

definition toy_pk_len :: "mldsa_set \<Rightarrow> nat" where
  "toy_pk_len s = (case s of MlDsa44 \<Rightarrow> 1 | MlDsa65 \<Rightarrow> 2 | MlDsa87 \<Rightarrow> 3)"

definition toy_ext :: ext where
  "toy_ext =
     \<lparr>sha3_256 = pad32, sha3_384 = pad32, sha3_512 = pad32, sha2_256 = pad32,
      hex_encode = map (\<lambda>x. char_of (unat x)),
      hex_decode = (\<lambda>s. Some (map (\<lambda>c. word_of_nat (of_char c)) s)),
      pk_len = toy_pk_len, sig_len = (\<lambda>s. 4),
      mldsa_keygen = (\<lambda>s seed. (replicate (toy_pk_len s) 7, seed)),
      mldsa_pk_ok = (\<lambda>s pk. True),
      mldsa_sign = (\<lambda>s rnd sk m. take 4 (pad32 m)),
      mldsa_verify = (\<lambda>s pk m sig. sig = take 4 (pad32 m))\<rparr>"

definition toy_stark :: "bytes stark" where
  "toy_stark =
     \<lparr>stark_prove = (\<lambda>leaves params. [word_of_nat (length leaves)]),
      fri_verify = (\<lambda>params p. length p = 1),
      root_f0_of = pad32, proof_ser = (\<lambda>p. p), proof_deser = Some\<rparr>"

lemma length_pad32 [simp]: "length (pad32 b) = 32"
  by (simp add: pad32_def)

lemma toy_sha3_len: "sha3_len_ok toy_ext"
  by (simp add: sha3_len_ok_def toy_ext_def)

lemma toy_hex: "hex_ok toy_ext"
proof -
  have "(word_of_nat (of_char (char_of (unat x) :: char)) :: byte) = x" for x :: byte
  proof -
    have "unat x < 256" using unsigned_less [of x, where 'a = nat] by simp
    then show ?thesis by simp
  qed
  then show ?thesis by (simp add: hex_ok_def toy_ext_def map_idI)
qed

lemma toy_signer: "signer_ok toy_ext"
proof -
  have "inj toy_pk_len" by (rule injI) (simp add: toy_pk_len_def split: mldsa_set.splits)
  then show ?thesis by (auto simp: signer_ok_def toy_ext_def)
qed

lemma toy_codec: "codec_ok toy_stark"
  by (simp add: codec_ok_def toy_stark_def)

lemmas toy_ok = toy_sha3_len toy_hex toy_signer toy_codec

end
