(* ===== verification/Zone_Job_Props.thy ===== *)
theory Zone_Job_Props
  imports Zone_Job_Log Concrete
begin

text \<open>
  The promises of the zone job, each stated for every reachable state of a run: pinned and
  attested results, no deadlock in the bookkeeping, no assignment to a blacklisted worker, no
  worker asked twice for a shard, receipts that verify, honest replicas accepted.  A concrete
  run (one worker, one record) to which they apply comes first.
\<close>

section \<open>A concrete run\<close>

definition demo_cfg :: job_cfg where
  "demo_cfg = \<lparr>jc_salt = replicate 16 0, jc_ldt = Fri, jc_replication = 1, jc_heartbeat_secs = 5,
     jc_shard_deadline = 120000, jc_authority = keygen toy_ext L1 [1], jc_job_id = replicate 32 3\<rparr>"

definition demo_worker :: worker_entry where
  "demo_worker = \<lparr>we_id = 1, we_node_id = ''w'',
     we_capabilities = \<lparr>cap_nist_level = 1, max_records_per_shard = 0, cores = 1, cap_label = []\<rparr>,
     we_pk_fp = pad32 [7], we_ml_dsa_pk = [7], we_last_seen = 0\<rparr>"

definition demo_roster :: roster where
  "demo_roster = \<lparr>ro_next_id = 1, ro_workers = [(1, demo_worker)]\<rparr>"

definition demo_record :: dns_record where
  "demo_record = \<lparr>domain = ascii ''a'', record_type = 1, ttl = 300, rdata = [10, 0, 0, 1]\<rparr>"

definition demo_nonces :: "nat \<Rightarrow> bytes" where
  "demo_nonces i = replicate 32 9"

definition demo_root :: bytes where
  "demo_root = leaf_hash toy_ext (jc_salt demo_cfg) demo_record"

definition demo_ens :: shard_ensemble where
  "demo_ens = new_ensemble toy_ext demo_cfg 1 (demo_nonces 0) demo_root [demo_record]"

definition demo_j0 :: job where
  "demo_j0 = empty_job\<lparr>j_queue := [1], j_ensembles := [(1, demo_ens)],
     j_expected := [(1, demo_root)], j_nonces := [(1, demo_nonces 0)], j_total := 1\<rparr>"

definition demo_obs :: "nat \<Rightarrow> drain_obs" where
  "demo_obs n = \<lparr>do_roster1 = demo_roster, do_roster2 = demo_roster, do_send_ok = True, do_now = 5\<rparr>"

definition demo_inp :: job_inp where
  "demo_inp = \<lparr>ji_now = 9, ji_roster = demo_roster, ji_receipt_roster = demo_roster,
     ji_unix_ms = 77, ji_rnd = [], ji_obs = demo_obs\<rparr>"

text \<open>What \<open>handle_assign\<close> returns: an attested result that carries the shard's own root.\<close>

lemma handle_assign_attests:
  assumes res: "handle_assign E S rnd a b kp spec = Some res" and kp: "kp = keygen E l seed"
    and ok: "signer_ok E" "sha3_len_ok E"
  shows "sr_shard_id res = sp_shard_id spec"
    and "compute_merkle_root E (sp_zone_salt spec) (sp_records spec) = Some (sr_merkle_root res)"
    and "verify_worker_sig E (kp_pk kp) (result_digest E res) (sr_worker_sig res)"
proof -
  obtain out where out: "prove_inner_shard E S (sp_zone_salt spec) (sp_records spec)
      (shard_fs_binding E (sp_authority_pk_hash spec) (sp_job_id spec) (sp_shard_id spec) (sp_shard_nonce spec))
      (sp_ldt spec) = Some out"
    and r: "sr_shard_id res = sp_shard_id spec" "sr_pi_hash res = is_pi_hash out"
      "sr_merkle_root res = is_merkle_root out" "sr_root_f0 res = is_root_f0 out"
      "sr_worker_sig res = kp_sign E rnd kp (worker_attestation_digest E (sp_shard_id spec) (is_pi_hash out)
         (is_merkle_root out) (is_root_f0 out))"
    using res by (auto simp: handle_assign_def Let_def split: option.splits)
  from prove_inner_shard_Some [OF out ok(2)]
  have "compute_merkle_root E (sp_zone_salt spec) (sp_records spec) = Some (is_merkle_root out)" by metis
  then show "compute_merkle_root E (sp_zone_salt spec) (sp_records spec) = Some (sr_merkle_root res)"
    by (simp add: r)
  show "sr_shard_id res = sp_shard_id spec" by (rule r)
  show "verify_worker_sig E (kp_pk kp) (result_digest E res) (sr_worker_sig res)"
    unfolding kp result_digest_def r by (rule keygen_sign_verify_worker_sig [OF ok(1)])
qed

lemma handle_assign_defined:
  assumes "sp_records spec \<noteq> []" "\<And>params p. fri_verify S params (stark_prove S p params)" "length (sp_records spec) \<le> 2 ^ 56"
  shows "\<exists>res. handle_assign E S rnd a b kp spec = Some res"
proof -
  have p: "\<exists>p. build_params (usize_mul (next_pow2 (length (concat (map pack_hash_to_leaves
      (map (leaf_hash E salt) (sp_records spec)))))) blowup) h ldt = Some p" for salt h ldt
    by (rule rollup_params_defined) (use assms(3) in simp)
  have "\<exists>out. prove_inner_shard E S salt (sp_records spec) fs ldt = Some out" for salt fs ldt
    using p [of salt fs ldt] assms(1,2) compute_merkle_root_eq [of E salt "sp_records spec"]
    unfolding prove_inner_shard_def Let_def compute_merkle_root_def
    by (auto split: option.splits)
  then show ?thesis by (simp add: handle_assign_def Let_def) (metis option.case(2))
qed

definition demo_kp :: keypair where
  "demo_kp = keygen toy_ext L1 [5]"

definition demo_result :: shard_result where
  "demo_result = the (handle_assign toy_ext toy_stark [] 0 0 demo_kp (en_spec demo_ens))"

lemma demo_handled: "handle_assign toy_ext toy_stark [] 0 0 demo_kp (en_spec demo_ens) = Some demo_result"
proof -
  have "\<exists>res. handle_assign toy_ext toy_stark [] 0 0 demo_kp (en_spec demo_ens) = Some res"
    by (rule handle_assign_defined) (simp_all add: demo_ens_def new_ensemble_def toy_stark_def)
  then show ?thesis by (auto simp: demo_result_def)
qed

lemma demo_compute_root: "compute_merkle_root toy_ext (jc_salt demo_cfg) [demo_record] = Some demo_root"
  by (simp add: compute_merkle_root_eq demo_root_def)

lemma demo_result_facts:
  "sr_shard_id demo_result = 1" "sr_merkle_root demo_result = demo_root"
  "verify_worker_sig toy_ext [7] (result_digest toy_ext demo_result) (sr_worker_sig demo_result)"
proof -
  have kp: "kp_pk demo_kp = [7]" by (simp add: demo_kp_def keygen_def toy_ext_def toy_pk_len_def)
  note h = handle_assign_attests [OF demo_handled demo_kp_def toy_signer toy_sha3_len]
  show "sr_shard_id demo_result = 1" using h(1) by (simp add: demo_ens_def new_ensemble_def)
  show "sr_merkle_root demo_result = demo_root"
    using h(2) demo_compute_root by (simp add: demo_ens_def new_ensemble_def)
  show "verify_worker_sig toy_ext [7] (result_digest toy_ext demo_result) (sr_worker_sig demo_result)"
    using h(3) by (simp add: kp)
qed

definition demo_begin :: "job \<times> job_effect list" where
  "demo_begin = (demo_j0\<lparr>j_queue := [], j_ensembles := [(1, assign_to 1 5 demo_ens)], j_busy := {1}\<rparr>,
     [SendAssign 1 (en_spec demo_ens)])"

definition demo_end :: "job \<times> job_effect list" where
  "demo_end = (let (j, effs) = job_event toy_ext demo_cfg demo_inp (EvShardDone 1 demo_result) (fst demo_begin)
     in (loop_top j, snd demo_begin @ effs))"

lemma demo_shards: "n_shards_of demo_cfg demo_roster = 1"
  "split_evenly [demo_record] 1 = [[demo_record]]"
  by (simp_all add: n_shards_of_def roster_ids_def demo_roster_def replicas_def demo_cfg_def split_evenly_def)

lemma demo_start: "zone_start toy_ext demo_cfg demo_nonces demo_roster [demo_record] demo_j0"
proof -
  have "init_job toy_ext demo_cfg demo_nonces demo_roster [demo_record] = Some demo_j0"
    unfolding init_job_def demo_shards
    by (simp add: demo_compute_root empty_job_def demo_j0_def demo_ens_def Let_def)
  moreover have "hm_ok (ro_workers demo_roster)" by (simp add: demo_roster_def)
  ultimately show ?thesis by (simp add: zone_start_def)
qed

lemma demo_ens_simps:
  "en_assigned demo_ens = {}" "en_pending_workers demo_ens = []" "en_responses demo_ens = []"
  "en_target_k demo_ens = 1" "slots_remaining demo_ens = 1"
  "slots_remaining (assign_to 1 t demo_ens) = 0"
  by (simp_all add: demo_ens_def new_ensemble_def replicas_def demo_cfg_def slots_remaining_def assign_to_def)

lemma demo_begins: "job_begins demo_j0 demo_begin"
  unfolding job_begins_def
  by (rule exI [of _ demo_obs])
    (simp add: demo_begin_def drain_assignments_def demo_j0_def empty_job_def candidate_def Let_def
      demo_ens_simps slots_remaining_def demo_obs_def demo_roster_def put_ensemble_def loop_top_def
      assign_to_def)

lemma demo_step: "job_step toy_ext demo_cfg demo_begin demo_end"
proof -
  obtain j effs where "job_event toy_ext demo_cfg demo_inp (EvShardDone 1 demo_result) (fst demo_begin) = (j, effs)"
    by fastforce
  moreover have "j_status (fst demo_begin) = Running"
    by (simp add: demo_begin_def demo_j0_def empty_job_def)
  ultimately show ?thesis
    using job_step.event [of "fst demo_begin" toy_ext demo_cfg demo_inp "EvShardDone 1 demo_result" j effs "snd demo_begin"]
    by (simp add: demo_end_def)
qed

lemma demo_state:
  "hm_get (j_ensembles (fst demo_begin)) 1 = Some (assign_to 1 5 demo_ens)"
  "j_status (fst demo_begin) = Running" "hm_get (j_expected (fst demo_begin)) 1 = Some demo_root"
  "j_busy (fst demo_begin) - {1} = {}" "j_queue (fst demo_begin) = []"
  "j_results (fst demo_begin) = []" "j_total (fst demo_begin) = 1"
  "sr_shard_id demo_result = 1" "sr_merkle_root demo_result = demo_root"
  "hm_get (ro_workers demo_roster) 1 = Some demo_worker" "we_ml_dsa_pk demo_worker = [7]"
  "ji_roster demo_inp = demo_roster" "ji_receipt_roster demo_inp = demo_roster"
  by (simp_all add: demo_begin_def demo_j0_def empty_job_def demo_result_facts demo_roster_def
      demo_worker_def demo_inp_def)

lemma demo_recorded:
  "shard_done toy_ext demo_cfg demo_inp 1 demo_result (fst demo_begin) =
     record_response toy_ext demo_cfg demo_inp 1 [7] demo_result (assign_to 1 5 demo_ens) (fst demo_begin)"
  using demo_result_facts(3) by (simp add: shard_done_def assign_to_def demo_state demo_ens_simps)

lemma demo_finished: "j_status (fst demo_end) = Done \<and> hm_get (j_results (fst demo_end)) 1 = Some demo_result"
proof -
  let ?j = "fst demo_begin"
  define e where "e = (free_slot 1 (assign_to 1 5 demo_ens))
      \<lparr>en_responses := [(1, \<lparr>re_result = demo_result, re_worker_pk = [7]\<rparr>)]\<rparr>"
  have "evaluate_ensemble e = Accepted 1"
    by (simp add: e_def evaluate_ensemble_def push_bucket_def assign_to_def demo_ens_simps)
  then have "settle 1 e ((put_ensemble 1 e ?j)\<lparr>j_busy := {}\<rparr>) =
      (accept_shard 1 demo_result (map attest_entry (en_responses e)) ((put_ensemble 1 e ?j)\<lparr>j_busy := {}\<rparr>), [])"
    by (simp add: settle_def e_def)
  moreover have "en_responses (assign_to 1 5 demo_ens) = []" by (simp add: assign_to_def demo_ens_simps)
  ultimately show ?thesis
    by (simp add: demo_end_def demo_recorded demo_state record_response_def e_def [symmetric]
        accept_shard_def drain_assignments_def loop_top_def Let_def)
qed

lemmas demo_done = conjunct1 [OF demo_finished]

lemma demo_receipt: "\<exists>rc. SendReceipt 1 rc \<in> set (snd demo_end)"
  by (auto simp: demo_end_def demo_recorded record_response_def demo_state Let_def split: prod.splits)

definition demo_expelled :: "job \<times> job_effect list" where
  "demo_expelled =
     (let (j, effs) = job_event toy_ext demo_cfg demo_inp (EvShardDone 1 (demo_result\<lparr>sr_worker_sig := []\<rparr>))
        (fst demo_begin)
      in (loop_top j, snd demo_begin @ effs))"

lemma demo_expelled_step: "job_step toy_ext demo_cfg demo_begin (fst demo_expelled, snd demo_expelled)"
  using job_step.event [of "fst demo_begin" toy_ext demo_cfg demo_inp
      "EvShardDone 1 (demo_result\<lparr>sr_worker_sig := []\<rparr>)" _ _ "snd demo_begin"]
  by (simp add: demo_expelled_def demo_state split: prod.splits)

lemma demo_blacklisted: "1 \<in> j_blacklisted (fst demo_expelled)"
proof -
  have "\<not> verify_worker_sig toy_ext [7] m []" for m
    by (simp add: verify_worker_sig_def verify_with_def toy_ext_def)
  then have "shard_done toy_ext demo_cfg demo_inp 1 (demo_result\<lparr>sr_worker_sig := []\<rparr>) (fst demo_begin) =
      expel demo_inp 1 1 (fst demo_begin)"
    by (simp add: shard_done_def assign_to_def demo_state demo_ens_simps)
  then show ?thesis
    by (auto simp: demo_expelled_def expel_def drain_frame(2) loop_top_def blacklist_replica_def
        reopen_slot_def split: prod.splits option.splits)
qed

lemma demo_run: "(job_step toy_ext demo_cfg)\<^sup>*\<^sup>* demo_begin (fst demo_end, snd demo_end)"
  using demo_step by simp

section \<open>Results\<close>

text \<open>C2: When the job is done, every shard of the zone has exactly one recorded result; its
  shard id is the shard's and its Merkle root is the one the controller computed from the
  shard's own records, whatever the workers sent.\<close>

theorem zone_job_results_pinned:
  assumes "zone_start E cfg nonces r records j0" "job_begins j0 s"
    and "(job_step E cfg)\<^sup>*\<^sup>* s (j, log)" "j_status j = Done"
    and "i < n_shards_of cfg r"
  shows "\<exists>res. hm_get (j_results j) (shard_id_of i) = Some res \<and> sr_shard_id res = shard_id_of i \<and>
    compute_merkle_root E (jc_salt cfg) (zone_shards cfg r records ! i) = Some (sr_merkle_root res)"
proof -
  have "run_inv E cfg j0 (j, log)" by (rule run_inv_reached [OF assms(1-3)])
  from done_results [OF this assms(4,1,5)] show ?thesis by (auto simp: result_ok_def)
qed

lemma zone_job_results_pinned_witness:
  "\<exists>res. hm_get (j_results (fst demo_end)) 1 = Some res \<and> sr_shard_id res = 1 \<and>
    compute_merkle_root toy_ext (jc_salt demo_cfg) [demo_record] = Some (sr_merkle_root res)"
  using zone_job_results_pinned [OF demo_start demo_begins demo_run demo_done, of 0]
  unfolding demo_shards by simp

text \<open>C1: When the job is done, every recorded result carries attestations of distinct workers,
  more than half of the replication factor and at most all of it, and every attestation
  signature verifies under the recorded key over the canonical claim (shard id, pi hash,
  Merkle root, FRI root).\<close>

theorem zone_job_results_attested:
  assumes "zone_start E cfg nonces r records j0" "job_begins j0 s"
    and "(job_step E cfg)\<^sup>*\<^sup>* s (j, log)" "j_status j = Done"
    and "i < n_shards_of cfg r"
  shows "\<exists>res atts. hm_get (j_results j) (shard_id_of i) = Some res \<and>
    hm_get (j_attestations j) (shard_id_of i) = Some atts \<and>
    distinct (map fst atts) \<and> length atts \<le> replicas cfg \<and> replicas cfg < 2 * length atts \<and>
    (\<forall>(w, pk, sig, ms) \<in> set atts. verify_worker_sig E pk
       (worker_attestation_digest E (sr_shard_id res) (sr_pi_hash res) (sr_merkle_root res) (sr_root_f0 res)) sig)"
proof -
  have "run_inv E cfg j0 (j, log)" by (rule run_inv_reached [OF assms(1-3)])
  from done_results [OF this assms(4,1,5)] show ?thesis
    unfolding result_ok_def result_digest_def by metis
qed

lemma zone_job_results_attested_witness:
  "\<exists>res atts. hm_get (j_results (fst demo_end)) 1 = Some res \<and>
    hm_get (j_attestations (fst demo_end)) 1 = Some atts \<and> length atts = 1"
proof -
  have "replicas demo_cfg = 1" by (simp add: replicas_def demo_cfg_def)
  then show ?thesis
    using zone_job_results_attested [OF demo_start demo_begins demo_run demo_done, of 0]
    unfolding demo_shards by (auto simp: le_Suc_eq)
qed

text \<open>C6: The bookkeeping cannot deadlock and never indexes a missing entry: in no reachable
  state is the job stopped by the stuck check or by a failed \<open>expect\<close>; while it runs with shards
  left, the queue is non-empty or a replica is in flight, and every worker marked busy has a
  replica outstanding.\<close>

theorem zone_job_not_stuck:
  assumes "zone_start E cfg nonces r records j0" "job_begins j0 s"
    and "(job_step E cfg)\<^sup>*\<^sup>* s (j, log)"
  shows "j_status j \<noteq> Stuck \<and> j_status j \<noteq> Panicked \<and>
    (j_status j = Running \<longrightarrow> length (j_results j) < j_total j \<and>
      (j_queue j \<noteq> [] \<or> (\<exists>(sid, ens) \<in> set (j_ensembles j). en_pending_workers ens \<noteq> [])) \<and>
      (\<forall>w \<in> j_busy j. \<exists>sid ens. hm_get (j_ensembles j) sid = Some ens \<and>
         w \<in> fst ` set (en_pending_workers ens)))"
proof -
  have inv: "job_inv E cfg j" using run_inv_reached [OF assms] by (simp add: run_inv_def)
  then have core: "core_inv E cfg j" by (simp add: job_inv_def)
  have "length (j_results j) < j_total j \<and> j_ensembles j \<noteq> [] \<and> running_inv E cfg j"
    if run: "j_status j = Running"
  proof -
    have "length (j_results j) \<noteq> j_total j" "running_inv E cfg j"
      using inv run by (auto simp: job_inv_def)
    then show ?thesis using total_split [OF core] by (cases "j_ensembles j") auto
  qed
  then show ?thesis
    using inv never_stuck [of E cfg j] unfolding job_inv_def live_inv_def outstanding_def by blast
qed

lemma zone_job_not_stuck_witness: "j_status (fst demo_begin) \<noteq> Stuck"
  using zone_job_not_stuck [OF demo_start demo_begins, of "fst demo_begin" "snd demo_begin"] by simp

section \<open>Assignments\<close>

text \<open>C7: A worker that has been blacklisted is never assigned a shard again: after any state of
  a run in which it is on the list, no later assignment goes to it, and it stays on the list.\<close>

theorem blacklisted_never_assigned:
  assumes "zone_start E cfg nonces r records j0" "job_begins j0 s"
    and "(job_step E cfg)\<^sup>*\<^sup>* s (j, log)" "w \<in> j_blacklisted j"
    and "(job_step E cfg)\<^sup>*\<^sup>* (j, log) (j', log @ effs)"
  shows "SendAssign w sp \<notin> set effs \<and> w \<in> j_blacklisted j'"
  using run_grows [OF assms(5) run_inv_reached [OF assms(1-3)]] assms(4)
  by (auto simp: evolves_def)

lemma blacklisted_never_assigned_witness: "1 \<in> j_blacklisted (fst demo_expelled)"
proof -
  have "(job_step toy_ext demo_cfg)\<^sup>*\<^sup>* demo_begin (fst demo_expelled, snd demo_expelled)"
    using demo_expelled_step by (rule r_into_rtranclp)
  from blacklisted_never_assigned [OF demo_start demo_begins this demo_blacklisted, of "fst demo_expelled" "[]"]
  show ?thesis by simp
qed

text \<open>C8: Over a whole run no worker is sent the same shard twice, and what is sent is exactly
  the specification of a shard of the zone: its id, nonce, salt, job id, key binding and the
  slice of the records that the split gave it.\<close>

theorem assignments_distinct:
  assumes "zone_start E cfg nonces r records j0" "job_begins j0 s"
    and "(job_step E cfg)\<^sup>*\<^sup>* s (j, log)"
  shows "distinct (assignments log) \<and>
    (\<forall>w sp. SendAssign w sp \<in> set log \<longrightarrow>
       (\<exists>i < n_shards_of cfg r. sp = spec_of E cfg nonces (zone_shards cfg r records) i))"
proof -
  have inv: "log_inv (specs_of j0) j log" using run_inv_reached [OF assms] by (simp add: run_inv_def)
  have r: "hm_ok (ro_workers r)" and j0: "init_job E cfg nonces r records = Some j0"
    using assms(1) by (simp_all add: zone_start_def)
  note b = init_job_built(1) [OF j0 r]
  have "\<exists>i < n_shards_of cfg r. sp = spec_of E cfg nonces (zone_shards cfg r records) i"
    if "SendAssign w sp \<in> set log" for w sp
  proof -
    have "map_option en_spec (hm_get (j_ensembles j0) (sp_shard_id sp)) = Some sp"
      using inv that unfolding log_inv_def specs_of_def by blast
    then obtain e where e: "hm_get (j_ensembles j0) (sp_shard_id sp) = Some e" "sp = en_spec e"
      by blast
    have "sp_shard_id sp \<in> fst ` set (j_ensembles j0)" using hm_get_in [OF e(1)] by force
    then obtain i where i: "i < n_shards_of cfg r" "sp_shard_id sp = shard_id_of i"
      using built_keys(1) [OF b] by auto
    then obtain root where "hm_get (j_ensembles j0) (shard_id_of i) =
        Some (new_ensemble E cfg (shard_id_of i) (nonces i) root (zone_shards cfg r records ! i))"
      using b unfolding built_def by blast
    then show ?thesis using e i by (intro exI [of _ i]) (auto simp: spec_of_def new_ensemble_def)
  qed
  then show ?thesis using inv by (simp add: log_inv_def)
qed

lemma assignments_distinct_witness: "distinct (assignments (snd demo_end))"
  using assignments_distinct [OF demo_start demo_begins demo_run] by simp

text \<open>Every receipt pushed to a worker verifies under the controller's own key over the
  receipt digest, names that worker and this job, and certifies the pinned Merkle root of a
  shard of the zone.\<close>

lemma receipts_verify:
  assumes "zone_start E cfg nonces r records j0" "job_begins j0 s"
    and "(job_step E cfg)\<^sup>*\<^sup>* s (j, log)" "SendReceipt w rc \<in> set log"
    and "signer_ok E" "jc_authority cfg = keygen E l seed"
  shows "verify_worker_sig E (kp_pk (jc_authority cfg))
      (ctrl_receipt_digest E (rc_job_id rc) (rc_shard_id rc) (rc_worker_id rc) (rc_pi_hash rc)
        (rc_merkle_root rc) (rc_accepted_at_unix_ms rc)) (rc_ctrl_sig rc) \<and>
    rc_ctrl_authority_pk rc = kp_pk (jc_authority cfg) \<and> rc_worker_id rc = w \<and>
    rc_job_id rc = jc_job_id cfg \<and>
    hm_get (j_expected j0) (rc_shard_id rc) = Some (rc_merkle_root rc)"
proof -
  have inv: "receipt_good E cfg j w rc" "j_expected j = j_expected j0"
    using run_inv_reached [OF assms(1-3)] assms(4) by (auto simp: run_inv_def)
  then obtain rnd where rc: "rc = mk_receipt E rnd (jc_authority cfg) (jc_job_id cfg) (rc_shard_id rc) w
      (rc_pi_hash rc) (rc_merkle_root rc) (rc_accepted_at_unix_ms rc)"
    unfolding receipt_good_def by blast
  have "verify_worker_sig E (kp_pk (jc_authority cfg)) m (kp_sign E rnd (jc_authority cfg) m)" for m
    unfolding assms(6) by (rule keygen_sign_verify_worker_sig [OF assms(5)])
  then show ?thesis
    using inv unfolding receipt_good_def by (subst (1 2 3 4 5 6 7 8 9 10) rc) (simp add: mk_receipt_def)
qed

lemma receipts_verify_witness:
  "\<exists>rc. SendReceipt 1 rc \<in> set (snd demo_end) \<and> rc_worker_id rc = 1 \<and>
     verify_worker_sig toy_ext (kp_pk (jc_authority demo_cfg))
      (ctrl_receipt_digest toy_ext (rc_job_id rc) (rc_shard_id rc) (rc_worker_id rc) (rc_pi_hash rc)
        (rc_merkle_root rc) (rc_accepted_at_unix_ms rc)) (rc_ctrl_sig rc)"
proof -
  obtain rc where rc: "SendReceipt 1 rc \<in> set (snd demo_end)" using demo_receipt by blast
  have "jc_authority demo_cfg = keygen toy_ext L1 [1]" by (simp add: demo_cfg_def)
  from receipts_verify [OF demo_start demo_begins demo_run rc toy_signer this] rc show ?thesis by blast
qed

section \<open>Honest workers\<close>

text \<open>A worker that computes its result with \<open>handle_assign\<close> on the specification it was sent,
  and whose key is the one registered for it, passes validation while its replica is
  outstanding: it is recorded as a response, not blacklisted.\<close>

lemma honest_worker_recorded:
  assumes "zone_start E cfg nonces r records j0" "job_begins j0 s"
    and "(job_step E cfg)\<^sup>*\<^sup>* s (j, log)"
    and ens: "hm_get (j_ensembles j) sid = Some ens" and w: "w \<in> fst ` set (en_pending_workers ens)"
    and res: "handle_assign E S rnd a b kp (en_spec ens) = Some result" "kp = keygen E l seed"
    and ext: "signer_ok E" "sha3_len_ok E"
    and ws: "hm_get (ro_workers (ji_roster inp)) w = Some ws" "we_ml_dsa_pk ws = kp_pk kp"
  shows "shard_done E cfg inp w result j = record_response E cfg inp w (kp_pk kp) result ens j"
proof -
  have inv: "run_inv E cfg j0 (j, log)" by (rule run_inv_reached [OF assms(1-3)])
  then have core: "core_inv E cfg j" by (simp add: run_inv_def job_inv_def)
  note h = handle_assign_attests [OF res ext]
  obtain root where root: "hm_get (j_expected j) sid = Some root" using core ens unfolding core_inv_def by blast
  have spec: "map_option en_spec (hm_get (j_ensembles j0) sid) = Some (en_spec ens)" "sp_shard_id (en_spec ens) = sid"
    using inv ens unfolding run_inv_def log_inv_def specs_of_def by auto
  then obtain e0 where e0: "hm_get (j_ensembles j0) sid = Some e0" "en_spec e0 = en_spec ens" by blast
  have r: "hm_ok (ro_workers r)" and j0: "init_job E cfg nonces r records = Some j0"
    using assms(1) by (simp_all add: zone_start_def)
  note built = init_job_built(1) [OF j0 r]
  have "sid \<in> fst ` set (j_ensembles j0)" using hm_get_in [OF e0(1)] by force
  then obtain i where i: "i < n_shards_of cfg r" "sid = shard_id_of i" using built_keys(1) [OF built] by auto
  then obtain root' where "compute_merkle_root E (jc_salt cfg) (zone_shards cfg r records ! i) = Some root'"
    "hm_get (j_expected j0) sid = Some root'"
    "e0 = new_ensemble E cfg sid (nonces i) root' (zone_shards cfg r records ! i)"
    using built e0(1) unfolding built_def i(2) by (metis i(1) option.inject)
  then have "compute_merkle_root E (sp_zone_salt (en_spec e0)) (sp_records (en_spec e0)) = Some root'"
    "root' = root"
    using root inv by (simp_all add: new_ensemble_def run_inv_def)
  then have "compute_merkle_root E (sp_zone_salt (en_spec ens)) (sp_records (en_spec ens)) = Some root"
    by (simp only: e0(2))
  then have "sr_merkle_root result = root" using h(2) by simp
  then show ?thesis
    using ens w root h(1,3) spec(2) ws by (simp add: shard_done_def Let_def)
qed

lemma honest_worker_recorded_witness:
  "shard_done toy_ext demo_cfg demo_inp 1 demo_result (fst demo_begin) =
     record_response toy_ext demo_cfg demo_inp 1 (kp_pk demo_kp) demo_result (assign_to 1 5 demo_ens) (fst demo_begin)"
proof (rule honest_worker_recorded [OF demo_start demo_begins, of "fst demo_begin" "snd demo_begin"])
  show "(job_step toy_ext demo_cfg)\<^sup>*\<^sup>* demo_begin (fst demo_begin, snd demo_begin)" by simp
  show "handle_assign toy_ext toy_stark [] 0 0 demo_kp (en_spec (assign_to 1 5 demo_ens)) = Some demo_result"
    using demo_handled by (simp add: assign_to_def)
  show "hm_get (j_ensembles (fst demo_begin)) 1 = Some (assign_to 1 5 demo_ens)" by (rule demo_state)
  show "we_ml_dsa_pk demo_worker = kp_pk demo_kp"
    by (simp add: demo_state demo_kp_def keygen_def toy_ext_def toy_pk_len_def)
qed (simp_all add: demo_state toy_ok demo_kp_def assign_to_def)

end
