(* ===== verification/Bundle_Props.thy ===== *)
theory Bundle_Props
  imports Bundle_Verify Zone_Job_Props
begin

text \<open>
  What acceptance by the verifier means and what it does not: an honest job's bundle is
  accepted (completeness), acceptance implies the checks (soundness), the signed digest binds
  its fields, and which parts of a bundle the signature leaves open.
\<close>

section \<open>Writing and reading back\<close>

lemma fold_insert_get:
  assumes "x \<in> set xs" "inj_on f (set xs)"
  shows "hm_get (fold (\<lambda>x. hm_insert (f x) (g x)) xs m) (f x) = Some (g x)"
  using assms
proof (induction xs rule: rev_induct)
  case (snoc a xs)
  show ?case
  proof (cases "f x = f a")
    case True
    then have "x = a" using snoc.prems inj_onD [OF snoc.prems(2), of x a] by simp
    then show ?thesis by (simp add: update_conv')
  next
    case False
    then have "x \<in> set xs" using snoc.prems(1) by auto
    moreover have "inj_on f (set xs)" using snoc.prems(2) by (simp add: inj_on_insert)
    ultimately show ?thesis using snoc.IH False by (simp add: update_conv')
  qed
qed simp

lemma next_level_hashes: "x \<in> set (next_level E xs) \<Longrightarrow> \<exists>y. x = sha3_256 E y"
  by (induction E xs rule: next_level.induct) (auto simp: node_hash_def sha3_256_parts_def)

lemma tree_root_length:
  assumes "sha3_len_ok E" "\<forall>x \<in> set xs. length x = 32" "xs \<noteq> []"
  shows "length (tree_root E xs) = 32"
  using assms
proof (induction E xs rule: merkle_levels.induct)
  case (1 E xs)
  show ?case
  proof (cases "length xs > 1")
    case True
    have "\<forall>x \<in> set (next_level E xs). length x = 32"
      using next_level_hashes length_sha3 [OF "1.prems"(1)] by metis
    moreover have "next_level E xs \<noteq> []" using True by (simp flip: length_greater_0_conv)
    ultimately show ?thesis using "1.IH" [OF True "1.prems"(1)] tree_root_step [OF True, of E] by simp
  next
    case False
    then obtain x where "xs = [x]" using "1.prems"(3) by (cases xs) auto
    then show ?thesis using "1.prems"(2) by simp
  qed
qed

lemma compute_root_length:
  assumes "sha3_len_ok E" "compute_merkle_root E salt rs = Some root"
  shows "length root = 32"
proof -
  have "\<forall>x \<in> set (map (leaf_hash E salt) rs). length x = 32"
    using assms(1) by (auto simp: leaf_hash_def sha3_256_parts_def length_sha3)
  then show ?thesis
    using assms tree_root_length [OF assms(1)] by (auto simp: compute_merkle_root_eq split: if_splits)
qed

lemma next_pow2_less:
  assumes "x < 2 ^ 60"
  shows "next_pow2 x < 2 ^ 64"
proof -
  obtain m where m: "next_pow2 x = 2 ^ m" "m = 3 \<or> 2 ^ m < 2 * x" using next_pow2_spec by blast
  show ?thesis
  proof (cases "m = 3")
    case False
    then have "(2::nat) ^ m < 2 * 2 ^ 60" using m(2) assms by linarith
    also have "\<dots> < (2::nat) ^ 64" by simp
    finally show ?thesis using m(1) by simp
  qed (use m in simp)
qed

lemma unat_word64: "n < 2 ^ 64 \<Longrightarrow> unat (word_of_nat n :: u64) = n"
  by (simp add: unat_of_nat)

lemma handle_assign_verify_inner:
  assumes res: "handle_assign E S rnd a b kp spec = Some res"
    and ext: "sha3_len_ok E" "hex_ok E" "codec_ok S"
    and nonce: "length (sp_shard_nonce spec) = 32"
    and size: "length (sp_records spec) < 2 ^ 57" "length (sr_proof_blob res) < 2 ^ 64"
    and w: "iw_shard_id w = sp_shard_id spec" "iw_shard_nonce_hex w = hex_encode E (sp_shard_nonce spec)"
      "iw_pi_hash_hex w = hex_encode E (sr_pi_hash res)"
      "iw_merkle_root_hex w = hex_encode E (sr_merkle_root res)"
      "iw_record_count w = sr_record_count res" "iw_n_trace w = sr_n_trace res"
      "iw_proof_bytes_len w = sr_proof_bytes_len res" "rd (iw_proof_path w) = Some (sr_proof_blob res)"
    and atts: "iw_attestations w \<noteq> []" "length (iw_attestations w) \<le> replication"
      "\<And>at. at \<in> set (iw_attestations w) \<Longrightarrow> verify_attestation E (result_digest E res) at = Inr ()"
  shows "verify_inner E S rd (sp_zone_salt spec) (sp_authority_pk_hash spec) (sp_job_id spec)
           (sp_ldt spec) replication w = Inr ()"
proof -
  let ?fs = "shard_fs_binding E (sp_authority_pk_hash spec) (sp_job_id spec) (sp_shard_id spec) (sp_shard_nonce spec)"
  obtain out where out: "prove_inner_shard E S (sp_zone_salt spec) (sp_records spec) ?fs (sp_ldt spec) = Some out"
    and r: "sr_shard_id res = sp_shard_id spec" "sr_pi_hash res = is_pi_hash out"
      "sr_merkle_root res = is_merkle_root out" "sr_root_f0 res = is_root_f0 out"
      "sr_record_count res = word_of_nat (is_record_count out)" "sr_n_trace res = word_of_nat (is_n_trace out)"
      "sr_proof_bytes_len res = word_of_nat (length (is_proof_blob out))" "sr_proof_blob res = is_proof_blob out"
    using res by (auto simp: handle_assign_def Let_def split: option.splits)
  from prove_inner_shard_Some [OF out ext(1)] obtain pf params where
    p: "build_params (inner_n0_from_record_count (length (sp_records spec))) ?fs (sp_ldt spec) = Some params"
      "fri_verify S params pf" "is_proof_blob out = proof_ser S pf" "is_root_f0 out = root_f0_of S pf"
      "compute_merkle_root E (sp_zone_salt spec) (sp_records spec) = Some (is_merkle_root out)"
      "is_pi_hash out = inner_pi_hash E (sp_zone_salt spec) (length (sp_records spec)) (is_merkle_root out) (is_root_f0 out) ?fs"
      "is_record_count out = length (sp_records spec)"
      "is_n_trace out = next_pow2 (length (sp_records spec) * 4)"
      "inner_n0_from_record_count (length (sp_records spec)) = usize_mul (is_n_trace out) blowup"
    by metis
  have count: "unat (sr_record_count res) = length (sp_records spec)"
    using r p size(1) by (simp add: unat_word64)
  have "length (sp_records spec) * 4 < 2 ^ 60" using size(1) by simp
  then have trace: "usize_mul (unat (sr_n_trace res)) 32 = usize_mul (is_n_trace out) blowup"
    using r(6) next_pow2_less p(8) by (simp add: unat_word64 blowup_def)
  have len: "length (sr_pi_hash res) = 32" "length (sr_merkle_root res) = 32"
    using r p ext(1) compute_root_length [OF ext(1) p(5)]
    by (simp_all add: inner_pi_hash_def sha3_256_parts_def length_sha3)
  have deser: "proof_deser S (sr_proof_blob res) = Some pf"
    using r p ext(3) by (simp add: codec_ok_def)
  have atts': "\<forall>at \<in> set (iw_attestations w).
      verify_attestation E (worker_attestation_digest E (sp_shard_id spec) (sr_pi_hash res) (sr_merkle_root res) (root_f0_of S pf)) at = Inr ()"
    using atts(3) r p(4) by (simp add: result_digest_def)
  show ?thesis
    unfolding verify_inner_def w Let_def count
    using len nonce deser p r trace atts(1,2) atts' hex_round [OF ext(2)]
    by (simp add: numeral_eq_Suc [symmetric])
qed

section \<open>Completeness\<close>

text \<open>The results of a finished job are those of its shards, with distinct ids.\<close>

lemma done_result_set:
  assumes inv: "run_inv E cfg j0 (j, log)" and fin: "j_status j = Done"
    and start: "zone_start E cfg nonces r records j0"
  shows "length (j_results j) = n_shards_of cfg r"
    and "x \<in> set (map snd (j_results j)) \<Longrightarrow>
      \<exists>i < n_shards_of cfg r. hm_get (j_results j) (shard_id_of i) = Some x \<and> sr_shard_id x = shard_id_of i"
    and "inj_on sr_shard_id (set (map snd (j_results j)))"
proof -
  have r: "hm_ok (ro_workers r)" and j0: "init_job E cfg nonces r records = Some j0"
    using start by (simp_all add: zone_start_def)
  note b = init_job_built(1) [OF j0 r]
  have core: "core_inv E cfg j" and exp: "j_expected j = j_expected j0"
    using inv by (simp_all add: run_inv_def job_inv_def)
  have len: "length (j_results j) = j_total j" using inv fin by (simp add: run_inv_def job_inv_def)
  moreover have "length (j_expected j0) = n_shards_of cfg r"
    using b unfolding built_def by (metis length_map length_upt minus_nat.diff_0)
  ultimately show "length (j_results j) = n_shards_of cfg r"
    using core exp by (simp add: core_inv_def)
  have ok: "hm_ok (j_results j)" using core by (simp add: core_inv_def)
  have key: "hm_get (j_results j) (sr_shard_id x) = Some x \<and> sr_shard_id x \<in> fst ` set (j_expected j0)"
    if x: "x \<in> set (map snd (j_results j))" for x
  proof -
    obtain sid where "(sid, x) \<in> set (j_results j)" using x by auto
    then have get: "hm_get (j_results j) sid = Some x" using ok by simp
    then obtain root atts where "result_ok E cfg sid root x atts" "hm_get (j_expected j) sid = Some root"
      using core unfolding core_inv_def by blast
    then show ?thesis using get exp hm_get_in [of "j_expected j" sid root] by (force simp: result_ok_def)
  qed
  show "\<exists>i < n_shards_of cfg r. hm_get (j_results j) (shard_id_of i) = Some x \<and> sr_shard_id x = shard_id_of i"
    if x: "x \<in> set (map snd (j_results j))"
  proof -
    have "sr_shard_id x \<in> set (map shard_id_of [0..<n_shards_of cfg r])"
      using key [OF x] built_keys(2) [OF b] by simp
    then obtain i where i: "i < n_shards_of cfg r" "sr_shard_id x = shard_id_of i" by auto
    then show ?thesis using key [OF x] by metis
  qed
  show "inj_on sr_shard_id (set (map snd (j_results j)))"
    by (rule inj_onI) (metis key option.inject)
qed

lemma hex_list_attestations:
  assumes "hex_ok E" "\<forall>(w, pk, sig, ms) \<in> set atts. verify_worker_sig E pk dig sig"
    and "at \<in> set (map (\<lambda>(w, pk, sig, prove_ms).
          \<lparr>at_worker_id = w, at_worker_pk_hex = hex_encode E pk,
           at_worker_sig_hex = hex_encode E sig, at_prove_ms = prove_ms\<rparr>) atts)"
  shows "verify_attestation E dig at = Inr ()"
  using assms by (auto simp: verify_attestation_def hex_round)

lemma length_zip_sum_shards:
  assumes "i < n_shards_of cfg r"
  shows "length (zone_shards cfg r records ! i) \<le> length records"
proof -
  have "zone_shards cfg r records ! i \<in> set (zone_shards cfg r records)" using assms by (intro nth_mem) simp
  then have "length (zone_shards cfg r records ! i) \<le> length (concat (zone_shards cfg r records))"
    by (auto simp: length_concat intro: member_le_sum_list)
  then show ?thesis using concat_split_evenly [of "n_shards_of cfg r" records] assms by simp
qed

lemma honest_bundle_accepted:
  assumes start: "zone_start E cfg nonces r records j0" and run: "job_begins j0 s"
      "(job_step E cfg)\<^sup>*\<^sup>* s (j, log)" "j_status j = Done"
    and honest: "\<And>i. i < n_shards_of cfg r \<Longrightarrow> \<exists>res kp rnd a b.
      hm_get (j_results j) (shard_id_of i) = Some res \<and> length (sr_proof_blob res) < 2 ^ 64 \<and>
      handle_assign E S rnd a b kp (spec_of E cfg nonces (zone_shards cfg r records) i) = Some res"
    and ext: "sha3_len_ok E" "hex_ok E" "signer_ok E" "codec_ok S"
    and authority: "jc_authority cfg = keygen E level seed"
    and lens: "length (jc_salt cfg) = 16" "length (jc_job_id cfg) = 32" "\<And>i. length (nonces i) = 32"
      "length records < 2 ^ 57"
    and ds: "hex_opt E dnskey = Some dk" "hex_opt E ds_hash = Some dh"
      "dk = [] \<or> dh = [] \<or> length dh = 32 \<and> sha2_256 E dk = dh"
    and fin: "finalize_job E S cfg \<lparr>fi_level = level, fi_records = records, fi_n_shards = n_shards_of cfg r,
       fi_dnskey_pk_hex = dnskey, fi_parent_ds_hash_hex = ds_hash, fi_rnd = rnd\<rparr> j = Some (b, files)"
  shows "verify_bundle E S ed (hm_get files) b = Inr ()"
proof -
  have inv: "run_inv E cfg j0 (j, log)" by (rule run_inv_reached [OF start run(1,2)])
  note results = done_result_set [OF inv run(3) start]
  let ?rs = "map snd (j_results j)" let ?sorted = "sorted_results j"
  let ?pk = "kp_pk (jc_authority cfg)" let ?pkh = "pk_binding_hash E (kp_pk (jc_authority cfg))"
  have set_sorted: "set ?sorted = set ?rs" "length ?sorted = n_shards_of cfg r"
    using results(1) by (simp_all add: sorted_results_def)
  have handled: "\<exists>i kp rnd a b. i < n_shards_of cfg r \<and> sr_shard_id x = shard_id_of i \<and>
      hm_get (j_results j) (shard_id_of i) = Some x \<and> length (sr_proof_blob x) < 2 ^ 64 \<and>
      handle_assign E S rnd a b kp (spec_of E cfg nonces (zone_shards cfg r records) i) = Some x"
    if x: "x \<in> set ?rs" for x
  proof -
    obtain i where "i < n_shards_of cfg r" "hm_get (j_results j) (shard_id_of i) = Some x"
      "sr_shard_id x = shard_id_of i" using results(2) [OF x] by blast
    then show ?thesis using honest by fastforce
  qed
  have pi32: "\<forall>h \<in> set (map sr_pi_hash ?sorted). length h = 32"
  proof
    fix h assume "h \<in> set (map sr_pi_hash ?sorted)"
    then obtain x where "x \<in> set ?rs" "h = sr_pi_hash x" using set_sorted(1) by auto
    moreover from this handled obtain i kp rnd a b where
      "handle_assign E S rnd a b kp (spec_of E cfg nonces (zone_shards cfg r records) i) = Some x" by blast
    ultimately show "length h = 32"
      using ext(1) by (auto simp: handle_assign_def prove_inner_shard_def Let_def inner_pi_hash_def
          sha3_256_parts_def length_sha3 split: option.splits if_splits)
  qed
  define inner_files where "inner_files =
    fold (\<lambda>r. hm_insert (inner_proof_path (sr_shard_id r)) (sr_proof_blob r)) ?rs []"
  define paths where "paths =
    fold (\<lambda>r. hm_insert (sr_shard_id r) (inner_proof_path (sr_shard_id r))) ?rs []"
  obtain outer where outer: "prove_outer_rollup S (map sr_pi_hash ?sorted) ?pkh (jc_ldt cfg) = Some outer"
    using fin by (auto simp: finalize_job_def Let_def split: option.splits)
  from prove_outer_rollup_Some [OF outer pi32] obtain pf params where
    o: "build_params (outer_n0_from_pi_count (length ?sorted)) ?pkh (jc_ldt cfg) = Some params"
      "fri_verify S params pf" "or_proof_blob outer = proof_ser S pf" "or_root_f0 outer = root_f0_of S pf"
      "or_n0 outer = outer_n0_from_pi_count (length ?sorted)"
    by (metis length_map)
  have files: "files = hm_insert outer_proof_path (or_proof_blob outer) inner_files"
    and workers: "zb_inner_workers b = map (inner_record E j paths) ?sorted"
    using fin outer ds(1,2)
    by (auto simp: finalize_job_def Let_def inner_files_def paths_def split: if_splits)
  have inner: "verify_inner E S (hm_get files) (jc_salt cfg) ?pkh (jc_job_id cfg) (jc_ldt cfg) (replicas cfg)
      (inner_record E j paths x) = Inr ()" if x: "x \<in> set ?rs" for x
  proof -
    obtain i kp rnd' a b' where i: "i < n_shards_of cfg r" "sr_shard_id x = shard_id_of i"
      "hm_get (j_results j) (shard_id_of i) = Some x" "length (sr_proof_blob x) < 2 ^ 64"
      and ha: "handle_assign E S rnd' a b' kp (spec_of E cfg nonces (zone_shards cfg r records) i) = Some x"
      using handled [OF x] by blast
    let ?spec = "spec_of E cfg nonces (zone_shards cfg r records) i"
    have spec: "sp_shard_id ?spec = shard_id_of i" "sp_shard_nonce ?spec = nonces i"
      "sp_zone_salt ?spec = jc_salt cfg" "sp_authority_pk_hash ?spec = ?pkh" "sp_job_id ?spec = jc_job_id cfg"
      "sp_ldt ?spec = jc_ldt cfg" "sp_records ?spec = zone_shards cfg r records ! i"
      by (simp_all add: spec_of_def new_ensemble_def)
    obtain atts root where atts: "hm_get (j_attestations j) (shard_id_of i) = Some atts"
      "result_ok E cfg (shard_id_of i) root x atts"
      using done_results [OF inv run(3) start i(1)] i(3) by (metis option.inject)
    have r: "hm_ok (ro_workers r)" and j0: "init_job E cfg nonces r records = Some j0"
      using start by (simp_all add: zone_start_def)
    have nonce: "hm_get (j_nonces j) (shard_id_of i) = Some (nonces i)"
      using init_job_built(1) [OF j0 r] i(1) inv unfolding built_def run_inv_def by fastforce
    have path: "hm_get paths (sr_shard_id x) = Some (inner_proof_path (sr_shard_id x))"
      unfolding paths_def by (rule fold_insert_get [OF x results(3)])
    have "inj_on (\<lambda>r. inner_proof_path (sr_shard_id r)) (set ?rs)"
      using results(3) by (auto simp: inj_on_def)
    from fold_insert_get [OF x this] have "hm_get files (inner_proof_path (sr_shard_id x)) = Some (sr_proof_blob x)"
      by (simp add: files inner_files_def update_conv')
    then have blob: "hm_get files (iw_proof_path (inner_record E j paths x)) = Some (sr_proof_blob x)"
      using path by (simp add: inner_record_def)
    have "length records < 2 ^ 57" "length (zone_shards cfg r records ! i) \<le> length records"
      using lens(4) length_zip_sum_shards [OF i(1)] by simp_all
    then have size: "length (sp_records ?spec) < 2 ^ 57" unfolding spec by linarith
    have "verify_inner E S (hm_get files) (sp_zone_salt ?spec) (sp_authority_pk_hash ?spec) (sp_job_id ?spec)
        (sp_ldt ?spec) (replicas cfg) (inner_record E j paths x) = Inr ()"
    proof (rule handle_assign_verify_inner [OF ha ext(1,2,4) _ size i(4), where w = "inner_record E j paths x"
        and rd = "hm_get files"])
      show "hm_get files (iw_proof_path (inner_record E j paths x)) = Some (sr_proof_blob x)" by (rule blob)
      show "iw_attestations (inner_record E j paths x) \<noteq> []"
        "length (iw_attestations (inner_record E j paths x)) \<le> replicas cfg"
        using atts i(2) by (auto simp: inner_record_def result_ok_def)
      show "verify_attestation E (result_digest E x) at = Inr ()"
        if at: "at \<in> set (iw_attestations (inner_record E j paths x))" for at
        by (rule hex_list_attestations [OF ext(2), of atts])
          (use at atts i(2) in \<open>simp_all add: inner_record_def result_ok_def\<close>)
    qed (use spec i(2) lens(3) nonce in \<open>simp_all add: inner_record_def\<close>)
    then show ?thesis by (simp only: spec)
  qed
  let ?digest = "zone_digest E level (nist_byte level) (jc_salt cfg) (length records) (or_root_f0 outer) ?pkh dk dh"
  have b: "zb_bundle_format b = 2" "zb_nist_level b = nist_byte level" "zb_ldt b = ldt_label (jc_ldt cfg)"
    "zb_authority_pk_hex b = hex_encode E ?pk" "zb_authority_pk_hash_hex b = hex_encode E ?pkh"
    "zb_zone_salt_hex b = hex_encode E (jc_salt cfg)" "zb_job_id_hex b = hex_encode E (jc_job_id cfg)"
    "zb_shard_count b = n_shards_of cfg r" "zb_shard_replication b = replicas cfg"
    "zb_record_count b = length records" "zb_dnskey_pk_hex b = dnskey" "zb_parent_ds_hash_hex b = ds_hash"
    "zb_ds_ksk b = no_ds_ksk" "zb_zsk_ksk b = no_zsk_ksk"
    "zb_outer_proof_path b = outer_proof_path" "zb_outer_proof_bytes b = length (or_proof_blob outer)"
    "zb_outer_n0 b = or_n0 outer" "zb_outer_root_f0_hex b = hex_encode E (or_root_f0 outer)"
    "zb_zone_digest_hex b = hex_encode E ?digest"
    "zb_authority_sig_hex b = hex_encode E (kp_sign E rnd (jc_authority cfg) ?digest)"
    using fin outer ds(1,2) by (auto simp: finalize_job_def Let_def split: if_splits)
  have sorted: "length (sorted_workers b) = n_shards_of cfg r"
    "set (sorted_workers b) = inner_record E j paths ` set ?rs"
    using set_sorted workers by (simp_all add: sorted_workers_def)
  have sig: "verify_worker_sig E ?pk m (kp_sign E rnd (jc_authority cfg) m)" for m
    unfolding authority by (rule keygen_sign_verify_worker_sig [OF ext(3)])
  have pk32: "length ?pkh = 32" using ext(1) by (simp add: pk_binding_hash_def sha3_256_parts_def length_sha3)
  have outer_file: "hm_get files outer_proof_path = Some (or_proof_blob outer)" by (simp add: files update_conv')
  have "verify_outer E S (hm_get files) ?pkh (jc_ldt cfg) (n_shards_of cfg r) b k = k (or_root_f0 outer)" for k :: "bytes \<Rightarrow> verify_error + unit"
    using outer_file o ext(4) set_sorted(2) hex_round [OF ext(2)]
    by (simp add: verify_outer_def b need_def ensure_def decode_fixed_def codec_ok_def)
  moreover have "verify_ds_binding E S (hm_get files) ?pkh (jc_ldt cfg) dk dh no_ds_ksk = Inr ()"
    using ds(3) by (auto simp: verify_ds_binding_def no_ds_ksk_def)
  moreover have "verify_zsk_binding E S ed (hm_get files) ?pkh (jc_ldt cfg) no_zsk_ksk = Inr ()"
    by (simp add: verify_zsk_binding_def no_zsk_ksk_def)
  ultimately show ?thesis
    unfolding verify_bundle_def Let_def b sorted(1)
    using ds(1,2) lens(1,2) pk32 sorted(2) inner sig hex_round [OF ext(2)]
    by simp
qed

lemma finalize_defined:
  assumes "\<And>params p. fri_verify S params (stark_prove S p params)" "signer_ok E" "length (sorted_results j) \<le> 2 ^ 56"
    and "jc_authority cfg = keygen E level seed" "fi_dnskey_pk_hex inp = None" "fi_parent_ds_hash_hex inp = None"
  shows "\<exists>b files. finalize_job E S cfg inp j = Some (b, files)"
proof -
  obtain p where "build_params (usize_mul (next_pow2 (length (concat (map pack_hash_to_leaves
      (map sr_pi_hash (sorted_results j)))))) blowup) (pk_binding_hash E (kp_pk (jc_authority cfg)))
      (jc_ldt cfg) = Some p"
    using rollup_params_defined [of "map sr_pi_hash (sorted_results j)"] assms(3) by auto
  then obtain outer where "prove_outer_rollup S (map sr_pi_hash (sorted_results j))
      (pk_binding_hash E (kp_pk (jc_authority cfg))) (jc_ldt cfg) = Some outer"
    using assms(1) by (simp add: prove_outer_rollup_def Let_def)
  moreover have "kp_verify E (jc_authority cfg) m (kp_sign E rnd (jc_authority cfg) m)" for rnd m
    unfolding assms(4) by (rule keygen_sign_kp_verify [OF assms(2)])
  ultimately show ?thesis
    using assms(5,6) by (simp add: finalize_job_def hex_opt_def Let_def)
qed

lemma toy_blob:
  "handle_assign E toy_stark rnd a b kp spec = Some res \<Longrightarrow> length (sr_proof_blob res) = 1"
  by (auto simp: handle_assign_def prove_inner_shard_def toy_stark_def Let_def split: option.splits if_splits)

lemma demo_spec: "spec_of toy_ext demo_cfg demo_nonces [[demo_record]] 0 = en_spec demo_ens"
  by (simp add: spec_of_def demo_ens_def new_ensemble_def)

definition demo_fin :: finalize_inp where
  "demo_fin = \<lparr>fi_level = L1, fi_records = [demo_record],
     fi_n_shards = n_shards_of demo_cfg demo_roster, fi_dnskey_pk_hex = None,
     fi_parent_ds_hash_hex = None, fi_rnd = []\<rparr>"

definition demo_output :: "zone_bundle \<times> (string, bytes) hashmap" where
  "demo_output = the (finalize_job toy_ext toy_stark demo_cfg demo_fin (fst demo_end))"

abbreviation demo_bundle :: zone_bundle where "demo_bundle \<equiv> fst demo_output"
abbreviation demo_files :: "string \<Rightarrow> bytes option" where "demo_files \<equiv> hm_get (snd demo_output)"
abbreviation demo_ed :: ed25519 where "demo_ed \<equiv> \<lambda>_ _ _. True"

lemma demo_job_id: "jc_job_id demo_cfg = replicate 32 3"
  by (simp add: demo_cfg_def)

lemma demo_authority: "jc_authority demo_cfg = keygen toy_ext L1 [1]"
  by (simp add: demo_cfg_def)

lemma demo_sorted: "length (sorted_results (fst demo_end)) = 1"
proof -
  have "run_inv toy_ext demo_cfg demo_j0 (fst demo_end, snd demo_end)"
    by (rule run_inv_reached [OF demo_start demo_begins demo_run])
  from done_result_set(1) [OF this demo_done demo_start] show ?thesis by (simp add: sorted_results_def demo_shards)
qed

lemma demo_finalized:
  "finalize_job toy_ext toy_stark demo_cfg demo_fin (fst demo_end) = Some (demo_bundle, snd demo_output)"
proof -
  have "fri_verify toy_stark params (stark_prove toy_stark p params)" for params p
    by (simp add: toy_stark_def)
  from finalize_defined [OF this toy_signer _ demo_authority, of "fst demo_end" demo_fin] show ?thesis
    by (auto simp: demo_output_def demo_fin_def demo_sorted)
qed

lemma demo_honest:
  assumes "i < n_shards_of demo_cfg demo_roster"
  shows "\<exists>res kp rnd a b. hm_get (j_results (fst demo_end)) (shard_id_of i) = Some res \<and>
    length (sr_proof_blob res) < 2 ^ 64 \<and>
    handle_assign toy_ext toy_stark rnd a b kp
      (spec_of toy_ext demo_cfg demo_nonces (zone_shards demo_cfg demo_roster [demo_record]) i) = Some res"
proof (intro exI conjI)
  have "i = 0" using assms by (simp add: demo_shards)
  then show "hm_get (j_results (fst demo_end)) (shard_id_of i) = Some demo_result"
    using demo_finished by simp
  show "length (sr_proof_blob demo_result) < 2 ^ 64" using toy_blob [OF demo_handled] by simp
  show "handle_assign toy_ext toy_stark [] 0 0 demo_kp
      (spec_of toy_ext demo_cfg demo_nonces (zone_shards demo_cfg demo_roster [demo_record]) i) = Some demo_result"
    using \<open>i = 0\<close> demo_handled by (simp only: demo_shards demo_spec)
qed

lemma demo_lens: "length (jc_salt demo_cfg) = 16" "length (jc_job_id demo_cfg) = 32"
  "length (demo_nonces i) = 32" "length [demo_record] < 2 ^ 57"
  by (simp_all add: demo_cfg_def demo_nonces_def)

lemma demo_accepted: "verify_bundle toy_ext toy_stark demo_ed demo_files demo_bundle = Inr ()"
  by (rule honest_bundle_accepted [OF demo_start demo_begins demo_run demo_done demo_honest toy_ok
        demo_authority demo_lens _ _ _ demo_finalized [unfolded demo_fin_def], where dk = "[]" and dh = "[]"])
    (simp_all add: hex_opt_def)

lemma finalize_worker_count:
  "finalize_job E S cfg inp j = Some (b, files) \<Longrightarrow> length (zb_inner_workers b) = length (sorted_results j)"
  by (auto simp: finalize_job_def Let_def split: option.splits if_splits)

lemma finalize_fields:
  assumes "finalize_job E S cfg inp j = Some (b, files)"
  shows "map iw_shard_id (zb_inner_workers b) = map sr_shard_id (sorted_results j)"
    and "zb_record_count b = length (fi_records inp)" "zb_job_id_hex b = hex_encode E (jc_job_id cfg)"
  using assms by (auto simp: finalize_job_def inner_record_def Let_def split: option.splits if_splits)

lemma demo_workers: "\<exists>w. zb_inner_workers demo_bundle = [w]"
proof -
  have "length (zb_inner_workers demo_bundle) = 1"
    using finalize_worker_count [OF demo_finalized] demo_sorted by simp
  then show ?thesis by (simp add: length_Suc_conv)
qed

text \<open>C3: End-to-end completeness: when the job is done and every recorded result is what
  \<open>handle_assign\<close> of some worker computes for that shard's specification, the bundle and proof
  files the controller writes are accepted by the verifier: every shard, the outer rollup,
  the zone digest and signature, and the DS binding when the configured DNSKEY hashes to
  the configured DS.\<close>

theorem honest_bundle_verifies:
  assumes start: "zone_start E cfg nonces r records j0" and run: "job_begins j0 s"
      "(job_step E cfg)\<^sup>*\<^sup>* s (j, log)" "j_status j = Done"
    and honest: "\<And>i. i < n_shards_of cfg r \<Longrightarrow> \<exists>res kp rnd a b.
      hm_get (j_results j) (shard_id_of i) = Some res \<and> length (sr_proof_blob res) < 2 ^ 64 \<and>
      handle_assign E S rnd a b kp (spec_of E cfg nonces (zone_shards cfg r records) i) = Some res"
    and ext: "sha3_len_ok E" "hex_ok E" "signer_ok E" "codec_ok S"
    and authority: "jc_authority cfg = keygen E level seed"
    and lens: "length (jc_salt cfg) = 16" "length (jc_job_id cfg) = 32" "\<And>i. length (nonces i) = 32"
      "length records < 2 ^ 57"
    and ds: "hex_opt E dnskey = Some dk" "hex_opt E ds_hash = Some dh"
      "dk = [] \<or> dh = [] \<or> length dh = 32 \<and> sha2_256 E dk = dh"
    and fin: "finalize_job E S cfg \<lparr>fi_level = level, fi_records = records, fi_n_shards = n_shards_of cfg r,
       fi_dnskey_pk_hex = dnskey, fi_parent_ds_hash_hex = ds_hash, fi_rnd = rnd\<rparr> j = Some (b, files)"
  shows "verify_bundle E S ed (hm_get files) b = Inr ()"
  by (rule honest_bundle_accepted [OF start run honest ext authority lens ds fin])

lemma honest_bundle_verifies_witness:
  "\<exists>b files. finalize_job toy_ext toy_stark demo_cfg demo_fin (fst demo_end) = Some (b, files) \<and>
     verify_bundle toy_ext toy_stark demo_ed (hm_get files) b = Inr ()"
proof (intro exI conjI)
  show "finalize_job toy_ext toy_stark demo_cfg demo_fin (fst demo_end) = Some (demo_bundle, snd demo_output)"
    by (rule demo_finalized)
  show "verify_bundle toy_ext toy_stark demo_ed (hm_get (snd demo_output)) demo_bundle = Inr ()"
    by (rule honest_bundle_verifies [OF demo_start demo_begins demo_run demo_done demo_honest toy_ok
          demo_authority demo_lens _ _ _ demo_finalized [unfolded demo_fin_def], where dk = "[]" and dh = "[]"])
      (simp_all add: hex_opt_def)
qed

section \<open>Soundness\<close>

text \<open>C4: Soundness of acceptance for the inner shards: every shard record of an accepted bundle
  has a proof file that verifies under the parameters derived from its record count (with the
  wrap-around of \<open>inner_n0_from_record_count\<close>, so 2^62 records have the domain of none) and from
  the binding of (authority key, job, shard id, nonce), a \<open>pi_hash\<close> that is the commitment to
  salt, count, Merkle root, FRI root and that binding, and between one and k attestations whose
  signatures all verify over exactly these values.\<close>

theorem verify_bundle_inner_sound:
  assumes acc: "verify_bundle E S ed rd b = Inr ()" and w: "w \<in> set (zb_inner_workers b)"
  shows "\<exists>salt pkh job ldt pi mroot nonce file pf params.
    hex_decode E (zb_zone_salt_hex b) = Some salt \<and> hex_decode E (zb_authority_pk_hash_hex b) = Some pkh \<and>
    hex_decode E (zb_job_id_hex b) = Some job \<and> parse_ldt (zb_ldt b) = Some ldt \<and>
    hex_decode E (iw_pi_hash_hex w) = Some pi \<and> hex_decode E (iw_merkle_root_hex w) = Some mroot \<and>
    hex_decode E (iw_shard_nonce_hex w) = Some nonce \<and>
    rd (iw_proof_path w) = Some file \<and> proof_deser S file = Some pf \<and>
    build_params (inner_n0_from_record_count (unat (iw_record_count w)))
      (shard_fs_binding E pkh job (iw_shard_id w) nonce) ldt = Some params \<and> fri_verify S params pf \<and>
    pi = inner_pi_hash E salt (unat (iw_record_count w)) mroot (root_f0_of S pf)
           (shard_fs_binding E pkh job (iw_shard_id w) nonce) \<and>
    1 \<le> length (iw_attestations w) \<and> length (iw_attestations w) \<le> zb_shard_replication b \<and>
    (\<forall>a \<in> set (iw_attestations w). \<exists>pk sig. hex_decode E (at_worker_pk_hex a) = Some pk \<and>
       hex_decode E (at_worker_sig_hex a) = Some sig \<and>
       verify_worker_sig E pk (worker_attestation_digest E (iw_shard_id w) pi mroot (root_f0_of S pf)) sig)"
proof -
  obtain salt pkh job ldt where
    d: "hex_decode E (zb_zone_salt_hex b) = Some salt" "hex_decode E (zb_authority_pk_hash_hex b) = Some pkh"
      "hex_decode E (zb_job_id_hex b) = Some job" "parse_ldt (zb_ldt b) = Some ldt"
    and inner: "\<forall>w \<in> set (sorted_workers b).
      verify_inner E S rd salt pkh job ldt (zb_shard_replication b) w = Inr ()"
    using acc by (auto simp: verify_bundle_def Let_def)
  have "verify_inner E S rd salt pkh job ldt (zb_shard_replication b) w = Inr ()"
    using inner w by (simp add: sorted_workers_def)
  then show ?thesis
    using d unfolding verify_inner_def Let_def verify_attestation_def
    by (auto simp: Suc_le_eq)
qed

lemma verify_bundle_inner_sound_witness:
  "\<exists>w file pf params. w \<in> set (zb_inner_workers demo_bundle) \<and> demo_files (iw_proof_path w) = Some file \<and>
     proof_deser toy_stark file = Some pf \<and> fri_verify toy_stark params pf"
proof -
  obtain w where w: "w \<in> set (zb_inner_workers demo_bundle)" using demo_workers by auto
  from verify_bundle_inner_sound [OF demo_accepted w] show ?thesis using w by blast
qed

section \<open>What the signature does not cover\<close>

lemma verify_bundle_swap:
  assumes acc: "verify_bundle E S ed rd b = Inr ()"
    and d: "hex_decode E (zb_zone_salt_hex b) = Some salt" "hex_decode E (zb_authority_pk_hash_hex b) = Some pkh"
      "parse_ldt (zb_ldt b) = Some ldt"
    and job: "hex_decode E job_hex = Some job" "length job = 32"
    and ws: "length ws = length (zb_inner_workers b)"
      "\<forall>w \<in> set ws. verify_inner E S rd salt pkh job ldt k w = Inr ()"
  shows "verify_bundle E S ed rd
    (b\<lparr>zb_inner_workers := ws, zb_job_id_hex := job_hex, zb_shard_replication := k\<rparr>) = Inr ()"
  using acc d job ws
  by (auto simp: verify_bundle_def Let_def verify_outer_def sorted_workers_def)

text \<open>The signed digest does not cover the list of shards: in an accepted bundle the shard
  records may be replaced by any list of the same length drawn from them, repetitions
  included, and the bundle is still accepted.  So one shard repeated can stand for the zone.\<close>

lemma shard_list_not_bound:
  assumes acc: "verify_bundle E S ed rd b = Inr ()"
    and ws: "set ws \<subseteq> set (zb_inner_workers b)" "length ws = length (zb_inner_workers b)"
  shows "verify_bundle E S ed rd (b\<lparr>zb_inner_workers := ws\<rparr>) = Inr ()"
proof -
  obtain salt pkh job ldt where
    "hex_decode E (zb_zone_salt_hex b) = Some salt" "hex_decode E (zb_authority_pk_hash_hex b) = Some pkh"
    "parse_ldt (zb_ldt b) = Some ldt" "hex_decode E (zb_job_id_hex b) = Some job" "length job = 32"
    "\<forall>w \<in> set (sorted_workers b). verify_inner E S rd salt pkh job ldt (zb_shard_replication b) w = Inr ()"
    using acc by (auto simp: verify_bundle_def Let_def)
  then have "verify_bundle E S ed rd (b\<lparr>zb_inner_workers := ws, zb_job_id_hex := zb_job_id_hex b,
      zb_shard_replication := zb_shard_replication b\<rparr>) = Inr ()"
    using ws by (intro verify_bundle_swap [OF acc]) (auto simp: sorted_workers_def)
  then show ?thesis by simp
qed

lemma shard_list_not_bound_witness:
  "\<exists>w. verify_bundle toy_ext toy_stark demo_ed demo_files (demo_bundle\<lparr>zb_inner_workers := [w]\<rparr>) = Inr ()"
proof -
  obtain w where w: "zb_inner_workers demo_bundle = [w]" using demo_workers by auto
  show ?thesis by (intro exI [of _ w] shard_list_not_bound [OF demo_accepted]) (simp_all add: w)
qed

text \<open>C30: The signed digest does not cover the job either: if two bundles of one authority over
  the same salt, LDT mode and number of shards are accepted, then so is the first with the
  second's shard records, job id and replication factor.\<close>

theorem inner_outer_splice:
  assumes "verify_bundle E S ed rd b1 = Inr ()" "verify_bundle E S ed rd b2 = Inr ()"
    and "zb_authority_pk_hash_hex b1 = zb_authority_pk_hash_hex b2" "zb_zone_salt_hex b1 = zb_zone_salt_hex b2"
      "zb_ldt b1 = zb_ldt b2" "zb_shard_count b1 = zb_shard_count b2"
  shows "verify_bundle E S ed rd (b1\<lparr>zb_inner_workers := zb_inner_workers b2,
    zb_job_id_hex := zb_job_id_hex b2, zb_shard_replication := zb_shard_replication b2\<rparr>) = Inr ()"
proof -
  obtain salt pkh job ldt where
    "hex_decode E (zb_zone_salt_hex b2) = Some salt" "hex_decode E (zb_authority_pk_hash_hex b2) = Some pkh"
    "parse_ldt (zb_ldt b2) = Some ldt" "hex_decode E (zb_job_id_hex b2) = Some job" "length job = 32"
    "\<forall>w \<in> set (sorted_workers b2). verify_inner E S rd salt pkh job ldt (zb_shard_replication b2) w = Inr ()"
    "length (sorted_workers b2) = zb_shard_count b2"
    using assms(2) by (auto simp: verify_bundle_def Let_def)
  moreover have "length (sorted_workers b1) = zb_shard_count b1"
    using assms(1) by (auto simp: verify_bundle_def Let_def)
  ultimately show ?thesis
    using assms(3-6) by (intro verify_bundle_swap [OF assms(1)]) (auto simp: sorted_workers_def)
qed

text \<open>A second bundle of the demonstration authority over the same salt: another job, shard id and nonce,
  other replication factor and record count.\<close>

lemma pad32_prefix: "32 \<le> length p \<Longrightarrow> pad32 (p @ x) = take 32 p"
  by (simp add: pad32_def)

lemma toy_digests:
  assumes "length salt = 16"
  shows "inner_pi_hash toy_ext salt c m r fs = inner_pi_hash toy_ext salt c m r fs'"
    and "zone_digest toy_ext l n salt c root pkh dk dh = zone_digest toy_ext l n salt c' root pkh dk dh"
    and "verify_worker_sig toy_ext pk (worker_attestation_digest toy_ext i pi m r) sig =
      verify_worker_sig toy_ext pk (worker_attestation_digest toy_ext i' pi m r) sig"
proof -
  have "inner_pi_hash toy_ext salt c m r fs = take 32 (ascii ''DNS-SHARD-PIHASH-V1'' @ salt)" for fs
    using assms pad32_prefix [of "ascii ''DNS-SHARD-PIHASH-V1'' @ salt"]
    by (simp add: inner_pi_hash_def sha3_256_parts_def toy_ext_def)
  then show "inner_pi_hash toy_ext salt c m r fs = inner_pi_hash toy_ext salt c m r fs'" by metis
  have "zone_digest toy_ext l n salt c root pkh dk dh = take 32 (ascii ''DNS-ZONE-AUTHORITY-V1'' @ n # salt)" for c
    using assms pad32_prefix [of "ascii ''DNS-ZONE-AUTHORITY-V1'' @ n # salt"]
    by (cases l) (simp_all add: zone_digest_def toy_ext_def)
  then show "zone_digest toy_ext l n salt c root pkh dk dh = zone_digest toy_ext l n salt c' root pkh dk dh" by metis
  have "take 4 (pad32 (worker_attestation_digest toy_ext i pi m r)) = ascii ''DNS-''" for i
    by (simp add: worker_attestation_digest_def sha3_256_parts_def toy_ext_def pad32_def ascii_def)
  then show "verify_worker_sig toy_ext pk (worker_attestation_digest toy_ext i pi m r) sig =
      verify_worker_sig toy_ext pk (worker_attestation_digest toy_ext i' pi m r) sig"
    by (simp add: verify_worker_sig_def verify_with_def toy_ext_def)
qed

lemma toy_inner_variant:
  assumes v: "verify_inner toy_ext toy_stark rd salt pkh job ldt k w = Inr ()"
    and l: "length salt = 16" "k \<le> k'" "length nonce = 32"
  shows "verify_inner toy_ext toy_stark rd salt pkh job' ldt k'
    (w\<lparr>iw_shard_id := sid, iw_shard_nonce_hex := hex_encode toy_ext nonce\<rparr>) = Inr ()"
proof -
  define fs where "fs = shard_fs_binding toy_ext pkh job (iw_shard_id w)"
  define fs' where "fs' = shard_fs_binding toy_ext pkh job' sid nonce"
  obtain pi mroot nonce' bs pf params where
    d: "hex_decode toy_ext (iw_pi_hash_hex w) = Some pi" "length pi = 32"
      "hex_decode toy_ext (iw_merkle_root_hex w) = Some mroot" "length mroot = 32"
      "rd (iw_proof_path w) = Some bs" "word_of_nat (length bs) = iw_proof_bytes_len w"
      "proof_deser toy_stark bs = Some pf"
      "inner_pi_hash toy_ext salt (unat (iw_record_count w)) mroot (root_f0_of toy_stark pf) (fs nonce') = pi"
      "inner_n0_from_record_count (unat (iw_record_count w)) = usize_mul (unat (iw_n_trace w)) 32"
      "build_params (inner_n0_from_record_count (unat (iw_record_count w))) (fs nonce') ldt = Some params"
      "fri_verify toy_stark params pf" "iw_attestations w \<noteq> []" "length (iw_attestations w) \<le> k"
      "\<forall>a \<in> set (iw_attestations w). verify_attestation toy_ext (worker_attestation_digest toy_ext (iw_shard_id w) pi mroot (root_f0_of toy_stark pf)) a = Inr ()"
    using v unfolding verify_inner_def Let_def fs_def by auto
  obtain params' where p': "build_params (inner_n0_from_record_count (unat (iw_record_count w))) fs' ldt = Some params'"
    using d(10) by (auto simp: build_params_def)
  have f': "fri_verify toy_stark params' pf" using d(11) by (simp add: toy_stark_def)
  have pi': "inner_pi_hash toy_ext salt (unat (iw_record_count w)) mroot (root_f0_of toy_stark pf) fs' = pi"
    using d(8) toy_digests(1) [OF l(1)] by metis
  have a': "\<forall>a \<in> set (iw_attestations w). verify_attestation toy_ext (worker_attestation_digest toy_ext sid pi mroot (root_f0_of toy_stark pf)) a = Inr ()"
    using d(14) toy_digests(3) [OF l(1)] by (simp add: verify_attestation_def) metis
  show ?thesis
    unfolding verify_inner_def Let_def
    using d p' f' pi' a' l(2,3) hex_round [OF toy_hex] by (simp flip: fs'_def)
qed

definition demo_bundle2 :: zone_bundle where
  "demo_bundle2 = demo_bundle\<lparr>zb_record_count := 9,
     zb_inner_workers := map (\<lambda>w. w\<lparr>iw_shard_id := 7, iw_shard_nonce_hex := hex_encode toy_ext (replicate 32 4)\<rparr>) (zb_inner_workers demo_bundle),
     zb_job_id_hex := hex_encode toy_ext (replicate 32 2), zb_shard_replication := zb_shard_replication demo_bundle + 2\<rparr>"

lemma demo_accepted2: "verify_bundle toy_ext toy_stark demo_ed demo_files demo_bundle2 = Inr ()"
proof -
  let ?b = "demo_bundle\<lparr>zb_record_count := 9\<rparr>"
  have salt: "\<exists>salt. hex_decode toy_ext (zb_zone_salt_hex demo_bundle) = Some salt \<and> length salt = 16"
    using demo_accepted by (auto simp: verify_bundle_def)
  have "verify_bundle toy_ext toy_stark demo_ed demo_files ?b = Inr ()"
    using demo_accepted salt toy_digests(2) [where c = 9 and c' = "zb_record_count demo_bundle"]
    by (auto simp: verify_bundle_def Let_def verify_outer_def sorted_workers_def)
  moreover obtain salt pkh job ldt where
    "hex_decode toy_ext (zb_zone_salt_hex ?b) = Some salt" "hex_decode toy_ext (zb_authority_pk_hash_hex ?b) = Some pkh"
    "parse_ldt (zb_ldt ?b) = Some ldt" "length salt = 16"
    "\<forall>w \<in> set (sorted_workers demo_bundle).
      verify_inner toy_ext toy_stark demo_files salt pkh job ldt (zb_shard_replication demo_bundle) w = Inr ()"
    using demo_accepted by (auto simp: verify_bundle_def Let_def)
  moreover from this have "verify_inner toy_ext toy_stark demo_files salt pkh (replicate 32 2) ldt (zb_shard_replication demo_bundle + 2) w = Inr ()"
    if "w \<in> set (zb_inner_workers demo_bundle2)" for w
    using that toy_inner_variant [where k = "zb_shard_replication demo_bundle"]
    by (auto simp: demo_bundle2_def sorted_workers_def)
  ultimately show ?thesis
    using verify_bundle_swap [of toy_ext toy_stark demo_ed demo_files ?b salt pkh ldt "hex_encode toy_ext (replicate 32 2)"
        "replicate 32 2" "zb_inner_workers demo_bundle2" "zb_shard_replication demo_bundle + 2"] hex_round [OF toy_hex]
    by (simp add: demo_bundle2_def)
qed

lemma inner_outer_splice_witness:
  "\<exists>b. verify_bundle toy_ext toy_stark demo_ed demo_files b = Inr () \<and>
     zb_record_count b = zb_record_count demo_bundle \<and> zb_record_count b \<noteq> zb_record_count demo_bundle2 \<and>
     zb_inner_workers b = zb_inner_workers demo_bundle2 \<and> map iw_shard_id (zb_inner_workers b) \<noteq> map iw_shard_id (zb_inner_workers demo_bundle) \<and>
     zb_job_id_hex b = zb_job_id_hex demo_bundle2 \<and> zb_job_id_hex b \<noteq> zb_job_id_hex demo_bundle"
proof -
  obtain w where w: "zb_inner_workers demo_bundle = [w]" using demo_workers by auto
  have f: "zb_record_count demo_bundle = 1" "zb_job_id_hex demo_bundle = hex_encode toy_ext (jc_job_id demo_cfg)"
    "map iw_shard_id (zb_inner_workers demo_bundle) = map sr_shard_id (sorted_results (fst demo_end))"
    using finalize_fields [OF demo_finalized] by (simp_all add: demo_fin_def)
  have r: "set (sorted_results (fst demo_end)) = set (map snd (j_results (fst demo_end)))" by (simp add: sorted_results_def)
  have "\<forall>x \<in> set (sorted_results (fst demo_end)). sr_shard_id x = 1"
  proof
    fix x assume "x \<in> set (sorted_results (fst demo_end))"
    then have x: "x \<in> set (map snd (j_results (fst demo_end)))" by (simp only: r)
    have "run_inv toy_ext demo_cfg demo_j0 (fst demo_end, snd demo_end)"
      by (rule run_inv_reached [OF demo_start demo_begins demo_run])
    from done_result_set(2) [OF this demo_done demo_start x] show "sr_shard_id x = 1" by (simp add: demo_shards)
  qed
  then have ids: "map iw_shard_id (zb_inner_workers demo_bundle) = [1]"
    using f(3) w by (cases "sorted_results (fst demo_end)") auto
  have inj: "hex_encode toy_ext (replicate 32 2) \<noteq> hex_encode toy_ext (jc_job_id demo_cfg)"
    using hex_round [OF toy_hex, of "replicate 32 2"] hex_round [OF toy_hex, of "jc_job_id demo_cfg"]
    unfolding demo_job_id by force
  show ?thesis
    by (rule exI, rule conjI, rule inner_outer_splice [OF demo_accepted demo_accepted2])
      (use ids inj in \<open>simp_all add: demo_bundle2_def f w\<close>)
qed

section \<open>The zone digest\<close>

fun level_fn :: "ext \<Rightarrow> nist_level \<Rightarrow> bytes \<Rightarrow> bytes" where
  "level_fn E L1 = sha3_256 E"
| "level_fn E L3 = sha3_384 E"
| "level_fn E L5 = sha3_512 E"

lemma level_hash_fn: "level_hash E l parts = level_fn E l (concat parts)"
  by (cases l) simp_all

text \<open>The string the zone digest hashes.\<close>

definition zone_input :: "byte \<Rightarrow> bytes \<Rightarrow> nat \<Rightarrow> bytes \<Rightarrow> bytes \<Rightarrow> bytes \<Rightarrow> bytes \<Rightarrow> bytes" where
  "zone_input n s c root pkh dk dh =
     ascii ''DNS-ZONE-AUTHORITY-V1'' @ [n] @ s @ le64 (word_of_nat c) @ root @ pkh @
     ascii ''DS-BIND-V1'' @ le32 (word_of_nat (length dk)) @ dk @ le32 (word_of_nat (length dh)) @ dh"

text \<open>The digest the authority signs binds the level byte, the salt, the record count, the
  outer FRI root, the key hash, the DNSKEY and the DS hash: if two digests of one level agree,
  these fields agree or the two signed strings are a collision of the level's hash.\<close>

lemma zone_digest_binding:
  assumes "zone_digest E l n s c root pkh dk dh = zone_digest E l n' s' c' root' pkh' dk' dh'"
    and "length s = 16" "length s' = 16" "c < 2 ^ 64" "c' < 2 ^ 64" "length root = 32" "length root' = 32"
      "length pkh = 32" "length pkh' = 32" "length dk < 2 ^ 32" "length dk' < 2 ^ 32"
    and "(n, s, c, root, pkh, dk, dh) \<noteq> (n', s', c', root', pkh', dk', dh')"
  shows "collision (level_fn E l) (zone_input n s c root pkh dk dh) (zone_input n' s' c' root' pkh' dk' dh')"
proof -
  have c: "(word_of_nat c :: u64) = word_of_nat c' \<longleftrightarrow> c = c'"
    using assms(4,5) by (auto dest!: arg_cong [of _ _ unat] simp: unat_of_nat)
  have dk: "(word_of_nat (length dk) :: u32) = word_of_nat (length dk') \<Longrightarrow> length dk = length dk'"
    using assms(10,11) word_of_nat_eq_u32 by blast
  have "zone_input n s c root pkh dk dh \<noteq> zone_input n' s' c' root' pkh' dk' dh'"
    using assms(2,3,6-9,12) c dk by (auto simp: zone_input_def)
  moreover have "level_fn E l (zone_input n s c root pkh dk dh) =
      level_fn E l (zone_input n' s' c' root' pkh' dk' dh')"
    using assms(1) unfolding zone_digest_def level_hash_fn
    by (simp only: zone_input_def concat.simps append_Nil2)
  ultimately show ?thesis by (rule collisionI [rotated])
qed

lemma zone_digest_binding_witness:
  "collision (level_fn toy_ext L1) (zone_input 1 (replicate 16 0) 1 (replicate 32 0) (replicate 32 0) [] [])
     (zone_input 1 (replicate 16 0) 2 (replicate 32 0) (replicate 32 0) [] [])"
proof (rule zone_digest_binding)
  have "pad32 (ascii ''DNS-ZONE-AUTHORITY-V1'' @ [1] @ replicate 16 0 @ x) =
      pad32 (ascii ''DNS-ZONE-AUTHORITY-V1'' @ [1] @ replicate 16 0 @ y)" for x y
    by (simp add: pad32_def ascii_def)
  then show "zone_digest toy_ext L1 1 (replicate 16 0) 1 (replicate 32 0) (replicate 32 0) [] [] =
      zone_digest toy_ext L1 1 (replicate 16 0) 2 (replicate 32 0) (replicate 32 0) [] []"
    by (simp add: zone_digest_def toy_ext_def)
qed simp_all

section \<open>Audits\<close>

lemma bundle_index_get:
  assumes "distinct (map iw_shard_id ws)" "w \<in> set ws"
  shows "hm_get (bundle_index E ws) (iw_shard_id w) = Some (decode_fixed_or_zero E 32 (iw_pi_hash_hex w))"
  unfolding bundle_index_def using assms by (intro fold_insert_get) (simp_all add: distinct_map)

lemma bundle_index_keys: "fst ` set (bundle_index E ws) = iw_shard_id ` set ws"
proof -
  have "fst ` set (fold (\<lambda>w. hm_insert (iw_shard_id w) (g w)) ws m) = iw_shard_id ` set ws \<union> fst ` set m"
    for g :: "inner_worker \<Rightarrow> bytes" and m
    by (induction ws arbitrary: m) auto
  then show ?thesis by (simp add: bundle_index_def)
qed

text \<open>The receipt audit passes exactly when every receipt of this job that carries the
  bundle's authority key and a valid signature certifies the \<open>pi_hash\<close> that the bundle lists for
  its shard; a receipt for a shard the bundle does not list, or for another \<open>pi_hash\<close>, fails it.\<close>

lemma audit_receipts_iff:
  assumes "distinct (map iw_shard_id ws)"
  shows "audit_receipts E (Some receipts) job pk ws = Inr () \<longleftrightarrow>
    (\<forall>rc \<in> set receipts. rc_job_id rc = job \<and> rc_ctrl_authority_pk rc = pk \<and>
       verify_worker_sig E pk (receipt_digest_of E rc) (rc_ctrl_sig rc) \<longrightarrow>
       (\<exists>w \<in> set ws. iw_shard_id w = rc_shard_id rc \<and>
          decode_fixed_or_zero E 32 (iw_pi_hash_hex w) = rc_pi_hash rc))"
proof -
  have "hm_get (bundle_index E ws) sid = Some pi \<longleftrightarrow>
      (\<exists>w \<in> set ws. iw_shard_id w = sid \<and> decode_fixed_or_zero E 32 (iw_pi_hash_hex w) = pi)" for sid pi
  proof
    assume get: "hm_get (bundle_index E ws) sid = Some pi"
    then have "sid \<in> fst ` set (bundle_index E ws)" using hm_get_in [OF get] by force
    then obtain w where "w \<in> set ws" "iw_shard_id w = sid" by (auto simp: bundle_index_keys)
    then show "\<exists>w \<in> set ws. iw_shard_id w = sid \<and> decode_fixed_or_zero E 32 (iw_pi_hash_hex w) = pi"
      using get bundle_index_get [OF assms, of w E] by auto
  next
    assume "\<exists>w \<in> set ws. iw_shard_id w = sid \<and> decode_fixed_or_zero E 32 (iw_pi_hash_hex w) = pi"
    then show "hm_get (bundle_index E ws) sid = Some pi" using bundle_index_get [OF assms] by blast
  qed
  then show ?thesis
    by (auto simp: audit_receipts_def audit_receipt_def Let_def filter_empty_conv)
qed

lemma audit_receipts_iff_witness: "audit_receipts toy_ext (Some []) [1] [2] [] = Inr ()"
  using audit_receipts_iff [of "[]" toy_ext "[]" "[1]" "[2]"] by simp

text \<open>The tally of a shard is the number of matching receipts for it, over all archives.\<close>

definition tally :: "ext \<Rightarrow> bytes \<Rightarrow> (u32, bytes) hashmap \<Rightarrow> u32 \<Rightarrow> shard_receipt list \<Rightarrow> nat" where
  "tally E job index sid rcs = length (filter (\<lambda>rc. witness_match E job index rc \<and> rc_shard_id rc = sid) rcs)"

definition archive_receipts :: "(string \<times> shard_receipt list option) list \<Rightarrow> shard_receipt list" where
  "archive_receipts dirs = concat (map (\<lambda>(lbl, d). case d of None \<Rightarrow> [] | Some rcs \<Rightarrow> rcs) dirs)"

abbreviation agree_count :: "(u32, string list) hashmap \<Rightarrow> u32 \<Rightarrow> nat" where
  "agree_count m sid \<equiv> (case hm_get m sid of None \<Rightarrow> 0 | Some ls \<Rightarrow> length ls)"

lemma scan_archive_count:
  "agree_count (scan_archive E job index lbl rcs m) sid = agree_count m sid + tally E job index sid rcs"
  by (induction rcs arbitrary: m) (simp_all add: tally_def push_label_def update_conv' split: option.split)

lemma scan_archives_count:
  "agree_count (scan_archives E job index dirs m) sid =
     agree_count m sid + tally E job index sid (archive_receipts dirs)"
proof (induction dirs arbitrary: m)
  case (Cons d dirs)
  obtain lbl rcs where "d = (lbl, rcs)" by fastforce
  then show ?case
    using Cons by (cases rcs) (simp_all add: archive_receipts_def tally_def scan_archive_count)
qed (simp add: archive_receipts_def tally_def)

text \<open>The witness audit passes exactly when the threshold does not exceed the number of
  archives and every shard of the bundle has at least the threshold of matching, validly signed
  receipts, counted over all files of all archives.\<close>

lemma audit_witnesses_iff:
  "audit_witnesses E dirs m job ws = Inr () \<longleftrightarrow>
     m \<le> length dirs \<and>
     (\<forall>w \<in> set ws. m \<le> tally E job (bundle_index E ws) (iw_shard_id w) (archive_receipts dirs))"
proof -
  have count: "agree_count (scan_archives E job (bundle_index E ws) dirs []) sid =
      tally E job (bundle_index E ws) sid (archive_receipts dirs)" for sid
    by (simp add: scan_archives_count)
  show ?thesis
    unfolding audit_witnesses_def Let_def count by (auto simp: filter_empty_conv not_less)
qed

lemma audit_witnesses_iff_witness:
  "audit_witnesses toy_ext [(''a'', None)] 0 [1] [] = Inr () \<and> audit_witnesses toy_ext [] 1 [1] [] \<noteq> Inr ()"
  using audit_witnesses_iff [of toy_ext "[(''a'', None)]" 0 "[1]" "[]"]
    audit_witnesses_iff [of toy_ext "[]" 1 "[1]" "[]"] by simp

text \<open>The quorum counts receipts, not witnesses: for a one-shard bundle, a single archive that
  holds \<open>m\<close> copies of one matching receipt meets any threshold \<open>m\<close>, every other archive missing.\<close>

lemma one_archive_meets_quorum:
  assumes "witness_match E job (bundle_index E [w]) rc" "rc_shard_id rc = iw_shard_id w" "0 < m"
  shows "audit_witnesses E ((lbl, Some (replicate m rc)) # replicate (m - 1) (lbl', None)) m job [w] = Inr ()"
proof -
  let ?dirs = "(lbl, Some (replicate m rc)) # replicate (m - 1) (lbl', None)"
  have "agree_count (scan_archives E job (bundle_index E [w]) ?dirs []) (iw_shard_id w) =
      tally E job (bundle_index E [w]) (iw_shard_id w) (archive_receipts ?dirs)"
    by (simp only: scan_archives_count) simp
  also have "\<dots> = m"
  proof -
    have "concat (replicate n []) = ([] :: shard_receipt list)" for n by (induction n) simp_all
    then have "archive_receipts ?dirs = replicate m rc" by (simp add: archive_receipts_def)
    then show ?thesis using assms(1,2) by (simp add: tally_def)
  qed
  finally show ?thesis using assms(3) by (simp add: audit_witnesses_def Let_def)
qed

definition demo_inner :: inner_worker where
  "demo_inner = \<lparr>iw_shard_id = 1, iw_shard_nonce_hex = [], iw_pi_hash_hex = [], iw_merkle_root_hex = [],
     iw_record_count = 1, iw_n_trace = 8, iw_proof_bytes_len = 0, iw_proof_path = [], iw_attestations = []\<rparr>"

lemma one_archive_meets_quorum_witness:
  "\<exists>rc. audit_witnesses toy_ext [(''a'', Some [rc, rc, rc]), (''b'', None), (''b'', None)] 3 [0] [demo_inner] = Inr ()"
proof -
  let ?rc = "mk_receipt toy_ext [] (keygen toy_ext L1 [1]) [0] 1 1 (replicate 32 0) [] 0"
  have "verify_worker_sig toy_ext (kp_pk (keygen toy_ext L1 [1])) m (kp_sign toy_ext [] (keygen toy_ext L1 [1]) m)" for m
    by (rule keygen_sign_verify_worker_sig [OF toy_signer])
  then have "witness_match toy_ext [0] (bundle_index toy_ext [demo_inner]) ?rc"
    by (simp add: witness_match_def mk_receipt_def receipt_digest_of_def bundle_index_def demo_inner_def
        decode_fixed_or_zero_def toy_ext_def)
  from one_archive_meets_quorum [OF this, of 3 "''a''" "''b''"] show ?thesis
    by (intro exI [of _ ?rc]) (simp add: mk_receipt_def demo_inner_def numeral_eq_Suc)
qed

end
