(* ===== verification/Conn_Limiter.thy ===== *)
theory Conn_Limiter
  imports Complex_Main Roster_Session
begin

text \<open>
  \<open>ConnLimiter\<close> of \<open>swarm-ctrl\<close>: a global cap, a per-IP cap and a per-IP token bucket at
  the accept boundary.  Token amounts are \<open>f64\<close> in the code and reals here (rounding is
  not modelled); the counters are \<open>usize\<close>.  \<open>accept_step\<close> is the accept loop with the
  connection tasks: each admitted connection releases its slot once, when its task ends.  That a
  task ends by a panic, which would skip the release, is not modelled.
\<close>

type_synonym ip = bytes

record ip_bucket =
  ib_active :: nat
  ib_tokens :: real
  ib_last_refill :: real  \<comment> \<open>seconds\<close>

record limiter_cfg =
  lc_max_per_ip :: nat
  lc_rate_per_sec :: real
  lc_burst :: real
  lc_max_active_total :: nat

record limiter =
  li_state :: "(ip, ip_bucket) hashmap"
  li_active_total :: nat

datatype deny_reason = MaxPerIp | RateLimit | MaxActiveTotal

definition limiter_new :: limiter where
  "limiter_new = \<lparr>li_state = [], li_active_total = 0\<rparr>"

text \<open>The entry is refilled and stored before the caps are tested, also when they deny.\<close>

definition refill :: "limiter_cfg \<Rightarrow> real \<Rightarrow> ip_bucket \<Rightarrow> ip_bucket" where
  "refill c now e =
     (let elapsed = max 0 (now - ib_last_refill e)
      in e\<lparr>ib_tokens := min (ib_tokens e + elapsed * lc_rate_per_sec c) (lc_burst c),
           ib_last_refill := now\<rparr>)"

definition try_acquire :: "limiter_cfg \<Rightarrow> real \<Rightarrow> ip \<Rightarrow> limiter \<Rightarrow> limiter \<times> (deny_reason + unit)" where
  "try_acquire c now ip l =
     (if li_active_total l \<ge> lc_max_active_total c then (l, Inl MaxActiveTotal)
      else
        let e0 = (case hm_get (li_state l) ip of
                    Some e \<Rightarrow> e
                  | None \<Rightarrow> \<lparr>ib_active = 0, ib_tokens = lc_burst c, ib_last_refill = now\<rparr>);
            e = refill c now e0;
            l1 = l\<lparr>li_state := hm_insert ip e (li_state l)\<rparr>
        in if ib_active e \<ge> lc_max_per_ip c then (l1, Inl MaxPerIp)
           else if ib_tokens e < 1 then (l1, Inl RateLimit)
           else (\<lparr>li_state = hm_insert ip (e\<lparr>ib_tokens := ib_tokens e - 1,
                                             ib_active := ib_active e + 1\<rparr>) (li_state l),
                  li_active_total = li_active_total l + 1\<rparr>, Inr ()))"

text \<open>\<open>fetch_sub\<close> on zero wraps to \<open>usize::MAX\<close>; \<open>limiter_inv\<close> shows it never happens.\<close>

definition release :: "limiter_cfg \<Rightarrow> ip \<Rightarrow> limiter \<Rightarrow> limiter" where
  "release c ip l =
     (let st = (case hm_get (li_state l) ip of
                  None \<Rightarrow> li_state l
                | Some e \<Rightarrow>
                    (let e' = e\<lparr>ib_active := ib_active e - 1\<rparr>
                     in if ib_active e' = 0 \<and> ib_tokens e' \<ge> lc_burst c
                        then hm_remove ip (li_state l)
                        else hm_insert ip e' (li_state l)))
      in \<lparr>li_state = st,
          li_active_total = (if li_active_total l = 0 then 2 ^ 64 - 1 else li_active_total l - 1)\<rparr>)"

definition active_of :: "limiter \<Rightarrow> ip \<Rightarrow> nat" where
  "active_of l ip = (case hm_get (li_state l) ip of None \<Rightarrow> 0 | Some e \<Rightarrow> ib_active e)"

section \<open>The accept loop\<close>

text \<open>\<open>open_conns\<close> is the list of peers whose connection task is running.\<close>

inductive accept_step :: "limiter_cfg \<Rightarrow> limiter \<times> ip list \<Rightarrow> limiter \<times> ip list \<Rightarrow> bool" for c where
  admit: "try_acquire c now ip l = (l', Inr ()) \<Longrightarrow> accept_step c (l, conns) (l', ip # conns)"
| deny: "try_acquire c now ip l = (l', Inl why) \<Longrightarrow> accept_step c (l, conns) (l', conns)"
| task_end: "ip \<in> set conns \<Longrightarrow> accept_step c (l, conns) (release c ip l, remove1 ip conns)"

definition limiter_inv :: "limiter_cfg \<Rightarrow> limiter \<times> ip list \<Rightarrow> bool" where
  "limiter_inv c s \<longleftrightarrow> (case s of (l, conns) \<Rightarrow>
     hm_ok (li_state l) \<and>
     li_active_total l = length conns \<and> length conns \<le> lc_max_active_total c \<and>
     (\<forall>ip. active_of l ip = count_list conns ip \<and> count_list conns ip \<le> lc_max_per_ip c) \<and>
     (\<forall>(ip, e) \<in> set (li_state l). ib_tokens e \<le> lc_burst c))"

lemma refill_simps [simp]:
  "ib_active (refill c now e) = ib_active e"
  "ib_tokens (refill c now e) \<le> lc_burst c"
  by (simp_all add: refill_def Let_def)

lemma active_of_insert [simp]:
  "active_of (l\<lparr>li_state := hm_insert ip e (li_state l)\<rparr>) ip' =
     (if ip' = ip then ib_active e else active_of l ip')"
  "active_of \<lparr>li_state = hm_insert ip e (li_state l), li_active_total = n\<rparr> ip' =
     (if ip' = ip then ib_active e else active_of l ip')"
  by (simp_all add: active_of_def update_conv')

lemma limiter_inv_new: "limiter_inv c (limiter_new, [])"
  by (simp add: limiter_inv_def limiter_new_def active_of_def)

lemma limiter_inv_acquire:
  assumes inv: "limiter_inv c (l, conns)" and acq: "try_acquire c now ip l = (l', res)"
  shows "limiter_inv c (l', if res = Inr () then ip # conns else conns)"
proof (cases "li_active_total l \<ge> lc_max_active_total c")
  case True
  then show ?thesis using inv acq by (auto simp: try_acquire_def)
next
  case False
  define e0 where "e0 = (case hm_get (li_state l) ip of
                    Some e \<Rightarrow> e
                  | None \<Rightarrow> \<lparr>ib_active = 0, ib_tokens = lc_burst c, ib_last_refill = now\<rparr>)"
  have a0: "ib_active e0 = active_of l ip" by (simp add: e0_def active_of_def split: option.split)
  define e where "e = refill c now e0"
  have e: "ib_active e = active_of l ip" "ib_tokens e \<le> lc_burst c"
    using a0 by (simp_all add: e_def)
  have le: "count_list conns ip \<le> lc_max_per_ip c" "active_of l ip = count_list conns ip"
    using inv by (auto simp: limiter_inv_def)
  have l': "l' = l\<lparr>li_state := hm_insert ip e (li_state l)\<rparr> \<and> res \<noteq> Inr () \<or>
    (l' = \<lparr>li_state = hm_insert ip (e\<lparr>ib_tokens := ib_tokens e - 1, ib_active := ib_active e + 1\<rparr>)
         (li_state l), li_active_total = li_active_total l + 1\<rparr> \<and> res = Inr () \<and>
      ib_active e < lc_max_per_ip c)"
    using acq False unfolding try_acquire_def Let_def e0_def [symmetric] e_def [symmetric]
    by (auto split: if_splits)
  then show ?thesis
    using inv e le False by (auto simp: limiter_inv_def dest!: hm_in_insert)
qed

lemma active_of_release:
  assumes "hm_ok (li_state l)"
  shows "active_of (release c ip l) ip' = (if ip' = ip then active_of l ip - 1 else active_of l ip')"
  using assms
  by (auto simp: active_of_def release_def Let_def update_conv' delete_conv'
      simp del: map_of_eq_Some_iff split: option.split)

lemma count_list_remove1: "count_list (remove1 x xs) y = (if x = y then count_list xs y - 1 else count_list xs y)"
proof (induction xs)
  case (Cons a xs)
  then show ?case by (cases "a = x"; cases "a = y"; cases "x \<in> set xs") (auto simp: count_list_0_iff)
qed simp

lemma limiter_inv_release:
  assumes inv: "limiter_inv c (l, conns)" and ip: "ip \<in> set conns"
  shows "limiter_inv c (release c ip l, remove1 ip conns)"
proof -
  have ok: "hm_ok (li_state l)" using inv by (simp add: limiter_inv_def)
  have pos: "length conns \<noteq> 0" using ip by auto
  have "hm_ok (li_state (release c ip l))"
    using ok by (auto simp: release_def Let_def split: option.split)
  moreover have "\<forall>(ip', e) \<in> set (li_state (release c ip l)). ib_tokens e \<le> lc_burst c"
    using inv ok unfolding limiter_inv_def
    by (auto simp: release_def Let_def hm_in_remove dest!: hm_in_insert map_of_SomeD
        split: option.splits if_splits)
  moreover have "li_active_total (release c ip l) = length (remove1 ip conns)"
    using inv ip pos by (simp add: limiter_inv_def release_def length_remove1)
  moreover have "length (remove1 ip conns) \<le> lc_max_active_total c"
    using inv ip by (auto simp: limiter_inv_def length_remove1)
  moreover have "active_of (release c ip l) x = count_list (remove1 ip conns) x \<and>
      count_list (remove1 ip conns) x \<le> lc_max_per_ip c" for x
    using inv by (simp add: limiter_inv_def active_of_release [OF ok] count_list_remove1 le_diff_conv trans_le_add1)
  ultimately show ?thesis by (simp add: limiter_inv_def)
qed

lemma limiter_inv_step:
  assumes "limiter_inv c s" "accept_step c s t"
  shows "limiter_inv c t"
  using assms(2,1)
proof (cases rule: accept_step.cases)
  case (admit now ip l l' conns)
  then show ?thesis using limiter_inv_acquire [of c l conns now ip l' "Inr ()"] assms(1) by simp
next
  case (deny now ip l l' why conns)
  then show ?thesis using limiter_inv_acquire [of c l conns now ip l' "Inl why"] assms(1) by simp
next
  case (task_end ip conns l)
  then show ?thesis using limiter_inv_release assms(1) by simp
qed

interpretation accept_loop: safe_system "\<lambda>s. s = (limiter_new, [])" "accept_step c" "limiter_inv c" for c
  by unfold_locales (auto intro: limiter_inv_new limiter_inv_step)

end
