(* ===== verification/Swarm_Props.thy ===== *)
theory Swarm_Props
  imports Bundle_Props Conn_Limiter
begin

text \<open>
  The promises of the components the job and the bundle rest on: the ensemble's vote, the zone
  Merkle tree, the wire framing, the folding schedule, the split of a zone, the roster and the
  connection limiter.
\<close>

section \<open>Ensembles\<close>

text \<open>C5: The verdict refines a vote: with fewer than k responses it waits; otherwise it accepts a
  worker exactly when a claim (pi hash, Merkle root, FRI root) has more than half of the k
  votes, the accepted worker made that claim, and the listed dissenters are exactly the workers
  that made another; and it reports a conflict exactly when no claim has such a majority.\<close>

theorem evaluate_ensemble_spec:
  assumes "hm_ok (en_responses ens)" "length (en_responses ens) \<le> en_target_k ens"
    and "en_target_k ens \<ge> 1"
  shows "case evaluate_ensemble ens of
      Pending \<Rightarrow> length (en_responses ens) < en_target_k ens
    | Accepted w \<Rightarrow> \<exists>e. (w, e) \<in> set (en_responses ens) \<and>
        votes (en_responses ens) (claim_of e) = en_target_k ens
    | MajorityWin w ds \<Rightarrow> \<exists>e. (w, e) \<in> set (en_responses ens) \<and>
        length (en_responses ens) = en_target_k ens \<and>
        en_target_k ens < 2 * votes (en_responses ens) (claim_of e) \<and>
        set ds = {v. \<exists>e'. (v, e') \<in> set (en_responses ens) \<and> claim_of e' \<noteq> claim_of e}
    | AllConflict \<Rightarrow> length (en_responses ens) = en_target_k ens \<and>
        (\<forall>c. 2 * votes (en_responses ens) c \<le> en_target_k ens)"
proof (cases rule: evaluate_cases [OF assms, case_names pending unanimous majority conflict])
  case (unanimous w e)
  then have "filter (\<lambda>(w, x). claim_of x = claim_of e) (en_responses ens) = en_responses ens"
    by (intro filter_True) auto
  then have "votes (en_responses ens) (claim_of e) = length (en_responses ens)"
    by (simp add: votes_def voters_def)
  then show ?thesis using unanimous by auto
qed auto

lemma evaluate_ensemble_spec_witness:
  "case evaluate_ensemble demo_ens of Pending \<Rightarrow> length (en_responses demo_ens) < en_target_k demo_ens | _ \<Rightarrow> False"
proof -
  have "evaluate_ensemble demo_ens = Pending" by (simp add: evaluate_ensemble_def demo_ens_simps)
  then show ?thesis using evaluate_ensemble_spec [of demo_ens] by (simp add: demo_ens_simps)
qed

lemma bucketize_map:
  "(\<And>e. claim_of (g e) = claim_of e) \<Longrightarrow> bucketize b (map (\<lambda>(w, e). (w, g e)) rs) = bucketize b rs"
  by (induction b rs rule: bucketize.induct) simp_all

text \<open>The verdict reads only the three claim fields: replacing anything else in the responses
  (the proof blob, the record count, the trace length, the timings) leaves it unchanged, so a
  unanimous ensemble may accept a result whose proof bytes no replica agreed on.\<close>

lemma verdict_ignores_proof:
  assumes "\<And>e. claim_of (g e) = claim_of e"
  shows "evaluate_ensemble (ens\<lparr>en_responses := map (\<lambda>(w, e). (w, g e)) (en_responses ens)\<rparr>) =
    evaluate_ensemble ens"
proof -
  let ?rs = "en_responses ens"
  have "fst (hd (map (\<lambda>(w, e). (w, g e)) ?rs)) = fst (hd ?rs)" if "?rs \<noteq> []"
    using that by (cases ?rs) auto
  moreover have "length (bucketize [] ?rs) = 1 \<Longrightarrow> ?rs \<noteq> []" by auto
  ultimately show ?thesis
    by (auto simp: evaluate_ensemble_def bucketize_map [OF assms] Let_def)
qed

lemma verdict_ignores_proof_witness:
  "evaluate_ensemble (demo_ens\<lparr>en_responses := map (\<lambda>(w, e). (w, e\<lparr>re_result := (re_result e)\<lparr>sr_proof_blob := []\<rparr>\<rparr>))
     (en_responses demo_ens)\<rparr>) = evaluate_ensemble demo_ens"
  by (rule verdict_ignores_proof) (simp add: claim_of_def)

section \<open>Zone Merkle tree\<close>

text \<open>Completeness of the zone tree: over a non-empty list of records the build succeeds, has
  the root the controller pins, and for every record the extracted path verifies.\<close>

lemma zone_tree_complete:
  assumes "records \<noteq> []"
  shows "\<exists>lv rt. merkle_build E (map (leaf_hash E salt) records) = Some lv \<and> merkle_root lv = Some rt \<and>
    compute_merkle_root E salt records = Some rt \<and>
    (\<forall>i < length records. \<exists>p. merkle_path lv i = Some p \<and>
       merkle_verify E (leaf_hash E salt (records ! i)) i p rt)"
  using dns.committed_items_open [of "leaf_hash E salt" records E] assms
  by (force simp: compute_merkle_root_def)

lemma zone_tree_complete_witness:
  "\<exists>lv rt. merkle_build toy_ext (map (leaf_hash toy_ext []) [demo_record]) = Some lv \<and> merkle_root lv = Some rt"
  using zone_tree_complete [of "[demo_record]" toy_ext "[]"] by blast

text \<open>The strings hashed to compute the root of a zone.\<close>

definition root_inputs :: "ext \<Rightarrow> bytes \<Rightarrow> dns_record list \<Rightarrow> bytes list" where
  "root_inputs E salt rs =
     concat (map (leaf_inputs E salt) rs) @ tree_inputs E (map (leaf_hash E salt) rs)"

text \<open>C9: A root binds the records: two zones of equally many well-formed records with equal roots
  under one salt are equal, or a string hashed for the first root and one hashed for the second
  are a SHA3-256 collision.\<close>

theorem zone_root_binding:
  assumes "compute_merkle_root E salt rs = Some rt" "compute_merkle_root E salt rs' = Some rt"
    and "length rs = length rs'" "rs \<noteq> rs'" "length salt = 16" "sha3_len_ok E"
    and "\<forall>r \<in> set rs \<union> set rs'. record_wf r"
  shows "collides (sha3_256 E) (root_inputs E salt rs) (root_inputs E salt rs')"
proof -
  let ?l = "map (leaf_hash E salt)"
  have roots: "tree_root E (?l rs) = tree_root E (?l rs')"
    using assms(1,2) by (auto simp: compute_merkle_root_eq split: if_splits)
  show ?thesis
  proof (cases "?l rs = ?l rs'")
    case False
    then show ?thesis
      using assms(3,6) unfolding root_inputs_def
      by (intro collides_append(2) tree_root_binding [OF assms(6) roots])
        (auto simp: leaf_hash_def sha3_256_parts_def length_sha3)
  next
    case True
    obtain i where i: "i < length rs" "rs ! i \<noteq> rs' ! i"
      using assms(3,4) by (metis nth_equalityI)
    have "leaf_hash E salt (rs ! i) = leaf_hash E salt (rs' ! i)"
      using True i(1) assms(3) by (metis length_map nth_map)
    then have "collides (sha3_256 E) (leaf_inputs E salt (rs ! i)) (leaf_inputs E salt (rs' ! i))"
      by (rule leaf_hash_binding) (use assms(3,5,7) i in auto)
    then show ?thesis
      by (rule collides_mono) (use i(1) assms(3) in \<open>auto simp: root_inputs_def intro!: bexI [OF _ nth_mem]\<close>)
  qed
qed

lemma zone_root_binding_witness:
  "\<exists>E. collides (sha3_256 E) (root_inputs E (replicate 16 0) [demo_record])
     (root_inputs E (replicate 16 0) [demo_record\<lparr>ttl := 1\<rparr>])"
proof -
  let ?E = "toy_ext\<lparr>sha3_256 := \<lambda>x. replicate 32 0\<rparr>"
  have "sha3_len_ok ?E" by (simp add: sha3_len_ok_def)
  moreover have "compute_merkle_root ?E (replicate 16 0) [demo_record] = Some (replicate 32 0)"
    "compute_merkle_root ?E (replicate 16 0) [demo_record\<lparr>ttl := 1\<rparr>] = Some (replicate 32 0)"
    by (simp_all add: compute_merkle_root_eq leaf_hash_def sha3_256_parts_def)
  ultimately show ?thesis
    by (intro exI [of _ ?E] zone_root_binding [of _ _ _ "replicate 32 0"])
      (auto simp: demo_record_def record_wf_def ascii_def)
qed

text \<open>A root does not bind the number of leaves: repeating the last of an odd number of leaves
  keeps the root, and an index shifted by a multiple of two to the path length verifies alike.\<close>

lemma tree_shape_not_bound:
  assumes "odd (length leaves)" "length leaves > 1"
  shows "tree_root E (leaves @ [last leaves]) = tree_root E leaves \<and>
    (\<forall>leaf i k path rt. merkle_verify E leaf (i + k * 2 ^ length path) path rt = merkle_verify E leaf i path rt)"
  using tree_root_repeat_last [OF assms] by (simp add: merkle_verify_def merkle_climb_index_mod)

lemma tree_shape_not_bound_witness:
  "tree_root toy_ext [[1], [2], [3], [3]] = tree_root toy_ext [[1], [2], [3]]"
  using tree_shape_not_bound [of "[[1], [2], [3]]" toy_ext] by simp

section \<open>Framing and digests\<close>

text \<open>C26: Frames round-trip on a stream: whatever sequence of messages the writer accepts, reading
  as many frames from the bytes written, followed by anything, returns exactly these messages
  and leaves what follows unread.\<close>

theorem frames_roundtrip:
  assumes "\<And>m buf. enc m = Some buf \<Longrightarrow> dec buf = Some m" "write_all enc ms = Inr bs"
  shows "read_n (length ms) dec (bs @ rest) = Inr (ms, rest)"
  by (rule read_n_write_all [OF assms])

lemma frames_roundtrip_witness:
  "\<exists>bs. write_all Some [[7], [8, 9]] = Inr bs \<and> read_n (Suc (Suc 0)) Some (bs @ [1]) = Inr ([[7], [8, 9]], [1])"
proof -
  have fr: "write_frame Some m = Inr (be32 (word_of_nat (length m)) @ m)" if "length m \<le> 2" for m
    using that by (simp add: write_frame_def max_frame_bytes_def)
  have "\<exists>bs. write_all Some [[7], [8, 9 :: byte]] = Inr bs"
    by (simp only: write_all.simps fr [of "[7]", simplified] fr [of "[8, 9]", simplified] sum.case) blast
  then obtain bs where bs: "write_all Some [[7], [8, 9 :: byte]] = Inr bs"
    by blast
  have "read_n (length [[7], [8, 9 :: byte]]) Some (bs @ [1]) = Inr ([[7], [8, 9]], [1])"
    by (rule frames_roundtrip [OF _ bs]) simp
  then have "read_n (Suc (Suc 0)) Some (bs @ [1]) = Inr ([[7], [8, 9]], [1])"
    by (simp only: list.size add_0_right add_Suc_right)
  with bs show ?thesis by blast
qed

text \<open>A reader never takes a payload above the 16 MiB cap: a header that announces more is
  refused with its length, whatever follows, and an accepted frame consumes its header and a
  payload within the cap.\<close>

lemma frame_cap:
  "(\<forall>hdr s. length hdr = 4 \<and> unat (of_be_bytes hdr :: u32) > max_frame_bytes \<longrightarrow>
      read_frame dec (hdr @ s) = Inl (TooLarge (unat (of_be_bytes hdr :: u32)))) \<and>
   (\<forall>s m rest. read_frame dec s = Inr (m, rest) \<longrightarrow>
      (\<exists>payload. length payload \<le> max_frame_bytes \<and> dec payload = Some m \<and>
         length s = 4 + length payload + length rest))"
proof (intro conjI allI impI)
  fix hdr s assume "length hdr = 4 \<and> unat (of_be_bytes hdr :: u32) > max_frame_bytes"
  then show "read_frame dec (hdr @ s) = Inl (TooLarge (unat (of_be_bytes hdr :: u32)))"
    by (intro read_frame_too_large) simp_all
next
  fix s m rest assume r: "read_frame dec s = Inr (m, rest)"
  show "\<exists>payload. length payload \<le> max_frame_bytes \<and> dec payload = Some m \<and>
    length s = 4 + length payload + length rest"
    using read_frame_bounds [OF r] by blast
qed

lemma frame_cap_witness:
  "\<exists>n. read_frame Some (be32 (- 1 :: u32) @ []) = Inl (TooLarge n)"
proof -
  define w :: u32 where "w = - 1"
  have len: "length (be32 w) = 4" by simp
  have "unat (of_be_bytes (be32 w) :: u32) = unat w"
    by (subst of_be_bytes_be_bytes) simp_all
  moreover have "unat w > max_frame_bytes"
    by (simp add: w_def max_frame_bytes_def unsigned_minus_1_eq_mask mask_eq_exp_minus_1)
  ultimately have "read_frame Some (be32 w @ []) = Inl (TooLarge (unat (of_be_bytes (be32 w) :: u32)))"
    using frame_cap [of Some, THEN conjunct1, rule_format, of "be32 w" "[]"] len by simp
  then show ?thesis unfolding w_def by blast
qed

section \<open>Proof parameters\<close>

text \<open>The release build's domain size of a count: a power of two, unless the product with the blow-up factor
  wraps to 0; and for a product by 4 above 2^63 the size of the empty shard.\<close>

lemma inner_n0_cases:
  fixes n :: nat
  defines "w \<equiv> 4 * n mod 2 ^ 64"
  shows "w \<le> 2 ^ 58 \<Longrightarrow> is_power_of_two (inner_n0_from_record_count n) \<and> inner_n0_from_record_count n = next_pow2 w * blowup"
    and "2 ^ 58 < w \<Longrightarrow> w \<le> 2 ^ 63 \<Longrightarrow> inner_n0_from_record_count n = 0"
    and "2 ^ 63 < w \<Longrightarrow> inner_n0_from_record_count n = 256"
proof -
  have w: "usize_mul n 4 = w" by (simp add: usize_mul_def w_def mult.commute)
  show "is_power_of_two (inner_n0_from_record_count n) \<and> inner_n0_from_record_count n = next_pow2 w * blowup" if "w \<le> 2 ^ 58"
  proof -
    have "w \<le> 2 ^ 63" by (rule order_trans [OF that]) simp
    then have "next_pow2_usize w = next_pow2 w" by (rule next_pow2_usize_exact)
    then show ?thesis using n0_small [OF that] by (simp add: inner_n0_from_record_count_def w)
  qed
  show "inner_n0_from_record_count n = 0" if b: "2 ^ 58 < w" "w \<le> 2 ^ 63"
  proof -
    obtain m where m: "next_pow2 w = 2 ^ m" "w \<le> 2 ^ m" using next_pow2_spec by blast
    have "(2 :: nat) ^ 58 < 2 ^ m" using m(2) b(1) by linarith
    then have "58 < m" by (rule power_less_imp_less_exp [rotated]) simp
    then have "(2 :: nat) ^ 64 dvd 2 ^ (m + 5)" by (intro le_imp_power_dvd) simp
    moreover have "usize_mul (2 ^ m) blowup = 2 ^ (m + 5) mod 2 ^ 64" by (simp add: usize_mul_def blowup_def power_add)
    ultimately have "usize_mul (2 ^ m) blowup = 0" by (simp only: dvd_imp_mod_0)
    then show ?thesis by (simp add: inner_n0_from_record_count_def w next_pow2_usize_exact [OF b(2)] m(1))
  qed
  show "inner_n0_from_record_count n = 256" if b: "2 ^ 63 < w"
  proof -
    obtain m where m: "next_power_of_two w = 2 ^ m" "w \<le> 2 ^ m" using next_power_of_two_spec by blast
    have "(2 :: nat) ^ 63 < 2 ^ m" using m(2) b by linarith
    then have "63 < m" by (rule power_less_imp_less_exp [rotated]) simp
    then have "(2 :: nat) ^ 64 dvd 2 ^ m" by (intro le_imp_power_dvd) simp
    then have "next_pow2_usize w = 8" by (simp add: next_pow2_usize_def m(1))
    then show ?thesis by (simp only: inner_n0_from_record_count_def w) (simp add: usize_mul_def blowup_def)
  qed
qed

text \<open>C27: Which record counts have a folding schedule. With the 64-bit arithmetic of a release build the domain
  size derived from a count has a schedule exactly when four times the count, modulo 2^64, is at
  most 2^58 (or above 2^63, where the rounding to a power of two wraps); for the other counts
  \<open>make_schedule\<close> panics. A schedule folds the domain completely (the product of its folds is the
  domain size), every fold is by 2, 4 or 8, by 2 only without STIR. Up to 2^56 records there is no
  wrap-around and the domain has room for four leaves of each record, blown up.\<close>

theorem schedule_folds_domain:
  "((\<exists>sch. make_schedule (inner_n0_from_record_count n) ldt = Some sch) \<longleftrightarrow> 4 * n mod 2 ^ 64 \<le> 2 ^ 58 \<or> 2 ^ 63 < 4 * n mod 2 ^ 64) \<and>
   (\<forall>sch. make_schedule (inner_n0_from_record_count n) ldt = Some sch \<longrightarrow>
     prod_list sch = inner_n0_from_record_count n \<and> (\<forall>m \<in> set sch. m \<in> {2, 4, 8}) \<and> (ldt = Fri \<longrightarrow> set sch \<subseteq> {2})) \<and>
   (n \<le> 2 ^ 56 \<longrightarrow> 4 * n * blowup \<le> inner_n0_from_record_count n)"
proof (intro conjI)
  let ?w = "4 * n mod 2 ^ 64"
  have d: "(\<exists>sch. make_schedule (inner_n0_from_record_count n) ldt = Some sch) \<longleftrightarrow> is_power_of_two (inner_n0_from_record_count n)"
    by (simp add: make_schedule_def Let_def)
  have "is_power_of_two 256" using is_power_of_two_pow [of 8] by simp
  moreover have "\<not> is_power_of_two 0" by (simp add: is_power_of_two.simps)
  ultimately show "(\<exists>sch. make_schedule (inner_n0_from_record_count n) ldt = Some sch) \<longleftrightarrow> ?w \<le> 2 ^ 58 \<or> 2 ^ 63 < ?w"
    unfolding d using inner_n0_cases [of n] by (metis linorder_not_less)
  show "\<forall>sch. make_schedule (inner_n0_from_record_count n) ldt = Some sch \<longrightarrow>
     prod_list sch = inner_n0_from_record_count n \<and> (\<forall>m \<in> set sch. m \<in> {2, 4, 8}) \<and> (ldt = Fri \<longrightarrow> set sch \<subseteq> {2})"
    using make_schedule_folds by (auto simp: make_schedule_def split: if_splits)
  show "n \<le> 2 ^ 56 \<longrightarrow> 4 * n * blowup \<le> inner_n0_from_record_count n"
  proof
    assume n: "n \<le> 2 ^ 56"
    have "4 * n < 2 ^ 64" by (rule order_le_less_trans [of _ "4 * 2 ^ 56"]) (use n in simp_all)
    then have "?w = 4 * n" by (rule mod_less)
    moreover have "4 * n \<le> 2 ^ 58" using n by simp
    moreover have "4 * n \<le> next_pow2 (4 * n)" using next_pow2_spec [of "4 * n"] by auto
    ultimately show "4 * n * blowup \<le> inner_n0_from_record_count n" using inner_n0_cases(1) [of n] by simp
  qed
qed

lemma schedule_folds_domain_witness:
  "(\<exists>sch. make_schedule (inner_n0_from_record_count 1) Stir = Some sch) \<and>
   make_schedule (inner_n0_from_record_count (2 ^ 57)) Stir = None \<and>
   (\<exists>sch. make_schedule (inner_n0_from_record_count (2 ^ 62)) Stir = Some sch)"
  using schedule_folds_domain [of 1 Stir] schedule_folds_domain [of "2 ^ 57" Stir] schedule_folds_domain [of "2 ^ 62" Stir]
  by simp

text \<open>A count of 2^62 records has the domain of the empty shard.\<close>

lemma record_count_wraps: "inner_n0_from_record_count (2 ^ 62) = inner_n0_from_record_count 0 \<and> inner_n0_from_record_count 0 = 256"
  using inner_n0_cases(1) [of "2 ^ 62"] inner_n0_cases(1) [of 0]
  by (simp add: next_pow2_def next_power_of_two_def np2_from.simps blowup_def)

text \<open>The commitments of a shard bind what they are computed from: two public input hashes, two
  worker attestation digests or two receipt digests that agree are over equal fields, or the two
  strings that were hashed are a SHA3-256 collision; and an attestation digest that equals a
  receipt digest or a transcript binding is always such a collision.\<close>

lemma digests_binding:
  assumes "length p = 32" "length p' = 32" "length m = 32" "length m' = 32"
  shows "(inner_pi_hash E s n m r f = inner_pi_hash E s' n' m' r' f' \<and> length s = 16 \<and> length s' = 16 \<and>
        length r = 32 \<and> length r' = 32 \<and> n < 2 ^ 64 \<and> n' < 2 ^ 64 \<and>
        (s, n, m, r, f) \<noteq> (s', n', m', r', f') \<longrightarrow>
      collision (sha3_256 E) (inner_pi_input s n m r f) (inner_pi_input s' n' m' r' f')) \<and>
    (worker_attestation_digest E i p m r = worker_attestation_digest E i' p' m' r' \<and>
        (i, p, m, r) \<noteq> (i', p', m', r') \<longrightarrow>
      collision (sha3_256 E) (attest_input i p m r) (attest_input i' p' m' r')) \<and>
    (ctrl_receipt_digest E j i w p m t = ctrl_receipt_digest E j' i' w' p' m' t' \<and>
        length j = 32 \<and> length j' = 32 \<and> (j, i, w, p, m, t) \<noteq> (j', i', w', p', m', t') \<longrightarrow>
      collision (sha3_256 E) (receipt_input j i w p m t) (receipt_input j' i' w' p' m' t')) \<and>
    (worker_attestation_digest E i p m r = ctrl_receipt_digest E j i' w p' m' t \<longrightarrow>
      collision (sha3_256 E) (attest_input i p m r) (receipt_input j i' w p' m' t)) \<and>
    (worker_attestation_digest E i p m r = shard_fs_binding E a j i' nonce \<longrightarrow>
      collision (sha3_256 E) (attest_input i p m r) (shard_fs_input a j i' nonce))"
proof (intro conjI impI)
  show "collision (sha3_256 E) (inner_pi_input s n m r f) (inner_pi_input s' n' m' r' f')"
    if "inner_pi_hash E s n m r f = inner_pi_hash E s' n' m' r' f' \<and> length s = 16 \<and> length s' = 16 \<and>
        length r = 32 \<and> length r' = 32 \<and> n < 2 ^ 64 \<and> n' < 2 ^ 64 \<and>
        (s, n, m, r, f) \<noteq> (s', n', m', r', f')"
    using that assms by (intro inner_pi_hash_binding) auto
  show "collision (sha3_256 E) (attest_input i p m r) (attest_input i' p' m' r')"
    if "worker_attestation_digest E i p m r = worker_attestation_digest E i' p' m' r' \<and>
        (i, p, m, r) \<noteq> (i', p', m', r')"
    using that assms by (intro worker_attestation_binding) auto
  show "collision (sha3_256 E) (receipt_input j i w p m t) (receipt_input j' i' w' p' m' t')"
    if "ctrl_receipt_digest E j i w p m t = ctrl_receipt_digest E j' i' w' p' m' t' \<and>
        length j = 32 \<and> length j' = 32 \<and> (j, i, w, p, m, t) \<noteq> (j', i', w', p', m', t')"
    using that assms by (intro ctrl_receipt_binding) auto
qed (simp_all add: digest_inputs collision_def input_domains)

lemma digests_binding_witness:
  "\<exists>E :: ext. collision (sha3_256 E) (attest_input 0 zero32 zero32 []) (attest_input 1 zero32 zero32 [])"
proof -
  let ?E = "toy_ext\<lparr>sha3_256 := \<lambda>x. []\<rparr>"
  have "collision (sha3_256 ?E) (attest_input 0 zero32 zero32 []) (attest_input 1 zero32 zero32 [])"
    by (rule digests_binding [of zero32 zero32 zero32 zero32, THEN conjunct2, THEN conjunct1, rule_format])
      (simp_all add: digest_defs)
  then show ?thesis by blast
qed

text \<open>Splitting a zone loses nothing: for any positive number of shards the slices are that
  many, follow each other to the whole zone, and their lengths differ by at most one.\<close>

lemma split_evenly_spec:
  assumes "0 < n"
  shows "length (split_evenly xs n) = n \<and> concat (split_evenly xs n) = xs \<and>
    (\<forall>ys \<in> set (split_evenly xs n). length ys = length xs div n \<or> length ys = Suc (length xs div n))"
  using concat_split_evenly [OF assms] split_evenly_sizes by auto

lemma split_evenly_spec_witness: "concat (split_evenly [1, 2, 3 :: nat] 2) = [1, 2, 3]"
  using split_evenly_spec [of 2 "[1, 2, 3 :: nat]"] by simp

section \<open>Roster and limiter\<close>

text \<open>C28: In every reachable state of the controller's sessions each roster entry is stored once,
  under its own id, its fingerprint is the hash of the key it registered, and, with an
  allowlist, the fingerprint is listed.\<close>

theorem roster_entries_genuine:
  assumes "(ctrl_step E cfg)\<^sup>*\<^sup>* roster_default r" "hm_get (ro_workers r) w = Some ws"
  shows "we_id ws = w \<and> we_pk_fp ws = sha3_256 E (we_ml_dsa_pk ws) \<and> hm_ok (ro_workers r) \<and>
    (case sc_allowlist cfg of None \<Rightarrow> True | Some allowed \<Rightarrow> we_pk_fp ws \<in> allowed)"
proof -
  have inv: "roster_inv E cfg r" by (rule sessions.reachable_inv [OF refl assms(1)])
  then show ?thesis
    using hm_get_in [OF assms(2)] by (auto simp: roster_inv_def entry_ok_def split: option.split)
qed

definition demo_session :: session_cfg where
  "demo_session = \<lparr>sc_allowlist = None, sc_mode = Primary, sc_heartbeat_secs = 5, sc_ctrl_label = [],
     sc_authority = demo_kp\<rparr>"

lemma roster_entries_genuine_witness:
  "\<exists>r ws. (ctrl_step toy_ext demo_session)\<^sup>*\<^sup>* roster_default r \<and> hm_get (ro_workers r) 1 = Some ws \<and>
     we_pk_fp ws = sha3_256 toy_ext (we_ml_dsa_pk ws)"
proof -
  let ?inp = "\<lparr>si_now = 0, si_unix_ms = 0, si_rnd = [], si_write_ok = True\<rparr>"
  let ?caps = "\<lparr>cap_nist_level = 1, max_records_per_shard = 0, cores = 1, cap_label = []\<rparr>"
  define r where "r = fst (session_first toy_ext demo_session ?inp (Register ''n'' [7] ?caps) roster_default)"
  obtain outs res where "session_first toy_ext demo_session ?inp (Register ''n'' [7] ?caps) roster_default = (r, outs, res)"
    unfolding r_def by (metis prod.exhaust fst_conv)
  then have step: "(ctrl_step toy_ext demo_session)\<^sup>*\<^sup>* roster_default r"
    by (intro r_into_rtranclp ctrl_step.register)
  obtain ws where ws: "hm_get (ro_workers r) 1 = Some ws"
    by (simp add: r_def session_first_def demo_session_def roster_allocate_def roster_default_def roster_insert_def Let_def)
  from roster_entries_genuine [OF step ws] show ?thesis using step ws by blast
qed

text \<open>Worker ids are distinct for the first 2^32 registrations, and the next one wraps around
  to the first id again.\<close>

lemma worker_ids_wrap:
  "(\<forall>m n. m < n \<and> n < 2 ^ 32 \<longrightarrow>
      fst (roster_allocate (allocate_n m r)) \<noteq> fst (roster_allocate (allocate_n n r))) \<and>
   fst (roster_allocate (allocate_n (2 ^ 32) r)) = fst (roster_allocate r)"
  using allocated_ids_distinct allocated_id_wraps by blast

lemma worker_ids_wrap_witness:
  "fst (roster_allocate (allocate_n 1 roster_default)) \<noteq> fst (roster_allocate (allocate_n 2 roster_default))"
proof -
  have "(1 :: nat) < 2 \<and> (2 :: nat) < 2 ^ 32" by simp
  then show ?thesis using worker_ids_wrap [of roster_default] by blast
qed

text \<open>C29: In every reachable state of the accept loop the limiter's counters are the numbers of
  open connections, in total and per peer, both within their caps; the global counter never
  underflows and no token bucket exceeds its burst size.\<close>

theorem limiter_counts_connections:
  assumes "(accept_step c)\<^sup>*\<^sup>* (limiter_new, []) (l, conns)"
  shows "li_active_total l = length conns \<and> length conns \<le> lc_max_active_total c \<and>
    (\<forall>ip. active_of l ip = count_list conns ip \<and> count_list conns ip \<le> lc_max_per_ip c) \<and>
    (\<forall>(ip, e) \<in> set (li_state l). ib_tokens e \<le> lc_burst c)"
  using accept_loop.reachable_inv [OF refl assms] by (simp add: limiter_inv_def)

lemma limiter_counts_connections_witness:
  "\<exists>l. (accept_step \<lparr>lc_max_per_ip = 1, lc_rate_per_sec = 1, lc_burst = 1, lc_max_active_total = 1\<rparr>)\<^sup>*\<^sup>*
     (limiter_new, []) (l, [[1]]) \<and> li_active_total l = 1"
proof -
  let ?c = "\<lparr>lc_max_per_ip = 1, lc_rate_per_sec = 1, lc_burst = 1, lc_max_active_total = 1\<rparr>"
  define l where "l = fst (try_acquire ?c 0 [1] limiter_new)"
  have "try_acquire ?c 0 [1] limiter_new = (l, Inr ())"
    by (simp add: l_def try_acquire_def limiter_new_def refill_def Let_def)
  then have step: "(accept_step ?c)\<^sup>*\<^sup>* (limiter_new, []) (l, [[1]])"
    by (intro r_into_rtranclp accept_step.admit)
  from limiter_counts_connections [OF this] show ?thesis using step by auto
qed

end
