(* ===== verification/Dns_Chain.thy ===== *)
theory Dns_Chain
  imports Signature_Bindings Shard_Prover
begin

text \<open>
  \<open>prover.rs\<close>: the domain-to-address lookup tree, the three-layer DNS record chain (KSK signs
  the DNSKEY set, ZSK signs the record set, a Merkle path opens the lookup tree), the
  aggregation of chains into sets (version 4: a flat list of commitments, version 5: a Merkle
  root of them) and the per-epoch binding.  A failed \<open>assert!\<close> of a prover is \<open>None\<close>.
\<close>

section \<open>The lookup tree\<close>

definition dns_lookup_leaf_hash :: "ext \<Rightarrow> bytes \<Rightarrow> bytes \<Rightarrow> bytes" where
  "dns_lookup_leaf_hash E nm ip =
     sha3_256_parts E [ascii ''DNS-LOOKUP-LEAF-V1'', le64 (word_of_nat (length nm)), nm,
       le64 (word_of_nat (length ip)), ip]"

definition dns_lookup_build_tree ::
  "ext \<Rightarrow> (bytes \<times> bytes) list \<Rightarrow> (bytes \<times> bytes list list) option" where
  "dns_lookup_build_tree E records =
     (if records = [] then None
      else case merkle_build E (map (\<lambda>(d, ip). dns_lookup_leaf_hash E d ip) records) of
             None \<Rightarrow> None
           | Some levels \<Rightarrow> map_option (\<lambda>root. (root, levels)) (merkle_root levels))"

record lookup_inclusion =
  li_domain :: bytes
  li_ip_bytes :: bytes
  li_path :: "bytes list"
  li_leaf_index :: nat

definition inclusion_ok :: "ext \<Rightarrow> lookup_inclusion \<Rightarrow> bytes \<Rightarrow> bool" where
  "inclusion_ok E inc mroot =
     merkle_verify E (dns_lookup_leaf_hash E (li_domain inc) (li_ip_bytes inc))
       (li_leaf_index inc) (li_path inc) mroot"

section \<open>One chain\<close>

definition dns_record_chain_pi_hash ::
  "ext \<Rightarrow> bytes \<Rightarrow> bytes \<Rightarrow> bytes \<Rightarrow> bytes \<Rightarrow> bytes \<Rightarrow> bytes \<Rightarrow> lookup_inclusion \<Rightarrow> bytes \<Rightarrow> bytes \<Rightarrow>
     bytes \<Rightarrow> bytes \<Rightarrow> bytes" where
  "dns_record_chain_pi_hash E ksk zsk ksig dnskey_rrset zsig rec_rrset inc mroot fs root1 root2 =
     sha3_256_parts E
      ([ascii ''DNS-RECORD-CHAIN-V3'', ksk, zsk, ksig,
        le64 (word_of_nat (length dnskey_rrset)), dnskey_rrset, zsig,
        le64 (word_of_nat (length rec_rrset)), rec_rrset,
        le64 (word_of_nat (length (li_domain inc))), li_domain inc,
        le64 (word_of_nat (length (li_ip_bytes inc))), li_ip_bytes inc,
        le64 (word_of_nat (li_leaf_index inc)),
        le64 (word_of_nat (length (li_path inc)))] @ li_path inc @
       [mroot, fs, root1, root2])"

record chain_bundle =
  cb_pi_hash :: bytes
  cb_ksk_pubkey :: bytes
  cb_zsk_pubkey :: bytes
  cb_ksk_to_dnskey_sig :: bytes
  cb_dnskey_rrset :: bytes
  cb_zsk_to_rec_sig :: bytes
  cb_rec_rrset :: bytes
  cb_inclusion :: lookup_inclusion
  cb_merkle_root :: bytes
  cb_fs_binding :: bytes
  cb_ksk_proof :: bytes
  cb_ksk_root_f0 :: bytes
  cb_zsk_proof :: bytes
  cb_zsk_root_f0 :: bytes
  cb_stark_present :: bool

datatype chain_error =
    ChainPiHashMismatch | KskToDnskeySignatureInvalid | ZskToRecSignatureInvalid
  | LookupInclusionInvalid | StarkProofInvalid | ChainParamsPanic

definition prove_dns_record_chain_native ::
  "ext \<Rightarrow> ed25519 \<Rightarrow> bytes \<Rightarrow> bytes \<Rightarrow> bytes \<Rightarrow> bytes \<Rightarrow> bytes \<Rightarrow> bytes \<Rightarrow> lookup_inclusion \<Rightarrow> bytes \<Rightarrow>
     bytes \<Rightarrow> chain_bundle option" where
  "prove_dns_record_chain_native E ed ksk ksig dnskey_rrset zsk zsig rec_rrset inc mroot fs =
     (if \<not> ed ksk ksig dnskey_rrset then None
      else if \<not> ed zsk zsig rec_rrset then None
      else if \<not> inclusion_ok E inc mroot then None
      else Some
        \<lparr>cb_pi_hash = dns_record_chain_pi_hash E ksk zsk ksig dnskey_rrset zsig rec_rrset inc mroot fs
                        zero32 zero32,
         cb_ksk_pubkey = ksk, cb_zsk_pubkey = zsk, cb_ksk_to_dnskey_sig = ksig,
         cb_dnskey_rrset = dnskey_rrset, cb_zsk_to_rec_sig = zsig, cb_rec_rrset = rec_rrset,
         cb_inclusion = inc, cb_merkle_root = mroot, cb_fs_binding = fs,
         cb_ksk_proof = [], cb_ksk_root_f0 = zero32, cb_zsk_proof = [], cb_zsk_root_f0 = zero32,
         cb_stark_present = False\<rparr>)"

text \<open>The commitment the verifier recomputes from a bundle.\<close>

definition chain_commitment :: "ext \<Rightarrow> chain_bundle \<Rightarrow> bytes" where
  "chain_commitment E b =
     dns_record_chain_pi_hash E (cb_ksk_pubkey b) (cb_zsk_pubkey b) (cb_ksk_to_dnskey_sig b)
       (cb_dnskey_rrset b) (cb_zsk_to_rec_sig b) (cb_rec_rrset b) (cb_inclusion b)
       (cb_merkle_root b) (cb_fs_binding b)
       (if cb_stark_present b then cb_ksk_root_f0 b else zero32)
       (if cb_stark_present b then cb_zsk_root_f0 b else zero32)"

definition verify_dns_record_chain_runtime ::
  "ext \<Rightarrow> ed25519 \<Rightarrow> chain_bundle \<Rightarrow> chain_error + unit" where
  "verify_dns_record_chain_runtime E ed b =
     (if chain_commitment E b \<noteq> cb_pi_hash b then Inl ChainPiHashMismatch
      else if \<not> ed (cb_ksk_pubkey b) (cb_ksk_to_dnskey_sig b) (cb_dnskey_rrset b)
        then Inl KskToDnskeySignatureInvalid
      else if \<not> ed (cb_zsk_pubkey b) (cb_zsk_to_rec_sig b) (cb_rec_rrset b)
        then Inl ZskToRecSignatureInvalid
      else if \<not> inclusion_ok E (cb_inclusion b) (cb_merkle_root b) then Inl LookupInclusionInvalid
      else Inr ())"

fun verify_blobs :: "'p stark \<Rightarrow> deep_fri_params \<Rightarrow> bytes list \<Rightarrow> chain_error + unit" where
  "verify_blobs S params [] = Inr ()"
| "verify_blobs S params (blob # blobs) =
     (case proof_deser S blob of
        None \<Rightarrow> Inl StarkProofInvalid
      | Some pf \<Rightarrow> if \<not> fri_verify S params pf then Inl StarkProofInvalid
                  else verify_blobs S params blobs)"

definition verify_dns_record_chain_stark ::
  "ext \<Rightarrow> 'p stark \<Rightarrow> ed25519 \<Rightarrow> nat \<Rightarrow> ldt_mode \<Rightarrow> chain_bundle \<Rightarrow> chain_error + unit" where
  "verify_dns_record_chain_stark E S ed n_trace ldt b =
     (if \<not> cb_stark_present b then verify_dns_record_chain_runtime E ed b
      else case verify_dns_record_chain_runtime E ed b of
             Inl e \<Rightarrow> Inl e
           | Inr _ \<Rightarrow>
               (case build_params (usize_mul n_trace blowup) (cb_fs_binding b) ldt of
                  None \<Rightarrow> Inl ChainParamsPanic
                | Some params \<Rightarrow> verify_blobs S params [cb_ksk_proof b, cb_zsk_proof b]))"

lemma runtime_ok_iff:
  "verify_dns_record_chain_runtime E ed b = Inr () \<longleftrightarrow>
     chain_commitment E b = cb_pi_hash b \<and>
     ed (cb_ksk_pubkey b) (cb_ksk_to_dnskey_sig b) (cb_dnskey_rrset b) \<and>
     ed (cb_zsk_pubkey b) (cb_zsk_to_rec_sig b) (cb_rec_rrset b) \<and>
     inclusion_ok E (cb_inclusion b) (cb_merkle_root b)"
  by (simp add: verify_dns_record_chain_runtime_def)

lemma verify_blobs_ok_iff [simp]:
  "verify_blobs S params blobs = Inr () \<longleftrightarrow>
     (\<forall>b \<in> set blobs. \<exists>pf. proof_deser S b = Some pf \<and> fri_verify S params pf)"
  by (induction blobs) (auto split: option.split)

lemma stark_ok_runtime:
  "verify_dns_record_chain_stark E S ed n ldt b = Inr () \<Longrightarrow>
     verify_dns_record_chain_runtime E ed b = Inr ()"
  by (auto simp: verify_dns_record_chain_stark_def split: if_splits sum.splits)

text \<open>A lookup tree over a list of records opens at every record.\<close>

lemma lookup_tree_opens:
  assumes "dns_lookup_build_tree E records = Some (root, levels)" "i < length records"
  shows "\<exists>p. merkle_path levels i = Some p \<and>
    inclusion_ok E \<lparr>li_domain = fst (records ! i), li_ip_bytes = snd (records ! i), li_path = p,
      li_leaf_index = i\<rparr> root"
proof -
  have ne: "records \<noteq> []" using assms(2) by auto
  have b: "merkle_build E (map (\<lambda>(d, ip). dns_lookup_leaf_hash E d ip) records) = Some levels"
      "merkle_root levels = Some root"
    using assms(1) by (auto simp: dns_lookup_build_tree_def split: if_splits option.splits)
  from dns.open_verifies [OF b(1) _ b(2), of i] assms(2)
  show ?thesis by (auto simp: inclusion_ok_def case_prod_unfold)
qed

section \<open>Chain sets, version 4\<close>

record chain_set =
  cs_bundle_pi_hashes :: "bytes list"
  cs_outer :: outer_rollup_output
  cs_fs_binding :: bytes
  cs_set_pi_hash :: bytes

definition dns_record_chain_set_pi_hash :: "ext \<Rightarrow> bytes list \<Rightarrow> bytes \<Rightarrow> bytes \<Rightarrow> bytes" where
  "dns_record_chain_set_pi_hash E pis outer_root fs =
     sha3_256_parts E
       ([ascii ''DNS-CHAIN-SET-V4'', le64 (word_of_nat (length pis))] @ pis @ [outer_root, fs])"

datatype chain_set_error =
    SetPiHashMismatch | BundlePiHashMismatch | InnerBundleInvalid chain_error
  | OuterProofInvalid | BundleCountMismatch | SetParamsPanic

definition prove_dns_record_chain_set ::
  "ext \<Rightarrow> 'p stark \<Rightarrow> chain_bundle list \<Rightarrow> bytes \<Rightarrow> ldt_mode \<Rightarrow> chain_set option" where
  "prove_dns_record_chain_set E S bundles fs ldt =
     (if bundles = [] then None
      else if \<exists>b \<in> set bundles. cb_fs_binding b \<noteq> fs then None
      else
        let pis = map cb_pi_hash bundles
        in map_option (\<lambda>outer.
             \<lparr>cs_bundle_pi_hashes = pis, cs_outer = outer, cs_fs_binding = fs,
              cs_set_pi_hash = dns_record_chain_set_pi_hash E pis (or_root_f0 outer) fs\<rparr>)
           (prove_outer_rollup S pis fs ldt))"

fun verify_members ::
  "(chain_bundle \<Rightarrow> chain_error + unit) \<Rightarrow> chain_bundle list \<Rightarrow> bytes list \<Rightarrow> chain_set_error + unit" where
  "verify_members vf (b # bs) (p # ps) =
     (if cb_pi_hash b \<noteq> p then Inl BundlePiHashMismatch
      else case vf b of Inl e \<Rightarrow> Inl (InnerBundleInvalid e) | Inr _ \<Rightarrow> verify_members vf bs ps)"
| "verify_members vf bs ps = Inr ()"

definition verify_outer_rollup ::
  "'p stark \<Rightarrow> outer_rollup_output \<Rightarrow> bytes \<Rightarrow> ldt_mode \<Rightarrow> chain_set_error + unit" where
  "verify_outer_rollup S outer fs ldt =
     (case proof_deser S (or_proof_blob outer) of
        None \<Rightarrow> Inl OuterProofInvalid
      | Some pf \<Rightarrow>
          (case build_params (or_n0 outer) fs ldt of
             None \<Rightarrow> Inl SetParamsPanic
           | Some params \<Rightarrow>
               if \<not> fri_verify S params pf then Inl OuterProofInvalid
               else if root_f0_of S pf \<noteq> or_root_f0 outer then Inl OuterProofInvalid
               else Inr ()))"

definition verify_dns_record_chain_set ::
  "ext \<Rightarrow> 'p stark \<Rightarrow> ed25519 \<Rightarrow> chain_set \<Rightarrow> chain_bundle list \<Rightarrow> ldt_mode \<Rightarrow> bool \<Rightarrow> nat \<Rightarrow>
     chain_set_error + unit" where
  "verify_dns_record_chain_set E S ed st bundles ldt verify_stark inner_n_trace =
     (if length bundles \<noteq> length (cs_bundle_pi_hashes st) then Inl BundleCountMismatch
      else if dns_record_chain_set_pi_hash E (cs_bundle_pi_hashes st) (or_root_f0 (cs_outer st))
                (cs_fs_binding st) \<noteq> cs_set_pi_hash st then Inl SetPiHashMismatch
      else case verify_members
                  (if verify_stark then verify_dns_record_chain_stark E S ed inner_n_trace ldt
                   else verify_dns_record_chain_runtime E ed)
                  bundles (cs_bundle_pi_hashes st) of
             Inl e \<Rightarrow> Inl e
           | Inr _ \<Rightarrow> verify_outer_rollup S (cs_outer st) (cs_fs_binding st) ldt)"

lemma verify_members_ok_iff:
  "length bs = length ps \<Longrightarrow> verify_members vf bs ps = Inr () \<longleftrightarrow>
     map cb_pi_hash bs = ps \<and> (\<forall>b \<in> set bs. vf b = Inr ())"
  by (induction bs ps rule: list_induct2) (auto split: sum.split)

lemma prove_outer_rollup_verifies:
  assumes "prove_outer_rollup S pis fs ldt = Some outer" "codec_ok S"
  shows "verify_outer_rollup S outer fs ldt = Inr ()"
proof -
  let ?n = "next_pow2 (length (concat (map pack_hash_to_leaves pis)))"
  obtain params pf where "build_params (usize_mul ?n blowup) fs ldt = Some params" "fri_verify S params pf"
    and outer: "\<lparr>or_n_trace = ?n, or_root_f0 = root_f0_of S pf, or_proof_blob = proof_ser S pf,
      or_n0 = usize_mul ?n blowup\<rparr> = outer"
    using assms(1) unfolding prove_outer_rollup_def Let_def
    by (simp split: option.splits if_splits)
  then show ?thesis
    using assms(2) unfolding outer [symmetric] verify_outer_rollup_def codec_ok_def by simp
qed

section \<open>Chain sets, version 5\<close>

definition dns_chain_set_v5_leaf :: "ext \<Rightarrow> bytes \<Rightarrow> bytes" where
  "dns_chain_set_v5_leaf E p = sha3_256_parts E [ascii ''DNS-CHAIN-SET-LEAF-V5'', p]"

record chain_set_v5 =
  c5_root :: bytes
  c5_count :: nat
  c5_outer :: outer_rollup_output
  c5_fs_binding :: bytes
  c5_set_pi_hash :: bytes

definition dns_record_chain_set_pi_hash_v5 :: "ext \<Rightarrow> bytes \<Rightarrow> nat \<Rightarrow> bytes \<Rightarrow> bytes \<Rightarrow> bytes" where
  "dns_record_chain_set_pi_hash_v5 E root count outer_root fs =
     sha3_256_parts E [ascii ''DNS-CHAIN-SET-V5'', le64 (word_of_nat count), root, outer_root, fs]"

definition prove_dns_record_chain_set_v5 ::
  "ext \<Rightarrow> 'p stark \<Rightarrow> chain_bundle list \<Rightarrow> bytes \<Rightarrow> ldt_mode \<Rightarrow> (chain_set_v5 \<times> bytes list list) option" where
  "prove_dns_record_chain_set_v5 E S bundles fs ldt =
     (if bundles = [] then None
      else
        let pis = map cb_pi_hash bundles
        in case prove_outer_rollup S pis fs ldt of None \<Rightarrow> None
         | Some outer \<Rightarrow>
        (case merkle_build E (map (dns_chain_set_v5_leaf E) pis) of None \<Rightarrow> None
         | Some levels \<Rightarrow>
        (case merkle_root levels of None \<Rightarrow> None
         | Some root \<Rightarrow>
             Some (\<lparr>c5_root = root, c5_count = length bundles, c5_outer = outer, c5_fs_binding = fs,
                    c5_set_pi_hash = dns_record_chain_set_pi_hash_v5 E root (length bundles)
                                       (or_root_f0 outer) fs\<rparr>, levels))))"

definition verify_dns_record_chain_set_membership ::
  "ext \<Rightarrow> 'p stark \<Rightarrow> ed25519 \<Rightarrow> chain_set_v5 \<Rightarrow> chain_bundle \<Rightarrow> nat \<Rightarrow> bytes list \<Rightarrow> ldt_mode \<Rightarrow>
     chain_set_error + unit" where
  "verify_dns_record_chain_set_membership E S ed st b index path ldt =
     (if dns_record_chain_set_pi_hash_v5 E (c5_root st) (c5_count st) (or_root_f0 (c5_outer st))
           (c5_fs_binding st) \<noteq> c5_set_pi_hash st then Inl SetPiHashMismatch
      else case verify_dns_record_chain_runtime E ed b of
             Inl e \<Rightarrow> Inl (InnerBundleInvalid e)
           | Inr _ \<Rightarrow>
               if \<not> merkle_verify E (dns_chain_set_v5_leaf E (cb_pi_hash b)) index path (c5_root st)
               then Inl BundlePiHashMismatch
               else verify_outer_rollup S (c5_outer st) (c5_fs_binding st) ldt)"

definition epoch_fs_binding :: "ext \<Rightarrow> bytes \<Rightarrow> u64 \<Rightarrow> u64 \<Rightarrow> bytes" where
  "epoch_fs_binding E zone_fs epoch_id serial =
     sha3_256_parts E [ascii ''EPOCH-FS-V1'', zone_fs, le64 epoch_id, le64 serial]"

end
