(* ===== verification/Dns_Chain_Props.thy ===== *)
theory Dns_Chain_Props
  imports Dns_Chain Concrete
begin

text \<open>
  Properties of the DNS record chains: what the provers emit is accepted, what a set commitment
  binds, and what the chain verifier leaves unlinked.
\<close>

section \<open>What a chain commitment binds\<close>

text \<open>The fields of a bundle that the commitment covers.\<close>

definition chain_content :: "chain_bundle \<Rightarrow> _" where
  "chain_content b = (cb_ksk_pubkey b, cb_zsk_pubkey b, cb_ksk_to_dnskey_sig b, cb_dnskey_rrset b,
     cb_zsk_to_rec_sig b, cb_rec_rrset b, cb_inclusion b, cb_merkle_root b, cb_fs_binding b)"

text \<open>The array types of the Rust struct, and lengths a 64-bit prefix can represent.\<close>

definition chain_wf :: "chain_bundle \<Rightarrow> bool" where
  "chain_wf b \<longleftrightarrow>
     length (cb_ksk_pubkey b) = 32 \<and> length (cb_zsk_pubkey b) = 32 \<and>
     length (cb_ksk_to_dnskey_sig b) = 64 \<and> length (cb_zsk_to_rec_sig b) = 64 \<and>
     length (cb_dnskey_rrset b) < 2 ^ 64 \<and> length (cb_rec_rrset b) < 2 ^ 64 \<and>
     length (li_domain (cb_inclusion b)) < 2 ^ 64 \<and> length (li_ip_bytes (cb_inclusion b)) < 2 ^ 64 \<and>
     li_leaf_index (cb_inclusion b) < 2 ^ 64 \<and> length (li_path (cb_inclusion b)) < 2 ^ 64 \<and>
     (\<forall>s \<in> set (li_path (cb_inclusion b)). length s = 32) \<and>
     length (cb_merkle_root b) = 32 \<and> length (cb_fs_binding b) = 32 \<and>
     length (cb_pi_hash b) = 32"

text \<open>A length-prefixed field at the front of two equal byte strings.\<close>

lemma prefixed_inject:
  assumes "length a < 2 ^ 64" "length b < 2 ^ 64"
  shows "le64 (word_of_nat (length a)) @ a @ r = le64 (word_of_nat (length b)) @ b @ r' \<longleftrightarrow>
    a = b \<and> r = r'"
  using le64_nat_inj [OF assms] by auto

lemma fixed_inject:
  "length a = 32 \<Longrightarrow> length b = 32 \<Longrightarrow> a @ r = b @ r' \<longleftrightarrow> a = b \<and> r = r'"
  "length a = 64 \<Longrightarrow> length b = 64 \<Longrightarrow> a @ r = b @ r' \<longleftrightarrow> a = b \<and> r = r'"
  by simp_all

lemma index_inject:
  "i < 2 ^ 64 \<Longrightarrow> j < 2 ^ 64 \<Longrightarrow>
     le64 (word_of_nat i) @ r = le64 (word_of_nat j) @ r' \<longleftrightarrow> i = j \<and> r = r'"
  using le64_nat_inj by auto

text \<open>The string a chain commitment hashes.\<close>

definition chain_input :: "chain_bundle \<Rightarrow> bytes" where
  "chain_input b = concat
     ([ascii ''DNS-RECORD-CHAIN-V3'', cb_ksk_pubkey b, cb_zsk_pubkey b, cb_ksk_to_dnskey_sig b,
       le64 (word_of_nat (length (cb_dnskey_rrset b))), cb_dnskey_rrset b, cb_zsk_to_rec_sig b,
       le64 (word_of_nat (length (cb_rec_rrset b))), cb_rec_rrset b,
       le64 (word_of_nat (length (li_domain (cb_inclusion b)))), li_domain (cb_inclusion b),
       le64 (word_of_nat (length (li_ip_bytes (cb_inclusion b)))), li_ip_bytes (cb_inclusion b),
       le64 (word_of_nat (li_leaf_index (cb_inclusion b))),
       le64 (word_of_nat (length (li_path (cb_inclusion b))))] @ li_path (cb_inclusion b) @
      [cb_merkle_root b, cb_fs_binding b, 
       if cb_stark_present b then cb_ksk_root_f0 b else zero32,
       if cb_stark_present b then cb_zsk_root_f0 b else zero32])"

lemma chain_input_inject:
  assumes wf: "chain_wf b" "chain_wf b'" and eq: "chain_input b = chain_input b'"
  shows "chain_content b = chain_content b'"
proof -
  let ?r = "\<lambda>b. (if cb_stark_present b then cb_ksk_root_f0 b else zero32) @
    (if cb_stark_present b then cb_zsk_root_f0 b else zero32)"
  have h: "cb_ksk_pubkey b = cb_ksk_pubkey b'" "cb_zsk_pubkey b = cb_zsk_pubkey b'"
    "cb_ksk_to_dnskey_sig b = cb_ksk_to_dnskey_sig b'" "cb_dnskey_rrset b = cb_dnskey_rrset b'"
    "cb_zsk_to_rec_sig b = cb_zsk_to_rec_sig b'" "cb_rec_rrset b = cb_rec_rrset b'"
    "li_domain (cb_inclusion b) = li_domain (cb_inclusion b')"
    "li_ip_bytes (cb_inclusion b) = li_ip_bytes (cb_inclusion b')"
    "li_leaf_index (cb_inclusion b) = li_leaf_index (cb_inclusion b')"
    "length (li_path (cb_inclusion b)) = length (li_path (cb_inclusion b'))"
    and t: "concat (li_path (cb_inclusion b)) @ cb_merkle_root b @ cb_fs_binding b @ ?r b =
      concat (li_path (cb_inclusion b')) @ cb_merkle_root b' @ cb_fs_binding b' @ ?r b'"
    using eq wf unfolding chain_wf_def chain_input_def
    by (simp_all only: concat.simps concat_append append_assoc append.simps append_Nil2 same_append_eq
      fixed_inject prefixed_inject
      index_inject [of "li_leaf_index (cb_inclusion b)" "li_leaf_index (cb_inclusion b')"]
      index_inject [of "length (li_path (cb_inclusion b))" "length (li_path (cb_inclusion b'))"])
  have "li_path (cb_inclusion b) = li_path (cb_inclusion b') \<and>
      cb_merkle_root b @ cb_fs_binding b @ ?r b = cb_merkle_root b' @ cb_fs_binding b' @ ?r b'"
  proof -
    have l: "\<forall>s \<in> set (li_path (cb_inclusion b)) \<union> set (li_path (cb_inclusion b')). length s = 32"
      using wf by (auto simp: chain_wf_def)
    from t show ?thesis by (simp only: concat_fixed_inject [OF h(10) l])
  qed
  then show ?thesis using h wf by (simp add: chain_content_def chain_wf_def)
qed

lemma chain_commitment_input: "chain_commitment E b = sha3_256 E (chain_input b)"
  by (simp only: chain_commitment_def dns_record_chain_pi_hash_def sha3_256_parts_def chain_input_def)

lemma chain_commitment_binding:
  assumes "chain_commitment E b = chain_commitment E b'"
    and "chain_wf b" "chain_wf b'" "chain_content b \<noteq> chain_content b'"
  shows "collision (sha3_256 E) (chain_input b) (chain_input b')"
  using chain_input_inject [OF assms(2,3)] assms(1,4) by (auto simp: chain_commitment_input collision_def)

section \<open>What is proved\<close>

lemma native_bundle_verifies:
  assumes "prove_dns_record_chain_native E ed k ks d z zs r inc m f = Some b"
  shows "verify_dns_record_chain_runtime E ed b = Inr ()" "cb_stark_present b = False"
  using assms unfolding runtime_ok_iff
  by (auto simp: prove_dns_record_chain_native_def chain_commitment_def split: if_splits)

lemma native_bundle_fields:
  assumes "prove_dns_record_chain_native E ed k ks d z zs r inc m f = Some b"
  shows "cb_ksk_pubkey b = k" "cb_zsk_pubkey b = z" "cb_ksk_to_dnskey_sig b = ks"
    "cb_zsk_to_rec_sig b = zs" "cb_dnskey_rrset b = d" "cb_rec_rrset b = r" "cb_inclusion b = inc"
    "cb_fs_binding b = f"
  using assms unfolding prove_dns_record_chain_native_def by (auto split: if_splits)

lemma set_v5_unfold:
  assumes "prove_dns_record_chain_set_v5 E S bundles fs ldt = Some (st, levels)"
  obtains outer root where
    "prove_outer_rollup S (map cb_pi_hash bundles) fs ldt = Some outer"
    "merkle_build E (map (dns_chain_set_v5_leaf E) (map cb_pi_hash bundles)) = Some levels"
    "merkle_root levels = Some root"
    "c5_root st = root" "c5_outer st = outer" "c5_fs_binding st = fs"
    "c5_set_pi_hash st = dns_record_chain_set_pi_hash_v5 E root (c5_count st) (or_root_f0 outer) fs"
  using assms unfolding prove_dns_record_chain_set_v5_def Let_def
  by (auto split: option.splits if_splits)

text \<open>Aggregation is complete: for any list of chain bundles that verify, a version 4 set made
  of them is accepted with these bundles, and in a version 5 set every bundle has a path, read
  off the returned levels, with which it is accepted at its own index.\<close>

lemma chain_sets_complete:
  assumes "codec_ok S" "\<forall>b \<in> set bundles. verify_dns_record_chain_runtime E ed b = Inr ()"
  shows "(\<forall>st. prove_dns_record_chain_set E S bundles fs ldt = Some st \<longrightarrow>
      verify_dns_record_chain_set E S ed st bundles ldt False n = Inr ()) \<and>
    (\<forall>st levels i. prove_dns_record_chain_set_v5 E S bundles fs ldt = Some (st, levels) \<and>
        i < length bundles \<longrightarrow>
      (\<exists>path. merkle_path levels i = Some path \<and>
        verify_dns_record_chain_set_membership E S ed st (bundles ! i) i path ldt = Inr ()))"
proof (intro conjI allI impI)
  fix st assume "prove_dns_record_chain_set E S bundles fs ldt = Some st"
  then obtain outer where outer: "prove_outer_rollup S (map cb_pi_hash bundles) fs ldt = Some outer"
    and st: "cs_bundle_pi_hashes st = map cb_pi_hash bundles" "cs_outer st = outer"
      "cs_fs_binding st = fs"
      "cs_set_pi_hash st = dns_record_chain_set_pi_hash E (map cb_pi_hash bundles) (or_root_f0 outer) fs"
    unfolding prove_dns_record_chain_set_def Let_def by (auto split: if_splits)
  have "verify_members (verify_dns_record_chain_runtime E ed) bundles (map cb_pi_hash bundles) = Inr ()"
    using assms(2) by (simp add: verify_members_ok_iff)
  then show "verify_dns_record_chain_set E S ed st bundles ldt False n = Inr ()"
    using prove_outer_rollup_verifies [OF outer assms(1)]
    by (simp add: verify_dns_record_chain_set_def st)
next
  fix st levels i
  assume a: "prove_dns_record_chain_set_v5 E S bundles fs ldt = Some (st, levels) \<and> i < length bundles"
  then obtain outer root where
    outer: "prove_outer_rollup S (map cb_pi_hash bundles) fs ldt = Some outer"
    and b: "merkle_build E (map (dns_chain_set_v5_leaf E) (map cb_pi_hash bundles)) = Some levels"
      "merkle_root levels = Some root"
    and st: "c5_root st = root" "c5_outer st = outer" "c5_fs_binding st = fs"
      "c5_set_pi_hash st = dns_record_chain_set_pi_hash_v5 E root (c5_count st) (or_root_f0 outer) fs"
    using set_v5_unfold by metis
  obtain path where "merkle_path levels i = Some path"
    "merkle_verify E (dns_chain_set_v5_leaf E (cb_pi_hash (bundles ! i))) i path root"
    using dns.open_verifies [OF b(1) _ b(2), of i] a by auto
  then show "\<exists>path. merkle_path levels i = Some path \<and>
      verify_dns_record_chain_set_membership E S ed st (bundles ! i) i path ldt = Inr ()"
    using a assms(2) prove_outer_rollup_verifies [OF outer assms(1)]
    by (simp add: verify_dns_record_chain_set_membership_def st)
qed

text \<open>A chain over a one-record lookup tree, with a signature scheme that accepts everything.\<close>

definition demo_inclusion :: lookup_inclusion where
  "demo_inclusion = \<lparr>li_domain = [97], li_ip_bytes = [10, 0, 0, 1], li_path = [], li_leaf_index = 0\<rparr>"

definition demo_chain :: chain_bundle where
  "demo_chain = the (prove_dns_record_chain_native toy_ext (\<lambda>pk sig m. True) (replicate 32 1)
     (replicate 64 2) [3] (replicate 32 4) (replicate 64 5) [6] demo_inclusion
     (dns_lookup_leaf_hash toy_ext [97] [10, 0, 0, 1]) (replicate 32 7))"

lemma demo_chain_made:
  "prove_dns_record_chain_native toy_ext (\<lambda>pk sig m. True) (replicate 32 1)
     (replicate 64 2) [3] (replicate 32 4) (replicate 64 5) [6] demo_inclusion
     (dns_lookup_leaf_hash toy_ext [97] [10, 0, 0, 1]) (replicate 32 7) = Some demo_chain"
  unfolding demo_chain_def
  by (simp add: prove_dns_record_chain_native_def inclusion_ok_def demo_inclusion_def merkle_verify_def)

lemma demo_chain_ok: "verify_dns_record_chain_runtime toy_ext (\<lambda>pk sig m. True) demo_chain = Inr ()"
  by (rule native_bundle_verifies(1) [OF demo_chain_made])

lemma demo_set_v5:
  "\<exists>st levels. prove_dns_record_chain_set_v5 toy_ext toy_stark [demo_chain] fs ldt = Some (st, levels)"
proof -
  obtain outer where outer: "prove_outer_rollup toy_stark [cb_pi_hash demo_chain] fs ldt = Some outer"
    using rollup_params_defined [of "[cb_pi_hash demo_chain]"]
    by (auto simp: prove_outer_rollup_def Let_def toy_stark_def split: option.split)
  then show ?thesis
    by (simp add: prove_dns_record_chain_set_v5_def merkle_build_def merkle_levels.simps merkle_root_def)
qed

lemma chain_sets_complete_witness:
  "\<exists>st levels path. prove_dns_record_chain_set_v5 toy_ext toy_stark [demo_chain] zero32 Fri = Some (st, levels) \<and>
     verify_dns_record_chain_set_membership toy_ext toy_stark (\<lambda>pk sig m. True) st demo_chain 0 path Fri = Inr ()"
proof -
  obtain st levels where st:
    "prove_dns_record_chain_set_v5 toy_ext toy_stark [demo_chain] zero32 Fri = Some (st, levels)"
    using demo_set_v5 by blast
  have "\<forall>b \<in> set [demo_chain]. verify_dns_record_chain_runtime toy_ext (\<lambda>pk sig m. True) b = Inr ()"
    using demo_chain_ok by simp
  from chain_sets_complete [OF toy_codec this, THEN conjunct2] st
  show ?thesis by fastforce
qed

text \<open>The strings hashed when a member of a version 5 set is checked.\<close>

definition member_inputs :: "ext \<Rightarrow> chain_bundle \<Rightarrow> nat \<Rightarrow> bytes list \<Rightarrow> bytes list" where
  "member_inputs E b i p = [chain_input b, ascii ''DNS-CHAIN-SET-LEAF-V5'' @ cb_pi_hash b] @
     climb_inputs E (dns_chain_set_v5_leaf E (cb_pi_hash b)) i p"

text \<open>A version 5 set binds its members: two bundles accepted at the same index with paths of
  the same length have the same keys, signatures, record sets, inclusion, root and binding, or
  a string hashed in checking the first and one hashed in checking the second are a SHA3-256
  collision.\<close>

lemma chain_set_member_binding:
  assumes "verify_dns_record_chain_set_membership E S ed st b i p ldt = Inr ()"
    and "verify_dns_record_chain_set_membership E S ed st b' i p' ldt' = Inr ()"
    and "chain_wf b" "chain_wf b'" "length p = length p'" "\<forall>x \<in> set p \<union> set p'. length x = 32"
    and "sha3_len_ok E" "chain_content b \<noteq> chain_content b'"
  shows "collides (sha3_256 E) (member_inputs E b i p) (member_inputs E b' i p')"
proof -
  have acc: "merkle_climb E (dns_chain_set_v5_leaf E (cb_pi_hash b)) i p = c5_root st"
    "merkle_climb E (dns_chain_set_v5_leaf E (cb_pi_hash b')) i p' = c5_root st"
    "chain_commitment E b = cb_pi_hash b" "chain_commitment E b' = cb_pi_hash b'"
    using assms(1,2)
    by (auto simp: verify_dns_record_chain_set_membership_def merkle_verify_def
        verify_dns_record_chain_runtime_def split: if_splits)
  consider "cb_pi_hash b = cb_pi_hash b'"
    | "cb_pi_hash b \<noteq> cb_pi_hash b'"
      "dns_chain_set_v5_leaf E (cb_pi_hash b) = dns_chain_set_v5_leaf E (cb_pi_hash b')"
    | "dns_chain_set_v5_leaf E (cb_pi_hash b) \<noteq> dns_chain_set_v5_leaf E (cb_pi_hash b')"
    by blast
  then show ?thesis
  proof cases
    case 1
    then have "collision (sha3_256 E) (chain_input b) (chain_input b')"
      using chain_commitment_binding [OF _ assms(3,4,8)] acc(3,4) by simp
    then show ?thesis by (simp add: member_inputs_def collides_def)
  next
    case 2
    then have "collision (sha3_256 E) (ascii ''DNS-CHAIN-SET-LEAF-V5'' @ cb_pi_hash b)
        (ascii ''DNS-CHAIN-SET-LEAF-V5'' @ cb_pi_hash b')"
      by (simp add: dns_chain_set_v5_leaf_def sha3_256_parts_def collision_def)
    then show ?thesis by (simp add: member_inputs_def collides_def)
  next
    case 3
    show ?thesis unfolding member_inputs_def
      by (rule collides_append(2), rule merkle_climb_binding [OF assms(7,5) _ 3])
        (use acc(1,2) assms(6,7) in \<open>simp_all add: dns_chain_set_v5_leaf_def sha3_256_parts_def length_sha3\<close>)
  qed
qed

text \<open>The three layers of a chain are not linked to each other: in an accepted bundle the
  ZSK layer may be replaced by any key, signature and record set that verify together, and the
  lookup layer by any inclusion that verifies against a root of its own; with the commitment
  recomputed the bundle is still accepted.  Nothing checks that the DNSKEY set contains the
  ZSK, or the record set the looked-up name and address.\<close>

lemma chain_layers_unlinked:
  assumes "verify_dns_record_chain_runtime E ed b = Inr ()" "cb_stark_present b = False"
    and "ed zsk zsig rec_rrset" "inclusion_ok E inc mroot"
  shows "\<exists>p. verify_dns_record_chain_runtime E ed (b\<lparr>cb_zsk_pubkey := zsk, cb_zsk_to_rec_sig := zsig,
    cb_rec_rrset := rec_rrset, cb_inclusion := inc, cb_merkle_root := mroot, cb_pi_hash := p\<rparr>) = Inr ()"
  using assms unfolding runtime_ok_iff by (auto simp: chain_commitment_def)

lemma chain_layers_unlinked_witness:
  "\<exists>p. verify_dns_record_chain_runtime toy_ext (\<lambda>pk sig m. True) (demo_chain\<lparr>cb_zsk_pubkey := [9],
    cb_zsk_to_rec_sig := [], cb_rec_rrset := [], cb_inclusion := demo_inclusion\<lparr>li_ip_bytes := [6, 6, 6, 6]\<rparr>,
    cb_merkle_root := dns_lookup_leaf_hash toy_ext [97] [6, 6, 6, 6], cb_pi_hash := p\<rparr>) = Inr ()"
  by (rule chain_layers_unlinked [OF demo_chain_ok native_bundle_verifies(2) [OF demo_chain_made]])
    (simp_all add: inclusion_ok_def demo_inclusion_def merkle_verify_def)

lemma chain_set_member_binding_witness:
  "\<exists>E b b'. collides (sha3_256 E) (member_inputs E b 0 []) (member_inputs E b' 0 [])"
proof -
  define E where "E = toy_ext\<lparr>sha3_256 := \<lambda>x. replicate 32 0\<rparr>"
  have sha: "sha3_256 E = (\<lambda>x. zero32)" by (simp add: E_def)
  let ?b = "demo_chain\<lparr>cb_pi_hash := zero32, cb_merkle_root := zero32\<rparr>"
  let ?b' = "?b\<lparr>cb_rec_rrset := []\<rparr>"
  note d = native_bundle_fields [OF demo_chain_made]
  define st where "st = \<lparr>c5_root = zero32, c5_count = 1, c5_outer = \<lparr>or_n_trace = 8,
      or_root_f0 = pad32 [1], or_proof_blob = [1], or_n0 = 8 * blowup\<rparr>, c5_fs_binding = zero32,
      c5_set_pi_hash = zero32\<rparr>"
  have "8 * blowup = 2 ^ 8" by (simp add: blowup_def)
  then have p: "is_power_of_two (8 * blowup)" unfolding is_power_of_two_iff by blast
  obtain prm where "build_params (8 * blowup) zero32 Fri = Some prm"
    using make_schedule_defined [OF p, of Fri] by (auto simp: build_params_def)
  then have o: "verify_outer_rollup toy_stark (c5_outer st) zero32 Fri = Inr ()"
    by (simp add: verify_outer_rollup_def st_def toy_stark_def)
  have h: "sha3_256_parts E xs = zero32" for xs by (simp add: sha3_256_parts_def sha)
  have "verify_dns_record_chain_set_membership E toy_stark (\<lambda>pk sig m. True) st c 0 [] Fri = Inr ()"
    if "cb_pi_hash c = zero32" "cb_merkle_root c = zero32" "cb_inclusion c = demo_inclusion" for c
    using o that
    by (simp add: verify_dns_record_chain_set_membership_def verify_dns_record_chain_runtime_def
        chain_commitment_def dns_record_chain_pi_hash_def dns_record_chain_set_pi_hash_v5_def h
        inclusion_ok_def dns_lookup_leaf_hash_def demo_inclusion_def merkle_verify_def
        dns_chain_set_v5_leaf_def st_def)
  moreover have "sha3_len_ok E" by (simp add: sha3_len_ok_def sha)
  ultimately show ?thesis
    by (intro exI [of _ E] exI [of _ ?b] exI [of _ ?b'] chain_set_member_binding [of E toy_stark "\<lambda>pk sig m. True" st ?b 0 "[]" Fri ?b' "[]" Fri])
      (simp_all add: d chain_wf_def chain_content_def demo_inclusion_def)
qed

end
