(* ===== verification/Merkle_Channel.thy ===== *)
theory Merkle_Channel
  imports Shard_Prover
begin

text \<open>
  The commitment tree of \<open>crates/merkle\<close>: labelled leaf and node hashes, the tree that is kept in
  full (\<open>push_leaf\<close>, \<open>finalize\<close>, \<open>open\<close>), the compact tree that drops its bottom binary levels and
  rebuilds them for an opening (\<open>commit_compact\<close>, \<open>open_compact\<close>), and the verifier of openings.
  The hash chosen at compile time is a record \<open>hasher\<close>, the byte form of a field element a
  function \<open>fb\<close> (\<open>field_to_bytes\<close> of the canonical integers of \<open>arkworks\<close>).  \<open>None\<close> is a panic: an index past
  \<open>layer_arities\<close>, a division by arity 0, an empty tree.  The \<open>rayon\<close> branches compute the same
  lists in parallel.
\<close>

section \<open>Hashes\<close>

record hasher =
  hs_digest :: "bytes \<Rightarrow> bytes"
  hash_bytes :: nat

definition finalize_hash :: "hasher \<Rightarrow> bytes \<Rightarrow> bytes" where
  "finalize_hash h x = take (hash_bytes h) (hs_digest h x)"

text \<open>The assertion of \<open>finalize_hash\<close>: the digest has at least \<open>HASH_BYTES\<close> bytes.\<close>

definition hasher_ok :: "hasher \<Rightarrow> bool" where
  "hasher_ok h \<longleftrightarrow> (\<forall>x. hash_bytes h \<le> length (hs_digest h x))"

lemma length_finalize_hash [simp]: "hasher_ok h \<Longrightarrow> length (finalize_hash h x) = hash_bytes h"
  by (simp add: finalize_hash_def hasher_ok_def min_absorb2)

record ds_label =
  dl_arity :: nat
  dl_level :: u32
  dl_position :: u64
  dl_tree_label :: u64

definition ds_to_bytes :: "ds_label \<Rightarrow> bytes" where
  "ds_to_bytes d = le64 (word_of_nat (dl_arity d)) @ le64 (ucast (dl_level d)) @
     le64 (dl_position d) @ le64 (dl_tree_label d)"

definition LEAF_LEVEL_DS :: u32 where "LEAF_LEVEL_DS = 0xFFFFFFFF"

text \<open>\<open>into_bigint\<close> is the canonical integer of a field element, below the 64-bit modulus.\<close>

definition field_to_bytes :: "('f \<Rightarrow> u64) \<Rightarrow> 'f \<Rightarrow> bytes" where
  "field_to_bytes into_bigint x = le64 (into_bigint x)"

definition field_values :: "('f \<Rightarrow> bytes) \<Rightarrow> 'f list \<Rightarrow> bytes" where
  "field_values fb vs = concat (map fb vs)"

text \<open>The default build; the feature \<open>poseidon-accel\<close>, off by default, compresses the values first.\<close>

definition compress_leaf_standalone ::
    "hasher \<Rightarrow> ('f \<Rightarrow> bytes) \<Rightarrow> nat \<Rightarrow> u64 \<Rightarrow> u64 \<Rightarrow> 'f list \<Rightarrow> bytes" where
  "compress_leaf_standalone h fb arity label position values = finalize_hash h
     (ds_to_bytes \<lparr>dl_arity = arity, dl_level = LEAF_LEVEL_DS, dl_position = position,
        dl_tree_label = label\<rparr> @ field_values fb values)"

definition compress_node_standalone ::
    "hasher \<Rightarrow> nat \<Rightarrow> u64 \<Rightarrow> u32 \<Rightarrow> u64 \<Rightarrow> bytes list \<Rightarrow> bytes" where
  "compress_node_standalone h arity label level position children = finalize_hash h
     (ds_to_bytes \<lparr>dl_arity = arity, dl_level = level, dl_position = position,
        dl_tree_label = label\<rparr> @ concat children)"

section \<open>The tree and its full form\<close>

record merkle_cfg =
  layer_arities :: "nat list"
  tree_label :: u64

record merkle_tree =
  mt_cfg :: merkle_cfg
  mt_skip :: nat
  mt_levels :: "bytes list list"

definition new_tree :: "merkle_cfg \<Rightarrow> merkle_tree" where
  "new_tree cfg = \<lparr>mt_cfg = cfg, mt_skip = 0, mt_levels = []\<rparr>"

record merkle_opening =
  mo_leaf :: bytes
  mo_path :: "bytes list list"
  mo_index :: nat

definition compute_leaf_hash :: "hasher \<Rightarrow> ('f \<Rightarrow> bytes) \<Rightarrow> merkle_cfg \<Rightarrow> nat \<Rightarrow> 'f list \<Rightarrow> bytes option" where
  "compute_leaf_hash h fb cfg index values =
     (case layer_arities cfg of [] \<Rightarrow> None
      | a # _ \<Rightarrow> Some (compress_leaf_standalone h fb a (tree_label cfg) (word_of_nat index) values))"

definition with_level0 :: "bytes list list \<Rightarrow> (bytes list \<Rightarrow> bytes list) \<Rightarrow> bytes list list" where
  "with_level0 levels f = (case levels of [] \<Rightarrow> [f []] | l # ls \<Rightarrow> f l # ls)"

definition push_leaf ::
    "hasher \<Rightarrow> ('f \<Rightarrow> bytes) \<Rightarrow> 'f list \<Rightarrow> merkle_tree \<Rightarrow> merkle_tree option" where
  "push_leaf h fb values t =
     (case layer_arities (mt_cfg t) of [] \<Rightarrow> None
      | a # _ \<Rightarrow> Some (t\<lparr>mt_levels := with_level0 (mt_levels t) (\<lambda>l.
          l @ [compress_leaf_standalone h fb a (tree_label (mt_cfg t)) (word_of_nat (length l)) values])\<rparr>))"

definition leaf_hashes :: "hasher \<Rightarrow> ('f \<Rightarrow> bytes) \<Rightarrow> nat \<Rightarrow> u64 \<Rightarrow> 'f list list \<Rightarrow> nat \<Rightarrow> nat \<Rightarrow> bytes list" where
  "leaf_hashes h fb a label all_values base e =
     map (\<lambda>i. compress_leaf_standalone h fb a label (word_of_nat i) (all_values ! i)) [base..<e]"

definition push_leaves_parallel ::
    "hasher \<Rightarrow> ('f \<Rightarrow> bytes) \<Rightarrow> 'f list list \<Rightarrow> merkle_tree \<Rightarrow> merkle_tree option" where
  "push_leaves_parallel h fb all_values t =
     (case layer_arities (mt_cfg t) of [] \<Rightarrow> None
      | a # _ \<Rightarrow> Some (t\<lparr>mt_levels := with_level0 (mt_levels t) (\<lambda>_.
          leaf_hashes h fb a (tree_label (mt_cfg t)) all_values 0 (length all_values))\<rparr>))"

definition pad_group :: "nat \<Rightarrow> 'a list \<Rightarrow> 'a list" where
  "pad_group a xs = (if length xs mod a \<noteq> 0 then xs @ replicate (a - length xs mod a) (last xs) else xs)"

definition group :: "nat \<Rightarrow> 'a list \<Rightarrow> nat \<Rightarrow> 'a list" where
  "group a xs i = take a (drop (i * a) xs)"

definition parent_level :: "hasher \<Rightarrow> nat \<Rightarrow> u64 \<Rightarrow> nat \<Rightarrow> bytes list \<Rightarrow> bytes list" where
  "parent_level h a label level xs = map (\<lambda>i.
     compress_node_standalone h a label (word_of_nat level) (word_of_nat i) (group a xs i))
       [0..<length xs div a]"

text \<open>
  The loop of \<open>finalize\<close> and of the second phase of \<open>commit_compact\<close>: pad the current level,
  push its parents.  \<open>ars\<close> are the arities from the current tree level on.
\<close>

fun fin_loop :: "hasher \<Rightarrow> u64 \<Rightarrow> nat \<Rightarrow> nat list \<Rightarrow> nat \<Rightarrow> bytes list list \<Rightarrow> bytes list list option" where
  "fin_loop h label skip ars level levels =
     (if length (levels ! level) \<le> 1 then Some levels
      else case ars of [] \<Rightarrow> None
      | a # ars' \<Rightarrow>
          if a = 0 then None
          else let cur = pad_group a (levels ! level);
                   parents = parent_level h a label (Suc (skip + level)) cur
               in fin_loop h label skip ars' (Suc level) (levels[level := cur] @ [parents]))"

declare fin_loop.simps [simp del]

definition top_node :: "bytes list list \<Rightarrow> bytes option" where
  "top_node levels = (case last levels of [] \<Rightarrow> None | r # _ \<Rightarrow> Some r)"

definition finalize :: "hasher \<Rightarrow> merkle_tree \<Rightarrow> (merkle_tree \<times> bytes) option" where
  "finalize h t =
     (if mt_levels t = [] then None
      else case fin_loop h (tree_label (mt_cfg t)) 0 (layer_arities (mt_cfg t)) 0 (mt_levels t) of
        None \<Rightarrow> None
      | Some levels \<Rightarrow> map_option (Pair (t\<lparr>mt_levels := levels\<rparr>)) (top_node levels))"

definition siblings :: "nat \<Rightarrow> bytes list \<Rightarrow> nat \<Rightarrow> bytes list" where
  "siblings a nodes idx = map (\<lambda>pos. if pos < length nodes then nodes ! pos else last nodes)
     (filter (\<lambda>pos. pos \<noteq> idx) [idx div a * a..<idx div a * a + a])"

fun open_path :: "nat list \<Rightarrow> bytes list list \<Rightarrow> nat \<Rightarrow> bytes list list option" where
  "open_path ars (nodes # nodes' # levels) idx =
     (case ars of [] \<Rightarrow> None
      | a # ars' \<Rightarrow> if a = 0 then None
          else map_option ((#) (siblings a nodes idx)) (open_path ars' (nodes' # levels) (idx div a)))"
| "open_path ars levels idx = Some []"

definition open_full :: "merkle_tree \<Rightarrow> nat \<Rightarrow> merkle_opening option" where
  "open_full t index =
     (case mt_levels t of [] \<Rightarrow> None
      | leaves # _ \<Rightarrow>
          case open_path (drop (mt_skip t) (layer_arities (mt_cfg t))) (mt_levels t) index of
            None \<Rightarrow> None
          | Some p \<Rightarrow> if index < length leaves
              then Some \<lparr>mo_leaf = leaves ! index, mo_path = p, mo_index = index\<rparr> else None)"

section \<open>The compact tree\<close>

definition COMPACT_SKIP :: nat where "COMPACT_SKIP = 10"

definition fold_half :: "hasher \<Rightarrow> u64 \<Rightarrow> nat \<Rightarrow> nat \<Rightarrow> bytes list \<Rightarrow> bytes list" where
  "fold_half h label base d buf = map (\<lambda>j.
     compress_node_standalone h 2 label (word_of_nat (Suc d)) (word_of_nat (base div 2 ^ Suc d + j))
       [buf ! (2 * j), buf ! (2 * j + 1)]) [0..<length buf div 2]"

definition pad_to :: "nat \<Rightarrow> 'a list \<Rightarrow> 'a list" where
  "pad_to n xs = (if length xs < n then xs @ replicate (n - length xs) (last xs) else xs)"

fun fold_buf :: "hasher \<Rightarrow> u64 \<Rightarrow> nat \<Rightarrow> nat \<Rightarrow> nat \<Rightarrow> bytes list \<Rightarrow> bytes list" where
  "fold_buf h label base d 0 buf = buf"
| "fold_buf h label base d (Suc k) buf = fold_buf h label base (Suc d) k (fold_half h label base d buf)"

text \<open>\<open>base\<close> is below \<open>n\<close> at every call, so there is a leaf to repeat.\<close>

definition fold_chunk ::
    "hasher \<Rightarrow> ('f \<Rightarrow> bytes) \<Rightarrow> nat \<Rightarrow> nat \<Rightarrow> nat \<Rightarrow> nat \<Rightarrow> u64 \<Rightarrow> 'f list list \<Rightarrow> nat \<Rightarrow> bytes" where
  "fold_chunk h fb base chunk_size depth leaf_arity label all_values n =
     fold_buf h label base 0 depth (pad_to chunk_size
       (leaf_hashes h fb leaf_arity label all_values base (min (base + chunk_size) n))) ! 0"

fun chunk_levels :: "hasher \<Rightarrow> u64 \<Rightarrow> nat \<Rightarrow> nat \<Rightarrow> nat \<Rightarrow> bytes list \<Rightarrow> bytes list list" where
  "chunk_levels h label base d 0 buf = [buf]"
| "chunk_levels h label base d (Suc k) buf =
     buf # chunk_levels h label base (Suc d) k (fold_half h label base d buf)"

text \<open>\<open>None\<close> when there is no leaf in the chunk.\<close>

definition rebuild_chunk_levels ::
    "hasher \<Rightarrow> ('f \<Rightarrow> bytes) \<Rightarrow> nat \<Rightarrow> nat \<Rightarrow> nat \<Rightarrow> nat \<Rightarrow> u64 \<Rightarrow> 'f list list \<Rightarrow> nat \<Rightarrow> bytes list list option" where
  "rebuild_chunk_levels h fb index chunk_size depth leaf_arity label all_values n =
     (let base = index div chunk_size * chunk_size in
      if n \<le> base then None
      else Some (chunk_levels h label base 0 depth (pad_to chunk_size
        (leaf_hashes h fb leaf_arity label all_values base (min (base + chunk_size) n)))))"

definition compact_skip :: "nat list \<Rightarrow> nat \<Rightarrow> nat" where
  "compact_skip arities n =
     min (min (length (takeWhile (\<lambda>a. a = 2) arities)) COMPACT_SKIP) (trailing_zeros n)"

definition commit_compact ::
    "hasher \<Rightarrow> ('f \<Rightarrow> bytes) \<Rightarrow> 'f list list \<Rightarrow> merkle_tree \<Rightarrow> (merkle_tree \<times> bytes) option" where
  "commit_compact h fb all_values t =
     (let n = length all_values; label = tree_label (mt_cfg t); arities = layer_arities (mt_cfg t);
          skip = compact_skip arities n; chunk_size = 2 ^ skip in
      if \<not> is_power_of_two n then None
      else case arities of [] \<Rightarrow> None
      | leaf_arity # _ \<Rightarrow>
        let chunk_nodes = map (\<lambda>c. fold_chunk h fb (c * chunk_size) chunk_size skip leaf_arity label all_values n)
              [0..<n div chunk_size] in
        case fin_loop h label skip (drop skip arities) 0 [chunk_nodes] of
          None \<Rightarrow> None
        | Some levels \<Rightarrow>
            map_option (Pair (t\<lparr>mt_skip := skip, mt_levels := levels\<rparr>)) (top_node levels))"

fun bottom_path :: "bytes list list \<Rightarrow> nat \<Rightarrow> nat \<Rightarrow> nat \<Rightarrow> nat \<Rightarrow> bytes list list" where
  "bottom_path lv chunk_base depth 0 idx = []"
| "bottom_path lv chunk_base depth (Suc k) idx =
     (let local = idx - chunk_base div 2 ^ depth; local_group = local div 2 * 2 in
      map (\<lambda>i. lv ! depth ! (local_group + i)) (filter (\<lambda>i. local_group + i \<noteq> local) [0..<2])
        # bottom_path lv chunk_base (Suc depth) k (idx div 2))"

definition open_compact ::
    "hasher \<Rightarrow> ('f \<Rightarrow> bytes) \<Rightarrow> merkle_tree \<Rightarrow> nat \<Rightarrow> 'f list list \<Rightarrow> merkle_opening option" where
  "open_compact h fb t index all_values =
     (let label = tree_label (mt_cfg t); arities = layer_arities (mt_cfg t); skip = mt_skip t;
          chunk_size = 2 ^ skip in
      case arities of [] \<Rightarrow> None
      | leaf_arity # _ \<Rightarrow>
        case rebuild_chunk_levels h fb index chunk_size skip leaf_arity label all_values (length all_values) of
          None \<Rightarrow> None
        | Some lv \<Rightarrow>
            let chunk_base = index div chunk_size * chunk_size in
            map_option (\<lambda>p. \<lparr>mo_leaf = lv ! 0 ! (index - chunk_base),
                mo_path = bottom_path lv chunk_base 0 skip index @ p, mo_index = index\<rparr>)
              (open_path (drop skip arities) (mt_levels t) (index div 2 ^ skip)))"

section \<open>Verification\<close>

text \<open>The children of a node: the current hash at \<open>pos\<close>, the siblings in turn elsewhere.\<close>

fun place :: "nat \<Rightarrow> bytes \<Rightarrow> nat list \<Rightarrow> bytes list \<Rightarrow> bytes list option" where
  "place pos cur [] sibs = Some []"
| "place pos cur (i # is) sibs =
     (if i = pos then map_option ((#) cur) (place pos cur is sibs)
      else case sibs of [] \<Rightarrow> None | x # xs \<Rightarrow> map_option ((#) x) (place pos cur is xs))"

datatype climb_result = Panics | Rejects | Reaches bytes

fun climb :: "hasher \<Rightarrow> u64 \<Rightarrow> nat list \<Rightarrow> nat \<Rightarrow> bytes \<Rightarrow> nat \<Rightarrow> bytes list list \<Rightarrow> climb_result" where
  "climb h label ars level cur idx [] = Reaches cur"
| "climb h label [] level cur idx (s # path) = Panics"
| "climb h label (a # ars) level cur idx (s # path) =
     (if a = 0 then Panics
      else case place (idx mod a) cur [0..<a] s of None \<Rightarrow> Rejects
      | Some children \<Rightarrow> climb h label ars (Suc level)
          (compress_node_standalone h a label (word_of_nat (Suc level)) (word_of_nat (idx div a)) children)
          (idx div a) path)"

definition verify_opening :: "hasher \<Rightarrow> merkle_cfg \<Rightarrow> bytes \<Rightarrow> merkle_opening \<Rightarrow> bool option" where
  "verify_opening h cfg root op =
     (case climb h (tree_label cfg) (layer_arities cfg) 0 (mo_leaf op) (mo_index op) (mo_path op) of
        Panics \<Rightarrow> None | Rejects \<Rightarrow> Some False | Reaches cur \<Rightarrow> Some (cur = root))"

end
