(* ===== verification/Merkle_Props.thy ===== *)
theory Merkle_Props
  imports Merkle_Channel
begin

text \<open>
  Properties of the commitment tree: openings verify, an accepted opening is an opening of the
  committed values, and the compact tree is the full tree.
\<close>

section \<open>The tree as a list of levels\<close>

text \<open>The loop of \<open>finalize\<close>, as a function of the current level alone.\<close>

fun build_levels :: "hasher \<Rightarrow> u64 \<Rightarrow> nat \<Rightarrow> nat list \<Rightarrow> bytes list \<Rightarrow> bytes list list option" where
  "build_levels h label lvl ars cur =
     (if length cur \<le> 1 then Some [cur]
      else case ars of [] \<Rightarrow> None
      | a # ars' \<Rightarrow>
          if a = 0 then None
          else map_option ((#) (pad_group a cur))
            (build_levels h label (Suc lvl) ars' (parent_level h a label (Suc lvl) (pad_group a cur))))"

declare build_levels.simps [simp del]

lemma fin_loop_build_levels:
  "fin_loop h label skip ars (length pre) (pre @ [cur]) =
     map_option ((@) pre) (build_levels h label (skip + length pre) ars cur)"
proof (induction ars arbitrary: pre cur)
  case Nil
  then show ?case by (subst fin_loop.simps, subst build_levels.simps) simp
next
  case (Cons a ars)
  let ?c = "pad_group a cur"
  have *: "fin_loop h label skip ars (Suc (length pre)) ((pre @ [?c]) @ [q]) =
    map_option (\<lambda>b. pre @ ?c # b) (build_levels h label (Suc (skip + length pre)) ars q)" for q
    using Cons.IH [of "pre @ [?c]" q] by (simp add: append_Cons [abs_def] cong: map_option_cong)
  show ?case
    by (subst fin_loop.simps, subst build_levels.simps)
      (use * in \<open>simp add: Let_def option.map_comp comp_def\<close>)
qed

lemma build_levels_ne: "build_levels h label lvl ars cur = Some lv \<Longrightarrow> lv \<noteq> []"
  by (subst (asm) build_levels.simps) (auto split: if_splits list.splits)

lemma build_levels_cases:
  assumes "build_levels h label lvl ars cur = Some lv"
  obtains "length cur \<le> 1" "lv = [cur]"
  | a ars' lv' where "1 < length cur" "ars = a # ars'" "0 < a" "lv = pad_group a cur # lv'"
      "build_levels h label (Suc lvl) ars' (parent_level h a label (Suc lvl) (pad_group a cur)) = Some lv'"
  using assms by (subst (asm) build_levels.simps) (auto split: if_splits list.splits)

lemma build_levels_one:
  "build_levels h label lvl ars cur = Some lv \<Longrightarrow> cur \<noteq> [] \<Longrightarrow> length cur \<le> 1 \<Longrightarrow>
     length cur = 1 \<and> lv = [cur]"
  by (subst (asm) build_levels.simps) (cases cur; simp)

lemma length_pad_group:
  assumes "0 < a"
  shows "a dvd length (pad_group a xs)" "length xs \<le> length (pad_group a xs)"
    "length (pad_group a xs) div a = (length xs + a - 1) div a"
proof -
  let ?n = "length xs"
  have l: "length (pad_group a xs) = (if ?n mod a = 0 then ?n else ?n + (a - ?n mod a))"
    by (simp add: pad_group_def)
  have m: "?n mod a < a" using assms by simp
  have n: "?n = a * (?n div a) + ?n mod a" by simp
  have up: "?n mod a \<noteq> 0 \<Longrightarrow> ?n + (a - ?n mod a) = a * Suc (?n div a)"
    using n m unfolding mult_Suc_right by linarith
  show "a dvd length (pad_group a xs)" using up unfolding l by (auto simp: dvd_eq_mod_eq_0)
  show "length xs \<le> length (pad_group a xs)" unfolding l by auto
  show "length (pad_group a xs) div a = (?n + a - 1) div a"
  proof (cases "?n mod a = 0")
    case True
    then have "?n + a - 1 = (a - 1) + a * (?n div a)" using assms n by linarith
    also have "\<dots> div a = ?n div a + (a - 1) div a" using assms by (intro div_mult_self2) simp
    also have "(a - 1) div a = 0" using assms by simp
    finally show ?thesis using True l by simp
  next
    case False
    then have "?n + a - 1 = (?n mod a - 1) + a * Suc (?n div a)" using assms n m
      unfolding mult_Suc_right by linarith
    also have "\<dots> div a = Suc (?n div a) + (?n mod a - 1) div a"
      using assms by (intro div_mult_self2) simp
    also have "(?n mod a - 1) div a = 0" using m by simp
    finally show ?thesis using False l up assms by simp
  qed
qed

lemma pad_group_nth: "i < length xs \<Longrightarrow> pad_group a xs ! i = xs ! i"
  by (simp add: pad_group_def nth_append)

lemma pad_group_nth_last:
  assumes "length xs \<le> i" "i < length (pad_group a xs)"
  shows "pad_group a xs ! i = last xs"
  using assms by (auto simp: pad_group_def nth_append split: if_splits)

lemma length_parent_level [simp]: "length (parent_level h a label lvl xs) = length xs div a"
  by (simp add: parent_level_def)

lemma build_levels_total:
  "cur \<noteq> [] \<Longrightarrow> 0 \<notin> set ars \<Longrightarrow> length cur \<le> prod_list ars \<Longrightarrow>
     \<exists>lv. build_levels h label lvl ars cur = Some lv"
proof (induction ars arbitrary: lvl cur)
  case Nil
  then show ?case by (subst build_levels.simps) simp
next
  case (Cons a ars)
  show ?case
  proof (cases "length cur \<le> 1")
    case True
    then show ?thesis by (subst build_levels.simps) simp
  next
    case False
    let ?p = "parent_level h a label (Suc lvl) (pad_group a cur)"
    have a: "0 < a" using Cons.prems by simp
    have l: "length ?p = (length cur + a - 1) div a" using length_pad_group(3) [OF a] by simp
    have "length cur + a - 1 < a * Suc (prod_list ars)" using Cons.prems a by simp
    then have "(length cur + a - 1) div a < Suc (prod_list ars)"
      by (simp add: less_mult_imp_div_less mult.commute)
    moreover have "0 < (length cur + a - 1) div a" using False a by (simp add: div_greater_zero_iff)
    ultimately obtain lv where "build_levels h label (Suc lvl) ars ?p = Some lv"
      using Cons.IH [of ?p "Suc lvl"] Cons.prems l by fastforce
    then show ?thesis using a False by (subst build_levels.simps) simp
  qed
qed

lemma build_levels_last:
  "build_levels h label lvl ars cur = Some lv \<Longrightarrow> cur \<noteq> [] \<Longrightarrow> length (last lv) = 1"
proof (induction ars arbitrary: lvl cur lv)
  case Nil
  then show ?case by (subst (asm) build_levels.simps) (cases cur; auto split: if_splits)
next
  case (Cons a ars)
  show ?case
  proof (cases rule: build_levels_cases [OF Cons.prems(1), case_names top step])
    case top
    then show ?thesis using Cons.prems(2) by (cases cur) auto
  next
    case (step b bs lv')
    then have "length cur + b - 1 \<ge> b" "0 < b" by auto
    then have "0 < length (parent_level h b label (Suc lvl) (pad_group b cur))"
      using length_pad_group(3) [of b cur] by (simp add: div_greater_zero_iff)
    then have "parent_level h b label (Suc lvl) (pad_group b cur) \<noteq> []" by fastforce
    then have "length (last lv') = 1" using Cons.IH [of _ _ lv'] step(2,5) by auto
    then show ?thesis using step(4) build_levels_ne [OF step(5)] by simp
  qed
qed

lemma build_levels_hd:
  assumes "build_levels h label lvl ars cur = Some lv" "i < length cur"
  shows "hd lv ! i = cur ! i" "i < length (hd lv)"
proof -
  consider "hd lv = cur" | a where "0 < a" "hd lv = pad_group a cur"
    using build_levels_cases [OF assms(1)] by (metis list.sel(1))
  then have "hd lv ! i = cur ! i \<and> i < length (hd lv)"
  proof cases
    case 2
    then show ?thesis
      using assms(2) length_pad_group(2) [OF 2(1), of cur] by (simp add: pad_group_nth)
  qed (use assms(2) in simp)
  then show "hd lv ! i = cur ! i" "i < length (hd lv)" by simp_all
qed

section \<open>Openings verify\<close>

lemma place_map:
  "place j x is (map f (filter (\<lambda>i. i \<noteq> j) is)) = Some (map (\<lambda>i. if i = j then x else f i) is)"
  by (induction "is") auto

lemma upt_shift: "[b..<b + a] = map ((+) b) [0..<a]"
  by (simp add: map_add_upt [of b a, symmetric] add.commute)

lemma group_nth_in_range:
  fixes idx a n :: nat
  assumes "0 < a" "a dvd n" "idx < n" "i < a"
  shows "idx div a * a + i < n" "idx div a < n div a"
proof -
  obtain k where k: "n = a * k" using assms(2) by blast
  then have d: "idx div a < k" using assms by (simp add: less_mult_imp_div_less mult.commute)
  then show "idx div a < n div a" using k assms(1) by simp
  have "idx div a * a + i < Suc (idx div a) * a" using assms(4) by simp
  also have "\<dots> \<le> k * a" using d by (intro mult_le_mono1) simp
  finally show "idx div a * a + i < n" using k by (simp add: mult.commute)
qed

lemma siblings_padded:
  assumes "0 < a" "a dvd length nodes" "idx < length nodes"
  shows "siblings a nodes idx =
    map (\<lambda>i. nodes ! (idx div a * a + i)) (filter (\<lambda>i. i \<noteq> idx mod a) [0..<a])"
proof -
  have eq: "idx div a * a + i = idx \<longleftrightarrow> i = idx mod a" if "i < a" for i
    using div_mult_mod_eq [of idx a] by linarith
  have "filter (\<lambda>pos. pos \<noteq> idx) [idx div a * a..<idx div a * a + a] =
      map ((+) (idx div a * a)) (filter (\<lambda>i. i \<noteq> idx mod a) [0..<a])"
    unfolding upt_shift filter_map comp_def
    by (intro arg_cong [of _ _ "map _"] filter_cong refl) (use eq in auto)
  then show ?thesis
    unfolding siblings_def using group_nth_in_range(1) [OF assms] by (auto simp: comp_def)
qed

lemma place_siblings:
  assumes "0 < a" "a dvd length nodes" "idx < length nodes"
  shows "place (idx mod a) (nodes ! idx) [0..<a] (siblings a nodes idx) = Some (group a nodes (idx div a))"
proof -
  have "idx div a * a + a \<le> length nodes"
    using group_nth_in_range(1) [OF assms, of "a - 1"] assms(1) by simp
  then have g: "group a nodes (idx div a) = map (\<lambda>i. nodes ! (idx div a * a + i)) [0..<a]"
    by (intro nth_equalityI) (simp_all add: group_def)
  show ?thesis
    unfolding siblings_padded [OF assms] place_map g by (simp add: div_mult_mod_eq)
qed

lemma open_path_climbs:
  assumes "build_levels h label lvl ars cur = Some lv" "idx < length (hd lv)"
  shows "\<exists>p. open_path ars lv idx = Some p \<and>
    climb h label ars lvl (hd lv ! idx) idx p = Reaches (hd (last lv))"
  using assms
proof (induction ars arbitrary: lvl cur lv idx)
  case Nil
  then show ?case
    by (subst (asm) build_levels.simps) (cases cur; auto split: if_splits)
next
  case (Cons a ars)
  show ?case
  proof (cases rule: build_levels_cases [OF Cons.prems(1), case_names top step])
    case top
    then show ?thesis using Cons.prems(2) by (cases cur) auto
  next
    case (step b bs lv')
    let ?c = "pad_group a cur"
    let ?q = "parent_level h a label (Suc lvl) ?c"
    have s: "0 < a" "lv = ?c # lv'" "build_levels h label (Suc lvl) ars ?q = Some lv'" "idx < length ?c"
      using step Cons.prems(2) by auto
    have d: "a dvd length ?c" by (rule length_pad_group(1)) (rule s)
    have i: "idx div a < length ?q" using group_nth_in_range(2) [OF s(1) d s(4) s(1)] by simp
    have hd: "?q ! (idx div a) = hd lv' ! (idx div a)" "idx div a < length (hd lv')"
      using build_levels_hd [OF s(3) i] by simp_all
    obtain p where p: "open_path ars lv' (idx div a) = Some p"
      "climb h label ars (Suc lvl) (?q ! (idx div a)) (idx div a) p = Reaches (hd (last lv'))"
      using Cons.IH [OF s(3) hd(2)] unfolding hd(1) by blast
    obtain l ls where lv': "lv' = l # ls" using build_levels_ne [OF s(3)] by (cases lv') auto
    have "climb h label (a # ars) lvl (?c ! idx) idx (siblings a ?c idx # p) = Reaches (hd (last lv))"
      using p(2) i s place_siblings [OF s(1) d s(4)] by (simp add: parent_level_def lv')
    moreover have "open_path (a # ars) lv idx = Some (siblings a ?c idx # p)"
      using p(1) s lv' by simp
    ultimately show ?thesis using s(2) by auto
  qed
qed

section \<open>The commitment as an inclusion scheme\<close>

definition commit_values :: "hasher \<Rightarrow> ('f \<Rightarrow> bytes) \<Rightarrow> merkle_cfg \<Rightarrow> 'f list list \<Rightarrow> (merkle_tree \<times> bytes) option" where
  "commit_values h fb cfg values = Option.bind (push_leaves_parallel h fb values (new_tree cfg)) (finalize h)"

text \<open>The three checks a verifier of a claimed value makes on an opening.\<close>

definition opens_to :: "hasher \<Rightarrow> ('f \<Rightarrow> bytes) \<Rightarrow> merkle_cfg \<Rightarrow> 'f list \<Rightarrow> nat \<Rightarrow> merkle_opening \<Rightarrow> bytes \<Rightarrow> bool" where
  "opens_to h fb cfg values i op root \<longleftrightarrow> mo_index op = i \<and>
     compute_leaf_hash h fb cfg i values = Some (mo_leaf op) \<and> verify_opening h cfg root op = Some True"

text \<open>The configuration has arities for a tree over the values.\<close>

definition cfg_fits :: "merkle_cfg \<Rightarrow> 'a list \<Rightarrow> bool" where
  "cfg_fits cfg values \<longleftrightarrow> values \<noteq> [] \<and> layer_arities cfg \<noteq> [] \<and> 0 \<notin> set (layer_arities cfg) \<and>
     length values \<le> prod_list (layer_arities cfg)"

lemma length_leaf_hashes [simp]: "length (leaf_hashes h fb a label values base e) = e - base"
  by (simp add: leaf_hashes_def)

lemma leaf_hashes_nth:
  "i < e - base \<Longrightarrow> leaf_hashes h fb a label values base e ! i =
     compress_leaf_standalone h fb a label (word_of_nat (base + i)) (values ! (base + i))"
  by (simp add: leaf_hashes_def)

lemma commit_values_Some:
  assumes "commit_values h fb cfg values = Some (t, r)"
  obtains a ars lv where "layer_arities cfg = a # ars" "t = \<lparr>mt_cfg = cfg, mt_skip = 0, mt_levels = lv\<rparr>"
    "build_levels h (tree_label cfg) 0 (a # ars)
       (leaf_hashes h fb a (tree_label cfg) values 0 (length values)) = Some lv"
    "top_node lv = Some r" "values \<noteq> []" "r = hd (last lv)"
proof -
  obtain a ars where a: "layer_arities cfg = a # ars"
    using assms by (auto simp: commit_values_def push_leaves_parallel_def new_tree_def split: list.splits)
  let ?l = "leaf_hashes h fb a (tree_label cfg) values 0 (length values)"
  from assms obtain lv where lv: "build_levels h (tree_label cfg) 0 (a # ars) ?l = Some lv"
    and t: "t = \<lparr>mt_cfg = cfg, mt_skip = 0, mt_levels = lv\<rparr>" "top_node lv = Some r"
    using fin_loop_build_levels [of h "tree_label cfg" 0 "a # ars" "[]" ?l]
    by (auto simp: commit_values_def push_leaves_parallel_def finalize_def new_tree_def with_level0_def a
        bind_eq_Some_conv split: option.splits)
  have "values \<noteq> []"
  proof
    assume "values = []"
    then have "lv = [[]]" using lv by (subst (asm) build_levels.simps) (simp add: leaf_hashes_def)
    then show False using t(2) by (simp add: top_node_def)
  qed
  then show ?thesis using that [OF a t(1) lv t(2)] t(2) by (auto simp: top_node_def split: list.splits)
qed

lemma commit_values_total:
  assumes "cfg_fits cfg values"
  shows "\<exists>t r. commit_values h fb cfg values = Some (t, r)"
proof -
  obtain a ars where a: "layer_arities cfg = a # ars" "values \<noteq> []" "0 \<notin> set (a # ars)"
    "length values \<le> prod_list (a # ars)"
    using assms by (cases "layer_arities cfg") (auto simp: cfg_fits_def)
  let ?l = "leaf_hashes h fb a (tree_label cfg) values 0 (length values)"
  have ne: "?l \<noteq> []" using a(2) by (simp flip: length_greater_0_conv)
  obtain lv where lv: "build_levels h (tree_label cfg) 0 (a # ars) ?l = Some lv"
    using build_levels_total [OF ne a(3)] a(4) by fastforce
  have "length (last lv) = 1" by (rule build_levels_last [OF lv ne])
  then obtain r where "top_node lv = Some r" by (cases "last lv") (auto simp: top_node_def)
  then show ?thesis
    using lv fin_loop_build_levels [of h "tree_label cfg" 0 "a # ars" "[]" ?l]
    by (auto simp: commit_values_def push_leaves_parallel_def finalize_def new_tree_def with_level0_def a(1))
qed

interpretation channel: inclusion_scheme "cfg_fits cfg" "commit_values h fb cfg" "\<lambda>(t, r). Some r"
  "\<lambda>(t, r). open_full t" "opens_to h fb cfg" for h fb cfg
proof (unfold_locales, goal_cases)
  case (1 vs) then show ?case using commit_values_total by fast
next
  case (2 vs lv) then show ?case by (cases lv) simp
next
  case (3 vs lv i r)
  then have c: "commit_values h fb cfg vs = Some (fst lv, r)" by (cases lv) auto
  show ?case
  proof (rule commit_values_Some [OF c])
    fix a ars ls
    assume a: "layer_arities cfg = a # ars" and t: "fst lv = \<lparr>mt_cfg = cfg, mt_skip = 0, mt_levels = ls\<rparr>"
      and b: "build_levels h (tree_label cfg) 0 (a # ars)
        (leaf_hashes h fb a (tree_label cfg) vs 0 (length vs)) = Some ls"
      and r: "r = hd (last ls)"
    have i: "i < length (leaf_hashes h fb a (tree_label cfg) vs 0 (length vs))" using 3(2) by simp
    note hd = build_levels_hd [OF b i]
    obtain p where p: "open_path (a # ars) ls i = Some p"
      "climb h (tree_label cfg) (a # ars) 0 (hd ls ! i) i p = Reaches (hd (last ls))"
      using open_path_climbs [OF b hd(2)] by blast
    obtain l ls' where ls: "ls = l # ls'" using build_levels_ne [OF b] by (cases ls) auto
    have "open_full (fst lv) i = Some \<lparr>mo_leaf = hd ls ! i, mo_path = p, mo_index = i\<rparr>"
      using p(1) hd(2) by (simp add: open_full_def t a ls)
    moreover have "opens_to h fb cfg (vs ! i) i \<lparr>mo_leaf = hd ls ! i, mo_path = p, mo_index = i\<rparr> r"
      using p(2) hd(1) 3(2) by (simp add: opens_to_def verify_opening_def compute_leaf_hash_def a r leaf_hashes_nth)
    ultimately show ?case by (auto split: prod.splits)
  qed
qed

text \<open>The nodes of an opening are hashes.\<close>

lemma build_levels_typed:
  "build_levels h label lvl ars cur = Some lv \<Longrightarrow> hasher_ok h \<Longrightarrow> cur \<noteq> [] \<Longrightarrow> \<forall>y \<in> set cur. length y = hash_bytes h \<Longrightarrow>
     \<forall>nodes \<in> set lv. nodes \<noteq> [] \<and> (\<forall>y \<in> set nodes. length y = hash_bytes h)"
proof (induction ars arbitrary: lvl cur lv)
  case Nil
  then show ?case by (subst (asm) build_levels.simps) (auto split: if_splits)
next
  case (Cons a ars)
  show ?case
  proof (rule build_levels_cases [OF Cons.prems(1)])
    assume "length cur \<le> 1" "lv = [cur]"
    then show ?thesis using Cons.prems by simp
  next
    fix a' ars' lv'
    assume c: "1 < length cur" "a # ars = a' # ars'" "0 < a'" "lv = pad_group a' cur # lv'"
      "build_levels h label (Suc lvl) ars' (parent_level h a' label (Suc lvl) (pad_group a' cur)) = Some lv'"
    have "length (parent_level h a' label (Suc lvl) (pad_group a' cur)) = (length cur + a' - 1) div a'"
      using length_pad_group(3) [OF c(3)] by simp
    moreover have "a' \<le> length cur + a' - 1" using c(1) by linarith
    then have "0 < (length cur + a' - 1) div a'" using c(3) by (simp add: div_greater_zero_iff)
    ultimately have ne: "parent_level h a' label (Suc lvl) (pad_group a' cur) \<noteq> []" by (metis length_greater_0_conv)
    have "\<forall>y \<in> set (parent_level h a' label (Suc lvl) (pad_group a' cur)). length y = hash_bytes h"
      using Cons.prems(2) by (auto simp: parent_level_def compress_node_standalone_def)
    then have "\<forall>nodes \<in> set lv'. nodes \<noteq> [] \<and> (\<forall>y \<in> set nodes. length y = hash_bytes h)"
      using Cons.IH [of "Suc lvl" "parent_level h a' label (Suc lvl) (pad_group a' cur)" lv'] Cons.prems(2) c(2,5) ne by simp
    moreover have "pad_group a' cur \<noteq> []" "\<forall>y \<in> set (pad_group a' cur). length y = hash_bytes h"
      using Cons.prems(3,4) by (auto simp: pad_group_def)
    ultimately show ?thesis using c(4) by simp
  qed
qed

lemma open_path_typed:
  "open_path ars lv idx = Some p \<Longrightarrow> \<forall>nodes \<in> set lv. nodes \<noteq> [] \<and> (\<forall>y \<in> set nodes. length y = k) \<Longrightarrow>
     \<forall>s \<in> set p. \<forall>y \<in> set s. length y = k"
proof (induction ars lv idx arbitrary: p rule: open_path.induct)
  case (1 ars nodes nodes' levels idx)
  have "\<forall>y \<in> set (siblings a nodes idx). length y = k" for a
    using 1(3) by (auto simp: siblings_def)
  then show ?case using 1 by (auto split: list.splits if_splits)
qed auto

lemma open_full_typed:
  assumes "commit_values h fb cfg vss = Some (t, r)" "hasher_ok h" "open_full t i = Some op"
  shows "\<forall>s \<in> set (mo_path op). \<forall>y \<in> set s. length y = hash_bytes h"
proof (rule commit_values_Some [OF assms(1)])
  fix a ars lv
  assume a: "layer_arities cfg = a # ars" and t: "t = \<lparr>mt_cfg = cfg, mt_skip = 0, mt_levels = lv\<rparr>" and ne: "vss \<noteq> []"
    and b: "build_levels h (tree_label cfg) 0 (a # ars) (leaf_hashes h fb a (tree_label cfg) vss 0 (length vss)) = Some lv"
  have "leaf_hashes h fb a (tree_label cfg) vss 0 (length vss) \<noteq> []" using ne by (simp flip: length_greater_0_conv)
  moreover have "\<forall>y \<in> set (leaf_hashes h fb a (tree_label cfg) vss 0 (length vss)). length y = hash_bytes h"
    using assms(2) by (auto simp: leaf_hashes_def compress_leaf_standalone_def)
  ultimately have "\<forall>nodes \<in> set lv. nodes \<noteq> [] \<and> (\<forall>y \<in> set nodes. length y = hash_bytes h)"
    using build_levels_typed [OF b assms(2)] by blast
  moreover have "open_path (a # ars) lv i = Some (mo_path op)"
    using assms(3) by (auto simp: open_full_def t a split: list.splits option.splits if_splits)
  ultimately show ?thesis by (rule open_path_typed [rotated])
qed

section \<open>What a commitment binds\<close>

text \<open>The strings hashed for a leaf, for a node, along a path and for the levels of a tree.\<close>

abbreviation label_bytes :: "nat \<Rightarrow> u32 \<Rightarrow> nat \<Rightarrow> u64 \<Rightarrow> bytes" where
  "label_bytes a lvl pos label \<equiv>
     ds_to_bytes \<lparr>dl_arity = a, dl_level = lvl, dl_position = word_of_nat pos, dl_tree_label = label\<rparr>"

definition leaf_str :: "('f \<Rightarrow> bytes) \<Rightarrow> nat \<Rightarrow> u64 \<Rightarrow> nat \<Rightarrow> 'f list \<Rightarrow> bytes" where
  "leaf_str fb a label i vs = label_bytes a LEAF_LEVEL_DS i label @ field_values fb vs"

definition node_str :: "nat \<Rightarrow> u64 \<Rightarrow> nat \<Rightarrow> nat \<Rightarrow> bytes list \<Rightarrow> bytes" where
  "node_str a label lvl i children = label_bytes a (word_of_nat lvl) i label @ concat children"

fun path_strs :: "hasher \<Rightarrow> u64 \<Rightarrow> nat list \<Rightarrow> nat \<Rightarrow> bytes \<Rightarrow> nat \<Rightarrow> bytes list list \<Rightarrow> bytes list" where
  "path_strs h label (a # ars) level cur idx (s # path) =
     (case place (idx mod a) cur [0..<a] s of None \<Rightarrow> []
      | Some children \<Rightarrow>
          let x = node_str a label (Suc level) (idx div a) children
          in x # path_strs h label ars (Suc level) (finalize_hash h x) (idx div a) path)"
| "path_strs h label ars level cur idx path = []"

fun tree_strs :: "hasher \<Rightarrow> u64 \<Rightarrow> nat \<Rightarrow> nat list \<Rightarrow> bytes list \<Rightarrow> bytes list" where
  "tree_strs h label lvl ars cur =
     (if length cur \<le> 1 then []
      else case ars of [] \<Rightarrow> []
      | a # ars' \<Rightarrow> let c = pad_group a cur in
          map (\<lambda>i. node_str a label (Suc lvl) i (group a c i)) [0..<length c div a] @
          tree_strs h label (Suc lvl) ars' (parent_level h a label (Suc lvl) c))"

declare tree_strs.simps [simp del]

lemma compress_strs:
  "compress_leaf_standalone h fb a label (word_of_nat i) vs = finalize_hash h (leaf_str fb a label i vs)"
  "compress_node_standalone h a label (word_of_nat lvl) (word_of_nat i) children =
     finalize_hash h (node_str a label lvl i children)"
  by (simp_all add: compress_leaf_standalone_def compress_node_standalone_def leaf_str_def node_str_def)

text \<open>\<open>x\<close> is a string of level \<open>lvl\<close> (leaves are level 0) at position \<open>i\<close>.\<close>

definition at_level :: "u64 \<Rightarrow> nat \<Rightarrow> nat \<Rightarrow> bytes \<Rightarrow> bool" where
  "at_level label lvl i x \<longleftrightarrow>
     (\<exists>a rest. x = label_bytes a (if lvl = 0 then LEAF_LEVEL_DS else word_of_nat lvl) i label @ rest)"

lemma ucast_eq_u32: "(ucast (l :: u32) :: u64) = ucast l' \<longleftrightarrow> l = l'"
proof
  assume eq: "(ucast l :: u64) = ucast l'"
  show "l = l'"
  proof (rule bit_word_eqI)
    fix n assume "n < LENGTH(32)"
    then show "bit l n = bit l' n" using arg_cong [OF eq, of "\<lambda>w. bit w n"] by (simp add: bit_ucast_iff)
  qed
qed simp

lemma label_bytes_inject:
  "label_bytes a l i t @ r = label_bytes a' l' i' t' @ r' \<Longrightarrow>
     l = l' \<and> (word_of_nat i :: u64) = word_of_nat i' \<and> r = r'"
proof -
  assume "label_bytes a l i t @ r = label_bytes a' l' i' t' @ r'"
  then have "(ucast l :: u64) = ucast l' \<and> (word_of_nat i :: u64) = word_of_nat i' \<and> r = r'"
    by (simp add: ds_to_bytes_def)
  then show ?thesis by (simp add: ucast_eq_u32)
qed

lemma unat_word_of_nat_u32: "l < 2 ^ 32 \<Longrightarrow> unat (word_of_nat l :: u32) = l"
  by (simp only: unat_of_nat) (simp add: take_bit_nat_eq_self)

lemma at_level_inject:
  assumes "at_level label l i x" "at_level label l' i' x" "l < 2 ^ 32 - 1" "l' < 2 ^ 32 - 1"
  shows "l = l'" "i < 2 ^ 64 \<Longrightarrow> i' < 2 ^ 64 \<Longrightarrow> i = i'"
proof -
  let ?w = "\<lambda>l. if l = 0 then LEAF_LEVEL_DS else word_of_nat l :: u32"
  obtain a r where x: "x = label_bytes a (?w l) i label @ r" using assms(1) unfolding at_level_def by blast
  obtain a' r' where "x = label_bytes a' (?w l') i' label @ r'" using assms(2) unfolding at_level_def by blast
  from label_bytes_inject [OF trans [OF sym [OF x] this]]
  have eq: "?w l = ?w l'" "(word_of_nat i :: u64) = word_of_nat i'" by simp_all
  have un: "unat (?w l) = (if l = 0 then 4294967295 else l)" if "l < 2 ^ 32 - 1" for l
  proof (cases "l = 0")
    case False
    have "l < 2 ^ 32" using that by linarith
    from unat_word_of_nat_u32 [OF this] show ?thesis by (simp only: False if_False)
  qed (simp add: LEAF_LEVEL_DS_def)
  have "(if l = 0 then 4294967295 else l) = (if l' = 0 then 4294967295 else l')"
    unfolding un [OF assms(3), symmetric] un [OF assms(4), symmetric] eq(1) by (rule refl)
  then show "l = l'" using assms(3,4) by (simp split: if_splits)
  show "i = i'" if "i < 2 ^ 64" "i' < 2 ^ 64"
    using eq(2) le64_nat_inj [OF that] by blast
qed

lemma at_level_node: "at_level label (Suc lvl) i (node_str a label (Suc lvl) i ch)"
  by (auto simp: at_level_def node_str_def)

text \<open>The root is the hash of a string of the top level.\<close>

lemma path_root:
  assumes "climb h label ars lvl cur idx (s # path) = Reaches r"
  shows "\<exists>x l i. x \<in> set (path_strs h label ars lvl cur idx (s # path)) \<and> r = finalize_hash h x \<and>
    at_level label l i x \<and> lvl < l \<and> l \<le> lvl + length ars"
  using assms
proof (induction ars arbitrary: lvl cur idx s path)
  case (Cons a ars)
  note IH = Cons.IH
  obtain ch where ch: "0 < a" "place (idx mod a) cur [0..<a] s = Some ch"
    using Cons.prems by (auto split: if_splits option.splits)
  let ?x = "node_str a label (Suc lvl) (idx div a) ch"
  have c: "climb h label ars (Suc lvl) (finalize_hash h ?x) (idx div a) path = Reaches r"
    using Cons.prems ch by (simp add: compress_strs del: of_nat_Suc)
  show ?case
  proof (cases path)
    case Nil
    then have "r = finalize_hash h ?x" using c by simp
    then show ?thesis using ch at_level_node [of label lvl "idx div a" a ch]
      by (intro exI [of _ ?x] exI [of _ "Suc lvl"] exI [of _ "idx div a"]) (simp add: Let_def)
  next
    case (Cons s' path')
    then obtain x l i where "x \<in> set (path_strs h label ars (Suc lvl) (finalize_hash h ?x) (idx div a) path)"
      "r = finalize_hash h x" "at_level label l i x" "Suc lvl < l" "l \<le> Suc lvl + length ars"
      using IH [of "Suc lvl" "finalize_hash h ?x" "idx div a" s' path'] c by blast
    then show ?thesis using ch
      by (intro exI [of _ x] exI [of _ l] exI [of _ i]) (simp add: Let_def)
  qed
qed simp

lemma tree_root_str:
  assumes "build_levels h label lvl ars cur = Some lv" "1 < length cur"
  shows "\<exists>x l i. x \<in> set (tree_strs h label lvl ars cur) \<and> hd (last lv) = finalize_hash h x \<and>
    at_level label l i x \<and> lvl < l \<and> l \<le> lvl + length ars"
  using assms
proof (induction ars arbitrary: lvl cur lv)
  case Nil
  then show ?case by (subst (asm) build_levels.simps) simp
next
  case (Cons a ars)
  let ?c = "pad_group a cur"
  let ?q = "parent_level h a label (Suc lvl) ?c"
  obtain lv' where a: "0 < a" and lv: "lv = ?c # lv'" and b: "build_levels h label (Suc lvl) ars ?q = Some lv'"
    by (rule build_levels_cases [OF Cons.prems(1)]) (use Cons.prems(2) in auto)
  have strs: "tree_strs h label lvl (a # ars) cur =
      map (\<lambda>i. node_str a label (Suc lvl) i (group a ?c i)) [0..<length ?c div a] @
      tree_strs h label (Suc lvl) ars ?q"
    using Cons.prems(2) by (subst tree_strs.simps) (simp add: Let_def)
  have last: "last lv = last lv'" using lv build_levels_ne [OF b] by simp
  show ?case
  proof (cases "1 < length ?q")
    case True
    then show ?thesis using Cons.IH [OF b] unfolding last strs by fastforce
  next
    case False
    have "length cur + a - 1 \<ge> a" using Cons.prems(2) by linarith
    then have "0 < (length cur + a - 1) div a" using a by (simp add: div_greater_zero_iff)
    then have "0 < length ?q" using length_pad_group(3) [OF a, of cur] by simp
    with False have q: "length ?q = 1" by linarith
    then have "lv' = [?q]" using b by (subst (asm) build_levels.simps) simp
    then have "hd (last lv) = ?q ! 0" using q by (cases ?q) (simp_all add: last)
    also have "\<dots> = finalize_hash h (node_str a label (Suc lvl) 0 (group a ?c 0))"
      using q by (simp add: parent_level_def compress_strs del: of_nat_Suc)
    finally show ?thesis using q at_level_node [of label lvl 0 a "group a ?c 0"]
      by (intro exI [of _ "node_str a label (Suc lvl) 0 (group a ?c 0)"] exI [of _ "Suc lvl"] exI [of _ 0])
        (simp add: strs)
  qed
qed

lemma place_length: "place j x is sibs = Some ch \<Longrightarrow> length ch = length is"
  by (induction j x "is" sibs arbitrary: ch rule: place.induct) (auto split: if_splits list.splits)

lemma place_nth:
  "place j x is sibs = Some ch \<Longrightarrow> i < length is \<Longrightarrow> is ! i = j \<Longrightarrow> ch ! i = x"
  by (induction j x "is" sibs arbitrary: ch i rule: place.induct)
    (auto split: if_splits list.splits simp: nth_Cons')

lemma place_elems:
  "place j x is sibs = Some ch \<Longrightarrow> set ch \<subseteq> insert x (set sibs)"
  by (induction j x "is" sibs arbitrary: ch rule: place.induct) (fastforce split: if_splits list.splits)+

lemma ceil_div_bounds: "0 < a \<Longrightarrow> 0 < n \<Longrightarrow> 0 < (n + a - 1) div a \<and> (n + a - 1) div a \<le> (n :: nat)"
proof
  assume a: "0 < a" and n: "0 < n"
  then show "0 < (n + a - 1) div a" by (simp add: div_greater_zero_iff)
  have "n + a - 1 \<le> n * a" using a n by (cases a; cases n) auto
  then have "(n + a - 1) div a \<le> n * a div a" by (rule div_le_mono)
  then show "(n + a - 1) div a \<le> n" using a by simp
qed

lemma parent_level_nth:
  "i < length (parent_level h a label (Suc lvl) c) \<Longrightarrow>
     parent_level h a label (Suc lvl) c ! i = finalize_hash h (node_str a label (Suc lvl) i (group a c i))"
  by (simp add: parent_level_def compress_strs del: of_nat_Suc)

text \<open>The two ends of a tree: a single node on top, and a claim that is too high.\<close>

lemma climb_binding_top:
  assumes "climb h label ars lvl (finalize_hash h x) idx path = Reaches (finalize_hash h (inp 0))"
    and "at_level label lvl idx x" "at_level label lvl 0 (inp (0 :: nat))" "idx < 2 ^ 64"
    and l: "lvl + length ars < 2 ^ 32 - 1"
  shows "(idx = 0 \<and> x = inp idx) \<or>
    collides (finalize_hash h) (x # path_strs h label ars lvl (finalize_hash h x) idx path) [inp 0]"
proof (cases path)
  case Nil
  then have "finalize_hash h x = finalize_hash h (inp 0)" using assms(1) by simp
  moreover have "x = inp 0 \<Longrightarrow> idx = 0"
    using at_level_inject(2) [OF assms(2), of lvl 0] assms(3,4) l by simp
  ultimately show ?thesis by (auto simp: collides_def collision_def)
next
  case (Cons s p)
  from path_root [OF assms(1) [unfolded Cons]] obtain z l' i where
    z: "z \<in> set (path_strs h label ars lvl (finalize_hash h x) idx path)"
      "finalize_hash h (inp 0) = finalize_hash h z" "at_level label l' i z" "lvl < l'" "l' \<le> lvl + length ars"
    unfolding Cons by blast
  have "z \<noteq> inp 0" using at_level_inject(1) [of label l' i z lvl 0] z(3-5) assms(3) l by auto
  then show ?thesis using z(1,2) by (auto simp: collides_def collision_def)
qed

lemma climb_binding_short:
  assumes "build_levels h label lvl ars cur = Some lv" "1 < length cur"
    and "finalize_hash h x = hd (last lv)" "at_level label lvl idx x"
    and l: "lvl + length ars < 2 ^ 32 - 1"
  shows "collides (finalize_hash h) [x] (tree_strs h label lvl ars cur)"
proof -
  from tree_root_str [OF assms(1,2)] obtain z l' i where
    z: "z \<in> set (tree_strs h label lvl ars cur)" "hd (last lv) = finalize_hash h z"
      "at_level label l' i z" "lvl < l'" "l' \<le> lvl + length ars" by blast
  have "z \<noteq> x" using at_level_inject(1) [of label l' i z lvl idx] z(3-5) assms(4) l by auto
  then show ?thesis using z(1,2) assms(3) by (auto simp: collides_def collision_def)
qed

text \<open>Equal parents have the claimed child in common.\<close>

lemma node_str_child:
  assumes h: "hasher_ok h" and a: "0 < a" "a dvd length c" "idx div a < length c div a"
    and ch: "place (idx mod a) (finalize_hash h x) [0..<a] s = Some ch"
    and eq: "node_str a label l (idx div a) ch = node_str a label l (idx div a) (group a c (idx div a))"
    and len: "\<forall>y \<in> set s. length y = hash_bytes h" "\<forall>y \<in> set c. length y = hash_bytes h"
  shows "idx < length c" "c ! idx = finalize_hash h x"
proof -
  obtain k where k: "length c = a * k" using a(2) by blast
  have "idx div a < k" using a k by simp
  then have "idx div a * a + a \<le> length c" using mult_le_mono1 [of "Suc (idx div a)" k a] k by (simp add: mult.commute)
  moreover have i: "idx div a * a + idx mod a = idx" "idx mod a < a" using a(1) by simp_all
  ultimately show "idx < length c" by linarith
  have g: "length (group a c (idx div a)) = a"
    using \<open>idx div a * a + a \<le> length c\<close> by (simp add: group_def)
  have "set ch \<subseteq> insert (finalize_hash h x) (set s)" by (rule place_elems [OF ch])
  then have l: "\<forall>y \<in> set ch \<union> set (group a c (idx div a)). length y = hash_bytes h"
    using len h by (auto simp: group_def dest!: in_set_takeD in_set_dropD)
  have lc: "length ch = length (group a c (idx div a))" using place_length [OF ch] g by simp
  have "concat ch @ [] = concat (group a c (idx div a)) @ []" using eq by (simp add: node_str_def)
  then have "ch = group a c (idx div a)" using concat_fixed_inject [OF lc l] by blast
  moreover have "ch ! (idx mod a) = finalize_hash h x" by (rule place_nth [OF ch]) (use a(1) in simp_all)
  ultimately show "c ! idx = finalize_hash h x"
    using i \<open>idx div a * a + a \<le> length c\<close> by (simp add: group_def)
qed

text \<open>
  The strings \<open>inp\<close> of a level and the string \<open>x\<close> of a claimed node that climbs to the same root:
  the claimed node is in the tree, or the climb and the tree hash colliding strings.
\<close>

lemma climb_binding:
  assumes "hasher_ok h"
  shows "build_levels h label lvl ars cur = Some lv \<Longrightarrow> cur \<noteq> [] \<Longrightarrow>
    climb h label ars lvl (finalize_hash h x) idx path = Reaches (hd (last lv)) \<Longrightarrow>
    \<forall>j < length cur. cur ! j = finalize_hash h (inp j) \<and> at_level label lvl j (inp j) \<Longrightarrow>
    at_level label lvl idx x \<Longrightarrow> idx < 2 ^ 64 \<Longrightarrow> length cur < 2 ^ 64 \<Longrightarrow> lvl + length ars < 2 ^ 32 - 1 \<Longrightarrow>
    \<forall>s \<in> set path. \<forall>y \<in> set s. length y = hash_bytes h \<Longrightarrow>
    (idx < length cur \<and> x = inp idx) \<or>
    collides (finalize_hash h) (x # path_strs h label ars lvl (finalize_hash h x) idx path)
      (map inp [0..<length cur] @ tree_strs h label lvl ars cur)"
proof (induction ars arbitrary: lvl cur lv x idx path inp)
  case Nil
  have "length cur \<le> 1" by (rule build_levels_cases [OF Nil.prems(1)]) auto
  then have one: "length cur = 1" "lv = [cur]"
    using build_levels_one [OF Nil.prems(1,2)] by simp_all
  then have "hd (last lv) = finalize_hash h (inp 0)" "at_level label lvl 0 (inp 0)"
    using Nil.prems(4) by (cases cur; simp)+
  then show ?case
    using climb_binding_top [of h label "[]" lvl x idx path inp] Nil.prems one
    by (auto simp: collides_def)
next
  case (Cons a ars)
  let ?H = "finalize_hash h"
  let ?strs = "x # path_strs h label (a # ars) lvl (?H x) idx path"
  have c32: "Suc lvl + length ars < 2 ^ 32 - 1" using Cons.prems(8) by simp
  show ?case
  proof (cases "length cur \<le> 1")
    case True
    then have one: "length cur = 1" "lv = [cur]"
      using build_levels_one [OF Cons.prems(1,2)] by simp_all
    then have "hd (last lv) = ?H (inp 0)" "at_level label lvl 0 (inp 0)"
      using Cons.prems(4) by (cases cur; simp)+
    then show ?thesis
      using climb_binding_top [of h label "a # ars" lvl x idx path inp] Cons.prems one
      by (auto simp: collides_def)
  next
    case False
    let ?c = "pad_group a cur"
    let ?q = "parent_level h a label (Suc lvl) ?c"
    let ?inp = "\<lambda>j. node_str a label (Suc lvl) j (group a ?c j)"
    obtain lv' where a: "0 < a" and lv: "lv = ?c # lv'" and b: "build_levels h label (Suc lvl) ars ?q = Some lv'"
      by (rule build_levels_cases [OF Cons.prems(1)]) (use False in auto)
    have tree: "tree_strs h label lvl (a # ars) cur =
        map ?inp [0..<length ?q] @ tree_strs h label (Suc lvl) ars ?q"
      using False by (subst tree_strs.simps) (simp add: Let_def)
    show ?thesis
    proof (cases path)
      case Nil
      then have "?H x = hd (last lv)" using Cons.prems(3) by simp
      then show ?thesis
        using climb_binding_short [OF Cons.prems(1) _ _ Cons.prems(5,8)] False
        by (auto simp: collides_def)
    next
      case path: (Cons s p)
      obtain ch where ch: "place (idx mod a) (?H x) [0..<a] s = Some ch"
        using Cons.prems(3) a by (auto simp: path split: option.splits)
      let ?x = "node_str a label (Suc lvl) (idx div a) ch"
      have "climb h label ars (Suc lvl) (?H ?x) (idx div a) p = Reaches (hd (last lv'))"
        using Cons.prems(3) a ch lv build_levels_ne [OF b] by (simp add: path compress_strs del: of_nat_Suc)
      moreover have "length ?q \<le> length cur" "?q \<noteq> []"
        using ceil_div_bounds [OF a, of "length cur"] False length_pad_group(3) [OF a, of cur]
        by (simp_all flip: length_greater_0_conv)
      ultimately have "(idx div a < length ?q \<and> ?x = ?inp (idx div a)) \<or>
          collides ?H (?x # path_strs h label ars (Suc lvl) (?H ?x) (idx div a) p)
            (map ?inp [0..<length ?q] @ tree_strs h label (Suc lvl) ars ?q)"
        using Cons.prems(6-9) path c32
        by (intro Cons.IH [OF b])
          (auto simp: at_level_node parent_level_nth simp del: length_parent_level
            intro: le_less_trans [OF div_le_dividend])
      then show ?thesis
      proof
        assume "collides ?H (?x # path_strs h label ars (Suc lvl) (?H ?x) (idx div a) p)
            (map ?inp [0..<length ?q] @ tree_strs h label (Suc lvl) ars ?q)"
        then have "collides ?H ?strs (map inp [0..<length cur] @ tree_strs h label lvl (a # ars) cur)"
          by (rule collides_mono) (auto simp: path ch tree Let_def)
        then show ?thesis ..
      next
        assume q: "idx div a < length ?q \<and> ?x = ?inp (idx div a)"
        have "\<forall>y \<in> set cur. length y = hash_bytes h"
          using Cons.prems(4) assms by (metis in_set_conv_nth length_finalize_hash)
        then have c: "\<forall>y \<in> set ?c. length y = hash_bytes h"
          using Cons.prems(2) by (auto simp: pad_group_def)
        have q': "idx div a < length ?c div a" using q by simp
        have s: "\<forall>y \<in> set s. length y = hash_bytes h" using Cons.prems(9) path by simp
        note child = node_str_child [OF assms a length_pad_group(1) [OF a] q' ch conjunct2 [OF q] s c]
        obtain j where j: "j < length cur" "?c ! idx = cur ! j" "j = idx \<or> (\<not> idx < length cur)"
        proof (cases "idx < length cur")
          case True then show ?thesis using that pad_group_nth by blast
        next
          case out: False
          then have "?c ! idx = cur ! (length cur - 1)"
            using pad_group_nth_last [OF _ child(1)] Cons.prems(2) by (simp add: last_conv_nth)
          then show ?thesis using that [of "length cur - 1"] out Cons.prems(2) by simp
        qed
        have eq: "?H (inp j) = ?H x" using child(2) j(1,2) Cons.prems(4) by simp
        have "at_level label lvl j (inp j)" using Cons.prems(4) j(1) by blast
        then have idx: "x = inp j \<Longrightarrow> idx = j"
          using at_level_inject(2) [OF Cons.prems(5), of lvl j] Cons.prems(6-8) j(1) by simp
        show ?thesis
        proof (cases "x = inp j")
          case True
          then show ?thesis using idx j(1) by simp
        next
          case False
          then have "collision ?H x (inp j)" using eq by (simp add: collision_def)
          then show ?thesis using j(1) by (auto simp: collides_def)
        qed
      qed
    qed
  qed
qed

text \<open>The byte form of a field element has eight bytes and determines it.\<close>

definition fb_ok :: "('f \<Rightarrow> bytes) \<Rightarrow> bool" where
  "fb_ok fb \<longleftrightarrow> inj fb \<and> (\<forall>v. length (fb v) = 8)"

lemma field_to_bytes_ok: "inj rep \<Longrightarrow> fb_ok (field_to_bytes rep)"
  by (auto simp: fb_ok_def field_to_bytes_def inj_def)

lemma field_values_inject:
  assumes "fb_ok fb"
  shows "field_values fb vs = field_values fb ws \<longleftrightarrow> vs = ws"
proof
  have "length (field_values fb us) = 8 * length us" for us
    using assms by (induction us) (auto simp: field_values_def fb_ok_def)
  moreover assume eq: "field_values fb vs = field_values fb ws"
  ultimately have "length vs = length ws" by (metis mult_cancel1 zero_neq_numeral)
  then show "vs = ws" using eq assms
    by (induction vs ws rule: list_induct2) (auto simp: field_values_def fb_ok_def inj_eq)
qed simp

definition opening_strs :: "hasher \<Rightarrow> ('f \<Rightarrow> bytes) \<Rightarrow> merkle_cfg \<Rightarrow> 'f list \<Rightarrow> merkle_opening \<Rightarrow> bytes list" where
  "opening_strs h fb cfg vs op = leaf_str fb (hd (layer_arities cfg)) (tree_label cfg) (mo_index op) vs #
     path_strs h (tree_label cfg) (layer_arities cfg) 0 (mo_leaf op) (mo_index op) (mo_path op)"

definition commit_strs :: "hasher \<Rightarrow> ('f \<Rightarrow> bytes) \<Rightarrow> merkle_cfg \<Rightarrow> 'f list list \<Rightarrow> bytes list" where
  "commit_strs h fb cfg vss = (let a = hd (layer_arities cfg); n = length vss in
     map (\<lambda>i. leaf_str fb a (tree_label cfg) i (vss ! i)) [0..<n] @
     tree_strs h (tree_label cfg) 0 (layer_arities cfg) (leaf_hashes h fb a (tree_label cfg) vss 0 n))"

lemma channel_binding:
  assumes "commit_values h fb cfg vss = Some (t, r)" "opens_to h fb cfg vs i op r"
    and "hasher_ok h" "fb_ok fb" "length (layer_arities cfg) < 2 ^ 32 - 1"
    and "length vss < 2 ^ 64" "i < 2 ^ 64" "\<forall>s \<in> set (mo_path op). \<forall>y \<in> set s. length y = hash_bytes h"
  shows "(i < length vss \<and> vs = vss ! i) \<or>
    collides (finalize_hash h) (opening_strs h fb cfg vs op) (commit_strs h fb cfg vss)"
proof (rule commit_values_Some [OF assms(1)])
  fix a ars lv
  assume a: "layer_arities cfg = a # ars" and ne: "vss \<noteq> []" and r: "r = hd (last lv)"
    and b: "build_levels h (tree_label cfg) 0 (a # ars)
      (leaf_hashes h fb a (tree_label cfg) vss 0 (length vss)) = Some lv"
  let ?x = "leaf_str fb a (tree_label cfg) i vs"
  let ?inp = "\<lambda>j. leaf_str fb a (tree_label cfg) j (vss ! j)"
  let ?cur = "leaf_hashes h fb a (tree_label cfg) vss 0 (length vss)"
  have leaf: "mo_leaf op = finalize_hash h ?x" "mo_index op = i"
    using assms(2) by (auto simp: opens_to_def compute_leaf_hash_def a compress_strs)
  have c: "climb h (tree_label cfg) (a # ars) 0 (finalize_hash h ?x) i (mo_path op) = Reaches (hd (last lv))"
    using assms(2) by (auto simp: opens_to_def verify_opening_def a leaf(1) r split: climb_result.splits)
  have "(i < length ?cur \<and> ?x = ?inp i) \<or>
      collides (finalize_hash h) (?x # path_strs h (tree_label cfg) (a # ars) 0 (finalize_hash h ?x) i (mo_path op))
        (map ?inp [0..<length ?cur] @ tree_strs h (tree_label cfg) 0 (a # ars) ?cur)"
  proof (rule climb_binding [OF assms(3) b _ c])
    show "?cur \<noteq> []" using ne by (simp flip: length_greater_0_conv)
    show "\<forall>j < length ?cur. ?cur ! j = finalize_hash h (?inp j) \<and> at_level (tree_label cfg) 0 j (?inp j)"
      by (auto simp: leaf_hashes_nth compress_strs leaf_str_def at_level_def)
    show "at_level (tree_label cfg) 0 i ?x" by (auto simp: leaf_str_def at_level_def)
    show "0 + length (a # ars) < 2 ^ 32 - 1" using assms(5) by (simp only: a add_0)
  qed (use assms(6-8) in simp_all)
  then show ?thesis
    using field_values_inject [OF assms(4)]
    by (auto simp: opening_strs_def commit_strs_def a leaf Let_def leaf_str_def)
qed

text \<open>C10: An accepted opening is an opening of the commitment: if field values and an opening with
  any path pass the three checks against the root of a committed list, then the index is in
  range and the values are those committed there, or a string hashed by the verifier and a
  string hashed by the committer are a collision.\<close>

theorem channel_opening_binding:
  assumes "commit_values h fb cfg vss = Some (t, r)" "opens_to h fb cfg vs i op r"
    and "hasher_ok h" "fb_ok fb" "length (layer_arities cfg) < 2 ^ 32 - 1"
    and "length vss < 2 ^ 64" "i < 2 ^ 64" "\<forall>s \<in> set (mo_path op). \<forall>y \<in> set s. length y = hash_bytes h"
  shows "(i < length vss \<and> vs = vss ! i) \<or>
    collides (finalize_hash h) (opening_strs h fb cfg vs op) (commit_strs h fb cfg vss)"
  by (rule channel_binding [OF assms])

definition toy_hasher :: hasher where
  "toy_hasher = \<lparr>hs_digest = \<lambda>x. take 2 (rev x @ [0, 0]), hash_bytes = 2\<rparr>"

lemma toy_hasher_ok: "hasher_ok toy_hasher"
  by (simp add: hasher_ok_def toy_hasher_def min_def)

lemma toy_fb_ok: "fb_ok (\<lambda>w :: u64. le64 w)"
  by (simp add: fb_ok_def inj_def)

definition toy_cfg :: merkle_cfg where
  "toy_cfg = \<lparr>layer_arities = [2], tree_label = 9\<rparr>"

abbreviation toy_leaf :: "nat \<Rightarrow> u64 list \<Rightarrow> bytes" where
  "toy_leaf i vs \<equiv> compress_leaf_standalone toy_hasher (\<lambda>w. le64 w) 2 9 (word_of_nat i) vs"

lemma toy_commit:
  obtains t r where "commit_values toy_hasher (\<lambda>w. le64 w) toy_cfg [[1], [2]] = Some (t, r)"
    "opens_to toy_hasher (\<lambda>w. le64 w) toy_cfg [2] 1
       \<lparr>mo_leaf = toy_leaf 1 [2], mo_path = [[toy_leaf 0 [1]]], mo_index = 1\<rparr> r"
proof -
  define l0 l1 where l: "l0 = toy_leaf 0 [1]" "l1 = toy_leaf 1 [2]"
  define r where "r = compress_node_standalone toy_hasher 2 9 1 0 [l0, l1]"
  have "commit_values toy_hasher (\<lambda>w. le64 w) toy_cfg [[1], [2]] =
      Some (\<lparr>mt_cfg = toy_cfg, mt_skip = 0, mt_levels = [[l0, l1], [r]]\<rparr>, r)"
    by (simp add: commit_values_def push_leaves_parallel_def finalize_def new_tree_def with_level0_def
        fin_loop.simps pad_group_def parent_level_def group_def leaf_hashes_def top_node_def toy_cfg_def
        l r_def upt_conv_Cons Let_def)
  moreover have "opens_to toy_hasher (\<lambda>w. le64 w) toy_cfg [2] 1
      \<lparr>mo_leaf = l1, mo_path = [[l0]], mo_index = 1\<rparr> r"
    by (simp add: opens_to_def compute_leaf_hash_def verify_opening_def toy_cfg_def r_def l(2) upt_conv_Cons)
  ultimately show ?thesis using that unfolding l by blast
qed

lemma channel_opening_binding_witness:
  "\<exists>t r op. commit_values toy_hasher (\<lambda>w. le64 w) toy_cfg [[1], [2]] = Some (t, r) \<and>
     ([2 :: u64] = [[1], [2]] ! 1 \<or> collides (finalize_hash toy_hasher)
       (opening_strs toy_hasher (\<lambda>w. le64 w) toy_cfg [2] op) (commit_strs toy_hasher (\<lambda>w. le64 w) toy_cfg [[1], [2]]))"
proof (rule toy_commit)
  fix t r
  let ?op = "\<lparr>mo_leaf = toy_leaf 1 [2], mo_path = [[toy_leaf 0 [1]]], mo_index = 1\<rparr>"
  assume c: "commit_values toy_hasher (\<lambda>w. le64 w) toy_cfg [[1], [2]] = Some (t, r)"
    and o: "opens_to toy_hasher (\<lambda>w. le64 w) toy_cfg [2] 1 ?op r"
  have "length (toy_leaf 0 [1]) = hash_bytes toy_hasher"
    using toy_hasher_ok by (simp add: compress_leaf_standalone_def)
  then have "(1 < length [[1], [2 :: u64]] \<and> [2] = [[1], [2 :: u64]] ! 1) \<or>
      collides (finalize_hash toy_hasher) (opening_strs toy_hasher (\<lambda>w. le64 w) toy_cfg [2] ?op)
        (commit_strs toy_hasher (\<lambda>w. le64 w) toy_cfg [[1], [2]])"
    by (intro channel_opening_binding [OF c o toy_hasher_ok toy_fb_ok]) (simp_all add: toy_cfg_def)
  then show ?thesis using c by blast
qed

text \<open>Every committed value can be opened: when the configuration has arities for the values,
  the commitment exists, and for every index the opening read off the tree passes the three
  checks against the root with the value committed there.\<close>

lemma channel_tree_complete:
  assumes "cfg_fits cfg vss"
  shows "\<exists>t r. commit_values h fb cfg vss = Some (t, r) \<and>
    (\<forall>i < length vss. \<exists>op. open_full t i = Some op \<and> opens_to h fb cfg (vss ! i) i op r)"
  using channel.committed_items_open [of cfg id vss h fb] assms by fastforce

lemma channel_tree_complete_witness:
  "\<exists>t r op. commit_values toy_hasher (\<lambda>w :: u64. le64 w) toy_cfg [[1], [2]] = Some (t, r) \<and>
     open_full t 1 = Some op \<and> opens_to toy_hasher (\<lambda>w. le64 w) toy_cfg [2] 1 op r"
  using channel_tree_complete [of toy_cfg "[[1], [2 :: u64]]" toy_hasher "\<lambda>w. le64 w"]
  by (fastforce simp: cfg_fits_def toy_cfg_def)

end
