(* ===== verification/Merkle_Compact.thy ===== *)
theory Merkle_Compact
  imports Merkle_Props
begin

text \<open>
  The compact tree refines the full one: \<open>commit_compact\<close> computes the root of \<open>finalize\<close> and
  \<open>open_compact\<close> the openings of \<open>open\<close>, although the bottom binary levels are not stored.
\<close>

section \<open>The bottom levels\<close>

text \<open>\<open>k\<close> binary levels above a level, without padding.\<close>

fun bin_levels :: "hasher \<Rightarrow> u64 \<Rightarrow> nat \<Rightarrow> nat \<Rightarrow> bytes list \<Rightarrow> bytes list list" where
  "bin_levels h label d 0 xs = [xs]"
| "bin_levels h label d (Suc k) xs = xs # bin_levels h label (Suc d) k (parent_level h 2 label (Suc d) xs)"

abbreviation top_level :: "hasher \<Rightarrow> u64 \<Rightarrow> nat \<Rightarrow> nat \<Rightarrow> bytes list \<Rightarrow> bytes list" where
  "top_level h label d k xs \<equiv> last (bin_levels h label d k xs)"

lemma bin_levels_ne [simp]: "bin_levels h label d k xs \<noteq> []"
  by (cases k) auto

lemma length_top: "length (top_level h label d k xs) = length xs div 2 ^ k"
  by (induction k arbitrary: d xs) (simp_all add: div_mult2_eq)

lemma append_Cons_fun: "(@) (x # xs) = (\<lambda>ys. x # xs @ ys)"
  by auto

lemma build_levels_binary:
  "2 ^ k dvd length xs \<Longrightarrow> 0 < length xs \<Longrightarrow>
    build_levels h label d (replicate k 2 @ ars) xs =
      map_option ((@) (butlast (bin_levels h label d k xs))) (build_levels h label (d + k) ars (top_level h label d k xs))"
proof (induction k arbitrary: d xs)
  case 0
  then show ?case by (simp add: option.map_ident_strong)
next
  case (Suc k)
  have e: "2 dvd length xs" using Suc.prems(1) by (metis dvd_mult_left power_Suc)
  then obtain m where "length xs = 2 * m" by blast
  then have l: "1 < length xs" "pad_group 2 xs = xs"
    using Suc.prems(2) by (simp_all add: pad_group_def)
  let ?q = "parent_level h 2 label (Suc d) xs"
  have "2 ^ k dvd length ?q" using Suc.prems(1) by (auto simp: dvd_def)
  moreover have "0 < length ?q" using l(1) by (simp add: div_greater_zero_iff)
  ultimately show ?case
    using Suc.IH [of ?q "Suc d"] l by (subst build_levels.simps) (simp add: option.map_comp comp_def append_Cons_fun)
qed

text \<open>A chunk of \<open>2 ^ k\<close> entries of a level, from entry \<open>c * 2 ^ k\<close>.\<close>

definition chunk :: "nat \<Rightarrow> nat \<Rightarrow> 'a list \<Rightarrow> 'a list" where
  "chunk k c xs = take (2 ^ k) (drop (c * 2 ^ k) xs)"

lemma chunk_bounds:
  fixes c n k :: nat
  assumes "2 ^ k dvd n" "c < n div 2 ^ k" "i < 2 ^ k"
  shows "c * 2 ^ k + i < n"
proof -
  obtain m where m: "n = m * 2 ^ k" using assms(1) by (auto simp: dvd_def)
  then have "Suc c \<le> m" using assms(2) by simp
  then have "Suc c * 2 ^ k \<le> m * 2 ^ k" by (rule mult_le_mono1)
  then show ?thesis using m assms(3) by simp
qed

lemma length_chunk:
  assumes "2 ^ k dvd length xs" "c < length xs div 2 ^ k"
  shows "length (chunk k c xs) = 2 ^ k"
  using chunk_bounds [OF assms, of "2 ^ k - 1"] by (simp add: chunk_def)

lemma chunk_nth:
  assumes "2 ^ k dvd length xs" "c < length xs div 2 ^ k" "i < 2 ^ k"
  shows "chunk k c xs ! i = xs ! (c * 2 ^ k + i)"
  using chunk_bounds [OF assms] assms(3) by (simp add: chunk_def)

text \<open>Folding a chunk by one level is the chunk of the folded level.\<close>

lemma fold_half_chunk:
  assumes "2 ^ Suc k dvd length xs" "c < length xs div 2 ^ Suc k" "base div 2 ^ Suc d = c * 2 ^ k"
  shows "fold_half h label base d (chunk (Suc k) c xs) = chunk k c (parent_level h 2 label (Suc d) xs)"
proof (rule nth_equalityI)
  let ?q = "parent_level h 2 label (Suc d) xs"
  have e: "2 dvd length xs" using assms(1) by (metis dvd_mult_left power_Suc)
  have q: "2 ^ k dvd length ?q" "c < length ?q div 2 ^ k"
    using assms(1,2) by (auto simp: dvd_def div_mult2_eq)
  have len: "length (chunk (Suc k) c xs) = 2 ^ Suc k" by (rule length_chunk [OF assms(1,2)])
  then show "length (fold_half h label base d (chunk (Suc k) c xs)) = length (chunk k c ?q)"
    using length_chunk [OF q] by (simp add: fold_half_def)
  fix i assume "i < length (fold_half h label base d (chunk (Suc k) c xs))"
  then have i: "i < 2 ^ k" using len by (simp add: fold_half_def)
  have j: "2 * i < 2 ^ Suc k" "2 * i + 1 < 2 ^ Suc k" using i by auto
  let ?p = "c * 2 ^ k + i"
  have p: "?p < length xs div 2" using chunk_bounds [OF q i] by simp
  then have p2: "2 * ?p + 1 < length xs" using e by (auto simp: dvd_def)
  have g: "group 2 xs ?p = [xs ! (2 * ?p), xs ! (2 * ?p + 1)]"
    using p2 by (intro nth_equalityI) (auto simp: group_def less_2_cases_iff algebra_simps)
  have l2: "length (chunk (Suc k) c xs) div 2 = 2 ^ k" using len by simp
  have n: "chunk (Suc k) c xs ! (2 * i) = xs ! (2 * ?p)" "chunk (Suc k) c xs ! (2 * i + 1) = xs ! (2 * ?p + 1)"
    using chunk_nth [OF assms(1,2) j(1)] chunk_nth [OF assms(1,2) j(2)] by (simp_all add: algebra_simps)
  have "fold_half h label base d (chunk (Suc k) c xs) ! i =
      compress_node_standalone h 2 label (word_of_nat (Suc d)) (word_of_nat (base div 2 ^ Suc d + i))
        [chunk (Suc k) c xs ! (2 * i), chunk (Suc k) c xs ! (2 * i + 1)]"
    unfolding fold_half_def l2 using i by (simp del: of_nat_Suc of_nat_add power_Suc)
  also have "\<dots> = compress_node_standalone h 2 label (word_of_nat (Suc d)) (word_of_nat ?p)
        [xs ! (2 * ?p), xs ! (2 * ?p + 1)]"
    unfolding assms(3) n by (rule refl)
  also have "\<dots> = ?q ! ?p" using p g by (simp add: parent_level_def del: of_nat_Suc of_nat_add)
  also have "\<dots> = chunk k c ?q ! i" using chunk_nth [OF q i] by simp
  finally show "fold_half h label base d (chunk (Suc k) c xs) ! i = chunk k c ?q ! i" .
qed

lemma chunk_step:
  assumes "2 ^ Suc k dvd length xs" "c < length xs div 2 ^ Suc k"
  shows "2 ^ k dvd length (parent_level h 2 label (Suc d) xs)"
    "c < length (parent_level h 2 label (Suc d) xs) div 2 ^ k"
  using assms by (auto simp: dvd_def div_mult2_eq)

lemma base_div: "(c * 2 ^ (d + k)) div 2 ^ d = c * (2 :: nat) ^ k"
  by (simp add: power_add)

lemma fold_buf_chunk:
  assumes "2 ^ k dvd length xs" "c < length xs div 2 ^ k"
  shows "fold_buf h label (c * 2 ^ (d + k)) d k (chunk k c xs) = [top_level h label d k xs ! c]"
  using assms
proof (induction k arbitrary: d xs)
  case 0
  then show ?case by (simp add: chunk_def take_Suc_conv_app_nth Cons_nth_drop_Suc [symmetric])
next
  case (Suc k)
  have b: "c * 2 ^ (d + Suc k) div 2 ^ Suc d = c * 2 ^ k" using base_div [of c "Suc d" k] by simp
  show ?case
    using Suc.IH [OF chunk_step [OF Suc.prems], of "Suc d"] fold_half_chunk [OF Suc.prems b]
    by simp
qed

lemma chunk_levels_nth:
  assumes "2 ^ k dvd length xs" "c < length xs div 2 ^ k" "j \<le> k"
  shows "chunk_levels h label (c * 2 ^ (d + k)) d k (chunk k c xs) ! j = chunk (k - j) c (bin_levels h label d k xs ! j)"
  using assms
proof (induction k arbitrary: d xs j)
  case (Suc k)
  have b: "c * 2 ^ (d + Suc k) div 2 ^ Suc d = c * 2 ^ k" using base_div [of c "Suc d" k] by simp
  show ?case
    using Suc.IH [OF chunk_step [OF Suc.prems(1,2)], where d = "Suc d" and j = "j - 1"] fold_half_chunk [OF Suc.prems(1,2) b] Suc.prems(3)
    by (cases j) auto
qed simp

section \<open>Paths\<close>

lemma bin_levels_nth_length:
  "j \<le> k \<Longrightarrow> length (bin_levels h label d k xs ! j) = length xs div 2 ^ j"
proof (induction k arbitrary: d xs j)
  case (Suc k)
  then show ?case by (cases j) (simp_all add: div_mult2_eq)
qed simp

lemma open_path_binary:
  "lv \<noteq> [] \<Longrightarrow> open_path (replicate k 2 @ ars) (butlast (bin_levels h label d k xs) @ lv) i =
    map_option ((@) (map (\<lambda>j. siblings 2 (bin_levels h label d k xs ! j) (i div 2 ^ j)) [0..<k]))
      (open_path ars lv (i div 2 ^ k))"
proof (induction k arbitrary: d xs i)
  case 0
  then show ?case by (simp add: option.map_ident_strong)
next
  case (Suc k)
  let ?q = "parent_level h 2 label (Suc d) xs"
  obtain l ls where l: "butlast (bin_levels h label (Suc d) k ?q) @ lv = l # ls"
    using Suc.prems by (cases "butlast (bin_levels h label (Suc d) k ?q) @ lv") auto
  have "[0..<Suc k] = 0 # map Suc [0..<k]" by (simp add: map_Suc_upt upt_conv_Cons)
  then show ?case
    using Suc.IH [OF Suc.prems, of "Suc d" ?q "i div 2"] l
    by (simp add: option.map_comp comp_def div_mult2_eq append_Cons_fun)
qed

definition bottom_siblings :: "bytes list list \<Rightarrow> nat \<Rightarrow> nat \<Rightarrow> nat \<Rightarrow> bytes list" where
  "bottom_siblings lv chunk_base depth idx =
     (let local = idx - chunk_base div 2 ^ depth; local_group = local div 2 * 2 in
      map (\<lambda>i. lv ! depth ! (local_group + i)) (filter (\<lambda>i. local_group + i \<noteq> local) [0..<2]))"

lemma bottom_path_map:
  "bottom_path lv cb depth k idx = map (\<lambda>j. bottom_siblings lv cb (depth + j) (idx div 2 ^ j)) [0..<k]"
proof (induction k arbitrary: depth idx)
  case (Suc k)
  have "[0..<Suc k] = 0 # map Suc [0..<k]" by (simp add: map_Suc_upt upt_conv_Cons)
  then show ?case
    using Suc.IH [of "Suc depth" "idx div 2"]
    by (simp add: bottom_siblings_def Let_def div_mult2_eq comp_def)
qed simp

lemma bottom_siblings_eq:
  assumes k: "2 ^ k dvd length xs" and i: "i < length xs" and j: "j < k"
  shows "bottom_siblings (chunk_levels h label (i div 2 ^ k * 2 ^ k) 0 k (chunk k (i div 2 ^ k) xs))
      (i div 2 ^ k * 2 ^ k) j (i div 2 ^ j) = siblings 2 (bin_levels h label 0 k xs ! j) (i div 2 ^ j)"
proof -
  define c where "c = i div 2 ^ k"
  define g where "g = i div 2 ^ j"
  define L where "L = bin_levels h label 0 k xs ! j"
  obtain e where e: "k = Suc (j + e)" using j less_iff_Suc_add by auto
  obtain m where m: "length xs = 2 ^ k * m" using k by blast
  have len: "length L = 2 ^ Suc e * m"
    unfolding L_def using bin_levels_nth_length [of j k] j m by (simp add: e power_add)
  have c: "c < m" unfolding c_def using i m by (simp add: less_mult_imp_div_less mult.commute)
  have cg: "c = g div 2 ^ Suc e"
  proof -
    have "(2 :: nat) ^ k = 2 ^ j * 2 ^ Suc e" by (simp add: e power_add)
    then show ?thesis unfolding c_def g_def by (simp only: div_mult2_eq)
  qed
  have gL: "g < length L"
    using i unfolding g_def len by (simp add: m e power_add less_mult_imp_div_less ac_simps)
  define l where "l = g mod 2 ^ Suc e"
  have gl: "g = c * 2 ^ Suc e + l" "l < 2 ^ Suc e" unfolding cg l_def by (simp_all add: div_mult_mod_eq)
  have cL: "2 ^ Suc e dvd length L" "c < length L div 2 ^ Suc e" using len c by simp_all
  have base: "c * 2 ^ k div 2 ^ j = c * 2 ^ Suc e"
    using base_div [of c j "Suc e"] by (simp add: e)
  have lev: "chunk_levels h label (c * 2 ^ k) 0 k (chunk k c xs) ! j = chunk (Suc e) c L"
    using chunk_levels_nth [of k xs c j h label 0] k c m j unfolding L_def by (simp add: e)
  have l2: "l div 2 * 2 + t < 2 ^ Suc e" if "t < 2" for t
  proof -
    have "l div 2 < 2 ^ e" using gl(2) by (simp add: less_mult_imp_div_less mult.commute)
    then show ?thesis using that by simp
  qed
  have gd: "g div 2 * 2 = c * 2 ^ Suc e + l div 2 * 2" "g mod 2 = l mod 2" 
  proof -
    have "g = l + (c * 2 ^ e) * 2" using gl(1) by simp
    then show "g div 2 * 2 = c * 2 ^ Suc e + l div 2 * 2" "g mod 2 = l mod 2"
      by (simp_all only: div_mult_self1 mod_mult_self1) (simp_all add: algebra_simps)
  qed
  have idx: "L ! (g div 2 * 2 + t) = chunk (Suc e) c L ! (l div 2 * 2 + t)" if "t < 2" for t
    using chunk_nth [OF cL l2 [OF that]] unfolding gd(1) by (simp add: add.assoc)
  have flt: "l div 2 * 2 + t \<noteq> l \<longleftrightarrow> t \<noteq> g mod 2" for t
    unfolding gd(2) using div_mult_mod_eq [of l 2] by linarith
  have "2 dvd length L" using len by simp
  then have "siblings 2 L g = map (\<lambda>t. L ! (g div 2 * 2 + t)) (filter (\<lambda>t. t \<noteq> g mod 2) [0..<2])"
    using gL by (intro siblings_padded) simp_all
  also have "\<dots> = bottom_siblings (chunk_levels h label (c * 2 ^ k) 0 k (chunk k c xs)) (c * 2 ^ k) j g"
  proof -
    have l: "g - c * 2 ^ Suc e = l" using gl(1) by simp
    show ?thesis
      unfolding bottom_siblings_def Let_def base lev l flt by (rule map_cong [OF refl]) (simp add: idx)
  qed
  finally show ?thesis unfolding c_def g_def L_def by simp
qed

section \<open>Refinement\<close>

lemma compact_skip_prefix:
  assumes "n = 2 ^ m"
  shows "ars = replicate (compact_skip ars n) 2 @ drop (compact_skip ars n) ars" "2 ^ compact_skip ars n dvd n"
proof -
  let ?k = "compact_skip ars n"
  have "?k \<le> length (takeWhile (\<lambda>a. a = 2) ars)" by (simp add: compact_skip_def)
  then have "take ?k ars = take ?k (takeWhile (\<lambda>a. a = 2) ars)" by (metis takeWhile_eq_take min_absorb1 take_take)
  moreover have "takeWhile (\<lambda>a. a = 2) ars = replicate (length (takeWhile (\<lambda>a. a = 2) ars)) 2"
    by (induction ars) auto
  ultimately have "take ?k ars = replicate ?k 2"
    using \<open>?k \<le> _\<close> by (metis min_absorb1 take_replicate)
  then show "ars = replicate ?k 2 @ drop ?k ars" by (metis append_take_drop_id)
  have "?k \<le> m" by (simp add: compact_skip_def assms)
  then show "2 ^ ?k dvd n" unfolding assms by (rule le_imp_power_dvd)
qed

lemma fold_chunk_chunk:
  assumes "2 ^ k dvd length vss" "c < length vss div 2 ^ k"
  shows "fold_chunk h fb (c * 2 ^ k) (2 ^ k) k a label vss (length vss) =
    top_level h label 0 k (leaf_hashes h fb a label vss 0 (length vss)) ! c"
    and "pad_to (2 ^ k) (leaf_hashes h fb a label vss (c * 2 ^ k) (min (c * 2 ^ k + 2 ^ k) (length vss))) =
    chunk k c (leaf_hashes h fb a label vss 0 (length vss))"
proof -
  let ?l = "leaf_hashes h fb a label vss 0 (length vss)"
  have b: "c * 2 ^ k + 2 ^ k \<le> length vss" using chunk_bounds [OF assms, of "2 ^ k - 1"] by simp
  have "leaf_hashes h fb a label vss (c * 2 ^ k) (c * 2 ^ k + 2 ^ k) = chunk k c ?l"
    using b by (intro nth_equalityI) (simp_all add: chunk_def leaf_hashes_nth)
  then show *: "pad_to (2 ^ k) (leaf_hashes h fb a label vss (c * 2 ^ k) (min (c * 2 ^ k + 2 ^ k) (length vss))) =
      chunk k c ?l"
    using b length_chunk [of k ?l c] assms by (simp add: pad_to_def)
  show "fold_chunk h fb (c * 2 ^ k) (2 ^ k) k a label vss (length vss) = top_level h label 0 k ?l ! c"
    unfolding fold_chunk_def * using fold_buf_chunk [of k ?l c h label 0] assms by simp
qed

text \<open>What the two commitments store and return, level by level.\<close>

lemma commit_compact_levels:
  fixes h :: hasher and fb :: "'f \<Rightarrow> bytes"
  assumes n: "length vss = 2 ^ m" and ars: "layer_arities cfg = a # ars"
  defines "k \<equiv> compact_skip (a # ars) (length vss)"
    and "leaves \<equiv> leaf_hashes h fb a (tree_label cfg) vss 0 (length vss)"
  shows "commit_compact h fb vss (new_tree cfg) =
      (case build_levels h (tree_label cfg) k (drop k (a # ars)) (top_level h (tree_label cfg) 0 k leaves) of
        None \<Rightarrow> None
      | Some lv \<Rightarrow> map_option (Pair \<lparr>mt_cfg = cfg, mt_skip = k, mt_levels = lv\<rparr>) (top_node lv))"
    and "commit_values h fb cfg vss =
      (case build_levels h (tree_label cfg) k (drop k (a # ars)) (top_level h (tree_label cfg) 0 k leaves) of
        None \<Rightarrow> None
      | Some lv \<Rightarrow> map_option (Pair \<lparr>mt_cfg = cfg, mt_skip = 0,
          mt_levels = butlast (bin_levels h (tree_label cfg) 0 k leaves) @ lv\<rparr>) (top_node lv))"
proof -
  have k: "a # ars = replicate k 2 @ drop k (a # ars)" "2 ^ k dvd length vss"
    unfolding k_def by (rule compact_skip_prefix [OF n])+
  have "map (\<lambda>c. fold_chunk h fb (c * 2 ^ k) (2 ^ k) k a (tree_label cfg) vss (length vss)) [0..<length vss div 2 ^ k] =
      top_level h (tree_label cfg) 0 k leaves"
    by (rule nth_equalityI) (simp_all add: length_top leaves_def fold_chunk_chunk [OF k(2)])
  then show "commit_compact h fb vss (new_tree cfg) =
      (case build_levels h (tree_label cfg) k (drop k (a # ars)) (top_level h (tree_label cfg) 0 k leaves) of
        None \<Rightarrow> None
      | Some lv \<Rightarrow> map_option (Pair \<lparr>mt_cfg = cfg, mt_skip = k, mt_levels = lv\<rparr>) (top_node lv))"
    using fin_loop_build_levels [of h "tree_label cfg" k "drop k (a # ars)" "[]"]
    by (simp add: commit_compact_def new_tree_def ars n Let_def k_def [symmetric] k_def [unfolded n, symmetric]
        option.map_ident_strong split: option.split)
  have "build_levels h (tree_label cfg) 0 (a # ars) leaves =
      map_option ((@) (butlast (bin_levels h (tree_label cfg) 0 k leaves)))
        (build_levels h (tree_label cfg) k (drop k (a # ars)) (top_level h (tree_label cfg) 0 k leaves))"
    by (subst k(1), subst build_levels_binary) (use k(2) n in \<open>simp_all add: leaves_def\<close>)
  moreover have "top_node (b @ lv) = top_node lv" if "lv \<noteq> []" for b lv using that by (simp add: top_node_def)
  ultimately show "commit_values h fb cfg vss =
      (case build_levels h (tree_label cfg) k (drop k (a # ars)) (top_level h (tree_label cfg) 0 k leaves) of
        None \<Rightarrow> None
      | Some lv \<Rightarrow> map_option (Pair \<lparr>mt_cfg = cfg, mt_skip = 0,
          mt_levels = butlast (bin_levels h (tree_label cfg) 0 k leaves) @ lv\<rparr>) (top_node lv))"
    using fin_loop_build_levels [of h "tree_label cfg" 0 "a # ars" "[]" leaves]
    by (auto simp: commit_values_def push_leaves_parallel_def finalize_def new_tree_def with_level0_def ars
        leaves_def [symmetric] dest!: build_levels_ne split: option.splits)
qed

text \<open>C11: The compact tree is the full tree: for a number of values that is a power of two,
  \<open>commit_compact\<close> succeeds exactly when building the full tree does, with the same root, and
  every opening rebuilt from the values equals the opening read off the full tree.\<close>

theorem compact_tree_refines:
  assumes n: "length vss = 2 ^ m"
  shows "map_option snd (commit_compact h fb vss (new_tree cfg)) = map_option snd (commit_values h fb cfg vss) \<and>
    (\<forall>tc r t r' i. commit_compact h fb vss (new_tree cfg) = Some (tc, r) \<and>
       commit_values h fb cfg vss = Some (t, r') \<and> i < length vss \<longrightarrow>
       open_compact h fb tc i vss = open_full t i)"
proof (cases "layer_arities cfg")
  case Nil
  then show ?thesis
    by (simp add: commit_compact_def commit_values_def push_leaves_parallel_def new_tree_def n)
next
  case (Cons a ars)
  note c = commit_compact_levels [OF n Cons, of h fb]
  show ?thesis
  proof (intro conjI allI impI)
    show "map_option snd (commit_compact h fb vss (new_tree cfg)) = map_option snd (commit_values h fb cfg vss)"
      unfolding c by (simp add: option.map_comp comp_def split: option.split)
  next
    fix tc r t r' i
    let ?label = "tree_label cfg"
    define k where "k = compact_skip (a # ars) (length vss)"
    define leaves where "leaves = leaf_hashes h fb a ?label vss 0 (length vss)"
    assume "commit_compact h fb vss (new_tree cfg) = Some (tc, r) \<and>
       commit_values h fb cfg vss = Some (t, r') \<and> i < length vss"
    then obtain lv where lv: "build_levels h ?label k (drop k (a # ars)) (top_level h ?label 0 k leaves) = Some lv"
      and tc: "tc = \<lparr>mt_cfg = cfg, mt_skip = k, mt_levels = lv\<rparr>"
      and t: "t = \<lparr>mt_cfg = cfg, mt_skip = 0, mt_levels = butlast (bin_levels h ?label 0 k leaves) @ lv\<rparr>"
      and i: "i < length vss"
      unfolding c k_def leaves_def by (auto split: option.splits)
    have ars: "a # ars = replicate k 2 @ drop k (a # ars)" and k: "2 ^ k dvd length vss"
      unfolding k_def by (rule compact_skip_prefix [OF n])+
    let ?c = "i div 2 ^ k"
    have c: "?c < length vss div 2 ^ k"
      using k i by (metis dvd_div_mult_self less_mult_imp_div_less)
    have ci: "?c * 2 ^ k + i mod 2 ^ k = i" by (rule div_mult_mod_eq)
    have base: "?c * 2 ^ k < length vss" using ci i by linarith
    have leavesl: "length leaves = length vss" by (simp add: leaves_def)
    define cl where "cl = chunk_levels h ?label (?c * 2 ^ k) 0 k (chunk k ?c leaves)"
    have re: "rebuild_chunk_levels h fb i (2 ^ k) k a ?label vss (length vss) = Some cl"
      using base fold_chunk_chunk(2) [OF k c, of h fb a ?label]
      by (simp add: rebuild_chunk_levels_def cl_def leaves_def)
    have bot: "bottom_path cl (?c * 2 ^ k) 0 k i =
        map (\<lambda>j. siblings 2 (bin_levels h ?label 0 k leaves ! j) (i div 2 ^ j)) [0..<k]"
      unfolding bottom_path_map cl_def using bottom_siblings_eq [of k leaves i] k i by (simp add: leavesl)
    have "cl ! 0 = chunk k ?c leaves"
      using chunk_levels_nth [of k leaves ?c 0 h ?label 0] k c by (cases k) (simp_all add: leavesl cl_def)
    then have leaf: "cl ! 0 ! (i - ?c * 2 ^ k) = leaves ! i"
      using chunk_nth [of k leaves ?c "i mod 2 ^ k"] k c ci by (simp add: leavesl minus_div_mult_eq_mod)
    let ?full = "butlast (bin_levels h ?label 0 k leaves) @ lv"
    have "build_levels h ?label 0 (a # ars) leaves = Some ?full"
      by (subst ars, subst build_levels_binary) (use k n lv in \<open>simp_all add: leavesl\<close>)
    from build_levels_hd [OF this] i obtain l ls where full: "?full = l # ls" "l ! i = leaves ! i" "i < length l"
      using build_levels_ne [OF lv] by (cases ?full) (auto simp: leavesl)
    have path: "open_path (a # ars) ?full i = map_option ((@) (bottom_path cl (?c * 2 ^ k) 0 k i))
        (open_path (drop k (a # ars)) lv (i div 2 ^ k))"
      unfolding bot by (subst ars) (rule open_path_binary [OF build_levels_ne [OF lv]])
    show "open_compact h fb tc i vss = open_full t i"
      using full(2,3) unfolding open_compact_def open_full_def tc t
      by (simp add: Cons re leaf path [unfolded full(1)] full(1) Let_def option.map_comp comp_def split: option.split)
  qed
qed

lemma compact_tree_refines_witness:
  "map_option snd (commit_compact toy_hasher (\<lambda>w :: u64. le64 w) [[1], [2]] (new_tree toy_cfg)) =
   map_option snd (commit_values toy_hasher (\<lambda>w. le64 w) toy_cfg [[1], [2]])"
  by (rule compact_tree_refines [where m = 1, THEN conjunct1]) simp

end
