(* ===== verification/Fri_Algebra.thy ===== *)
theory Fri_Algebra
  imports Merkle_Props "HOL-Library.Monad_Syntax"
begin

text \<open>
  The algebra of \<open>deep_ali/src/fri.rs\<close>: powers, the in-place radix-2 transform, interpolation on
  cosets, folding, and evaluation out of the domain.  The base field is a type \<open>'f\<close>, the
  extension field \<open>E : TowerField\<close> a type \<open>'e\<close>, both of class \<open>field\<close>; what the code uses of
  \<open>arkworks\<close> (canonical integers, \<open>Domain::new\<close>, the inverse transform), of the trait
  \<open>TowerField\<close> and of \<open>rand\<close> is the record \<open>tower\<close>.  \<open>None\<close> is a panic: an \<open>unwrap\<close> or \<open>expect\<close>
  of nothing, an assertion (debug assertions included), an index out of range, division by zero.
\<close>

record ('f, 'e) tower =
  from_fp :: "'f \<Rightarrow> 'e"
  ext_degree :: nat
  to_fp_components :: "'e \<Rightarrow> 'f list"
  from_fp_components :: "'f list \<Rightarrow> 'e option"
  into_bigint :: "'f \<Rightarrow> u64"
  from_u64 :: "u64 \<Rightarrow> 'f"
  group_gen :: "nat \<Rightarrow> 'f option"        \<comment> \<open>\<open>Domain::new(n)\<close> and its generator\<close>
  ifft :: "'f list \<Rightarrow> 'f list"           \<comment> \<open>on the domain of the list's size\<close>
  rng_u64 :: "bytes \<Rightarrow> u64"              \<comment> \<open>first \<open>u64\<close> of \<open>StdRng::from_seed\<close>\<close>

definition nth_opt :: "'a list \<Rightarrow> nat \<Rightarrow> 'a option" where
  "nth_opt xs i = (if i < length xs then Some (xs ! i) else None)"

definition guard_opt :: "bool \<Rightarrow> unit option" where
  "guard_opt b = (if b then Some () else None)"

definition f_of_nat :: "('f, 'e) tower \<Rightarrow> nat \<Rightarrow> 'f" where
  "f_of_nat T n = from_u64 T (word_of_nat n)"

definition inv_opt :: "'a :: field \<Rightarrow> 'a option" where
  "inv_opt x = (if x = 0 then None else Some (inverse x))"

definition ext_div :: "'e :: field \<Rightarrow> 'e \<Rightarrow> 'e option" where
  "ext_div a b = map_option (\<lambda>c. a * c) (inv_opt b)"

section \<open>Powers\<close>

function ext_pow_loop :: "'e :: field \<Rightarrow> 'e \<Rightarrow> nat \<Rightarrow> 'e" where
  "ext_pow_loop result base exp =
     (if exp > 1 then ext_pow_loop (if odd exp then result * base else result) (base * base) (exp div 2)
      else result * base)"
  by pat_completeness auto
termination by (relation "measure (\<lambda>(r, b, e). e)") auto

declare ext_pow_loop.simps [simp del]

definition ext_pow :: "'e :: field \<Rightarrow> nat \<Rightarrow> 'e" where
  "ext_pow base exp = (if exp = 0 then 1 else ext_pow_loop 1 base exp)"

fun pows_from :: "'e :: field \<Rightarrow> 'e \<Rightarrow> nat \<Rightarrow> 'e list" where
  "pows_from acc a 0 = []"
| "pows_from acc a (Suc m) = acc # pows_from (acc * a) a m"

definition build_ext_pows :: "'e :: field \<Rightarrow> nat \<Rightarrow> 'e list" where
  "build_ext_pows a m = pows_from 1 a m"

text \<open>The accumulation loops \<open>sum = sum + xs[k] * ys[k]\<close>.\<close>

fun dot_from :: "'e :: field \<Rightarrow> 'e list \<Rightarrow> 'e list \<Rightarrow> 'e" where
  "dot_from acc (x # xs) (y # ys) = dot_from (acc + x * y) xs ys"
| "dot_from acc xs ys = acc"

definition dot :: "'e :: field list \<Rightarrow> 'e list \<Rightarrow> 'e" where
  "dot xs ys = dot_from 0 xs ys"

definition eval_final_poly_ext :: "'e :: field list \<Rightarrow> 'e \<Rightarrow> 'e" where
  "eval_final_poly_ext coeffs x = fold (\<lambda>c result. result * x + c) (rev coeffs) 0"

section \<open>The radix-2 transform\<close>

fun bit_reverse :: "nat \<Rightarrow> nat \<Rightarrow> nat" where
  "bit_reverse 0 x = 0"
| "bit_reverse (Suc bits) x = (x mod 2) * 2 ^ bits + bit_reverse bits (x div 2)"

definition swap :: "nat \<Rightarrow> nat \<Rightarrow> 'a list \<Rightarrow> 'a list" where
  "swap i j vals = vals[i := vals ! j, j := vals ! i]"

definition bit_reversal :: "nat \<Rightarrow> 'a list \<Rightarrow> 'a list" where
  "bit_reversal log_n vals =
     fold (\<lambda>i v. let j = bit_reverse log_n i in if i < j then swap i j v else v) [0..<length vals] vals"

fun butterflies :: "('f :: field, 'e :: field) tower \<Rightarrow> 'f \<Rightarrow> nat \<Rightarrow> nat \<Rightarrow> nat \<Rightarrow> 'f \<Rightarrow> 'e list \<Rightarrow> 'e list" where
  "butterflies T w_step half lo 0 w vals = vals"
| "butterflies T w_step half lo (Suc k) w vals =
     (let u = vals ! lo; t = vals ! (lo + half) * from_fp T w
      in butterflies T w_step half (Suc lo) k (w * w_step) (vals[lo := u + t, lo + half := u - t]))"

definition fft_stage :: "('f :: field, 'e :: field) tower \<Rightarrow> 'f \<Rightarrow> nat \<Rightarrow> 'e list \<Rightarrow> 'e list" where
  "fft_stage T root half vals =
     (let n = length vals; block = 2 * half; w_step = root ^ (n div block)
      in fold (\<lambda>q. butterflies T w_step half (q * block) half 1) [0..<n div block] vals)"

lemma length_butterflies [simp]: "length (butterflies T ws half lo k w vals) = length vals"
  by (induction k arbitrary: lo w vals) (simp_all add: Let_def)

lemma length_fft_stage [simp]: "length (fft_stage T root half vals) = length vals"
proof -
  have "length (fold (\<lambda>q. butterflies T ws half (q * b) half 1) qs v) = length v" for ws b qs v
    by (induction qs arbitrary: v) simp_all
  then show ?thesis by (simp add: fft_stage_def Let_def)
qed

function fft_stages :: "('f :: field, 'e :: field) tower \<Rightarrow> 'f \<Rightarrow> nat \<Rightarrow> 'e list \<Rightarrow> 'e list" where
  "fft_stages T root half vals =
     (if 0 < half \<and> half < length vals then fft_stages T root (2 * half) (fft_stage T root half vals)
      else vals)"
  by pat_completeness auto
termination by (relation "measure (\<lambda>(T, root, half, vals). length vals - half)") auto

declare fft_stages.simps [simp del]

definition fft_in_place_ext :: "('f :: field, 'e :: field) tower \<Rightarrow> 'e list \<Rightarrow> 'f \<Rightarrow> 'e list option" where
  "fft_in_place_ext T vals root =
     (if length vals \<le> 1 then Some vals
      else if \<not> is_power_of_two (length vals) then None
      else Some (fft_stages T root 1 (bit_reversal (trailing_zeros (length vals)) vals)))"

section \<open>Interpolation on a coset\<close>

definition scale_by :: "('f :: field, 'e :: field) tower \<Rightarrow> 'f \<Rightarrow> 'e list \<Rightarrow> 'e list" where
  "scale_by T c = map (\<lambda>v. v * from_fp T c)"

definition interpolate_stir_coset ::
    "('f :: field, 'e :: field) tower \<Rightarrow> 'e list \<Rightarrow> 'e \<Rightarrow> 'f \<Rightarrow> nat \<Rightarrow> 'e list option" where
  "interpolate_stir_coset T coset_evals z_ell zeta m = do {
     guard_opt (m \<ge> 2 \<and> is_power_of_two m);
     m_inv \<leftarrow> inv_opt (f_of_nat T m);
     zeta_inv \<leftarrow> inv_opt zeta;
     d \<leftarrow> fft_in_place_ext T coset_evals zeta_inv;
     z_inv \<leftarrow> inv_opt z_ell;
     guard_opt (m \<le> length d);
     Some (map2 (*) (take m (scale_by T m_inv d)) (build_ext_pows z_inv m)) }"

definition interpolate_coset_ext ::
    "('f :: field, 'e :: field) tower \<Rightarrow> 'e list \<Rightarrow> 'f \<Rightarrow> 'f \<Rightarrow> nat \<Rightarrow> 'e list option" where
  "interpolate_coset_ext T fibre_values omega_b zeta m = do {
     guard_opt (m \<ge> 2 \<and> is_power_of_two m);
     m_inv \<leftarrow> inv_opt (f_of_nat T m);
     zeta_inv \<leftarrow> inv_opt zeta;
     d \<leftarrow> fft_in_place_ext T fibre_values zeta_inv;
     let omega_b_inv = (if omega_b = 0 then 1 else inverse omega_b);
     guard_opt (m \<le> length d);
     Some (map2 (\<lambda>v p. v * from_fp T p) (take m (scale_by T m_inv d)) (build_ext_pows omega_b_inv m) @
       drop m (scale_by T m_inv d)) }"

definition fibre :: "'a list \<Rightarrow> nat \<Rightarrow> nat \<Rightarrow> nat \<Rightarrow> 'a list" where
  "fibre evals m n_next b = map (\<lambda>j. evals ! (b + j * n_next)) [0..<m]"

definition extract_all_coset_coefficients ::
    "('f :: field, 'e :: field) tower \<Rightarrow> 'e list \<Rightarrow> 'f \<Rightarrow> nat \<Rightarrow> 'e list list option" where
  "extract_all_coset_coefficients T evals omega m = do {
     guard_opt (m \<noteq> 0 \<and> length evals mod m = 0);
     let n_next = length evals div m;
     let zeta = omega ^ n_next;
     those (map (\<lambda>(b, omega_b). interpolate_coset_ext T (fibre evals m n_next b) omega_b zeta m)
       (enumerate 0 (build_ext_pows omega n_next))) }"

definition interpolation_fold_ext :: "'e :: field list list \<Rightarrow> 'e \<Rightarrow> 'e list option" where
  "interpolation_fold_ext coeff_tuples alpha =
     (case coeff_tuples of [] \<Rightarrow> None
      | t # _ \<Rightarrow> let m = length t; alpha_pows = build_ext_pows alpha m in
          if \<forall>c \<in> set coeff_tuples. m \<le> length c then Some (map (\<lambda>coeffs. dot coeffs alpha_pows) coeff_tuples)
          else None)"

definition compute_s_layer_from_coeffs :: "'e :: field list list \<Rightarrow> 'e \<Rightarrow> nat \<Rightarrow> nat \<Rightarrow> 'e list option" where
  "compute_s_layer_from_coeffs coeff_tuples alpha n m = do {
     guard_opt (m \<noteq> 0);
     folded \<leftarrow> interpolation_fold_ext coeff_tuples alpha;
     guard_opt (n div m \<le> length folded);
     Some (map (\<lambda>i. if i < n div m * m then folded ! (i mod (n div m)) else 0) [0..<n]) }"

section \<open>Coefficients and evaluation out of the domain\<close>

text \<open>Component-wise inverse transform of extension-field evaluations.\<close>

definition comp_coeffs :: "('f, 'e) tower \<Rightarrow> 'e list \<Rightarrow> 'f list list" where
  "comp_coeffs T evals = map (\<lambda>j. ifft T (map (\<lambda>e. to_fp_components T e ! j) evals)) [0..<ext_degree T]"

definition ext_coeffs :: "('f, 'e) tower \<Rightarrow> 'e list \<Rightarrow> 'e list option" where
  "ext_coeffs T evals = do {
     group_gen T (length evals);
     those (map (\<lambda>k. from_fp_components T (map (\<lambda>c. c ! k) (comp_coeffs T evals))) [0..<length evals]) }"

definition ext_evals_to_coeffs :: "('f, 'e) tower \<Rightarrow> 'e list \<Rightarrow> 'e list option" where
  "ext_evals_to_coeffs T evals = (if length evals \<le> 1 then Some evals else ext_coeffs T evals)"

definition compute_q_layer_ext_on_ext ::
    "('f :: field, 'e :: field) tower \<Rightarrow> 'e list \<Rightarrow> 'e \<Rightarrow> 'f \<Rightarrow> ('e list \<times> 'e) option" where
  "compute_q_layer_ext_on_ext T f_l z omega = do {
     coeffs \<leftarrow> ext_coeffs T f_l;
     let fz = eval_final_poly_ext coeffs z;
     q \<leftarrow> those (map2 (\<lambda>fi xi. ext_div (fi - fz) (xi - z)) f_l (build_ext_pows (from_fp T omega) (length f_l)));
     Some (q, fz) }"

definition evaluate_ood_coset ::
    "('f :: field, 'e :: field) tower \<Rightarrow> 'e list \<Rightarrow> 'e \<Rightarrow> 'f \<Rightarrow> nat \<Rightarrow> ('e list \<times> 'e list) option" where
  "evaluate_ood_coset T f_l z_ell omega m = do {
     guard_opt (m \<noteq> 0);
     let zeta_base = omega ^ (length f_l div m);
     coeffs \<leftarrow> ext_coeffs T f_l;
     let coset_evals = map (\<lambda>zeta_pow. eval_final_poly_ext coeffs (zeta_pow * z_ell))
           (build_ext_pows (from_fp T zeta_base) m);
     interp_coeffs \<leftarrow> interpolate_stir_coset T coset_evals z_ell zeta_base m;
     Some (coset_evals, interp_coeffs) }"

definition batched_degree_check_ext :: "('f :: field, 'e :: field) tower \<Rightarrow> 'e list list \<Rightarrow> 'e \<Rightarrow> nat \<Rightarrow> bool option" where
  "batched_degree_check_ext T coeff_tuples beta d_fin =
     (case coeff_tuples of [] \<Rightarrow> Some True
      | t # _ \<Rightarrow> do {
          let m = length t;
          guard_opt (\<forall>c \<in> set coeff_tuples. m \<le> length c);
          let gamma_evals = map (\<lambda>c. dot c (build_ext_pows beta m)) coeff_tuples;
          group_gen T (length coeff_tuples);
          let cc = comp_coeffs T gamma_evals;
          Some (\<forall>k \<in> {d_fin..<length coeff_tuples}. \<forall>c \<in> set cc. c ! k = 0) })"

end
