(* ===== verification/Fri_Fft.thy ===== *)
theory Fri_Fft
  imports Fri_Algebra
begin

text \<open>
  The in-place transform computes the discrete Fourier transform, the transform is inverted by
  the one at the inverse root, and interpolation on a coset recovers coefficients.
\<close>

section \<open>The loops in closed form\<close>

lemma ext_pow_loop: "ext_pow_loop r b e = (if e = 0 then r * b else r * b ^ e)"
proof (induction r b e rule: ext_pow_loop.induct)
  case (1 r b e)
  show ?case
  proof (cases "e > 1")
    case True
    have e: "e = 2 * (e div 2) + e mod 2" by simp
    have "b ^ e = (b * b) ^ (e div 2) * b ^ (e mod 2)"
      by (subst e) (simp only: power_add power_mult power2_eq_square)
    moreover have "e div 2 \<noteq> 0" using True by simp
    ultimately show ?thesis
      using 1 True by (subst ext_pow_loop.simps) (auto simp: odd_iff_mod_2_eq_one)
  next
    case False
    then have "e = 0 \<or> e = 1" by auto
    then show ?thesis by (subst ext_pow_loop.simps) auto
  qed
qed

lemma ext_pow_eq [simp]: "ext_pow b e = b ^ e"
  by (simp add: ext_pow_def ext_pow_loop)

lemma pows_from_eq: "pows_from acc a m = map (\<lambda>i. acc * a ^ i) [0..<m]"
proof (induction m arbitrary: acc)
  case (Suc m)
  have "[0..<Suc m] = 0 # map Suc [0..<m]" by (simp add: map_Suc_upt upt_conv_Cons)
  then show ?case by (simp add: Suc comp_def mult.assoc)
qed simp

lemma build_ext_pows_eq [simp]: "build_ext_pows a m = map (\<lambda>i. a ^ i) [0..<m]"
  by (simp add: build_ext_pows_def pows_from_eq)

lemma dot_from_eq: "dot_from acc xs ys = acc + (\<Sum>i < min (length xs) (length ys). xs ! i * ys ! i)"
  by (induction acc xs ys rule: dot_from.induct) (simp_all add: sum.lessThan_Suc_shift add.assoc del: sum.lessThan_Suc)

lemma dot_pows: "length xs = m \<Longrightarrow> dot xs (build_ext_pows a m) = (\<Sum>i < m. xs ! i * a ^ i)"
  by (simp add: dot_def dot_from_eq)

lemma eval_final_poly_eq: "eval_final_poly_ext cs x = (\<Sum>i < length cs. cs ! i * x ^ i)"
proof (induction cs)
  case (Cons c cs)
  have "eval_final_poly_ext (c # cs) x = eval_final_poly_ext cs x * x + c"
    by (simp add: eval_final_poly_ext_def)
  also have "\<dots> = (\<Sum>i < length cs. cs ! i * x ^ Suc i) + c"
    by (simp add: Cons sum_distrib_left ac_simps)
  also have "\<dots> = (\<Sum>i < length (c # cs). (c # cs) ! i * x ^ i)"
    by (simp add: sum.lessThan_Suc_shift add.commute del: sum.lessThan_Suc)
  finally show ?case .
qed (simp add: eval_final_poly_ext_def)

section \<open>Bit reversal\<close>

lemma bit_reverse_less: "bit_reverse b x < 2 ^ b"
proof (induction b arbitrary: x)
  case (Suc b)
  have "x mod 2 = 0 \<or> x mod 2 = 1" by auto
  then show ?case using Suc [of "x div 2"] by auto
qed simp

lemma bit_reverse_high: "h < 2 \<Longrightarrow> y < 2 ^ b \<Longrightarrow> bit_reverse (Suc b) (h * 2 ^ b + y) = 2 * bit_reverse b y + h"
proof (induction b arbitrary: y)
  case (Suc b)
  have d: "(h * 2 ^ Suc b + y) div 2 = h * 2 ^ b + y div 2" "(h * 2 ^ Suc b + y) mod 2 = y mod 2"
  proof -
    have "h * 2 ^ Suc b + y = y + (h * 2 ^ b) * 2" by simp
    then show "(h * 2 ^ Suc b + y) div 2 = h * 2 ^ b + y div 2" "(h * 2 ^ Suc b + y) mod 2 = y mod 2"
      by (simp_all only: div_mult_self1 mod_mult_self1)
  qed
  have "bit_reverse (Suc (Suc b)) (h * 2 ^ Suc b + y) = y mod 2 * 2 ^ Suc b + bit_reverse (Suc b) (h * 2 ^ b + y div 2)"
    by (subst bit_reverse.simps) (simp only: d)
  also have "bit_reverse (Suc b) (h * 2 ^ b + y div 2) = 2 * bit_reverse b (y div 2) + h"
    using Suc by (intro Suc.IH) simp_all
  finally show ?case by (simp add: algebra_simps)
qed simp

lemma bit_reverse_involution: "x < 2 ^ b \<Longrightarrow> bit_reverse b (bit_reverse b x) = x"
proof (induction b arbitrary: x)
  case (Suc b)
  have "bit_reverse (Suc b) (bit_reverse (Suc b) x) = 2 * bit_reverse b (bit_reverse b (x div 2)) + x mod 2"
    by (subst (2) bit_reverse.simps) (intro bit_reverse_high, simp_all add: bit_reverse_less)
  then show ?case using Suc by simp
qed simp

lemma length_bit_reversal_fold [simp]:
  "length (fold (\<lambda>i v. let j = bit_reverse L i in if i < j then swap i j v else v) ks v) = length v"
  by (induction ks arbitrary: v) (simp_all add: Let_def swap_def)

lemma bit_reversal_upto:
  assumes "length vals = 2 ^ L" "K \<le> 2 ^ L" "i < 2 ^ L"
  shows "fold (\<lambda>i v. let j = bit_reverse L i in if i < j then swap i j v else v) [0..<K] vals ! i =
    (if i < K \<or> bit_reverse L i < K then vals ! bit_reverse L i else vals ! i)"
  using assms(2,3)
proof (induction K arbitrary: i)
  case (Suc K)
  let ?v = "fold (\<lambda>i v. let j = bit_reverse L i in if i < j then swap i j v else v) [0..<K] vals"
  let ?j = "bit_reverse L K"
  have l: "length ?v = 2 ^ L" "?j < 2 ^ L" "bit_reverse L ?j = K" "bit_reverse L i < 2 ^ L"
    using assms(1) bit_reverse_involution [of K L] Suc.prems(1) by (simp_all add: bit_reverse_less)
  have inv: "bit_reverse L i = K \<longleftrightarrow> i = ?j"
    using bit_reverse_involution [of i L] bit_reverse_involution [of K L] Suc.prems by auto
  have IH: "?v ! p = (if p < K \<or> bit_reverse L p < K then vals ! bit_reverse L p else vals ! p)" if "p < 2 ^ L" for p
    using Suc.IH [OF _ that] Suc.prems by simp
  show ?case
  proof (cases "K < ?j")
    case True
    then have "fold (\<lambda>i v. let j = bit_reverse L i in if i < j then swap i j v else v) [0..<Suc K] vals = swap K ?j ?v"
      by (simp add: Let_def)
    then show ?thesis
      using True IH [OF Suc.prems(2)] IH [OF l(2)] IH [of K] l inv Suc.prems
      by (auto simp: swap_def nth_list_update less_Suc_eq)
  next
    case False
    then have "fold (\<lambda>i v. let j = bit_reverse L i in if i < j then swap i j v else v) [0..<Suc K] vals = ?v"
      by (simp add: Let_def)
    then show ?thesis
      using False IH [OF Suc.prems(2)] l inv by (auto simp: less_Suc_eq)
  qed
qed simp

lemma bit_reversal_nth:
  "length vals = 2 ^ L \<Longrightarrow> i < 2 ^ L \<Longrightarrow> bit_reversal L vals ! i = vals ! bit_reverse L i"
  unfolding bit_reversal_def by (simp add: bit_reversal_upto)

lemma length_bit_reversal [simp]: "length (bit_reversal L vals) = length vals"
  by (simp add: bit_reversal_def)

section \<open>Butterflies\<close>

lemma butterflies_nth:
  "k \<le> half \<Longrightarrow> lo + half + k \<le> length vals \<Longrightarrow> p < length vals \<Longrightarrow>
    butterflies T ws half lo k w vals ! p =
      (if lo \<le> p \<and> p < lo + k then vals ! p + vals ! (p + half) * from_fp T (w * ws ^ (p - lo))
       else if lo + half \<le> p \<and> p < lo + half + k
       then vals ! (p - half) - vals ! p * from_fp T (w * ws ^ (p - half - lo))
       else vals ! p)"
proof (induction k arbitrary: lo w vals)
  case (Suc k)
  let ?t = "vals ! (lo + half) * from_fp T w"
  let ?v = "vals[lo := vals ! lo + ?t, lo + half := vals ! lo - ?t]"
  have IH: "butterflies T ws half (Suc lo) k (w * ws) ?v ! p =
      (if Suc lo \<le> p \<and> p < Suc lo + k then ?v ! p + ?v ! (p + half) * from_fp T (w * ws * ws ^ (p - Suc lo))
       else if Suc lo + half \<le> p \<and> p < Suc lo + half + k
       then ?v ! (p - half) - ?v ! p * from_fp T (w * ws * ws ^ (p - half - Suc lo))
       else ?v ! p)"
    by (rule Suc.IH) (use Suc.prems in simp_all)
  have half: "0 < half" using Suc.prems(1) by simp
  have pow: "lo < q \<Longrightarrow> w * ws * ws ^ (q - Suc lo) = w * ws ^ (q - lo)" for q
    by (simp add: mult.assoc Suc_diff_Suc flip: power_Suc)
  consider "p = lo" | "p = lo + half" | "lo < p \<and> p < Suc lo + k"
    | "lo + half < p \<and> p < Suc lo + half + k" | "p < lo \<or> (Suc lo + k \<le> p \<and> p < lo + half) \<or> Suc lo + half + k \<le> p"
    by linarith
  then show ?case
  proof cases
    case 1
    then show ?thesis using IH Suc.prems half by (simp add: Let_def)
  next
    case 2
    then show ?thesis using IH Suc.prems half by (simp add: Let_def)
  next
    case 3
    then show ?thesis using IH Suc.prems half pow [of p] by (auto simp: Let_def nth_list_update)
  next
    case 4
    then have "w * ws * ws ^ (p - half - Suc lo) = w * ws ^ (p - half - lo)" by (intro pow) linarith
    note IH' = IH [unfolded this]
    show ?thesis using IH' Suc.prems half 4 by (auto simp: Let_def nth_list_update)
  next
    case 5
    then show ?thesis using IH Suc.prems half by (auto simp: Let_def nth_list_update)
  qed
qed auto

lemma bit_reverse_Suc_double:
  "bit_reverse (Suc b) (2 * q) = bit_reverse b q"
  "bit_reverse (Suc b) (2 * q + 1) = 2 ^ b + bit_reverse b q"
  by simp_all

text \<open>One stage, on all blocks.\<close>

lemma fft_stage_blocks:
  assumes "length vals = Q * (2 * half)" "K \<le> Q" "p < length vals" "0 < half"
  shows "fold (\<lambda>q. butterflies T ws half (q * (2 * half)) half 1) [0..<K] vals ! p =
    (if p < K * (2 * half) then
       (if p mod (2 * half) < half
        then vals ! p + vals ! (p + half) * from_fp T (ws ^ (p mod (2 * half)))
        else vals ! (p - half) - vals ! p * from_fp T (ws ^ (p mod (2 * half) - half)))
     else vals ! p)"
  using assms(2,3)
proof (induction K arbitrary: p)
  case (Suc K)
  let ?b = "2 * half"
  let ?v = "fold (\<lambda>q. butterflies T ws half (q * ?b) half 1) [0..<K] vals"
  have len: "length ?v = length vals" for K
  proof -
    have "length (fold (\<lambda>q. butterflies T ws half (q * ?b) half 1) ks v) = length v" for ks v
      by (induction ks arbitrary: v) simp_all
    then show ?thesis .
  qed
  have fit: "Suc K * ?b \<le> length vals" unfolding assms(1) by (rule mult_le_mono1) (rule Suc.prems(1))
  then have fit': "K * ?b + half + half \<le> length ?v" unfolding len by simp
  have p: "p < length ?v" unfolding len by (rule Suc.prems(2))
  have step: "fold (\<lambda>q. butterflies T ws half (q * ?b) half 1) [0..<Suc K] vals ! p =
      butterflies T ws half (K * ?b) half 1 ?v ! p" by simp
  note bf = butterflies_nth [OF order_refl fit' p, of T ws 1]
  have IH: "?v ! r = vals ! r" if "K * ?b \<le> r" "r < length vals" for r
    using Suc.IH [of r] that Suc.prems(1) by simp
  consider (below) "p < K * ?b" | (lo) "K * ?b \<le> p" "p < K * ?b + half"
    | (hi) "K * ?b + half \<le> p" "p < Suc K * ?b" | (above) "Suc K * ?b \<le> p" by fastforce
  then show ?case
  proof cases
    case below
    then show ?thesis unfolding step bf using Suc.IH [of p] Suc.prems by auto
  next
    case lo
    then have m: "p mod ?b = p - K * ?b"
      using mod_mult_self3 [of K ?b "p - K * ?b"] by (simp add: mult.commute)
    show ?thesis unfolding step bf using lo m IH [of p] IH [of "p + half"] fit Suc.prems(2) by auto
  next
    case hi
    then have m: "p mod ?b = p - K * ?b"
      using mod_mult_self3 [of K ?b "p - K * ?b"] by (simp add: mult.commute)
    have "p - half - K * ?b = p - K * ?b - half" by simp
    then show ?thesis unfolding step bf using hi m IH [of p] IH [of "p - half"] Suc.prems(2) by auto
  next
    case above
    then show ?thesis unfolding step bf using IH [of p] Suc.prems(2) by auto
  qed
qed simp

section \<open>The transform\<close>

text \<open>\<open>from_fp\<close> is a ring homomorphism (\<open>TowerField\<close>: embed a ground-field scalar).\<close>

definition fp_hom :: "('f :: field, 'e :: field) tower \<Rightarrow> bool" where
  "fp_hom T \<longleftrightarrow> from_fp T 0 = 0 \<and> from_fp T 1 = 1 \<and>
     (\<forall>a b. from_fp T (a + b) = from_fp T a + from_fp T b) \<and>
     (\<forall>a b. from_fp T (a * b) = from_fp T a * from_fp T b)"

lemma fp_hom_simps:
  assumes "fp_hom T"
  shows "from_fp T 0 = 0" "from_fp T 1 = 1" "from_fp T (a + b) = from_fp T a + from_fp T b"
    "from_fp T (a * b) = from_fp T a * from_fp T b" "from_fp T (a ^ k) = from_fp T a ^ k"
    "from_fp T (- a) = - from_fp T a" "from_fp T (of_nat k) = of_nat k"
    "from_fp T (inverse a) = inverse (from_fp T a)" "from_fp T a = 0 \<longleftrightarrow> a = 0"
proof -
  have hom: "from_fp T (a * b) = from_fp T a * from_fp T b" "from_fp T (a + b) = from_fp T a + from_fp T b"
    "from_fp T 0 = 0" "from_fp T 1 = 1" for a b
    using assms unfolding fp_hom_def by simp_all
  show "from_fp T 0 = 0" "from_fp T 1 = 1" "from_fp T (a + b) = from_fp T a + from_fp T b"
    "from_fp T (a * b) = from_fp T a * from_fp T b" by (fact hom)+
  show "from_fp T (a ^ k) = from_fp T a ^ k" by (induction k) (simp_all add: hom)
  have "from_fp T (- a) + from_fp T a = 0" by (simp add: hom flip: hom(2))
  then show "from_fp T (- a) = - from_fp T a" by (simp add: eq_neg_iff_add_eq_0)
  show "from_fp T (of_nat k) = of_nat k" by (induction k) (simp_all add: hom)
  have unit: "a \<noteq> 0 \<Longrightarrow> from_fp T a * from_fp T (inverse a) = 1" by (simp add: hom flip: hom(1))
  then show zero: "from_fp T a = 0 \<longleftrightarrow> a = 0" using hom(3) by fastforce
  show "from_fp T (inverse a) = inverse (from_fp T a)"
  proof (cases "a = 0")
    case False
    then show ?thesis using unit by (metis inverse_unique)
  qed (simp add: hom)
qed

definition prim_root :: "'a :: field \<Rightarrow> nat \<Rightarrow> bool" where
  "prim_root w n \<longleftrightarrow> w ^ n = 1 \<and> (\<forall>k. 0 < k \<and> k < n \<longrightarrow> w ^ k \<noteq> 1)"

lemma prim_root_half:
  assumes "prim_root w (2 ^ Suc L)"
  shows "w ^ (2 ^ L) = - 1"
proof -
  have "(w ^ (2 ^ L))\<^sup>2 = 1" using assms by (simp add: prim_root_def mult.commute flip: power_mult)
  moreover have "w ^ (2 ^ L) \<noteq> 1" using assms by (simp add: prim_root_def)
  ultimately show ?thesis by (simp add: power2_eq_1_iff)
qed

lemma from_fp_inject: "fp_hom T \<Longrightarrow> from_fp T a = from_fp T b \<longleftrightarrow> a = b"
  using fp_hom_simps(3,6,9) [of T] by (metis eq_neg_iff_add_eq_0 add.inverse_inverse)

lemma prim_root_from_fp:
  assumes "fp_hom T" "prim_root w n"
  shows "prim_root (from_fp T w) n"
proof -
  have "from_fp T w ^ k = 1 \<longleftrightarrow> w ^ k = 1" for k
    using from_fp_inject [OF assms(1), of "w ^ k" 1] by (simp add: fp_hom_simps [OF assms(1)])
  then show ?thesis using assms(2) by (simp add: prim_root_def)
qed

definition dft :: "'e :: field \<Rightarrow> 'e list \<Rightarrow> 'e list" where
  "dft w xs = map (\<lambda>k. \<Sum>j < length xs. xs ! j * w ^ (j * k)) [0..<length xs]"

lemma sum_even_odd: "(\<Sum>j < 2 * m. f j) = (\<Sum>i < m. f (2 * i)) + (\<Sum>i < m. f (2 * i + 1))"
  for f :: "nat \<Rightarrow> 'a :: comm_monoid_add"
  by (induction m) (simp_all add: algebra_simps)

text \<open>Before the stage for blocks of \<open>2 ^ Suc s\<close>, every block of \<open>2 ^ s\<close> is a transform.\<close>

definition fft_inv :: "'e :: field \<Rightarrow> 'e list \<Rightarrow> nat \<Rightarrow> nat \<Rightarrow> 'e list \<Rightarrow> bool" where
  "fft_inv w xs L s v \<longleftrightarrow> length v = 2 ^ L \<and> (\<forall>q < 2 ^ (L - s). \<forall>k < 2 ^ s.
     v ! (q * 2 ^ s + k) =
       (\<Sum>j < 2 ^ s. xs ! (bit_reverse (L - s) q + j * 2 ^ (L - s)) * (w ^ 2 ^ (L - s)) ^ (j * k)))"

lemma fft_inv_start: "length xs = 2 ^ L \<Longrightarrow> fft_inv w xs L 0 (bit_reversal L xs)"
  by (simp add: fft_inv_def bit_reversal_nth)

lemma fft_inv_step:
  assumes inv: "fft_inv (from_fp T root) xs L s v" and s: "s < L"
    and hom: "fp_hom T" and root: "prim_root (from_fp T root) (2 ^ L)"
  shows "fft_inv (from_fp T root) xs L (Suc s) (fft_stage T root (2 ^ s) v)"
proof -
  define e where "e = L - Suc s"
  define W where "W = from_fp T root ^ 2 ^ e"
  have L: "L - s = Suc e" "L = Suc (s + e)" using s by (simp_all add: e_def)
  have lenv: "length v = 2 ^ L" using inv by (simp add: fft_inv_def)
  have blocks: "length v = 2 ^ e * (2 * 2 ^ s)" "length v div (2 * 2 ^ s) = 2 ^ e"
    by (simp_all add: lenv L power_add)
  have Wh: "W ^ 2 ^ s = - 1"
  proof -
    have "W ^ 2 ^ s = from_fp T root ^ 2 ^ (s + e)" by (simp add: W_def power_add mult.commute flip: power_mult)
    then show ?thesis using prim_root_half [of "from_fp T root" "s + e"] root L(2) by simp
  qed
  have W2: "from_fp T root ^ 2 ^ Suc e = W * W"
    by (simp add: W_def power_add mult.commute flip: power_mult power2_eq_square)
  have ws: "from_fp T ((root ^ (2 ^ e)) ^ r) = W ^ r" for r
    by (simp add: W_def fp_hom_simps [OF hom])
  have old: "v ! (q * 2 ^ s + k) = (\<Sum>j < 2 ^ s. xs ! (bit_reverse (Suc e) q + j * 2 ^ Suc e) * (W * W) ^ (j * k))"
    if "q < 2 ^ Suc e" "k < 2 ^ s" for q k
    using inv that unfolding fft_inv_def L(1) W2 by blast
  define ev where "ev q k = (\<Sum>i < 2 ^ s. xs ! (bit_reverse e q + i * 2 ^ Suc e) * (W * W) ^ (i * k))" for q k
  define od where "od q k = (\<Sum>i < 2 ^ s. xs ! (2 ^ e + bit_reverse e q + i * 2 ^ Suc e) * (W * W) ^ (i * k))" for q k
  have pair: "v ! (q * (2 * 2 ^ s) + k) = ev q k" "v ! (q * (2 * 2 ^ s) + k + 2 ^ s) = od q k"
    if "q < 2 ^ e" "k < 2 ^ s" for q k
  proof -
    have "v ! ((2 * q) * 2 ^ s + k) = ev q k"
      unfolding ev_def using old [of "2 * q" k] that bit_reverse_Suc_double(1) [of e q] by simp
    then show "v ! (q * (2 * 2 ^ s) + k) = ev q k" by (simp add: ac_simps)
    have "v ! ((2 * q + 1) * 2 ^ s + k) = od q k"
      unfolding od_def using old [of "2 * q + 1" k] that bit_reverse_Suc_double(2) [of e q] by simp
    then show "v ! (q * (2 * 2 ^ s) + k + 2 ^ s) = od q k" by (simp add: algebra_simps)
  qed
  have target: "(\<Sum>j < 2 * 2 ^ s. xs ! (bit_reverse e q + j * 2 ^ e) * W ^ (j * k)) =
      (\<Sum>i < 2 ^ s. xs ! (bit_reverse e q + i * 2 ^ Suc e) * (W * W) ^ (i * k)) +
      (\<Sum>i < 2 ^ s. xs ! (2 ^ e + bit_reverse e q + i * 2 ^ Suc e) * (W * W) ^ (i * k)) * W ^ k" for q k
  proof -
    have "W ^ (2 * i * k) = (W * W) ^ (i * k)" for i
      by (simp add: power_mult mult.assoc flip: power2_eq_square)
    then show ?thesis
      unfolding sum_even_odd sum_distrib_right by (simp add: algebra_simps power_add)
  qed
  have stage: "fft_stage T root (2 ^ s) v ! p =
      (if p mod (2 * 2 ^ s) < 2 ^ s
       then v ! p + v ! (p + 2 ^ s) * W ^ (p mod (2 * 2 ^ s))
       else v ! (p - 2 ^ s) - v ! p * W ^ (p mod (2 * 2 ^ s) - 2 ^ s))" if "p < length v" for p
    using fft_stage_blocks [OF blocks(1) order_refl that, of T "root ^ 2 ^ e"] that blocks
    unfolding ws by (simp add: fft_stage_def Let_def)
  have WW: "(W * W) ^ (i * (k + 2 ^ s)) = (W * W) ^ (i * k)" for i k
  proof -
    have "(W * W) ^ (i * (k + 2 ^ s)) = (W * W) ^ (i * k) * ((W ^ 2 ^ s) * (W ^ 2 ^ s)) ^ i"
      by (simp add: power_add power_mult_distrib algebra_simps flip: power_mult)
    then show ?thesis by (simp add: Wh)
  qed
  have new: "fft_stage T root (2 ^ s) v ! (q * 2 ^ Suc s + k) =
      (\<Sum>j < 2 ^ Suc s. xs ! (bit_reverse e q + j * 2 ^ e) * W ^ (j * k))"
    if q: "q < 2 ^ e" and k: "k < 2 ^ Suc s" for q k
  proof -
    let ?p = "q * (2 * 2 ^ s) + k"
    have "Suc q * (2 * 2 ^ s) \<le> length v" unfolding blocks(1) by (rule mult_le_mono1) (use q in simp)
    then have p: "?p < length v" using k by simp
    have m: "?p mod (2 * 2 ^ s) = k" using k by simp
    show ?thesis
    proof (cases "k < 2 ^ s")
      case True
      then have "fft_stage T root (2 ^ s) v ! ?p = ev q k + od q k * W ^ k"
        using stage [OF p] pair [OF q True] m by simp
      then show ?thesis using target [of q k] by (simp add: ev_def od_def)
    next
      case False
      then obtain k' where k': "k = k' + 2 ^ s" "k' < 2 ^ s"
        using that [of "k - 2 ^ s"] k by simp
      have "fft_stage T root (2 ^ s) v ! ?p = ev q k' - od q k' * W ^ k'"
        using stage [OF p] pair [OF q k'(2)] m False k'(1) by (simp add: add.assoc)
      also have "\<dots> = (\<Sum>i < 2 ^ s. xs ! (bit_reverse e q + i * 2 ^ Suc e) * (W * W) ^ (i * k)) +
          (\<Sum>i < 2 ^ s. xs ! (2 ^ e + bit_reverse e q + i * 2 ^ Suc e) * (W * W) ^ (i * k)) * W ^ k"
        unfolding ev_def od_def k'(1) WW by (simp add: power_add Wh)
      finally show ?thesis using target [of q k] by simp
    qed
  qed
  have "fft_stage T root (2 ^ s) v ! (q * 2 ^ Suc s + k) = (\<Sum>j < 2 ^ Suc s. xs ! (bit_reverse (L - Suc s) q +
      j * 2 ^ (L - Suc s)) * (from_fp T root ^ 2 ^ (L - Suc s)) ^ (j * k))"
    if "q < 2 ^ (L - Suc s)" "k < 2 ^ Suc s" for q k
    using new [of q k] that unfolding W_def e_def by blast
  then show ?thesis unfolding fft_inv_def using lenv by simp
qed

lemma fft_stages_inv:
  assumes "fft_inv (from_fp T root) xs L s v" "s \<le> L" "fp_hom T" "prim_root (from_fp T root) (2 ^ L)"
  shows "fft_inv (from_fp T root) xs L L (fft_stages T root (2 ^ s) v)"
  using assms(1,2)
proof (induction "L - s" arbitrary: s v)
  case 0
  then have "length v = 2 ^ L" "s = L" by (simp_all add: fft_inv_def)
  then show ?case using 0 by (subst fft_stages.simps) simp
next
  case (Suc d)
  then have s: "s < L" "length v = 2 ^ L" by (simp_all add: fft_inv_def)
  have "fft_inv (from_fp T root) xs L L (fft_stages T root (2 ^ Suc s) (fft_stage T root (2 ^ s) v))"
    using Suc s fft_inv_step [OF Suc.prems(1) s(1) assms(3,4)] by (intro Suc.hyps(1)) simp_all
  then show ?case using s by (subst fft_stages.simps) simp
qed

lemma fft_in_place_dft:
  assumes "length xs = 2 ^ L" "fp_hom T" "prim_root root (2 ^ L)"
  shows "fft_in_place_ext T xs root = Some (dft (from_fp T root) xs)"
proof (cases "L = 0")
  case True
  then obtain x where "xs = [x]" using assms(1) by (auto simp: length_Suc_conv)
  then show ?thesis by (simp add: fft_in_place_ext_def dft_def)
next
  case False
  have pr: "prim_root (from_fp T root) (2 ^ L)"
    using assms(2,3) by (rule prim_root_from_fp)
  let ?r = "fft_stages T root 1 (bit_reversal L xs)"
  have "fft_inv (from_fp T root) xs L L ?r"
    using fft_stages_inv [OF fft_inv_start [OF assms(1)] _ assms(2) pr] by simp
  then have "length ?r = 2 ^ L" "\<forall>k < 2 ^ L. ?r ! k = (\<Sum>j < 2 ^ L. xs ! j * from_fp T root ^ (j * k))"
    by (auto simp: fft_inv_def dest: spec [of _ 0])
  then have "?r = dft (from_fp T root) xs" by (intro nth_equalityI) (simp_all add: dft_def assms(1))
  moreover have "1 < length xs" using False assms(1) one_less_power [of "2 :: nat" L] by simp
  ultimately show ?thesis by (simp add: fft_in_place_ext_def assms(1))
qed

end
