(* ===== verification/Fri_Interp.thy ===== *)
theory Fri_Interp
  imports Fri_Fft
begin

text \<open>
  Inversion of the transform, interpolation on cosets, and what folding does to the polynomial
  behind a list of evaluations.
\<close>

section \<open>Inversion\<close>

lemma prim_root_nonzero: "prim_root w n \<Longrightarrow> 0 < n \<Longrightarrow> w \<noteq> 0"
  by (auto simp: prim_root_def power_0_left)

lemma prim_root_inverse: "prim_root w n \<Longrightarrow> prim_root (inverse w) n"
  by (auto simp: prim_root_def power_inverse)

lemma prim_root_power_inj:
  assumes "prim_root w n" "k < n" "l < n" "w ^ k = w ^ l"
  shows "k = l"
proof (rule ccontr)
  have *: False if "i < j" "j < n" "w ^ i = w ^ j" for i j
  proof -
    have "w ^ j = w ^ i * w ^ (j - i)" using that(1) by (simp flip: power_add)
    then have "w ^ i = w ^ i * w ^ (j - i)" using that(3) by simp
    moreover have "w ^ i \<noteq> 0" using prim_root_nonzero [OF assms(1)] that(2) by simp
    ultimately have "w ^ (j - i) = 1" by (auto simp: mult_cancel_left1)
    then show False using assms(1) that unfolding prim_root_def by fastforce
  qed
  assume "k \<noteq> l"
  then show False using *[of k l] *[of l k] assms(2-4) by force
qed

lemma root_sum:
  assumes w: "prim_root w n" and k: "k < n" "l < n"
  shows "(\<Sum>i < n. w ^ (i * k) * inverse w ^ (i * l)) = (if k = l then of_nat n else 0)"
proof -
  let ?r = "w ^ k * inverse w ^ l"
  have nz: "w \<noteq> 0" using prim_root_nonzero [OF w] k by simp
  have terms: "w ^ (i * k) * inverse w ^ (i * l) = ?r ^ i" for i
    by (simp add: power_mult_distrib mult.commute flip: power_mult)
  show ?thesis
  proof (cases "k = l")
    case True
    then have "?r = 1" using nz by (simp add: power_inverse)
    then show ?thesis unfolding terms using True by simp
  next
    case False
    then have "?r \<noteq> 1" using prim_root_power_inj [OF w k] nz by (auto simp: power_inverse field_simps)
    moreover have "?r ^ n = (w ^ n) ^ k * inverse (w ^ n) ^ l"
      by (simp add: power_mult_distrib power_inverse mult.commute flip: power_mult)
    then have "?r ^ n = 1" using w by (simp add: prim_root_def)
    then have "(?r - 1) * (\<Sum>i < n. ?r ^ i) = 0" using power_diff_1_eq [of ?r n] by simp
    ultimately show ?thesis unfolding terms using False by simp
  qed
qed

lemma dft_inversion:
  assumes w: "prim_root w n" and l: "l < n" and y: "\<And>i. i < n \<Longrightarrow> y i = (\<Sum>k < n. c k * w ^ (i * k))"
  shows "(\<Sum>i < n. y i * inverse w ^ (i * l)) = of_nat n * c l"
proof -
  have "(\<Sum>i < n. y i * inverse w ^ (i * l)) = (\<Sum>i < n. \<Sum>k < n. c k * (w ^ (i * k) * inverse w ^ (i * l)))"
    by (rule sum.cong) (simp_all add: y sum_distrib_right mult.assoc)
  also have "\<dots> = (\<Sum>k < n. \<Sum>i < n. c k * (w ^ (i * k) * inverse w ^ (i * l)))" by (rule sum.swap)
  also have "\<dots> = (\<Sum>k < n. if k = l then of_nat n * c l else 0)"
    by (rule sum.cong) (simp_all add: root_sum [OF w _ l] flip: sum_distrib_left)
  also have "\<dots> = of_nat n * c l" using l by simp
  finally show ?thesis .
qed

section \<open>Interpolation on cosets\<close>

lemma dft_coset:
  assumes T: "fp_hom T" and z: "prim_root zeta (2 ^ L)" and len: "length vals = 2 ^ L"
    and v: "\<And>j. j < 2 ^ L \<Longrightarrow> vals ! j = (\<Sum>k < 2 ^ L. c k * (x * from_fp T zeta ^ j) ^ k)"
  shows "fft_in_place_ext T vals (inverse zeta) = Some (map (\<lambda>k. of_nat (2 ^ L) * (c k * x ^ k)) [0..<2 ^ L])"
proof -
  let ?z = "from_fp T zeta"
  have "vals ! j = (\<Sum>k < 2 ^ L. c k * x ^ k * ?z ^ (j * k))" if "j < 2 ^ L" for j
    unfolding v [OF that] by (simp add: power_mult_distrib mult.assoc flip: power_mult)
  from dft_inversion [OF prim_root_from_fp [OF T z] _ this]
  have "dft (from_fp T (inverse zeta)) vals = map (\<lambda>k. of_nat (2 ^ L) * (c k * x ^ k)) [0..<2 ^ L]"
    by (simp add: dft_def len fp_hom_simps [OF T])
  then show ?thesis using fft_in_place_dft [OF len T prim_root_inverse [OF z]] by simp
qed

text \<open>The sizes a domain can have, and the field elements made from them.\<close>

definition sizes_ok :: "('f :: field, 'e :: field) tower \<Rightarrow> nat \<Rightarrow> bool" where
  "sizes_ok T K \<longleftrightarrow> (\<forall>k \<le> K. f_of_nat T (2 ^ k) = of_nat (2 ^ k) \<and> (of_nat (2 ^ k) :: 'f) \<noteq> 0)"

lemma interpolate_coset:
  assumes T: "fp_hom T" "sizes_ok T K" and L: "0 < L" "L \<le> K" and z: "prim_root zeta (2 ^ L)"
    and len: "length vals = 2 ^ L"
    and v: "\<And>j. j < 2 ^ L \<Longrightarrow> vals ! j = (\<Sum>k < 2 ^ L. c k * (x * from_fp T zeta ^ j) ^ k)"
  shows "xb \<noteq> 0 \<Longrightarrow> x = from_fp T xb \<Longrightarrow> interpolate_coset_ext T vals xb zeta (2 ^ L) = Some (map c [0..<2 ^ L])"
    and "x \<noteq> 0 \<Longrightarrow> interpolate_stir_coset T vals x zeta (2 ^ L) = Some (map c [0..<2 ^ L])"
proof -
  have m: "f_of_nat T (2 ^ L) = of_nat (2 ^ L)" "(of_nat (2 ^ L) :: 'a) \<noteq> 0"
    using T(2) L(2) unfolding sizes_ok_def by blast+
  have e: "(of_nat (2 ^ L) :: 'b) \<noteq> 0"
    using m(2) fp_hom_simps(7,9) [OF T(1)] by metis
  have m2: "2 \<le> (2 :: nat) ^ L" using power_increasing [of 1 L "2 :: nat"] L(1) by simp
  have zn: "zeta \<noteq> 0" using prim_root_nonzero [OF z] by simp
  note fft = dft_coset [OF T(1) z len v]
  have inv: "from_fp T (inverse (of_nat (2 ^ L))) = inverse (of_nat (2 ^ L))"
    by (simp only: fp_hom_simps [OF T(1)])
  have cancel: "of_nat (2 ^ L) * (c k * x ^ k) * inverse (of_nat (2 ^ L)) * inverse x ^ k = c k" if "x \<noteq> 0" for k
    using that e by (simp add: power_inverse field_simps del: of_nat_power)
  show "xb \<noteq> 0 \<Longrightarrow> x = from_fp T xb \<Longrightarrow> interpolate_coset_ext T vals xb zeta (2 ^ L) = Some (map c [0..<2 ^ L])"
  proof -
    assume x: "xb \<noteq> 0" "x = from_fp T xb"
    then have x0: "x \<noteq> 0" by (simp add: fp_hom_simps [OF T(1)])
    have "from_fp T (inverse xb ^ k) = inverse x ^ k" for k
      by (simp only: x(2) fp_hom_simps [OF T(1)])
    then show ?thesis
      using m2 zn x(1) m by (simp add: interpolate_coset_ext_def guard_opt_def inv_opt_def fft scale_by_def inv
          list_eq_iff_nth_eq cancel [OF x0] del: of_nat_power)
  qed
  show "x \<noteq> 0 \<Longrightarrow> interpolate_stir_coset T vals x zeta (2 ^ L) = Some (map c [0..<2 ^ L])"
    using m2 zn m by (simp add: interpolate_stir_coset_def guard_opt_def inv_opt_def fft scale_by_def inv
        list_eq_iff_nth_eq cancel del: of_nat_power)
qed

section \<open>Evaluations of a polynomial and their folds\<close>

definition polyval :: "(nat \<Rightarrow> 'e :: field) \<Rightarrow> nat \<Rightarrow> 'e \<Rightarrow> 'e" where
  "polyval a n x = (\<Sum>i < n. a i * x ^ i)"

text \<open>\<open>evals\<close> lists the values of \<open>a\<close>, of degree below \<open>n\<close>, on the powers of \<open>w\<close>.\<close>

definition evaluates :: "'e :: field \<Rightarrow> nat \<Rightarrow> 'e list \<Rightarrow> (nat \<Rightarrow> 'e) \<Rightarrow> bool" where
  "evaluates w n evals a \<longleftrightarrow> length evals = n \<and> (\<forall>i < n. evals ! i = polyval a n (w ^ i))"

definition fold_coeffs :: "nat \<Rightarrow> 'e :: field \<Rightarrow> (nat \<Rightarrow> 'e) \<Rightarrow> nat \<Rightarrow> 'e" where
  "fold_coeffs m alpha a t = (\<Sum>k < m. a (k + m * t) * alpha ^ k)"

text \<open>The remainder of \<open>a\<close> modulo \<open>X ^ m - y\<close>.\<close>

definition rem_coeffs :: "nat \<Rightarrow> nat \<Rightarrow> 'e :: field \<Rightarrow> (nat \<Rightarrow> 'e) \<Rightarrow> nat \<Rightarrow> 'e" where
  "rem_coeffs m n' y a k = (\<Sum>t < n'. a (k + m * t) * y ^ t)"

lemma sum_blocks: "(\<Sum>i < m * t. f i) = (\<Sum>s < t. \<Sum>k < m. f (k + m * s))"
  for f :: "nat \<Rightarrow> 'a :: comm_monoid_add"
proof (induction t)
  case (Suc t)
  have "(\<Sum>i < m * Suc t. f i) = (\<Sum>i < m * t + m. f i)" by (simp add: add.commute)
  also have "\<dots> = (\<Sum>i < m * t. f i) + (\<Sum>k < m. f (m * t + k))"
    using sum.atLeastLessThan_concat [of 0 "m * t" "m * t + m" f] sum.shift_bounds_nat_ivl [of f 0 "m * t" m]
    by (simp add: lessThan_atLeast0 add.commute)
  finally show ?case by (simp add: Suc add.commute)
qed simp

lemma polyval_rem:
  assumes "x ^ m = y"
  shows "polyval a (m * n') x = polyval (rem_coeffs m n' y a) m x"
proof -
  have "polyval a (m * n') x = (\<Sum>t < n'. \<Sum>k < m. a (k + m * t) * x ^ (k + m * t))"
    by (simp add: polyval_def sum_blocks)
  also have "\<dots> = (\<Sum>t < n'. \<Sum>k < m. a (k + m * t) * y ^ t * x ^ k)"
  proof -
    have "x ^ (k + m * t) = y ^ t * x ^ k" for k t by (simp add: power_add power_mult assms mult.commute)
    then show ?thesis by (simp add: mult.assoc)
  qed
  also have "\<dots> = (\<Sum>k < m. \<Sum>t < n'. a (k + m * t) * y ^ t * x ^ k)" by (rule sum.swap)
  finally show ?thesis by (simp add: polyval_def rem_coeffs_def sum_distrib_right)
qed

lemma polyval_fold: "polyval (rem_coeffs m n' y a) m alpha = polyval (fold_coeffs m alpha a) n' y"
proof -
  have "polyval (rem_coeffs m n' y a) m alpha = (\<Sum>k < m. \<Sum>t < n'. a (k + m * t) * y ^ t * alpha ^ k)"
    by (simp add: polyval_def rem_coeffs_def sum_distrib_right)
  also have "\<dots> = (\<Sum>t < n'. \<Sum>k < m. a (k + m * t) * y ^ t * alpha ^ k)" by (rule sum.swap)
  also have "\<dots> = (\<Sum>t < n'. fold_coeffs m alpha a t * y ^ t)"
    unfolding fold_coeffs_def sum_distrib_right by (intro sum.cong refl) (simp add: ac_simps)
  finally show ?thesis by (simp add: polyval_def)
qed

lemma evaluates_unique:
  assumes "prim_root w n" "(of_nat n :: 'e) \<noteq> 0" "evaluates w n ys a" "evaluates w n ys b" "k < n"
  shows "a k = (b k :: 'e :: field)"
proof -
  have "of_nat n * c k = (\<Sum>i < n. ys ! i * inverse w ^ (i * k))" if "evaluates w n ys c" for c
    using dft_inversion [OF assms(1,5), of "\<lambda>i. ys ! i" c] that
    by (simp add: evaluates_def polyval_def flip: power_mult)
  from this [OF assms(3)] this [OF assms(4)] have "of_nat n * a k = of_nat n * b k" by (rule trans [OF _ sym])
  then show ?thesis using assms(2) by (simp only: mult_left_cancel [OF assms(2)])
qed

lemma root_of_power:
  assumes "prim_root w (m * n')" "0 < m" "0 < n'"
  shows "prim_root (w ^ m) n'" "prim_root (w ^ n') m"
  using assms by (auto simp: prim_root_def simp flip: power_mult)
    (metis mult.commute nat_0_less_mult_iff nat_mult_less_cancel1)+

lemma those_map_Some: "those (map (\<lambda>x. Some (f x)) xs) = Some (map f xs)"
  by (induction xs) simp_all

text \<open>The fibre of the fold at \<open>b\<close> is a coset of the \<open>m\<close>-th roots of unity.\<close>

lemma extract_fold:
  assumes T: "fp_hom T" "sizes_ok T K" and L: "0 < L" "L \<le> K" and n': "0 < n'"
    and w: "prim_root omega (2 ^ L * n')" and ev: "evaluates (from_fp T omega) (2 ^ L * n') evals a"
  shows "extract_all_coset_coefficients T evals omega (2 ^ L) =
      Some (map (\<lambda>b. map (rem_coeffs (2 ^ L) n' (from_fp T omega ^ (b * 2 ^ L)) a) [0..<2 ^ L]) [0..<n'])"
proof -
  let ?m = "2 ^ L :: nat" and ?W = "from_fp T omega"
  have len: "length evals = ?m * n'" using ev by (simp add: evaluates_def)
  have zeta: "prim_root (omega ^ n') ?m" using root_of_power(2) [OF w _ n'] by simp
  have omega: "omega \<noteq> 0" using prim_root_nonzero [OF w] n' by simp
  have one: "interpolate_coset_ext T (fibre evals ?m n' b) (omega ^ b) (omega ^ n') ?m =
      Some (map (rem_coeffs ?m n' (?W ^ (b * ?m)) a) [0..<?m])" if b: "b < n'" for b
  proof (rule interpolate_coset(1) [OF T L zeta])
    show "length (fibre evals ?m n' b) = ?m" by (simp add: fibre_def)
    show "omega ^ b \<noteq> 0" using omega by simp
    show "?W ^ b = from_fp T (omega ^ b)" by (simp add: fp_hom_simps [OF T(1)])
    fix j assume j: "j < ?m"
    let ?x = "?W ^ b * from_fp T (omega ^ n') ^ j"
    have x: "?x = ?W ^ (b + j * n')"
      by (simp add: fp_hom_simps [OF T(1)] power_add mult.commute flip: power_mult)
    have "b + j * n' < Suc j * n'" using b by simp
    also have "\<dots> \<le> ?m * n'" by (rule mult_le_mono1) (use j in simp)
    finally have "evals ! (b + j * n') = polyval a (?m * n') ?x"
      using ev unfolding x by (simp add: evaluates_def)
    moreover have "?x ^ ?m = ?W ^ (b * ?m)"
    proof -
      have "?W ^ (?m * n') = 1" using prim_root_from_fp [OF T(1) w] by (simp add: prim_root_def)
      then have "?W ^ (?m * n' * j) = 1" by (simp add: power_mult)
      moreover have "?x ^ ?m = ?W ^ (b * ?m + ?m * n' * j)"
        unfolding x by (simp add: algebra_simps flip: power_mult)
      ultimately show ?thesis by (simp add: power_add)
    qed
    ultimately show "fibre evals ?m n' b ! j = (\<Sum>k < ?m. rem_coeffs ?m n' (?W ^ (b * ?m)) a k * ?x ^ k)"
      using polyval_rem [of ?x ?m "?W ^ (b * ?m)" a n'] j by (simp add: fibre_def polyval_def)
  qed
  have "map (\<lambda>(b, ob). interpolate_coset_ext T (fibre evals ?m n' b) ob (omega ^ n') ?m)
      (enumerate 0 (build_ext_pows omega n')) =
    map (\<lambda>b. Some (map (rem_coeffs ?m n' (?W ^ (b * ?m)) a) [0..<?m])) [0..<n']"
    by (rule nth_equalityI) (simp_all add: nth_enumerate_eq one)
  then show ?thesis
    by (simp add: extract_all_coset_coefficients_def guard_opt_def len those_map_Some)
qed

lemma fold_tuples:
  assumes "0 < n'"
  shows "interpolation_fold_ext (map (\<lambda>b. map (rem_coeffs m n' (W ^ (b * m)) a) [0..<m]) [0..<n']) alpha =
      Some (map (\<lambda>b. polyval (fold_coeffs m alpha a) n' ((W ^ m) ^ b)) [0..<n'])"
proof -
  let ?t = "\<lambda>b. map (rem_coeffs m n' (W ^ (b * m)) a) [0..<m]"
  have dot: "dot (?t b) (build_ext_pows alpha m) = polyval (fold_coeffs m alpha a) n' ((W ^ m) ^ b)" for b
  proof -
    have "dot (?t b) (build_ext_pows alpha m) = polyval (rem_coeffs m n' (W ^ (b * m)) a) m alpha"
      by (subst dot_pows) (simp_all add: polyval_def)
    then show ?thesis by (simp add: polyval_fold mult.commute flip: power_mult)
  qed
  have ne: "map ?t [0..<n'] = ?t 0 # map ?t [1..<n']" using assms by (simp add: upt_conv_Cons)
  have "\<forall>c \<in> set (map ?t [0..<n']). m \<le> length c" by simp
  then show ?thesis
    unfolding interpolation_fold_ext_def by (subst ne) (simp add: Let_def dot del: build_ext_pows_eq upt_Suc)
qed

section \<open>The parameters\<close>

text \<open>
  Documented behaviour of the parameters up to domains of size \<open>2 ^ K\<close>: components are
  coordinates in a basis over the ground field, the inverse transform interpolates, and the
  generators of the radix-2 domains are powers of one primitive root.
\<close>

definition comps_ok :: "('f :: field, 'e :: field) tower \<Rightarrow> bool" where
  "comps_ok T \<longleftrightarrow> (\<exists>basis.
     (\<forall>e. length (to_fp_components T e) = ext_degree T \<and>
       (\<Sum>j < ext_degree T. from_fp T (to_fp_components T e ! j) * basis ! j) = e) \<and>
     (\<forall>cs. length cs = ext_degree T \<longrightarrow>
       from_fp_components T cs = Some (\<Sum>j < ext_degree T. from_fp T (cs ! j) * basis ! j)))"

definition ifft_ok :: "('f :: field, 'e :: field) tower \<Rightarrow> nat \<Rightarrow> bool" where
  "ifft_ok T K \<longleftrightarrow> (\<forall>k \<le> K. \<forall>g ys. group_gen T (2 ^ k) = Some g \<and> length ys = 2 ^ k \<longrightarrow>
     length (ifft T ys) = 2 ^ k \<and> (\<forall>i < 2 ^ k. (\<Sum>l < 2 ^ k. ifft T ys ! l * g ^ (i * l)) = ys ! i))"

definition domains_ok :: "('f :: field, 'e :: field) tower \<Rightarrow> nat \<Rightarrow> bool" where
  "domains_ok T K \<longleftrightarrow> (\<exists>r. prim_root r (2 ^ K) \<and> (\<forall>k \<le> K. group_gen T (2 ^ k) = Some (r ^ 2 ^ (K - k))))"

definition tower_ok :: "('f :: field, 'e :: field) tower \<Rightarrow> nat \<Rightarrow> bool" where
  "tower_ok T K \<longleftrightarrow> fp_hom T \<and> sizes_ok T K \<and> comps_ok T \<and> ifft_ok T K \<and> domains_ok T K"

lemma tower_okD:
  assumes "tower_ok T K"
  shows "fp_hom T" "sizes_ok T K" "comps_ok T" "ifft_ok T K" "domains_ok T K"
  using assms by (simp_all add: tower_ok_def)

lemma domain_root:
  assumes "tower_ok T K" "L + e \<le> K"
  obtains g where "group_gen T (2 ^ (L + e)) = Some g" "prim_root g (2 ^ (L + e))"
    "group_gen T (2 ^ e) = Some (g ^ 2 ^ L)"
proof -
  obtain r where r: "prim_root r (2 ^ K)" "\<And>k. k \<le> K \<Longrightarrow> group_gen T (2 ^ k) = Some (r ^ 2 ^ (K - k))"
    using tower_okD(5) [OF assms(1)] by (auto simp: domains_ok_def)
  let ?g = "r ^ 2 ^ (K - (L + e))"
  have "2 ^ (K - (L + e)) * 2 ^ (L + e) = (2 :: nat) ^ K" using assms(2) by (simp flip: power_add)
  then have "prim_root ?g (2 ^ (L + e))" using root_of_power(1) [of r "2 ^ (K - (L + e))" "2 ^ (L + e)"] r(1) by simp
  moreover have "?g ^ 2 ^ L = r ^ 2 ^ (K - e)" using assms(2) by (simp flip: power_mult power_add)
  ultimately show ?thesis using that [of ?g] r(2) assms(2) by simp
qed

lemma size_nonzero:
  assumes "tower_ok (T :: ('f :: field, 'e :: field) tower) K" "k \<le> K"
  shows "(of_nat (2 ^ k) :: 'e) \<noteq> 0"
  using tower_okD(1,2) [OF assms(1)] assms(2) fp_hom_simps(7,9) [of T] unfolding sizes_ok_def by metis

lemma ext_coeffs_evaluates:
  assumes T: "tower_ok T K" "k \<le> K" and g: "group_gen T (2 ^ k) = Some g" and len: "length evals = 2 ^ k"
  shows "\<exists>cs. ext_coeffs T evals = Some cs \<and> length cs = 2 ^ k \<and> evaluates (from_fp T g) (2 ^ k) evals ((!) cs)"
proof -
  note hom = fp_hom_simps [OF tower_okD(1) [OF T(1)]]
  obtain basis where b: "\<And>e. length (to_fp_components T e) = ext_degree T"
      "\<And>e. (\<Sum>j < ext_degree T. from_fp T (to_fp_components T e ! j) * basis ! j) = e"
      "\<And>cs. length cs = ext_degree T \<Longrightarrow>
        from_fp_components T cs = Some (\<Sum>j < ext_degree T. from_fp T (cs ! j) * basis ! j)"
    using tower_okD(3) [OF T(1)] by (auto simp: comps_ok_def)
  define C where "C j = ifft T (map (\<lambda>e. to_fp_components T e ! j) evals)" for j
  have C: "i < 2 ^ k \<Longrightarrow> (\<Sum>l < 2 ^ k. C j ! l * g ^ (i * l)) = to_fp_components T (evals ! i) ! j" for i j
    using tower_okD(4) [OF T(1)] T(2) g len unfolding ifft_ok_def C_def by simp
  define c where "c l = (\<Sum>j < ext_degree T. from_fp T (C j ! l) * basis ! j)" for l
  have sum_hom: "from_fp T (\<Sum>l \<in> A. h l) = (\<Sum>l \<in> A. from_fp T (h l))" if "finite A" for A and h :: "nat \<Rightarrow> 'a"
    using that by (induction rule: finite_induct) (simp_all add: hom)
  have "from_fp_components T (map (\<lambda>c. c ! l) (comp_coeffs T evals)) = Some (c l)" for l
    by (subst b(3)) (simp_all add: comp_coeffs_def c_def C_def)
  then have cs: "ext_coeffs T evals = Some (map c [0..<2 ^ k])"
    by (simp add: ext_coeffs_def g len those_map_Some)
  have "polyval ((!) (map c [0..<2 ^ k])) (2 ^ k) (from_fp T g ^ i) = evals ! i" if "i < 2 ^ k" for i
  proof -
    have "polyval ((!) (map c [0..<2 ^ k])) (2 ^ k) (from_fp T g ^ i) =
        (\<Sum>l < 2 ^ k. \<Sum>j < ext_degree T. from_fp T (C j ! l * g ^ (i * l)) * basis ! j)"
      by (simp add: polyval_def c_def hom sum_distrib_left ac_simps flip: power_mult)
    also have "\<dots> = (\<Sum>j < ext_degree T. \<Sum>l < 2 ^ k. from_fp T (C j ! l * g ^ (i * l)) * basis ! j)"
      by (rule sum.swap)
    also have "\<dots> = (\<Sum>j < ext_degree T. from_fp T (to_fp_components T (evals ! i) ! j) * basis ! j)"
      by (simp add: sum_hom sum_distrib_right flip: C [OF that])
    finally show ?thesis by (simp add: b(2))
  qed
  then show ?thesis using cs by (simp add: evaluates_def len)
qed

lemma ext_coeffs_eq:
  assumes T: "tower_ok T K" "k \<le> K" and g: "group_gen T (2 ^ k) = Some g" "prim_root g (2 ^ k)"
    and ev: "evaluates (from_fp T g) (2 ^ k) evals a"
  shows "ext_coeffs T evals = Some (map a [0..<2 ^ k])"
proof -
  have "length evals = 2 ^ k" using ev by (simp add: evaluates_def)
  from ext_coeffs_evaluates [OF T g(1) this] obtain cs where
    cs: "ext_coeffs T evals = Some cs" "length cs = 2 ^ k" "evaluates (from_fp T g) (2 ^ k) evals ((!) cs)" by blast
  have "cs ! l = a l" if "l < 2 ^ k" for l
    using evaluates_unique [OF prim_root_from_fp [OF tower_okD(1) [OF T(1)] g(2)] size_nonzero [OF T] cs(3) ev that] .
  then have "cs = map a [0..<2 ^ k]" using cs(2) by (intro nth_equalityI) simp_all
  then show ?thesis using cs(1) by simp
qed

section \<open>Out-of-domain evaluation and quotients\<close>

lemma evaluate_ood:
  assumes T: "tower_ok T K" "L + e \<le> K" "0 < L"
    and g: "group_gen T (2 ^ (L + e)) = Some g" "prim_root g (2 ^ (L + e))"
    and ev: "evaluates (from_fp T g) (2 ^ (L + e)) evals a" and z: "z \<noteq> 0"
  shows "evaluate_ood_coset T evals z g (2 ^ L) =
    Some (map (\<lambda>j. polyval a (2 ^ (L + e)) (from_fp T g ^ (j * 2 ^ e) * z)) [0..<2 ^ L],
      map (rem_coeffs (2 ^ L) (2 ^ e) (z ^ 2 ^ L) a) [0..<2 ^ L])"
proof -
  let ?m = "2 ^ L :: nat" and ?n' = "2 ^ e :: nat" and ?W = "from_fp T g"
  note hom = fp_hom_simps [OF tower_okD(1) [OF T(1)]]
  have n: "2 ^ (L + e) = ?m * ?n'" by (simp add: power_add)
  have len: "length evals div ?m = ?n'" using ev by (simp add: evaluates_def n)
  have zeta: "prim_root (g ^ ?n') ?m" using root_of_power(2) [of g ?m ?n'] g(2) by (simp add: n)
  let ?evs = "map (\<lambda>j. polyval a (2 ^ (L + e)) (?W ^ (j * ?n') * z)) [0..<?m]"
  have cs: "ext_coeffs T evals = Some (map a [0..<2 ^ (L + e)])" by (rule ext_coeffs_eq [OF T(1,2) g ev])
  have evs: "map (\<lambda>zp. eval_final_poly_ext (map a [0..<2 ^ (L + e)]) (zp * z)) (build_ext_pows (from_fp T (g ^ ?n')) ?m) = ?evs"
    by (simp add: eval_final_poly_eq polyval_def comp_def hom mult.commute flip: power_mult)
  have "interpolate_stir_coset T ?evs z (g ^ ?n') ?m = Some (map (rem_coeffs ?m ?n' (z ^ ?m) a) [0..<?m])"
  proof (rule interpolate_coset(2) [OF tower_okD(1,2) [OF T(1)] T(3) _ zeta _ _ z])
    show "L \<le> K" using T(2) by simp
    show "length ?evs = ?m" by simp
    fix j assume j: "j < ?m"
    let ?x = "z * from_fp T (g ^ ?n') ^ j"
    have "(from_fp T (g ^ ?n')) ^ ?m = 1"
      using prim_root_from_fp [OF tower_okD(1) [OF T(1)] zeta] by (simp add: prim_root_def)
    then have "(from_fp T (g ^ ?n') ^ j) ^ ?m = 1" by (metis mult.commute power_mult power_one)
    then have x: "?x ^ ?m = z ^ ?m" by (simp add: power_mult_distrib)
    have "?evs ! j = polyval a (?m * ?n') ?x"
      using j by (simp add: n hom mult.commute flip: power_mult)
    then show "?evs ! j = (\<Sum>k < ?m. rem_coeffs ?m ?n' (z ^ ?m) a k * ?x ^ k)"
      unfolding polyval_rem [OF x] by (simp add: polyval_def)
  qed
  then show ?thesis
    by (simp add: evaluate_ood_coset_def len cs evs guard_opt_def Let_def del: build_ext_pows_eq)
qed

lemma compute_q:
  assumes T: "tower_ok T K" "k \<le> K" and g: "group_gen T (2 ^ k) = Some g" "prim_root g (2 ^ k)"
    and ev: "evaluates (from_fp T g) (2 ^ k) evals a" and z: "\<And>i. i < 2 ^ k \<Longrightarrow> from_fp T g ^ i \<noteq> z"
  shows "compute_q_layer_ext_on_ext T evals z g =
    Some (map (\<lambda>i. (evals ! i - polyval a (2 ^ k) z) * inverse (from_fp T g ^ i - z)) [0..<2 ^ k], polyval a (2 ^ k) z)"
proof -
  have len: "length evals = 2 ^ k" using ev by (simp add: evaluates_def)
  have fz: "eval_final_poly_ext (map a [0..<2 ^ k]) z = polyval a (2 ^ k) z"
    by (simp add: eval_final_poly_eq polyval_def)
  have "map2 (\<lambda>fi xi. ext_div (fi - polyval a (2 ^ k) z) (xi - z)) evals (build_ext_pows (from_fp T g) (2 ^ k)) =
      map (\<lambda>i. Some ((evals ! i - polyval a (2 ^ k) z) * inverse (from_fp T g ^ i - z))) [0..<2 ^ k]"
    using z len by (intro nth_equalityI) (simp_all add: ext_div_def inv_opt_def)
  then show ?thesis
    unfolding compute_q_layer_ext_on_ext_def
    by (simp add: ext_coeffs_eq [OF T g ev] fz len Let_def those_map_Some del: build_ext_pows_eq)
qed

end
