(* ===== verification/Fri_Protocol.thy ===== *)
theory Fri_Protocol
  imports Fri_Algebra
begin

text \<open>
  What prover and verifier of \<open>deep_ali/src/fri.rs\<close> share: the SHA-3 transcript
  (\<open>crates/transcript\<close>), challenges, tree configurations, query positions, and the proof format.
  Squeezing a challenge does not change the state of the SHA-3 backend, so a transcript is the
  string absorbed so far.
\<close>

section \<open>Transcript\<close>

type_synonym transcript = bytes

definition new_matching_hash :: "bytes \<Rightarrow> transcript" where
  "new_matching_hash init_label = ascii ''FSv1-TRANSCRIPT-INIT'' @ init_label"

definition absorb_bytes :: "bytes \<Rightarrow> transcript \<Rightarrow> transcript" where
  "absorb_bytes b tr = tr @ ascii ''FSv1-ABSORB-BYTES'' @ b"

definition absorb_field :: "('f, 'e) tower \<Rightarrow> 'f \<Rightarrow> transcript \<Rightarrow> transcript" where
  "absorb_field T x tr = absorb_bytes (le64 (into_bigint T x)) tr"

definition challenge_bytes :: "hasher \<Rightarrow> transcript \<Rightarrow> bytes \<Rightarrow> bytes" where
  "challenge_bytes h tr label = hs_digest h (tr @ ascii ''FSv1-CHALLENGE'' @ label)"

definition transcript_challenge_hash :: "hasher \<Rightarrow> transcript \<Rightarrow> bytes \<Rightarrow> bytes" where
  "transcript_challenge_hash h tr label = take (hash_bytes h) (challenge_bytes h tr label)"

text \<open>\<open>rchunks(7)\<close>: seven bytes at a time from the end.\<close>

function rchunks7 :: "'a list \<Rightarrow> 'a list list" where
  "rchunks7 xs = (if xs = [] then [] else drop (length xs - 7) xs # rchunks7 (take (length xs - 7) xs))"
  by pat_completeness auto
termination by (relation "measure length") auto

declare rchunks7.simps [simp del]

definition safe_field_challenge :: "hasher \<Rightarrow> ('f :: field, 'e) tower \<Rightarrow> transcript \<Rightarrow> bytes \<Rightarrow> 'f" where
  "safe_field_challenge h T tr label =
     fold (\<lambda>chunk acc. acc * from_u64 T (push_bit (8 * length chunk) 1) + from_u64 T (of_le_bytes chunk))
       (rchunks7 (challenge_bytes h tr label)) 0"

definition challenge_ext :: "hasher \<Rightarrow> ('f :: field, 'e :: field) tower \<Rightarrow> transcript \<Rightarrow> bytes \<Rightarrow> 'e option" where
  "challenge_ext h T tr tag = from_fp_components T (map (\<lambda>i.
     safe_field_challenge h T tr (tag @ ascii ''/c'' @ ascii (decimal i))) [0..<ext_degree T])"

definition absorb_ext :: "('f, 'e) tower \<Rightarrow> 'e \<Rightarrow> transcript \<Rightarrow> transcript" where
  "absorb_ext T v tr = fold (absorb_field T) (to_fp_components T v) tr"

definition tr_hash_fields_tagged :: "hasher \<Rightarrow> ('f :: field, 'e) tower \<Rightarrow> bytes \<Rightarrow> 'f list \<Rightarrow> 'f" where
  "tr_hash_fields_tagged h T tag xs =
     safe_field_challenge h T (fold (absorb_field T) xs (absorb_bytes tag (new_matching_hash (ascii ''FRI/FS''))))
       (ascii ''out'')"

definition bind_statement_to_transcript ::
    "('f, 'e) tower \<Rightarrow> deep_fri_params \<Rightarrow> nat \<Rightarrow> transcript \<Rightarrow> transcript" where
  "bind_statement_to_transcript T prm n tr =
     (let tr = (case public_inputs_hash prm of None \<Rightarrow> tr
            | Some pi_hash \<Rightarrow> absorb_bytes pi_hash (absorb_bytes (ascii ''CAIRO-PUBLIC-INPUTS-V1'') tr));
          tr = absorb_bytes (ascii ''DEEP-FRI-STATEMENT-V2'') tr
      in fold (absorb_field T)
        ([f_of_nat T n, f_of_nat T (length (schedule prm))] @ map (f_of_nat T) (schedule prm) @
         [from_u64 T (seed_z prm), f_of_nat T (ext_degree T), from_u64 T (of_bool (coeff_commit_final prm)),
          from_u64 T (of_bool (stir prm))]) tr)"

text \<open>The common start of every replay: statement, then the root of the first layer.\<close>

definition start_transcript :: "('f, 'e) tower \<Rightarrow> deep_fri_params \<Rightarrow> nat \<Rightarrow> bytes \<Rightarrow> transcript" where
  "start_transcript T prm n root_f0 =
     absorb_bytes root_f0 (bind_statement_to_transcript T prm n (new_matching_hash (ascii ''FRI/FS'')))"

section \<open>Trees\<close>

definition pick_arity_for_layer :: "nat \<Rightarrow> nat \<Rightarrow> nat" where
  "pick_arity_for_layer n requested_m =
     (if requested_m \<ge> 128 \<and> n mod 128 = 0 then 128
      else if requested_m \<ge> 64 \<and> n mod 64 = 0 then 64
      else if requested_m \<ge> 32 \<and> n mod 32 = 0 then 32
      else if requested_m \<ge> 16 \<and> n mod 16 = 0 then 16
      else if requested_m \<ge> 8 \<and> n mod 8 = 0 then 8
      else if requested_m \<ge> 4 \<and> n mod 4 = 0 then 4
      else if n mod 2 = 0 then 2 else 1)"

function merkle_depth_loop :: "nat \<Rightarrow> nat \<Rightarrow> nat \<Rightarrow> nat" where
  "merkle_depth_loop cur arity depth =
     (if arity \<ge> 2 \<and> cur > arity then merkle_depth_loop ((cur + arity - 1) div arity) arity (Suc depth)
      else depth)"
  by pat_completeness auto
termination
proof (relation "measure (\<lambda>(cur, arity, depth). cur)", simp)
  fix cur arity depth :: nat assume a: "2 \<le> arity \<and> arity < cur"
  have "cur * 2 \<le> cur * arity" by (rule mult_le_mono2) (use a in simp)
  then have "cur + arity - 1 < cur * arity" using a by linarith
  then show "((((cur + arity - 1) div arity), arity, Suc depth), cur, arity, depth)
      \<in> measure (\<lambda>(cur, arity, depth). cur)"
    by (simp add: less_mult_imp_div_less)
qed

declare merkle_depth_loop.simps [simp del]

definition merkle_depth :: "nat \<Rightarrow> nat \<Rightarrow> nat" where
  "merkle_depth leaves arity = merkle_depth_loop leaves arity 1"

definition tree_cfg :: "nat \<Rightarrow> nat \<Rightarrow> u64 \<Rightarrow> merkle_cfg" where
  "tree_cfg n m label = (let arity = max (pick_arity_for_layer n m) 2
     in \<lparr>layer_arities = replicate (merkle_depth n arity) arity, tree_label = label\<rparr>)"

definition coeff_tree_config :: "nat \<Rightarrow> merkle_cfg" where
  "coeff_tree_config n_final = tree_cfg n_final 16 0xFE"

definition f0_tree_config :: "nat \<Rightarrow> merkle_cfg" where
  "f0_tree_config n = tree_cfg n 16 0xFF"

definition f0_packed_tree_config :: "nat \<Rightarrow> nat \<Rightarrow> merkle_cfg" where
  "f0_packed_tree_config n m0 = tree_cfg (n div m0) 16 0xFF"

definition layer_cfg :: "nat \<Rightarrow> nat \<Rightarrow> nat \<Rightarrow> merkle_cfg" where
  "layer_cfg n m ell = tree_cfg n m (word_of_nat ell)"

definition elem_bytes :: "('f, 'e) tower \<Rightarrow> 'f \<Rightarrow> bytes" where
  "elem_bytes T = field_to_bytes (into_bigint T)"

text \<open>A tree made by \<open>push_leaf\<close> for every row, then \<open>finalize\<close>.\<close>

definition push_tree ::
    "hasher \<Rightarrow> ('f, 'e) tower \<Rightarrow> merkle_cfg \<Rightarrow> 'f list list \<Rightarrow> (merkle_tree \<times> bytes) option" where
  "push_tree h T cfg rows =
     fold (\<lambda>row t. t \<bind> push_leaf h (elem_bytes T) row) rows (Some (new_tree cfg)) \<bind> finalize h"

definition bulk_tree ::
    "hasher \<Rightarrow> ('f, 'e) tower \<Rightarrow> merkle_cfg \<Rightarrow> 'f list list \<Rightarrow> (merkle_tree \<times> bytes) option" where
  "bulk_tree h T cfg rows = commit_values h (elem_bytes T) cfg rows"

definition ext_leaf_fields :: "('f, 'e) tower \<Rightarrow> 'e \<Rightarrow> 'e \<Rightarrow> 'e \<Rightarrow> 'f list" where
  "ext_leaf_fields T f s q = to_fp_components T f @ to_fp_components T s @ to_fp_components T q"

definition stir_leaf_fields :: "('f, 'e) tower \<Rightarrow> 'e \<Rightarrow> 'f list" where
  "stir_leaf_fields T f = to_fp_components T f"

definition coeff_leaf_fields :: "('f, 'e) tower \<Rightarrow> 'e list \<Rightarrow> 'f list" where
  "coeff_leaf_fields T tuple = concat (map (to_fp_components T) tuple)"

section \<open>Sizes and query positions\<close>

fun layer_sizes_from_schedule :: "nat \<Rightarrow> nat list \<Rightarrow> nat list option" where
  "layer_sizes_from_schedule n [] = Some [n]"
| "layer_sizes_from_schedule n (m # ms) =
     (if m = 0 \<or> n mod m \<noteq> 0 then None
      else map_option ((#) n) (layer_sizes_from_schedule (n div m) ms))"

definition index_seed :: "hasher \<Rightarrow> ('f :: field, 'e) tower \<Rightarrow> 'f \<Rightarrow> nat \<Rightarrow> nat \<Rightarrow> 'f" where
  "index_seed h T roots_seed ell q =
     tr_hash_fields_tagged h T (ascii ''FRI/index'') [roots_seed, f_of_nat T ell, f_of_nat T q]"

definition index_from_seed :: "('f, 'e) tower \<Rightarrow> 'f \<Rightarrow> nat \<Rightarrow> nat option" where
  "index_from_seed T seed_f n_pow2 = do {
     guard_opt (is_power_of_two n_pow2);
     Some (unat (and (rng_u64 T (le64 (into_bigint T seed_f) @ replicate 24 0)) (word_of_nat (n_pow2 - 1)))) }"

definition query_position :: "hasher \<Rightarrow> ('f :: field, 'e) tower \<Rightarrow> 'f \<Rightarrow> nat \<Rightarrow> nat \<Rightarrow> nat option" where
  "query_position h T query_seed n q = do {
     i \<leftarrow> index_from_seed T (index_seed h T query_seed 0 q) (next_power_of_two n);
     guard_opt (n \<noteq> 0);
     Some (i mod n) }"

text \<open>The position of a query in every layer, and after the last: \<open>i % n_next\<close> again and again.\<close>

fun layer_positions :: "nat \<Rightarrow> nat list \<Rightarrow> nat list" where
  "layer_positions i [] = []"
| "layer_positions i (nn # nns) = i # layer_positions (i mod nn) nns"

definition final_position :: "nat \<Rightarrow> nat list \<Rightarrow> nat" where
  "final_position i nns = fold (\<lambda>nn i. i mod nn) nns i"

section \<open>Proofs\<close>

record layer_query_ref =
  qr_i :: nat
  qr_child_pos :: nat
  qr_parent_index :: nat
  qr_parent_pos :: nat

record 'e layer_open_payload =
  lp_f_val :: 'e
  lp_s_val :: 'e
  lp_q_val :: 'e

record 'e fri_query_payload =
  qp_refs :: "layer_query_ref list"
  qp_payloads :: "'e layer_open_payload list"
  qp_f0_opening :: merkle_opening
  qp_final_index :: nat

record ('f, 'e) stir_proximity_payload =
  sq_base_index :: nat
  sq_raw_query_index :: nat
  sq_fiber_indices :: "nat list"
  sq_fiber_f_vals :: "'f list"
  sq_f0_packed_opening :: merkle_opening
  sq_f_next_val :: 'e
  sq_layer1_opening :: "merkle_opening option"

record ('f, 'e) deep_fri_proof =
  pf_root_f0 :: bytes
  pf_roots :: "bytes list"
  pf_layer_proofs :: "merkle_opening list list"
  pf_f0_openings :: "merkle_opening list"
  pf_queries :: "'e fri_query_payload list"
  pf_fz_per_layer :: "'e list"
  pf_final_poly_coeffs :: "'e list"
  pf_n0 :: nat
  pf_omega0 :: 'f
  pf_coeff_tuples :: "'e list list option"
  pf_coeff_root :: "bytes option"
  pf_stir_coset_evals :: "'e list list option"
  pf_stir_queries :: "('f, 'e) stir_proximity_payload list option"

text \<open>What a layer adds to the transcript: out-of-domain values, then its root.\<close>

definition absorb_layer :: "('f, 'e) tower \<Rightarrow> 'e list \<Rightarrow> bytes \<Rightarrow> transcript \<Rightarrow> transcript" where
  "absorb_layer T evs root tr = absorb_bytes root (fold (absorb_ext T) evs tr)"

end
