(* ===== verification/Fri_Prover.thy ===== *)
theory Fri_Prover
  imports Fri_Protocol
begin

text \<open>
  The prover of \<open>deep_ali/src/fri.rs\<close>: \<open>fri_build_transcript\<close> commits to the layers,
  \<open>fri_prove_queries\<close> and \<open>stir_prove_proximity_queries\<close> open them, \<open>deep_fri_prove\<close> puts the
  proof together.
\<close>

section \<open>Layers\<close>

record fri_layer_commitment =
  fl_n :: nat
  fl_m :: nat
  fl_root :: bytes

record ('f, 'e) fri_prover_state =
  ps_f0_base :: "'f list"
  ps_f_layers :: "'e list list"
  ps_s_layers :: "'e list list"
  ps_q_layers :: "'e list list"
  ps_fz_layers :: "'e list"
  ps_layers :: "fri_layer_commitment list"
  ps_omega_layers :: "'f list"
  ps_z_ext :: 'e
  ps_alpha_layers :: "'e list"
  ps_root_f0 :: bytes
  ps_trace_hash :: bytes
  ps_coeff_tuples :: "'e list list option"
  ps_coeff_root :: "bytes option"
  ps_beta_deg :: "'e option"
  ps_coset_evals :: "'e list list"
  ps_z_per_layer :: "'e list"
  ps_interp_coeffs :: "'e list list"
  ps_tr :: transcript        \<comment> \<open>\<open>tr\<close>, \<open>z_current\<close> and \<open>cur_size\<close> are local variables of the builder\<close>
  ps_z_current :: 'e
  ps_cur_size :: nat

definition f0_tree ::
    "hasher \<Rightarrow> ('f, 'e) tower \<Rightarrow> deep_fri_params \<Rightarrow> nat \<Rightarrow> 'f list \<Rightarrow> (merkle_tree \<times> bytes) option" where
  "f0_tree h T prm n f0 =
     (case schedule prm of
        m0 # _ \<Rightarrow>
          if stir prm then do {
            guard_opt (m0 \<noteq> 0 \<and> n div m0 * m0 \<le> length f0);
            push_tree h T (f0_packed_tree_config n m0)
              (map (fibre f0 m0 (n div m0)) [0..<n div m0]) }
          else push_tree h T (f0_tree_config n) (map (\<lambda>v. [v]) f0)
      | [] \<Rightarrow> push_tree h T (f0_tree_config n) (map (\<lambda>v. [v]) f0))"

text \<open>Values out of the domain: \<open>f(z)\<close>, the coset values, the quotient, the interpolant, the next \<open>z\<close>.\<close>

definition ood_values ::
    "('f :: field, 'e :: field) tower \<Rightarrow> bool \<Rightarrow> 'e list \<Rightarrow> 'e \<Rightarrow> 'e \<Rightarrow> 'f \<Rightarrow> nat \<Rightarrow>
     ('e \<times> 'e list \<times> 'e list \<times> 'e list \<times> 'e) option" where
  "ood_values T use_stir cur_f z_ext z_current omega m =
     (if use_stir then do {
        (coset_evals, interp_coeffs) \<leftarrow> evaluate_ood_coset T cur_f z_current omega m;
        fz \<leftarrow> nth_opt coset_evals 0;
        Some (fz, coset_evals, [], interp_coeffs, ext_pow z_current m) }
      else do {
        (q, fz) \<leftarrow> compute_q_layer_ext_on_ext T cur_f z_ext omega;
        Some (fz, [], q, [], z_current) })"

definition layer_rows :: "('f, 'e) tower \<Rightarrow> bool \<Rightarrow> nat \<Rightarrow> 'e list \<Rightarrow> 'e list \<Rightarrow> 'e list \<Rightarrow> 'f list list" where
  "layer_rows T use_stir n f s q =
     (if use_stir then map (stir_leaf_fields T) f
      else map (\<lambda>i. ext_leaf_fields T (f ! i) (s ! i) (q ! i)) [0..<n])"

definition normal_layer ::
    "hasher \<Rightarrow> ('f :: field, 'e :: field) tower \<Rightarrow> bool \<Rightarrow> nat \<Rightarrow> nat \<Rightarrow>
     ('f, 'e) fri_prover_state \<Rightarrow> ('f, 'e) fri_prover_state option" where
  "normal_layer h T use_stir ell m st = do {
     let n = ps_cur_size st;
     alpha \<leftarrow> challenge_ext h T (ps_tr st) (ascii ''alpha'');
     omega \<leftarrow> group_gen T n;
     cur_f \<leftarrow> nth_opt (ps_f_layers st) ell;
     (fz, coset_evals, q, interp, z') \<leftarrow>
       ood_values T use_stir cur_f (ps_z_ext st) (ps_z_current st) omega m;
     tuples \<leftarrow> extract_all_coset_coefficients T cur_f omega m;
     s \<leftarrow> (if use_stir then Some (replicate n 0) else compute_s_layer_from_coeffs tuples alpha n m);
     (_, root) \<leftarrow> bulk_tree h T (layer_cfg n m ell) (layer_rows T use_stir n cur_f s q);
     next_f \<leftarrow> interpolation_fold_ext tuples alpha;
     Some (st\<lparr>ps_alpha_layers := ps_alpha_layers st @ [alpha],
       ps_omega_layers := ps_omega_layers st @ [omega],
       ps_z_per_layer := ps_z_per_layer st @ (if use_stir then [ps_z_current st] else []),
       ps_z_current := z',
       ps_q_layers := ps_q_layers st @ [q],
       ps_fz_layers := ps_fz_layers st @ [fz],
       ps_s_layers := ps_s_layers st @ [s],
       ps_layers := ps_layers st @ [\<lparr>fl_n = n, fl_m = m, fl_root = root\<rparr>],
       ps_coset_evals := ps_coset_evals st @ (if use_stir then [coset_evals] else []),
       ps_interp_coeffs := ps_interp_coeffs st @ (if use_stir then [interp] else []),
       ps_tr := absorb_layer T (if use_stir then coset_evals else [fz]) root (ps_tr st),
       ps_cur_size := n div m,
       ps_f_layers := ps_f_layers st @ [next_f]\<rparr>) }"

fun normal_layers ::
    "hasher \<Rightarrow> ('f :: field, 'e :: field) tower \<Rightarrow> bool \<Rightarrow> nat \<Rightarrow> nat list \<Rightarrow>
     ('f, 'e) fri_prover_state \<Rightarrow> ('f, 'e) fri_prover_state option" where
  "normal_layers h T use_stir ell [] st = Some st"
| "normal_layers h T use_stir ell (m # ms) st =
     normal_layer h T use_stir ell m st \<bind> normal_layers h T use_stir (Suc ell) ms"

text \<open>The last layer when its coset coefficients are committed.\<close>

definition coeff_layer ::
    "hasher \<Rightarrow> ('f :: field, 'e :: field) tower \<Rightarrow> bool \<Rightarrow> nat \<Rightarrow> nat \<Rightarrow>
     ('f, 'e) fri_prover_state \<Rightarrow> ('f, 'e) fri_prover_state option" where
  "coeff_layer h T use_stir ell m st = do {
     let n = ps_cur_size st;
     omega \<leftarrow> group_gen T n;
     cur_f \<leftarrow> nth_opt (ps_f_layers st) ell;
     (fz, coset_evals, q, interp, z') \<leftarrow>
       ood_values T use_stir cur_f (ps_z_ext st) (ps_z_current st) omega m;
     let s = replicate n 0;
     (_, root) \<leftarrow> bulk_tree h T (layer_cfg n m ell) (layer_rows T use_stir n cur_f s q);
     let tr = absorb_layer T (if use_stir then coset_evals else [fz]) root (ps_tr st);
     tuples \<leftarrow> extract_all_coset_coefficients T cur_f omega m;
     (_, coeff_root) \<leftarrow> bulk_tree h T (coeff_tree_config (n div m)) (map (coeff_leaf_fields T) tuples);
     let tr = absorb_bytes coeff_root tr;
     alpha \<leftarrow> challenge_ext h T tr (ascii ''alpha'');
     beta_deg \<leftarrow> challenge_ext h T tr (ascii ''beta_deg'');
     next_f \<leftarrow> interpolation_fold_ext tuples alpha;
     Some (st\<lparr>ps_omega_layers := ps_omega_layers st @ [omega],
       ps_z_per_layer := ps_z_per_layer st @ (if use_stir then [ps_z_current st] else []),
       ps_z_current := z',
       ps_q_layers := ps_q_layers st @ [q],
       ps_fz_layers := ps_fz_layers st @ [fz],
       ps_s_layers := ps_s_layers st @ [s],
       ps_layers := ps_layers st @ [\<lparr>fl_n = n, fl_m = m, fl_root = root\<rparr>],
       ps_coset_evals := ps_coset_evals st @ (if use_stir then [coset_evals] else []),
       ps_interp_coeffs := ps_interp_coeffs st @ (if use_stir then [interp] else []),
       ps_tr := tr,
       ps_alpha_layers := ps_alpha_layers st @ [alpha],
       ps_coeff_tuples := Some tuples, ps_coeff_root := Some coeff_root, ps_beta_deg := Some beta_deg,
       ps_cur_size := n div m,
       ps_f_layers := ps_f_layers st @ [next_f]\<rparr>) }"

definition initial_state ::
    "('f, 'e) tower \<Rightarrow> 'f list \<Rightarrow> nat \<Rightarrow> transcript \<Rightarrow> 'e \<Rightarrow> bytes \<Rightarrow> bytes \<Rightarrow> ('f, 'e) fri_prover_state" where
  "initial_state T f0 n tr z_ext root_f0 trace_hash =
     \<lparr>ps_f0_base = f0, ps_f_layers = [map (from_fp T) f0], ps_s_layers = [], ps_q_layers = [],
      ps_fz_layers = [], ps_layers = [], ps_omega_layers = [], ps_z_ext = z_ext,
      ps_alpha_layers = [], ps_root_f0 = root_f0, ps_trace_hash = trace_hash,
      ps_coeff_tuples = None, ps_coeff_root = None, ps_beta_deg = None, ps_coset_evals = [],
      ps_z_per_layer = [], ps_interp_coeffs = [], ps_tr = tr, ps_z_current = z_ext, ps_cur_size = n\<rparr>"

definition use_coeff_commit :: "deep_fri_params \<Rightarrow> bool" where
  "use_coeff_commit prm \<longleftrightarrow> coeff_commit_final prm \<and> schedule prm \<noteq> []"

definition fri_build_transcript ::
    "hasher \<Rightarrow> ('f :: field, 'e :: field) tower \<Rightarrow> 'f list \<Rightarrow> nat \<Rightarrow> deep_fri_params \<Rightarrow>
     ('f, 'e) fri_prover_state option" where
  "fri_build_transcript h T f0 n prm = do {
     (_, root_f0) \<leftarrow> f0_tree h T prm n f0;
     let tr = start_transcript T prm n root_f0;
     z_ext \<leftarrow> challenge_ext h T tr (ascii ''z_fp3'');
     let trace_hash = transcript_challenge_hash h tr (ascii ''FRI/seed'');
     let st = initial_state T f0 n tr z_ext root_f0 trace_hash;
     st \<leftarrow> normal_layers h T (stir prm) 0
       (if use_coeff_commit prm then butlast (schedule prm) else schedule prm) st;
     st \<leftarrow> (if use_coeff_commit prm
       then coeff_layer h T (stir prm) (length (schedule prm) - 1) (last (schedule prm)) st else Some st);
     Some (st\<lparr>ps_s_layers := ps_s_layers st @ [replicate (length (last (ps_f_layers st))) 0]\<rparr>) }"

section \<open>Queries\<close>

definition query_refs :: "nat list \<Rightarrow> nat list \<Rightarrow> nat \<Rightarrow> layer_query_ref list" where
  "query_refs ms nns i0 = map2 (\<lambda>i (m, nn). \<lparr>qr_i = i, qr_child_pos = i mod m,
     qr_parent_index = i mod nn, qr_parent_pos = 0\<rparr>) (layer_positions i0 nns) (zip ms nns)"

text \<open>The sizes \<open>n_next\<close> after each layer.\<close>

definition next_sizes :: "('f, 'e) fri_prover_state \<Rightarrow> nat list \<Rightarrow> nat list" where
  "next_sizes st ms = map2 (\<lambda>l m. fl_n l div m) (ps_layers st) ms"

definition first_size :: "('f, 'e) fri_prover_state \<Rightarrow> nat" where
  "first_size st = (case ps_layers st of [] \<Rightarrow> 0 | l # _ \<Rightarrow> fl_n l)"

definition layer_tree ::
    "hasher \<Rightarrow> ('f, 'e) tower \<Rightarrow> ('f, 'e) fri_prover_state \<Rightarrow> nat \<Rightarrow> (merkle_tree \<times> bytes) option" where
  "layer_tree h T st ell =
     (let l = ps_layers st ! ell in push_tree h T (layer_cfg (fl_n l) (fl_m l) ell)
       (layer_rows T False (fl_n l) (ps_f_layers st ! ell) (ps_s_layers st ! ell) (ps_q_layers st ! ell)))"

definition fri_prove_queries ::
    "hasher \<Rightarrow> ('f :: field, 'e) tower \<Rightarrow> ('f, 'e) fri_prover_state \<Rightarrow> nat list \<Rightarrow> nat \<Rightarrow> 'f \<Rightarrow>
     ((layer_query_ref list \<times> nat) list \<times> bytes list \<times> merkle_opening list list \<times> merkle_opening list) option" where
  "fri_prove_queries h T st ms r query_seed = do {
     let nns = next_sizes st ms;
     is \<leftarrow> those (map (query_position h T query_seed (first_size st)) [0..<r]);
     let all_refs = map (\<lambda>i. (query_refs ms nns i, final_position i nns)) is;
     (tree0, _) \<leftarrow> push_tree h T (f0_tree_config (first_size st)) (map (\<lambda>v. [v]) (ps_f0_base st));
     f0_openings \<leftarrow> those (map (\<lambda>(refs, _). nth_opt refs 0 \<bind> (\<lambda>ref. open_full tree0 (qr_i ref))) all_refs);
     layer_proofs \<leftarrow> those (map (\<lambda>ell. do {
         (tree, _) \<leftarrow> layer_tree h T st ell;
         those (map (\<lambda>(refs, _). nth_opt refs ell \<bind> (\<lambda>ref. open_full tree (qr_i ref))) all_refs) })
       [0..<length ms]);
     Some (all_refs, map fl_root (ps_layers st), layer_proofs, f0_openings) }"

definition stir_prove_proximity_query ::
    "hasher \<Rightarrow> ('f :: field, 'e :: field) tower \<Rightarrow> ('f, 'e) fri_prover_state \<Rightarrow> nat \<Rightarrow> merkle_tree \<Rightarrow>
     merkle_tree option \<Rightarrow> 'f \<Rightarrow> nat \<Rightarrow> ('f, 'e) stir_proximity_payload option" where
  "stir_prove_proximity_query h T st m0 tree0 layer1 query_seed q = do {
     let n = first_size st;
     let n_next = n div m0;
     raw_i \<leftarrow> query_position h T query_seed n q;
     let base_index = raw_i mod n_next;
     let fiber_indices = map (\<lambda>j. base_index + j * n_next) [0..<m0];
     f0_opening \<leftarrow> open_full tree0 base_index;
     (f_next_val, layer1_opening) \<leftarrow> (case layer1 of
         None \<Rightarrow> Some (0, None)
       | Some tree \<Rightarrow> do {
           op \<leftarrow> open_full tree base_index;
           f1 \<leftarrow> nth_opt (ps_f_layers st) 1;
           v \<leftarrow> nth_opt f1 base_index;
           Some (v, Some op) });
     Some \<lparr>sq_base_index = base_index, sq_raw_query_index = raw_i, sq_fiber_indices = fiber_indices,
       sq_fiber_f_vals = map ((!) (ps_f0_base st)) fiber_indices, sq_f0_packed_opening = f0_opening,
       sq_f_next_val = f_next_val, sq_layer1_opening = layer1_opening\<rparr> }"

definition stir_prove_proximity_queries ::
    "hasher \<Rightarrow> ('f :: field, 'e :: field) tower \<Rightarrow> ('f, 'e) fri_prover_state \<Rightarrow> nat list \<Rightarrow> nat \<Rightarrow> 'f \<Rightarrow>
     ('f, 'e) stir_proximity_payload list option" where
  "stir_prove_proximity_queries h T st ms n_queries query_seed =
     (if ps_layers st = [] then Some []
      else do {
        let n = first_size st;
        m0 \<leftarrow> nth_opt ms 0;
        guard_opt (m0 \<noteq> 0 \<and> n div m0 * m0 \<le> length (ps_f0_base st));
        (tree0, _) \<leftarrow> push_tree h T (f0_packed_tree_config n m0)
          (map (fibre (ps_f0_base st) m0 (n div m0)) [0..<n div m0]);
        layer1 \<leftarrow> (if length ms \<ge> 2 then do {
            l \<leftarrow> nth_opt (ps_layers st) 1;
            f1 \<leftarrow> nth_opt (ps_f_layers st) 1;
            (tree, _) \<leftarrow> push_tree h T (layer_cfg (fl_n l) (fl_m l) 1) (map (stir_leaf_fields T) f1);
            Some (Some tree) }
          else Some None);
        those (map (stir_prove_proximity_query h T st m0 tree0 layer1 query_seed) [0..<n_queries]) })"

section \<open>The proof\<close>

text \<open>\<open>deep_fri_prove\<close> replays the transcript from the stored values to derive the query seed.\<close>

definition absorbed_values :: "bool \<Rightarrow> ('f, 'e) fri_prover_state \<Rightarrow> 'e list list" where
  "absorbed_values use_stir st = (if use_stir then ps_coset_evals st else map (\<lambda>v. [v]) (ps_fz_layers st))"

definition query_seed_of ::
    "hasher \<Rightarrow> ('f :: field, 'e :: field) tower \<Rightarrow> deep_fri_params \<Rightarrow> nat \<Rightarrow> ('f, 'e) fri_prover_state \<Rightarrow>
     'e list \<Rightarrow> 'f option" where
  "query_seed_of h T prm n st final_coeffs = do {
     let tr = start_transcript T prm n (ps_root_f0 st);
     let tr = fold (\<lambda>(evs, l). absorb_layer T evs (fl_root l)) (zip (absorbed_values (stir prm) st) (ps_layers st)) tr;
     tr \<leftarrow> (if use_coeff_commit prm then map_option (\<lambda>r. absorb_bytes r tr) (ps_coeff_root st) else Some tr);
     Some (safe_field_challenge h T (fold (absorb_ext T) final_coeffs tr) (ascii ''query_seed'')) }"

definition layer_payload :: "('f, 'e :: field) fri_prover_state \<Rightarrow> nat \<Rightarrow> nat \<Rightarrow> 'e layer_open_payload" where
  "layer_payload st ell i =
     \<lparr>lp_f_val = ps_f_layers st ! ell ! i, lp_s_val = ps_s_layers st ! ell ! i,
      lp_q_val = (if ps_q_layers st ! ell = [] then 0 else ps_q_layers st ! ell ! i)\<rparr>"

definition query_payloads ::
    "('f, 'e :: field) fri_prover_state \<Rightarrow> (layer_query_ref list \<times> nat) list \<Rightarrow> merkle_opening list \<Rightarrow>
     'e fri_query_payload list" where
  "query_payloads st all_refs f0_openings = map2 (\<lambda>(refs, final) op.
     \<lparr>qp_refs = refs, qp_payloads = map (\<lambda>(ell, ref). layer_payload st ell (qr_i ref)) (enumerate 0 refs),
      qp_f0_opening = op, qp_final_index = final\<rparr>) all_refs f0_openings"

definition deep_fri_prove ::
    "hasher \<Rightarrow> ('f :: field, 'e :: field) tower \<Rightarrow> 'f list \<Rightarrow> 'f \<Rightarrow> nat \<Rightarrow> deep_fri_params \<Rightarrow>
     ('f, 'e) deep_fri_proof option" where
  "deep_fri_prove h T f0 omega0 n prm = do {
     st \<leftarrow> fri_build_transcript h T f0 n prm;
     final_evals \<leftarrow> nth_opt (ps_f_layers st) (length (schedule prm));
     all_coeffs \<leftarrow> ext_evals_to_coeffs T final_evals;
     let final_coeffs = take (d_final prm) all_coeffs;
     query_seed \<leftarrow> query_seed_of h T prm n st final_coeffs;
     (queries, roots, layer_proofs, f0_openings, proximity) \<leftarrow>
       (if stir prm then do {
          prox \<leftarrow> stir_prove_proximity_queries h T st (schedule prm) (s0 prm) query_seed;
          Some ([], map fl_root (ps_layers st), [], [], Some prox) }
        else do {
          (refs, roots, layer_proofs, f0_openings) \<leftarrow>
            fri_prove_queries h T st (schedule prm) (num_queries prm) query_seed;
          Some (query_payloads st refs f0_openings, roots, layer_proofs, f0_openings, None) });
     Some \<lparr>pf_root_f0 = ps_root_f0 st, pf_roots = roots, pf_layer_proofs = layer_proofs,
       pf_f0_openings = f0_openings, pf_queries = queries, pf_fz_per_layer = ps_fz_layers st,
       pf_final_poly_coeffs = final_coeffs, pf_n0 = n, pf_omega0 = omega0,
       pf_coeff_tuples = ps_coeff_tuples st, pf_coeff_root = ps_coeff_root st,
       pf_stir_coset_evals = (if stir prm then Some (ps_coset_evals st) else None),
       pf_stir_queries = proximity\<rparr> }"

end
