(* ===== verification/Fri_Verifier.thy ===== *)
theory Fri_Verifier
  imports Fri_Prover
begin

text \<open>
  The verifier \<open>deep_fri_verify\<close> of \<open>deep_ali/src/fri.rs\<close>.  Its value is \<open>None\<close> where the code
  panics (an index past a list of the proof, an \<open>unwrap\<close> of an absent part), \<open>Some False\<close> where it
  returns \<open>false\<close>; the checks run in the order of the code.
\<close>

section \<open>Checks in sequence\<close>

definition ensure_ok :: "bool \<Rightarrow> bool option \<Rightarrow> bool option" where
  "ensure_ok b rest = (if b then rest else Some False)"

definition andalso :: "bool option \<Rightarrow> bool option \<Rightarrow> bool option" where
  "andalso a b = (case a of None \<Rightarrow> None | Some v \<Rightarrow> ensure_ok v b)"

fun all_opt :: "('a \<Rightarrow> bool option) \<Rightarrow> 'a list \<Rightarrow> bool option" where
  "all_opt p [] = Some True"
| "all_opt p (x # xs) = andalso (p x) (all_opt p xs)"

lemma andalso_True [simp]: "andalso a b = Some True \<longleftrightarrow> a = Some True \<and> b = Some True"
  by (cases a) (auto simp: andalso_def ensure_ok_def)

lemma ensure_ok_True [simp]: "ensure_ok b r = Some True \<longleftrightarrow> b \<and> r = Some True"
  by (simp add: ensure_ok_def)

lemma all_opt_True: "all_opt p xs = Some True \<longleftrightarrow> (\<forall>x \<in> set xs. p x = Some True)"
  by (induction xs) auto

section \<open>Replaying the transcript\<close>

record 'e replay =
  rp_tr :: transcript
  rp_z_current :: 'e
  rp_alphas :: "'e list"
  rp_interps :: "'e list list"

definition coset_evals_of :: "('f, 'e) deep_fri_proof \<Rightarrow> nat \<Rightarrow> 'e list option" where
  "coset_evals_of pf ell = pf_stir_coset_evals pf \<bind> (\<lambda>evs. nth_opt evs ell)"

text \<open>What a layer absorbs before its root, with the next \<open>z_current\<close> and the interpolant.\<close>

definition replay_values ::
    "('f :: field, 'e :: field) tower \<Rightarrow> bool \<Rightarrow> nat list \<Rightarrow> ('f, 'e) deep_fri_proof \<Rightarrow> nat \<Rightarrow> nat \<Rightarrow> 'e \<Rightarrow>
     ('e list \<times> 'e \<times> 'e list list) option" where
  "replay_values T use_stir sizes pf ell m z_current =
     (if use_stir then do {
        coset_evals \<leftarrow> coset_evals_of pf ell;
        n \<leftarrow> nth_opt sizes ell;
        omega \<leftarrow> group_gen T n;
        interp \<leftarrow> interpolate_stir_coset T coset_evals z_current (omega ^ (n div m)) m;
        Some (coset_evals, ext_pow z_current m, [interp]) }
      else do {
        fz \<leftarrow> nth_opt (pf_fz_per_layer pf) ell;
        Some ([fz], z_current, []) })"

definition replay_layer ::
    "hasher \<Rightarrow> ('f :: field, 'e :: field) tower \<Rightarrow> bool \<Rightarrow> nat list \<Rightarrow> ('f, 'e) deep_fri_proof \<Rightarrow> nat \<Rightarrow> nat \<Rightarrow>
     'e replay \<Rightarrow> 'e replay option" where
  "replay_layer h T use_stir sizes pf ell m rp = do {
     alpha \<leftarrow> challenge_ext h T (rp_tr rp) (ascii ''alpha'');
     (evs, z', interps) \<leftarrow> replay_values T use_stir sizes pf ell m (rp_z_current rp);
     root \<leftarrow> nth_opt (pf_roots pf) ell;
     Some \<lparr>rp_tr = absorb_layer T evs root (rp_tr rp), rp_z_current = z',
       rp_alphas = rp_alphas rp @ [alpha], rp_interps = rp_interps rp @ interps\<rparr> }"

fun replay_layers ::
    "hasher \<Rightarrow> ('f :: field, 'e :: field) tower \<Rightarrow> bool \<Rightarrow> nat list \<Rightarrow> ('f, 'e) deep_fri_proof \<Rightarrow> nat \<Rightarrow>
     nat list \<Rightarrow> 'e replay \<Rightarrow> 'e replay option" where
  "replay_layers h T use_stir sizes pf ell [] rp = Some rp"
| "replay_layers h T use_stir sizes pf ell (m # ms) rp =
     replay_layer h T use_stir sizes pf ell m rp \<bind> replay_layers h T use_stir sizes pf (Suc ell) ms"

definition replay_coeff_layer ::
    "hasher \<Rightarrow> ('f :: field, 'e :: field) tower \<Rightarrow> bool \<Rightarrow> nat list \<Rightarrow> ('f, 'e) deep_fri_proof \<Rightarrow> nat \<Rightarrow> nat \<Rightarrow>
     'e replay \<Rightarrow> ('e replay \<times> 'e) option" where
  "replay_coeff_layer h T use_stir sizes pf ell m rp = do {
     (evs, z', interps) \<leftarrow> replay_values T use_stir sizes pf ell m (rp_z_current rp);
     root \<leftarrow> nth_opt (pf_roots pf) ell;
     coeff_root \<leftarrow> pf_coeff_root pf;
     let tr = absorb_bytes coeff_root (absorb_layer T evs root (rp_tr rp));
     alpha \<leftarrow> challenge_ext h T tr (ascii ''alpha'');
     beta_deg \<leftarrow> challenge_ext h T tr (ascii ''beta_deg'');
     Some (\<lparr>rp_tr = tr, rp_z_current = z', rp_alphas = rp_alphas rp @ [alpha],
       rp_interps = rp_interps rp @ interps\<rparr>, beta_deg) }"

text \<open>The challenges: \<open>z_ext\<close>, the replay, \<open>beta_deg\<close>, the query seed.\<close>

definition replay_transcript ::
    "hasher \<Rightarrow> ('f :: field, 'e :: field) tower \<Rightarrow> deep_fri_params \<Rightarrow> nat list \<Rightarrow> ('f, 'e) deep_fri_proof \<Rightarrow>
     ('e \<times> 'e replay \<times> 'e option \<times> 'f) option" where
  "replay_transcript h T prm sizes pf = do {
     let tr = start_transcript T prm (pf_n0 pf) (pf_root_f0 pf);
     z_ext \<leftarrow> challenge_ext h T tr (ascii ''z_fp3'');
     rp \<leftarrow> replay_layers h T (stir prm) sizes pf 0
       (if use_coeff_commit prm then butlast (schedule prm) else schedule prm)
       \<lparr>rp_tr = tr, rp_z_current = z_ext, rp_alphas = [], rp_interps = []\<rparr>;
     (rp, beta) \<leftarrow> (if use_coeff_commit prm
       then map_option (\<lambda>(rp, b). (rp, Some b))
         (replay_coeff_layer h T (stir prm) sizes pf (length (schedule prm) - 1) (last (schedule prm)) rp)
       else Some (rp, None));
     Some (z_ext, rp, beta,
       safe_field_challenge h T (fold (absorb_ext T) (pf_final_poly_coeffs pf) (rp_tr rp)) (ascii ''query_seed'')) }"

section \<open>Checks on the layers\<close>

definition ood_fold_check ::
    "deep_fri_params \<Rightarrow> ('f, 'e :: field) deep_fri_proof \<Rightarrow> 'e \<Rightarrow> 'e replay \<Rightarrow> nat \<Rightarrow> bool option" where
  "ood_fold_check prm pf z_ext rp ell = do {
     let alpha_pows = build_ext_pows (rp_alphas rp ! ell) (schedule prm ! ell);
     let fold_at_ood = dot (rp_interps rp ! ell) alpha_pows;
     expected \<leftarrow> (if Suc ell < length (schedule prm)
       then coset_evals_of pf (Suc ell) \<bind> (\<lambda>evs. nth_opt evs 0)
       else Some (eval_final_poly_ext (pf_final_poly_coeffs pf) (fold (\<lambda>m z. ext_pow z m) (schedule prm) z_ext)));
     Some (fold_at_ood = expected) }"

definition coeff_check ::
    "hasher \<Rightarrow> ('f :: field, 'e :: field) tower \<Rightarrow> deep_fri_params \<Rightarrow> nat list \<Rightarrow> ('f, 'e) deep_fri_proof \<Rightarrow>
     'e option \<Rightarrow> bool option" where
  "coeff_check h T prm sizes pf beta_deg =
     (case pf_coeff_tuples pf of None \<Rightarrow> Some False
      | Some coeff_tuples \<Rightarrow>
          ensure_ok (length coeff_tuples = last sizes)
          (ensure_ok (\<forall>t \<in> set coeff_tuples. length t = last (schedule prm)) (do {
             (_, recomputed_root) \<leftarrow> bulk_tree h T (coeff_tree_config (last sizes)) (map (coeff_leaf_fields T) coeff_tuples);
             coeff_root \<leftarrow> pf_coeff_root pf;
             ensure_ok (recomputed_root = coeff_root) (do {
               beta \<leftarrow> beta_deg;
               batched_degree_check_ext T coeff_tuples beta (d_final prm) }) })))"

text \<open>An opening against a root, with its index and the leaf recomputed from the claimed values.\<close>

definition opening_check ::
    "hasher \<Rightarrow> ('f, 'e) tower \<Rightarrow> merkle_cfg \<Rightarrow> bytes \<Rightarrow> merkle_opening \<Rightarrow> nat \<Rightarrow> 'f list \<Rightarrow> bool option" where
  "opening_check h T cfg root op i vals =
     andalso (verify_opening h cfg root op)
     (ensure_ok (mo_index op = i) (do {
        expected_leaf \<leftarrow> compute_leaf_hash h (elem_bytes T) cfg (mo_index op) vals;
        Some (expected_leaf = mo_leaf op) }))"

section \<open>STIR proximity queries\<close>

definition stir_query_check ::
    "hasher \<Rightarrow> ('f :: field, 'e :: field) tower \<Rightarrow> deep_fri_params \<Rightarrow> nat list \<Rightarrow> ('f, 'e) deep_fri_proof \<Rightarrow>
     'e replay \<Rightarrow> 'f \<Rightarrow> 'f \<Rightarrow> 'f \<Rightarrow> nat \<Rightarrow> ('f, 'e) stir_proximity_payload \<Rightarrow> bool option" where
  "stir_query_check h T prm sizes pf rp query_seed omega_0 omega_final qi pq = do {
     let m0 = schedule prm ! 0;
     let n_next = sizes ! 0 div m0;
     expected_raw \<leftarrow> query_position h T query_seed (pf_n0 pf) qi;
     ensure_ok (sq_raw_query_index pq = expected_raw) (
       let base_index = expected_raw mod n_next in
     ensure_ok (sq_base_index pq = base_index) (
     ensure_ok (length (sq_fiber_indices pq) = m0 \<and> length (sq_fiber_f_vals pq) = m0) (
     ensure_ok (sq_fiber_indices pq = map (\<lambda>j. base_index + j * n_next) [0..<m0]) (
     andalso (opening_check h T (f0_packed_tree_config (pf_n0 pf) m0) (pf_root_f0 pf)
       (sq_f0_packed_opening pq) base_index (sq_fiber_f_vals pq)) (do {
     coeff_tuple \<leftarrow> interpolate_coset_ext T (map (from_fp T) (sq_fiber_f_vals pq))
       (omega_0 ^ base_index) (omega_0 ^ n_next) m0;
     let fold_val = dot coeff_tuple (build_ext_pows (rp_alphas rp ! 0) m0);
     if length (schedule prm) \<ge> 2 then
       (case sq_layer1_opening pq of None \<Rightarrow> Some False
        | Some layer1_opening \<Rightarrow> do {
            root \<leftarrow> nth_opt (pf_roots pf) 1;
            andalso (opening_check h T (layer_cfg (sizes ! 1) (schedule prm ! 1) 1) root layer1_opening
              base_index (stir_leaf_fields T (sq_f_next_val pq)))
            (Some (fold_val = sq_f_next_val pq)) })
     else Some (fold_val = eval_final_poly_ext (pf_final_poly_coeffs pf) (from_fp T (omega_final ^ base_index))) }))))) }"

definition stir_check ::
    "hasher \<Rightarrow> ('f :: field, 'e :: field) tower \<Rightarrow> deep_fri_params \<Rightarrow> nat list \<Rightarrow> ('f, 'e) deep_fri_proof \<Rightarrow>
     'e replay \<Rightarrow> 'f \<Rightarrow> 'f list \<Rightarrow> 'f \<Rightarrow> bool option" where
  "stir_check h T prm sizes pf rp query_seed omegas omega_final =
     (case pf_stir_queries pf of None \<Rightarrow> Some False
      | Some prox_queries \<Rightarrow>
          ensure_ok (length prox_queries = s0 prm) (do {
            omega_0 \<leftarrow> nth_opt omegas 0;
            all_opt (\<lambda>(qi, pq). stir_query_check h T prm sizes pf rp query_seed omega_0 omega_final qi pq)
              (enumerate 0 prox_queries) }))"

section \<open>Classic queries\<close>

definition positions_check :: "'e fri_query_payload \<Rightarrow> nat list \<Rightarrow> bool option" where
  "positions_check qp positions =
     all_opt (\<lambda>(ell, expected). do { ref \<leftarrow> nth_opt (qp_refs qp) ell; Some (qr_i ref = expected) })
       (enumerate 0 positions)"

definition f0_check ::
    "hasher \<Rightarrow> ('f :: field, 'e) tower \<Rightarrow> ('f, 'e) deep_fri_proof \<Rightarrow> 'e fri_query_payload \<Rightarrow> nat \<Rightarrow> bool option" where
  "f0_check h T pf qp expected_i0 =
     (let cfg = f0_tree_config (pf_n0 pf); op = qp_f0_opening qp in
      andalso (verify_opening h cfg (pf_root_f0 pf) op) (do {
        pay0 \<leftarrow> nth_opt (qp_payloads qp) 0;
        c0 \<leftarrow> nth_opt (to_fp_components T (lp_f_val pay0)) 0;
        ensure_ok (\<forall>c \<in> set (tl (to_fp_components T (lp_f_val pay0))). c = 0) (do {
          leaf \<leftarrow> compute_leaf_hash h (elem_bytes T) cfg (mo_index op) [c0];
          ensure_ok (leaf = mo_leaf op) (Some (mo_index op = expected_i0)) }) }))"

text \<open>The last layer against the committed coefficients, the others against the next layer.\<close>

definition coeff_consistency ::
    "('f :: field, 'e :: field) tower \<Rightarrow> deep_fri_params \<Rightarrow> ('f, 'e) deep_fri_proof \<Rightarrow> 'e replay \<Rightarrow> 'f \<Rightarrow>
     'f \<Rightarrow> 'e fri_query_payload \<Rightarrow> layer_query_ref \<Rightarrow> 'e layer_open_payload \<Rightarrow> bool option" where
  "coeff_consistency T prm pf rp omega_ell omega_final qp ref pay = do {
     let m = last (schedule prm);
     coeff_tuples \<leftarrow> pf_coeff_tuples pf;
     coeff_tuple \<leftarrow> nth_opt coeff_tuples (qp_final_index qp);
     guard_opt (m \<le> length coeff_tuple);
     let h_star = dot (take m coeff_tuple) (map (from_fp T) (build_ext_pows (omega_ell ^ qr_i ref) m));
     ensure_ok (lp_f_val pay = h_star) (
       Some (dot (take m coeff_tuple) (build_ext_pows (last (rp_alphas rp)) m) =
         eval_final_poly_ext (pf_final_poly_coeffs pf) (from_fp T (omega_final ^ qp_final_index qp)))) }"

definition fold_consistency ::
    "('f :: field, 'e :: field) tower \<Rightarrow> deep_fri_params \<Rightarrow> ('f, 'e) deep_fri_proof \<Rightarrow> 'f \<Rightarrow>
     'e fri_query_payload \<Rightarrow> nat \<Rightarrow> 'e layer_open_payload \<Rightarrow> bool option" where
  "fold_consistency T prm pf omega_final qp ell pay = do {
     f_next \<leftarrow> (if Suc ell < length (schedule prm) then map_option lp_f_val (nth_opt (qp_payloads qp) (Suc ell))
       else Some (eval_final_poly_ext (pf_final_poly_coeffs pf) (from_fp T (omega_final ^ qp_final_index qp))));
     Some (lp_s_val pay = f_next) }"

definition layer_check ::
    "hasher \<Rightarrow> ('f :: field, 'e :: field) tower \<Rightarrow> deep_fri_params \<Rightarrow> nat list \<Rightarrow> ('f, 'e) deep_fri_proof \<Rightarrow>
     'e replay \<Rightarrow> 'e \<Rightarrow> 'f list \<Rightarrow> 'f \<Rightarrow> nat \<Rightarrow> 'e fri_query_payload \<Rightarrow> nat \<Rightarrow> bool option" where
  "layer_check h T prm sizes pf rp z_ext omegas omega_final q qp ell = do {
     openings \<leftarrow> nth_opt (pf_layer_proofs pf) ell;
     opening \<leftarrow> nth_opt openings q;
     ref \<leftarrow> nth_opt (qp_refs qp) ell;
     pay \<leftarrow> nth_opt (qp_payloads qp) ell;
     root \<leftarrow> nth_opt (pf_roots pf) ell;
     andalso (opening_check h T (layer_cfg (sizes ! ell) (schedule prm ! ell) ell) root opening (qr_i ref)
       (ext_leaf_fields T (lp_f_val pay) (lp_s_val pay) (lp_q_val pay))) (do {
     let x_i = from_fp T (omegas ! ell ^ qr_i ref);
     fz \<leftarrow> nth_opt (pf_fz_per_layer pf) ell;
     ensure_ok (lp_q_val pay * (x_i - z_ext) = lp_f_val pay - fz) (
       if ell = length (schedule prm) - 1 \<and> use_coeff_commit prm
       then coeff_consistency T prm pf rp (omegas ! ell) omega_final qp ref pay
       else fold_consistency T prm pf omega_final qp ell pay) }) }"

definition classic_query_check ::
    "hasher \<Rightarrow> ('f :: field, 'e :: field) tower \<Rightarrow> deep_fri_params \<Rightarrow> nat list \<Rightarrow> ('f, 'e) deep_fri_proof \<Rightarrow>
     'e replay \<Rightarrow> 'e \<Rightarrow> 'f \<Rightarrow> 'f list \<Rightarrow> 'f \<Rightarrow> nat \<Rightarrow> bool option" where
  "classic_query_check h T prm sizes pf rp z_ext query_seed omegas omega_final q = do {
     qp \<leftarrow> nth_opt (pf_queries pf) q;
     expected_i0 \<leftarrow> query_position h T query_seed (pf_n0 pf) q;
     let nns = map2 (div) sizes (schedule prm);
     andalso (positions_check qp (layer_positions expected_i0 nns)) (
     ensure_ok (qp_final_index qp = final_position expected_i0 nns) (
     andalso (f0_check h T pf qp expected_i0) (
       all_opt (layer_check h T prm sizes pf rp z_ext omegas omega_final q qp) [0..<length (schedule prm)]))) }"

section \<open>The verifier\<close>

definition deep_fri_verify ::
    "hasher \<Rightarrow> ('f :: field, 'e :: field) tower \<Rightarrow> deep_fri_params \<Rightarrow> ('f, 'e) deep_fri_proof \<Rightarrow> bool option" where
  "deep_fri_verify h T prm pf = do {
     sizes \<leftarrow> layer_sizes_from_schedule (pf_n0 pf) (schedule prm);
     (z_ext, rp, beta_deg, query_seed) \<leftarrow> replay_transcript h T prm sizes pf;
     ensure_ok (length (pf_final_poly_coeffs pf) = d_final prm) (
     andalso (if stir prm then all_opt (ood_fold_check prm pf z_ext rp) [0..<length (schedule prm)] else Some True) (
     andalso (if use_coeff_commit prm then coeff_check h T prm sizes pf beta_deg else Some True) (do {
     omegas \<leftarrow> those (map (group_gen T) (take (length (schedule prm)) sizes));
     omega_final \<leftarrow> (if last sizes \<ge> 2 then group_gen T (last sizes) else Some 1);
     if stir prm then stir_check h T prm sizes pf rp query_seed omegas omega_final
     else all_opt (classic_query_check h T prm sizes pf rp z_ext query_seed omegas omega_final)
       [0..<num_queries prm] }))) }"

end
