(* ===== verification/Fri_Run.thy ===== *)
theory Fri_Run
  imports Fri_Interp Fri_Verifier
begin

text \<open>
  An honest run of the prover as the list of its layers: what each layer computes is defined for
  every word of evaluations, the prover appends exactly these layers to its state, and the
  verifier's replay of the transcript meets the same challenges.
\<close>

section \<open>Trees\<close>

lemma merkle_depth_loop_ge: "depth \<le> merkle_depth_loop cur a depth"
proof (induction cur a depth rule: merkle_depth_loop.induct)
  case (1 cur a depth)
  then show ?case by (subst merkle_depth_loop.simps) (auto dest: Suc_leD)
qed

lemma merkle_depth_loop_bound:
  "2 \<le> a \<Longrightarrow> 0 < depth \<Longrightarrow> cur * a ^ (depth - 1) \<le> a ^ merkle_depth_loop cur a depth"
proof (induction cur a depth rule: merkle_depth_loop.induct)
  case (1 cur a depth)
  show ?case
  proof (cases "cur > a")
    case True
    let ?c = "(cur + a - 1) div a"
    have "cur + a - 1 = a * ?c + (cur + a - 1) mod a" by simp
    moreover have "(cur + a - 1) mod a < a" by (rule mod_less_divisor) (use 1(2) in simp)
    ultimately have "cur \<le> a * ?c" by linarith
    then have "cur * a ^ (depth - 1) \<le> a * ?c * a ^ (depth - 1)" by (rule mult_le_mono1)
    also have "\<dots> = ?c * a ^ (Suc depth - 1)" using 1(3) by (cases depth) simp_all
    also have "\<dots> \<le> a ^ merkle_depth_loop ?c a (Suc depth)" using 1 True by blast
    also have "\<dots> = a ^ merkle_depth_loop cur a depth"
      using True 1(2) by (subst (2) merkle_depth_loop.simps) simp
    finally show ?thesis .
  next
    case False
    have "cur * a ^ (depth - 1) \<le> a * a ^ (depth - 1)" using False by (intro mult_le_mono1) simp
    also have "\<dots> = a ^ depth" using 1(3) by (cases depth) simp_all
    finally show ?thesis using False by (subst merkle_depth_loop.simps) simp
  qed
qed

lemma tree_cfg_fits:
  assumes "rows \<noteq> []" "length rows = n"
  shows "cfg_fits (tree_cfg n m label) rows"
proof -
  let ?a = "max (pick_arity_for_layer n m) 2"
  have "prod_list (replicate k x) = x ^ k" for k and x :: nat by (induction k) simp_all
  moreover have "n \<le> ?a ^ merkle_depth n ?a"
    using merkle_depth_loop_bound [of ?a 1 n] by (simp add: merkle_depth_def)
  moreover have "1 \<le> merkle_depth n ?a" unfolding merkle_depth_def by (rule merkle_depth_loop_ge)
  ultimately show ?thesis using assms by (simp add: cfg_fits_def tree_cfg_def Let_def max_def)
qed

lemma push_leaves:
  assumes "layer_arities cfg = a # ars"
  shows "fold (\<lambda>row t. t \<bind> push_leaf h fb row) rows (Some (new_tree cfg)) =
    Some \<lparr>mt_cfg = cfg, mt_skip = 0,
      mt_levels = if rows = [] then [] else [leaf_hashes h fb a (tree_label cfg) rows 0 (length rows)]\<rparr>"
proof (induction rows rule: rev_induct)
  case (snoc r rs)
  have "leaf_hashes h fb a (tree_label cfg) (rs @ [r]) 0 (length rs) = leaf_hashes h fb a (tree_label cfg) rs 0 (length rs)"
    by (simp add: leaf_hashes_def nth_append)
  moreover have "leaf_hashes h fb a (tree_label cfg) (rs @ [r]) 0 (length (rs @ [r])) =
      leaf_hashes h fb a (tree_label cfg) (rs @ [r]) 0 (length rs) @
      [compress_leaf_standalone h fb a (tree_label cfg) (word_of_nat (length rs)) r]"
    by (simp add: leaf_hashes_def)
  ultimately show ?case
    unfolding fold_append comp_apply snoc by (simp add: push_leaf_def assms with_level0_def leaf_hashes_def)
qed (simp add: new_tree_def)

lemma push_tree_bulk:
  assumes "rows \<noteq> []"
  shows "push_tree h T (tree_cfg n m label) rows = bulk_tree h T (tree_cfg n m label) rows"
proof (cases "layer_arities (tree_cfg n m label)")
  case Nil
  obtain r rs where "rows = r # rs" using assms by (cases rows) auto
  moreover have "fold (\<lambda>row t. t \<bind> push_leaf h fb row) rs None = None" for fb :: "'a \<Rightarrow> bytes" and rs
    by (induction rs) simp_all
  ultimately show ?thesis
    using Nil by (simp add: push_tree_def bulk_tree_def commit_values_def push_leaf_def push_leaves_parallel_def new_tree_def)
next
  case (Cons a ars)
  then show ?thesis
    using assms unfolding push_tree_def bulk_tree_def commit_values_def push_leaves [OF Cons]
    by (simp add: push_leaves_parallel_def new_tree_def with_level0_def)
qed

lemma tree_opens:
  assumes "rows \<noteq> []" "length rows = n"
  obtains t r where "bulk_tree h T (tree_cfg n m label) rows = Some (t, r)"
    "\<And>i. i < n \<Longrightarrow> \<exists>op. open_full t i = Some op \<and>
       mo_index op = i \<and> verify_opening h (tree_cfg n m label) r op = Some True \<and>
       compute_leaf_hash h (elem_bytes T) (tree_cfg n m label) i (rows ! i) = Some (mo_leaf op)"
proof -
  from channel.committed_items_open [of "tree_cfg n m label" id rows h "elem_bytes T"]
    tree_cfg_fits [OF assms, of m label]
  obtain t r where "commit_values h (elem_bytes T) (tree_cfg n m label) rows = Some (t, r)"
    "\<forall>i < length rows. \<exists>op. open_full t i = Some op \<and> opens_to h (elem_bytes T) (tree_cfg n m label) (rows ! i) i op r"
    by fastforce
  then show ?thesis
    using assms(2) by (intro that [of t r]) (auto simp: bulk_tree_def opens_to_def)
qed

lemma opening_checkI:
  assumes "mo_index op = i" "verify_opening h cfg r op = Some True"
    "compute_leaf_hash h (elem_bytes T) cfg i vals = Some (mo_leaf op)"
  shows "opening_check h T cfg r op i vals = Some True"
  using assms by (simp add: opening_check_def)

section \<open>One layer\<close>

text \<open>The condition on the challenge: not zero (STIR), not in the domain (classic).\<close>

definition z_ok :: "bool \<Rightarrow> 'e :: field \<Rightarrow> nat \<Rightarrow> 'e \<Rightarrow> bool" where
  "z_ok use_stir z_ext n z = (if use_stir then z \<noteq> 0 else z = z_ext \<and> z ^ n \<noteq> 1)"

lemma power_not_1:
  assumes "(z :: 'e :: field) ^ (m * n) \<noteq> 1"
  shows "z ^ n \<noteq> 1"
  using assms by (metis mult.commute power_mult power_one)

lemma root_power_ne:
  assumes "prim_root w n" "z ^ n \<noteq> (1 :: 'e :: field)"
  shows "w ^ i \<noteq> z"
proof
  assume "w ^ i = z"
  then have "z ^ n = (w ^ n) ^ i" by (metis mult.commute power_mult)
  then show False using assms by (simp add: prim_root_def)
qed

lemma z_ok_next: "z_ok us z_ext (m * n) z \<Longrightarrow> z_ok us z_ext n (if us then ext_pow z m else z)"
  by (auto simp: z_ok_def power_not_1)

lemma layer_values:
  fixes T :: "('f :: field, 'e :: field) tower"
  assumes T: "tower_ok T K" "L + e \<le> K" "0 < L"
    and g: "group_gen T (2 ^ (L + e)) = Some g" "prim_root g (2 ^ (L + e))"
    and ev: "evaluates (from_fp T g) (2 ^ (L + e)) f a" and z: "z_ok us z_ext (2 ^ (L + e)) z"
  shows "\<exists>fz evs q interp. ood_values T us f z_ext z g (2 ^ L) =
      Some (fz, evs, q, interp, if us then ext_pow z (2 ^ L) else z)"
    and "\<exists>tuples. extract_all_coset_coefficients T f g (2 ^ L) = Some tuples \<and>
      length tuples = 2 ^ e \<and> (\<forall>t \<in> set tuples. length t = 2 ^ L) \<and>
      (\<forall>alpha. \<exists>nxt. interpolation_fold_ext tuples alpha = Some nxt \<and>
         evaluates (from_fp T (g ^ 2 ^ L)) (2 ^ e) nxt (fold_coeffs (2 ^ L) alpha a))"
proof -
  show "\<exists>fz evs q interp. ood_values T us f z_ext z g (2 ^ L) =
      Some (fz, evs, q, interp, if us then ext_pow z (2 ^ L) else z)"
  proof (cases us)
    case True
    then have "z \<noteq> 0" using z by (simp add: z_ok_def)
    then show ?thesis
      using True by (simp add: ood_values_def evaluate_ood [OF T g ev] nth_opt_def)
  next
    case False
    have "from_fp T g ^ i \<noteq> z" for i
      by (rule root_power_ne [OF prim_root_from_fp [OF tower_okD(1) [OF T(1)] g(2)]])
        (use z False in \<open>auto simp: z_ok_def\<close>)
    then show ?thesis
      using False z by (simp add: ood_values_def compute_q [OF T(1,2) g ev] z_ok_def)
  qed
  have n: "2 ^ (L + e) = 2 ^ L * (2 :: nat) ^ e" by (simp add: power_add)
  have K: "L \<le> K" using T(2) by simp
  have e0: "0 < (2 :: nat) ^ e" by simp
  let ?t = "map (\<lambda>b. map (rem_coeffs (2 ^ L) (2 ^ e) (from_fp T g ^ (b * 2 ^ L)) a) [0..<2 ^ L]) [0..<2 ^ e]"
  have ex: "extract_all_coset_coefficients T f g (2 ^ L) = Some ?t"
    by (rule extract_fold [OF tower_okD(1,2) [OF T(1)] T(3) K e0 g(2) [unfolded n] ev [unfolded n]])
  have "evaluates (from_fp T (g ^ 2 ^ L)) (2 ^ e)
      (map (\<lambda>b. polyval (fold_coeffs (2 ^ L) alpha a) (2 ^ e) ((from_fp T g ^ 2 ^ L) ^ b)) [0..<2 ^ e])
      (fold_coeffs (2 ^ L) alpha a)" for alpha
    by (simp add: evaluates_def fp_hom_simps [OF tower_okD(1) [OF T(1)]])
  then show "\<exists>tuples. extract_all_coset_coefficients T f g (2 ^ L) = Some tuples \<and>
      length tuples = 2 ^ e \<and> (\<forall>t \<in> set tuples. length t = 2 ^ L) \<and>
      (\<forall>alpha. \<exists>nxt. interpolation_fold_ext tuples alpha = Some nxt \<and>
         evaluates (from_fp T (g ^ 2 ^ L)) (2 ^ e) nxt (fold_coeffs (2 ^ L) alpha a))"
    using fold_tuples [OF e0, of "2 ^ L" "from_fp T g" a] by (intro exI [of _ ?t]) (auto simp: ex)
qed

record ('f, 'e) layer_run =
  lr_n :: nat
  lr_m :: nat
  lr_f :: "'e list"
  lr_a :: "nat \<Rightarrow> 'e"        \<comment> \<open>the coefficients behind \<open>lr_f\<close>\<close>
  lr_z :: 'e
  lr_tr :: transcript
  lr_alpha :: 'e
  lr_omega :: 'f
  lr_fz :: 'e
  lr_evs :: "'e list"
  lr_q :: "'e list"
  lr_interp :: "'e list"
  lr_s :: "'e list"
  lr_root :: bytes
  lr_tuples :: "'e list list"
  lr_next :: "'e list"

definition z_after :: "bool \<Rightarrow> ('f, 'e :: field) layer_run \<Rightarrow> 'e" where
  "z_after us r = (if us then ext_pow (lr_z r) (lr_m r) else lr_z r)"

definition tr_after :: "('f, 'e) tower \<Rightarrow> bool \<Rightarrow> ('f, 'e) layer_run \<Rightarrow> transcript" where
  "tr_after T us r = absorb_layer T (if us then lr_evs r else [lr_fz r]) (lr_root r) (lr_tr r)"

text \<open>What holds of every layer; the transcript and the fold values are those of the other layers.\<close>

definition layer_ok ::
    "hasher \<Rightarrow> ('f :: field, 'e :: field) tower \<Rightarrow> nat \<Rightarrow> bool \<Rightarrow> 'e \<Rightarrow> nat \<Rightarrow> ('f, 'e) layer_run \<Rightarrow> bool" where
  "layer_ok h T K us z_ext ell r \<longleftrightarrow>
     (\<exists>L e. lr_n r = 2 ^ (L + e) \<and> lr_m r = 2 ^ L \<and> 0 < L \<and> L + e \<le> K \<and>
        length (lr_tuples r) = 2 ^ e) \<and>
     group_gen T (lr_n r) = Some (lr_omega r) \<and> prim_root (lr_omega r) (lr_n r) \<and>
     evaluates (from_fp T (lr_omega r)) (lr_n r) (lr_f r) (lr_a r) \<and> z_ok us z_ext (lr_n r) (lr_z r) \<and>
     ood_values T us (lr_f r) z_ext (lr_z r) (lr_omega r) (lr_m r) =
       Some (lr_fz r, lr_evs r, lr_q r, lr_interp r, z_after us r) \<and>
     extract_all_coset_coefficients T (lr_f r) (lr_omega r) (lr_m r) = Some (lr_tuples r) \<and>
     (\<forall>t \<in> set (lr_tuples r). length t = lr_m r) \<and>
     interpolation_fold_ext (lr_tuples r) (lr_alpha r) = Some (lr_next r) \<and>
     map_option snd (bulk_tree h T (layer_cfg (lr_n r) (lr_m r) ell)
       (layer_rows T us (lr_n r) (lr_f r) (lr_s r) (lr_q r))) = Some (lr_root r)"

text \<open>Consecutive layers.\<close>

fun linked ::
    "hasher \<Rightarrow> ('f :: field, 'e :: field) tower \<Rightarrow> nat \<Rightarrow> bool \<Rightarrow> 'e \<Rightarrow> nat \<Rightarrow> nat \<Rightarrow> 'e list \<Rightarrow> (nat \<Rightarrow> 'e) \<Rightarrow> 'e \<Rightarrow>
     ('f, 'e) layer_run list \<Rightarrow> bool" where
  "linked h T K us z_ext ell n f a z [] = True"
| "linked h T K us z_ext ell n f a z (r # rs) \<longleftrightarrow>
     lr_n r = n \<and> lr_f r = f \<and> lr_a r = a \<and> lr_z r = z \<and> layer_ok h T K us z_ext ell r \<and>
     linked h T K us z_ext (Suc ell) (n div lr_m r) (lr_next r) (fold_coeffs (lr_m r) (lr_alpha r) a)
       (z_after us r) rs"

text \<open>The layers before the last: challenges and folded values.\<close>

fun transcribed ::
    "hasher \<Rightarrow> ('f :: field, 'e :: field) tower \<Rightarrow> bool \<Rightarrow> transcript \<Rightarrow> ('f, 'e) layer_run list \<Rightarrow> bool" where
  "transcribed h T us tr [] = True"
| "transcribed h T us tr (r # rs) \<longleftrightarrow>
     lr_tr r = tr \<and> challenge_ext h T tr (ascii ''alpha'') = Some (lr_alpha r) \<and>
     (\<not> us \<longrightarrow> (\<forall>i < lr_n r. lr_s r ! i = lr_next r ! (i mod (lr_n r div lr_m r)))) \<and>
     transcribed h T us (tr_after T us r) rs"

end
