(* ===== verification/Fri_Complete.thy ===== *)
theory Fri_Complete
  imports Fri_Run
begin

text \<open>
  The honest run of the prover of \<open>deep_ali/src/fri.rs\<close> exists for every word and is accepted.
\<close>

section \<open>The state after some layers\<close>

definition add_layer ::
    "('f, 'e) tower \<Rightarrow> bool \<Rightarrow> ('f, 'e :: field) layer_run \<Rightarrow> ('f, 'e) fri_prover_state \<Rightarrow> ('f, 'e) fri_prover_state" where
  "add_layer T us r st = st\<lparr>ps_alpha_layers := ps_alpha_layers st @ [lr_alpha r],
     ps_omega_layers := ps_omega_layers st @ [lr_omega r],
     ps_z_per_layer := ps_z_per_layer st @ (if us then [lr_z r] else []),
     ps_z_current := z_after us r,
     ps_q_layers := ps_q_layers st @ [lr_q r],
     ps_fz_layers := ps_fz_layers st @ [lr_fz r],
     ps_s_layers := ps_s_layers st @ [lr_s r],
     ps_layers := ps_layers st @ [\<lparr>fl_n = lr_n r, fl_m = lr_m r, fl_root = lr_root r\<rparr>],
     ps_coset_evals := ps_coset_evals st @ (if us then [lr_evs r] else []),
     ps_interp_coeffs := ps_interp_coeffs st @ (if us then [lr_interp r] else []),
     ps_tr := tr_after T us r,
     ps_cur_size := lr_n r div lr_m r,
     ps_f_layers := ps_f_layers st @ [lr_next r]\<rparr>"

definition add_layers ::
    "('f, 'e) tower \<Rightarrow> bool \<Rightarrow> ('f, 'e :: field) layer_run list \<Rightarrow> ('f, 'e) fri_prover_state \<Rightarrow> ('f, 'e) fri_prover_state" where
  "add_layers T us rs = fold (add_layer T us) rs"

lemma add_layers_simps [simp]:
  "add_layers T us [] st = st"
  "add_layers T us (r # rs) st = add_layers T us rs (add_layer T us r st)"
  "add_layers T us (rs @ ss) st = add_layers T us ss (add_layers T us rs st)"
  by (simp_all add: add_layers_def)

lemma add_layers_fields:
  "ps_alpha_layers (add_layers T us rs st) = ps_alpha_layers st @ map lr_alpha rs"
  "ps_q_layers (add_layers T us rs st) = ps_q_layers st @ map lr_q rs"
  "ps_fz_layers (add_layers T us rs st) = ps_fz_layers st @ map lr_fz rs"
  "ps_s_layers (add_layers T us rs st) = ps_s_layers st @ map lr_s rs"
  "ps_layers (add_layers T us rs st) = ps_layers st @ map (\<lambda>r. \<lparr>fl_n = lr_n r, fl_m = lr_m r, fl_root = lr_root r\<rparr>) rs"
  "ps_coset_evals (add_layers T us rs st) = ps_coset_evals st @ (if us then map lr_evs rs else [])"
  "ps_f_layers (add_layers T us rs st) = ps_f_layers st @ map lr_next rs"
  "ps_f0_base (add_layers T us rs st) = ps_f0_base st"
  "ps_z_ext (add_layers T us rs st) = ps_z_ext st"
  "ps_root_f0 (add_layers T us rs st) = ps_root_f0 st"
  "ps_coeff_tuples (add_layers T us rs st) = ps_coeff_tuples st"
  "ps_coeff_root (add_layers T us rs st) = ps_coeff_root st"
  by (induction rs arbitrary: st) (simp_all add: add_layer_def)

section \<open>Challenges\<close>

lemma challenge_total:
  assumes "tower_ok T K"
  shows "\<exists>c. challenge_ext h T tr tag = Some c"
  using tower_okD(3) [OF assms] by (auto simp: comps_ok_def challenge_ext_def)

section \<open>Layers exist\<close>

text \<open>The position the prover has reached: the domain size, the word, its coefficients, \<open>z\<close>.\<close>

definition reached ::
    "('f :: field, 'e :: field) tower \<Rightarrow> nat \<Rightarrow> bool \<Rightarrow> nat \<Rightarrow> nat \<Rightarrow> (nat \<Rightarrow> 'e) \<Rightarrow> ('f, 'e) fri_prover_state \<Rightarrow> bool" where
  "reached T K us ell k a st \<longleftrightarrow> k \<le> K \<and> ps_cur_size st = 2 ^ k \<and>
     length (ps_f_layers st) = Suc ell \<and>
     (\<exists>g. group_gen T (2 ^ k) = Some g \<and> evaluates (from_fp T g) (2 ^ k) (ps_f_layers st ! ell) a) \<and>
     z_ok us (ps_z_ext st) (2 ^ k) (ps_z_current st)"

lemma length_layer_rows: "length f = n \<Longrightarrow> length (layer_rows T us n f s q) = n"
  by (simp add: layer_rows_def)

lemma tree_root:
  assumes "length rows = n" "0 < n"
  shows "\<exists>t r. bulk_tree h T (tree_cfg n m label) rows = Some (t, r)"
  using tree_opens [of rows n h T m label] assms by (metis list.size(3) less_irrefl)

text \<open>All of a layer but \<open>alpha\<close>, the folded values and \<open>s\<close>.\<close>

lemma layer_exists:
  fixes T :: "('f :: field, 'e :: field) tower"
  assumes T: "tower_ok T K" and L: "0 < L" and st: "reached T K us ell (L + e) a st"
  shows "\<exists>g fz evs q interp tuples. group_gen T (2 ^ (L + e)) = Some g \<and>
    ood_values T us (ps_f_layers st ! ell) (ps_z_ext st) (ps_z_current st) g (2 ^ L) =
      Some (fz, evs, q, interp, if us then ext_pow (ps_z_current st) (2 ^ L) else ps_z_current st) \<and>
    extract_all_coset_coefficients T (ps_f_layers st ! ell) g (2 ^ L) = Some tuples \<and>
    length tuples = 2 ^ e \<and>
    (\<forall>alpha s. \<exists>nxt t root. interpolation_fold_ext tuples alpha = Some nxt \<and> length nxt = 2 ^ e \<and>
       bulk_tree h T (layer_cfg (2 ^ (L + e)) (2 ^ L) ell)
         (layer_rows T us (2 ^ (L + e)) (ps_f_layers st ! ell) s q) = Some (t, root) \<and>
       (let r = \<lparr>lr_n = 2 ^ (L + e), lr_m = 2 ^ L, lr_f = ps_f_layers st ! ell, lr_a = a,
          lr_z = ps_z_current st, lr_tr = ps_tr st, lr_alpha = alpha, lr_omega = g, lr_fz = fz, lr_evs = evs,
          lr_q = q, lr_interp = interp, lr_s = s, lr_root = root, lr_tuples = tuples, lr_next = nxt\<rparr>
        in layer_ok h T K us (ps_z_ext st) ell r \<and>
           (\<forall>st'. ps_f_layers st' = ps_f_layers st @ [nxt] \<longrightarrow> ps_cur_size st' = 2 ^ e \<longrightarrow>
              ps_z_ext st' = ps_z_ext st \<longrightarrow> ps_z_current st' = z_after us r \<longrightarrow>
              reached T K us (Suc ell) e (fold_coeffs (2 ^ L) alpha a) st')))"
proof -
  let ?n = "2 ^ (L + e) :: nat" and ?f = "ps_f_layers st ! ell" and ?z = "ps_z_current st"
  have Le: "L + e \<le> K" and sz: "length (ps_f_layers st) = Suc ell" and z: "z_ok us (ps_z_ext st) ?n ?z"
    using st by (simp_all add: reached_def)
  obtain g where g: "group_gen T ?n = Some g" "prim_root g ?n" "group_gen T (2 ^ e) = Some (g ^ 2 ^ L)"
    using domain_root [OF T Le] by blast
  have ev: "evaluates (from_fp T g) ?n ?f a" using st g(1) by (auto simp: reached_def)
  from layer_values(1) [OF T Le L g(1,2) ev z] obtain fz evs q interp where
    ood: "ood_values T us ?f (ps_z_ext st) ?z g (2 ^ L) = Some (fz, evs, q, interp, if us then ext_pow ?z (2 ^ L) else ?z)"
    by blast
  from layer_values(2) [OF T Le L g(1,2) ev z] obtain tuples where
    ex: "extract_all_coset_coefficients T ?f g (2 ^ L) = Some tuples" "length tuples = 2 ^ e"
      "\<forall>t \<in> set tuples. length t = 2 ^ L"
    and fold: "\<And>alpha. \<exists>nxt. interpolation_fold_ext tuples alpha = Some nxt \<and>
      evaluates (from_fp T (g ^ 2 ^ L)) (2 ^ e) nxt (fold_coeffs (2 ^ L) alpha a)"
    by blast
  have main: "\<exists>nxt t root. interpolation_fold_ext tuples alpha = Some nxt \<and> length nxt = 2 ^ e \<and>
       bulk_tree h T (layer_cfg ?n (2 ^ L) ell) (layer_rows T us ?n ?f s q) = Some (t, root) \<and>
       (let r = \<lparr>lr_n = ?n, lr_m = 2 ^ L, lr_f = ?f, lr_a = a,
          lr_z = ?z, lr_tr = ps_tr st, lr_alpha = alpha, lr_omega = g, lr_fz = fz, lr_evs = evs,
          lr_q = q, lr_interp = interp, lr_s = s, lr_root = root, lr_tuples = tuples, lr_next = nxt\<rparr>
        in layer_ok h T K us (ps_z_ext st) ell r \<and>
           (\<forall>st'. ps_f_layers st' = ps_f_layers st @ [nxt] \<longrightarrow> ps_cur_size st' = 2 ^ e \<longrightarrow>
              ps_z_ext st' = ps_z_ext st \<longrightarrow> ps_z_current st' = z_after us r \<longrightarrow>
              reached T K us (Suc ell) e (fold_coeffs (2 ^ L) alpha a) st'))"
      for alpha s
  proof -
    obtain nxt where nxt: "interpolation_fold_ext tuples alpha = Some nxt"
      "evaluates (from_fp T (g ^ 2 ^ L)) (2 ^ e) nxt (fold_coeffs (2 ^ L) alpha a)" using fold by blast
    have rows: "length (layer_rows T us ?n ?f s q) = ?n"
      using ev by (simp add: length_layer_rows evaluates_def)
    obtain t root where t: "bulk_tree h T (layer_cfg ?n (2 ^ L) ell) (layer_rows T us ?n ?f s q) = Some (t, root)"
      using tree_root [OF rows, of h T "2 ^ L" "word_of_nat ell"] by (auto simp: layer_cfg_def)
    let ?r = "\<lparr>lr_n = ?n, lr_m = 2 ^ L, lr_f = ?f, lr_a = a,
          lr_z = ?z, lr_tr = ps_tr st, lr_alpha = alpha, lr_omega = g, lr_fz = fz, lr_evs = evs,
          lr_q = q, lr_interp = interp, lr_s = s, lr_root = root, lr_tuples = tuples, lr_next = nxt\<rparr>"
    have after: "z_after us ?r = (if us then ext_pow ?z (2 ^ L) else ?z)" by (simp add: z_after_def)
    have "layer_ok h T K us (ps_z_ext st) ell ?r"
      unfolding layer_ok_def after
      by (intro conjI exI [of _ L] exI [of _ e]) (use g ev z ood ex nxt t Le L in simp_all)
    moreover have "reached T K us (Suc ell) e (fold_coeffs (2 ^ L) alpha a) st'"
      if "ps_f_layers st' = ps_f_layers st @ [nxt]" "ps_cur_size st' = 2 ^ e"
        "ps_z_ext st' = ps_z_ext st" "ps_z_current st' = z_after us ?r" for st' :: "('f, 'e) fri_prover_state"
      using that g(3) nxt(2) sz Le z_ok_next [of us "ps_z_ext st" "2 ^ L" "2 ^ e" ?z] z
      unfolding after by (simp add: reached_def nth_append power_add)
    ultimately show ?thesis
      using nxt t unfolding Let_def by (intro exI [of _ nxt] exI [of _ t] exI [of _ root] conjI allI impI)
        (simp_all add: evaluates_def)
  qed
  show ?thesis using g(1) ood ex(1,2) main by blast
qed


lemma compute_s_layer:
  assumes "interpolation_fold_ext tuples alpha = Some nxt" "length nxt = 2 ^ e"
  shows "compute_s_layer_from_coeffs tuples alpha (2 ^ (L + e)) (2 ^ L) =
    Some (map (\<lambda>i. nxt ! (i mod 2 ^ e)) [0..<2 ^ (L + e)])"
proof -
  have "2 ^ (L + e) div 2 ^ L = (2 :: nat) ^ e" "2 ^ e * 2 ^ L = (2 :: nat) ^ (L + e)"
    by (simp_all add: power_add)
  then show ?thesis using assms by (simp add: compute_s_layer_from_coeffs_def guard_opt_def)
qed

lemma normal_layer_run:
  fixes T :: "('f :: field, 'e :: field) tower"
  assumes T: "tower_ok T K" and L: "0 < L" and st: "reached T K us ell (L + e) a st"
  shows "\<exists>r. normal_layer h T us ell (2 ^ L) st = Some (add_layer T us r st) \<and>
    lr_n r = 2 ^ (L + e) \<and> lr_m r = 2 ^ L \<and> lr_f r = ps_f_layers st ! ell \<and> lr_a r = a \<and>
    lr_z r = ps_z_current st \<and> layer_ok h T K us (ps_z_ext st) ell r \<and>
    transcribed h T us (ps_tr st) [r] \<and> lr_next r = last (ps_f_layers (add_layer T us r st)) \<and>
    reached T K us (Suc ell) e (fold_coeffs (2 ^ L) (lr_alpha r) a) (add_layer T us r st)"
proof -
  obtain alpha where alpha: "challenge_ext h T (ps_tr st) (ascii ''alpha'') = Some alpha"
    using challenge_total [OF T] by blast
  from layer_exists [OF T L st, of h] obtain g fz evs q interp tuples where
    g: "group_gen T (2 ^ (L + e)) = Some g"
      "ood_values T us (ps_f_layers st ! ell) (ps_z_ext st) (ps_z_current st) g (2 ^ L) =
        Some (fz, evs, q, interp, if us then ext_pow (ps_z_current st) (2 ^ L) else ps_z_current st)"
      "extract_all_coset_coefficients T (ps_f_layers st ! ell) g (2 ^ L) = Some tuples"
      "length tuples = 2 ^ e"
    and rest: "\<And>s. \<exists>nxt t root. interpolation_fold_ext tuples alpha = Some nxt \<and> length nxt = 2 ^ e \<and>
       bulk_tree h T (layer_cfg (2 ^ (L + e)) (2 ^ L) ell)
         (layer_rows T us (2 ^ (L + e)) (ps_f_layers st ! ell) s q) = Some (t, root) \<and>
       (let r = \<lparr>lr_n = 2 ^ (L + e), lr_m = 2 ^ L, lr_f = ps_f_layers st ! ell, lr_a = a,
          lr_z = ps_z_current st, lr_tr = ps_tr st, lr_alpha = alpha, lr_omega = g, lr_fz = fz, lr_evs = evs,
          lr_q = q, lr_interp = interp, lr_s = s, lr_root = root, lr_tuples = tuples, lr_next = nxt\<rparr>
        in layer_ok h T K us (ps_z_ext st) ell r \<and>
           (\<forall>st'. ps_f_layers st' = ps_f_layers st @ [nxt] \<longrightarrow> ps_cur_size st' = 2 ^ e \<longrightarrow>
              ps_z_ext st' = ps_z_ext st \<longrightarrow> ps_z_current st' = z_after us r \<longrightarrow>
              reached T K us (Suc ell) e (fold_coeffs (2 ^ L) alpha a) st'))"
    by blast
  from rest obtain nxt where nxt: "interpolation_fold_ext tuples alpha = Some nxt" "length nxt = 2 ^ e" by blast
  define s where "s = (if us then replicate (2 ^ (L + e)) 0 else map (\<lambda>i. nxt ! (i mod 2 ^ e)) [0..<2 ^ (L + e)])"
  have s: "(if us then Some (replicate (2 ^ (L + e)) 0)
      else compute_s_layer_from_coeffs tuples alpha (2 ^ (L + e)) (2 ^ L)) = Some s"
    by (simp add: s_def compute_s_layer [OF nxt])
  from rest [of s] obtain t root where
    t: "bulk_tree h T (layer_cfg (2 ^ (L + e)) (2 ^ L) ell)
         (layer_rows T us (2 ^ (L + e)) (ps_f_layers st ! ell) s q) = Some (t, root)"
    and r: "let r = \<lparr>lr_n = 2 ^ (L + e), lr_m = 2 ^ L, lr_f = ps_f_layers st ! ell, lr_a = a,
          lr_z = ps_z_current st, lr_tr = ps_tr st, lr_alpha = alpha, lr_omega = g, lr_fz = fz, lr_evs = evs,
          lr_q = q, lr_interp = interp, lr_s = s, lr_root = root, lr_tuples = tuples, lr_next = nxt\<rparr>
        in layer_ok h T K us (ps_z_ext st) ell r \<and>
           (\<forall>st'. ps_f_layers st' = ps_f_layers st @ [nxt] \<longrightarrow> ps_cur_size st' = 2 ^ e \<longrightarrow>
              ps_z_ext st' = ps_z_ext st \<longrightarrow> ps_z_current st' = z_after us r \<longrightarrow>
              reached T K us (Suc ell) e (fold_coeffs (2 ^ L) alpha a) st')"
    using nxt by auto
  define r where r_def: "r = \<lparr>lr_n = 2 ^ (L + e), lr_m = 2 ^ L, lr_f = ps_f_layers st ! ell, lr_a = a,
          lr_z = ps_z_current st, lr_tr = ps_tr st, lr_alpha = alpha, lr_omega = g, lr_fz = fz, lr_evs = evs,
          lr_q = q, lr_interp = interp, lr_s = s, lr_root = root, lr_tuples = tuples, lr_next = nxt\<rparr>"
  note r = r [folded r_def, unfolded Let_def]
  have d: "2 ^ (L + e) div 2 ^ L = (2 :: nat) ^ e" by (simp add: power_add)
  have z: "(if us then ext_pow (ps_z_current st) (2 ^ L) else ps_z_current st) = z_after us r"
    by (simp add: z_after_def r_def)
  have len: "nth_opt (ps_f_layers st) ell = Some (ps_f_layers st ! ell)"
    and cur: "ps_cur_size st = 2 ^ (L + e)"
    using st by (simp_all add: reached_def nth_opt_def)
  have "normal_layer h T us ell (2 ^ L) st = Some (add_layer T us r st)"
    by (simp add: normal_layer_def Let_def cur alpha g(1,3) g(2) [unfolded z] len s t nxt(1))
      (simp add: add_layer_def r_def tr_after_def d)
  moreover have "transcribed h T us (ps_tr st) [r]"
    by (simp add: r_def alpha s_def d)
  moreover have "reached T K us (Suc ell) e (fold_coeffs (2 ^ L) (lr_alpha r) a) (add_layer T us r st)"
    using r by (simp add: add_layer_def r_def d)
  ultimately show ?thesis using r by (intro exI [of _ r]) (simp add: r_def add_layer_def)
qed

lemma normal_layers_run:
  fixes T :: "('f :: field, 'e :: field) tower"
  assumes T: "tower_ok T K"
  shows "reached T K us ell (sum_list Ls + e) a st \<Longrightarrow> \<forall>L \<in> set Ls. 0 < L \<Longrightarrow>
    \<exists>rs a'. normal_layers h T us ell (map ((^) 2) Ls) st = Some (add_layers T us rs st) \<and>
      map lr_m rs = map ((^) 2) Ls \<and> transcribed h T us (ps_tr st) rs \<and>
      reached T K us (ell + length Ls) e a' (add_layers T us rs st) \<and>
      (\<forall>rs'. linked h T K us (ps_z_ext st) (ell + length Ls) (2 ^ e)
           (ps_f_layers (add_layers T us rs st) ! (ell + length Ls)) a' (ps_z_current (add_layers T us rs st)) rs' \<longrightarrow>
         linked h T K us (ps_z_ext st) ell (2 ^ (sum_list Ls + e)) (ps_f_layers st ! ell) a (ps_z_current st) (rs @ rs'))"
proof (induction Ls arbitrary: ell a st)
  case Nil
  then show ?case by (intro exI [of _ "[]"] exI [of _ a]) simp
next
  case (Cons L Ls)
  have L: "0 < L" using Cons.prems(2) by simp
  have r0: "reached T K us ell (L + (sum_list Ls + e)) a st" using Cons.prems(1) by (simp add: add.assoc)
  from normal_layer_run [OF T L r0, of h] obtain r where
    r: "normal_layer h T us ell (2 ^ L) st = Some (add_layer T us r st)"
      "lr_n r = 2 ^ (L + (sum_list Ls + e))" "lr_m r = 2 ^ L" "lr_f r = ps_f_layers st ! ell" "lr_a r = a"
      "lr_z r = ps_z_current st" "layer_ok h T K us (ps_z_ext st) ell r" "transcribed h T us (ps_tr st) [r]"
      "reached T K us (Suc ell) (sum_list Ls + e) (fold_coeffs (2 ^ L) (lr_alpha r) a) (add_layer T us r st)"
    by blast
  from Cons.IH [OF r(9)] Cons.prems(2) obtain rs a' where
    rs: "normal_layers h T us (Suc ell) (map ((^) 2) Ls) (add_layer T us r st) = Some (add_layers T us rs (add_layer T us r st))"
      "map lr_m rs = map ((^) 2) Ls" "transcribed h T us (ps_tr (add_layer T us r st)) rs"
      "reached T K us (Suc ell + length Ls) e a' (add_layers T us rs (add_layer T us r st))"
    and link: "\<And>rs'. linked h T K us (ps_z_ext (add_layer T us r st)) (Suc ell + length Ls) (2 ^ e)
           (ps_f_layers (add_layers T us rs (add_layer T us r st)) ! (Suc ell + length Ls)) a'
           (ps_z_current (add_layers T us rs (add_layer T us r st))) rs' \<Longrightarrow>
         linked h T K us (ps_z_ext (add_layer T us r st)) (Suc ell) (2 ^ (sum_list Ls + e))
           (ps_f_layers (add_layer T us r st) ! Suc ell) (fold_coeffs (2 ^ L) (lr_alpha r) a)
           (ps_z_current (add_layer T us r st)) (rs @ rs')"
    by fastforce
  have d: "2 ^ (L + (sum_list Ls + e)) div 2 ^ L = (2 :: nat) ^ (sum_list Ls + e)" by (simp add: power_add)
  have len: "length (ps_f_layers st) = Suc ell" using r0 by (simp add: reached_def)
  have st': "ps_z_ext (add_layer T us r st) = ps_z_ext st" "ps_tr (add_layer T us r st) = tr_after T us r"
    "ps_f_layers (add_layer T us r st) ! Suc ell = lr_next r" "ps_z_current (add_layer T us r st) = z_after us r"
    using len by (simp_all add: add_layer_def nth_append)
  show ?case
  proof (intro exI [of _ "r # rs"] exI [of _ a'] conjI allI impI)
    fix rs'
    assume "linked h T K us (ps_z_ext st) (ell + length (L # Ls)) (2 ^ e)
      (ps_f_layers (add_layers T us (r # rs) st) ! (ell + length (L # Ls))) a'
      (ps_z_current (add_layers T us (r # rs) st)) rs'"
    then have "linked h T K us (ps_z_ext st) (Suc ell) (2 ^ (sum_list Ls + e)) (lr_next r)
        (fold_coeffs (2 ^ L) (lr_alpha r) a) (z_after us r) (rs @ rs')"
      using link [of rs'] by (simp add: st')
    then show "linked h T K us (ps_z_ext st) ell (2 ^ (sum_list (L # Ls) + e)) (ps_f_layers st ! ell) a
        (ps_z_current st) ((r # rs) @ rs')"
      using r d by (simp add: add.assoc)
  qed (use r rs st' in simp_all)
qed


lemma coeff_layer_run:
  fixes T :: "('f :: field, 'e :: field) tower"
  assumes T: "tower_ok T K" and L: "0 < L" and st: "reached T K us ell (L + e) a st"
  shows "\<exists>r cr beta. coeff_layer h T us ell (2 ^ L) st = Some ((add_layer T us r st)
      \<lparr>ps_tr := absorb_bytes cr (tr_after T us r), ps_coeff_tuples := Some (lr_tuples r),
       ps_coeff_root := Some cr, ps_beta_deg := Some beta\<rparr>) \<and>
    lr_n r = 2 ^ (L + e) \<and> lr_m r = 2 ^ L \<and> lr_f r = ps_f_layers st ! ell \<and> lr_a r = a \<and>
    lr_z r = ps_z_current st \<and> lr_tr r = ps_tr st \<and> layer_ok h T K us (ps_z_ext st) ell r \<and>
    map_option snd (bulk_tree h T (coeff_tree_config (2 ^ e)) (map (coeff_leaf_fields T) (lr_tuples r))) = Some cr \<and>
    challenge_ext h T (absorb_bytes cr (tr_after T us r)) (ascii ''alpha'') = Some (lr_alpha r) \<and>
    challenge_ext h T (absorb_bytes cr (tr_after T us r)) (ascii ''beta_deg'') = Some beta \<and>
    reached T K us (Suc ell) e (fold_coeffs (2 ^ L) (lr_alpha r) a) (add_layer T us r st)"
proof -
  define s :: "'e list" where "s = replicate (2 ^ (L + e)) 0"
  from layer_exists [OF T L st, of h] obtain g fz evs q interp tuples where
    g: "group_gen T (2 ^ (L + e)) = Some g"
      "ood_values T us (ps_f_layers st ! ell) (ps_z_ext st) (ps_z_current st) g (2 ^ L) =
        Some (fz, evs, q, interp, if us then ext_pow (ps_z_current st) (2 ^ L) else ps_z_current st)"
      "extract_all_coset_coefficients T (ps_f_layers st ! ell) g (2 ^ L) = Some tuples"
      "length tuples = 2 ^ e"
    and rest: "\<And>alpha. \<exists>nxt t root. interpolation_fold_ext tuples alpha = Some nxt \<and> length nxt = 2 ^ e \<and>
       bulk_tree h T (layer_cfg (2 ^ (L + e)) (2 ^ L) ell)
         (layer_rows T us (2 ^ (L + e)) (ps_f_layers st ! ell) s q) = Some (t, root) \<and>
       (let r = \<lparr>lr_n = 2 ^ (L + e), lr_m = 2 ^ L, lr_f = ps_f_layers st ! ell, lr_a = a,
          lr_z = ps_z_current st, lr_tr = ps_tr st, lr_alpha = alpha, lr_omega = g, lr_fz = fz, lr_evs = evs,
          lr_q = q, lr_interp = interp, lr_s = s, lr_root = root, lr_tuples = tuples, lr_next = nxt\<rparr>
        in layer_ok h T K us (ps_z_ext st) ell r \<and>
           (\<forall>st'. ps_f_layers st' = ps_f_layers st @ [nxt] \<longrightarrow> ps_cur_size st' = 2 ^ e \<longrightarrow>
              ps_z_ext st' = ps_z_ext st \<longrightarrow> ps_z_current st' = z_after us r \<longrightarrow>
              reached T K us (Suc ell) e (fold_coeffs (2 ^ L) alpha a) st'))"
    by blast
  from rest obtain t root where t: "bulk_tree h T (layer_cfg (2 ^ (L + e)) (2 ^ L) ell)
      (layer_rows T us (2 ^ (L + e)) (ps_f_layers st ! ell) s q) = Some (t, root)" by blast
  obtain ct cr where ct: "bulk_tree h T (coeff_tree_config (2 ^ e)) (map (coeff_leaf_fields T) tuples) = Some (ct, cr)"
    using tree_root [of "map (coeff_leaf_fields T) tuples" "2 ^ e" h T 16 "0xFE"] g(4)
    by (auto simp: coeff_tree_config_def)
  let ?tr = "absorb_bytes cr (absorb_layer T (if us then evs else [fz]) root (ps_tr st))"
  obtain alpha where alpha: "challenge_ext h T ?tr (ascii ''alpha'') = Some alpha"
    using challenge_total [OF T] by blast
  obtain beta where beta: "challenge_ext h T ?tr (ascii ''beta_deg'') = Some beta"
    using challenge_total [OF T] by blast
  from rest [of alpha] t obtain nxt where nxt: "interpolation_fold_ext tuples alpha = Some nxt" "length nxt = 2 ^ e"
    and r: "let r = \<lparr>lr_n = 2 ^ (L + e), lr_m = 2 ^ L, lr_f = ps_f_layers st ! ell, lr_a = a,
          lr_z = ps_z_current st, lr_tr = ps_tr st, lr_alpha = alpha, lr_omega = g, lr_fz = fz, lr_evs = evs,
          lr_q = q, lr_interp = interp, lr_s = s, lr_root = root, lr_tuples = tuples, lr_next = nxt\<rparr>
        in layer_ok h T K us (ps_z_ext st) ell r \<and>
           (\<forall>st'. ps_f_layers st' = ps_f_layers st @ [nxt] \<longrightarrow> ps_cur_size st' = 2 ^ e \<longrightarrow>
              ps_z_ext st' = ps_z_ext st \<longrightarrow> ps_z_current st' = z_after us r \<longrightarrow>
              reached T K us (Suc ell) e (fold_coeffs (2 ^ L) alpha a) st')"
    by auto
  define r where r_def: "r = \<lparr>lr_n = 2 ^ (L + e), lr_m = 2 ^ L, lr_f = ps_f_layers st ! ell, lr_a = a,
          lr_z = ps_z_current st, lr_tr = ps_tr st, lr_alpha = alpha, lr_omega = g, lr_fz = fz, lr_evs = evs,
          lr_q = q, lr_interp = interp, lr_s = s, lr_root = root, lr_tuples = tuples, lr_next = nxt\<rparr>"
  note r = r [folded r_def, unfolded Let_def]
  have d: "2 ^ (L + e) div 2 ^ L = (2 :: nat) ^ e" by (simp add: power_add)
  have z: "(if us then ext_pow (ps_z_current st) (2 ^ L) else ps_z_current st) = z_after us r"
    by (simp add: z_after_def r_def)
  have len: "nth_opt (ps_f_layers st) ell = Some (ps_f_layers st ! ell)"
    and cur: "ps_cur_size st = 2 ^ (L + e)"
    using st by (simp_all add: reached_def nth_opt_def)
  have tr: "?tr = absorb_bytes cr (tr_after T us r)" by (simp add: tr_after_def r_def)
  have "coeff_layer h T us ell (2 ^ L) st = Some ((add_layer T us r st)
      \<lparr>ps_tr := absorb_bytes cr (tr_after T us r), ps_coeff_tuples := Some (lr_tuples r),
       ps_coeff_root := Some cr, ps_beta_deg := Some beta\<rparr>)"
    by (simp add: coeff_layer_def Let_def cur alpha beta g(1,3) g(2) [unfolded z] len t [unfolded s_def] d ct nxt(1))
      (simp add: add_layer_def r_def tr_after_def s_def d)
  moreover have "reached T K us (Suc ell) e (fold_coeffs (2 ^ L) (lr_alpha r) a) (add_layer T us r st)"
    using r by (simp add: add_layer_def r_def d)
  ultimately show ?thesis using r alpha beta ct unfolding tr
    by (intro exI [of _ r] exI [of _ cr] exI [of _ beta]) (simp add: r_def)
qed


section \<open>The whole run\<close>

definition tr_end :: "('f, 'e) tower \<Rightarrow> bool \<Rightarrow> transcript \<Rightarrow> ('f, 'e :: field) layer_run list \<Rightarrow> transcript" where
  "tr_end T us tr rs = fold (\<lambda>r _. tr_after T us r) rs tr"

lemma ps_tr_add_layers: "ps_tr (add_layers T us rs st) = tr_end T us (ps_tr st) rs"
proof (induction rs arbitrary: st)
  case (Cons r rs)
  have "ps_tr (add_layer T us r st) = tr_after T us r" by (simp add: add_layer_def)
  then show ?case by (simp add: Cons tr_end_def)
qed (simp add: tr_end_def)

text \<open>Parameters as \<open>build_params\<close> makes them: the factors are powers of two and fold the whole domain.\<close>

definition folds_fully :: "deep_fri_params \<Rightarrow> nat \<Rightarrow> nat list \<Rightarrow> bool" where
  "folds_fully prm k Ls \<longleftrightarrow> schedule prm = map ((^) 2) Ls \<and> Ls \<noteq> [] \<and> (\<forall>L \<in> set Ls. 0 < L) \<and>
     sum_list Ls = k \<and> coeff_commit_final prm \<and> d_final prm = 1"

definition z_good :: "hasher \<Rightarrow> ('f :: field, 'e :: field) tower \<Rightarrow> deep_fri_params \<Rightarrow> nat \<Rightarrow> 'f list \<Rightarrow> bool" where
  "z_good h T prm n f0 \<longleftrightarrow> (\<forall>t root z. f0_tree h T prm n f0 = Some (t, root) \<longrightarrow>
     challenge_ext h T (start_transcript T prm n root) (ascii ''z_fp3'') = Some z \<longrightarrow>
     (if stir prm then z \<noteq> 0 else z ^ n \<noteq> 1))"

record ('f, 'e) fri_run =
  fr_root :: bytes
  fr_z :: 'e
  fr_a :: "nat \<Rightarrow> 'e"
  fr_layers :: "('f, 'e) layer_run list"
  fr_final :: "('f, 'e) layer_run"
  fr_coeff_root :: bytes
  fr_beta :: 'e

abbreviation fr_all :: "('f, 'e) fri_run \<Rightarrow> ('f, 'e) layer_run list" where
  "fr_all R \<equiv> fr_layers R @ [fr_final R]"

definition run_ok ::
    "hasher \<Rightarrow> ('f :: field, 'e :: field) tower \<Rightarrow> nat \<Rightarrow> deep_fri_params \<Rightarrow> nat \<Rightarrow> 'f list \<Rightarrow> ('f, 'e) fri_run \<Rightarrow> bool" where
  "run_ok h T K prm n f0 R \<longleftrightarrow>
     map_option snd (f0_tree h T prm n f0) = Some (fr_root R) \<and>
     challenge_ext h T (start_transcript T prm n (fr_root R)) (ascii ''z_fp3'') = Some (fr_z R) \<and>
     map lr_m (fr_all R) = schedule prm \<and>
     linked h T K (stir prm) (fr_z R) 0 n (map (from_fp T) f0) (fr_a R) (fr_z R) (fr_all R) \<and>
     transcribed h T (stir prm) (start_transcript T prm n (fr_root R)) (fr_layers R) \<and>
     lr_tr (fr_final R) = tr_end T (stir prm) (start_transcript T prm n (fr_root R)) (fr_layers R) \<and>
     map_option snd (bulk_tree h T (coeff_tree_config (lr_n (fr_final R) div lr_m (fr_final R)))
       (map (coeff_leaf_fields T) (lr_tuples (fr_final R)))) = Some (fr_coeff_root R) \<and>
     (let tr = absorb_bytes (fr_coeff_root R) (tr_after T (stir prm) (fr_final R))
      in challenge_ext h T tr (ascii ''alpha'') = Some (lr_alpha (fr_final R)) \<and>
         challenge_ext h T tr (ascii ''beta_deg'') = Some (fr_beta R)) \<and>
     lr_n (fr_final R) = lr_m (fr_final R) \<and> length (lr_next (fr_final R)) = 1"

definition state_of :: "('f, 'e :: field) tower \<Rightarrow> deep_fri_params \<Rightarrow> 'f list \<Rightarrow> ('f, 'e) fri_run \<Rightarrow> ('f, 'e) fri_prover_state \<Rightarrow> bool" where
  "state_of T prm f0 R st \<longleftrightarrow> ps_f0_base st = f0 \<and> ps_root_f0 st = fr_root R \<and>
     ps_f_layers st = map (from_fp T) f0 # map lr_next (fr_all R) \<and>
     ps_s_layers st = map lr_s (fr_all R) @ [[0]] \<and> ps_q_layers st = map lr_q (fr_all R) \<and>
     ps_fz_layers st = map lr_fz (fr_all R) \<and>
     ps_layers st = map (\<lambda>r. \<lparr>fl_n = lr_n r, fl_m = lr_m r, fl_root = lr_root r\<rparr>) (fr_all R) \<and>
     ps_coset_evals st = (if stir prm then map lr_evs (fr_all R) else []) \<and>
     ps_coeff_tuples st = Some (lr_tuples (fr_final R)) \<and> ps_coeff_root st = Some (fr_coeff_root R)"

lemma f0_tree_exists:
  assumes "folds_fully prm k Ls" "length f0 = 2 ^ k"
  shows "\<exists>t root. f0_tree h T prm (2 ^ k) f0 = Some (t, root)"
proof -
  obtain L Ls' where Ls: "Ls = L # Ls'" using assms(1) by (cases Ls) (auto simp: folds_fully_def)
  then have k: "k = L + sum_list Ls'" and m: "schedule prm = 2 ^ L # map ((^) 2) Ls'"
    using assms(1) by (auto simp: folds_fully_def)
  have d: "2 ^ k div 2 ^ L = (2 :: nat) ^ sum_list Ls'" "2 ^ sum_list Ls' * 2 ^ L = (2 :: nat) ^ k"
    by (simp_all add: k power_add)
  have ne: "map g [0..<2 ^ j] \<noteq> []" for g :: "nat \<Rightarrow> 'c" and j by (simp flip: length_0_conv)
  have ne': "map (\<lambda>v. [v]) f0 \<noteq> []" using assms(2) by (simp flip: length_0_conv)
  show ?thesis
  proof (cases "stir prm")
    case True
    then show ?thesis
      using tree_root [of "map (fibre f0 (2 ^ L) (2 ^ sum_list Ls')) [0..<2 ^ sum_list Ls']" "2 ^ sum_list Ls'" h T 16 "0xFF"]
      by (simp add: f0_tree_def m d assms(2) guard_opt_def f0_packed_tree_config_def push_tree_bulk [OF ne])
  next
    case False
    then show ?thesis
      using tree_root [of "map (\<lambda>v. [v]) f0" "2 ^ k" h T 16 "0xFF"] assms(2)
      by (simp add: f0_tree_def m f0_tree_config_def push_tree_bulk [OF ne'])
  qed
qed

lemma build_run:
  fixes T :: "('f :: field, 'e :: field) tower"
  assumes T: "tower_ok T K" "k \<le> K" and prm: "folds_fully prm k Ls" and f0: "length f0 = 2 ^ k"
    and z: "z_good h T prm (2 ^ k) f0"
  obtains st R where "fri_build_transcript h T f0 (2 ^ k) prm = Some st" "run_ok h T K prm (2 ^ k) f0 R"
    "state_of T prm f0 R st"
proof -
  let ?us = "stir prm" and ?n = "2 ^ k :: nat"
  obtain t0 root where f0t: "f0_tree h T prm ?n f0 = Some (t0, root)" using f0_tree_exists [OF prm f0] by blast
  let ?tr = "start_transcript T prm ?n root"
  obtain zx where zx: "challenge_ext h T ?tr (ascii ''z_fp3'') = Some zx" using challenge_total [OF T(1)] by blast
  let ?st0 = "initial_state T f0 ?n ?tr zx root (transcript_challenge_hash h ?tr (ascii ''FRI/seed''))"
  obtain Ms L where Ms: "Ls = Ms @ [L]" using prm by (cases Ls rule: rev_cases) (auto simp: folds_fully_def)
  have L: "0 < L" "\<forall>L \<in> set Ms. 0 < L" and k: "k = sum_list Ms + L" and sch: "schedule prm = map ((^) 2) Ms @ [2 ^ L]"
    using prm Ms by (auto simp: folds_fully_def)
  have cc: "use_coeff_commit prm" using prm sch by (simp add: folds_fully_def use_coeff_commit_def)
  obtain g where g: "group_gen T ?n = Some g" using domain_root [of T K k 0] T by auto
  have "length (map (from_fp T) f0) = ?n" using f0 by simp
  from ext_coeffs_evaluates [OF T g this] obtain cs where cs: "evaluates (from_fp T g) ?n (map (from_fp T) f0) ((!) cs)" by blast
  have st0: "reached T K ?us 0 (sum_list Ms + L) ((!) cs) ?st0"
    using T(2) g cs z f0t zx by (auto simp: reached_def initial_state_def k z_good_def z_ok_def)
  from normal_layers_run [OF T(1) st0 L(2), of h] obtain rs a' where
    rs: "normal_layers h T ?us 0 (map ((^) 2) Ms) ?st0 = Some (add_layers T ?us rs ?st0)"
      "map lr_m rs = map ((^) 2) Ms" "transcribed h T ?us (ps_tr ?st0) rs"
      "reached T K ?us (0 + length Ms) L a' (add_layers T ?us rs ?st0)"
    and link: "\<And>rs'. linked h T K ?us (ps_z_ext ?st0) (0 + length Ms) (2 ^ L)
           (ps_f_layers (add_layers T ?us rs ?st0) ! (0 + length Ms)) a' (ps_z_current (add_layers T ?us rs ?st0)) rs' \<Longrightarrow>
         linked h T K ?us (ps_z_ext ?st0) 0 (2 ^ (sum_list Ms + L)) (ps_f_layers ?st0 ! 0) ((!) cs) (ps_z_current ?st0) (rs @ rs')"
    by blast
  let ?st1 = "add_layers T ?us rs ?st0"
  have "reached T K ?us (length Ms) (L + 0) a' ?st1" using rs(4) by simp
  from coeff_layer_run [OF T(1) L(1) this, of h] obtain r cr beta where
    r: "coeff_layer h T ?us (length Ms) (2 ^ L) ?st1 = Some ((add_layer T ?us r ?st1)
      \<lparr>ps_tr := absorb_bytes cr (tr_after T ?us r), ps_coeff_tuples := Some (lr_tuples r),
       ps_coeff_root := Some cr, ps_beta_deg := Some beta\<rparr>)"
      "lr_n r = 2 ^ L" "lr_m r = 2 ^ L" "lr_f r = ps_f_layers ?st1 ! length Ms" "lr_a r = a'"
      "lr_z r = ps_z_current ?st1" "lr_tr r = ps_tr ?st1" "layer_ok h T K ?us (ps_z_ext ?st1) (length Ms) r"
      "map_option snd (bulk_tree h T (coeff_tree_config (2 ^ 0)) (map (coeff_leaf_fields T) (lr_tuples r))) = Some cr"
      "challenge_ext h T (absorb_bytes cr (tr_after T ?us r)) (ascii ''alpha'') = Some (lr_alpha r)"
      "challenge_ext h T (absorb_bytes cr (tr_after T ?us r)) (ascii ''beta_deg'') = Some beta"
      "reached T K ?us (Suc (length Ms)) 0 (fold_coeffs (2 ^ L) (lr_alpha r) a') (add_layer T ?us r ?st1)"
    by auto
  let ?st2 = "(add_layer T ?us r ?st1)
      \<lparr>ps_tr := absorb_bytes cr (tr_after T ?us r), ps_coeff_tuples := Some (lr_tuples r),
       ps_coeff_root := Some cr, ps_beta_deg := Some beta\<rparr>"
  have lenf: "length (ps_f_layers ?st1) = Suc (length Ms)" using rs(4) by (simp add: reached_def)
  have one: "length (lr_next r) = 1"
    using r(12) lenf by (auto simp: reached_def evaluates_def add_layer_def nth_append)
  have st0s: "ps_z_ext ?st0 = zx" "ps_z_current ?st0 = zx" "ps_tr ?st0 = ?tr" "ps_f_layers ?st0 = [map (from_fp T) f0]"
    "ps_f0_base ?st0 = f0" "ps_root_f0 ?st0 = root" "ps_s_layers ?st0 = []" "ps_q_layers ?st0 = []"
    "ps_fz_layers ?st0 = []" "ps_layers ?st0 = []" "ps_coset_evals ?st0 = []"
    by (simp_all add: initial_state_def)
  let ?R = "\<lparr>fr_root = root, fr_z = zx, fr_a = (!) cs, fr_layers = rs, fr_final = r, fr_coeff_root = cr, fr_beta = beta\<rparr>"
  have "linked h T K ?us zx (length Ms) (2 ^ L) (ps_f_layers ?st1 ! length Ms) a' (ps_z_current ?st1) [r]"
    using r st0s by (simp add: add_layers_fields)
  then have "linked h T K ?us zx 0 ?n (map (from_fp T) f0) ((!) cs) zx (rs @ [r])"
    using link [of "[r]"] st0s by (simp add: k)
  then have ok: "run_ok h T K prm ?n f0 ?R"
    using r rs st0s one f0t zx sch by (simp add: run_ok_def Let_def ps_tr_add_layers)
  have last_f: "last (ps_f_layers ?st2) = lr_next r" by (simp add: add_layer_def)
  let ?st = "?st2\<lparr>ps_s_layers := ps_s_layers ?st2 @ [replicate (length (last (ps_f_layers ?st2))) 0]\<rparr>"
  have sched: "butlast (schedule prm) = map ((^) 2) Ms" "length (schedule prm) - 1 = length Ms" "last (schedule prm) = 2 ^ L"
    using sch by simp_all
  have "fri_build_transcript h T f0 ?n prm = Some ?st"
    by (simp add: fri_build_transcript_def f0t zx cc sched rs(1) r(1) Let_def del: One_nat_def)
  moreover have "state_of T prm f0 ?R ?st"
    using st0s one by (simp add: state_of_def last_f add_layers_fields) (simp add: add_layer_def add_layers_fields)
  ultimately show ?thesis using that ok by blast
qed

end
