(* ===== verification/Fri_Accept.thy ===== *)
theory Fri_Accept
  imports Fri_Complete
begin

text \<open>
  The verifier of \<open>deep_ali/src/fri.rs\<close> on the proof of an honest run: the replay of the
  transcript, the checks on the layers, the queries of both modes.
\<close>

section \<open>Layers by index\<close>

definition absorbed :: "bool \<Rightarrow> ('f, 'e) layer_run \<Rightarrow> 'e list" where
  "absorbed us r = (if us then lr_evs r else [lr_fz r])"

lemma tr_end_absorbs:
  "transcribed h T us tr rs \<Longrightarrow>
     tr_end T us tr rs = fold (\<lambda>r. absorb_layer T (absorbed us r) (lr_root r)) rs tr"
  by (induction rs arbitrary: tr) (auto simp: tr_end_def tr_after_def absorbed_def)

lemma linked_nth:
  "linked h T K us z ell n f a zc rs \<Longrightarrow> i < length rs \<Longrightarrow> layer_ok h T K us z (ell + i) (rs ! i)"
proof (induction rs arbitrary: ell n f a zc i)
  case (Cons r rs)
  then show ?case by (cases i) fastforce+
qed simp

lemma linked_0:
  "linked h T K us z ell n f a zc rs \<Longrightarrow> rs \<noteq> [] \<Longrightarrow>
     lr_n (rs ! 0) = n \<and> lr_f (rs ! 0) = f \<and> lr_a (rs ! 0) = a \<and> lr_z (rs ! 0) = zc"
  by (cases rs) simp_all

lemma linked_Suc:
  "linked h T K us z ell n f a zc rs \<Longrightarrow> Suc i < length rs \<Longrightarrow>
     lr_n (rs ! Suc i) = lr_n (rs ! i) div lr_m (rs ! i) \<and> lr_f (rs ! Suc i) = lr_next (rs ! i) \<and>
     lr_a (rs ! Suc i) = fold_coeffs (lr_m (rs ! i)) (lr_alpha (rs ! i)) (lr_a (rs ! i)) \<and>
     lr_z (rs ! Suc i) = z_after us (rs ! i)"
proof (induction rs arbitrary: ell n f a zc i)
  case (Cons r rs)
  then show ?case
  proof (cases i)
    case 0
    then show ?thesis using Cons.prems by (cases rs) auto
  next
    case (Suc j)
    then show ?thesis using Cons.prems Cons.IH [of "Suc ell" _ _ _ _ j] by fastforce
  qed
qed simp

lemma layer_okD:
  assumes "layer_ok h T K us z ell r"
  shows "lr_m r \<noteq> 0" "lr_n r mod lr_m r = 0" "0 < lr_n r div lr_m r" "length (lr_f r) = lr_n r"
    "length (lr_tuples r) = lr_n r div lr_m r" "group_gen T (lr_n r) = Some (lr_omega r)"
    "prim_root (lr_omega r) (lr_n r)" "evaluates (from_fp T (lr_omega r)) (lr_n r) (lr_f r) (lr_a r)"
    "z_ok us z (lr_n r) (lr_z r)" "\<forall>t \<in> set (lr_tuples r). length t = lr_m r"
    "interpolation_fold_ext (lr_tuples r) (lr_alpha r) = Some (lr_next r)"
    "extract_all_coset_coefficients T (lr_f r) (lr_omega r) (lr_m r) = Some (lr_tuples r)"
    "ood_values T us (lr_f r) z (lr_z r) (lr_omega r) (lr_m r) =
       Some (lr_fz r, lr_evs r, lr_q r, lr_interp r, z_after us r)"
    "map_option snd (bulk_tree h T (layer_cfg (lr_n r) (lr_m r) ell)
       (layer_rows T us (lr_n r) (lr_f r) (lr_s r) (lr_q r))) = Some (lr_root r)"
proof -
  obtain L e where L: "lr_n r = 2 ^ (L + e)" "lr_m r = 2 ^ L" "length (lr_tuples r) = 2 ^ e"
    using assms by (auto simp: layer_ok_def)
  then show "lr_m r \<noteq> 0" "lr_n r mod lr_m r = 0" "0 < lr_n r div lr_m r" "length (lr_tuples r) = lr_n r div lr_m r"
    by (simp_all add: power_add)
qed (use assms in \<open>auto simp: layer_ok_def evaluates_def\<close>)

lemma layer_sizes:
  "linked h T K us z ell n f a zc rs \<Longrightarrow>
     layer_sizes_from_schedule n (map lr_m rs) = Some (map lr_n rs @ [fold (\<lambda>r n. n div lr_m r) rs n])"
proof (induction rs arbitrary: ell n f a zc)
  case (Cons r rs)
  have ok: "layer_ok h T K us z ell r" "lr_n r = n" using Cons.prems by simp_all
  have l: "linked h T K us z (Suc ell) (n div lr_m r) (lr_next r) (fold_coeffs (lr_m r) (lr_alpha r) a) (z_after us r) rs"
    using Cons.prems by simp
  show ?case using layer_okD(1,2) [OF ok(1)] ok(2) Cons.IH [OF l] by simp
qed simp

section \<open>Replay\<close>

text \<open>What the proof holds of a layer, and the sizes the verifier computes.\<close>

definition shows_layer ::
    "bool \<Rightarrow> nat list \<Rightarrow> ('f, 'e) deep_fri_proof \<Rightarrow> nat \<Rightarrow> ('f, 'e) layer_run \<Rightarrow> bool" where
  "shows_layer us sizes pf ell r \<longleftrightarrow> nth_opt (pf_roots pf) ell = Some (lr_root r) \<and>
     nth_opt sizes ell = Some (lr_n r) \<and>
     (if us then coset_evals_of pf ell = Some (lr_evs r) else nth_opt (pf_fz_per_layer pf) ell = Some (lr_fz r))"

lemma replay_values_layer:
  assumes "layer_ok h T K us z ell r" "shows_layer us sizes pf ell r"
  shows "replay_values T us sizes pf ell (lr_m r) (lr_z r) =
    Some (absorbed us r, z_after us r, if us then [lr_interp r] else [])"
proof (cases us)
  case True
  have "evaluate_ood_coset T (lr_f r) (lr_z r) (lr_omega r) (lr_m r) = Some (lr_evs r, lr_interp r)"
    using layer_okD(13) [OF assms(1)] True by (auto simp: ood_values_def bind_eq_Some_conv split: prod.splits)
  then have "interpolate_stir_coset T (lr_evs r) (lr_z r) (lr_omega r ^ (lr_n r div lr_m r)) (lr_m r) = Some (lr_interp r)"
    using layer_okD(4) [OF assms(1)] by (auto simp: evaluate_ood_coset_def bind_eq_Some_conv Let_def)
  then show ?thesis
    using assms(2) layer_okD(6) [OF assms(1)] True
    by (simp add: replay_values_def shows_layer_def absorbed_def z_after_def)
next
  case False
  then show ?thesis
    using assms(2) by (simp add: replay_values_def shows_layer_def absorbed_def z_after_def)
qed

lemma replay_layers_run:
  "linked h T K us z ell n f a zc (rs @ [r']) \<Longrightarrow> transcribed h T us tr rs \<Longrightarrow>
   \<forall>i < length rs. shows_layer us sizes pf (ell + i) (rs ! i) \<Longrightarrow> rp_tr rp = tr \<Longrightarrow> rp_z_current rp = zc \<Longrightarrow>
   replay_layers h T us sizes pf ell (map lr_m rs) rp = Some
     \<lparr>rp_tr = tr_end T us tr rs, rp_z_current = lr_z r',
      rp_alphas = rp_alphas rp @ map lr_alpha rs, rp_interps = rp_interps rp @ (if us then map lr_interp rs else [])\<rparr>"
proof (induction rs arbitrary: ell n f a zc tr rp)
  case Nil
  then show ?case by (cases rp) (simp add: tr_end_def)
next
  case (Cons r rs)
  have ok: "layer_ok h T K us z ell r" and zc: "lr_z r = zc" using Cons.prems(1) by simp_all
  have l: "linked h T K us z (Suc ell) (n div lr_m r) (lr_next r) (fold_coeffs (lr_m r) (lr_alpha r) a) (z_after us r) (rs @ [r'])"
    using Cons.prems(1) by simp
  have s: "shows_layer us sizes pf ell r" using Cons.prems(3) by (metis add_0_right length_greater_0_conv list.distinct(1) nth_Cons_0)
  have s': "\<forall>i < length rs. shows_layer us sizes pf (Suc ell + i) (rs ! i)" using Cons.prems(3) by fastforce
  have tr: "transcribed h T us (tr_after T us r) rs" "challenge_ext h T tr (ascii ''alpha'') = Some (lr_alpha r)" "lr_tr r = tr"
    using Cons.prems(2) by simp_all
  let ?rp = "\<lparr>rp_tr = tr_after T us r, rp_z_current = z_after us r, rp_alphas = rp_alphas rp @ [lr_alpha r],
      rp_interps = rp_interps rp @ (if us then [lr_interp r] else [])\<rparr>"
  have "replay_layer h T us sizes pf ell (lr_m r) rp = Some ?rp"
    using s tr replay_values_layer [OF ok s] Cons.prems(4,5) zc
    by (simp add: replay_layer_def shows_layer_def tr_after_def absorbed_def)
  then show ?case using Cons.IH [OF l tr(1) s', of ?rp] by (simp add: tr_end_def)
qed

lemma replay_coeff_layer_run:
  assumes ok: "layer_ok h T K us z ell r" and s: "shows_layer us sizes pf ell r"
    and rp: "rp_tr rp = lr_tr r" "rp_z_current rp = lr_z r" and cr: "pf_coeff_root pf = Some cr"
    and ch: "challenge_ext h T (absorb_bytes cr (tr_after T us r)) (ascii ''alpha'') = Some (lr_alpha r)"
      "challenge_ext h T (absorb_bytes cr (tr_after T us r)) (ascii ''beta_deg'') = Some beta"
  shows "replay_coeff_layer h T us sizes pf ell (lr_m r) rp = Some
    (\<lparr>rp_tr = absorb_bytes cr (tr_after T us r), rp_z_current = z_after us r,
      rp_alphas = rp_alphas rp @ [lr_alpha r], rp_interps = rp_interps rp @ (if us then [lr_interp r] else [])\<rparr>, beta)"
  using s rp cr ch replay_values_layer [OF ok s]
  by (simp add: replay_coeff_layer_def shows_layer_def tr_after_def absorbed_def)

text \<open>The parts of the proof that do not depend on the queries.\<close>

definition proof_of ::
    "deep_fri_params \<Rightarrow> nat \<Rightarrow> ('f, 'e) fri_run \<Rightarrow> ('f, 'e) deep_fri_proof \<Rightarrow> bool" where
  "proof_of prm n R pf \<longleftrightarrow> pf_root_f0 pf = fr_root R \<and> pf_roots pf = map lr_root (fr_all R) \<and>
     pf_fz_per_layer pf = map lr_fz (fr_all R) \<and> pf_final_poly_coeffs pf = lr_next (fr_final R) \<and> pf_n0 pf = n \<and>
     pf_coeff_tuples pf = Some (lr_tuples (fr_final R)) \<and> pf_coeff_root pf = Some (fr_coeff_root R) \<and>
     pf_stir_coset_evals pf = (if stir prm then Some (map lr_evs (fr_all R)) else None)"

definition run_replay :: "('f, 'e) tower \<Rightarrow> deep_fri_params \<Rightarrow> ('f, 'e :: field) fri_run \<Rightarrow> 'e replay" where
  "run_replay T prm R = \<lparr>rp_tr = absorb_bytes (fr_coeff_root R) (tr_after T (stir prm) (fr_final R)),
     rp_z_current = z_after (stir prm) (fr_final R), rp_alphas = map lr_alpha (fr_all R),
     rp_interps = (if stir prm then map lr_interp (fr_all R) else [])\<rparr>"

definition run_seed :: "hasher \<Rightarrow> ('f :: field, 'e) tower \<Rightarrow> deep_fri_params \<Rightarrow> ('f, 'e :: field) fri_run \<Rightarrow> 'f" where
  "run_seed h T prm R = safe_field_challenge h T
     (fold (absorb_ext T) (lr_next (fr_final R)) (rp_tr (run_replay T prm R))) (ascii ''query_seed'')"

lemma run_okD:
  assumes "run_ok h T K prm n f0 R"
  shows "linked h T K (stir prm) (fr_z R) 0 n (map (from_fp T) f0) (fr_a R) (fr_z R) (fr_all R)"
    "i < length (fr_all R) \<Longrightarrow> layer_ok h T K (stir prm) (fr_z R) i (fr_all R ! i)"
    "layer_ok h T K (stir prm) (fr_z R) (length (fr_layers R)) (fr_final R)"
    "schedule prm = map lr_m (fr_all R)"
    "layer_sizes_from_schedule n (schedule prm) = Some (map lr_n (fr_all R) @ [1])"
    "fold (\<lambda>r n. n div lr_m r) (fr_layers R) n = lr_n (fr_final R)"
proof -
  show l: "linked h T K (stir prm) (fr_z R) 0 n (map (from_fp T) f0) (fr_a R) (fr_z R) (fr_all R)"
    and s: "schedule prm = map lr_m (fr_all R)"
    using assms by (simp_all add: run_ok_def)
  show ok: "layer_ok h T K (stir prm) (fr_z R) i (fr_all R ! i)" if "i < length (fr_all R)" for i
    using linked_nth [OF l that] by simp
  from ok [of "length (fr_layers R)"] show f: "layer_ok h T K (stir prm) (fr_z R) (length (fr_layers R)) (fr_final R)" by simp
  have "linked h T K us z ell n f a zc (rs @ [r]) \<Longrightarrow> fold (\<lambda>r n. n div lr_m r) rs n = lr_n r" for ell us z n f a zc rs and r :: "('a, 'b) layer_run"
    by (induction rs arbitrary: ell n f a zc) auto
  from this [OF l] show n: "fold (\<lambda>r n. n div lr_m r) (fr_layers R) n = lr_n (fr_final R)" .
  have "lr_n (fr_final R) = lr_m (fr_final R)" using assms by (simp add: run_ok_def)
  then show "layer_sizes_from_schedule n (schedule prm) = Some (map lr_n (fr_all R) @ [1])"
    using layer_sizes [OF l] layer_okD(1) [OF f] n unfolding s by simp
qed

lemma nth_opt_map: "i < length xs \<Longrightarrow> nth_opt (map g xs) i = Some (g (xs ! i))"
  by (simp add: nth_opt_def)

lemma proof_shows:
  assumes "proof_of prm n R pf" "i < length (fr_all R)"
  shows "shows_layer (stir prm) (map lr_n (fr_all R) @ [1]) pf i (fr_all R ! i)"
proof -
  have "nth_opt (map lr_n (fr_all R) @ [1]) i = Some (lr_n (fr_all R ! i))"
    using assms(2) by (auto simp: nth_opt_def nth_append less_Suc_eq)
  then show ?thesis
    using assms(1) by (simp add: shows_layer_def proof_of_def coset_evals_of_def nth_opt_map [OF assms(2)] del: map_append)
qed

lemma replay_run:
  assumes R: "run_ok h T K prm n f0 R" and cc: "coeff_commit_final prm" and pf: "proof_of prm n R pf"
  shows "replay_transcript h T prm (map lr_n (fr_all R) @ [1]) pf =
    Some (fr_z R, run_replay T prm R, Some (fr_beta R), run_seed h T prm R)"
proof -
  let ?us = "stir prm" and ?tr = "start_transcript T prm n (fr_root R)" and ?sizes = "map lr_n (fr_all R) @ [1]"
  note s = run_okD(4) [OF R]
  have sch: "use_coeff_commit prm" "butlast (schedule prm) = map lr_m (fr_layers R)"
    "length (schedule prm) - 1 = length (fr_layers R)" "last (schedule prm) = lr_m (fr_final R)"
    using cc by (simp_all add: use_coeff_commit_def s)
  have sh: "\<forall>i < length (fr_layers R). shows_layer ?us ?sizes pf (0 + i) (fr_layers R ! i)"
  proof (intro allI impI)
    fix i assume "i < length (fr_layers R)"
    then show "shows_layer ?us ?sizes pf (0 + i) (fr_layers R ! i)"
      using proof_shows [OF pf, of i] by (simp add: nth_append)
  qed
  have shf: "shows_layer ?us ?sizes pf (length (fr_layers R)) (fr_final R)"
    using proof_shows [OF pf, of "length (fr_layers R)"] by simp
  have tr: "transcribed h T ?us ?tr (fr_layers R)" "lr_tr (fr_final R) = tr_end T ?us ?tr (fr_layers R)"
    "challenge_ext h T ?tr (ascii ''z_fp3'') = Some (fr_z R)"
    "challenge_ext h T (absorb_bytes (fr_coeff_root R) (tr_after T ?us (fr_final R))) (ascii ''alpha'') = Some (lr_alpha (fr_final R))"
    "challenge_ext h T (absorb_bytes (fr_coeff_root R) (tr_after T ?us (fr_final R))) (ascii ''beta_deg'') = Some (fr_beta R)"
    using R by (simp_all add: run_ok_def Let_def)
  let ?init = "\<lparr>rp_tr = ?tr, rp_z_current = fr_z R, rp_alphas = [], rp_interps = []\<rparr>"
  let ?rp = "\<lparr>rp_tr = tr_end T ?us ?tr (fr_layers R), rp_z_current = lr_z (fr_final R),
      rp_alphas = map lr_alpha (fr_layers R), rp_interps = if ?us then map lr_interp (fr_layers R) else []\<rparr>"
  have a: "replay_layers h T ?us ?sizes pf 0 (map lr_m (fr_layers R)) ?init = Some ?rp"
    using replay_layers_run [OF run_okD(1) [OF R] tr(1) sh, of ?init] by simp
  have b: "replay_coeff_layer h T ?us ?sizes pf (length (fr_layers R)) (lr_m (fr_final R)) ?rp =
      Some (run_replay T prm R, fr_beta R)"
    using replay_coeff_layer_run [OF run_okD(3) [OF R] shf _ _ _ tr(4,5), of ?rp] tr(2) pf
    by (simp add: proof_of_def run_replay_def)
  show ?thesis
    using pf by (simp add: replay_transcript_def sch tr(3) a b run_seed_def proof_of_def Let_def del: One_nat_def append_assoc map_append)
qed


section \<open>The values of a layer\<close>

lemma layer_algebra:
  assumes T: "tower_ok T K" and ok: "layer_ok h T K us z ell r"
  defines "m \<equiv> lr_m r" and "n' \<equiv> lr_n r div lr_m r" and "W \<equiv> from_fp T (lr_omega r)"
  shows "lr_tuples r = map (\<lambda>b. map (rem_coeffs m n' (W ^ (b * m)) (lr_a r)) [0..<m]) [0..<n']"
    and "lr_next r = map (\<lambda>b. polyval (fold_coeffs m (lr_alpha r) (lr_a r)) n' ((W ^ m) ^ b)) [0..<n']"
    and "us \<Longrightarrow> lr_evs r = map (\<lambda>j. polyval (lr_a r) (lr_n r) (W ^ (j * n') * lr_z r)) [0..<m] \<and>
      lr_interp r = map (rem_coeffs m n' (lr_z r ^ m) (lr_a r)) [0..<m]"
    and "\<not> us \<Longrightarrow> lr_z r = z \<and> lr_fz r = polyval (lr_a r) (lr_n r) z \<and>
      lr_q r = map (\<lambda>i. (lr_f r ! i - lr_fz r) * inverse (W ^ i - z)) [0..<lr_n r]"
    and "lr_n r = n' * m"
proof -
  obtain L e where L: "lr_n r = 2 ^ (L + e)" "lr_m r = 2 ^ L" "0 < L" "L + e \<le> K"
    using ok by (auto simp: layer_ok_def)
  have n': "n' = 2 ^ e" "m = 2 ^ L" "0 < n'" by (simp_all add: n'_def m_def L power_add)
  show nm: "lr_n r = n' * m" by (simp add: n' L power_add)
  note d = layer_okD [OF ok]
  have "2 ^ L * n' = lr_n r" by (simp add: nm n')
  then have w: "prim_root (lr_omega r) (2 ^ L * n')" "evaluates W (2 ^ L * n') (lr_f r) (lr_a r)"
    using d(7,8) by (simp_all add: W_def)
  have "L \<le> K" using L by simp
  from extract_fold [OF tower_okD(1,2) [OF T] L(3) this n'(3) w(1) w(2) [unfolded W_def]] d(12)
  show tup: "lr_tuples r = map (\<lambda>b. map (rem_coeffs m n' (W ^ (b * m)) (lr_a r)) [0..<m]) [0..<n']"
    by (simp add: L(2) W_def m_def)
  show "lr_next r = map (\<lambda>b. polyval (fold_coeffs m (lr_alpha r) (lr_a r)) n' ((W ^ m) ^ b)) [0..<n']"
    using d(11) fold_tuples [OF n'(3), of m W "lr_a r" "lr_alpha r"] by (simp add: tup)
  have g: "group_gen T (2 ^ (L + e)) = Some (lr_omega r)" "prim_root (lr_omega r) (2 ^ (L + e))"
    "evaluates (from_fp T (lr_omega r)) (2 ^ (L + e)) (lr_f r) (lr_a r)"
    using d(6-8) by (simp_all add: L(1))
  show "us \<Longrightarrow> lr_evs r = map (\<lambda>j. polyval (lr_a r) (lr_n r) (W ^ (j * n') * lr_z r)) [0..<m] \<and>
      lr_interp r = map (rem_coeffs m n' (lr_z r ^ m) (lr_a r)) [0..<m]"
  proof -
    assume us
    then have "lr_z r \<noteq> 0" using d(9) by (simp add: z_ok_def)
    from evaluate_ood [OF T L(4,3) g this] \<open>us\<close> d(13) show ?thesis
      by (auto simp: ood_values_def L(1,2) n' W_def bind_eq_Some_conv)
  qed
  show "\<not> us \<Longrightarrow> lr_z r = z \<and> lr_fz r = polyval (lr_a r) (lr_n r) z \<and>
      lr_q r = map (\<lambda>i. (lr_f r ! i - lr_fz r) * inverse (W ^ i - z)) [0..<lr_n r]"
  proof -
    assume us: "\<not> us"
    then have z: "lr_z r = z" "z ^ 2 ^ (L + e) \<noteq> 1" using d(9) by (auto simp: z_ok_def L(1))
    have "from_fp T (lr_omega r) ^ i \<noteq> z" for i
      using root_power_ne [OF prim_root_from_fp [OF tower_okD(1) [OF T] g(2)] z(2)] .
    from compute_q [OF T L(4) g this] us d(13) show ?thesis
      by (auto simp: ood_values_def L(1) W_def z(1) bind_eq_Some_conv)
  qed
qed

lemma polyval_1: "polyval a (Suc 0) x = a 0"
  by (simp add: polyval_def)

lemma dot_map: "dot (map f [0..<m]) (map g [0..<m]) = (\<Sum>i < m. f i * g i)"
  by (simp add: dot_def dot_from_eq)

lemma layer_ood:
  assumes "tower_ok T K" "layer_ok h T K True z ell r"
  shows "dot (lr_interp r) (build_ext_pows (lr_alpha r) (lr_m r)) =
      polyval (fold_coeffs (lr_m r) (lr_alpha r) (lr_a r)) (lr_n r div lr_m r) (z_after True r)"
    and "nth_opt (lr_evs r) 0 = Some (polyval (lr_a r) (lr_n r) (lr_z r))"
proof -
  note a = layer_algebra(3) [OF assms, simplified]
  show "dot (lr_interp r) (build_ext_pows (lr_alpha r) (lr_m r)) =
      polyval (fold_coeffs (lr_m r) (lr_alpha r) (lr_a r)) (lr_n r div lr_m r) (z_after True r)"
    using polyval_fold [of "lr_m r" "lr_n r div lr_m r" "lr_z r ^ lr_m r" "lr_a r" "lr_alpha r"]
    by (simp add: a dot_map z_after_def polyval_def)
  have "0 < lr_m r" using layer_okD(1) [OF assms(2)] by simp
  then show "nth_opt (lr_evs r) 0 = Some (polyval (lr_a r) (lr_n r) (lr_z r))"
    by (simp add: a nth_opt_def)
qed

section \<open>The checks on the layers\<close>

lemma final_next:
  assumes T: "tower_ok T K" and R: "run_ok h T K prm n f0 R"
  shows "lr_next (fr_final R) = [fold_coeffs (lr_m (fr_final R)) (lr_alpha (fr_final R)) (lr_a (fr_final R)) 0]"
    "lr_n (fr_final R) div lr_m (fr_final R) = 1"
proof -
  note ok = run_okD(3) [OF R]
  show d: "lr_n (fr_final R) div lr_m (fr_final R) = 1"
    using R layer_okD(1) [OF ok] by (simp add: run_ok_def)
  show "lr_next (fr_final R) = [fold_coeffs (lr_m (fr_final R)) (lr_alpha (fr_final R)) (lr_a (fr_final R)) 0]"
    using layer_algebra(2) [OF T ok] by (simp add: d polyval_1)
qed

lemma z_final:
  "linked h T K True z ell n f a zc (rs @ [r]) \<Longrightarrow> fold (\<lambda>m z. ext_pow z m) (map lr_m (rs @ [r])) zc = z_after True r"
  by (induction rs arbitrary: ell n f a zc) (auto simp: z_after_def)

lemma ood_fold_ok:
  assumes T: "tower_ok T K" and R: "run_ok h T K prm n f0 R" and us: "stir prm" and pf: "proof_of prm n R pf"
    and ell: "ell < length (schedule prm)"
  shows "ood_fold_check prm pf (fr_z R) (run_replay T prm R) ell = Some True"
proof -
  let ?rs = "fr_all R"
  have l: "linked h T K True (fr_z R) 0 n (map (from_fp T) f0) (fr_a R) (fr_z R) ?rs"
    using run_okD(1) [OF R] us by simp
  have len: "length (schedule prm) = Suc (length (fr_layers R))" using run_okD(4) [OF R] by simp
  then have i: "ell < length ?rs" using ell by simp
  have ok: "layer_ok h T K True (fr_z R) ell (?rs ! ell)" using run_okD(2) [OF R i] us by simp
  have here: "rp_alphas (run_replay T prm R) ! ell = lr_alpha (?rs ! ell)" "schedule prm ! ell = lr_m (?rs ! ell)"
    "rp_interps (run_replay T prm R) ! ell = lr_interp (?rs ! ell)"
    using nth_map [OF i] us run_okD(4) [OF R] by (simp_all add: run_replay_def del: map_append)
  show ?thesis
  proof (cases "Suc ell < length ?rs")
    case True
    have ok': "layer_ok h T K True (fr_z R) (Suc ell) (?rs ! Suc ell)" using run_okD(2) [OF R True] us by simp
    have "coset_evals_of pf (Suc ell) = Some (lr_evs (?rs ! Suc ell))"
      using pf us nth_opt_map [OF True, of lr_evs] by (simp add: coset_evals_of_def proof_of_def)
    then show ?thesis
      using True linked_Suc [OF l True] len
      by (simp add: ood_fold_check_def here layer_ood(1) [OF T ok] layer_ood(2) [OF T ok'] del: build_ext_pows_eq)
  next
    case False
    then have f: "?rs ! ell = fr_final R" using i by (simp add: nth_append)
    have "fold (\<lambda>m z. ext_pow z m) (schedule prm) (fr_z R) = z_after True (fr_final R)"
      using z_final [OF l] run_okD(4) [OF R] by simp
    then show ?thesis
      using False pf len final_next [OF T R] layer_ood(1) [OF T ok]
      by (simp add: ood_fold_check_def here f proof_of_def eval_final_poly_eq polyval_1 del: build_ext_pows_eq)
  qed
qed

lemma coeff_check_ok:
  assumes T: "tower_ok T K" and R: "run_ok h T K prm n f0 R" and pf: "proof_of prm n R pf" and d: "d_final prm = 1"
  shows "coeff_check h T prm (map lr_n (fr_all R) @ [1]) pf (Some (fr_beta R)) = Some True"
proof -
  note ok = run_okD(3) [OF R]
  have one: "length (lr_tuples (fr_final R)) = 1"
    using layer_okD(5) [OF ok] final_next(2) [OF T R] by simp
  then obtain t where t: "lr_tuples (fr_final R) = [t]" by (cases "lr_tuples (fr_final R)") auto
  have w: "length t = lr_m (fr_final R)" using layer_okD(10) [OF ok] t by simp
  obtain g where g: "group_gen T 1 = Some g" using domain_root [of T K 0 0] T by auto
  obtain ct where ct: "bulk_tree h T (coeff_tree_config 1) (map (coeff_leaf_fields T) [t]) = Some (ct, fr_coeff_root R)"
    using R final_next(2) [OF T R] by (auto simp: run_ok_def t)
  have s: "last (schedule prm) = lr_m (fr_final R)" using run_okD(4) [OF R] by simp
  have "batched_degree_check_ext T [t] (fr_beta R) 1 = Some True"
    using g by (simp add: batched_degree_check_ext_def guard_opt_def)
  then show ?thesis
    using pf ct s w d by (simp add: coeff_check_def proof_of_def t)
qed

lemma omegas_ok:
  assumes "run_ok h T K prm n f0 R"
  shows "those (map (group_gen T) (take (length (schedule prm)) (map lr_n (fr_all R) @ [1]))) = Some (map lr_omega (fr_all R))"
proof -
  have "map (group_gen T) (map lr_n (fr_all R)) = map (\<lambda>r. Some (lr_omega r)) (fr_all R)"
  proof (rule nth_equalityI)
    fix i assume "i < length (map (group_gen T) (map lr_n (fr_all R)))"
    then have i: "i < length (fr_all R)" by simp
    show "map (group_gen T) (map lr_n (fr_all R)) ! i = map (\<lambda>r. Some (lr_omega r)) (fr_all R) ! i"
      using layer_okD(6) [OF run_okD(2) [OF assms i]] i by (simp del: map_append)
  qed simp
  then show ?thesis
    unfolding run_okD(4) [OF assms] by (simp add: those_map_Some del: map_append map_map)
qed

end
