(* ===== verification/Fri_Queries.thy ===== *)
theory Fri_Queries
  imports Fri_Accept
begin

text \<open>
  The queries of \<open>deep_ali/src/fri.rs\<close> in an honest run: every opening exists and passes the
  checks, in STIR and in classic mode; then the prover's proof is accepted.
\<close>

section \<open>Positions\<close>

lemma query_position_total:
  assumes "0 < n"
  shows "\<exists>i < n. query_position h T seed n q = Some i"
proof -
  obtain m where "np2_from 0 n = 2 ^ m" using np2_from_spec [of 0 n] by auto
  then have "is_power_of_two (next_power_of_two n)" by (simp add: next_power_of_two_def)
  then obtain j where "index_from_seed T (index_seed h T seed 0 q) (next_power_of_two n) = Some j"
    by (simp add: index_from_seed_def guard_opt_def)
  then show ?thesis using assms by (intro exI [of _ "j mod n"]) (simp add: query_position_def guard_opt_def)
qed

section \<open>Lists of options\<close>

lemma those_length: "those xs = Some ys \<Longrightarrow> length ys = length xs"
  by (induction xs arbitrary: ys) (auto split: option.splits)

lemma those_nth: "those xs = Some ys \<Longrightarrow> i < length xs \<Longrightarrow> xs ! i = Some (ys ! i)"
proof (induction xs arbitrary: ys i)
  case (Cons x xs)
  then show ?case by (cases i) (auto split: option.splits)
qed simp

lemma those_total:
  assumes "\<And>i. i < length xs \<Longrightarrow> \<exists>y. xs ! i = Some y"
  shows "\<exists>ys. those xs = Some ys"
proof -
  have "\<forall>x \<in> set xs. \<exists>y. x = Some y" using assms by (metis in_set_conv_nth)
  then show ?thesis by (induction xs) auto
qed

lemma those_map_total:
  assumes "\<And>x. x \<in> set xs \<Longrightarrow> \<exists>y. g x = Some y"
  shows "\<exists>ys. those (map g xs) = Some ys"
  by (rule those_total) (use assms in \<open>auto simp: in_set_conv_nth\<close>)

lemma extract_nth:
  assumes "extract_all_coset_coefficients T f g m = Some tuples" "b < length tuples"
  shows "interpolate_coset_ext T (fibre f m (length f div m) b) (g ^ b) (g ^ (length f div m)) m = Some (tuples ! b)"
proof -
  let ?n = "length f div m"
  have t: "those (map (\<lambda>(b, ob). interpolate_coset_ext T (fibre f m ?n b) ob (g ^ ?n) m) (enumerate 0 (build_ext_pows g ?n))) = Some tuples"
    using assms(1) by (auto simp: extract_all_coset_coefficients_def bind_eq_Some_conv Let_def)
  have "length tuples = ?n" using those_length [OF t] by simp
  then show ?thesis using those_nth [OF t, of b] assms(2) by (simp add: nth_enumerate_eq)
qed

lemma fold_nth:
  assumes "interpolation_fold_ext tuples alpha = Some nxt" "\<forall>t \<in> set tuples. length t = m"
  shows "length nxt = length tuples"
    and "b < length tuples \<Longrightarrow> nxt ! b = dot (tuples ! b) (build_ext_pows alpha m)"
  using assms by (auto simp: interpolation_fold_ext_def Let_def nth_Cons split: list.splits if_splits nat.splits)

section \<open>STIR\<close>

lemma first_layer:
  assumes R: "run_ok h T K prm n f0 R" and st: "state_of T prm f0 R st"
  shows "first_size st = n" "lr_n (fr_all R ! 0) = n" "lr_f (fr_all R ! 0) = map (from_fp T) f0"
    "schedule prm ! 0 = lr_m (fr_all R ! 0)" "schedule prm \<noteq> []" "length f0 = n" "0 < n"
proof -
  have 0: "0 < length (fr_all R)" by simp
  show l: "lr_n (fr_all R ! 0) = n" "lr_f (fr_all R ! 0) = map (from_fp T) f0"
    using linked_0 [OF run_okD(1) [OF R]] by simp_all
  have "ps_layers st = map (\<lambda>r. \<lparr>fl_n = lr_n r, fl_m = lr_m r, fl_root = lr_root r\<rparr>) (fr_all R)"
    using st by (simp add: state_of_def)
  moreover obtain r rs where "fr_all R = r # rs" by (cases "fr_all R") auto
  ultimately show "first_size st = n" using l by (simp add: first_size_def)
  show "schedule prm ! 0 = lr_m (fr_all R ! 0)" "schedule prm \<noteq> []"
    using run_okD(4) [OF R] nth_map [OF 0, of lr_m] by simp_all
  have ok: "layer_ok h T K (stir prm) (fr_z R) 0 (fr_all R ! 0)" by (rule run_okD(2) [OF R 0])
  show "length f0 = n" using layer_okD(4) [OF ok] l by simp
  show "0 < n" using layer_okD(3) [OF ok] l by (cases n) simp_all
qed

lemma packed_tree_exists:
  assumes R: "run_ok h T K prm n f0 R" and st: "state_of T prm f0 R st" and us: "stir prm"
  defines "m0 \<equiv> lr_m (fr_all R ! 0)"
  obtains t where "push_tree h T (f0_packed_tree_config n m0) (map (fibre f0 m0 (n div m0)) [0..<n div m0]) = Some (t, fr_root R)"
    "\<And>i. i < n div m0 \<Longrightarrow> \<exists>op. open_full t i = Some op \<and>
       opening_check h T (f0_packed_tree_config n m0) (fr_root R) op i (fibre f0 m0 (n div m0) i) = Some True"
proof -
  let ?rows = "map (fibre f0 m0 (n div m0)) [0..<n div m0]"
  note l = first_layer [OF R st]
  have ok: "layer_ok h T K (stir prm) (fr_z R) 0 (fr_all R ! 0)" using run_okD(2) [OF R, of 0] by simp
  have n': "0 < n div m0" "m0 \<noteq> 0" "n div m0 * m0 \<le> length f0"
    using layer_okD(1,3) [OF ok] l by (simp_all add: m0_def)
  then have rows: "?rows \<noteq> []" "length ?rows = n div m0" by simp_all
  obtain t r where t: "bulk_tree h T (tree_cfg (n div m0) 16 0xFF) ?rows = Some (t, r)"
    and op: "\<And>i. i < n div m0 \<Longrightarrow> \<exists>op. open_full t i = Some op \<and>
       mo_index op = i \<and> verify_opening h (tree_cfg (n div m0) 16 0xFF) r op = Some True \<and>
       compute_leaf_hash h (elem_bytes T) (tree_cfg (n div m0) 16 0xFF) i (?rows ! i) = Some (mo_leaf op)"
    using tree_opens [OF rows, of h T 16 "0xFF"] by blast
  obtain sch where "schedule prm = m0 # sch" using l(4,5) by (cases "schedule prm") (auto simp: m0_def)
  then have "f0_tree h T prm n f0 = Some (t, r)"
    using us t n' by (simp add: f0_tree_def guard_opt_def f0_packed_tree_config_def push_tree_bulk [OF rows(1)])
  then have r: "r = fr_root R" using R by (simp add: run_ok_def)
  show ?thesis
  proof (rule that [of t])
    show "push_tree h T (f0_packed_tree_config n m0) ?rows = Some (t, fr_root R)"
      using t r by (simp add: f0_packed_tree_config_def push_tree_bulk [OF rows(1)])
    fix i assume i: "i < n div m0"
    then show "\<exists>op. open_full t i = Some op \<and>
       opening_check h T (f0_packed_tree_config n m0) (fr_root R) op i (fibre f0 m0 (n div m0) i) = Some True"
      using op [OF i] r by (auto simp: f0_packed_tree_config_def intro!: opening_checkI)
  qed
qed

lemma layer_tree_exists:
  assumes R: "run_ok h T K prm n f0 R" and i: "i < length (fr_all R)"
  defines "r \<equiv> fr_all R ! i"
  defines "rows \<equiv> layer_rows T (stir prm) (lr_n r) (lr_f r) (lr_s r) (lr_q r)"
  obtains t where "push_tree h T (layer_cfg (lr_n r) (lr_m r) i) rows = Some (t, lr_root r)"
    "\<And>j. j < lr_n r \<Longrightarrow> \<exists>op. open_full t j = Some op \<and>
       opening_check h T (layer_cfg (lr_n r) (lr_m r) i) (lr_root r) op j (rows ! j) = Some True"
proof -
  have ok: "layer_ok h T K (stir prm) (fr_z R) i r" unfolding r_def by (rule run_okD(2) [OF R i])
  have "0 < lr_n r" using layer_okD(3) [OF ok] by (cases "lr_n r") simp_all
  then have rows: "rows \<noteq> []" "length rows = lr_n r"
    using length_layer_rows [OF layer_okD(4) [OF ok], of T "stir prm" "lr_s r" "lr_q r"] by (auto simp: rows_def)
  obtain t root where t: "bulk_tree h T (tree_cfg (lr_n r) (lr_m r) (word_of_nat i)) rows = Some (t, root)"
    and op: "\<And>j. j < lr_n r \<Longrightarrow> \<exists>op. open_full t j = Some op \<and>
       mo_index op = j \<and> verify_opening h (tree_cfg (lr_n r) (lr_m r) (word_of_nat i)) root op = Some True \<and>
       compute_leaf_hash h (elem_bytes T) (tree_cfg (lr_n r) (lr_m r) (word_of_nat i)) j (rows ! j) = Some (mo_leaf op)"
    using tree_opens [OF rows, of h T "lr_m r" "word_of_nat i"] by blast
  have root: "root = lr_root r" using layer_okD(14) [OF ok] t by (simp add: layer_cfg_def rows_def)
  show ?thesis
  proof (rule that [of t])
    show "push_tree h T (layer_cfg (lr_n r) (lr_m r) i) rows = Some (t, lr_root r)"
      using t root by (simp add: layer_cfg_def push_tree_bulk [OF rows(1)])
    fix j assume "j < lr_n r"
    then show "\<exists>op. open_full t j = Some op \<and>
       opening_check h T (layer_cfg (lr_n r) (lr_m r) i) (lr_root r) op j (rows ! j) = Some True"
      using op root by (auto simp: layer_cfg_def intro!: opening_checkI)
  qed
qed


text \<open>The fold of an opened fibre is the value of the next layer.\<close>

lemma fold_of_fibre:
  assumes ok: "layer_ok h T K us z ell r" and b: "b < lr_n r div lr_m r"
  shows "interpolate_coset_ext T (fibre (lr_f r) (lr_m r) (lr_n r div lr_m r) b) (lr_omega r ^ b)
      (lr_omega r ^ (lr_n r div lr_m r)) (lr_m r) = Some (lr_tuples r ! b)"
    and "dot (lr_tuples r ! b) (build_ext_pows (lr_alpha r) (lr_m r)) = lr_next r ! b"
    and "length (lr_next r) = lr_n r div lr_m r" "length (lr_tuples r ! b) = lr_m r"
  using extract_nth [OF layer_okD(12) [OF ok], of b] fold_nth [OF layer_okD(11,10) [OF ok]] b
    layer_okD(4,5,10) [OF ok] by simp_all

lemma state_layers:
  assumes "state_of T prm f0 R st" "i < length (fr_all R)"
  shows "ps_f_layers st ! Suc i = lr_next (fr_all R ! i)"
    "ps_layers st ! i = \<lparr>fl_n = lr_n (fr_all R ! i), fl_m = lr_m (fr_all R ! i), fl_root = lr_root (fr_all R ! i)\<rparr>"
    "length (ps_layers st) = length (fr_all R)" "length (ps_f_layers st) = Suc (length (fr_all R))"
  using assms(1) nth_map [OF assms(2), of lr_next]
    nth_map [OF assms(2), of "\<lambda>r. \<lparr>fl_n = lr_n r, fl_m = lr_m r, fl_root = lr_root r\<rparr>"]
  by (simp_all add: state_of_def del: map_append)

lemma stir_layer1:
  assumes R: "run_ok h T K prm n f0 R" and st: "state_of T prm f0 R st" and us: "stir prm"
    and two: "2 \<le> length (fr_all R)"
  defines "r \<equiv> fr_all R ! 0" and "r1 \<equiv> fr_all R ! 1"
  obtains t where "push_tree h T (layer_cfg (lr_n r1) (lr_m r1) 1) (map (stir_leaf_fields T) (lr_next r)) = Some (t, lr_root r1)"
    "\<And>b. b < lr_n r div lr_m r \<Longrightarrow> \<exists>op. open_full t b = Some op \<and>
       opening_check h T (layer_cfg (lr_n r1) (lr_m r1) 1) (lr_root r1) op b (stir_leaf_fields T (lr_next r ! b)) = Some True"
proof -
  have i: "1 < length (fr_all R)" using two by linarith
  have link: "lr_n r1 = lr_n r div lr_m r" "lr_f r1 = lr_next r"
    using linked_Suc [OF run_okD(1) [OF R], of 0] i by (simp_all add: r_def r1_def)
  have ok: "layer_ok h T K (stir prm) (fr_z R) 0 r" unfolding r_def by (rule run_okD(2) [OF R]) simp
  have len: "length (lr_next r) = lr_n r div lr_m r"
    using fold_nth(1) [OF layer_okD(11,10) [OF ok]] layer_okD(5) [OF ok] by simp
  have rows: "layer_rows T (stir prm) (lr_n r1) (lr_f r1) (lr_s r1) (lr_q r1) = map (stir_leaf_fields T) (lr_next r)"
    by (simp add: layer_rows_def us link)
  show ?thesis
  proof (rule layer_tree_exists [OF R i, folded r1_def, unfolded rows])
    fix t
    assume t: "push_tree h T (layer_cfg (lr_n r1) (lr_m r1) 1) (map (stir_leaf_fields T) (lr_next r)) = Some (t, lr_root r1)"
      and op: "\<And>j. j < lr_n r1 \<Longrightarrow> \<exists>op. open_full t j = Some op \<and>
        opening_check h T (layer_cfg (lr_n r1) (lr_m r1) 1) (lr_root r1) op j (map (stir_leaf_fields T) (lr_next r) ! j) = Some True"
    show thesis
    proof (rule that [OF t])
      fix b assume "b < lr_n r div lr_m r"
      then show "\<exists>op. open_full t b = Some op \<and>
          opening_check h T (layer_cfg (lr_n r1) (lr_m r1) 1) (lr_root r1) op b (stir_leaf_fields T (lr_next r ! b)) = Some True"
        using op [of b] len link(1) by simp
    qed
  qed
qed

lemma sizes_nth: "i < length (fr_all R) \<Longrightarrow> (map lr_n (fr_all R) @ [1]) ! i = lr_n (fr_all R ! i)"
  by (subst nth_append) (simp del: map_append)

lemma stir_queries_ok:
  assumes T: "tower_ok T K" and R: "run_ok h T K prm n f0 R" and st: "state_of T prm f0 R st" and us: "stir prm"
    and pf: "proof_of prm n R pf" and prox: "pf_stir_queries pf = stir_prove_proximity_queries h T st (schedule prm) (s0 prm) seed"
  shows "pf_stir_queries pf \<noteq> None"
    and "stir_check h T prm (map lr_n (fr_all R) @ [1]) pf (run_replay T prm R) seed (map lr_omega (fr_all R)) 1 = Some True"
proof -
  let ?r = "fr_all R ! 0" and ?r1 = "fr_all R ! 1"
  let ?m = "lr_m ?r" and ?n' = "n div lr_m ?r"
  have 0: "0 < length (fr_all R)" by simp
  note l = first_layer [OF R st]
  have ok: "layer_ok h T K (stir prm) (fr_z R) 0 ?r" by (rule run_okD(2) [OF R 0])
  have n': "0 < ?n'" "?m \<noteq> 0" "?n' * ?m = n" using layer_okD(1-3) [OF ok] l by auto
  obtain t0 where t0: "push_tree h T (f0_packed_tree_config n ?m) (map (fibre f0 ?m ?n') [0..<?n']) = Some (t0, fr_root R)"
    and op0: "\<And>i. i < ?n' \<Longrightarrow> \<exists>op. open_full t0 i = Some op \<and>
       opening_check h T (f0_packed_tree_config n ?m) (fr_root R) op i (fibre f0 ?m ?n' i) = Some True"
    using packed_tree_exists [OF R st us] by blast
  have len: "length (schedule prm) = length (fr_all R)" using run_okD(4) [OF R] by simp
  define layer1 where "layer1 = (if length (schedule prm) \<ge> 2 then do {
            l \<leftarrow> nth_opt (ps_layers st) 1;
            f1 \<leftarrow> nth_opt (ps_f_layers st) 1;
            (tree, _) \<leftarrow> push_tree h T (layer_cfg (fl_n l) (fl_m l) 1) (map (stir_leaf_fields T) f1);
            Some (Some tree) }
          else Some None)"
  have f1: "nth_opt (ps_f_layers st) 1 = Some (lr_next ?r)"
    using state_layers(1,4) [OF st 0] by (simp add: nth_opt_def)
  have next_nth: "nth_opt (lr_next ?r) b = Some (lr_next ?r ! b)" if "b < ?n'" for b
    using fold_of_fibre(3) [OF ok, of b] that l by (simp add: nth_opt_def)
  obtain lt where lt: "layer1 = Some lt"
    and ltop: "\<And>b. b < ?n' \<Longrightarrow> (case lt of None \<Rightarrow> length (schedule prm) < 2
        | Some t \<Rightarrow> 2 \<le> length (schedule prm) \<and> (\<exists>op. open_full t b = Some op \<and>
            opening_check h T (layer_cfg (lr_n ?r1) (lr_m ?r1) 1) (lr_root ?r1) op b
              (stir_leaf_fields T (lr_next ?r ! b)) = Some True))"
  proof (cases "2 \<le> length (schedule prm)")
    case True
    then have two: "2 \<le> length (fr_all R)" using len by simp
    have l1: "nth_opt (ps_layers st) 1 = Some \<lparr>fl_n = lr_n ?r1, fl_m = lr_m ?r1, fl_root = lr_root ?r1\<rparr>"
      using state_layers(2,3) [OF st, of 1] two by (auto simp: nth_opt_def Suc_le_length_iff)
    show ?thesis
    proof (rule stir_layer1 [OF R st us two])
      fix t
      assume "push_tree h T (layer_cfg (lr_n ?r1) (lr_m ?r1) 1) (map (stir_leaf_fields T) (lr_next ?r)) = Some (t, lr_root ?r1)"
        "\<And>b. b < lr_n ?r div lr_m ?r \<Longrightarrow> \<exists>op. open_full t b = Some op \<and>
       opening_check h T (layer_cfg (lr_n ?r1) (lr_m ?r1) 1) (lr_root ?r1) op b (stir_leaf_fields T (lr_next ?r ! b)) = Some True"
      then show ?thesis using that [of "Some t"] True l1 f1 l(2) by (simp add: layer1_def)
    qed
  next
    case False
    then show ?thesis using that [of None] by (simp add: layer1_def)
  qed
  let ?fvals = "\<lambda>b. map ((!) f0) (map (\<lambda>j. b + j * ?n') [0..<?m])"
  have fib: "?fvals b = fibre f0 ?m ?n' b" "length (fibre f0 ?m ?n' b) = ?m" for b
    by (simp_all add: fibre_def comp_def)
  have fibx: "map (from_fp T) (fibre f0 ?m ?n' b) = fibre (lr_f ?r) (lr_m ?r) (lr_n ?r div lr_m ?r) b" if b: "b < ?n'" for b
  proof -
    have "b + j * ?n' < n" if "j < ?m" for j
    proof -
      have "b + j * ?n' < Suc j * ?n'" using b by simp
      also have "\<dots> \<le> ?m * ?n'" by (rule mult_le_mono1) (use that in simp)
      finally show ?thesis using n'(3) by (simp add: mult.commute)
    qed
    then show ?thesis using l by (simp add: fibre_def)
  qed
  have query: "\<exists>pq. stir_prove_proximity_query h T st ?m t0 lt seed q = Some pq \<and>
      stir_query_check h T prm (map lr_n (fr_all R) @ [1]) pf (run_replay T prm R) seed (lr_omega ?r) 1 q pq = Some True" for q
  proof -
    obtain i where i: "query_position h T seed n q = Some i" "i < n" using query_position_total [OF l(7)] by blast
    define b where "b = i mod ?n'"
    have b: "b < ?n'" using n'(1) by (simp add: b_def)
    obtain op where op: "open_full t0 b = Some op"
      "opening_check h T (f0_packed_tree_config n ?m) (fr_root R) op b (fibre f0 ?m ?n' b) = Some True"
      using op0 [OF b] by blast
    have sz: "(map lr_n (fr_all R) @ [1]) ! 0 = n" "length (fr_all R) \<ge> 2 \<Longrightarrow> (map lr_n (fr_all R) @ [1]) ! 1 = lr_n ?r1"
      using l(2) sizes_nth [OF 0] sizes_nth [of 1 R] by (simp, linarith)
    have al: "rp_alphas (run_replay T prm R) ! 0 = lr_alpha ?r"
      using nth_map [OF 0, of lr_alpha] by (simp add: run_replay_def)
    have fold: "interpolate_coset_ext T (fibre (lr_f ?r) (lr_m ?r) (lr_n ?r div lr_m ?r) b) (lr_omega ?r ^ b)
      (lr_omega ?r ^ ?n') (lr_m ?r) = Some (lr_tuples ?r ! b)"
      "dot (lr_tuples ?r ! b) (build_ext_pows (lr_alpha ?r) (lr_m ?r)) = lr_next ?r ! b"
      using fold_of_fibre(1,2) [OF ok, of b] b l(2) by simp_all
    have basics: "pf_n0 pf = n" "pf_root_f0 pf = fr_root R" "ps_f0_base st = f0"
      using pf st by (simp_all add: proof_of_def state_of_def)
    show ?thesis
    proof (cases lt)
      case None
      then have one: "length (schedule prm) < 2" using ltop [OF b] by simp
      then have lay: "fr_layers R = []" "?r = fr_final R" using len by auto
      have "?n' = 1" using final_next(2) [OF T R] lay l(2) by simp
      then have b0: "b = 0" using b by simp
      have fin: "lr_next ?r ! b = eval_final_poly_ext (pf_final_poly_coeffs pf) x" for x
        using pf final_next(1) [OF T R] lay b0 by (simp add: proof_of_def eval_final_poly_eq)
      have "\<not> 2 \<le> length (schedule prm)" using one by simp
      then show ?thesis
        using None i op fold fin sz(1) al basics l(1,4) fib fibx [OF b]
        by (simp add: stir_prove_proximity_query_def stir_query_check_def Let_def b_def [symmetric]
            del: build_ext_pows_eq map_map)
    next
      case (Some t)
      then obtain op1 where op1: "2 \<le> length (schedule prm)" "open_full t b = Some op1"
        "opening_check h T (layer_cfg (lr_n ?r1) (lr_m ?r1) 1) (lr_root ?r1) op1 b (stir_leaf_fields T (lr_next ?r ! b)) = Some True"
        using ltop [OF b] by auto
      have i1: "1 < length (fr_all R)" using op1(1) len by linarith
      have r1: "nth_opt (pf_roots pf) 1 = Some (lr_root ?r1)" "schedule prm ! 1 = lr_m ?r1"
        using pf nth_opt_map [OF i1, of lr_root] nth_map [OF i1, of lr_m] run_okD(4) [OF R]
        by (simp_all add: proof_of_def del: map_append)
      show ?thesis
        using Some i op op1 fold sz al basics l(1,4) r1 f1 next_nth [OF b] len fib fibx [OF b]
        by (simp add: stir_prove_proximity_query_def stir_query_check_def Let_def b_def [symmetric]
            del: build_ext_pows_eq One_nat_def map_map)
    qed
  qed
  have ne: "ps_layers st \<noteq> []" using state_layers(3) [OF st 0] by auto
  have m0: "nth_opt (schedule prm) 0 = Some ?m" using l(4,5) by (simp add: nth_opt_def)
  have prove: "stir_prove_proximity_queries h T st (schedule prm) (s0 prm) seed =
      those (map (stir_prove_proximity_query h T st ?m t0 lt seed) [0..<s0 prm])"
    using ne m0 l(1,6) n' t0 lt st
    by (simp add: stir_prove_proximity_queries_def guard_opt_def layer1_def [symmetric] state_of_def)
  obtain ps where ps: "those (map (stir_prove_proximity_query h T st ?m t0 lt seed) [0..<s0 prm]) = Some ps"
    using those_map_total [of "[0..<s0 prm]" "stir_prove_proximity_query h T st ?m t0 lt seed"] query by blast
  show "pf_stir_queries pf \<noteq> None" using prox prove ps by simp
  have "stir_query_check h T prm (map lr_n (fr_all R) @ [1]) pf (run_replay T prm R) seed (lr_omega ?r) 1 q (ps ! q) = Some True"
    if "q < s0 prm" for q
    using query [of q] those_nth [OF ps, of q] that by auto
  moreover have "length ps = s0 prm" using those_length [OF ps] by simp
  moreover have "nth_opt (map lr_omega (fr_all R)) 0 = Some (lr_omega ?r)" by (rule nth_opt_map [OF 0])
  ultimately show "stir_check h T prm (map lr_n (fr_all R) @ [1]) pf (run_replay T prm R) seed (map lr_omega (fr_all R)) 1 = Some True"
    using prox prove ps
    by (auto simp: stir_check_def all_opt_True in_set_enumerate_eq simp del: map_append)
qed


section \<open>Classic queries\<close>

definition sizes_after :: "('f, 'e) fri_run \<Rightarrow> nat list" where
  "sizes_after R = map (\<lambda>r. lr_n r div lr_m r) (fr_all R)"

lemma length_layer_positions [simp]: "length (layer_positions i nns) = length nns"
  by (induction nns arbitrary: i) simp_all

lemma layer_positions_nth:
  "ell < length nns \<Longrightarrow> layer_positions i nns ! ell = (if ell = 0 then i else layer_positions i nns ! (ell - 1) mod nns ! (ell - 1))"
proof (induction nns arbitrary: i ell)
  case (Cons nn nns)
  show ?case
  proof (cases ell)
    case (Suc k)
    then show ?thesis using Cons.IH [of k "i mod nn"] Cons.prems by (cases k) simp_all
  qed simp
qed simp

lemma final_position_last: "nns \<noteq> [] \<Longrightarrow> final_position i nns = last (layer_positions i nns) mod last nns"
proof (induction nns arbitrary: i)
  case (Cons nn nns)
  have ne: "layer_positions j nns \<noteq> []" if "nns \<noteq> []" for j using that length_layer_positions [of j nns] by (metis length_0_conv)
  show ?case
  proof (cases nns)
    case Nil
    then show ?thesis by (simp add: final_position_def)
  next
    case Cons': (Cons x xs)
    then show ?thesis using Cons.IH [of "i mod nn"] ne by (simp add: final_position_def)
  qed
qed simp

lemma nns_eq:
  assumes R: "run_ok h T K prm n f0 R" and st: "state_of T prm f0 R st"
  shows "next_sizes st (schedule prm) = sizes_after R" "map2 (div) (map lr_n (fr_all R) @ [1]) (schedule prm) = sizes_after R"
proof -
  have "zip (xs @ [y]) zs = zip xs zs" if "length xs = length zs" for xs :: "nat list" and y and zs :: "nat list"
    using that by (simp add: zip_append1)
  from this [of "map lr_n (fr_all R)" "map lr_m (fr_all R)"]
  have z: "zip (map lr_n (fr_all R) @ [1]) (schedule prm) = zip (map lr_n (fr_all R)) (map lr_m (fr_all R))"
    by (simp add: run_okD(4) [OF R] del: map_append)
  show "map2 (div) (map lr_n (fr_all R) @ [1]) (schedule prm) = sizes_after R"
    unfolding z by (simp add: sizes_after_def zip_map_map comp_def zip_same_conv_map del: map_append)
  have "ps_layers st = map (\<lambda>r. \<lparr>fl_n = lr_n r, fl_m = lr_m r, fl_root = lr_root r\<rparr>) (fr_all R)"
    using st by (simp add: state_of_def)
  then show "next_sizes st (schedule prm) = sizes_after R"
    by (simp add: next_sizes_def run_okD(4) [OF R] sizes_after_def zip_map_map comp_def zip_same_conv_map del: map_append)
qed

lemma position_bound:
  assumes R: "run_ok h T K prm n f0 R" and i: "i < n"
  shows "ell < length (fr_all R) \<Longrightarrow> layer_positions i (sizes_after R) ! ell < lr_n (fr_all R ! ell)"
proof (induction ell)
  case 0
  then show ?case using linked_0 [OF run_okD(1) [OF R]] i layer_positions_nth [of 0 "sizes_after R" i]
    by (simp add: sizes_after_def)
next
  case (Suc ell)
  have ok: "layer_ok h T K (stir prm) (fr_z R) ell (fr_all R ! ell)" by (rule run_okD(2) [OF R]) (use Suc.prems in linarith)
  have "ell < length (fr_all R)" using Suc.prems by linarith
  then have "sizes_after R ! ell = lr_n (fr_all R ! ell) div lr_m (fr_all R ! ell)"
    unfolding sizes_after_def by (rule nth_map)
  moreover have "layer_positions i (sizes_after R) ! Suc ell = layer_positions i (sizes_after R) ! ell mod sizes_after R ! ell"
    using layer_positions_nth [of "Suc ell" "sizes_after R" i] Suc.prems by (simp add: sizes_after_def)
  ultimately show ?case
    using linked_Suc [OF run_okD(1) [OF R] Suc.prems] layer_okD(3) [OF ok] by simp
qed

lemma final_position_0:
  assumes T: "tower_ok T K" and R: "run_ok h T K prm n f0 R"
  shows "final_position i (sizes_after R) = 0"
proof -
  have "last (sizes_after R) = 1" "sizes_after R \<noteq> []"
    using final_next(2) [OF T R] by (simp_all add: sizes_after_def)
  then show ?thesis by (simp add: final_position_last)
qed

lemma query_refs_nth:
  assumes R: "run_ok h T K prm n f0 R" and ell: "ell < length (fr_all R)"
  shows "qr_i (query_refs (schedule prm) (sizes_after R) i ! ell) = layer_positions i (sizes_after R) ! ell"
    "length (query_refs (schedule prm) (sizes_after R) i) = length (fr_all R)"
  using ell by (simp_all add: query_refs_def run_okD(4) [OF R] sizes_after_def split_beta del: map_append)

text \<open>The opened values of a query.\<close>

lemma layer_f:
  assumes R: "run_ok h T K prm n f0 R" and st: "state_of T prm f0 R st" and ell: "ell < length (fr_all R)"
  shows "ps_f_layers st ! ell = lr_f (fr_all R ! ell)" "ps_s_layers st ! ell = lr_s (fr_all R ! ell)"
    "ps_q_layers st ! ell = lr_q (fr_all R ! ell)"
proof -
  show "ps_f_layers st ! ell = lr_f (fr_all R ! ell)"
  proof (cases ell)
    case 0
    then show ?thesis using first_layer(3) [OF R st] st by (simp add: state_of_def)
  next
    case (Suc k)
    then have "k < length (fr_all R)" using ell by linarith
    then show ?thesis using state_layers(1) [OF st] linked_Suc [OF run_okD(1) [OF R], of k] ell Suc by simp
  qed
  show "ps_s_layers st ! ell = lr_s (fr_all R ! ell)" "ps_q_layers st ! ell = lr_q (fr_all R ! ell)"
    using st ell nth_map [OF ell, of lr_q] nth_append_left [of ell "map lr_s (fr_all R)" "[[0]]"] nth_map [OF ell, of lr_s]
    by (simp_all add: state_of_def del: map_append)
qed

definition payload_of :: "('f, 'e) layer_run \<Rightarrow> nat \<Rightarrow> 'e layer_open_payload" where
  "payload_of r i = \<lparr>lp_f_val = lr_f r ! i, lp_s_val = lr_s r ! i, lp_q_val = lr_q r ! i\<rparr>"

lemma layer_payload_eq:
  assumes T: "tower_ok T K" and R: "run_ok h T K prm n f0 R" and st: "state_of T prm f0 R st"
    and us: "\<not> stir prm" and ell: "ell < length (fr_all R)"
  shows "layer_payload st ell i = payload_of (fr_all R ! ell) i"
proof -
  have ok: "layer_ok h T K False (fr_z R) ell (fr_all R ! ell)" using run_okD(2) [OF R ell] us by simp
  have "0 < lr_n (fr_all R ! ell)" using layer_okD(3) [OF ok] by (cases "lr_n (fr_all R ! ell)") simp_all
  moreover obtain g where "lr_q (fr_all R ! ell) = map g [0..<lr_n (fr_all R ! ell)]"
    using layer_algebra(4) [OF T ok] by blast
  ultimately have "lr_q (fr_all R ! ell) \<noteq> []" by simp
  then show ?thesis by (simp add: layer_payload_def payload_of_def layer_f [OF R st ell])
qed

lemma f0_tree_opens:
  assumes R: "run_ok h T K prm n f0 R" and st: "state_of T prm f0 R st" and us: "\<not> stir prm"
  obtains t where "push_tree h T (f0_tree_config n) (map (\<lambda>v. [v]) f0) = Some (t, fr_root R)"
    "\<And>i. i < n \<Longrightarrow> \<exists>op. open_full t i = Some op \<and> mo_index op = i \<and>
       verify_opening h (f0_tree_config n) (fr_root R) op = Some True \<and>
       compute_leaf_hash h (elem_bytes T) (f0_tree_config n) i [f0 ! i] = Some (mo_leaf op)"
proof -
  let ?rows = "map (\<lambda>v. [v]) f0"
  note l = first_layer [OF R st]
  have rows: "?rows \<noteq> []" "length ?rows = n" using l(6,7) by auto
  obtain t r where t: "bulk_tree h T (tree_cfg n 16 0xFF) ?rows = Some (t, r)"
    and op: "\<And>i. i < n \<Longrightarrow> \<exists>op. open_full t i = Some op \<and>
       mo_index op = i \<and> verify_opening h (tree_cfg n 16 0xFF) r op = Some True \<and>
       compute_leaf_hash h (elem_bytes T) (tree_cfg n 16 0xFF) i (?rows ! i) = Some (mo_leaf op)"
    using tree_opens [OF rows, of h T 16 "0xFF"] by blast
  have "push_tree h T (f0_tree_config n) ?rows = Some (t, r)"
    using t by (simp add: f0_tree_config_def push_tree_bulk [OF rows(1)])
  moreover have "r = fr_root R"
    using R us calculation by (simp add: run_ok_def f0_tree_def split: list.splits)
  ultimately show ?thesis using that [of t] op l(6) by (simp add: f0_tree_config_def)
qed

end
