(* ===== verification/Fri_Classic.thy ===== *)
theory Fri_Classic
  imports Fri_Queries
begin

text \<open>
  The classic queries of an honest run of \<open>deep_ali/src/fri.rs\<close>, and the two modes put together.
\<close>

section \<open>One query\<close>

text \<open>Components of an embedded base field element: the element, then zeros.\<close>

definition base_ok :: "('f :: field, 'e) tower \<Rightarrow> bool" where
  "base_ok T \<longleftrightarrow> (\<forall>x. to_fp_components T (from_fp T x) = x # replicate (ext_degree T - 1) 0)"

text \<open>What the prover puts in the proof for query \<open>q\<close> at position \<open>i\<close>.\<close>

definition query_shown ::
    "hasher \<Rightarrow> ('f :: field, 'e :: field) tower \<Rightarrow> deep_fri_params \<Rightarrow> nat \<Rightarrow> 'f list \<Rightarrow> ('f, 'e) fri_run \<Rightarrow>
     ('f, 'e) deep_fri_proof \<Rightarrow> nat \<Rightarrow> nat \<Rightarrow> 'e fri_query_payload \<Rightarrow> bool" where
  "query_shown h T prm n f0 R pf q i qp \<longleftrightarrow>
     qp_refs qp = query_refs (schedule prm) (sizes_after R) i \<and>
     qp_payloads qp = map (\<lambda>ell. payload_of (fr_all R ! ell) (layer_positions i (sizes_after R) ! ell)) [0..<length (fr_all R)] \<and>
     qp_final_index qp = 0 \<and>
     (let op = qp_f0_opening qp in mo_index op = i \<and> verify_opening h (f0_tree_config n) (fr_root R) op = Some True \<and>
        compute_leaf_hash h (elem_bytes T) (f0_tree_config n) i [f0 ! i] = Some (mo_leaf op)) \<and>
     (\<forall>ell < length (fr_all R). \<exists>op. nth_opt (pf_layer_proofs pf) ell \<bind> (\<lambda>ops. nth_opt ops q) = Some op \<and>
        (let r = fr_all R ! ell; j = layer_positions i (sizes_after R) ! ell
         in opening_check h T (layer_cfg (lr_n r) (lr_m r) ell) (lr_root r) op j
           (ext_leaf_fields T (lr_f r ! j) (lr_s r ! j) (lr_q r ! j)) = Some True))"

lemma payload_nth:
  assumes "query_shown h T prm n f0 R pf q i qp" "k < length (fr_all R)"
  shows "nth_opt (qp_payloads qp) k = Some (payload_of (fr_all R ! k) (layer_positions i (sizes_after R) ! k))"
proof -
  have "qp_payloads qp = map (\<lambda>k. payload_of (fr_all R ! k) (layer_positions i (sizes_after R) ! k)) [0..<length (fr_all R)]"
    using assms(1) by (simp only: query_shown_def)
  then show ?thesis using assms(2) nth_opt_map [of k "[0..<length (fr_all R)]"] by (simp del: upt_Suc length_append)
qed

lemma deep_quotient:
  assumes T: "tower_ok T K" and ok: "layer_ok h T K False z ell r" and i: "i < lr_n r"
  shows "lr_q r ! i * (from_fp T (lr_omega r ^ i) - z) = lr_f r ! i - lr_fz r"
proof -
  have w: "prim_root (from_fp T (lr_omega r)) (lr_n r)"
    by (rule prim_root_from_fp [OF tower_okD(1) [OF T] layer_okD(7) [OF ok]])
  have "z ^ lr_n r \<noteq> 1" using layer_okD(9) [OF ok] by (auto simp: z_ok_def)
  from root_power_ne [OF w this, of i] have "from_fp T (lr_omega r) ^ i - z \<noteq> 0" by simp
  then show ?thesis
    using layer_algebra(4) [OF T ok] i by (simp add: fp_hom_simps [OF tower_okD(1) [OF T]])
qed

lemma final_consistency:
  assumes T: "tower_ok T K" and R: "run_ok h T K prm n f0 R" and pf: "proof_of prm n R pf"
    and i: "qr_i ref = i" "i < lr_n (fr_final R)" "qp_final_index qp = 0"
  shows "coeff_consistency T prm pf (run_replay T prm R) (lr_omega (fr_final R)) 1 qp ref (payload_of (fr_final R) i) = Some True"
proof -
  let ?r = "fr_final R"
  note ok = run_okD(3) [OF R] and fin = final_next [OF T R]
  let ?W = "from_fp T (lr_omega ?r)" and ?m = "lr_m ?r" and ?t = "lr_tuples ?r ! 0"
  have nm: "lr_n ?r = ?m" using R by (simp add: run_ok_def)
  have b: "0 < lr_n ?r div lr_m ?r" using fin(2) by simp
  note fold = fold_of_fibre [OF ok b]
  have t: "?t = map (rem_coeffs ?m 1 1 (lr_a ?r)) [0..<?m]"
    using layer_algebra(1) [OF T ok] fin(2) by simp
  have len: "length (lr_tuples ?r) = 1" using layer_okD(5) [OF ok] fin(2) by simp
  then have ne: "lr_tuples ?r \<noteq> []" by auto
  have "?W ^ ?m = 1" using prim_root_from_fp [OF tower_okD(1) [OF T] layer_okD(7) [OF ok]] nm by (simp add: prim_root_def)
  then have "(?W ^ i) ^ ?m = 1" by (metis mult.commute power_mult power_one)
  from polyval_rem [OF this, of "lr_a ?r" 1]
  have "polyval (rem_coeffs ?m 1 1 (lr_a ?r)) ?m (?W ^ i) = lr_f ?r ! i"
    using layer_okD(8) [OF ok] i(2) nm by (simp add: evaluates_def)
  moreover have "dot ?t (map (from_fp T) (build_ext_pows (lr_omega ?r ^ i) ?m)) = polyval (rem_coeffs ?m 1 1 (lr_a ?r)) ?m (?W ^ i)"
    unfolding t by (simp add: comp_def dot_map polyval_def fp_hom_simps [OF tower_okD(1) [OF T]])
  ultimately have h: "dot ?t (map (from_fp T) (build_ext_pows (lr_omega ?r ^ i) ?m)) = lr_f ?r ! i" by simp
  have s: "last (schedule prm) = ?m" "last (rp_alphas (run_replay T prm R)) = lr_alpha ?r"
    using run_okD(4) [OF R] by (simp_all add: run_replay_def)
  have "dot ?t (build_ext_pows (lr_alpha ?r) ?m) = eval_final_poly_ext (pf_final_poly_coeffs pf) x" for x
    using fold(2) fin(1) pf by (simp add: proof_of_def eval_final_poly_eq)
  then show ?thesis
    using pf i h s len ne fold(4)
    by (simp add: coeff_consistency_def proof_of_def nth_opt_def guard_opt_def payload_of_def Let_def
        del: build_ext_pows_eq)
qed

lemma classic_layer_ok:
  assumes T: "tower_ok T K" and R: "run_ok h T K prm n f0 R" and us: "\<not> stir prm" and cc: "coeff_commit_final prm"
    and pf: "proof_of prm n R pf" and qp: "query_shown h T prm n f0 R pf q i qp" and i: "i < n"
    and ell: "ell < length (fr_all R)"
  shows "layer_check h T prm (map lr_n (fr_all R) @ [1]) pf (run_replay T prm R) (fr_z R) (map lr_omega (fr_all R)) 1 q qp ell = Some True"
proof -
  let ?r = "fr_all R ! ell" and ?j = "layer_positions i (sizes_after R) ! ell"
  have ok: "layer_ok h T K False (fr_z R) ell ?r" using run_okD(2) [OF R ell] us by simp
  have j: "?j < lr_n ?r" by (rule position_bound [OF R i ell])
  have len: "length (schedule prm) = length (fr_all R)" using run_okD(4) [OF R] by simp
  obtain op where op: "nth_opt (pf_layer_proofs pf) ell \<bind> (\<lambda>ops. nth_opt ops q) = Some op"
    "opening_check h T (layer_cfg (lr_n ?r) (lr_m ?r) ell) (lr_root ?r) op ?j
       (ext_leaf_fields T (lr_f ?r ! ?j) (lr_s ?r ! ?j) (lr_q ?r ! ?j)) = Some True"
    using qp ell unfolding query_shown_def Let_def by blast
  obtain ref where ref: "nth_opt (qp_refs qp) ell = Some ref" "qr_i ref = ?j"
    using qp ell query_refs_nth [OF R ell, of i] by (simp add: query_shown_def nth_opt_def)
  have pay: "nth_opt (qp_payloads qp) k = Some (payload_of (fr_all R ! k) (layer_positions i (sizes_after R) ! k))"
    if "k < length (fr_all R)" for k
    by (rule payload_nth [OF qp that])
  have nths: "nth_opt (pf_roots pf) ell = Some (lr_root ?r)" "nth_opt (pf_fz_per_layer pf) ell = Some (lr_fz ?r)"
    "(map lr_n (fr_all R) @ [1]) ! ell = lr_n ?r" "schedule prm ! ell = lr_m ?r" "map lr_omega (fr_all R) ! ell = lr_omega ?r"
    using pf nth_opt_map [OF ell] sizes_nth [OF ell] nth_map [OF ell] run_okD(4) [OF R]
    by (simp_all add: proof_of_def del: map_append)
  have last: "(if ell = length (schedule prm) - 1 \<and> use_coeff_commit prm
       then coeff_consistency T prm pf (run_replay T prm R) (lr_omega ?r) 1 qp ref (payload_of ?r ?j)
       else fold_consistency T prm pf 1 qp ell (payload_of ?r ?j)) = Some True"
  proof (cases "Suc ell < length (fr_all R)")
    case True
    then have lt: "ell < length (fr_layers R)" by simp
    then have r: "?r = fr_layers R ! ell" by (simp add: nth_append)
    have "transcribed h T us' tr rs \<Longrightarrow> k < length rs \<Longrightarrow> \<not> us' \<Longrightarrow> x < lr_n (rs ! k) \<Longrightarrow>
        lr_s (rs ! k) ! x = lr_next (rs ! k) ! (x mod (lr_n (rs ! k) div lr_m (rs ! k)))" for us' tr rs k x
      by (induction rs arbitrary: tr k) (auto simp: nth_Cons split: nat.splits)
    then have "lr_s ?r ! ?j = lr_next ?r ! (?j mod (lr_n ?r div lr_m ?r))"
      using R us lt j unfolding r run_ok_def by blast
    moreover have "layer_positions i (sizes_after R) ! Suc ell = ?j mod (lr_n ?r div lr_m ?r)"
    proof -
      have "sizes_after R ! ell = lr_n ?r div lr_m ?r" unfolding sizes_after_def by (rule nth_map [OF ell])
      then show ?thesis using layer_positions_nth [of "Suc ell" "sizes_after R" i] True by (simp add: sizes_after_def)
    qed
    ultimately show ?thesis
      using True linked_Suc [OF run_okD(1) [OF R] True] len pay [OF True]
      by (simp add: fold_consistency_def payload_of_def)
  next
    case False
    then have "ell = length (fr_layers R)" using ell by simp
    then have r: "?r = fr_final R" "ell = length (schedule prm) - 1" "use_coeff_commit prm"
      using len cc by (simp_all add: use_coeff_commit_def flip: length_greater_0_conv)
    show ?thesis
      using final_consistency [OF T R pf ref(2)] j qp r by (simp add: query_shown_def del: One_nat_def)
  qed
  have "lp_q_val (payload_of ?r ?j) * (from_fp T (lr_omega ?r ^ ?j) - fr_z R) = lp_f_val (payload_of ?r ?j) - lr_fz ?r"
    using deep_quotient [OF T ok j] by (simp add: payload_of_def)
  then show ?thesis
    using op ref pay [OF ell] nths last
    by (auto simp: layer_check_def bind_eq_Some_conv payload_of_def simp del: map_append One_nat_def)
qed

lemma classic_query_ok:
  assumes T: "tower_ok T K" and base: "base_ok T" and R: "run_ok h T K prm n f0 R" and st: "state_of T prm f0 R st"
    and us: "\<not> stir prm" and cc: "coeff_commit_final prm"
    and pf: "proof_of prm n R pf" and i: "query_position h T seed n q = Some i" "i < n"
    and qp: "nth_opt (pf_queries pf) q = Some qp" "query_shown h T prm n f0 R pf q i qp"
  shows "classic_query_check h T prm (map lr_n (fr_all R) @ [1]) pf (run_replay T prm R) (fr_z R) seed (map lr_omega (fr_all R)) 1 q = Some True"
proof -
  have len: "length (schedule prm) = length (fr_all R)" using run_okD(4) [OF R] by simp
  have "positions_check qp (layer_positions i (sizes_after R)) = Some True"
    using qp(2) query_refs_nth [OF R, of _ i]
    by (auto simp: positions_check_def all_opt_True in_set_enumerate_eq query_shown_def nth_opt_def sizes_after_def
        simp del: map_append)
  moreover have "f0_check h T pf qp i = Some True"
  proof -
    have "nth_opt (qp_payloads qp) 0 = Some (payload_of (fr_all R ! 0) i)"
      using payload_nth [OF qp(2), of 0] layer_positions_nth [of 0 "sizes_after R" i] by (simp add: sizes_after_def)
    moreover have "lp_f_val (payload_of (fr_all R ! 0) i) = from_fp T (f0 ! i)"
      using first_layer(3,6) [OF R st] i(2) by (simp add: payload_of_def)
    ultimately show ?thesis
      using qp(2) pf base by (auto simp: f0_check_def query_shown_def Let_def proof_of_def base_ok_def nth_opt_def)
  qed
  moreover have "qp_final_index qp = final_position i (sizes_after R)"
    using qp(2) final_position_0 [OF T R] by (simp add: query_shown_def)
  moreover have "pf_n0 pf = n" using pf by (simp add: proof_of_def)
  ultimately show ?thesis
    using qp(1) i classic_layer_ok [OF T R us cc pf qp(2) i(2)] nns_eq(2) [OF R st] len
    by (simp add: classic_query_check_def all_opt_True del: map_append One_nat_def)
qed

end
