(* ===== verification/Fri_Props.thy ===== *)
theory Fri_Props
  imports Fri_Classic Complex_Main
begin

text \<open>
  Properties of the low-degree test of \<open>deep_ali/src/fri.rs\<close>.
\<close>

section \<open>The prover's queries\<close>

lemma those_map_nth:
  assumes "\<And>q. q < length xs \<Longrightarrow> \<exists>y. g (xs ! q) = Some y \<and> P q y"
  shows "\<exists>ys. those (map g xs) = Some ys \<and> length ys = length xs \<and> (\<forall>q < length xs. P q (ys ! q))"
proof -
  obtain ys where ys: "those (map g xs) = Some ys"
    using those_total [of "map g xs"] assms by fastforce
  have "P q (ys ! q)" if "q < length xs" for q using those_nth [OF ys, of q] assms [OF that] that by auto
  then show ?thesis using ys those_length [OF ys] by auto
qed

text \<open>The references of the queries at positions \<open>is\<close>.\<close>

definition refs_of :: "deep_fri_params \<Rightarrow> ('f, 'e) fri_run \<Rightarrow> nat list \<Rightarrow> (layer_query_ref list \<times> nat) list" where
  "refs_of prm R is = map (\<lambda>i. (query_refs (schedule prm) (sizes_after R) i, final_position i (sizes_after R))) is"

lemma refs_of_nth:
  assumes R: "run_ok h T K prm n f0 R" and "q < length is" "ell < length (fr_all R)"
  shows "nth_opt (fst (refs_of prm R is ! q)) ell \<bind> (\<lambda>ref. open_full t (qr_i ref)) =
    open_full t (layer_positions (is ! q) (sizes_after R) ! ell)"
  using query_refs_nth [OF R assms(3), of "is ! q"] assms(2,3) by (simp add: refs_of_def nth_opt_def)

abbreviation layer_opened ::
    "hasher \<Rightarrow> ('f, 'e) tower \<Rightarrow> ('f, 'e) fri_run \<Rightarrow> nat \<Rightarrow> nat \<Rightarrow> merkle_opening \<Rightarrow> bool" where
  "layer_opened h T R i ell op \<equiv> (let r = fr_all R ! ell; j = layer_positions i (sizes_after R) ! ell
     in opening_check h T (layer_cfg (lr_n r) (lr_m r) ell) (lr_root r) op j
       (ext_leaf_fields T (lr_f r ! j) (lr_s r ! j) (lr_q r ! j)) = Some True)"

lemma layer_openings:
  assumes R: "run_ok h T K prm n f0 R" and st: "state_of T prm f0 R st" and us: "\<not> stir prm"
    and ell: "ell < length (fr_all R)" and iss: "\<And>q. q < length is \<Longrightarrow> is ! q < n"
  shows "\<exists>ops. do { (tree, _) \<leftarrow> layer_tree h T st ell;
      those (map (\<lambda>(refs, _). nth_opt refs ell \<bind> (\<lambda>ref. open_full tree (qr_i ref))) (refs_of prm R is)) } = Some ops \<and>
    length ops = length is \<and> (\<forall>q < length is. layer_opened h T R (is ! q) ell (ops ! q))"
proof -
  let ?r = "fr_all R ! ell" and ?j = "\<lambda>q. layer_positions (is ! q) (sizes_after R) ! ell"
  have rows: "layer_tree h T st ell = push_tree h T (layer_cfg (lr_n ?r) (lr_m ?r) ell)
      (layer_rows T (stir prm) (lr_n ?r) (lr_f ?r) (lr_s ?r) (lr_q ?r))"
    using state_layers(2) [OF st ell] layer_f [OF R st ell] us by (simp add: layer_tree_def Let_def)
  obtain u where u: "layer_tree h T st ell = Some (u, lr_root ?r)"
    and uop: "\<And>j. j < lr_n ?r \<Longrightarrow> \<exists>op. open_full u j = Some op \<and>
      opening_check h T (layer_cfg (lr_n ?r) (lr_m ?r) ell) (lr_root ?r) op j
        (layer_rows T (stir prm) (lr_n ?r) (lr_f ?r) (lr_s ?r) (lr_q ?r) ! j) = Some True"
    unfolding rows using layer_tree_exists [OF R ell] by blast
  have "\<exists>op. (\<lambda>(refs, _). nth_opt refs ell \<bind> (\<lambda>ref. open_full u (qr_i ref))) (refs_of prm R is ! q) = Some op \<and>
      layer_opened h T R (is ! q) ell op" if q: "q < length (refs_of prm R is)" for q
  proof -
    have q: "q < length is" using q by (simp add: refs_of_def)
    have j: "?j q < lr_n ?r" by (rule position_bound [OF R iss [OF q] ell])
    then show ?thesis
      using uop [OF j] refs_of_nth [OF R q ell, of u] us by (simp add: split_beta layer_rows_def Let_def)
  qed
  from those_map_nth [where xs = "refs_of prm R is" and g = "\<lambda>(refs, _). nth_opt refs ell \<bind> (\<lambda>ref. open_full u (qr_i ref))", OF this]
  obtain ops where "those (map (\<lambda>(refs, _). nth_opt refs ell \<bind> (\<lambda>ref. open_full u (qr_i ref))) (refs_of prm R is)) = Some ops"
    "length ops = length (refs_of prm R is)" "\<forall>q < length (refs_of prm R is). layer_opened h T R (is ! q) ell (ops ! q)" by blast
  then show ?thesis using u by (simp add: refs_of_def)
qed

lemma f0_openings:
  assumes R: "run_ok h T K prm n f0 R" and st: "state_of T prm f0 R st" and us: "\<not> stir prm"
    and iss: "\<And>q. q < length is \<Longrightarrow> is ! q < n"
  shows "\<exists>f0s. do { (tree0, _) \<leftarrow> push_tree h T (f0_tree_config n) (map (\<lambda>v. [v]) f0);
      those (map (\<lambda>(refs, _). nth_opt refs 0 \<bind> (\<lambda>ref. open_full tree0 (qr_i ref))) (refs_of prm R is)) } = Some f0s \<and>
    length f0s = length is \<and> (\<forall>q < length is. let op = f0s ! q in mo_index op = is ! q \<and>
       verify_opening h (f0_tree_config n) (fr_root R) op = Some True \<and>
       compute_leaf_hash h (elem_bytes T) (f0_tree_config n) (is ! q) [f0 ! (is ! q)] = Some (mo_leaf op))"
proof -
  let ?ok = "\<lambda>q op. mo_index op = is ! q \<and> verify_opening h (f0_tree_config n) (fr_root R) op = Some True \<and>
       compute_leaf_hash h (elem_bytes T) (f0_tree_config n) (is ! q) [f0 ! (is ! q)] = Some (mo_leaf op)"
  obtain t where t: "push_tree h T (f0_tree_config n) (map (\<lambda>v. [v]) f0) = Some (t, fr_root R)"
    and top: "\<And>i. i < n \<Longrightarrow> \<exists>op. open_full t i = Some op \<and> mo_index op = i \<and>
       verify_opening h (f0_tree_config n) (fr_root R) op = Some True \<and>
       compute_leaf_hash h (elem_bytes T) (f0_tree_config n) i [f0 ! i] = Some (mo_leaf op)"
    using f0_tree_opens [OF R st us] by blast
  have "\<exists>op. (\<lambda>(refs, _). nth_opt refs 0 \<bind> (\<lambda>ref. open_full t (qr_i ref))) (refs_of prm R is ! q) = Some op \<and> ?ok q op"
    if q: "q < length (refs_of prm R is)" for q
  proof -
    have q: "q < length is" using q by (simp add: refs_of_def)
    show ?thesis
      using top [OF iss [OF q]] refs_of_nth [OF R q, of 0 t] layer_positions_nth [of 0 "sizes_after R" "is ! q"]
      by (simp add: split_beta sizes_after_def)
  qed
  from those_map_nth [where xs = "refs_of prm R is" and g = "\<lambda>(refs, _). nth_opt refs 0 \<bind> (\<lambda>ref. open_full t (qr_i ref))", OF this]
  obtain f0s where "those (map (\<lambda>(refs, _). nth_opt refs 0 \<bind> (\<lambda>ref. open_full t (qr_i ref))) (refs_of prm R is)) = Some f0s"
    "length f0s = length (refs_of prm R is)" "\<forall>q < length (refs_of prm R is). ?ok q (f0s ! q)" by blast
  then show ?thesis using t by (simp add: refs_of_def Let_def)
qed

lemma classic_prove:
  assumes T: "tower_ok T K" and R: "run_ok h T K prm n f0 R" and st: "state_of T prm f0 R st" and us: "\<not> stir prm"
  obtains "is" lps f0s where
    "fri_prove_queries h T st (schedule prm) rq seed = Some (refs_of prm R is, map lr_root (fr_all R), lps, f0s)"
    "length is = rq" "length f0s = rq" "\<And>q. q < rq \<Longrightarrow> query_position h T seed n q = Some (is ! q) \<and> is ! q < n"
    "\<And>q. q < rq \<Longrightarrow> let op = f0s ! q in mo_index op = is ! q \<and>
       verify_opening h (f0_tree_config n) (fr_root R) op = Some True \<and>
       compute_leaf_hash h (elem_bytes T) (f0_tree_config n) (is ! q) [f0 ! (is ! q)] = Some (mo_leaf op)"
    "\<And>q ell. q < rq \<Longrightarrow> ell < length (fr_all R) \<Longrightarrow> \<exists>op. nth_opt lps ell \<bind> (\<lambda>ops. nth_opt ops q) = Some op \<and>
       layer_opened h T R (is ! q) ell op"
proof -
  note l = first_layer [OF R st] and nns = nns_eq(1) [OF R st]
  have len: "length (schedule prm) = length (fr_all R)" using run_okD(4) [OF R] by simp
  have "\<exists>i. query_position h T seed n ([0..<rq] ! q) = Some i \<and> query_position h T seed n q = Some i \<and> i < n"
    if "q < length [0..<rq]" for q
    using query_position_total [OF l(7), of h T seed q] that by auto
  from those_map_nth [where xs = "[0..<rq]" and g = "query_position h T seed n", OF this]
  obtain "is" where iss: "those (map (query_position h T seed n) [0..<rq]) = Some is" "length is = length [0..<rq]"
    and pos: "\<forall>q < length [0..<rq]. query_position h T seed n q = Some (is ! q) \<and> is ! q < n" by blast
  have bound: "q < length is \<Longrightarrow> is ! q < n" for q using pos iss(2) by simp
  obtain f0s where f0s: "do { (tree0, _) \<leftarrow> push_tree h T (f0_tree_config n) (map (\<lambda>v. [v]) f0);
      those (map (\<lambda>(refs, _). nth_opt refs 0 \<bind> (\<lambda>ref. open_full tree0 (qr_i ref))) (refs_of prm R is)) } = Some f0s"
    "length f0s = length is" "\<forall>q < length is. let op = f0s ! q in mo_index op = is ! q \<and>
       verify_opening h (f0_tree_config n) (fr_root R) op = Some True \<and>
       compute_leaf_hash h (elem_bytes T) (f0_tree_config n) (is ! q) [f0 ! (is ! q)] = Some (mo_leaf op)"
    using f0_openings [OF R st us bound] by blast
  let ?g = "\<lambda>ell. do { (tree, _) \<leftarrow> layer_tree h T st ell;
      those (map (\<lambda>(refs, _). nth_opt refs ell \<bind> (\<lambda>ref. open_full tree (qr_i ref))) (refs_of prm R is)) }"
  have "\<exists>ops. ?g ([0..<length (schedule prm)] ! ell) = Some ops \<and>
      length ops = length is \<and> (\<forall>q < length is. layer_opened h T R (is ! q) ell (ops ! q))"
    if "ell < length [0..<length (schedule prm)]" for ell
    using layer_openings [OF R st us _ bound, of ell] that len by (simp del: upt_Suc length_append)
  from those_map_nth [where xs = "[0..<length (schedule prm)]" and g = ?g, OF this]
  obtain lps where lps: "those (map ?g [0..<length (schedule prm)]) = Some lps" "length lps = length [0..<length (schedule prm)]"
    and lop: "\<forall>ell < length [0..<length (schedule prm)].
      length (lps ! ell) = length is \<and> (\<forall>q < length is. layer_opened h T R (is ! q) ell (lps ! ell ! q))" by blast
  have "ps_f0_base st = f0" "map fl_root (ps_layers st) = map lr_root (fr_all R)"
    using st by (simp_all add: state_of_def comp_def)
  then have "fri_prove_queries h T st (schedule prm) rq seed = Some (refs_of prm R is, map lr_root (fr_all R), lps, f0s)"
    using f0s(1) lps(1) iss(1) unfolding fri_prove_queries_def Let_def l(1) nns refs_of_def [symmetric]
    by (auto simp: bind_eq_Some_conv refs_of_def split: prod.splits)
  then show ?thesis
  proof (rule that)
    show "length is = rq" "length f0s = rq" using iss(2) f0s(2) by simp_all
    show "query_position h T seed n q = Some (is ! q) \<and> is ! q < n" if "q < rq" for q using pos that by simp
    show "let op = f0s ! q in mo_index op = is ! q \<and>
       verify_opening h (f0_tree_config n) (fr_root R) op = Some True \<and>
       compute_leaf_hash h (elem_bytes T) (f0_tree_config n) (is ! q) [f0 ! (is ! q)] = Some (mo_leaf op)" if "q < rq" for q
      using f0s(3) iss(2) that by simp
    fix q ell assume "q < rq" "ell < length (fr_all R)"
    then show "\<exists>op. nth_opt lps ell \<bind> (\<lambda>ops. nth_opt ops q) = Some op \<and> layer_opened h T R (is ! q) ell op"
      using lop lps(2) len iss(2) by (simp add: nth_opt_def del: length_append)
  qed
qed


section \<open>Every word is accepted\<close>

lemma query_seed_run:
  assumes R: "run_ok h T K prm n f0 R" and st: "state_of T prm f0 R st" and cc: "coeff_commit_final prm"
  shows "query_seed_of h T prm n st (lr_next (fr_final R)) = Some (run_seed h T prm R)"
proof -
  let ?us = "stir prm" and ?tr = "start_transcript T prm n (fr_root R)"
  have st': "ps_root_f0 st = fr_root R" "absorbed_values ?us st = map (absorbed ?us) (fr_all R)"
    "ps_layers st = map (\<lambda>r. \<lparr>fl_n = lr_n r, fl_m = lr_m r, fl_root = lr_root r\<rparr>) (fr_all R)"
    "ps_coeff_root st = Some (fr_coeff_root R)"
    using st by (auto simp: state_of_def absorbed_values_def absorbed_def)
  have tr: "transcribed h T ?us ?tr (fr_layers R)" "lr_tr (fr_final R) = tr_end T ?us ?tr (fr_layers R)"
    using R by (simp_all add: run_ok_def)
  have z: "zip (map f xs) (map g xs) = map (\<lambda>x. (f x, g x)) xs" for f g and xs :: "('a, 'b) layer_run list"
    by (induction xs) simp_all
  have "fold (\<lambda>(evs, l). absorb_layer T evs (fl_root l)) (zip (absorbed_values ?us st) (ps_layers st)) ?tr =
      tr_after T ?us (fr_final R)"
    using tr_end_absorbs [OF tr(1)] tr(2)
    by (simp add: st' z fold_map comp_def tr_after_def absorbed_def del: map_append)
  moreover have "use_coeff_commit prm" using cc run_okD(4) [OF R] by (simp add: use_coeff_commit_def)
  ultimately show ?thesis by (simp add: query_seed_of_def st'(1,4) Let_def run_seed_def run_replay_def)
qed

lemma verify_run:
  assumes T: "tower_ok T K" and prm: "coeff_commit_final prm" "d_final prm = 1" and R: "run_ok h T K prm n f0 R"
    and pf: "proof_of prm n R pf"
    and queries: "if stir prm then stir_check h T prm (map lr_n (fr_all R) @ [1]) pf (run_replay T prm R)
        (run_seed h T prm R) (map lr_omega (fr_all R)) 1 = Some True
      else \<forall>q < num_queries prm. classic_query_check h T prm (map lr_n (fr_all R) @ [1]) pf (run_replay T prm R)
        (fr_z R) (run_seed h T prm R) (map lr_omega (fr_all R)) 1 q = Some True"
  shows "deep_fri_verify h T prm pf = Some True"
proof -
  have "pf_n0 pf = n" "length (pf_final_poly_coeffs pf) = 1" using pf R by (simp_all add: proof_of_def run_ok_def)
  moreover have "(if stir prm then all_opt (ood_fold_check prm pf (fr_z R) (run_replay T prm R)) [0..<length (schedule prm)]
      else Some True) = Some True"
    using ood_fold_ok [OF T R _ pf] by (simp add: all_opt_True)
  moreover have "(if use_coeff_commit prm then coeff_check h T prm (map lr_n (fr_all R) @ [1]) pf (Some (fr_beta R)) else Some True) = Some True"
    using coeff_check_ok [OF T R pf prm(2)] by simp
  ultimately show ?thesis
    unfolding deep_fri_verify_def using run_okD(5) [OF R] replay_run [OF R prm(1) pf] omegas_ok [OF R] queries prm(2)
    by (auto simp: all_opt_True simp del: map_append)
qed

lemma query_payload_shown:
  assumes T: "tower_ok T K" and R: "run_ok h T K prm n f0 R" and st: "state_of T prm f0 R st" and us: "\<not> stir prm"
    and q: "q < length is" "length f0s = length is"
    and op: "let op = f0s ! q in mo_index op = is ! q \<and>
       verify_opening h (f0_tree_config n) (fr_root R) op = Some True \<and>
       compute_leaf_hash h (elem_bytes T) (f0_tree_config n) (is ! q) [f0 ! (is ! q)] = Some (mo_leaf op)"
    and lop: "\<And>ell. ell < length (fr_all R) \<Longrightarrow> \<exists>op. nth_opt (pf_layer_proofs pf) ell \<bind> (\<lambda>ops. nth_opt ops q) = Some op \<and>
       layer_opened h T R (is ! q) ell op"
  shows "query_shown h T prm n f0 R pf q (is ! q) (query_payloads st (refs_of prm R is) f0s ! q)"
proof -
  let ?refs = "query_refs (schedule prm) (sizes_after R) (is ! q)"
  have qp: "query_payloads st (refs_of prm R is) f0s ! q =
      \<lparr>qp_refs = ?refs, qp_payloads = map (\<lambda>(ell, ref). layer_payload st ell (qr_i ref)) (enumerate 0 ?refs),
       qp_f0_opening = f0s ! q, qp_final_index = 0\<rparr>"
    using q by (simp add: query_payloads_def refs_of_def final_position_0 [OF T R])
  have pay: "map (\<lambda>(ell, ref). layer_payload st ell (qr_i ref)) (enumerate 0 ?refs) =
      map (\<lambda>ell. payload_of (fr_all R ! ell) (layer_positions (is ! q) (sizes_after R) ! ell)) [0..<length (fr_all R)]"
  proof (rule nth_equalityI)
    have len: "length ?refs = length (fr_all R)" by (rule query_refs_nth(2) [OF R, of 0]) simp
    then show "length (map (\<lambda>(ell, ref). layer_payload st ell (qr_i ref)) (enumerate 0 ?refs)) =
      length (map (\<lambda>ell. payload_of (fr_all R ! ell) (layer_positions (is ! q) (sizes_after R) ! ell)) [0..<length (fr_all R)])"
      by simp
    fix ell assume "ell < length (map (\<lambda>(ell, ref). layer_payload st ell (qr_i ref)) (enumerate 0 ?refs))"
    then have ell: "ell < length (fr_all R)" using len by simp
    then show "map (\<lambda>(ell, ref). layer_payload st ell (qr_i ref)) (enumerate 0 ?refs) ! ell =
      map (\<lambda>ell. payload_of (fr_all R ! ell) (layer_positions (is ! q) (sizes_after R) ! ell)) [0..<length (fr_all R)] ! ell"
      using len query_refs_nth(1) [OF R ell, of "is ! q"] layer_payload_eq [OF T R st us ell]
      by (simp add: nth_enumerate_eq del: upt_Suc length_append)
  qed
  show ?thesis using op lop unfolding query_shown_def qp pay by (simp add: Let_def)
qed

lemma honest_run_accepted:
  assumes T: "tower_ok T K" and base: "base_ok T" and prm: "folds_fully prm k Ls" "k \<le> K"
    and f0: "length f0 = 2 ^ k" and z: "z_good h T prm (2 ^ k) f0"
  shows "\<exists>pf. deep_fri_prove h T f0 omega0 (2 ^ k) prm = Some pf \<and> deep_fri_verify h T prm pf = Some True"
proof -
  let ?n = "2 ^ k :: nat"
  obtain st R where st: "fri_build_transcript h T f0 ?n prm = Some st" and R: "run_ok h T K prm ?n f0 R"
    and s: "state_of T prm f0 R st"
    by (rule build_run [OF T prm(2,1) f0 z])
  have cc: "coeff_commit_final prm" "d_final prm = 1" using prm(1) by (simp_all add: folds_fully_def)
  let ?seed = "run_seed h T prm R"
  have one: "length (lr_next (fr_final R)) = 1" using R by (simp add: run_ok_def)
  have len: "length (schedule prm) = length (fr_all R)" using run_okD(4) [OF R] by simp
  have fin: "nth_opt (ps_f_layers st) (length (schedule prm)) = Some (lr_next (fr_final R))"
    using s len by (simp add: state_of_def nth_opt_def nth_append)
  have co: "ext_evals_to_coeffs T (lr_next (fr_final R)) = Some (lr_next (fr_final R))"
    "take 1 (lr_next (fr_final R)) = lr_next (fr_final R)"
    using one by (simp_all add: ext_evals_to_coeffs_def)
  have roots: "map fl_root (ps_layers st) = map lr_root (fr_all R)" using s by (simp add: state_of_def comp_def)
  note start = deep_fri_prove_def st fin co cc(2) query_seed_run [OF R s cc(1)]
  show ?thesis
  proof (cases "stir prm")
    case True
    let ?pf = "\<lambda>prox. \<lparr>pf_root_f0 = ps_root_f0 st, pf_roots = map lr_root (fr_all R), pf_layer_proofs = [],
       pf_f0_openings = [], pf_queries = [], pf_fz_per_layer = ps_fz_layers st,
       pf_final_poly_coeffs = lr_next (fr_final R), pf_n0 = ?n, pf_omega0 = omega0,
       pf_coeff_tuples = ps_coeff_tuples st, pf_coeff_root = ps_coeff_root st,
       pf_stir_coset_evals = Some (ps_coset_evals st), pf_stir_queries = prox\<rparr>"
    have pf: "proof_of prm ?n R (?pf prox)" for prox using s True by (simp add: proof_of_def state_of_def)
    define prox where "prox = stir_prove_proximity_queries h T st (schedule prm) (s0 prm) ?seed"
    have q: "pf_stir_queries (?pf prox) = stir_prove_proximity_queries h T st (schedule prm) (s0 prm) ?seed"
      by (simp add: prox_def)
    note ok = stir_queries_ok [OF T R s True pf q]
    obtain px where px: "prox = Some px" using ok(1) by auto
    have "deep_fri_prove h T f0 omega0 ?n prm = Some (?pf prox)"
      using px True roots by (simp add: start prox_def [symmetric] del: One_nat_def map_append)
    moreover have "deep_fri_verify h T prm (?pf prox) = Some True"
      using verify_run [OF T cc R pf [of prox]] ok(2) True by simp
    ultimately show ?thesis by blast
  next
    case False
    obtain "is" lps f0s where pr: "fri_prove_queries h T st (schedule prm) (num_queries prm) ?seed =
        Some (refs_of prm R is, map lr_root (fr_all R), lps, f0s)"
      "length is = num_queries prm" "length f0s = num_queries prm"
      and pos: "\<And>q. q < num_queries prm \<Longrightarrow> query_position h T ?seed ?n q = Some (is ! q) \<and> is ! q < ?n"
      and op: "\<And>q. q < num_queries prm \<Longrightarrow> let op = f0s ! q in mo_index op = is ! q \<and>
       verify_opening h (f0_tree_config ?n) (fr_root R) op = Some True \<and>
       compute_leaf_hash h (elem_bytes T) (f0_tree_config ?n) (is ! q) [f0 ! (is ! q)] = Some (mo_leaf op)"
      and lop: "\<And>q ell. q < num_queries prm \<Longrightarrow> ell < length (fr_all R) \<Longrightarrow>
       \<exists>op. nth_opt lps ell \<bind> (\<lambda>ops. nth_opt ops q) = Some op \<and> layer_opened h T R (is ! q) ell op"
      using classic_prove [OF T R s False] by blast
    let ?qs = "query_payloads st (refs_of prm R is) f0s"
    let ?pf = "\<lparr>pf_root_f0 = ps_root_f0 st, pf_roots = map lr_root (fr_all R), pf_layer_proofs = lps,
       pf_f0_openings = f0s, pf_queries = ?qs, pf_fz_per_layer = ps_fz_layers st,
       pf_final_poly_coeffs = lr_next (fr_final R), pf_n0 = ?n, pf_omega0 = omega0,
       pf_coeff_tuples = ps_coeff_tuples st, pf_coeff_root = ps_coeff_root st,
       pf_stir_coset_evals = None, pf_stir_queries = None\<rparr>"
    have pf: "proof_of prm ?n R ?pf" using s False by (simp add: proof_of_def state_of_def)
    have "deep_fri_prove h T f0 omega0 ?n prm = Some ?pf"
      using False by (simp add: start pr(1) del: One_nat_def map_append)
    moreover have "classic_query_check h T prm (map lr_n (fr_all R) @ [1]) ?pf (run_replay T prm R) (fr_z R) ?seed
        (map lr_omega (fr_all R)) 1 q = Some True" if q: "q < num_queries prm" for q
    proof (rule classic_query_ok [OF T base R s False cc(1) pf])
      show "query_position h T ?seed ?n q = Some (is ! q)" "is ! q < ?n" using pos [OF q] by simp_all
      show "nth_opt (pf_queries ?pf) q = Some (?qs ! q)"
        using q pr(2,3) by (simp add: nth_opt_def query_payloads_def refs_of_def)
      show "query_shown h T prm ?n f0 R ?pf q (is ! q) (?qs ! q)"
        using q pr(2,3) op [OF q] lop [OF q] by (intro query_payload_shown [OF T R s False]) simp_all
    qed
    then have "deep_fri_verify h T prm ?pf = Some True"
      using verify_run [OF T cc R pf] False by simp
    ultimately show ?thesis by blast
  qed
qed


text \<open>The parameters of \<open>build_params\<close> fold the whole domain and keep one coefficient.\<close>

lemma build_params_folds_fully:
  assumes "build_params (2 ^ k) pi_hash ldt = Some prm" "0 < k"
  obtains Ls where "folds_fully prm k Ls"
proof -
  have p: "trailing_zeros (2 ^ k) = k" "is_power_of_two (2 ^ k)" by simp_all
  have sums: "sum_list (replicate j (x :: nat)) = j * x" for j x by (simp add: sum_list_replicate)
  show ?thesis
  proof (cases ldt)
    case Stir
    let ?Ls = "replicate (k div 3) 3 @ (if k mod 3 > 0 then [k mod 3] else [])"
    have "k div 3 * 3 + k mod 3 = k" by simp
    then have "folds_fully prm k ?Ls"
      using assms p by (auto simp: build_params_def make_schedule_def Stir folds_fully_def Let_def sums)
    then show ?thesis by (rule that)
  next
    case Fri
    have "folds_fully prm k (replicate k 1)"
      using assms p by (auto simp: build_params_def make_schedule_def Fri folds_fully_def Let_def sums)
    then show ?thesis by (rule that)
  qed
qed

text \<open>A small tower for witnesses: the rationals with the domains of sizes one and two.\<close>

definition rat_tower :: "(rat, rat) tower" where
  "rat_tower = \<lparr>from_fp = \<lambda>x. x, ext_degree = 1, to_fp_components = \<lambda>x. [x],
     from_fp_components = \<lambda>cs. (case cs of [c] \<Rightarrow> Some c | _ \<Rightarrow> None),
     into_bigint = \<lambda>x. 0, from_u64 = \<lambda>w. of_nat (unat w),
     group_gen = \<lambda>n. (if n = 1 then Some 1 else if n = 2 then Some (- 1) else None),
     ifft = \<lambda>ys. (case ys of [y, y'] \<Rightarrow> [(y + y') / 2, (y - y') / 2] | _ \<Rightarrow> ys),
     rng_u64 = \<lambda>x. 0\<rparr>"

lemma rat_tower_hom: "fp_hom rat_tower"
  by (simp add: fp_hom_def rat_tower_def)

lemma le_1_cases: "k \<le> Suc 0 \<longleftrightarrow> k = 0 \<or> k = 1"
  by auto

lemma prim_root_minus_1: "prim_root (- 1 :: rat) 2"
  by (auto simp: prim_root_def less_2_cases_iff)

lemma rat_tower_sizes: "sizes_ok rat_tower 1"
  by (auto simp: sizes_ok_def rat_tower_def f_of_nat_def le_1_cases)

lemma rat_tower_ok: "tower_ok rat_tower 1" "base_ok rat_tower"
proof -
  have "comps_ok rat_tower"
    by (auto simp: comps_ok_def rat_tower_def length_Suc_conv intro!: exI [of _ "[1]"])
  moreover have "ifft_ok rat_tower 1"
    unfolding ifft_ok_def
  proof (intro allI impI)
    fix k g and ys :: "rat list"
    assume k: "k \<le> 1" and ys: "group_gen rat_tower (2 ^ k) = Some g \<and> length ys = 2 ^ k"
    consider (one) "k = 0" | (two) "k = 1" using k by (auto simp: le_1_cases)
    then show "length (ifft rat_tower ys) = 2 ^ k \<and> (\<forall>i < 2 ^ k. (\<Sum>l < 2 ^ k. ifft rat_tower ys ! l * g ^ (i * l)) = ys ! i)"
    proof cases
      case one
      then obtain y where "ys = [y]" using ys by (auto simp: length_Suc_conv)
      then show ?thesis using one by (simp add: rat_tower_def)
    next
      case two
      then obtain y y' where y: "ys = [y, y']" using ys by (auto simp: length_Suc_conv numeral_2_eq_2)
      have "g = - 1" using ys two by (simp add: rat_tower_def)
      then have "i < 2 \<Longrightarrow> (\<Sum>l < 2. ifft rat_tower ys ! l * g ^ (i * l)) = ys ! i" for i
        by (auto simp: y rat_tower_def numeral_2_eq_2 less_Suc_eq) (simp_all add: field_simps)
      then show ?thesis using two y by (simp add: rat_tower_def)
    qed
  qed
  moreover have "domains_ok rat_tower 1"
    using prim_root_minus_1 by (auto simp: domains_ok_def rat_tower_def le_1_cases intro!: exI [of _ "- 1"])
  ultimately show "tower_ok rat_tower 1" using rat_tower_hom rat_tower_sizes by (simp add: tower_ok_def)
  show "base_ok rat_tower" by (simp add: base_ok_def rat_tower_def)
qed


lemma toy_challenge:
  "safe_field_challenge toy_hasher rat_tower tr (ascii ''z_fp3'' @ ascii ''/c'' @ ascii (decimal 0)) = 25392"
proof -
  have "char_of (48 :: nat) = CHR ''0''" by (simp add: char_of_eq_iff)
  then have "challenge_bytes toy_hasher tr (ascii ''z_fp3'' @ ascii ''/c'' @ ascii (decimal 0)) = [0x30, 0x63]"
    by (simp add: challenge_bytes_def toy_hasher_def ascii_def decimal.simps)
  moreover have "rchunks7 [0x30, 0x63 :: 8 word] = [[0x30, 0x63]]"
    by (simp add: rchunks7.simps)
  ultimately show ?thesis
    by (simp add: safe_field_challenge_def rat_tower_def of_le_bytes_def)
qed

section \<open>The claims\<close>

lemma toy_z_good:
  assumes "stir prm"
  shows "z_good toy_hasher rat_tower prm n f0"
  using toy_challenge assms
  by (auto simp: z_good_def challenge_ext_def rat_tower_def bind_eq_Some_conv)

text \<open>C14: The prover's proof of any word is accepted: with the parameters \<open>build_params\<close> makes, for every
  word on a domain of size 2^k, the prover returns a proof and the verifier accepts it, as soon
  as the out-of-domain challenge is outside the domain. There is no condition on the degree.\<close>

theorem fri_accepts_every_word:
  assumes "tower_ok T K" "base_ok T" "0 < k" "k \<le> K"
    and "build_params (2 ^ k) pi_hash ldt = Some prm" "length f0 = 2 ^ k" "z_good h T prm (2 ^ k) f0"
  shows "\<exists>pf. deep_fri_prove h T f0 omega0 (2 ^ k) prm = Some pf \<and> deep_fri_verify h T prm pf = Some True"
proof -
  obtain Ls where "folds_fully prm k Ls" using build_params_folds_fully [OF assms(5,3)] .
  then show ?thesis using honest_run_accepted [OF assms(1,2)] assms(4,6,7) by blast
qed

lemma fri_accepts_every_word_witness:
  "\<exists>prm pf. build_params 2 [] Stir = Some prm \<and> deep_fri_prove toy_hasher rat_tower [3, 5] (- 1) 2 prm = Some pf \<and>
     deep_fri_verify toy_hasher rat_tower prm pf = Some True"
proof -
  obtain prm where prm: "build_params (2 ^ 1) [] Stir = Some prm"
  proof -
    have "trailing_zeros (2 ^ 1) = 1" "is_power_of_two (2 ^ 1)" by (simp_all only: trailing_zeros_pow is_power_of_two_pow)
    then show ?thesis using that by (simp add: build_params_def make_schedule_def Let_def)
  qed
  then have "stir prm" by (auto simp: build_params_def Let_def)
  then have "z_good toy_hasher rat_tower prm (2 ^ 1) [3, 5]" by (rule toy_z_good)
  then show ?thesis
    using fri_accepts_every_word [OF rat_tower_ok _ _ prm, of "[3, 5]" toy_hasher "- 1"] prm by simp
qed

text \<open>The in-place transform computes the discrete Fourier transform: for a root of unity of
  order 2^L and any 2^L values, the bit reversal and the butterfly stages return the values of
  the polynomial with these coefficients at the powers of the root.\<close>

lemma fft_is_dft:
  assumes "fp_hom T" "prim_root w (2 ^ L)" "length xs = 2 ^ L"
  shows "fft_in_place_ext T xs w = Some (map (\<lambda>i. \<Sum>j < 2 ^ L. xs ! j * (from_fp T w ^ i) ^ j) [0..<2 ^ L])"
  using fft_in_place_dft [OF assms(3,1,2)] assms(3)
  by (simp add: dft_def mult.commute flip: power_mult)

lemma fft_is_dft_witness: "fft_in_place_ext rat_tower [3, 5] (- 1) = Some [8, - 2]"
  using fft_is_dft [OF rat_tower_hom, of "- 1" 1 "[3, 5]"] prim_root_minus_1
  by (simp add: rat_tower_def numeral_2_eq_2)

text \<open>C15: Folding a layer is folding the polynomial: if the values of a layer are those of the
  polynomial \<open>a\<close> on a domain of size m n, the interpolation of the fibres followed by the fold
  with a challenge returns the values, on the next domain of size n, of the polynomial whose
  coefficient c is the sum over j below m of a(j + m c) times the j-th power of the challenge.\<close>

theorem fold_layer_evaluates:
  assumes "fp_hom T" "sizes_ok T K" "0 < L" "L \<le> K" "0 < n" "prim_root w (2 ^ L * n)"
    and "evals = map (\<lambda>i. polyval a (2 ^ L * n) (from_fp T w ^ i)) [0..<2 ^ L * n]"
  shows "(extract_all_coset_coefficients T evals w (2 ^ L) \<bind> (\<lambda>tuples. interpolation_fold_ext tuples alpha)) =
    Some (map (\<lambda>i. polyval (fold_coeffs (2 ^ L) alpha a) n ((from_fp T w ^ (2 ^ L)) ^ i)) [0..<n])"
  using extract_fold [OF assms(1-6), of evals a] assms(7) fold_tuples [OF assms(5), of "2 ^ L" "from_fp T w" a alpha]
  by (simp add: evaluates_def)

lemma fold_layer_evaluates_witness:
  "(extract_all_coset_coefficients rat_tower [8, - 2] (- 1) 2 \<bind> (\<lambda>tuples. interpolation_fold_ext tuples 10)) = Some [53]"
proof -
  have "[8, - 2] = map (\<lambda>i. polyval (\<lambda>j. if j = 0 then 3 else 5) (2 ^ 1 * 1) (from_fp rat_tower (- 1) ^ i)) [0..<2 ^ 1 * 1]"
    by (simp add: polyval_def rat_tower_def numeral_2_eq_2)
  from fold_layer_evaluates [OF rat_tower_hom rat_tower_sizes _ _ _ _ this, of 10] show ?thesis
    using prim_root_minus_1 by (simp add: polyval_def fold_coeffs_def rat_tower_def numeral_2_eq_2)
qed

end
