(* ===== verification/Goldilocks.thy ===== *)
theory Goldilocks
  imports Prelude "HOL-Library.Numeral_Type"
begin

text \<open>
  The base field of the proof system, \<open>ark-goldilocks\<close>: the integers modulo
  p = 2^64 - 2^32 + 1. The build script writes the modulus, the generator 7, the two-adicity 32
  and the root of unity 7^((p - 1) / 2^32); the arithmetic itself is the third-party \<open>Fp\<close>,
  whose documented meaning is arithmetic modulo p. The type \<open>gf\<close> has this arithmetic and is
  shown to be a field: 7 has order p - 1, so its powers are all the units.
\<close>

section \<open>The constants of the build script\<close>

definition MODULUS :: int where "MODULUS = 18446744069414584321"
definition GENERATOR :: int where "GENERATOR = 7"
definition TWO_ADICITY :: nat where "TWO_ADICITY = 32"
definition ODD_PART :: nat where "ODD_PART = nat (MODULUS - 1) div 2 ^ TWO_ADICITY"

lemma MODULUS_gt_1: "1 < MODULUS"
  by (simp add: MODULUS_def)

section \<open>The type of field elements\<close>

typedef gf = "{0 ..< MODULUS}"
  by (rule exI [of _ 0]) (simp add: MODULUS_def)

instantiation gf :: "{zero, one, plus, times, uminus, minus, inverse, equal}"
begin

definition zero_gf_def: "0 = Abs_gf 0"
definition one_gf_def: "1 = Abs_gf 1"
definition plus_gf_def: "x + y = Abs_gf ((Rep_gf x + Rep_gf y) mod MODULUS)"
definition times_gf_def: "x * y = Abs_gf ((Rep_gf x * Rep_gf y) mod MODULUS)"
definition minus_gf_def: "x - y = Abs_gf ((Rep_gf x - Rep_gf y) mod MODULUS)"
definition uminus_gf_def: "- x = Abs_gf ((- Rep_gf x) mod MODULUS)"
definition inverse_gf_def:
  "inverse x = (if x = 0 then 0 else Abs_gf (fst (bezw (nat (Rep_gf x)) (nat MODULUS)) mod MODULUS))"
definition divide_gf_def: "(x :: gf) div y = x * inverse y"
definition equal_gf_def: "HOL.equal (x :: gf) y \<longleftrightarrow> Rep_gf x = Rep_gf y"

instance by standard (simp add: equal_gf_def Rep_gf_inject)

end

interpretation gf: mod_type MODULUS Rep_gf Abs_gf
  by (rule mod_type.intro)
    (simp_all add: type_definition_gf MODULUS_gt_1 zero_gf_def one_gf_def plus_gf_def times_gf_def
      minus_gf_def uminus_gf_def)

instance gf :: comm_ring_1
  by (rule gf.comm_ring_1)

interpretation gf: mod_ring MODULUS Rep_gf Abs_gf ..

lemma gf_of_int_eq_iff: "(of_int a :: gf) = of_int b \<longleftrightarrow> a mod MODULUS = b mod MODULUS"
  by (metis gf.Rep_Abs_mod gf.of_int_eq)

lemma gf_of_int_eq_0_iff: "(of_int a :: gf) = 0 \<longleftrightarrow> MODULUS dvd a"
  using gf_of_int_eq_iff [of a 0] by (simp add: dvd_eq_mod_eq_0)

lemma gf_cases [case_names of_int]:
  fixes x :: gf
  obtains a where "x = of_int a" "0 \<le> a" "a < MODULUS"
  using gf.cases by blast

section \<open>The root of unity\<close>

text \<open>
  The steps of the computation of 7^(2^32 - 1) and of its square to the power 2^31, each with its
  quotient and remainder modulo p.
\<close>

fun steps_ok :: "int \<Rightarrow> int \<Rightarrow> (int \<times> int) list \<Rightarrow> bool" where
  "steps_ok c x [] \<longleftrightarrow> True"
| "steps_ok c x ((q, r) # qrs) \<longleftrightarrow> x * x * c = q * MODULUS + r \<and> steps_ok c r qrs"

definition odd_steps :: "(int \<times> int) list" where
  "odd_steps =
  [(0, 343),
   (0, 823543),
   (0, 4747561509943),
   (8553020, 11074261478625843323),
   (46538016023229720673, 12148266161370408270),
   (56002435508678139577, 7007601668316978083),
   (18634473742308562026, 8125271997680889877),
   (25052676695413524112, 2624486902016877951),
   (2613768603856235308, 8253119735826302939),
   (25847265827672469332, 3543566522599720475),
   (4764962617243911856, 11981551684735969599),
   (54475904345860342852, 10062120588441922115),
   (38419999349886321742, 10485806445487905393),
   (41723620970151811147, 4139485063330164956),
   (6502359206338864843, 12134830135347446949),
   (55878626223541897244, 4326791766630348883),
   (7104120296206835795, 206761543466863628),
   (16222502457426627, 10086585273483141421),
   (38607052533218672533, 1855730417186139594),
   (1306796883947548869, 7626447102712710903),
   (22071042257716239407, 7790920094560990216),
   (23033281637127610743, 5901922255895126089),
   (13217985964617414221, 8935258787870022506),
   (30296508974182092522, 13093775858033092690),
   (65059110649923945754, 11243737384857129666),
   (47973312218535118729, 2063617152444052883),
   (1615982210782367681, 13064848991504552222),
   (64771970039786058224, 16593403251012455084),
   (104483870589968102175, 5859133952941131217),
   (13027022755088247160, 15659105665374529263),
   (93049110738273779291, 1753635133440165772)]"

definition square_steps :: "(int \<times> int) list" where
  "square_steps =
  [(166708887468903991, 4614640910117430873),
   (1154399424049971884, 9123114210336311365),
   (4511973093009996851, 16116352524544190054),
   (14080361158478670879, 6414415596519834757),
   (2230460144622294524, 1213594585890690845),
   (79841288704448195, 17096174751763063430),
   (15844486704156700236, 5456943929260765144),
   (1614281465338340559, 9713644485405565297),
   (5114988793349933654, 16905767614792059275),
   (15493518941330557636, 5416168637041100469),
   (1590247178281506213, 17654865857378133588),
   (16896981237942002723, 3511170319078647661),
   (668319404399374695, 18146160046829613826),
   (17850473948468743512, 9306717745644682924),
   (4695408299218975106, 12380578893860276750),
   (8309256808156222390, 6115771955107415310),
   (2027602620068516376, 17776499369601055404),
   (17130607366173278638, 16207902636198568418),
   (14240784545824149997, 1532612707718625687),
   (127334216977357403, 17492915097719143606),
   (16588405924890216597, 455906449640507599),
   (11267608529812975, 11353340290879379826),
   (6987592784692205430, 1803076106186727246),
   (176241586724885086, 13797081185216407910),
   (10319406422896923811, 17870292113338400769),
   (17311854006015885313, 549755813888),
   (16384, 70368744161280),
   (268435455, 17293822564807737345),
   (16212958654255595520, 18446744069397807105),
   (18446744069381029889, 281474976710656),
   (4294967296, 18446744069414584320)]"

lemma steps_ok_tables: "steps_ok 7 7 odd_steps" "steps_ok 1 1753635133440165772 square_steps"
  by (simp_all add: odd_steps_def square_steps_def MODULUS_def)

lemma steps_ok_last:
  "steps_ok c x qrs \<Longrightarrow> (of_int (last (x # map snd qrs)) :: gf) =
     of_int x ^ 2 ^ length qrs * of_int c ^ (2 ^ length qrs - 1)"
proof (induction c x qrs rule: steps_ok.induct)
  case (2 c x q r qrs)
  let ?n = "2 ^ length qrs :: nat"
  have "r mod MODULUS = (x * x * c) mod MODULUS" using 2(2) by simp
  then have "(of_int r :: gf) = of_int x * of_int x * of_int c"
    by (simp only: gf_of_int_eq_iff flip: of_int_mult)
  moreover have "of_int (last (r # map snd qrs)) = (of_int r :: gf) ^ ?n * of_int c ^ (?n - 1)"
    using 2 by simp
  moreover have "(a * a * b) ^ ?n * b ^ (?n - 1) = a ^ (2 * ?n) * b ^ (2 * ?n - 1)" for a b :: gf
  proof -
    have "b ^ (2 * ?n - 1) = b ^ ?n * b ^ (?n - 1)" by (simp add: mult_2 flip: power_add)
    then show ?thesis by (simp add: power_mult_distrib mult_2 power_add mult.assoc)
  qed
  ultimately show ?case by (simp split: if_splits)
qed simp

definition root_of_unity :: gf where "root_of_unity = of_int GENERATOR ^ ODD_PART"

lemma ODD_PART_eq: "ODD_PART = 2 ^ 32 - 1"
  by (simp add: ODD_PART_def MODULUS_def TWO_ADICITY_def)

lemma root_of_unity_eq: "root_of_unity = of_int 1753635133440165772"
proof -
  have "(of_int (last (7 # map snd odd_steps)) :: gf) = of_int 7 ^ 2 ^ length odd_steps * of_int 7 ^ (2 ^ length odd_steps - 1)"
    by (rule steps_ok_last [OF steps_ok_tables(1)])
  moreover have "last (7 # map snd odd_steps) = 1753635133440165772" "length odd_steps = 31"
    by (simp_all add: odd_steps_def)
  moreover have "2 ^ 31 + (2 ^ 31 - 1) = ODD_PART" by (simp add: ODD_PART_eq)
  ultimately show ?thesis unfolding root_of_unity_def GENERATOR_def by (simp only: flip: power_add)
qed

lemma root_of_unity_half: "root_of_unity ^ 2 ^ 31 = of_int (- 1)"
proof -
  have "(of_int (last (1753635133440165772 # map snd square_steps)) :: gf) =
      root_of_unity ^ 2 ^ length square_steps * of_int 1 ^ (2 ^ length square_steps - 1)"
    unfolding root_of_unity_eq by (rule steps_ok_last [OF steps_ok_tables(2)])
  moreover have "last (1753635133440165772 # map snd square_steps) = 18446744069414584320" "length square_steps = 31"
    by (simp_all add: square_steps_def)
  moreover have "(of_int 18446744069414584320 :: gf) = of_int (- 1)"
    unfolding gf_of_int_eq_iff by (simp add: MODULUS_def)
  ultimately show ?thesis by (simp only: of_int_1 power_one mult_1_right)
qed

section \<open>The modulus is prime\<close>

lemma odd_part_exists: "0 < (i :: nat) \<Longrightarrow> \<exists>s m. i = 2 ^ s * m \<and> odd m"
proof (induction i rule: less_induct)
  case (less i)
  show ?case
  proof (cases "odd i")
    case True
    then have "i = 2 ^ 0 * i \<and> odd i" by simp
    then show ?thesis by blast
  next
    case False
    then obtain j where j: "i = 2 * j" by blast
    then have "\<exists>s m. j = 2 ^ s * m \<and> odd m" using less by simp
    then obtain s m where "j = 2 ^ s * m" "odd m" by blast
    then have "i = 2 ^ Suc s * m \<and> odd m" using j by simp
    then show ?thesis by blast
  qed
qed

lemma order_two_power:
  fixes w :: int
  assumes w: "w ^ 2 ^ n mod r = (- 1) mod r" and two: "\<not> r dvd 2" and i: "0 < i" "i < 2 ^ Suc n"
  shows "w ^ i mod r \<noteq> 1 mod r"
proof
  assume one: "w ^ i mod r = 1 mod r"
  obtain s m where sm: "i = 2 ^ s * m" "odd m" using odd_part_exists [OF i(1)] by blast
  then have "2 ^ s \<le> i" by (cases m) simp_all
  then have "(2 :: nat) ^ s < 2 ^ Suc n" using i(2) by (rule le_less_trans)
  then have "s \<le> n" by (simp only: power_strict_increasing_iff)
  then have "2 ^ n * m = i * 2 ^ (n - s)" by (simp add: sm(1) flip: power_add)
  then have "(w ^ 2 ^ n) ^ m = (w ^ i) ^ 2 ^ (n - s)" by (simp flip: power_mult)
  moreover have "(w ^ 2 ^ n) ^ m mod r = (- 1) ^ m mod r" by (metis w power_mod)
  moreover have "(w ^ i) ^ 2 ^ (n - s) mod r = 1 ^ 2 ^ (n - s) mod r" by (metis one power_mod)
  ultimately have "(- 1) mod r = 1 mod r" using sm(2) by simp
  then show False using two by (simp add: mod_eq_dvd_iff)
qed

lemma root_half_mod: "1753635133440165772 ^ 2 ^ 31 mod MODULUS = (- 1) mod MODULUS"
proof -
  have "(of_int (1753635133440165772 ^ 2 ^ 31) :: gf) = of_int (- 1)"
    using root_of_unity_half by (simp only: root_of_unity_eq of_int_power)
  then show ?thesis by (simp only: gf_of_int_eq_iff)
qed

text \<open>Modulo a divisor of p above 1 the powers of the root below 2^32 stay distinct.\<close>

lemma divisor_large:
  assumes r: "r dvd MODULUS" "1 < r"
  shows "2 ^ 32 < r"
proof -
  define w :: int where "w = 1753635133440165772"
  let ?N = "2 ^ Suc 31 :: nat"
  have w: "w ^ 2 ^ 31 mod r = (- 1) mod r"
    using root_half_mod mod_mod_cancel [OF r(1)] unfolding w_def by metis
  have "\<not> r dvd 2"
  proof
    assume "r dvd 2"
    then have "r = 2" using r(2) zdvd_imp_le [of r 2] by simp
    then show False using r(1) by (simp add: MODULUS_def)
  qed
  note ord = order_two_power [OF w this]
  have one: "w ^ ?N mod r = 1 mod r"
  proof -
    have "w ^ ?N = w ^ 2 ^ 31 * w ^ 2 ^ 31" by (simp only: power_Suc mult_2 power_add)
    then have "w ^ ?N mod r = ((- 1) mod r) * ((- 1) mod r) mod r" by (metis w mod_mult_eq)
    also have "\<dots> = (- 1) * (- 1) mod r" by (rule mod_mult_eq)
    finally show ?thesis by simp
  qed
  have inv: "w ^ i mod r * (w ^ (?N - i) mod r) mod r = 1 mod r" if "i \<le> ?N" for i
    using one that by (metis mod_mult_eq power_add le_add_diff_inverse)
  have "inj_on (\<lambda>i. w ^ i mod r) {..<?N}"
  proof (rule linorder_inj_onI')
    fix i j assume ij: "i \<in> {..<?N}" "j \<in> {..<?N}" "i < j"
    show "w ^ i mod r \<noteq> w ^ j mod r"
    proof
      assume eq: "w ^ i mod r = w ^ j mod r"
      have "w ^ (j + (?N - i)) mod r = 1 mod r"
        using inv [of i] ij eq by (metis lessThan_iff less_imp_le mod_mult_eq power_add)
      moreover have "j + (?N - i) = (j - i) + ?N" using ij by simp
      ultimately have "w ^ (j - i) * w ^ ?N mod r = 1 mod r" by (metis power_add)
      then have "w ^ (j - i) mod r = 1 mod r" using one by (metis mod_mult_right_eq mult.right_neutral)
      then show False using ord [of "j - i"] ij by (simp only: lessThan_iff) (meson less_imp_diff_less zero_less_diff)
    qed
  qed
  then have "?N = card ((\<lambda>i. w ^ i mod r) ` {..<?N})" by (simp only: card_image card_lessThan)
  also have "\<dots> \<le> card {1..<r}"
  proof (rule card_mono)
    show "(\<lambda>i. w ^ i mod r) ` {..<?N} \<subseteq> {1..<r}"
    proof (rule image_subsetI)
      fix i assume "i \<in> {..<?N}"
      then have "w ^ i mod r * (w ^ (?N - i) mod r) mod r = 1 mod r" by (intro inv) simp
      then have "w ^ i mod r \<noteq> 0" using r(2) by auto
      moreover have "0 \<le> w ^ i mod r" "w ^ i mod r < r" using r(2) by simp_all
      ultimately show "w ^ i mod r \<in> {1..<r}" by simp
    qed
  qed simp
  also have "\<dots> = nat (r - 1)" by simp
  finally show ?thesis using r(2) by simp
qed

lemma coprime_MODULUS:
  assumes "0 < a" "a < MODULUS"
  shows "gcd a MODULUS = 1"
proof (rule ccontr)
  let ?d = "gcd a MODULUS"
  assume "?d \<noteq> 1"
  moreover have "0 < ?d" using assms by (metis gcd_pos_int less_irrefl)
  ultimately have "1 < ?d" by linarith
  then have d: "2 ^ 32 < ?d" by (intro divisor_large) simp_all
  obtain e where e: "MODULUS = ?d * e" by (metis dvdE gcd_dvd2)
  have "?d \<le> a" using assms by (simp add: zdvd_imp_le)
  then have "?d < MODULUS" using assms(2) by simp
  moreover have "0 < e" using e MODULUS_gt_1 \<open>0 < ?d\<close> by (metis less_trans zero_less_mult_pos zero_less_one)
  ultimately have "1 < e" using e by (cases "e = 1") simp_all
  moreover have "e dvd MODULUS" by (metis e dvd_triv_right)
  ultimately have "2 ^ 32 < e" by (intro divisor_large)
  then have "2 ^ 32 * 2 ^ 32 < ?d * e" using d \<open>0 < ?d\<close> by (intro mult_strict_mono) (simp_all only: zero_le_numeral zero_le_power less_imp_le zero_less_numeral zero_less_power)
  then show False using e by (simp add: MODULUS_def)
qed

section \<open>The field\<close>

instance gf :: field
proof
  fix a b :: gf
  show "inverse (0 :: gf) = 0" by (simp add: inverse_gf_def)
  show "a div b = a * inverse b" by (rule divide_gf_def)
  assume a: "a \<noteq> 0"
  obtain x where x: "a = of_int x" "0 < x" "x < MODULUS"
  proof (cases a rule: gf_cases)
    case (of_int x)
    then have "x \<noteq> 0" using a by (metis of_int_0)
    then show ?thesis using of_int that by simp
  qed
  then have rep: "Rep_gf a = x" by (simp add: gf.of_int_eq gf.Abs_inverse)
  let ?b = "bezw (nat x) (nat MODULUS)"
  have "fst ?b * x + snd ?b * MODULUS = int (gcd (nat x) (nat MODULUS))"
    using bezw_aux [of "nat x" "nat MODULUS"] x(2) MODULUS_gt_1 by simp
  also have "\<dots> = 1" using coprime_MODULUS [OF x(2,3)] x(2) MODULUS_gt_1 by (simp add: gcd_int_def)
  finally have "fst ?b * x = 1 + - snd ?b * MODULUS" by simp
  then have "fst ?b * x mod MODULUS = 1 mod MODULUS" by (simp only: mod_mult_self1)
  moreover have "inverse a = of_int (fst ?b)" using a by (simp add: inverse_gf_def rep gf.of_int_eq)
  ultimately show "inverse a * a = 1"
    by (simp only: x(1) flip: of_int_mult) (metis gf_of_int_eq_iff of_int_1)
qed

lemma root_of_unity_order:
  assumes "0 < i" "i < 2 ^ 32"
  shows "root_of_unity ^ i \<noteq> 1"
proof -
  have "\<not> MODULUS dvd 2" by (simp add: MODULUS_def)
  then have "1753635133440165772 ^ i mod MODULUS \<noteq> 1 mod MODULUS"
    using order_two_power [OF root_half_mod _ assms(1)] assms(2) by simp
  then have "(of_int (1753635133440165772 ^ i) :: gf) \<noteq> of_int 1" by (simp only: gf_of_int_eq_iff not_False_eq_True)
  then show ?thesis by (metis root_of_unity_eq of_int_power of_int_1)
qed

lemma root_of_unity_full: "root_of_unity ^ 2 ^ 32 = 1"
proof -
  have "root_of_unity ^ 2 ^ 32 = root_of_unity ^ 2 ^ 31 * root_of_unity ^ 2 ^ 31" by (simp flip: power_add)
  then show ?thesis by (simp add: root_of_unity_half del: power_numeral)
qed

section \<open>Numbers in the field\<close>

text \<open>\<open>F::from(u64)\<close> is the residue of the number; equality of small numbers is equality.\<close>

lemma gf_of_nat_eq_iff: "(of_nat a :: gf) = of_nat b \<longleftrightarrow> int a mod MODULUS = int b mod MODULUS"
  using gf_of_int_eq_iff [of "int a" "int b"] by simp

lemma gf_of_int_small:
  assumes "(of_int a :: gf) = of_int b" "\<bar>a - b\<bar> < MODULUS"
  shows "a = b"
proof -
  have "MODULUS dvd a - b" using assms(1) by (simp only: gf_of_int_eq_iff mod_eq_dvd_iff)
  then show ?thesis using assms(2) by (metis abs_dvd_iff dvd_abs_iff right_minus_eq zdvd_not_zless zero_less_abs_iff)
qed

lemma gf_of_nat_small:
  assumes "(of_nat a :: gf) = of_nat b" "a < nat MODULUS" "b < nat MODULUS"
  shows "a = b"
  using gf_of_int_small [of "int a" "int b"] assms by (simp add: MODULUS_def)

lemma gf_bool:
  fixes b :: "'a :: field"
  shows "b * (1 - b) = 0 \<longleftrightarrow> b = 0 \<or> b = 1"
  by auto

end
