(* ===== verification/Gold_Tower.thy ===== *)
theory Gold_Tower
  imports Goldilocks Fri_Classic
begin

text \<open>
  The base field as the bottom of the tower (\<open>impl TowerField for Fp\<close> in
  \<open>deep_ali/src/tower_field.rs\<close>) with the radix-2 domains of the field, and the provided methods
  of the \<open>TowerField\<close> trait. The domain of size n is generated by the root of unity of the
  build script, squared down to order n; the transforms are the documented meaning of
  \<open>fft\<close> and \<open>ifft\<close>.
\<close>

section \<open>Domains\<close>

definition gold_gen :: "nat \<Rightarrow> gf option" where
  "gold_gen n = (let m = next_power_of_two n
     in if m \<le> 2 ^ TWO_ADICITY then Some (root_of_unity ^ (2 ^ TWO_ADICITY div m)) else None)"

definition gold_fft :: "gf list \<Rightarrow> gf list" where
  "gold_fft xs = (case gold_gen (length xs) of None \<Rightarrow> [] | Some g \<Rightarrow>
     map (\<lambda>i. \<Sum>j < length xs. xs ! j * g ^ (i * j)) [0..<length xs])"

definition gold_ifft :: "gf list \<Rightarrow> gf list" where
  "gold_ifft ys = (case gold_gen (length ys) of None \<Rightarrow> [] | Some g \<Rightarrow>
     map (\<lambda>i. inverse (of_nat (length ys)) * (\<Sum>j < length ys. ys ! j * inverse g ^ (i * j))) [0..<length ys])"

definition gold_tower :: "(bytes \<Rightarrow> u64) \<Rightarrow> (gf, gf) tower" where
  "gold_tower rng = \<lparr>from_fp = \<lambda>x. x, ext_degree = 1, to_fp_components = \<lambda>x. [x],
     from_fp_components = \<lambda>cs. (case cs of [] \<Rightarrow> None | c # _ \<Rightarrow> Some c),
     into_bigint = \<lambda>x. word_of_int (Rep_gf x), from_u64 = \<lambda>w. of_nat (unat w),
     group_gen = gold_gen, ifft = gold_ifft, rng_u64 = rng\<rparr>"

lemma root_of_unity_prim: "prim_root root_of_unity (2 ^ 32)"
  unfolding prim_root_def using root_of_unity_full root_of_unity_order by blast

lemma next_power_of_two_pow [simp]: "next_power_of_two (2 ^ k) = 2 ^ k"
proof -
  obtain m where m: "next_power_of_two (2 ^ k) = 2 ^ m" "2 ^ k \<le> (2 :: nat) ^ m" "m = 0 \<or> 2 ^ (m - 1) < (2 :: nat) ^ k"
    using np2_from_spec [of 0 "2 ^ k"] by (auto simp: next_power_of_two_def)
  then have "k \<le> m" "m = 0 \<or> m - 1 < k" by simp_all
  then have "m = k" by linarith
  then show ?thesis using m(1) by simp
qed

lemma gold_gen_pow: "k \<le> 32 \<Longrightarrow> gold_gen (2 ^ k) = Some (root_of_unity ^ 2 ^ (32 - k))"
proof -
  assume k: "k \<le> 32"
  then have "(2 :: nat) ^ k \<le> 2 ^ 32" by (rule power_increasing) simp
  moreover have "(2 :: nat) ^ 32 div 2 ^ k = 2 ^ (32 - k)" using k by (simp only: power_diff [symmetric])
  ultimately show ?thesis by (simp only: gold_gen_def TWO_ADICITY_def Let_def next_power_of_two_pow if_True)
qed

lemma gold_gen_prim:
  assumes "k \<le> 32" "gold_gen (2 ^ k) = Some g"
  shows "prim_root g (2 ^ k)"
proof -
  have "2 ^ (32 - k) * 2 ^ k = (2 :: nat) ^ 32" using assms(1) by (simp only: le_add_diff_inverse2 flip: power_add)
  then have "prim_root root_of_unity (2 ^ (32 - k) * 2 ^ k)" using root_of_unity_prim by (simp only:)
  from root_of_power(1) [OF this] show ?thesis using assms(2) gold_gen_pow [OF assms(1)] by simp
qed

lemma gf_pow2_nonzero: "k \<le> 32 \<Longrightarrow> (of_nat (2 ^ k) :: gf) \<noteq> 0"
proof
  assume k: "k \<le> 32" and z: "(of_nat (2 ^ k) :: gf) = 0"
  have "(2 :: nat) ^ k \<le> 2 ^ 32" using k by (rule power_increasing) simp
  then show False using gf_of_nat_small [of "2 ^ k" 0] z by (simp add: MODULUS_def)
qed

text \<open>The two transforms are inverse to each other, on every domain the field has.\<close>

lemma gold_ifft_interpolates:
  assumes k: "k \<le> 32" and g: "gold_gen (2 ^ k) = Some g" and len: "length ys = 2 ^ k" and i: "i < 2 ^ k"
  shows "(\<Sum>l < 2 ^ k. gold_ifft ys ! l * g ^ (i * l)) = ys ! i"
proof -
  let ?n = "2 ^ k :: nat"
  have p: "prim_root (inverse g) ?n" using prim_root_inverse [OF gold_gen_prim [OF k g]] .
  define v where "v l = (\<Sum>j < ?n. ys ! j * inverse g ^ (l * j))" for l
  have "(\<Sum>l < ?n. v l * inverse (inverse g) ^ (l * i)) = of_nat ?n * ys ! i"
    unfolding v_def by (rule dft_inversion [OF p i refl])
  then have "inverse (of_nat ?n) * (\<Sum>l < ?n. v l * g ^ (l * i)) = ys ! i"
    using gf_pow2_nonzero [OF k] by (simp del: of_nat_power)
  moreover have "gold_ifft ys ! l = inverse (of_nat ?n) * v l" if "l < ?n" for l
    using that by (simp add: gold_ifft_def len g v_def)
  ultimately show ?thesis by (simp add: sum_distrib_left mult.assoc mult.commute [of i])
qed

lemma length_gold_ifft: "k \<le> 32 \<Longrightarrow> length ys = 2 ^ k \<Longrightarrow> length (gold_ifft ys) = 2 ^ k"
  by (simp add: gold_ifft_def gold_gen_pow)

lemma gold_fft_eq:
  assumes "gold_gen (length xs) = Some g"
  shows "gold_fft xs = map (\<lambda>i. \<Sum>j < length xs. xs ! j * g ^ (i * j)) [0..<length xs]"
  using assms by (simp add: gold_fft_def)

lemma gold_fft_ifft:
  assumes "k \<le> 32" "length ys = 2 ^ k"
  shows "gold_fft (gold_ifft ys) = ys"
proof -
  obtain g where g: "gold_gen (2 ^ k) = Some g" using gold_gen_pow [OF assms(1)] by blast
  then show ?thesis
    using gold_ifft_interpolates [OF assms(1) g assms(2)] length_gold_ifft [OF assms] assms(2)
    by (simp add: gold_fft_def list_eq_iff_nth_eq)
qed

lemma gold_ifft_fft:
  assumes "k \<le> 32" "length xs = 2 ^ k"
  shows "gold_ifft (gold_fft xs) = xs"
proof -
  obtain g where g: "gold_gen (2 ^ k) = Some g" using gold_gen_pow [OF assms(1)] by blast
  have "inverse (of_nat (2 ^ k)) * (\<Sum>j < 2 ^ k. (\<Sum>l < 2 ^ k. xs ! l * g ^ (j * l)) * inverse g ^ (j * i)) = xs ! i"
    if "i < 2 ^ k" for i
    using dft_inversion [OF gold_gen_prim [OF assms(1) g] that refl, of "(!) xs"] gf_pow2_nonzero [OF assms(1)]
    by (simp del: of_nat_power)
  then show ?thesis
    using g assms(2) by (simp add: gold_ifft_def gold_fft_def list_eq_iff_nth_eq mult.commute [of _ "_ :: nat"] del: of_nat_power)
qed

text \<open>The base field satisfies the laws the protocol is verified under, for all domains up to 2^32.\<close>

lemma gold_tower_ok: "tower_ok (gold_tower rng) 32" "base_ok (gold_tower rng)"
proof -
  have "fp_hom (gold_tower rng)" by (simp add: fp_hom_def gold_tower_def)
  moreover have "f_of_nat (gold_tower rng) (2 ^ k) = of_nat (2 ^ k)" if "k \<le> 32" for k
  proof -
    have "(2 :: nat) ^ k \<le> 2 ^ 32" using that by (rule power_increasing) simp
    then have "unat (word_of_nat (2 ^ k) :: u64) = 2 ^ k" by (simp only: unat_of_nat) simp
    then show ?thesis by (simp only: f_of_nat_def gold_tower_def tower.select_convs)
  qed
  then have "sizes_ok (gold_tower rng) 32" using gf_pow2_nonzero by (simp add: sizes_ok_def del: of_nat_power)
  moreover have "comps_ok (gold_tower rng)"
    by (auto simp: comps_ok_def gold_tower_def length_Suc_conv intro!: exI [of _ "[1]"])
  moreover have "ifft_ok (gold_tower rng) 32"
    unfolding ifft_ok_def
    by (simp add: gold_tower_def gold_ifft_interpolates length_gold_ifft)
  moreover have "domains_ok (gold_tower rng) 32"
    using root_of_unity_prim gold_gen_pow unfolding domains_ok_def
    by (intro exI [of _ root_of_unity]) (simp add: gold_tower_def)
  ultimately show "tower_ok (gold_tower rng) 32" by (simp add: tower_ok_def)
  show "base_ok (gold_tower rng)" by (simp add: base_ok_def gold_tower_def)
qed

section \<open>The provided methods of the trait\<close>

function pow_loop :: "'e :: field \<Rightarrow> 'e \<Rightarrow> nat \<Rightarrow> 'e" where
  "pow_loop result base e =
     (if 0 < e then pow_loop (if odd e then result * base else result) (base * base) (e div 2) else result)"
  by pat_completeness auto
termination by (relation "measure (\<lambda>(_, _, e). e)") auto

declare pow_loop.simps [simp del]

definition pow_u64 :: "'e :: field \<Rightarrow> u64 \<Rightarrow> 'e" where
  "pow_u64 x e = (if e = 0 then 1 else pow_loop 1 x (unat e))"

lemma pow_loop_eq: "pow_loop r b e = r * b ^ e"
proof (induction r b e rule: pow_loop.induct)
  case (1 r b e)
  have sq: "(b * b) ^ (e div 2) = b ^ (2 * (e div 2))" by (simp add: power_mult power2_eq_square)
  have "b ^ e = (b * b) ^ (e div 2) * (if odd e then b else 1)"
  proof (cases "odd e")
    case True
    then have "e = Suc (2 * (e div 2))" by presburger
    then have "b ^ e = b * b ^ (2 * (e div 2))" by (metis power_Suc)
    then show ?thesis using True sq by (simp add: mult.commute)
  qed (simp add: sq)
  then show ?case using 1 by (subst pow_loop.simps) (simp add: mult_ac)
qed

lemma pow_u64_eq: "pow_u64 x e = x ^ unat e"
  by (simp add: pow_u64_def pow_loop_eq)

fun prefix_products :: "'e :: field \<Rightarrow> 'e list \<Rightarrow> 'e list" where
  "prefix_products acc [] = []"
| "prefix_products acc (v # vs) = acc * v # prefix_products (acc * v) vs"

fun batch_loop :: "'e :: field list \<Rightarrow> nat \<Rightarrow> 'e \<Rightarrow> 'e list \<Rightarrow> 'e list" where
  "batch_loop prefix 0 i vals = vals[0 := i]"
| "batch_loop prefix (Suc k) i vals =
     batch_loop prefix k (i * vals ! Suc k) (vals[Suc k := prefix ! k * i])"

definition batch_inverse :: "'e :: field list \<Rightarrow> 'e list option" where
  "batch_inverse vals = (case vals of [] \<Rightarrow> Some []
     | v # vs \<Rightarrow> let prefix = v # prefix_products v vs
         in map_option (\<lambda>i. batch_loop prefix (length vs) i vals) (inv_opt (last prefix)))"

fun horner :: "('f \<Rightarrow> 'e :: field) \<Rightarrow> 'e \<Rightarrow> 'e \<Rightarrow> 'f list \<Rightarrow> 'e" where
  "horner emb z acc [] = acc"
| "horner emb z acc (c # cs) = horner emb z (acc * z + emb c) cs"

definition eval_base_poly :: "('f :: field, 'e :: field) tower \<Rightarrow> 'f list \<Rightarrow> 'e \<Rightarrow> 'e" where
  "eval_base_poly T coeffs z = (case rev coeffs of [] \<Rightarrow> 0 | c # cs \<Rightarrow> horner (from_fp T) z (from_fp T c) cs)"

definition to_bytes_le :: "('f :: field, 'e :: field) tower \<Rightarrow> 'e \<Rightarrow> bytes" where
  "to_bytes_le T x = concat (map (\<lambda>c. le64 (into_bigint T c)) (to_fp_components T x))"

definition from_bytes_le :: "('f :: field, 'e :: field) tower \<Rightarrow> bytes \<Rightarrow> 'e option" where
  "from_bytes_le T bs = (if length bs < ext_degree T * 8 then None
     else from_fp_components T (map (\<lambda>c. from_u64 T (of_le_bytes c)) (chunks_exact (ext_degree T) 8 bs)))"

lemma length_prefix_products [simp]: "length (prefix_products acc vs) = length vs"
  by (induction acc vs rule: prefix_products.induct) simp_all

lemma prefix_products_nth:
  "i < length vs \<Longrightarrow> prefix_products acc vs ! i = acc * prod_list (take (Suc i) vs)"
proof (induction acc vs arbitrary: i rule: prefix_products.induct)
  case (2 acc v vs)
  then show ?case by (cases i) (simp_all add: mult.assoc)
qed simp

lemma length_batch_loop [simp]: "length (batch_loop prefix k i vals) = length vals"
  by (induction prefix k i vals rule: batch_loop.induct) simp_all

lemma batch_loop_nth:
  assumes "\<And>j. j \<le> k \<Longrightarrow> vals ! j = xs ! j" "\<And>j. j \<le> k \<Longrightarrow> prefix ! j = prod_list (take (Suc j) xs)"
    and "k < length vals" "length vals = length xs" "i = inverse (prod_list (take (Suc k) xs))" "0 \<notin> set xs" "m < length xs"
  shows "batch_loop prefix k i vals ! m = (if m \<le> k then inverse (xs ! m) else vals ! m)"
  using assms
proof (induction prefix k i vals arbitrary: m rule: batch_loop.induct)
  case (1 prefix i vals)
  then show ?case by (cases m) (auto simp: take_Suc_conv_app_nth)
next
  case (2 prefix k i vals)
  let ?p = "prod_list (take (Suc k) xs)"
  have nz: "?p \<noteq> 0" using 2(6,7) by (auto simp: prod_list_zero_iff dest: in_set_takeD)
  have x: "xs ! Suc k \<noteq> 0" using 2(4,5,7) by (metis nth_mem)
  have i: "i = inverse (?p * xs ! Suc k)" using 2(4,5,6) by (simp add: take_Suc_conv_app_nth mult.assoc)
  have "i * vals ! Suc k = inverse ?p" using 2(2) i x by simp
  then have "batch_loop prefix k (i * vals ! Suc k) (vals[Suc k := prefix ! k * i]) ! m =
      (if m \<le> k then inverse (xs ! m) else vals[Suc k := prefix ! k * i] ! m)"
    using 2 by (intro "2.IH") simp_all
  moreover have "prefix ! k * i = inverse (xs ! Suc k)" using 2(3) [of k] i nz x by (simp add: field_simps)
  ultimately show ?case using 2(4) by (auto simp: nth_list_update le_Suc_eq)
qed

lemma batch_inverse_eq:
  "batch_inverse vals = (if 0 \<in> set vals then None else Some (map inverse vals))"
proof (cases vals)
  case (Cons v vs)
  let ?p = "v # prefix_products v vs"
  have p: "?p ! j = prod_list (take (Suc j) vals)" if "j \<le> length vs" for j
    using that by (cases j) (simp_all add: Cons prefix_products_nth)
  have "last ?p = ?p ! length vs" by (subst last_conv_nth) simp_all
  then have l: "last ?p = prod_list vals" using p [of "length vs"] by (simp add: Cons)
  show ?thesis
  proof (cases "0 \<in> set vals")
    case True
    then show ?thesis using l by (simp add: batch_inverse_def Cons inv_opt_def prod_list_zero_iff Let_def)
  next
    case False
    then have nz: "prod_list vals \<noteq> 0" by (simp add: prod_list_zero_iff)
    have "batch_loop ?p (length vs) (inverse (prod_list vals)) vals = map inverse vals"
    proof (rule nth_equalityI)
      fix m assume "m < length (batch_loop ?p (length vs) (inverse (prod_list vals)) vals)"
      then have "m < length vals" by simp
      then show "batch_loop ?p (length vs) (inverse (prod_list vals)) vals ! m = map inverse vals ! m"
        using batch_loop_nth [of "length vs" vals vals ?p "inverse (prod_list vals)" m] p False \<open>m < length vals\<close>
        by (simp add: Cons del: list.map)
    qed simp
    then show ?thesis using l nz False by (simp add: batch_inverse_def Cons inv_opt_def Let_def)
  qed
qed (simp add: batch_inverse_def)

lemma horner_eq: "horner emb z acc cs = acc * z ^ length cs + (\<Sum>i < length cs. emb (rev cs ! i) * z ^ i)"
proof (induction cs arbitrary: acc)
  case (Cons c cs)
  have "(\<Sum>i < Suc (length cs). emb (rev (c # cs) ! i) * z ^ i) =
      (\<Sum>i < length cs. emb (rev cs ! i) * z ^ i) + emb c * z ^ length cs"
    by (simp add: nth_append)
  then show ?case by (simp add: Cons algebra_simps)
qed simp

lemma eval_base_poly_eq: "eval_base_poly T cs z = (\<Sum>i < length cs. from_fp T (cs ! i) * z ^ i)"
proof (cases "rev cs")
  case (Cons c cs')
  then have cs: "cs = rev cs' @ [c]" by (metis rev.simps(2) rev_rev_ident)
  show ?thesis unfolding eval_base_poly_def Cons by (simp add: cs horner_eq nth_append)
qed (simp add: eval_base_poly_def)

lemma unat_into_bigint: "of_nat (unat (word_of_int (Rep_gf x) :: u64)) = x"
proof -
  have "0 \<le> Rep_gf x" "Rep_gf x < MODULUS" using Rep_gf [of x] by simp_all
  then have "unat (word_of_int (Rep_gf x) :: u64) = nat (Rep_gf x)"
    by (simp add: unat_eq_nat_uint uint_word_of_int_eq take_bit_int_eq_self MODULUS_def)
  then show ?thesis using \<open>0 \<le> Rep_gf x\<close> gf.of_int_eq [of "Rep_gf x"] gf.Rep_mod [of x]
    by (simp add: Rep_gf_inverse)
qed

end
