(* ===== verification/Sha256_Air.thy ===== *)
theory Sha256_Air
  imports Goldilocks Shard_Prover "HOL-Library.Monad_Syntax"
begin

unbundle bit_operations_syntax

text \<open>
  The SHA-256 AIR of \<open>deep_ali/src/sha256_air.rs\<close>: the native compression function, the rows of the
  trace and the 766 transition constraints, over the field \<open>gf\<close>. A row is a list of 756 cells, read
  at the column offsets of the source. A trace is built row by row; the source writes the same
  cells column by column. Array indices of the source are in range by construction.
\<close>

section \<open>Words and cells\<close>

definition felt :: "u64 \<Rightarrow> gf" where "felt x = of_nat (unat x)"

definition fu32 :: "u32 \<Rightarrow> gf" where "fu32 x = of_nat (unat x)"

definition pow2 :: "nat \<Rightarrow> gf" where "pow2 i = 2 ^ i"

definition xor_poly :: "gf \<Rightarrow> gf \<Rightarrow> gf" where
  "xor_poly x y = x + y - 2 * x * y"

section \<open>The hash function\<close>

definition sha_K :: "u32 list" where
  "sha_K =
   [0x428a2f98, 0x71374491, 0xb5c0fbcf, 0xe9b5dba5, 0x3956c25b, 0x59f111f1, 0x923f82a4, 0xab1c5ed5,
    0xd807aa98, 0x12835b01, 0x243185be, 0x550c7dc3, 0x72be5d74, 0x80deb1fe, 0x9bdc06a7, 0xc19bf174,
    0xe49b69c1, 0xefbe4786, 0x0fc19dc6, 0x240ca1cc, 0x2de92c6f, 0x4a7484aa, 0x5cb0a9dc, 0x76f988da,
    0x983e5152, 0xa831c66d, 0xb00327c8, 0xbf597fc7, 0xc6e00bf3, 0xd5a79147, 0x06ca6351, 0x14292967,
    0x27b70a85, 0x2e1b2138, 0x4d2c6dfc, 0x53380d13, 0x650a7354, 0x766a0abb, 0x81c2c92e, 0x92722c85,
    0xa2bfe8a1, 0xa81a664b, 0xc24b8b70, 0xc76c51a3, 0xd192e819, 0xd6990624, 0xf40e3585, 0x106aa070,
    0x19a4c116, 0x1e376c08, 0x2748774c, 0x34b0bcb5, 0x391c0cb3, 0x4ed8aa4a, 0x5b9cca4f, 0x682e6ff3,
    0x748f82ee, 0x78a5636f, 0x84c87814, 0x8cc70208, 0x90befffa, 0xa4506ceb, 0xbef9a3f7, 0xc67178f2]"

definition sha_IV :: "u32 list" where
  "sha_IV =
   [0x6a09e667, 0xbb67ae85, 0x3c6ef372, 0xa54ff53a, 0x510e527f, 0x9b05688c, 0x1f83d9ab, 0x5be0cd19]"

definition big_sigma0 :: "u32 \<Rightarrow> u32" where
  "big_sigma0 x = word_rotr 2 x XOR word_rotr 13 x XOR word_rotr 22 x"

definition big_sigma1 :: "u32 \<Rightarrow> u32" where
  "big_sigma1 x = word_rotr 6 x XOR word_rotr 11 x XOR word_rotr 25 x"

definition small_sigma0 :: "u32 \<Rightarrow> u32" where
  "small_sigma0 x = word_rotr 7 x XOR word_rotr 18 x XOR drop_bit 3 x"

definition small_sigma1 :: "u32 \<Rightarrow> u32" where
  "small_sigma1 x = word_rotr 17 x XOR word_rotr 19 x XOR drop_bit 10 x"

definition ch :: "u32 \<Rightarrow> u32 \<Rightarrow> u32 \<Rightarrow> u32" where
  "ch x y z = (x AND y) XOR (NOT x AND z)"

definition maj :: "u32 \<Rightarrow> u32 \<Rightarrow> u32 \<Rightarrow> u32" where
  "maj x y z = (x AND y) XOR (x AND z) XOR (y AND z)"

definition block_words :: "bytes \<Rightarrow> u32 list" where
  "block_words block = map (\<lambda>i. of_be_bytes (take 4 (drop (4 * i) block))) [0..<16]"

definition schedule_next :: "u32 list \<Rightarrow> u32 list" where
  "schedule_next w = (let t = length w in
     w @ [small_sigma1 (w ! (t - 2)) + w ! (t - 7) + small_sigma0 (w ! (t - 15)) + w ! (t - 16)])"

definition message_schedule :: "u32 list \<Rightarrow> u32 list" where
  "message_schedule m = (schedule_next ^^ 48) m"

fun sha_round :: "u32 \<Rightarrow> u32 \<Rightarrow> u32 list \<Rightarrow> u32 list" where
  "sha_round k w [a, b, c, d, e, f, g, h] =
     (let t1 = h + big_sigma1 e + ch e f g + k + w; t2 = big_sigma0 a + maj a b c
      in [t1 + t2, a, b, c, d + t1, e, f, g])"
| "sha_round k w s = s"

definition state_at :: "u32 list \<Rightarrow> u32 list \<Rightarrow> nat \<Rightarrow> u32 list" where
  "state_at w iv t = fold (\<lambda>i. sha_round (sha_K ! i) (w ! i)) [0..<t] iv"

definition compress_block_native :: "bytes \<Rightarrow> u32 list \<Rightarrow> u32 list" where
  "compress_block_native block iv = state_at (message_schedule (block_words block)) iv 64"

definition sha256_one_block :: "bytes \<Rightarrow> u32 list" where
  "sha256_one_block block = map2 (+) sha_IV (compress_block_native block sha_IV)"

section \<open>Padding\<close>

partial_function (option) pad_loop :: "bytes \<Rightarrow> bytes option" where
  "pad_loop buf = (if length buf mod 64 \<noteq> 56 then pad_loop (buf @ [0]) else Some buf)"

definition pad_message_to_blocks :: "bytes \<Rightarrow> bytes list option" where
  "pad_message_to_blocks message =
     (let mlen_bits = (word_of_nat (length message) * 8 :: u64) in do {
        padded \<leftarrow> pad_loop (message @ [0x80]);
        let buf = padded @ be_bytes 8 mlen_bits;
        Some (chunks_exact (length buf div 64) 64 buf) })"

section \<open>Columns\<close>

abbreviation (input) A_a :: nat where "A_a \<equiv> 0"
abbreviation (input) A_b :: nat where "A_b \<equiv> 1"
abbreviation (input) A_c :: nat where "A_c \<equiv> 2"
abbreviation (input) A_d :: nat where "A_d \<equiv> 3"
abbreviation (input) A_e :: nat where "A_e \<equiv> 4"
abbreviation (input) A_f :: nat where "A_f \<equiv> 5"
abbreviation (input) A_g :: nat where "A_g \<equiv> 6"
abbreviation (input) A_h :: nat where "A_h \<equiv> 7"
abbreviation (input) OFF_BIT_A :: nat where "OFF_BIT_A \<equiv> 8"
abbreviation (input) OFF_BIT_B :: nat where "OFF_BIT_B \<equiv> 40"
abbreviation (input) OFF_BIT_C :: nat where "OFF_BIT_C \<equiv> 72"
abbreviation (input) OFF_BIT_E :: nat where "OFF_BIT_E \<equiv> 104"
abbreviation (input) OFF_BIT_F :: nat where "OFF_BIT_F \<equiv> 136"
abbreviation (input) OFF_BIT_G :: nat where "OFF_BIT_G \<equiv> 168"
abbreviation (input) OFF_S0_T :: nat where "OFF_S0_T \<equiv> 200"
abbreviation (input) OFF_S0_BIT :: nat where "OFF_S0_BIT \<equiv> 232"
abbreviation (input) OFF_S0_W :: nat where "OFF_S0_W \<equiv> 264"
abbreviation (input) OFF_S1_T :: nat where "OFF_S1_T \<equiv> 265"
abbreviation (input) OFF_S1_BIT :: nat where "OFF_S1_BIT \<equiv> 297"
abbreviation (input) OFF_S1_W :: nat where "OFF_S1_W \<equiv> 329"
abbreviation (input) OFF_CH_BIT :: nat where "OFF_CH_BIT \<equiv> 330"
abbreviation (input) OFF_CH_W :: nat where "OFF_CH_W \<equiv> 362"
abbreviation (input) OFF_MAJ_AB :: nat where "OFF_MAJ_AB \<equiv> 363"
abbreviation (input) OFF_MAJ_AC :: nat where "OFF_MAJ_AC \<equiv> 395"
abbreviation (input) OFF_MAJ_BC :: nat where "OFF_MAJ_BC \<equiv> 427"
abbreviation (input) OFF_MAJ_U :: nat where "OFF_MAJ_U \<equiv> 459"
abbreviation (input) OFF_MAJ_BIT :: nat where "OFF_MAJ_BIT \<equiv> 491"
abbreviation (input) OFF_MAJ_W :: nat where "OFF_MAJ_W \<equiv> 523"
abbreviation (input) OFF_W :: nat where "OFF_W \<equiv> 524"
abbreviation (input) OFF_T1_LO :: nat where "OFF_T1_LO \<equiv> 525"
abbreviation (input) OFF_T1_C0 :: nat where "OFF_T1_C0 \<equiv> 526"
abbreviation (input) OFF_T1_C1 :: nat where "OFF_T1_C1 \<equiv> 527"
abbreviation (input) OFF_T1_C2 :: nat where "OFF_T1_C2 \<equiv> 528"
abbreviation (input) OFF_T1_CW :: nat where "OFF_T1_CW \<equiv> 529"
abbreviation (input) OFF_T2_LO :: nat where "OFF_T2_LO \<equiv> 530"
abbreviation (input) OFF_T2_C0 :: nat where "OFF_T2_C0 \<equiv> 531"
abbreviation (input) OFF_T2_C1 :: nat where "OFF_T2_C1 \<equiv> 532"
abbreviation (input) OFF_T2_CW :: nat where "OFF_T2_CW \<equiv> 533"
abbreviation (input) OFF_H0 :: nat where "OFF_H0 \<equiv> 534"
abbreviation (input) OFF_WW0 :: nat where "OFF_WW0 \<equiv> 542"
abbreviation (input) OFF_BIT_WW14 :: nat where "OFF_BIT_WW14 \<equiv> 557"
abbreviation (input) OFF_BIT_WW1 :: nat where "OFF_BIT_WW1 \<equiv> 589"
abbreviation (input) OFF_SS0_T :: nat where "OFF_SS0_T \<equiv> 621"
abbreviation (input) OFF_SS0_BIT :: nat where "OFF_SS0_BIT \<equiv> 653"
abbreviation (input) OFF_SS0_W :: nat where "OFF_SS0_W \<equiv> 685"
abbreviation (input) OFF_SS1_T :: nat where "OFF_SS1_T \<equiv> 686"
abbreviation (input) OFF_SS1_BIT :: nat where "OFF_SS1_BIT \<equiv> 718"
abbreviation (input) OFF_SS1_W :: nat where "OFF_SS1_W \<equiv> 750"
abbreviation (input) OFF_WS_C0 :: nat where "OFF_WS_C0 \<equiv> 751"
abbreviation (input) OFF_WS_C1 :: nat where "OFF_WS_C1 \<equiv> 752"
abbreviation (input) OFF_WS_CW :: nat where "OFF_WS_CW \<equiv> 753"
abbreviation (input) OFF_NA_C :: nat where "OFF_NA_C \<equiv> 754"
abbreviation (input) OFF_NE_C :: nat where "OFF_NE_C \<equiv> 755"

definition WIDTH :: nat where "WIDTH = 756"
definition ROWS_PER_BLOCK :: nat where "ROWS_PER_BLOCK = 128"
definition NUM_CONSTRAINTS :: nat where "NUM_CONSTRAINTS = 766"

section \<open>Constraints\<close>

definition bool_con :: "gf \<Rightarrow> gf" where "bool_con b = b * (1 - b)"

definition pack :: "gf list \<Rightarrow> nat \<Rightarrow> gf" where
  "pack cur off = (\<Sum>i\<leftarrow>[0..<32]. pow2 i * cur ! (off + i))"

text \<open>
  One sigma sub-block: the exclusive or of two rotations, of this with a third bit, and the
  packed word. \<open>third i\<close> is the bit of the rotation or of the shift.
\<close>

definition sigma_cons :: "gf list \<Rightarrow> nat \<Rightarrow> nat \<Rightarrow> nat \<Rightarrow> nat \<Rightarrow> nat \<Rightarrow> nat \<Rightarrow> (nat \<Rightarrow> gf) \<Rightarrow> gf list" where
  "sigma_cons cur inp off_t off_bit off_w r1 r2 third =
     map (\<lambda>i. cur ! (off_t + i) - xor_poly (cur ! (inp + (i + r1) mod 32)) (cur ! (inp + (i + r2) mod 32))) [0..<32] @
     map (\<lambda>i. cur ! (off_bit + i) - xor_poly (cur ! (off_t + i)) (third i)) [0..<32] @
     [cur ! off_w - pack cur off_bit]"

definition rot_bit :: "gf list \<Rightarrow> nat \<Rightarrow> nat \<Rightarrow> nat \<Rightarrow> gf" where
  "rot_bit cur inp r3 i = cur ! (inp + (i + r3) mod 32)"

definition shift_bit :: "gf list \<Rightarrow> nat \<Rightarrow> nat \<Rightarrow> nat \<Rightarrow> gf" where
  "shift_bit cur inp r3 i = (if i + r3 < 32 then cur ! (inp + (i + r3)) else 0)"

definition bit_cons :: "gf list \<Rightarrow> gf list" where
  "bit_cons cur = concat (map (\<lambda>off. map (\<lambda>i. bool_con (cur ! (off + i))) [0..<32])
     [OFF_BIT_A, OFF_BIT_B, OFF_BIT_C, OFF_BIT_E, OFF_BIT_F, OFF_BIT_G, OFF_BIT_WW14, OFF_BIT_WW1])"

definition decomposition_cons :: "gf list \<Rightarrow> gf list" where
  "decomposition_cons cur =
     [cur ! A_a - pack cur OFF_BIT_A, cur ! A_b - pack cur OFF_BIT_B, cur ! A_c - pack cur OFF_BIT_C,
      cur ! A_e - pack cur OFF_BIT_E, cur ! A_f - pack cur OFF_BIT_F, cur ! A_g - pack cur OFF_BIT_G,
      cur ! (OFF_WW0 + 14) - pack cur OFF_BIT_WW14, cur ! (OFF_WW0 + 1) - pack cur OFF_BIT_WW1]"

definition ch_cons :: "gf list \<Rightarrow> gf list" where
  "ch_cons cur =
     map (\<lambda>i. let ei = cur ! (OFF_BIT_E + i); fi = cur ! (OFF_BIT_F + i); gi = cur ! (OFF_BIT_G + i)
       in cur ! (OFF_CH_BIT + i) - (ei * fi + gi - ei * gi)) [0..<32] @
     [cur ! OFF_CH_W - pack cur OFF_CH_BIT]"

definition maj_cons :: "gf list \<Rightarrow> gf list" where
  "maj_cons cur =
     concat (map (\<lambda>i. let ai = cur ! (OFF_BIT_A + i); bi = cur ! (OFF_BIT_B + i); ci = cur ! (OFF_BIT_C + i)
       in [cur ! (OFF_MAJ_AB + i) - ai * bi, cur ! (OFF_MAJ_AC + i) - ai * ci,
           cur ! (OFF_MAJ_BC + i) - bi * ci]) [0..<32]) @
     map (\<lambda>i. cur ! (OFF_MAJ_U + i) - xor_poly (cur ! (OFF_MAJ_AB + i)) (cur ! (OFF_MAJ_AC + i))) [0..<32] @
     map (\<lambda>i. cur ! (OFF_MAJ_BIT + i) - xor_poly (cur ! (OFF_MAJ_U + i)) (cur ! (OFF_MAJ_BC + i))) [0..<32] @
     [cur ! OFF_MAJ_W - pack cur OFF_MAJ_BIT]"

definition t1_cons :: "gf list \<Rightarrow> gf \<Rightarrow> gf list" where
  "t1_cons cur k_row =
     (let t1_sum = cur ! A_h + cur ! OFF_S1_W + cur ! OFF_CH_W + k_row + cur ! OFF_W
      in [cur ! OFF_T1_LO + pow2 32 * cur ! OFF_T1_CW - t1_sum]) @
     map (\<lambda>off. bool_con (cur ! off)) [OFF_T1_C0, OFF_T1_C1, OFF_T1_C2] @
     [cur ! OFF_T1_CW - cur ! OFF_T1_C0 - 2 * cur ! OFF_T1_C1 - 4 * cur ! OFF_T1_C2]"

definition t2_cons :: "gf list \<Rightarrow> gf list" where
  "t2_cons cur =
     (let t2_sum = cur ! OFF_S0_W + cur ! OFF_MAJ_W
      in [cur ! OFF_T2_LO + pow2 32 * cur ! OFF_T2_CW - t2_sum]) @
     map (\<lambda>off. bool_con (cur ! off)) [OFF_T2_C0, OFF_T2_C1] @
     [cur ! OFF_T2_CW - cur ! OFF_T2_C0 - 2 * cur ! OFF_T2_C1]"

definition shift_cons :: "bool \<Rightarrow> gf list \<Rightarrow> gf list \<Rightarrow> gf list" where
  "shift_cons active cur nxt = map (\<lambda>(x, y). if active then nxt ! x - cur ! y else 0)
     [(A_b, A_a), (A_c, A_b), (A_d, A_c), (A_f, A_e), (A_g, A_f), (A_h, A_g)]"

definition new_state_cons :: "bool \<Rightarrow> gf list \<Rightarrow> gf list \<Rightarrow> gf list" where
  "new_state_cons active cur nxt =
     (if active then
       [nxt ! A_a + pow2 32 * cur ! OFF_NA_C - cur ! OFF_T1_LO - cur ! OFF_T2_LO,
        bool_con (cur ! OFF_NA_C),
        nxt ! A_e + pow2 32 * cur ! OFF_NE_C - cur ! A_d - cur ! OFF_T1_LO,
        bool_con (cur ! OFF_NE_C), 0, 0]
      else replicate 6 0)"

definition h_cons :: "bool \<Rightarrow> gf list \<Rightarrow> gf list \<Rightarrow> gf list" where
  "h_cons finalisation cur nxt =
     (if finalisation then
        map (\<lambda>k. let delta = cur ! (OFF_H0 + k) + cur ! (A_a + k) - nxt ! (OFF_H0 + k)
          in delta * (delta - pow2 32)) [0..<8]
      else map (\<lambda>k. nxt ! (OFF_H0 + k) - cur ! (OFF_H0 + k)) [0..<8])"

definition window_cons :: "gf list \<Rightarrow> gf list \<Rightarrow> gf list" where
  "window_cons cur nxt =
     map (\<lambda>k. nxt ! (OFF_WW0 + k) - cur ! (OFF_WW0 + k + 1)) [0..<14] @ [nxt ! (OFF_WW0 + 14) - cur ! OFF_W]"

definition schedule_cons :: "bool \<Rightarrow> gf list \<Rightarrow> gf list \<Rightarrow> gf list" where
  "schedule_cons active cur nxt =
     (if active then
        (let sm = cur ! (OFF_WW0 + 0) + cur ! OFF_SS0_W + cur ! (OFF_WW0 + 9) + cur ! OFF_SS1_W;
             c0 = cur ! OFF_WS_C0; c1 = cur ! OFF_WS_C1
         in [nxt ! OFF_W + pow2 32 * cur ! OFF_WS_CW - sm, bool_con c0, bool_con c1,
             cur ! OFF_WS_CW - c0 - 2 * c1])
      else replicate 4 0)"

definition eval_sha256_constraints :: "gf list \<Rightarrow> gf list \<Rightarrow> nat \<Rightarrow> nat \<Rightarrow> gf list" where
  "eval_sha256_constraints cur nxt row n_blocks =
     (let block_idx = row div ROWS_PER_BLOCK; block_row = row mod ROWS_PER_BLOCK;
          past_last_block = block_idx \<ge> n_blocks;
          compression_active = (\<not> past_last_block \<and> block_row < 64);
          finalisation_active = (\<not> past_last_block \<and> block_row = 64);
          schedule_active = (\<not> past_last_block \<and> 15 \<le> block_row \<and> block_row \<le> 62);
          k_row = (if compression_active then fu32 (sha_K ! block_row) else 0)
      in bit_cons cur @ decomposition_cons cur @
         sigma_cons cur OFF_BIT_A OFF_S0_T OFF_S0_BIT OFF_S0_W 2 13 (rot_bit cur OFF_BIT_A 22) @
         sigma_cons cur OFF_BIT_E OFF_S1_T OFF_S1_BIT OFF_S1_W 6 11 (rot_bit cur OFF_BIT_E 25) @
         sigma_cons cur OFF_BIT_WW1 OFF_SS0_T OFF_SS0_BIT OFF_SS0_W 7 18 (shift_bit cur OFF_BIT_WW1 3) @
         sigma_cons cur OFF_BIT_WW14 OFF_SS1_T OFF_SS1_BIT OFF_SS1_W 17 19 (shift_bit cur OFF_BIT_WW14 10) @
         ch_cons cur @ maj_cons cur @ t1_cons cur k_row @ t2_cons cur @
         shift_cons compression_active cur nxt @ new_state_cons compression_active cur nxt @
         h_cons finalisation_active cur nxt @ window_cons cur nxt @ schedule_cons schedule_active cur nxt)"

lemma length_eval_sha256: "length (eval_sha256_constraints cur nxt row n_blocks) = 766"
  by (simp add: eval_sha256_constraints_def Let_def bit_cons_def decomposition_cons_def sigma_cons_def ch_cons_def
      maj_cons_def t1_cons_def t2_cons_def shift_cons_def new_state_cons_def h_cons_def window_cons_def
      schedule_cons_def length_concat comp_def sum_list_triv)

end
