(* ===== verification/Sha256_Sound.thy ===== *)
theory Sha256_Sound
  imports Sha256_Air
begin

text \<open>
  What the constraints of the SHA-256 AIR say: cells that satisfy them are 32-bit words related by
  the round function, so a satisfying block of rows computes the compression function.
\<close>

section \<open>Vanishing lists\<close>

definition zeros :: "gf list \<Rightarrow> bool" where
  "zeros cs \<longleftrightarrow> (\<forall>c \<in> set cs. c = 0)"

lemma zeros_simps [simp]:
  "zeros []" "zeros (c # cs) \<longleftrightarrow> c = 0 \<and> zeros cs" "zeros (cs @ ds) \<longleftrightarrow> zeros cs \<and> zeros ds"
  "zeros (map g [0..<n]) \<longleftrightarrow> (\<forall>i < n. g i = 0)" "zeros (replicate n 0)"
  by (auto simp: zeros_def)

lemma zeros_concat: "zeros (concat css) \<longleftrightarrow> (\<forall>cs \<in> set css. zeros cs)"
  by (auto simp: zeros_def)

lemma zeros_map: "zeros (map g xs) \<longleftrightarrow> (\<forall>x \<in> set xs. g x = 0)"
  by (auto simp: zeros_def)

section \<open>Bits and words\<close>

lemma unat_u32: "unat (x :: u32) < 2 ^ 32"
  using unsigned_less [of x] by simp

lemma bool_con_0 [simp]: "bool_con b = 0 \<longleftrightarrow> b = 0 \<or> b = 1"
  by (simp add: bool_con_def gf_bool)

lemma xor_poly_bits [simp]: "xor_poly (of_bool p) (of_bool q) = of_bool (p \<noteq> q)"
  by (cases p; cases q) (simp_all add: xor_poly_def)

lemma fu32_eq_iff [simp]: "fu32 x = fu32 y \<longleftrightarrow> x = y"
proof
  have less: "unat w < nat MODULUS" for w :: u32
    using unat_u32 [of w] by (simp add: MODULUS_def)
  assume "fu32 x = fu32 y"
  then have "(of_nat (unat x) :: gf) = of_nat (unat y)" by (simp only: fu32_def)
  then have "unat x = unat y" using less less by (rule gf_of_nat_small)
  then show "x = y" by (rule unsigned_word_eqI)
qed simp

lemma bit_u32: "bit (x :: u32) n \<Longrightarrow> n < 32"
  using bit_imp_le_length [of x n] by simp

definition word_at :: "gf list \<Rightarrow> nat \<Rightarrow> u32 \<Rightarrow> bool" where
  "word_at cur off w \<longleftrightarrow> (\<forall>i < 32. cur ! (off + i) = of_bool (bit w i))"

lemma bits_exist: "n \<le> 32 \<Longrightarrow> \<forall>i < n. x i = 0 \<or> x i = (1 :: gf) \<Longrightarrow> \<exists>w :: u32. \<forall>i < n. x i = of_bool (bit w i)"
proof (induction n)
  case (Suc n)
  then obtain w :: u32 where w: "\<forall>i < n. x i = of_bool (bit w i)" by auto
  let ?w = "if x n = 1 then set_bit n w else unset_bit n w"
  have "x i = of_bool (bit ?w i)" if "i < Suc n" for i
    using that Suc(2,3) w by (cases "i = n") (auto simp: bit_set_bit_iff bit_unset_bit_iff)
  then show ?case by blast
qed simp

lemma unat_bits: "unat (w :: u32) = (\<Sum>i < 32. 2 ^ i * of_bool (bit w i))"
proof -
  have "unat w = take_bit 32 (unat w)" using unat_u32 [of w] by (simp add: take_bit_nat_eq_self)
  also have "\<dots> = horner_sum of_bool 2 (map (bit (unat w)) [0..<32])"
    by (simp only: horner_sum_bit_eq_take_bit)
  also have "\<dots> = (\<Sum>i < 32. of_bool (bit (unat w) i) * 2 ^ i)"
    by (simp add: horner_sum_eq_sum lessThan_atLeast0)
  also have "\<dots> = (\<Sum>i < 32. 2 ^ i * of_bool (bit w i))"
    by (rule sum.cong) (simp_all add: bit_unsigned_iff)
  finally show ?thesis .
qed

lemma pack_sum: "pack cur off = (\<Sum>i < 32. 2 ^ i * cur ! (off + i))"
  by (simp add: pack_def pow2_def interv_sum_list_conv_sum_set_nat lessThan_atLeast0)

lemma pack_word: "word_at cur off w \<Longrightarrow> pack cur off = fu32 w"
  unfolding pack_sum fu32_def unat_bits of_nat_sum
  by (rule sum.cong) (simp_all add: word_at_def)

lemma word_of_bits:
  assumes "\<forall>i < 32. cur ! (off + i) = 0 \<or> cur ! (off + i) = 1" "x = pack cur off"
  shows "\<exists>w. x = fu32 w \<and> word_at cur off w"
proof -
  obtain w :: u32 where "\<forall>i < 32. cur ! (off + i) = of_bool (bit w i)"
    using bits_exist [of 32 "\<lambda>i. cur ! (off + i)"] assms(1) by auto
  then have "word_at cur off w" by (simp add: word_at_def)
  then show ?thesis using pack_word assms(2) by blast
qed

section \<open>Carries\<close>

lemma sum_list_unat_less: "(\<Sum>y\<leftarrow>ys. unat (y :: u32)) \<le> length ys * 2 ^ 32"
proof (induction ys)
  case (Cons y ys)
  have "unat y \<le> 2 ^ 32" using unat_u32 [of y] by simp
  then show ?case using Cons by simp
qed simp

lemma word_of_nat_sum: "(word_of_nat (\<Sum>y\<leftarrow>ys. unat y) :: u32) = sum_list ys"
  by (induction ys) simp_all

lemma carry_sum:
  assumes eq: "fu32 x + pow2 32 * of_nat j = (\<Sum>y\<leftarrow>ys. fu32 y)" and j: "j < 2 ^ 16" and ys: "length ys < 2 ^ 16"
  shows "x = sum_list ys"
proof -
  have "(\<Sum>y\<leftarrow>ys. fu32 y) = of_nat (\<Sum>y\<leftarrow>ys. unat y)" by (induction ys) (simp_all add: fu32_def)
  then have "(of_nat (unat x + 2 ^ 32 * j) :: gf) = of_nat (\<Sum>y\<leftarrow>ys. unat y)"
    using eq by (simp add: fu32_def pow2_def)
  moreover have "unat x + 2 ^ 32 * j < nat MODULUS"
    using unat_u32 [of x] j by (simp add: MODULUS_def)
  moreover have "(\<Sum>y\<leftarrow>ys. unat y) < nat MODULUS"
    using sum_list_unat_less [of ys] ys by (simp add: MODULUS_def)
  ultimately have "unat x + 2 ^ 32 * j = (\<Sum>y\<leftarrow>ys. unat y)" by (rule gf_of_nat_small)
  then have "(word_of_nat (unat x + 2 ^ 32 * j) :: u32) = sum_list ys" by (simp only: word_of_nat_sum)
  moreover have "(word_of_nat (2 ^ 32 * j) :: u32) = 0"
    unfolding word_of_nat_eq_0_iff by simp
  ultimately show ?thesis by simp
qed

section \<open>The sub-blocks of a row\<close>

text \<open>A word whose bits are computed cell by cell is packed into the word cell.\<close>

lemma packed_cell:
  assumes "\<forall>i < 32. cur ! (off + i) = of_bool (bit w i)" "cur ! x = pack cur off"
  shows "cur ! x = fu32 w"
  using assms pack_word [of cur off w] by (simp add: word_at_def)

lemma sigma_block:
  assumes z: "zeros (sigma_cons cur inp off_t off_bit off_w r1 r2 third)" and x: "word_at cur inp x"
    and third: "\<forall>i < 32. third i = of_bool (th i)"
    and w: "\<forall>i < 32. bit w i \<longleftrightarrow> (bit x ((i + r1) mod 32) \<noteq> bit x ((i + r2) mod 32)) \<noteq> th i"
  shows "cur ! off_w = fu32 w"
proof -
  have bits: "cur ! (inp + k mod 32) = of_bool (bit x (k mod 32))" for k
    using x by (simp add: word_at_def)
  have t: "\<forall>i < 32. cur ! (off_t + i) = of_bool (bit x ((i + r1) mod 32) \<noteq> bit x ((i + r2) mod 32))"
    using z by (simp add: sigma_cons_def bits)
  then have "\<forall>i < 32. cur ! (off_bit + i) = of_bool (bit w i)"
    using z third w by (simp add: sigma_cons_def)
  then show ?thesis using z by (intro packed_cell) (simp_all add: sigma_cons_def)
qed

lemma bit_rotr: "i < 32 \<Longrightarrow> n < 32 \<Longrightarrow> bit (word_rotr n (x :: u32)) i \<longleftrightarrow> bit x ((i + n) mod 32)"
  by (simp add: bit_word_rotr_iff)

lemma rotation_block:
  assumes z: "zeros (sigma_cons cur inp off_t off_bit off_w r1 r2 (rot_bit cur inp r3))" and x: "word_at cur inp x"
    and r: "r1 < 32" "r2 < 32" "r3 < 32"
  shows "cur ! off_w = fu32 (word_rotr r1 x XOR word_rotr r2 x XOR word_rotr r3 x)"
  using r x by (intro sigma_block [OF z x, where th = "\<lambda>i. bit x ((i + r3) mod 32)"])
    (auto simp: rot_bit_def word_at_def bit_xor_iff bit_rotr)

lemma shift_block:
  assumes z: "zeros (sigma_cons cur inp off_t off_bit off_w r1 r2 (shift_bit cur inp r3))" and x: "word_at cur inp x"
    and r: "r1 < 32" "r2 < 32"
  shows "cur ! off_w = fu32 (word_rotr r1 x XOR word_rotr r2 x XOR drop_bit r3 x)"
proof (rule sigma_block [OF z x, where th = "\<lambda>i. i + r3 < 32 \<and> bit x (i + r3)"])
  show "\<forall>i < 32. bit (word_rotr r1 x XOR word_rotr r2 x XOR drop_bit r3 x) i \<longleftrightarrow>
      (bit x ((i + r1) mod 32) \<noteq> bit x ((i + r2) mod 32)) \<noteq> (i + r3 < 32 \<and> bit x (i + r3))"
    using r by (auto simp: bit_xor_iff bit_rotr bit_drop_bit_eq add.commute dest: bit_u32)
qed (use x in \<open>simp add: shift_bit_def word_at_def\<close>)

lemma ch_block:
  assumes "zeros (ch_cons cur)" "word_at cur OFF_BIT_E e" "word_at cur OFF_BIT_F f" "word_at cur OFF_BIT_G g"
  shows "cur ! OFF_CH_W = fu32 (ch e f g)"
proof (rule packed_cell)
  show "\<forall>i < 32. cur ! (OFF_CH_BIT + i) = of_bool (bit (ch e f g) i)"
    using assms by (auto simp: ch_cons_def word_at_def ch_def bit_xor_iff bit_and_iff bit_not_iff Let_def)
  show "cur ! OFF_CH_W = pack cur OFF_CH_BIT" using assms(1) by (simp add: ch_cons_def)
qed

lemma maj_block:
  assumes z: "zeros (maj_cons cur)" and "word_at cur OFF_BIT_A a" "word_at cur OFF_BIT_B b" "word_at cur OFF_BIT_C c"
  shows "cur ! OFF_MAJ_W = fu32 (maj a b c)"
proof (rule packed_cell)
  have "\<forall>i < 32. cur ! (OFF_MAJ_AB + i) = of_bool (bit a i \<and> bit b i) \<and> cur ! (OFF_MAJ_AC + i) = of_bool (bit a i \<and> bit c i) \<and>
      cur ! (OFF_MAJ_BC + i) = of_bool (bit b i \<and> bit c i)"
    using assms by (simp add: maj_cons_def word_at_def zeros_concat Let_def of_bool_conj)
  then have "\<forall>i < 32. cur ! (OFF_MAJ_BC + i) = of_bool (bit b i \<and> bit c i) \<and>
      cur ! (OFF_MAJ_U + i) = of_bool ((bit a i \<and> bit b i) \<noteq> (bit a i \<and> bit c i))"
    using z by (simp add: maj_cons_def)
  then show "\<forall>i < 32. cur ! (OFF_MAJ_BIT + i) = of_bool (bit (maj a b c) i)"
    using z by (auto simp: maj_cons_def maj_def bit_xor_iff bit_and_iff)
  show "cur ! OFF_MAJ_W = pack cur OFF_MAJ_BIT" using z by (simp add: maj_cons_def)
qed

lemma all_less_8: "(\<forall>k < 8 :: nat. P k) \<longleftrightarrow> P 0 \<and> P 1 \<and> P 2 \<and> P 3 \<and> P 4 \<and> P 5 \<and> P 6 \<and> P 7"
  by (simp add: numeral_eq_Suc All_less_Suc) blast

lemma carry_bits: "b = 0 \<or> b = 1 \<Longrightarrow> \<exists>n \<le> 1. b = (of_nat n :: gf)"
  by (elim disjE) (rule exI [of _ "0 :: nat"], simp, rule exI [of _ "1 :: nat"], simp)

lemma t1_block:
  assumes "zeros (t1_cons cur k)"
  shows "\<exists>n \<le> 7. cur ! OFF_T1_LO + pow2 32 * of_nat n = cur ! A_h + cur ! OFF_S1_W + cur ! OFF_CH_W + k + cur ! OFF_W"
proof -
  have b: "cur ! OFF_T1_C0 = 0 \<or> cur ! OFF_T1_C0 = 1" "cur ! OFF_T1_C1 = 0 \<or> cur ! OFF_T1_C1 = 1"
    "cur ! OFF_T1_C2 = 0 \<or> cur ! OFF_T1_C2 = 1"
    using assms by (simp_all add: t1_cons_def)
  obtain n0 n1 n2 where "cur ! OFF_T1_C0 = of_nat n0" "cur ! OFF_T1_C1 = of_nat n1" "cur ! OFF_T1_C2 = of_nat n2"
    "n0 \<le> 1" "n1 \<le> 1" "n2 \<le> 1"
    using b [THEN carry_bits] by blast
  moreover from this have "cur ! OFF_T1_CW = of_nat (n0 + 2 * n1 + 4 * n2)"
    using assms by (simp add: t1_cons_def diff_eq_eq add_ac)
  moreover have "cur ! OFF_T1_LO + pow2 32 * cur ! OFF_T1_CW = cur ! A_h + cur ! OFF_S1_W + cur ! OFF_CH_W + k + cur ! OFF_W"
    using assms by (simp add: t1_cons_def)
  ultimately show ?thesis by (intro exI [of _ "n0 + 2 * n1 + 4 * n2"]) simp
qed

lemma t2_block:
  assumes "zeros (t2_cons cur)"
  shows "\<exists>n \<le> 3. cur ! OFF_T2_LO + pow2 32 * of_nat n = cur ! OFF_S0_W + cur ! OFF_MAJ_W"
proof -
  have b: "cur ! OFF_T2_C0 = 0 \<or> cur ! OFF_T2_C0 = 1" "cur ! OFF_T2_C1 = 0 \<or> cur ! OFF_T2_C1 = 1"
    using assms by (simp_all add: t2_cons_def)
  obtain n0 n1 where "cur ! OFF_T2_C0 = of_nat n0" "cur ! OFF_T2_C1 = of_nat n1" "n0 \<le> 1" "n1 \<le> 1"
    using b [THEN carry_bits] by blast
  moreover from this have "cur ! OFF_T2_CW = of_nat (n0 + 2 * n1)"
    using assms by (simp add: t2_cons_def diff_eq_eq add_ac)
  moreover have "cur ! OFF_T2_LO + pow2 32 * cur ! OFF_T2_CW = cur ! OFF_S0_W + cur ! OFF_MAJ_W"
    using assms by (simp add: t2_cons_def)
  ultimately show ?thesis by (intro exI [of _ "n0 + 2 * n1"]) simp
qed

section \<open>One row\<close>

definition state_row :: "gf list \<Rightarrow> u32 list \<Rightarrow> bool" where
  "state_row cur s \<longleftrightarrow> length s = 8 \<and> (\<forall>k < 8. cur ! k = fu32 (s ! k))"

text \<open>The words of which a row holds the bits.\<close>

lemma row_words:
  assumes "zeros (bit_cons cur)" "zeros (decomposition_cons cur)"
  shows "\<exists>a. cur ! A_a = fu32 a \<and> word_at cur OFF_BIT_A a" "\<exists>b. cur ! A_b = fu32 b \<and> word_at cur OFF_BIT_B b"
    "\<exists>c. cur ! A_c = fu32 c \<and> word_at cur OFF_BIT_C c" "\<exists>e. cur ! A_e = fu32 e \<and> word_at cur OFF_BIT_E e"
    "\<exists>f. cur ! A_f = fu32 f \<and> word_at cur OFF_BIT_F f" "\<exists>g. cur ! A_g = fu32 g \<and> word_at cur OFF_BIT_G g"
    "\<exists>w. cur ! (OFF_WW0 + 14) = fu32 w \<and> word_at cur OFF_BIT_WW14 w"
    "\<exists>w. cur ! (OFF_WW0 + 1) = fu32 w \<and> word_at cur OFF_BIT_WW1 w"
  using assms by (auto intro!: word_of_bits simp: bit_cons_def decomposition_cons_def zeros_concat)

lemma eval_zeros:
  assumes "zeros (eval_sha256_constraints cur nxt row n_blocks)" "row div ROWS_PER_BLOCK < n_blocks"
    and "i = row mod ROWS_PER_BLOCK"
  shows "zeros (bit_cons cur)" "zeros (decomposition_cons cur)"
    "zeros (sigma_cons cur OFF_BIT_A OFF_S0_T OFF_S0_BIT OFF_S0_W 2 13 (rot_bit cur OFF_BIT_A 22))"
    "zeros (sigma_cons cur OFF_BIT_E OFF_S1_T OFF_S1_BIT OFF_S1_W 6 11 (rot_bit cur OFF_BIT_E 25))"
    "zeros (sigma_cons cur OFF_BIT_WW1 OFF_SS0_T OFF_SS0_BIT OFF_SS0_W 7 18 (shift_bit cur OFF_BIT_WW1 3))"
    "zeros (sigma_cons cur OFF_BIT_WW14 OFF_SS1_T OFF_SS1_BIT OFF_SS1_W 17 19 (shift_bit cur OFF_BIT_WW14 10))"
    "zeros (ch_cons cur)" "zeros (maj_cons cur)" "zeros (t1_cons cur (if i < 64 then fu32 (sha_K ! i) else 0))"
    "zeros (t2_cons cur)" "zeros (shift_cons (i < 64) cur nxt)" "zeros (new_state_cons (i < 64) cur nxt)"
    "zeros (h_cons (i = 64) cur nxt)" "zeros (window_cons cur nxt)" "zeros (schedule_cons (15 \<le> i \<and> i \<le> 62) cur nxt)"
  using assms by (simp_all add: eval_sha256_constraints_def Let_def split: if_splits)

lemma round_row:
  assumes z: "zeros (eval_sha256_constraints cur nxt row n_blocks)" "row div ROWS_PER_BLOCK < n_blocks"
    and i: "i = row mod ROWS_PER_BLOCK" "i < 64"
    and s: "state_row cur s" and w: "cur ! OFF_W = fu32 w"
    and nxt: "nxt ! A_a = fu32 na" "nxt ! A_e = fu32 ne"
  shows "state_row nxt (sha_round (sha_K ! i) w s)"
proof -
  note c = eval_zeros [OF z i(1)]
  obtain a b cc d e f g h where s8: "s = [a, b, cc, d, e, f, g, h]"
    using s by (auto simp: state_row_def length_Suc_conv numeral_eq_Suc)
  have cells: "cur ! A_a = fu32 a" "cur ! A_b = fu32 b" "cur ! A_c = fu32 cc" "cur ! A_d = fu32 d"
    "cur ! A_e = fu32 e" "cur ! A_f = fu32 f" "cur ! A_g = fu32 g" "cur ! A_h = fu32 h"
    using s by (simp_all add: state_row_def s8 all_less_8)
  have bits: "word_at cur OFF_BIT_A a" "word_at cur OFF_BIT_B b" "word_at cur OFF_BIT_C cc"
    "word_at cur OFF_BIT_E e" "word_at cur OFF_BIT_F f" "word_at cur OFF_BIT_G g"
    using row_words [OF c(1,2)] cells by auto
  have S0: "cur ! OFF_S0_W = fu32 (big_sigma0 a)" unfolding big_sigma0_def by (rule rotation_block [OF c(3) bits(1)]) simp_all
  have S1: "cur ! OFF_S1_W = fu32 (big_sigma1 e)" unfolding big_sigma1_def by (rule rotation_block [OF c(4) bits(4)]) simp_all
  have CH: "cur ! OFF_CH_W = fu32 (ch e f g)" by (rule ch_block [OF c(7) bits(4-6)])
  have MAJ: "cur ! OFF_MAJ_W = fu32 (maj a b cc)" by (rule maj_block [OF c(8) bits(1-3)])
  define t1 where "t1 = [h, big_sigma1 e, ch e f g, sha_K ! i, w]"
  define t2 where "t2 = [big_sigma0 a, maj a b cc]"
  obtain n1 where n1: "n1 \<le> 7" "cur ! OFF_T1_LO + pow2 32 * of_nat n1 = (\<Sum>y\<leftarrow>t1. fu32 y)"
    using t1_block [OF c(9)] i(2) w by (auto simp: t1_def cells S1 CH add_ac)
  obtain n2 where n2: "n2 \<le> 3" "cur ! OFF_T2_LO + pow2 32 * of_nat n2 = (\<Sum>y\<leftarrow>t2. fu32 y)"
    using t2_block [OF c(10)] by (auto simp: t2_def S0 MAJ)
  have nw: "cur ! OFF_NA_C = 0 \<or> cur ! OFF_NA_C = 1" "cur ! OFF_NE_C = 0 \<or> cur ! OFF_NE_C = 1"
    "nxt ! A_a + pow2 32 * cur ! OFF_NA_C = cur ! OFF_T1_LO + cur ! OFF_T2_LO"
    "nxt ! A_e + pow2 32 * cur ! OFF_NE_C = cur ! A_d + cur ! OFF_T1_LO"
    using c(12) i(2) by (simp_all add: new_state_cons_def diff_eq_eq add_ac)
  obtain ca ce where cae: "ca \<le> 1" "cur ! OFF_NA_C = of_nat ca" "ce \<le> 1" "cur ! OFF_NE_C = of_nat ce"
    using nw(1,2) [THEN carry_bits] by blast
  have na: "fu32 na + pow2 32 * of_nat (ca + n1 + n2) = (\<Sum>y\<leftarrow>t1 @ t2. fu32 y)"
    using nw(3) n1(2) n2(2) by (simp add: nxt cae ring_distribs add_ac flip: n1(2) n2(2))
  have na: "na = sum_list (t1 @ t2)" using n1(1) n2(1) cae(1) by (intro carry_sum [OF na]) (simp_all add: t1_def t2_def)
  have ne: "fu32 ne + pow2 32 * of_nat (ce + n1) = (\<Sum>y\<leftarrow>d # t1. fu32 y)"
    using nw(4) n1(2) by (simp add: nxt cae cells ring_distribs add_ac flip: n1(2))
  have ne: "ne = sum_list (d # t1)" using n1(1) cae(3) by (intro carry_sum [OF ne]) (simp_all add: t1_def)
  have "nxt ! A_b = fu32 a" "nxt ! A_c = fu32 b" "nxt ! A_d = fu32 cc" "nxt ! A_f = fu32 e" "nxt ! A_g = fu32 f" "nxt ! A_h = fu32 g"
    using c(11) i(2) cells by (simp_all add: shift_cons_def zeros_map)
  then show ?thesis
    using nxt na ne by (simp add: state_row_def s8 all_less_8 t1_def t2_def Let_def add_ac)
qed

section \<open>One block\<close>

text \<open>The rows of block \<open>b\<close>, 65 transitions of which satisfy the constraints.\<close>

definition block_ok :: "(nat \<Rightarrow> gf list) \<Rightarrow> nat \<Rightarrow> nat \<Rightarrow> bool" where
  "block_ok rows b n_blocks \<longleftrightarrow> b < n_blocks \<and> (\<forall>r \<le> 64. zeros
     (eval_sha256_constraints (rows (ROWS_PER_BLOCK * b + r)) (rows (ROWS_PER_BLOCK * b + r + 1)) (ROWS_PER_BLOCK * b + r) n_blocks))"

definition block_row :: "(nat \<Rightarrow> gf list) \<Rightarrow> nat \<Rightarrow> nat \<Rightarrow> gf list" where
  "block_row rows b r = rows (ROWS_PER_BLOCK * b + r)"

lemma block_okD:
  assumes "block_ok rows b n_blocks" "r \<le> 64"
  shows "zeros (eval_sha256_constraints (block_row rows b r) (block_row rows b (Suc r)) (ROWS_PER_BLOCK * b + r) n_blocks)"
    "(ROWS_PER_BLOCK * b + r) div ROWS_PER_BLOCK < n_blocks" "r = (ROWS_PER_BLOCK * b + r) mod ROWS_PER_BLOCK"
  using assms by (simp_all add: block_ok_def block_row_def ROWS_PER_BLOCK_def)

lemma block_zeros:
  assumes "block_ok rows b n_blocks" "r \<le> 64"
  shows "zeros (bit_cons (block_row rows b r))" "zeros (decomposition_cons (block_row rows b r))"
    "zeros (window_cons (block_row rows b r) (block_row rows b (Suc r)))"
    "zeros (h_cons (r = 64) (block_row rows b r) (block_row rows b (Suc r)))"
  using eval_zeros [OF block_okD [OF assms]] by blast+

lemma window_shift:
  assumes "block_ok rows b n_blocks" "r \<le> 64"
  shows "block_row rows b (Suc r) ! (OFF_WW0 + 14) = block_row rows b r ! OFF_W"
    "k < 14 \<Longrightarrow> block_row rows b (Suc r) ! (OFF_WW0 + k) = block_row rows b r ! (OFF_WW0 + Suc k)"
  using block_zeros(3) [OF assms] by (simp_all add: window_cons_def)

lemma window_cell:
  assumes ok: "block_ok rows b n_blocks"
  shows "r \<le> 64 \<Longrightarrow> k < 15 \<Longrightarrow> 15 \<le> r + k \<Longrightarrow> block_row rows b r ! (OFF_WW0 + k) = block_row rows b (r + k - 15) ! OFF_W"
proof (induction r arbitrary: k)
  case (Suc r)
  show ?case
  proof (cases "k = 14")
    case True
    then show ?thesis using window_shift(1) [OF ok, of r] Suc.prems by simp
  next
    case False
    then have "k < 14" using Suc.prems by simp
    then show ?thesis using window_shift(2) [OF ok, of r k] Suc.IH [of "Suc k"] Suc.prems by simp
  qed
qed simp

lemma message_cells:
  assumes ok: "block_ok rows b n_blocks"
  obtains m where "\<And>r. r < 64 \<Longrightarrow> block_row rows b r ! OFF_W = fu32 (m r)"
proof -
  have "\<exists>w. r < 64 \<longrightarrow> block_row rows b r ! OFF_W = fu32 w" for r
    using row_words(7) [OF block_zeros(1,2) [OF ok, of "Suc r"]] window_shift(1) [OF ok, of r] by fastforce
  then show ?thesis using that by metis
qed

lemma schedule_row:
  assumes z: "zeros (eval_sha256_constraints cur nxt row n_blocks)" "row div ROWS_PER_BLOCK < n_blocks"
    and i: "i = row mod ROWS_PER_BLOCK" "15 \<le> i" "i \<le> 62"
    and w: "cur ! (OFF_WW0 + 0) = fu32 w0" "cur ! (OFF_WW0 + 1) = fu32 w1" "cur ! (OFF_WW0 + 9) = fu32 w9"
      "cur ! (OFF_WW0 + 14) = fu32 w14" "nxt ! OFF_W = fu32 wn"
  shows "wn = small_sigma1 w14 + w9 + small_sigma0 w1 + w0"
proof -
  note c = eval_zeros [OF z i(1)]
  have bits: "word_at cur OFF_BIT_WW14 w14" "word_at cur OFF_BIT_WW1 w1"
    using row_words(7,8) [OF c(1,2)] w(2,4) by auto
  have S: "cur ! OFF_SS0_W = fu32 (small_sigma0 w1)" "cur ! OFF_SS1_W = fu32 (small_sigma1 w14)"
    unfolding small_sigma0_def small_sigma1_def
    by (rule shift_block [OF c(5) bits(2)] shift_block [OF c(6) bits(1)]; simp)+
  have s: "nxt ! OFF_W + pow2 32 * cur ! OFF_WS_CW = cur ! (OFF_WW0 + 0) + cur ! OFF_SS0_W + cur ! (OFF_WW0 + 9) + cur ! OFF_SS1_W"
    "cur ! OFF_WS_C0 = 0 \<or> cur ! OFF_WS_C0 = 1" "cur ! OFF_WS_C1 = 0 \<or> cur ! OFF_WS_C1 = 1"
    "cur ! OFF_WS_CW = cur ! OFF_WS_C0 + 2 * cur ! OFF_WS_C1"
    using c(15) i(2,3) by (auto simp: schedule_cons_def Let_def diff_eq_eq add_ac)
  obtain n0 n1 where n: "n0 \<le> 1" "cur ! OFF_WS_C0 = of_nat n0" "n1 \<le> 1" "cur ! OFF_WS_C1 = of_nat n1"
    using s(2,3) [THEN carry_bits] by blast
  have "fu32 wn + pow2 32 * of_nat (n0 + 2 * n1) = (\<Sum>y\<leftarrow>[w0, small_sigma0 w1, w9, small_sigma1 w14]. fu32 y)"
    using s(1) by (simp only: s(4) n w S) simp
  then have "wn = sum_list [w0, small_sigma0 w1, w9, small_sigma1 w14]"
    by (rule carry_sum) (use n in simp_all)
  then show ?thesis by (simp add: add_ac)
qed

lemma schedule_iterate:
  assumes "\<And>t. 16 \<le> t \<Longrightarrow> t < 16 + k \<Longrightarrow> m t = small_sigma1 (m (t - 2)) + m (t - 7) + small_sigma0 (m (t - 15)) + m (t - 16)"
  shows "(schedule_next ^^ k) (map m [0..<16]) = map m [0..<16 + k]"
  using assms
proof (induction k)
  case (Suc k)
  have "m (16 + k) = small_sigma1 (m (16 + k - 2)) + m (16 + k - 7) + small_sigma0 (m (16 + k - 15)) + m (16 + k - 16)"
    by (rule Suc.prems) simp_all
  moreover have "map m [0..<16 + Suc k] = map m [0..<16 + k] @ [m (16 + k)]" by (simp only: add_Suc_right upt_Suc) simp
  ultimately show ?case using Suc by (simp add: schedule_next_def Let_def)
qed simp

lemma length_sha_round [simp]: "length (sha_round k w s) = length s"
  by (cases "(k, w, s)" rule: sha_round.cases) (simp_all add: Let_def)

lemma state_at_Suc: "state_at w iv (Suc t) = sha_round (sha_K ! t) (w ! t) (state_at w iv t)"
  by (simp add: state_at_def)

lemma length_state_at [simp]: "length (state_at w iv t) = length iv"
  by (induction t) (simp_all add: state_at_def)

lemma block_computes:
  assumes ok: "block_ok rows b n_blocks" and iv: "state_row (block_row rows b 0) iv"
    and m: "\<And>r. r < 64 \<Longrightarrow> block_row rows b r ! OFF_W = fu32 (m r)"
  shows "message_schedule (map m [0..<16]) = map m [0..<64]"
    and "t \<le> 64 \<Longrightarrow> state_row (block_row rows b t) (state_at (map m [0..<64]) iv t)"
proof -
  have "m t = small_sigma1 (m (t - 2)) + m (t - 7) + small_sigma0 (m (t - 15)) + m (t - 16)" if "16 \<le> t" "t < 16 + 48" for t
  proof -
    let ?r = "t - 1"
    have r: "?r \<le> 64" "15 \<le> ?r" "?r \<le> 62" "Suc ?r = t" using that by simp_all
    have c: "block_row rows b ?r ! (OFF_WW0 + k) = fu32 (m (?r + k - 15))" if "k < 15" for k
      using window_cell [OF ok r(1) that] m [of "?r + k - 15"] r(2,3) that by simp
    show ?thesis
      using schedule_row [OF block_okD [OF ok r(1)] r(2,3) c c c c] m [of t] r that by simp
  qed
  then show "message_schedule (map m [0..<16]) = map m [0..<64]"
    unfolding message_schedule_def using schedule_iterate [of 48 m] by simp
  show "t \<le> 64 \<Longrightarrow> state_row (block_row rows b t) (state_at (map m [0..<64]) iv t)"
  proof (induction t)
    case 0
    then show ?case using iv by (simp add: state_at_def)
  next
    case (Suc t)
    then have t: "t \<le> 64" "t < 64" "state_row (block_row rows b t) (state_at (map m [0..<64]) iv t)" by simp_all
    obtain na ne where "block_row rows b (Suc t) ! A_a = fu32 na" "block_row rows b (Suc t) ! A_e = fu32 ne"
      using row_words(1,4) [OF block_zeros(1,2) [OF ok Suc.prems]] by blast
    from round_row [OF block_okD [OF ok t(1)] t(2,3) m [OF t(2)] this]
    show ?case using t(2) by (simp add: state_at_Suc)
  qed
qed

lemma h_held:
  assumes "block_ok rows b n_blocks" "k < 8"
  shows "r \<le> 64 \<Longrightarrow> block_row rows b r ! (OFF_H0 + k) = block_row rows b 0 ! (OFF_H0 + k)"
proof (induction r)
  case (Suc r)
  then show ?case using block_zeros(4) [OF assms(1), of r] assms(2) by (simp add: h_cons_def)
qed simp

lemma fu32_minus_carry:
  assumes "(fu32 x + fu32 y - fu32 z) * (fu32 x + fu32 y - fu32 z - pow2 32) = 0"
  shows "z = x + y"
proof -
  have "fu32 z + pow2 32 * of_nat 0 = fu32 x + fu32 y \<or> fu32 z + pow2 32 * of_nat 1 = fu32 x + fu32 y"
    using assms by (auto simp: diff_eq_eq add_ac)
  then have "\<exists>j \<le> 1. fu32 z + pow2 32 * of_nat j = (\<Sum>w\<leftarrow>[x, y]. fu32 w)" by (auto simp del: of_nat_0 of_nat_1)
  then show ?thesis using carry_sum [of z _ "[x, y]"] by fastforce
qed

lemma block_digest:
  assumes ok: "block_ok rows b n_blocks" and iv: "state_row (block_row rows b 0) iv"
    and H: "\<forall>k < 8. block_row rows b 0 ! (OFF_H0 + k) = fu32 (hs ! k)" "length hs = 8"
    and D: "\<forall>k < 8. block_row rows b 65 ! (OFF_H0 + k) = fu32 (dg ! k)" "length dg = 8"
  obtains m where "length m = 16" "\<And>r. r < 16 \<Longrightarrow> block_row rows b r ! OFF_W = fu32 (m ! r)"
    "dg = map2 (+) hs (state_at (message_schedule m) iv 64)"
proof -
  obtain m where m: "\<And>r. r < 64 \<Longrightarrow> block_row rows b r ! OFF_W = fu32 (m r)" using message_cells [OF ok] by blast
  let ?s = "state_at (map m [0..<64]) iv 64"
  have c: "message_schedule (map m [0..<16]) = map m [0..<64]" by (rule block_computes(1) [OF ok iv m])
  have s: "state_row (block_row rows b 64) ?s" by (rule block_computes(2) [OF ok iv m]) simp_all
  have z: "zeros (h_cons True (block_row rows b 64) (block_row rows b 65))" using block_zeros(4) [OF ok, of 64] by simp
  have "dg ! k = hs ! k + ?s ! k" if k: "k < 8" for k
  proof (rule fu32_minus_carry)
    have cells: "block_row rows b 64 ! (OFF_H0 + k) = fu32 (hs ! k)" "block_row rows b 64 ! (A_a + k) = fu32 (?s ! k)"
      "block_row rows b 65 ! (OFF_H0 + k) = fu32 (dg ! k)"
      using k s H D h_held [OF ok k, of 64] by (simp_all add: state_row_def)
    from z k show "(fu32 (hs ! k) + fu32 (?s ! k) - fu32 (dg ! k)) * (fu32 (hs ! k) + fu32 (?s ! k) - fu32 (dg ! k) - pow2 32) = 0"
      unfolding h_cons_def Let_def if_True zeros_simps cells [symmetric] by blast
  qed
  then have "dg = map2 (+) hs ?s"
    using H(2) D(2) iv by (intro nth_equalityI) (simp_all add: state_row_def)
  then show ?thesis using that [of "map m [0..<16]"] m c by simp
qed

end
