(* ===== verification/Sha256_Trace.thy ===== *)
theory Sha256_Trace
  imports Sha256_Sound
begin

text \<open>
  The trace builder of \<open>deep_ali/src/sha256_air.rs\<close>: the cells of a row (\<open>fill_block\<close>), the rows
  of one block and of a padded message, and that they satisfy the constraints.
\<close>

section \<open>The cells of a row\<close>

definition bitw :: "u32 \<Rightarrow> nat \<Rightarrow> u32" where
  "bitw x i = drop_bit i x AND 1"

definition bit_cells :: "u32 \<Rightarrow> gf list" where
  "bit_cells x = map (\<lambda>i. fu32 (bitw x i)) [0..<32]"

definition sigma_cells :: "u32 \<Rightarrow> nat \<Rightarrow> nat \<Rightarrow> (nat \<Rightarrow> u32) \<Rightarrow> u32 \<Rightarrow> gf list" where
  "sigma_cells x r1 r2 third word =
     (let t0 = \<lambda>i. bitw x ((i + r1) mod 32) XOR bitw x ((i + r2) mod 32)
      in map (\<lambda>i. fu32 (t0 i)) [0..<32] @ map (\<lambda>i. fu32 (t0 i XOR third i)) [0..<32] @ [fu32 word])"

definition ch_cells :: "u32 \<Rightarrow> gf list" where
  "ch_cells ch_word = bit_cells ch_word @ [fu32 ch_word]"

definition maj_cells :: "u32 \<Rightarrow> u32 \<Rightarrow> u32 \<Rightarrow> gf list" where
  "maj_cells a b c =
     (let ab = \<lambda>i. bitw a i AND bitw b i; ac = \<lambda>i. bitw a i AND bitw c i; bc = \<lambda>i. bitw b i AND bitw c i;
          u = \<lambda>i. ab i XOR ac i
      in map (\<lambda>i. fu32 (ab i)) [0..<32] @ map (\<lambda>i. fu32 (ac i)) [0..<32] @ map (\<lambda>i. fu32 (bc i)) [0..<32] @
         map (\<lambda>i. fu32 (u i)) [0..<32] @ map (\<lambda>i. fu32 (u i XOR bc i)) [0..<32] @ [fu32 (maj a b c)])"

definition lo32 :: "u64 \<Rightarrow> u32" where "lo32 x = ucast (x AND 0xFFFFFFFF)"
definition hi32 :: "u64 \<Rightarrow> u32" where "hi32 x = ucast (drop_bit 32 x)"

definition t1_full :: "u32 \<Rightarrow> u32 \<Rightarrow> u32 \<Rightarrow> u32 \<Rightarrow> u32 \<Rightarrow> u32 \<Rightarrow> u64" where
  "t1_full h e f g k w = ucast h + ucast (big_sigma1 e) + ucast (ch e f g) + ucast k + ucast w"

definition t2_full :: "u32 \<Rightarrow> u32 \<Rightarrow> u32 \<Rightarrow> u64" where
  "t2_full a b c = ucast (big_sigma0 a) + ucast (maj a b c)"

definition t1_cells :: "u64 \<Rightarrow> gf list" where
  "t1_cells full = (let carry = hi32 full
     in [fu32 (lo32 full), fu32 (carry AND 1), fu32 (drop_bit 1 carry AND 1), fu32 (drop_bit 2 carry AND 1), fu32 carry])"

definition t2_cells :: "u64 \<Rightarrow> gf list" where
  "t2_cells full = (let carry = hi32 full
     in [fu32 (lo32 full), fu32 (carry AND 1), fu32 (drop_bit 1 carry AND 1), fu32 carry])"

text \<open>The message word \<open>d\<close> rows back, zero outside the block.\<close>

definition w_back :: "u32 list \<Rightarrow> nat \<Rightarrow> nat \<Rightarrow> u32" where
  "w_back w r d = (if d \<le> r \<and> r - d < 64 then w ! (r - d) else 0)"

definition ws_cells :: "u32 \<Rightarrow> u32 \<Rightarrow> u32 \<Rightarrow> u32 \<Rightarrow> gf list" where
  "ws_cells ww0 ww1 ww9 ww14 =
     (let full = ucast ww0 + ucast (small_sigma0 ww1) + ucast ww9 + ucast (small_sigma1 ww14) :: u64; carry = hi32 full
      in [fu32 (carry AND 1), fu32 (drop_bit 1 carry AND 1), fu32 carry])"

definition carry_cells :: "nat \<Rightarrow> u32 \<Rightarrow> u64 \<Rightarrow> u64 \<Rightarrow> gf list" where
  "carry_cells r d t1 t2 = (if r < 64
     then [fu32 (hi32 (ucast (lo32 t1) + ucast (lo32 t2))), fu32 (hi32 (ucast d + ucast (lo32 t1)))]
     else [0, 0])"

fun row_blocks :: "nat \<Rightarrow> u32 list \<Rightarrow> u32 list \<Rightarrow> u32 list \<Rightarrow> gf list list" where
  "row_blocks r w [a, b, c, d, e, f, g, h] hs =
     (let k_t = (if r < 64 then sha_K ! r else 0); w_t = w_back w r 0;
          t1 = t1_full h e f g k_t w_t; t2 = t2_full a b c;
          ww14 = w_back w r 1; ww1 = w_back w r 14; ww0 = w_back w r 15; ww9 = w_back w r 6
      in [map fu32 [a, b, c, d, e, f, g, h], bit_cells a, bit_cells b, bit_cells c, bit_cells e, bit_cells f, bit_cells g,
          sigma_cells a 2 13 (\<lambda>i. bitw a ((i + 22) mod 32)) (big_sigma0 a),
          sigma_cells e 6 11 (\<lambda>i. bitw e ((i + 25) mod 32)) (big_sigma1 e),
          ch_cells (ch e f g), maj_cells a b c, [fu32 w_t], t1_cells t1, t2_cells t2, map fu32 hs,
          map (\<lambda>k. fu32 (w_back w r (15 - k))) [0..<15], bit_cells ww14, bit_cells ww1,
          sigma_cells ww1 7 18 (\<lambda>i. if i + 3 < 32 then bitw ww1 (i + 3) else 0) (small_sigma0 ww1),
          sigma_cells ww14 17 19 (\<lambda>i. if i + 10 < 32 then bitw ww14 (i + 10) else 0) (small_sigma1 ww14),
          ws_cells ww0 ww1 ww9 ww14, carry_cells r d t1 t2])"
| "row_blocks r w s hs = []"

declare row_blocks.simps [simp del]

definition sha_row :: "nat \<Rightarrow> u32 list \<Rightarrow> u32 list \<Rightarrow> u32 list \<Rightarrow> gf list" where
  "sha_row r w s hs = concat (row_blocks r w s hs)"

definition fill_rows :: "u32 list \<Rightarrow> u32 list \<Rightarrow> u32 list \<Rightarrow> gf list list" where
  "fill_rows w st iv = map (\<lambda>r. sha_row r w (state_at w st (min r 64))
     (if r \<le> 64 then iv else map2 (+) iv (state_at w st 64))) [0..<ROWS_PER_BLOCK]"

definition fill_block :: "bytes \<Rightarrow> u32 list \<Rightarrow> gf list list" where
  "fill_block block iv = fill_rows (message_schedule (block_words block)) iv iv"

definition trace_columns :: "gf list list \<Rightarrow> gf list list" where
  "trace_columns rows = map (\<lambda>c. map (\<lambda>row. row ! c) rows) [0..<WIDTH]"

definition build_sha256_trace :: "bytes \<Rightarrow> gf list list" where
  "build_sha256_trace block = trace_columns (fill_block block sha_IV)"

fun fill_blocks :: "bytes list \<Rightarrow> u32 list \<Rightarrow> gf list list" where
  "fill_blocks [] iv = []"
| "fill_blocks (block # blocks) iv =
     fill_block block iv @ fill_blocks blocks (map2 (+) iv (compress_block_native block iv))"

definition sha256_rows :: "bytes list \<Rightarrow> gf list list" where
  "sha256_rows blocks = (let rows = fill_blocks blocks sha_IV;
     height = max (next_power_of_two (length rows)) ROWS_PER_BLOCK
     in rows @ replicate (height - length rows) (last rows))"

definition build_sha256_trace_multi :: "bytes \<Rightarrow> (gf list list \<times> nat) option" where
  "build_sha256_trace_multi message = do {
     blocks \<leftarrow> pad_message_to_blocks message;
     Some (trace_columns (sha256_rows blocks), length blocks) }"

section \<open>Reading the cells\<close>

lemma nth_concat_block:
  "k < length bs \<Longrightarrow> i < length (bs ! k) \<Longrightarrow> concat bs ! ((\<Sum>b\<leftarrow>take k bs. length b) + i) = bs ! k ! i"
proof (induction bs arbitrary: k)
  case (Cons b bs)
  then show ?case by (cases k) (simp_all add: nth_append add.assoc)
qed simp

lemma length_cells [simp]:
  "length (bit_cells x) = 32" "length (sigma_cells x r1 r2 th wd) = 65" "length (ch_cells x) = 33"
  "length (maj_cells a b c) = 161" "length (t1_cells t) = 5" "length (t2_cells t) = 4"
  "length (ws_cells p q u v) = 3" "length (carry_cells r d t t') = 2"
  by (simp_all add: bit_cells_def sigma_cells_def ch_cells_def maj_cells_def t1_cells_def t2_cells_def
      ws_cells_def carry_cells_def Let_def)

lemma unat_bitw: "fu32 (bitw x i) = of_bool (bit x i)"
proof -
  have "bitw x i = of_bool (bit x i)" by (simp add: bitw_def and_one_eq mod_2_eq_odd bit_iff_odd_drop_bit)
  then show ?thesis by (simp add: fu32_def)
qed

lemma bitw_xor: "bitw x i XOR bitw y j = of_bool (bit x i \<noteq> bit y j)"
  by (simp add: bitw_def and_one_eq mod_2_eq_odd bit_iff_odd_drop_bit)

definition seg_lengths :: "nat list" where
  "seg_lengths = [8, 32, 32, 32, 32, 32, 32, 65, 65, 33, 161, 1, 5, 4, 8, 15, 32, 32, 65, 65, 3, 2]"

lemma nth_22:
  "[x0, x1, x2, x3, x4, x5, x6, x7, x8, x9, x10, x11, x12, x13, x14, x15, x16, x17, x18, x19, x20, x21] ! 0 = x0"
  "[x0, x1, x2, x3, x4, x5, x6, x7, x8, x9, x10, x11, x12, x13, x14, x15, x16, x17, x18, x19, x20, x21] ! 1 = x1"
  "[x0, x1, x2, x3, x4, x5, x6, x7, x8, x9, x10, x11, x12, x13, x14, x15, x16, x17, x18, x19, x20, x21] ! 2 = x2"
  "[x0, x1, x2, x3, x4, x5, x6, x7, x8, x9, x10, x11, x12, x13, x14, x15, x16, x17, x18, x19, x20, x21] ! 3 = x3"
  "[x0, x1, x2, x3, x4, x5, x6, x7, x8, x9, x10, x11, x12, x13, x14, x15, x16, x17, x18, x19, x20, x21] ! 4 = x4"
  "[x0, x1, x2, x3, x4, x5, x6, x7, x8, x9, x10, x11, x12, x13, x14, x15, x16, x17, x18, x19, x20, x21] ! 5 = x5"
  "[x0, x1, x2, x3, x4, x5, x6, x7, x8, x9, x10, x11, x12, x13, x14, x15, x16, x17, x18, x19, x20, x21] ! 6 = x6"
  "[x0, x1, x2, x3, x4, x5, x6, x7, x8, x9, x10, x11, x12, x13, x14, x15, x16, x17, x18, x19, x20, x21] ! 7 = x7"
  "[x0, x1, x2, x3, x4, x5, x6, x7, x8, x9, x10, x11, x12, x13, x14, x15, x16, x17, x18, x19, x20, x21] ! 8 = x8"
  "[x0, x1, x2, x3, x4, x5, x6, x7, x8, x9, x10, x11, x12, x13, x14, x15, x16, x17, x18, x19, x20, x21] ! 9 = x9"
  "[x0, x1, x2, x3, x4, x5, x6, x7, x8, x9, x10, x11, x12, x13, x14, x15, x16, x17, x18, x19, x20, x21] ! 10 = x10"
  "[x0, x1, x2, x3, x4, x5, x6, x7, x8, x9, x10, x11, x12, x13, x14, x15, x16, x17, x18, x19, x20, x21] ! 11 = x11"
  "[x0, x1, x2, x3, x4, x5, x6, x7, x8, x9, x10, x11, x12, x13, x14, x15, x16, x17, x18, x19, x20, x21] ! 12 = x12"
  "[x0, x1, x2, x3, x4, x5, x6, x7, x8, x9, x10, x11, x12, x13, x14, x15, x16, x17, x18, x19, x20, x21] ! 13 = x13"
  "[x0, x1, x2, x3, x4, x5, x6, x7, x8, x9, x10, x11, x12, x13, x14, x15, x16, x17, x18, x19, x20, x21] ! 14 = x14"
  "[x0, x1, x2, x3, x4, x5, x6, x7, x8, x9, x10, x11, x12, x13, x14, x15, x16, x17, x18, x19, x20, x21] ! 15 = x15"
  "[x0, x1, x2, x3, x4, x5, x6, x7, x8, x9, x10, x11, x12, x13, x14, x15, x16, x17, x18, x19, x20, x21] ! 16 = x16"
  "[x0, x1, x2, x3, x4, x5, x6, x7, x8, x9, x10, x11, x12, x13, x14, x15, x16, x17, x18, x19, x20, x21] ! 17 = x17"
  "[x0, x1, x2, x3, x4, x5, x6, x7, x8, x9, x10, x11, x12, x13, x14, x15, x16, x17, x18, x19, x20, x21] ! 18 = x18"
  "[x0, x1, x2, x3, x4, x5, x6, x7, x8, x9, x10, x11, x12, x13, x14, x15, x16, x17, x18, x19, x20, x21] ! 19 = x19"
  "[x0, x1, x2, x3, x4, x5, x6, x7, x8, x9, x10, x11, x12, x13, x14, x15, x16, x17, x18, x19, x20, x21] ! 20 = x20"
  "[x0, x1, x2, x3, x4, x5, x6, x7, x8, x9, x10, x11, x12, x13, x14, x15, x16, x17, x18, x19, x20, x21] ! 21 = x21"
  by simp_all

lemmas row_blocks_eq = row_blocks.simps(1) [unfolded Let_def]

lemma row_segment:
  assumes "length hs = 8" "k < 22" "i < seg_lengths ! k" "n = (\<Sum>l\<leftarrow>take k seg_lengths. l)"
    and "x = row_blocks r w [a, b, c, d, e, f, g, h] hs ! k"
  shows "sha_row r w [a, b, c, d, e, f, g, h] hs ! (n + i) = x ! i"
proof -
  have l: "map length (row_blocks r w [a, b, c, d, e, f, g, h] hs) = seg_lengths"
    using assms(1) by (simp only: row_blocks_eq list.map length_cells length_map length_upt list.size seg_lengths_def) simp
  have len: "length (row_blocks r w [a, b, c, d, e, f, g, h] hs) = 22" by (simp only: row_blocks_eq list.size)
  have "i < length (row_blocks r w [a, b, c, d, e, f, g, h] hs ! k)"
    using assms(2,3) len by (simp flip: l)
  moreover have "n = (\<Sum>b\<leftarrow>take k (row_blocks r w [a, b, c, d, e, f, g, h] hs). length b)"
    using assms(4) by (simp add: take_map flip: l)
  ultimately show ?thesis
    using nth_concat_block [of k "row_blocks r w [a, b, c, d, e, f, g, h] hs" i] assms(2,5) len by (simp add: sha_row_def)
qed

text \<open>The segments of a row by their first column.\<close>

lemma sha_row_segments:
  assumes "length hs = 8"
  shows
    "i < 8 \<Longrightarrow> sha_row r w [a, b, c, d, e, f, g, h] hs ! (0 + i) = (map fu32 [a, b, c, d, e, f, g, h]) ! i"
    "i < 32 \<Longrightarrow> sha_row r w [a, b, c, d, e, f, g, h] hs ! (8 + i) = (bit_cells a) ! i"
    "i < 32 \<Longrightarrow> sha_row r w [a, b, c, d, e, f, g, h] hs ! (40 + i) = (bit_cells b) ! i"
    "i < 32 \<Longrightarrow> sha_row r w [a, b, c, d, e, f, g, h] hs ! (72 + i) = (bit_cells c) ! i"
    "i < 32 \<Longrightarrow> sha_row r w [a, b, c, d, e, f, g, h] hs ! (104 + i) = (bit_cells e) ! i"
    "i < 32 \<Longrightarrow> sha_row r w [a, b, c, d, e, f, g, h] hs ! (136 + i) = (bit_cells f) ! i"
    "i < 32 \<Longrightarrow> sha_row r w [a, b, c, d, e, f, g, h] hs ! (168 + i) = (bit_cells g) ! i"
    "i < 65 \<Longrightarrow> sha_row r w [a, b, c, d, e, f, g, h] hs ! (200 + i) = (sigma_cells a 2 13 (\<lambda>i. bitw a ((i + 22) mod 32)) (big_sigma0 a)) ! i"
    "i < 65 \<Longrightarrow> sha_row r w [a, b, c, d, e, f, g, h] hs ! (265 + i) = (sigma_cells e 6 11 (\<lambda>i. bitw e ((i + 25) mod 32)) (big_sigma1 e)) ! i"
    "i < 33 \<Longrightarrow> sha_row r w [a, b, c, d, e, f, g, h] hs ! (330 + i) = (ch_cells (ch e f g)) ! i"
    "i < 161 \<Longrightarrow> sha_row r w [a, b, c, d, e, f, g, h] hs ! (363 + i) = (maj_cells a b c) ! i"
    "i < 1 \<Longrightarrow> sha_row r w [a, b, c, d, e, f, g, h] hs ! (524 + i) = ([fu32 (w_back w r 0)]) ! i"
    "i < 5 \<Longrightarrow> sha_row r w [a, b, c, d, e, f, g, h] hs ! (525 + i) = (t1_cells (t1_full h e f g (if r < 64 then sha_K ! r else 0) (w_back w r 0))) ! i"
    "i < 4 \<Longrightarrow> sha_row r w [a, b, c, d, e, f, g, h] hs ! (530 + i) = (t2_cells (t2_full a b c)) ! i"
    "i < 8 \<Longrightarrow> sha_row r w [a, b, c, d, e, f, g, h] hs ! (534 + i) = (map fu32 hs) ! i"
    "i < 15 \<Longrightarrow> sha_row r w [a, b, c, d, e, f, g, h] hs ! (542 + i) = (map (\<lambda>k. fu32 (w_back w r (15 - k))) [0..<15]) ! i"
    "i < 32 \<Longrightarrow> sha_row r w [a, b, c, d, e, f, g, h] hs ! (557 + i) = (bit_cells (w_back w r 1)) ! i"
    "i < 32 \<Longrightarrow> sha_row r w [a, b, c, d, e, f, g, h] hs ! (589 + i) = (bit_cells (w_back w r 14)) ! i"
    "i < 65 \<Longrightarrow> sha_row r w [a, b, c, d, e, f, g, h] hs ! (621 + i) = (sigma_cells (w_back w r 14) 7 18 (\<lambda>i. if i + 3 < 32 then bitw (w_back w r 14) (i + 3) else 0) (small_sigma0 (w_back w r 14))) ! i"
    "i < 65 \<Longrightarrow> sha_row r w [a, b, c, d, e, f, g, h] hs ! (686 + i) = (sigma_cells (w_back w r 1) 17 19 (\<lambda>i. if i + 10 < 32 then bitw (w_back w r 1) (i + 10) else 0) (small_sigma1 (w_back w r 1))) ! i"
    "i < 3 \<Longrightarrow> sha_row r w [a, b, c, d, e, f, g, h] hs ! (751 + i) = (ws_cells (w_back w r 15) (w_back w r 14) (w_back w r 6) (w_back w r 1)) ! i"
    "i < 2 \<Longrightarrow> sha_row r w [a, b, c, d, e, f, g, h] hs ! (754 + i) = (carry_cells r d (t1_full h e f g (if r < 64 then sha_K ! r else 0) (w_back w r 0)) (t2_full a b c)) ! i"
proof -
  show "i < 8 \<Longrightarrow> sha_row r w [a, b, c, d, e, f, g, h] hs ! (0 + i) = (map fu32 [a, b, c, d, e, f, g, h]) ! i"
    by (rule row_segment [OF assms, of 0], simp, simp add: seg_lengths_def, simp add: seg_lengths_def, simp only: row_blocks_eq nth_22)
  show "i < 32 \<Longrightarrow> sha_row r w [a, b, c, d, e, f, g, h] hs ! (8 + i) = (bit_cells a) ! i"
    by (rule row_segment [OF assms, of 1], simp, simp add: seg_lengths_def, simp add: seg_lengths_def, simp only: row_blocks_eq nth_22)
  show "i < 32 \<Longrightarrow> sha_row r w [a, b, c, d, e, f, g, h] hs ! (40 + i) = (bit_cells b) ! i"
    by (rule row_segment [OF assms, of 2], simp, simp add: seg_lengths_def, simp add: seg_lengths_def, simp only: row_blocks_eq nth_22)
  show "i < 32 \<Longrightarrow> sha_row r w [a, b, c, d, e, f, g, h] hs ! (72 + i) = (bit_cells c) ! i"
    by (rule row_segment [OF assms, of 3], simp, simp add: seg_lengths_def, simp add: seg_lengths_def, simp only: row_blocks_eq nth_22)
  show "i < 32 \<Longrightarrow> sha_row r w [a, b, c, d, e, f, g, h] hs ! (104 + i) = (bit_cells e) ! i"
    by (rule row_segment [OF assms, of 4], simp, simp add: seg_lengths_def, simp add: seg_lengths_def, simp only: row_blocks_eq nth_22)
  show "i < 32 \<Longrightarrow> sha_row r w [a, b, c, d, e, f, g, h] hs ! (136 + i) = (bit_cells f) ! i"
    by (rule row_segment [OF assms, of 5], simp, simp add: seg_lengths_def, simp add: seg_lengths_def, simp only: row_blocks_eq nth_22)
  show "i < 32 \<Longrightarrow> sha_row r w [a, b, c, d, e, f, g, h] hs ! (168 + i) = (bit_cells g) ! i"
    by (rule row_segment [OF assms, of 6], simp, simp add: seg_lengths_def, simp add: seg_lengths_def, simp only: row_blocks_eq nth_22)
  show "i < 65 \<Longrightarrow> sha_row r w [a, b, c, d, e, f, g, h] hs ! (200 + i) = (sigma_cells a 2 13 (\<lambda>i. bitw a ((i + 22) mod 32)) (big_sigma0 a)) ! i"
    by (rule row_segment [OF assms, of 7], simp, simp add: seg_lengths_def, simp add: seg_lengths_def, simp only: row_blocks_eq nth_22)
  show "i < 65 \<Longrightarrow> sha_row r w [a, b, c, d, e, f, g, h] hs ! (265 + i) = (sigma_cells e 6 11 (\<lambda>i. bitw e ((i + 25) mod 32)) (big_sigma1 e)) ! i"
    by (rule row_segment [OF assms, of 8], simp, simp add: seg_lengths_def, simp add: seg_lengths_def, simp only: row_blocks_eq nth_22)
  show "i < 33 \<Longrightarrow> sha_row r w [a, b, c, d, e, f, g, h] hs ! (330 + i) = (ch_cells (ch e f g)) ! i"
    by (rule row_segment [OF assms, of 9], simp, simp add: seg_lengths_def, simp add: seg_lengths_def, simp only: row_blocks_eq nth_22)
  show "i < 161 \<Longrightarrow> sha_row r w [a, b, c, d, e, f, g, h] hs ! (363 + i) = (maj_cells a b c) ! i"
    by (rule row_segment [OF assms, of 10], simp, simp add: seg_lengths_def, simp add: seg_lengths_def, simp only: row_blocks_eq nth_22)
  show "i < 1 \<Longrightarrow> sha_row r w [a, b, c, d, e, f, g, h] hs ! (524 + i) = ([fu32 (w_back w r 0)]) ! i"
    by (rule row_segment [OF assms, of 11], simp, simp add: seg_lengths_def, simp add: seg_lengths_def, simp only: row_blocks_eq nth_22)
  show "i < 5 \<Longrightarrow> sha_row r w [a, b, c, d, e, f, g, h] hs ! (525 + i) = (t1_cells (t1_full h e f g (if r < 64 then sha_K ! r else 0) (w_back w r 0))) ! i"
    by (rule row_segment [OF assms, of 12], simp, simp add: seg_lengths_def, simp add: seg_lengths_def, simp only: row_blocks_eq nth_22)
  show "i < 4 \<Longrightarrow> sha_row r w [a, b, c, d, e, f, g, h] hs ! (530 + i) = (t2_cells (t2_full a b c)) ! i"
    by (rule row_segment [OF assms, of 13], simp, simp add: seg_lengths_def, simp add: seg_lengths_def, simp only: row_blocks_eq nth_22)
  show "i < 8 \<Longrightarrow> sha_row r w [a, b, c, d, e, f, g, h] hs ! (534 + i) = (map fu32 hs) ! i"
    by (rule row_segment [OF assms, of 14], simp, simp add: seg_lengths_def, simp add: seg_lengths_def, simp only: row_blocks_eq nth_22)
  show "i < 15 \<Longrightarrow> sha_row r w [a, b, c, d, e, f, g, h] hs ! (542 + i) = (map (\<lambda>k. fu32 (w_back w r (15 - k))) [0..<15]) ! i"
    by (rule row_segment [OF assms, of 15], simp, simp add: seg_lengths_def, simp add: seg_lengths_def, simp only: row_blocks_eq nth_22)
  show "i < 32 \<Longrightarrow> sha_row r w [a, b, c, d, e, f, g, h] hs ! (557 + i) = (bit_cells (w_back w r 1)) ! i"
    by (rule row_segment [OF assms, of 16], simp, simp add: seg_lengths_def, simp add: seg_lengths_def, simp only: row_blocks_eq nth_22)
  show "i < 32 \<Longrightarrow> sha_row r w [a, b, c, d, e, f, g, h] hs ! (589 + i) = (bit_cells (w_back w r 14)) ! i"
    by (rule row_segment [OF assms, of 17], simp, simp add: seg_lengths_def, simp add: seg_lengths_def, simp only: row_blocks_eq nth_22)
  show "i < 65 \<Longrightarrow> sha_row r w [a, b, c, d, e, f, g, h] hs ! (621 + i) = (sigma_cells (w_back w r 14) 7 18 (\<lambda>i. if i + 3 < 32 then bitw (w_back w r 14) (i + 3) else 0) (small_sigma0 (w_back w r 14))) ! i"
    by (rule row_segment [OF assms, of 18], simp, simp add: seg_lengths_def, simp add: seg_lengths_def, simp only: row_blocks_eq nth_22)
  show "i < 65 \<Longrightarrow> sha_row r w [a, b, c, d, e, f, g, h] hs ! (686 + i) = (sigma_cells (w_back w r 1) 17 19 (\<lambda>i. if i + 10 < 32 then bitw (w_back w r 1) (i + 10) else 0) (small_sigma1 (w_back w r 1))) ! i"
    by (rule row_segment [OF assms, of 19], simp, simp add: seg_lengths_def, simp add: seg_lengths_def, simp only: row_blocks_eq nth_22)
  show "i < 3 \<Longrightarrow> sha_row r w [a, b, c, d, e, f, g, h] hs ! (751 + i) = (ws_cells (w_back w r 15) (w_back w r 14) (w_back w r 6) (w_back w r 1)) ! i"
    by (rule row_segment [OF assms, of 20], simp, simp add: seg_lengths_def, simp add: seg_lengths_def, simp only: row_blocks_eq nth_22)
  show "i < 2 \<Longrightarrow> sha_row r w [a, b, c, d, e, f, g, h] hs ! (754 + i) = (carry_cells r d (t1_full h e f g (if r < 64 then sha_K ! r else 0) (w_back w r 0)) (t2_full a b c)) ! i"
    by (rule row_segment [OF assms, of 21], simp, simp add: seg_lengths_def, simp add: seg_lengths_def, simp only: row_blocks_eq nth_22)
qed

section \<open>Sums with carries\<close>

lemma unat_full:
  "length ys < 2 ^ 16 \<Longrightarrow> unat (\<Sum>y\<leftarrow>ys. ucast (y :: u32) :: u64) = (\<Sum>y\<leftarrow>ys. unat y)"
proof -
  assume l: "length ys < 2 ^ 16"
  have "(\<Sum>y\<leftarrow>ys. ucast y :: u64) = word_of_nat (\<Sum>y\<leftarrow>ys. unat y)"
    by (induction ys) simp_all
  moreover have "(\<Sum>y\<leftarrow>ys. unat y) < 2 ^ 64" using sum_list_unat_less [of ys] l by simp
  ultimately show ?thesis by (simp add: unat_of_nat take_bit_nat_eq_self)
qed

lemma full_split:
  assumes l: "length ys < 2 ^ 16" and full: "full = (\<Sum>y\<leftarrow>ys. ucast (y :: u32) :: u64)"
  shows "fu32 (lo32 full) + pow2 32 * fu32 (hi32 full) = (\<Sum>y\<leftarrow>ys. fu32 y)"
    "lo32 full = sum_list ys" "unat (hi32 full) \<le> length ys" "unat (hi32 full) = (\<Sum>y\<leftarrow>ys. unat y) div 2 ^ 32"
proof -
  have f: "unat full = (\<Sum>y\<leftarrow>ys. unat y)" using unat_full [OF l] full by simp
  then have b: "unat full \<le> length ys * 2 ^ 32" using sum_list_unat_less [of ys] by simp
  have lo: "unat (lo32 full) = unat full mod 2 ^ 32"
  proof -
    have m: "lo32 full = ucast (full AND mask 32)" by (simp add: lo32_def mask_eq_exp_minus_1)
    have "lo32 full = ucast full"
      unfolding m by (rule bit_word_eqI) (auto simp: bit_ucast_iff bit_and_iff bit_mask_iff)
    then show ?thesis by (simp add: unsigned_ucast_eq take_bit_eq_mod)
  qed
  have hi: "unat (hi32 full) = unat full div 2 ^ 32"
  proof -
    have "unat full div 2 ^ 32 < 2 ^ 32" using b l by (simp add: less_mult_imp_div_less)
    then show ?thesis unfolding hi32_def unsigned_ucast_eq unat_drop_bit_eq by (simp add: take_bit_eq_mod drop_bit_eq_div)
  qed
  show "unat (hi32 full) = (\<Sum>y\<leftarrow>ys. unat y) div 2 ^ 32" using hi f by simp
  have "(of_nat (unat (lo32 full) + 2 ^ 32 * unat (hi32 full)) :: gf) = of_nat (unat full)"
    unfolding lo hi by (simp only: mod_mult_div_eq)
  moreover have "(of_nat (\<Sum>y\<leftarrow>ys. unat y) :: gf) = (\<Sum>y\<leftarrow>ys. fu32 y)" by (induction ys) (simp_all add: fu32_def)
  ultimately show eq: "fu32 (lo32 full) + pow2 32 * fu32 (hi32 full) = (\<Sum>y\<leftarrow>ys. fu32 y)"
    unfolding f by (simp add: fu32_def pow2_def)
  show h: "unat (hi32 full) \<le> length ys" unfolding hi using div_le_mono [OF b, of "2 ^ 32"] by simp
  show "lo32 full = sum_list ys"
    using carry_sum [of "lo32 full" "unat (hi32 full)" ys] eq h l by (simp add: fu32_def)
qed

lemma unat_and_1: "unat (drop_bit k (c :: u32) AND 1) = unat c div 2 ^ k mod 2"
proof -
  have "unat (drop_bit k c AND 1) = unat (drop_bit k c) AND unat (1 :: u32)" by (rule unsigned_and_eq)
  also have "\<dots> = drop_bit k (unat c) mod 2" unfolding unat_drop_bit_eq by (simp add: and_one_eq)
  finally show ?thesis by (simp only: drop_bit_eq_div)
qed

lemma carry_cell_bits:
  "fu32 (drop_bit k c AND 1) = 0 \<or> fu32 (drop_bit k c AND 1) = 1"
proof -
  have "unat c div 2 ^ k mod 2 = 0 \<or> unat c div 2 ^ k mod 2 = 1" by linarith
  then show ?thesis unfolding fu32_def unat_and_1 by fastforce
qed

lemma power2_4: "(2 :: nat) ^ 2 = 4" by simp

lemma binary_3: "n < 8 \<Longrightarrow> n = n mod 2 + 2 * (n div 2 mod 2) + 4 * (n div 4 mod 2 :: nat)"
proof -
  assume "n < 8"
  then have "n div 4 mod 2 = n div 4" "n div 2 div 2 = n div 4" by (simp_all add: div_mult2_eq [symmetric])
  moreover have "n = n div 2 * 2 + n mod 2" "n div 2 = n div 2 div 2 * 2 + n div 2 mod 2" by simp_all
  ultimately show ?thesis by linarith
qed

lemma carry_cell_sum:
  assumes "unat c < 8"
  shows "fu32 c = fu32 (c AND 1) + 2 * fu32 (drop_bit 1 c AND 1) + 4 * fu32 (drop_bit 2 c AND 1)"
    and "unat c < 4 \<Longrightarrow> fu32 c = fu32 (c AND 1) + 2 * fu32 (drop_bit 1 c AND 1)"
proof -
  have u: "unat (c AND 1) = unat c mod 2" using unat_and_1 [of 0 c] by simp
  have "unat c = unat c mod 2 + 2 * (unat c div 2 mod 2) + 4 * (unat c div 4 mod 2)" by (rule binary_3 [OF assms])
  then have "(of_nat (unat c) :: gf) = of_nat (unat c mod 2 + 2 * (unat c div 2 mod 2) + 4 * (unat c div 4 mod 2))"
    by (rule arg_cong)
  then show "fu32 c = fu32 (c AND 1) + 2 * fu32 (drop_bit 1 c AND 1) + 4 * fu32 (drop_bit 2 c AND 1)"
    unfolding fu32_def u unat_and_1 of_nat_add of_nat_mult by (simp only: of_nat_numeral power_one_right power2_4)
  assume "unat c < 4"
  then have "unat c div 4 = 0" by simp
  then have "unat c = unat c mod 2 + 2 * (unat c div 2 mod 2)" using binary_3 [OF assms] by (simp only: mod_0 mult_0_right add_0_right)
  then have "(of_nat (unat c) :: gf) = of_nat (unat c mod 2 + 2 * (unat c div 2 mod 2))" by (rule arg_cong)
  then show "fu32 c = fu32 (c AND 1) + 2 * fu32 (drop_bit 1 c AND 1)"
    unfolding fu32_def u unat_and_1 of_nat_add of_nat_mult by (simp only: of_nat_numeral power_one_right power2_4)
qed

section \<open>The constraints on one row\<close>

lemma word_at_cells:
  assumes "\<And>i. i < 32 \<Longrightarrow> cur ! (off + i) = bit_cells x ! i"
  shows "word_at cur off x"
  using assms by (simp add: word_at_def bit_cells_def unat_bitw)

lemma fu32_of_bool [simp]: "fu32 (of_bool p) = of_bool p"
  by (simp add: fu32_def)

lemma sigma_cells_nth:
  "i < 32 \<Longrightarrow> sigma_cells x r1 r2 th wd ! i = of_bool (bit x ((i + r1) mod 32) \<noteq> bit x ((i + r2) mod 32))"
  "i < 32 \<Longrightarrow> sigma_cells x r1 r2 th wd ! (32 + i) =
     fu32 (of_bool (bit x ((i + r1) mod 32) \<noteq> bit x ((i + r2) mod 32)) XOR th i)"
  "sigma_cells x r1 r2 th wd ! 64 = fu32 wd"
  by (simp_all add: sigma_cells_def Let_def nth_append bitw_xor)

lemma xor_of_bool: "(of_bool p :: u32) XOR of_bool q = of_bool (p \<noteq> q)"
  by (cases p; cases q) simp_all

lemma sigma_cons_ok:
  assumes seg: "\<And>i. i < 65 \<Longrightarrow> cur ! (off + i) = sigma_cells x r1 r2 th wd ! i"
    and x: "word_at cur inp x"
    and third: "\<And>i. i < 32 \<Longrightarrow> third i = fu32 (th i) \<and> th i = of_bool (tb i)"
    and wd: "\<And>i. i < 32 \<Longrightarrow> bit wd i \<longleftrightarrow> (bit x ((i + r1) mod 32) \<noteq> bit x ((i + r2) mod 32)) \<noteq> tb i"
    and off: "off_bit = off + 32" "off_w = off + 64"
  shows "zeros (sigma_cons cur inp off off_bit off_w r1 r2 third)"
proof -
  have b: "cur ! (off + 32 + i) = of_bool (bit wd i)" if "i < 32" for i
    using seg [of "32 + i"] sigma_cells_nth(2) [OF that] third [OF that] wd [OF that] that
    by (simp add: xor_of_bool add.assoc)
  have bits: "cur ! (inp + k mod 32) = of_bool (bit x (k mod 32))" for k
    using x by (simp add: word_at_def)
  have w: "cur ! (off + 64) = pack cur (off + 32)"
    using seg [of 64] sigma_cells_nth(3) pack_word [of cur "off + 32" wd] b by (simp add: word_at_def)
  have t: "cur ! (off + i) = of_bool (bit x ((i + r1) mod 32) \<noteq> bit x ((i + r2) mod 32))" if "i < 32" for i
    using seg [of i] sigma_cells_nth(1) [OF that] that by simp
  show ?thesis using third wd by (simp add: sigma_cons_def off b t bits w)
qed

lemma ch_cons_ok:
  assumes seg: "\<And>i. i < 33 \<Longrightarrow> cur ! (OFF_CH_BIT + i) = ch_cells (ch e f g) ! i"
    and w: "word_at cur OFF_BIT_E e" "word_at cur OFF_BIT_F f" "word_at cur OFF_BIT_G g"
  shows "zeros (ch_cons cur)"
proof -
  have b: "word_at cur OFF_CH_BIT (ch e f g)"
    using seg by (intro word_at_cells) (simp add: ch_cells_def nth_append)
  moreover have "cur ! OFF_CH_W = fu32 (ch e f g)" using seg [of 32] by (simp add: ch_cells_def nth_append)
  ultimately show ?thesis
    using w pack_word [OF b]
    by (auto simp: ch_cons_def Let_def word_at_def ch_def bit_xor_iff bit_and_iff bit_not_iff)
qed

lemma bitw_and: "bitw x i AND bitw y j = of_bool (bit x i \<and> bit y j)"
  by (simp add: bitw_def and_one_eq mod_2_eq_odd bit_iff_odd_drop_bit)

lemma maj_cons_ok:
  assumes seg: "\<And>i. i < 161 \<Longrightarrow> cur ! (OFF_MAJ_AB + i) = maj_cells a b c ! i"
    and w: "word_at cur OFF_BIT_A a" "word_at cur OFF_BIT_B b" "word_at cur OFF_BIT_C c"
  shows "zeros (maj_cons cur)"
proof -
  have cells: "cur ! (OFF_MAJ_AB + i) = of_bool (bit a i \<and> bit b i)" "cur ! (OFF_MAJ_AC + i) = of_bool (bit a i \<and> bit c i)"
    "cur ! (OFF_MAJ_BC + i) = of_bool (bit b i \<and> bit c i)"
    "cur ! (OFF_MAJ_U + i) = of_bool ((bit a i \<and> bit b i) \<noteq> (bit a i \<and> bit c i))"
    "cur ! (OFF_MAJ_BIT + i) = of_bool (bit (maj a b c) i)" if "i < 32" for i
    using seg [of i] seg [of "32 + i"] seg [of "64 + i"] seg [of "96 + i"] seg [of "128 + i"] that
    by (simp_all add: maj_cells_def Let_def nth_append bitw_and xor_of_bool maj_def bit_xor_iff bit_and_iff)
      (cases "bit a i"; cases "bit b i"; cases "bit c i"; simp)
  have "cur ! OFF_MAJ_W = fu32 (maj a b c)" using seg [of 160] by (simp add: maj_cells_def Let_def nth_append)
  moreover have "word_at cur OFF_MAJ_BIT (maj a b c)" using cells by (simp add: word_at_def)
  ultimately have "cur ! OFF_MAJ_W - pack cur OFF_MAJ_BIT = 0" using pack_word by simp
  moreover have "\<forall>i < 32. cur ! (OFF_MAJ_AB + i) = cur ! (OFF_BIT_A + i) * cur ! (OFF_BIT_B + i) \<and>
      cur ! (OFF_MAJ_AC + i) = cur ! (OFF_BIT_A + i) * cur ! (OFF_BIT_C + i) \<and>
      cur ! (OFF_MAJ_BC + i) = cur ! (OFF_BIT_B + i) * cur ! (OFF_BIT_C + i)"
    using w cells(1-3) by (simp add: word_at_def of_bool_conj)
  moreover have "\<forall>i < 32. cur ! (OFF_MAJ_U + i) = xor_poly (cur ! (OFF_MAJ_AB + i)) (cur ! (OFF_MAJ_AC + i))"
    using cells(1,2,4) by simp
  moreover have "bit (maj a b c) i \<longleftrightarrow> ((bit a i \<and> bit b i) \<noteq> (bit a i \<and> bit c i)) \<noteq> (bit b i \<and> bit c i)" for i
    by (auto simp: maj_def bit_xor_iff bit_and_iff)
  then have "\<forall>i < 32. cur ! (OFF_MAJ_BIT + i) = xor_poly (cur ! (OFF_MAJ_U + i)) (cur ! (OFF_MAJ_BC + i))"
    using cells(3-5) by (simp only: xor_poly_bits) simp
  ultimately show ?thesis by (simp add: maj_cons_def zeros_concat Let_def)
qed

lemma t1_cons_ok:
  assumes seg: "\<And>i. i < 5 \<Longrightarrow> cur ! (OFF_T1_LO + i) = t1_cells (t1_full h e f g k w) ! i"
    and cells: "cur ! A_h = fu32 h" "cur ! OFF_S1_W = fu32 (big_sigma1 e)" "cur ! OFF_CH_W = fu32 (ch e f g)"
      "cur ! OFF_W = fu32 w" "kr = fu32 k"
  shows "zeros (t1_cons cur kr)"
proof -
  let ?full = "t1_full h e f g k w" and ?ys = "[h, big_sigma1 e, ch e f g, k, w]"
  have full: "?full = (\<Sum>y\<leftarrow>?ys. ucast y)" by (simp add: t1_full_def)
  have sm: "fu32 (lo32 ?full) + pow2 32 * fu32 (hi32 ?full) = (\<Sum>y\<leftarrow>?ys. fu32 y)" and hi: "unat (hi32 ?full) < 8"
    using full_split [of ?ys ?full] full by simp_all
  have "cur ! OFF_T1_LO = fu32 (lo32 ?full)" "cur ! OFF_T1_C0 = fu32 (drop_bit 0 (hi32 ?full) AND 1)"
    "cur ! OFF_T1_C1 = fu32 (drop_bit 1 (hi32 ?full) AND 1)" "cur ! OFF_T1_C2 = fu32 (drop_bit 2 (hi32 ?full) AND 1)"
    "cur ! OFF_T1_CW = fu32 (hi32 ?full)"
    using seg [of 0] seg [of 1] seg [of 2] seg [of 3] seg [of 4] by (simp_all add: t1_cells_def Let_def)
  then show ?thesis
    using sm carry_cell_sum(1) [OF hi] carry_cell_bits [of _ "hi32 ?full"] carry_cell_bits [of 0 "hi32 ?full"] cells
    by (simp add: t1_cons_def add_ac diff_eq_eq)
qed

lemma t2_cons_ok:
  assumes seg: "\<And>i. i < 4 \<Longrightarrow> cur ! (OFF_T2_LO + i) = t2_cells (t2_full a b c) ! i"
    and cells: "cur ! OFF_S0_W = fu32 (big_sigma0 a)" "cur ! OFF_MAJ_W = fu32 (maj a b c)"
  shows "zeros (t2_cons cur)"
proof -
  let ?full = "t2_full a b c" and ?ys = "[big_sigma0 a, maj a b c]"
  have full: "?full = (\<Sum>y\<leftarrow>?ys. ucast y)" by (simp add: t2_full_def)
  have sm: "fu32 (lo32 ?full) + pow2 32 * fu32 (hi32 ?full) = (\<Sum>y\<leftarrow>?ys. fu32 y)" and hi: "unat (hi32 ?full) < 8" "unat (hi32 ?full) < 4"
    using full_split [of ?ys ?full] full by simp_all
  have "cur ! OFF_T2_LO = fu32 (lo32 ?full)" "cur ! OFF_T2_C0 = fu32 (drop_bit 0 (hi32 ?full) AND 1)"
    "cur ! OFF_T2_C1 = fu32 (drop_bit 1 (hi32 ?full) AND 1)" "cur ! OFF_T2_CW = fu32 (hi32 ?full)"
    using seg [of 0] seg [of 1] seg [of 2] seg [of 3] by (simp_all add: t2_cells_def Let_def)
  then show ?thesis
    using sm carry_cell_sum(2) [OF hi] carry_cell_bits [of _ "hi32 ?full"] carry_cell_bits [of 0 "hi32 ?full"] cells
    by (simp add: t2_cons_def add_ac diff_eq_eq)
qed

text \<open>What a built row satisfies whatever the next row is.\<close>

lemma sha_row_cur:
  assumes hs: "length hs = 8" and cur: "cur = sha_row r w [a, b, c, d, e, f, g, h] hs"
  shows "zeros (bit_cons cur)" "zeros (decomposition_cons cur)"
    "zeros (sigma_cons cur OFF_BIT_A OFF_S0_T OFF_S0_BIT OFF_S0_W 2 13 (rot_bit cur OFF_BIT_A 22))"
    "zeros (sigma_cons cur OFF_BIT_E OFF_S1_T OFF_S1_BIT OFF_S1_W 6 11 (rot_bit cur OFF_BIT_E 25))"
    "zeros (sigma_cons cur OFF_BIT_WW1 OFF_SS0_T OFF_SS0_BIT OFF_SS0_W 7 18 (shift_bit cur OFF_BIT_WW1 3))"
    "zeros (sigma_cons cur OFF_BIT_WW14 OFF_SS1_T OFF_SS1_BIT OFF_SS1_W 17 19 (shift_bit cur OFF_BIT_WW14 10))"
    "zeros (ch_cons cur)" "zeros (maj_cons cur)"
    "zeros (t1_cons cur (if r < 64 then fu32 (sha_K ! r) else 0))" "zeros (t2_cons cur)"
proof -
  note seg = sha_row_segments [OF hs, where r = r and w = w and a = a and b = b and c = c and d = d and e = e and f = f and g = g and h = h,
      folded cur]
  let ?w14 = "w_back w r 1" and ?w1 = "w_back w r 14"
  have bits: "word_at cur OFF_BIT_A a" "word_at cur OFF_BIT_B b" "word_at cur OFF_BIT_C c" "word_at cur OFF_BIT_E e"
    "word_at cur OFF_BIT_F f" "word_at cur OFF_BIT_G g" "word_at cur OFF_BIT_WW14 ?w14" "word_at cur OFF_BIT_WW1 ?w1"
    using seg(2-7,17,18) by (intro word_at_cells; blast)+
  have words: "cur ! A_a = fu32 a" "cur ! A_b = fu32 b" "cur ! A_c = fu32 c" "cur ! A_e = fu32 e" "cur ! A_f = fu32 f"
    "cur ! A_g = fu32 g" "cur ! A_h = fu32 h" "cur ! (OFF_WW0 + 14) = fu32 ?w14" "cur ! (OFF_WW0 + 1) = fu32 ?w1" "cur ! OFF_W = fu32 (w_back w r 0)"
    using seg(1) [of 0] seg(1) [of 1] seg(1) [of 2] seg(1) [of 4] seg(1) [of 5] seg(1) [of 6] seg(1) [of 7]
      seg(16) [of 14] seg(16) [of 1] seg(12) [of 0] by (simp_all add: numeral_2_eq_2)
  show "zeros (bit_cons cur)"
    using bits by (auto simp: bit_cons_def zeros_concat word_at_def)
  show "zeros (decomposition_cons cur)"
    using bits [THEN pack_word] words by (simp add: decomposition_cons_def)
  have third: "rot_bit cur inp r3 i = fu32 (bitw x ((i + r3) mod 32)) \<and> bitw x ((i + r3) mod 32) = of_bool (bit x ((i + r3) mod 32))"
    if "word_at cur inp x" for inp r3 i x
    using that unat_bitw [of x] by (simp add: rot_bit_def word_at_def bitw_def and_one_eq mod_2_eq_odd bit_iff_odd_drop_bit)
  have third': "shift_bit cur inp r3 i = fu32 (if i + r3 < 32 then bitw x (i + r3) else 0) \<and>
      (if i + r3 < 32 then bitw x (i + r3) else 0) = of_bool (i + r3 < 32 \<and> bit x (i + r3))"
    if "word_at cur inp x" for inp r3 i x
    using that unat_bitw [of x "i + r3"] by (simp add: shift_bit_def word_at_def bitw_def and_one_eq mod_2_eq_odd bit_iff_odd_drop_bit fu32_def)
  show "zeros (sigma_cons cur OFF_BIT_A OFF_S0_T OFF_S0_BIT OFF_S0_W 2 13 (rot_bit cur OFF_BIT_A 22))"
    by (rule sigma_cons_ok [OF seg(8) bits(1) third [OF bits(1)]]) (auto simp: big_sigma0_def bit_xor_iff bit_rotr)
  show "zeros (sigma_cons cur OFF_BIT_E OFF_S1_T OFF_S1_BIT OFF_S1_W 6 11 (rot_bit cur OFF_BIT_E 25))"
    by (rule sigma_cons_ok [OF seg(9) bits(4) third [OF bits(4)]]) (auto simp: big_sigma1_def bit_xor_iff bit_rotr)
  show "zeros (sigma_cons cur OFF_BIT_WW1 OFF_SS0_T OFF_SS0_BIT OFF_SS0_W 7 18 (shift_bit cur OFF_BIT_WW1 3))"
    by (rule sigma_cons_ok [OF seg(19) bits(8) third' [OF bits(8)]])
      (auto simp: small_sigma0_def bit_xor_iff bit_rotr bit_drop_bit_eq add.commute dest: bit_u32)
  show "zeros (sigma_cons cur OFF_BIT_WW14 OFF_SS1_T OFF_SS1_BIT OFF_SS1_W 17 19 (shift_bit cur OFF_BIT_WW14 10))"
    by (rule sigma_cons_ok [OF seg(20) bits(7) third' [OF bits(7)]])
      (auto simp: small_sigma1_def bit_xor_iff bit_rotr bit_drop_bit_eq add.commute dest: bit_u32)
  show "zeros (ch_cons cur)" by (rule ch_cons_ok [OF seg(10) bits(4-6)])
  show "zeros (maj_cons cur)" by (rule maj_cons_ok [OF seg(11) bits(1-3)])
  have wcells: "cur ! OFF_S0_W = fu32 (big_sigma0 a)" "cur ! OFF_S1_W = fu32 (big_sigma1 e)"
    "cur ! OFF_CH_W = fu32 (ch e f g)" "cur ! OFF_MAJ_W = fu32 (maj a b c)"
    using seg(8) [of 64] seg(9) [of 64] seg(10) [of 32] seg(11) [of 160]
    by (simp_all add: sigma_cells_nth(3)) (simp_all add: ch_cells_def maj_cells_def Let_def nth_append)
  show "zeros (t1_cons cur (if r < 64 then fu32 (sha_K ! r) else 0))"
    by (rule t1_cons_ok [OF seg(13) words(7) wcells(2,3) words(10)]) (simp_all add: fu32_def)
  show "zeros (t2_cons cur)" by (rule t2_cons_ok [OF seg(14) wcells(1,4)])
qed

end
