(* ===== verification/Sha256_Complete.thy ===== *)
theory Sha256_Complete
  imports Sha256_Trace
begin

text \<open>
  Built rows of the SHA-256 AIR satisfy the constraints: inside a block, between blocks and in the
  padding; and the properties of the AIR.
\<close>

section \<open>Transitions\<close>

lemma length_8_cases:
  assumes "length s = 8"
  obtains a b c d e f g h where "s = [a, b, c, d, e, f, g, h]"
  using assms by (auto simp: length_Suc_conv numeral_eq_Suc)

lemma sha_row_cells:
  assumes "length s = 8" "length hs = 8"
  shows "k < 8 \<Longrightarrow> sha_row r w s hs ! k = fu32 (s ! k)"
    "k < 8 \<Longrightarrow> sha_row r w s hs ! (OFF_H0 + k) = fu32 (hs ! k)"
    "k < 15 \<Longrightarrow> sha_row r w s hs ! (OFF_WW0 + k) = fu32 (w_back w r (15 - k))"
    "sha_row r w s hs ! OFF_W = fu32 (w_back w r 0)"
proof -
  obtain a b c d e f g h where s: "s = [a, b, c, d, e, f, g, h]" by (rule length_8_cases [OF assms(1)])
  note seg = sha_row_segments [OF assms(2), of _ r w a b c d e f g h, folded s]
  show "k < 8 \<Longrightarrow> sha_row r w s hs ! k = fu32 (s ! k)" using seg(1) [of k] by (simp add: s nth_map [symmetric] del: list.map nth_map)
  show "k < 8 \<Longrightarrow> sha_row r w s hs ! (OFF_H0 + k) = fu32 (hs ! k)" using seg(15) [of k] assms(2) by simp
  show "k < 15 \<Longrightarrow> sha_row r w s hs ! (OFF_WW0 + k) = fu32 (w_back w r (15 - k))" using seg(16) [of k] by simp
  show "sha_row r w s hs ! OFF_W = fu32 (w_back w r 0)" using seg(12) [of 0] by simp
qed

lemma w_back_Suc: "w_back w (Suc r) (Suc d) = w_back w r d"
  by (simp add: w_back_def)

lemma window_cons_ok:
  assumes "length s = 8" "length hs = 8" "length s' = 8" "length hs' = 8"
  shows "zeros (window_cons (sha_row r w s hs) (sha_row (Suc r) w s' hs'))"
proof -
  let ?c = "sha_row r w s hs" and ?n = "sha_row (Suc r) w s' hs'"
  have "?n ! (OFF_WW0 + k) = ?c ! (OFF_WW0 + k + 1)" if k: "k < 14" for k
  proof -
    have "?n ! (OFF_WW0 + k) = fu32 (w_back w (Suc r) (Suc (14 - k)))"
      using sha_row_cells(3) [OF assms(3,4), of k] k by (simp add: Suc_diff_le [symmetric])
    moreover have "?c ! (OFF_WW0 + Suc k) = fu32 (w_back w r (14 - k))"
      using sha_row_cells(3) [OF assms(1,2), of "Suc k"] k by simp
    ultimately show ?thesis by (simp add: w_back_Suc)
  qed
  moreover have "?n ! (OFF_WW0 + 14) = ?c ! OFF_W"
    using sha_row_cells(3) [OF assms(3,4), of 14] sha_row_cells(4) [OF assms(1,2)] by (simp add: w_back_Suc)
  ultimately show ?thesis by (simp add: window_cons_def)
qed

lemma h_hold_ok:
  assumes "length s = 8" "length s' = 8" "length hs = 8"
  shows "zeros (h_cons False (sha_row r w s hs) (sha_row r' w' s' hs))"
  using sha_row_cells(2) [OF assms(1,3)] sha_row_cells(2) [OF assms(2,3)] by (simp add: h_cons_def)

text \<open>The carry of a sum of two words.\<close>

abbreviation carry :: "u32 \<Rightarrow> u32 \<Rightarrow> u32" where "carry x y \<equiv> hi32 (ucast x + ucast y)"

lemma carry_bit: "fu32 (carry x y) = 0 \<or> fu32 (carry x y) = 1"
proof -
  have "unat (carry x y) = (unat x + unat y) div 2 ^ 32"
    using full_split(4) [of "[x, y]" "ucast x + ucast y"] by simp
  moreover have "(unat x + unat y) div 2 ^ 32 < 2" using unat_u32 [of x] unat_u32 [of y] by (simp add: less_mult_imp_div_less)
  ultimately have "unat (carry x y) = 0 \<or> unat (carry x y) = 1" by linarith
  then show ?thesis unfolding fu32_def by fastforce
qed

lemma carry_eq: "fu32 (x + y) + pow2 32 * fu32 (carry x y) = fu32 x + fu32 y"
  using full_split(1,2) [of "[x, y]" "ucast x + ucast y"] by simp

lemma lo32_t1: "lo32 (t1_full h e f g k w) = h + big_sigma1 e + ch e f g + k + w"
  using full_split(2) [of "[h, big_sigma1 e, ch e f g, k, w]" "t1_full h e f g k w"] by (simp add: t1_full_def add_ac)

lemma lo32_t2: "lo32 (t2_full a b c) = big_sigma0 a + maj a b c"
  using full_split(2) [of "[big_sigma0 a, maj a b c]" "t2_full a b c"] by (simp add: t2_full_def)

lemma round_cons_ok:
  assumes s: "length s = 8" "length hs = 8" "length hs' = 8" and r: "r < 64"
    and cur: "cur = sha_row r w s hs" and nxt: "nxt = sha_row r' w' (sha_round (sha_K ! r) (w_back w r 0) s) hs'"
  shows "zeros (shift_cons True cur nxt)" "zeros (new_state_cons True cur nxt)"
proof -
  obtain a b c d e f g h where s8: "s = [a, b, c, d, e, f, g, h]" by (rule length_8_cases [OF s(1)])
  define t1 where "t1 = h + big_sigma1 e + ch e f g + sha_K ! r + w_back w r 0"
  define t2 where "t2 = big_sigma0 a + maj a b c"
  have s': "sha_round (sha_K ! r) (w_back w r 0) s = [t1 + t2, a, b, c, d + t1, e, f, g]"
    by (simp add: s8 t1_def t2_def Let_def)
  note seg = sha_row_segments [OF s(2), of _ r w a b c d e f g h, folded s8 cur]
  have n: "nxt ! k = fu32 ([t1 + t2, a, b, c, d + t1, e, f, g] ! k)" if "k < 8" for k
    using sha_row_cells(1) [OF _ s(3) that, of "[t1 + t2, a, b, c, d + t1, e, f, g]" r' w'] by (simp add: nxt s')
  have c: "cur ! k = fu32 (s ! k)" if "k < 8" for k using sha_row_cells(1) [OF s(1,2) that] cur by simp
  show "zeros (shift_cons True cur nxt)"
    using n [of A_b] n [of A_c] n [of A_d] n [of A_f] n [of A_g] n [of A_h]
      c [of A_a] c [of A_b] c [of A_c] c [of A_e] c [of A_f] c [of A_g]
    by (simp add: shift_cons_def s8)
  have cells: "cur ! OFF_T1_LO = fu32 t1" "cur ! OFF_T2_LO = fu32 t2" "cur ! OFF_NA_C = fu32 (carry t1 t2)"
    "cur ! OFF_NE_C = fu32 (carry d t1)"
    using seg(13) [of 0] seg(14) [of 0] seg(22) [of 0] seg(22) [of 1] r
    by (simp_all add: t1_cells_def t2_cells_def carry_cells_def Let_def lo32_t1 lo32_t2 t1_def t2_def)
  show "zeros (new_state_cons True cur nxt)"
    using n [of A_a] n [of A_e] c [of A_d] carry_eq [of t1 t2] carry_eq [of d t1] carry_bit [of t1 t2] carry_bit [of d t1]
    by (simp add: new_state_cons_def cells s8 diff_eq_eq add_ac)
qed

lemma final_cons_ok:
  assumes s: "length s = 8" "length hs = 8" "length s' = 8"
  shows "zeros (h_cons True (sha_row r w s hs) (sha_row r' w' s' (map2 (+) hs s)))"
proof -
  have "(fu32 (hs ! k) + fu32 (s ! k) - fu32 (hs ! k + s ! k)) * (fu32 (hs ! k) + fu32 (s ! k) - fu32 (hs ! k + s ! k) - pow2 32) = 0" for k
    using carry_eq [of "hs ! k" "s ! k"] carry_bit [of "hs ! k" "s ! k"] by (auto simp: diff_eq_eq add_ac)
  then show ?thesis
    using sha_row_cells(1,2) [OF s(1,2)] sha_row_cells(2) [OF s(3), of "map2 (+) hs s"] s
    by (simp add: h_cons_def Let_def)
qed

lemma schedule_cons_ok:
  assumes s: "length s = 8" "length hs = 8" "length s' = 8" "length hs' = 8" and r: "15 \<le> r" "r \<le> 62"
    and w: "w ! Suc r = small_sigma1 (w ! (r - 1)) + w ! (r - 6) + small_sigma0 (w ! (r - 14)) + w ! (r - 15)"
    and cur: "cur = sha_row r w s hs" and nxt: "nxt = sha_row (Suc r) w s' hs'"
  shows "zeros (schedule_cons True cur nxt)"
proof -
  obtain a b c d e f g h where s8: "s = [a, b, c, d, e, f, g, h]" by (rule length_8_cases [OF s(1)])
  note seg = sha_row_segments [OF s(2), of _ r w a b c d e f g h, folded s8 cur]
  have wb: "w_back w r d = w ! (r - d)" if "d \<le> 15" for d
  proof -
    have "d \<le> r" "r - d < 64" using that r by linarith+
    then show ?thesis by (simp add: w_back_def)
  qed
  define ys where "ys = [w ! (r - 15), small_sigma0 (w ! (r - 14)), w ! (r - 6), small_sigma1 (w ! (r - 1))]"
  define full :: u64 where "full = (\<Sum>y\<leftarrow>ys. ucast y)"
  note sp = full_split [of ys full, OF _ full_def]
  have "lo32 full = w ! Suc r" "unat (hi32 full) < 8" using sp(2,3) w by (simp_all add: ys_def add_ac)
  moreover have "unat (hi32 full) < 4"
    using sp(4) unat_u32 [of "ys ! 0"] unat_u32 [of "ys ! 1"] unat_u32 [of "ys ! 2"] unat_u32 [of "ys ! 3"]
    by (simp add: ys_def less_mult_imp_div_less)
  moreover have "fu32 (lo32 full) + pow2 32 * fu32 (hi32 full) = (\<Sum>y\<leftarrow>ys. fu32 y)" using sp(1) by (simp add: ys_def)
  ultimately have eq: "fu32 (w ! Suc r) + pow2 32 * fu32 (hi32 full) = (\<Sum>y\<leftarrow>ys. fu32 y)"
    "fu32 (hi32 full) = fu32 (hi32 full AND 1) + 2 * fu32 (drop_bit 1 (hi32 full) AND 1)"
    using carry_cell_sum(2) by simp_all
  have ws: "cur ! OFF_WS_C0 = fu32 (hi32 full AND 1)" "cur ! OFF_WS_C1 = fu32 (drop_bit 1 (hi32 full) AND 1)"
    "cur ! OFF_WS_CW = fu32 (hi32 full)"
    using seg(21) [of 0] seg(21) [of 1] seg(21) [of 2]
    by (simp_all add: ws_cells_def Let_def full_def ys_def wb add_ac numeral_2_eq_2)
  have wc: "cur ! (OFF_WW0 + 0) = fu32 (w ! (r - 15))" "cur ! (OFF_WW0 + 9) = fu32 (w ! (r - 6))"
    using seg(16) [of 0] seg(16) [of 9] by (simp_all add: wb)
  have sc: "cur ! OFF_SS0_W = fu32 (small_sigma0 (w ! (r - 14)))" "cur ! OFF_SS1_W = fu32 (small_sigma1 (w ! (r - 1)))"
    using seg(19) [of 64] seg(20) [of 64] by (simp_all add: sigma_cells_nth(3) wb)
  have nw: "nxt ! OFF_W = fu32 (w ! Suc r)"
    using sha_row_cells(4) [OF s(3,4), of "Suc r" w] r by (simp add: nxt w_back_def)
  show ?thesis
    using eq carry_cell_bits [of 0 "hi32 full"] carry_cell_bits [of 1 "hi32 full"] wc
    by (simp add: schedule_cons_def Let_def ws sc nw ys_def diff_eq_eq add_ac)
qed


section \<open>The rows of a block\<close>

lemma inactive [simp]:
  "zeros (shift_cons False cur nxt)" "zeros (new_state_cons False cur nxt)" "zeros (schedule_cons False cur nxt)"
  by (simp_all add: shift_cons_def new_state_cons_def schedule_cons_def)

text \<open>A built row satisfies the constraints when its phase constraints hold.\<close>

lemma eval_ok:
  assumes "length s = 8" "length hs = 8" and cur: "cur = sha_row r w s hs"
    and act: "act \<longleftrightarrow> row div ROWS_PER_BLOCK < n_blocks \<and> row mod ROWS_PER_BLOCK < 64" "act \<longleftrightarrow> r < 64"
      "act \<Longrightarrow> row mod ROWS_PER_BLOCK = r"
    and fin: "fin \<longleftrightarrow> row div ROWS_PER_BLOCK < n_blocks \<and> row mod ROWS_PER_BLOCK = 64"
    and sch: "sch \<longleftrightarrow> row div ROWS_PER_BLOCK < n_blocks \<and> 15 \<le> row mod ROWS_PER_BLOCK \<and> row mod ROWS_PER_BLOCK \<le> 62"
    and z: "zeros (shift_cons act cur nxt)" "zeros (new_state_cons act cur nxt)" "zeros (h_cons fin cur nxt)"
      "zeros (window_cons cur nxt)" "zeros (schedule_cons sch cur nxt)"
  shows "zeros (eval_sha256_constraints cur nxt row n_blocks)"
proof -
  obtain a b c d e f g h where s8: "s = [a, b, c, d, e, f, g, h]" by (rule length_8_cases [OF assms(1)])
  note rowc = sha_row_cur [OF assms(2) cur [unfolded s8]]
  have flags: "(\<not> n_blocks \<le> row div ROWS_PER_BLOCK \<and> row mod ROWS_PER_BLOCK < 64) = act"
    "(\<not> n_blocks \<le> row div ROWS_PER_BLOCK \<and> row mod ROWS_PER_BLOCK = 64) = fin"
    "(\<not> n_blocks \<le> row div ROWS_PER_BLOCK \<and> 15 \<le> row mod ROWS_PER_BLOCK \<and> row mod ROWS_PER_BLOCK \<le> 62) = sch"
    using act(1) fin sch by (simp_all add: not_le)
  have k: "(if act then fu32 (sha_K ! (row mod ROWS_PER_BLOCK)) else 0) = (if r < 64 then fu32 (sha_K ! r) else 0)"
    using act(2,3) by simp
  show ?thesis
    unfolding eval_sha256_constraints_def Let_def flags k using rowc z by simp
qed

lemma length_message_schedule: "length m = 16 \<Longrightarrow> length (message_schedule m) = 64"
proof -
  assume m: "length m = 16"
  have "length ((schedule_next ^^ k) m) = 16 + k" for k
    by (induction k) (simp_all add: m schedule_next_def Let_def)
  then show ?thesis by (simp add: message_schedule_def)
qed

lemma message_schedule_nth:
  assumes "length m = 16" "16 \<le> t" "t < 64" and w: "w = message_schedule m"
  shows "w ! t = small_sigma1 (w ! (t - 2)) + w ! (t - 7) + small_sigma0 (w ! (t - 15)) + w ! (t - 16)"
proof -
  define g where "g k = (schedule_next ^^ k) m" for k
  have len: "length (g k) = 16 + k" for k by (induction k) (simp_all add: g_def assms(1) schedule_next_def Let_def)
  have stable: "g (k + j) ! i = g k ! i" if "i < 16 + k" for k j i
  proof (induction j)
    case (Suc j)
    have "g (Suc (k + j)) ! i = g (k + j) ! i"
      using len [of "k + j"] that by (simp add: g_def schedule_next_def Let_def nth_append)
    then show ?case using Suc by simp
  qed simp
  have w: "w = g 48" by (simp add: w message_schedule_def g_def)
  have k: "t = 16 + (t - 16)" "t - 16 < 48" using assms(2,3) by linarith+
  define k where "k = t - 16"
  note k = k [folded k_def]
  have old: "w ! i = g k ! i" if "i < t" for i using stable [of i k "48 - k"] that k w by simp
  have "w ! t = g (Suc k) ! t" using stable [of t "Suc k" "48 - Suc k"] k w by simp
  also have "\<dots> = small_sigma1 (g k ! (t - 2)) + g k ! (t - 7) + small_sigma0 (g k ! (t - 15)) + g k ! (t - 16)"
    using len [of k] k by (simp add: g_def schedule_next_def Let_def nth_append)
  finally show ?thesis using old assms(2) by simp
qed

lemma fill_rows_nth:
  assumes "r < ROWS_PER_BLOCK"
  shows "fill_rows w st iv ! r = sha_row r w (state_at w st (min r 64)) (if r \<le> 64 then iv else map2 (+) iv (state_at w st 64))"
  using assms by (simp add: fill_rows_def)

lemma fill_rows_step:
  assumes m: "length m = 16" and w: "w = message_schedule m" and l: "length st = 8" "length iv = 8"
    and r: "r < 127" "row mod ROWS_PER_BLOCK = r" "row div ROWS_PER_BLOCK < n_blocks"
  shows "zeros (eval_sha256_constraints (fill_rows w st iv ! r) (fill_rows w st iv ! Suc r) row n_blocks)"
proof -
  define s where "s k = state_at w st (min k 64)" for k
  define hs where "hs k = (if k \<le> 64 then iv else map2 (+) iv (state_at w st 64))" for k :: nat
  have len: "length (s k) = 8" "length (hs k) = 8" for k using l by (simp_all add: s_def hs_def)
  have rows: "fill_rows w st iv ! r = sha_row r w (s r) (hs r)"
    "fill_rows w st iv ! Suc r = sha_row (Suc r) w (s (Suc r)) (hs (Suc r))"
    using r(1) by (simp_all add: fill_rows_nth s_def hs_def ROWS_PER_BLOCK_def)
  have next_s: "s (Suc r) = sha_round (sha_K ! r) (w_back w r 0) (s r)" if "r < 64"
    using that by (simp add: s_def w_back_def state_at_Suc min_def)
  have rnd: "zeros (shift_cons (r < 64) (sha_row r w (s r) (hs r)) (sha_row (Suc r) w (s (Suc r)) (hs (Suc r))))"
    "zeros (new_state_cons (r < 64) (sha_row r w (s r) (hs r)) (sha_row (Suc r) w (s (Suc r)) (hs (Suc r))))"
    using round_cons_ok [OF len(1,2,2) _ refl refl, where r = r and w = w and r' = "Suc r" and w' = w] by (cases "r < 64"; simp add: next_s)+
  have H: "zeros (h_cons (r = 64) (sha_row r w (s r) (hs r)) (sha_row (Suc r) w (s (Suc r)) (hs (Suc r))))"
  proof (cases "r = 64")
    case True
    then have "hs (Suc r) = map2 (+) (hs r) (s r)" by (simp add: hs_def s_def)
    then show ?thesis using True final_cons_ok [OF len(1,2,1)] by simp
  next
    case False
    then have "hs (Suc r) = hs r" by (auto simp: hs_def)
    then show ?thesis using False h_hold_ok [OF len(1,1,2)] by simp
  qed
  have sch: "zeros (schedule_cons (15 \<le> r \<and> r \<le> 62) (sha_row r w (s r) (hs r)) (sha_row (Suc r) w (s (Suc r)) (hs (Suc r))))"
  proof (cases "15 \<le> r \<and> r \<le> 62")
    case True
    then have "w ! Suc r = small_sigma1 (w ! (r - 1)) + w ! (r - 6) + small_sigma0 (w ! (r - 14)) + w ! (r - 15)"
      using message_schedule_nth [OF m _ _ w, of "Suc r"] by (simp add: numeral_eq_Suc)
    then show ?thesis
      using schedule_cons_ok [OF len(1,2,1,2) _ _ _ refl refl, where r = r and w = w] True by simp
  next
    case False
    then show ?thesis by (simp only: inactive)
  qed
  show ?thesis
    unfolding rows
    by (rule eval_ok [OF len(1,2) refl _ refl _ refl refl]) (use rnd H sch window_cons_ok [OF len(1,2,1,2)] r in simp_all)
qed

text \<open>After round 63 of a block nothing but the held hash state and the empty window passes on.\<close>

lemma sha_row_last:
  assumes len: "length s = 8" "length hs = 8" "length s' = 8"
    and nxt: "nxt = sha_row 127 w' s' hs \<or> nxt = sha_row 0 w' s' hs"
    and row: "row mod ROWS_PER_BLOCK = 127 \<or> n_blocks \<le> row div ROWS_PER_BLOCK"
  shows "zeros (eval_sha256_constraints (sha_row 127 w s hs) nxt row n_blocks)"
proof -
  have "zeros (h_cons False (sha_row 127 w s hs) nxt)" using nxt h_hold_ok [OF len(1,3,2)] by auto
  moreover have "zeros (window_cons (sha_row 127 w s hs) nxt)"
  proof -
    have "sha_row 127 w s hs ! (OFF_WW0 + k) = 0" "nxt ! (OFF_WW0 + k) = 0" if "k < 15" for k
      using nxt sha_row_cells(3) [OF len(1,2) that, of 127 w] sha_row_cells(3) [OF len(3,2) that, of 127 w']
        sha_row_cells(3) [OF len(3,2) that, of 0 w'] that by (auto simp: w_back_def fu32_def)
    note z = this
    have "sha_row 127 w s hs ! (OFF_WW0 + i + 1) = 0" if "i < 14" for i using z(1) [of "i + 1"] that by (simp add: add.assoc)
    moreover have "nxt ! (OFF_WW0 + 14) = 0" using z(2) [of 14] by simp
    moreover note z(2)
    moreover have "sha_row 127 w s hs ! OFF_W = 0"
      using sha_row_cells(4) [OF len(1,2), of 127 w] by (simp add: w_back_def fu32_def)
    ultimately show ?thesis by (simp add: window_cons_def)
  qed
  ultimately show ?thesis
    using row by (intro eval_ok [OF len(1,2) refl, where act = False and fin = False and sch = False]) auto
qed

end
