(* ===== verification/Sha256_Props.thy ===== *)
theory Sha256_Props
  imports Sha256_Complete
begin

text \<open>
  Properties of the SHA-256 AIR: padding, completeness of the built trace with the digest that
  \<open>prove_ds_ksk_binding\<close> reads from it, soundness of one block, and the freedom of its start.
\<close>

section \<open>Padding\<close>

lemma pad_loop_total:
  assumes "(length buf + k) mod 64 = 56"
  shows "\<exists>z \<le> k. pad_loop buf = Some (buf @ replicate z 0) \<and> (length buf + z) mod 64 = 56"
  using assms
proof (induction k arbitrary: buf)
  case (Suc k)
  show ?case
  proof (cases "length buf mod 64 = 56")
    case False
    obtain z where "z \<le> k" "pad_loop (buf @ [0]) = Some ((buf @ [0]) @ replicate z 0)" "(length (buf @ [0]) + z) mod 64 = 56"
      using Suc.IH [of "buf @ [0]"] Suc.prems by auto
    then show ?thesis using False by (intro exI [of _ "Suc z"]) (simp add: pad_loop.simps [of buf])
  qed (auto simp: pad_loop.simps intro: exI [of _ 0])
qed (simp add: pad_loop.simps)

lemma pad_steps: "\<exists>k < 64. (n + k) mod 64 = (56 :: nat)"
proof -
  define m where "m = n mod 64"
  have m: "m < 64" "(n + k) mod 64 = (m + k) mod 64" for k by (simp_all add: m_def mod_add_left_eq)
  show ?thesis
  proof (cases "m \<le> 56")
    case True
    then show ?thesis unfolding m(2) by (intro exI [of _ "56 - m"]) simp
  next
    case False
    then have "(m + (120 - m)) mod 64 = 56" "120 - m < 64" using m(1) by simp_all
    then show ?thesis unfolding m(2) by blast
  qed
qed

lemma chunks_exact_concat:
  "length xs = k * n \<Longrightarrow> concat (chunks_exact k n xs) = xs \<and> length (chunks_exact k n xs) = k \<and>
    (\<forall>c \<in> set (chunks_exact k n xs). length c = n)"
  by (induction k n xs rule: chunks_exact.induct) auto

lemma padding_blocks:
  "\<exists>blocks z. pad_message_to_blocks message = Some blocks \<and> z < 64 \<and> blocks \<noteq> [] \<and>
     list_all (\<lambda>b. length b = 64) blocks \<and>
     concat blocks = message @ [0x80] @ replicate z 0 @ be_bytes 8 (word_of_nat (8 * length message) :: u64)"
proof -
  obtain k where "k < 64" "(length (message @ [0x80]) + k) mod 64 = 56" using pad_steps by blast
  then obtain z where z: "z < 64" "pad_loop (message @ [0x80]) = Some ((message @ [0x80]) @ replicate z 0)"
    "(length message + 1 + z) mod 64 = 56"
    using pad_loop_total [of "message @ [0x80]" k] by fastforce
  let ?buf = "(message @ [0x80]) @ replicate z 0 @ be_bytes 8 (word_of_nat (length message) * 8 :: u64)"
  have l: "length ?buf mod 64 = 0"
  proof -
    have "length ?buf = (length message + 1 + z) + 8" by simp
    then show ?thesis using z(3) mod_add_left_eq [of "length message + 1 + z" 64 8] by (simp add: add_ac)
  qed
  then have len: "length ?buf = length ?buf div 64 * 64" by presburger
  have ch: "concat (chunks_exact (length ?buf div 64) 64 ?buf) = ?buf"
    "list_all (\<lambda>b. length b = 64) (chunks_exact (length ?buf div 64) 64 ?buf)"
    using chunks_exact_concat [OF len] unfolding list_all_iff by blast+
  have "chunks_exact (length ?buf div 64) 64 ?buf \<noteq> []"
  proof
    assume "chunks_exact (length ?buf div 64) 64 ?buf = []"
    then have "?buf = []" using ch(1) by (simp only: concat.simps)
    then show False by simp
  qed
  moreover have "pad_message_to_blocks message = Some (chunks_exact (length ?buf div 64) 64 ?buf)"
    using z(2) by (simp add: pad_message_to_blocks_def Let_def add_ac)
  moreover have "(word_of_nat (length message) * 8 :: u64) = word_of_nat (8 * length message)" by (simp add: mult.commute)
  then have "?buf = message @ [0x80] @ replicate z 0 @ be_bytes 8 (word_of_nat (8 * length message) :: u64)"
    by (simp only: append_assoc)
  moreover note ch
  ultimately show ?thesis using z(1)
    by (intro exI [of _ "chunks_exact (length ?buf div 64) 64 ?buf"] exI [of _ z] conjI) (assumption | simp only:)+
qed

text \<open>C25: Padding ends after less than 64 zero bytes: the blocks are 64 bytes each, at least one, and
  together the message, the byte 0x80, the zeros and the bit length in eight big-endian bytes.\<close>

theorem padding_terminates:
  "\<exists>blocks z. pad_message_to_blocks message = Some blocks \<and> z < 64 \<and> blocks \<noteq> [] \<and>
     list_all (\<lambda>b. length b = 64) blocks \<and>
     concat blocks = message @ [0x80] @ replicate z 0 @ be_bytes 8 (word_of_nat (8 * length message) :: u64)"
  by (rule padding_blocks)

lemma padding_total: "\<exists>blocks. pad_message_to_blocks message = Some blocks \<and> blocks \<noteq> []"
  using padding_blocks by blast

section \<open>The whole trace\<close>

definition trace_row :: "gf list list \<Rightarrow> nat \<Rightarrow> gf list" where
  "trace_row trace r = map (\<lambda>col. col ! r) trace"

text \<open>All transitions but the wrap from the last row to the first.\<close>

definition sha256_trace_valid :: "gf list list \<Rightarrow> nat \<Rightarrow> bool" where
  "sha256_trace_valid trace n_blocks \<longleftrightarrow> list_all (\<lambda>row.
     zeros (eval_sha256_constraints (trace_row trace row) (trace_row trace (Suc row)) row n_blocks)) [0..<length (hd trace) - 1]"

text \<open>The hash of a padded message by the native compression function.\<close>

definition sha256_chain :: "u32 list \<Rightarrow> bytes list \<Rightarrow> u32 list" where
  "sha256_chain iv blocks = fold (\<lambda>block iv. map2 (+) iv (compress_block_native block iv)) blocks iv"

text \<open>What \<open>prove_ds_ksk_binding\<close> reads back from the trace.\<close>

definition asserted_digest :: "gf list list \<Rightarrow> nat \<Rightarrow> bytes" where
  "asserted_digest trace n_blocks = (let digest_row = ROWS_PER_BLOCK * (n_blocks - 1) + 65
     in concat (map (\<lambda>k. be32 (ucast (word_of_int (Rep_gf (trace ! (OFF_H0 + k) ! digest_row)) :: u64))) [0..<8]))"

lemma length_sha_row: "length s = 8 \<Longrightarrow> length hs = 8 \<Longrightarrow> length (sha_row r w s hs) = WIDTH"
proof (erule length_8_cases)
  fix a b c d e f g h
  assume hs: "length hs = 8" and s: "s = [a, b, c, d, e, f, g, h]"
  have "map length (row_blocks r w s hs) = seg_lengths"
    using hs by (simp only: s row_blocks_eq list.map length_cells length_map length_upt list.size seg_lengths_def) simp
  then show "length (sha_row r w s hs) = WIDTH" by (simp add: sha_row_def length_concat seg_lengths_def WIDTH_def)
qed

lemma trace_columns_facts:
  assumes "\<forall>row \<in> set rows. length row = WIDTH"
  shows "length (hd (trace_columns rows)) = length rows" "r < length rows \<Longrightarrow> trace_row (trace_columns rows) r = rows ! r"
    "c < WIDTH \<Longrightarrow> r < length rows \<Longrightarrow> trace_columns rows ! c ! r = rows ! r ! c" "length (trace_columns rows) = WIDTH"
proof -
  show "length (hd (trace_columns rows)) = length rows" by (simp add: trace_columns_def hd_map WIDTH_def)
  show "c < WIDTH \<Longrightarrow> r < length rows \<Longrightarrow> trace_columns rows ! c ! r = rows ! r ! c" by (simp add: trace_columns_def)
  assume r: "r < length rows"
  then show "trace_row (trace_columns rows) r = rows ! r"
    using assms by (intro nth_equalityI) (simp_all add: trace_row_def trace_columns_def)
qed (simp add: trace_columns_def)

lemma length_fill_rows [simp]: "length (fill_rows w st iv) = ROWS_PER_BLOCK"
  by (simp add: fill_rows_def)

lemma length_compress [simp]: "length (compress_block_native block iv) = length iv"
  by (simp add: compress_block_native_def)

lemma length_block_words [simp]: "length (block_words block) = 16"
  by (simp add: block_words_def)

lemma length_sha256_chain: "length (sha256_chain iv blocks) = length iv"
  by (induction blocks arbitrary: iv) (simp_all add: sha256_chain_def)

lemma sha256_chain_simps:
  "sha256_chain iv [] = iv" "sha256_chain iv (block # blocks) = sha256_chain (map2 (+) iv (compress_block_native block iv)) blocks"
  by (simp_all add: sha256_chain_def)

lemma length_fill_blocks: "length (fill_blocks blocks iv) = ROWS_PER_BLOCK * length blocks"
  by (induction blocks iv rule: fill_blocks.induct) (simp_all add: fill_block_def)

lemma fill_blocks_nth:
  "b < length blocks \<Longrightarrow> r < ROWS_PER_BLOCK \<Longrightarrow>
    fill_blocks blocks iv ! (ROWS_PER_BLOCK * b + r) = fill_block (blocks ! b) (sha256_chain iv (take b blocks)) ! r"
proof (induction b arbitrary: blocks iv)
  case 0
  then show ?case by (cases blocks) (simp_all add: nth_append fill_block_def sha256_chain_simps)
next
  case (Suc b)
  then obtain block rest where "blocks = block # rest" by (cases blocks) auto
  then show ?case using Suc by (simp add: nth_append fill_block_def sha256_chain_simps)
qed

lemma fill_row_shape:
  assumes "length st = 8" "length iv = 8" "r < ROWS_PER_BLOCK"
  obtains s hs where "length s = 8" "length hs = 8" "fill_rows w st iv ! r = sha_row r w s hs"
    "hs = (if r \<le> 64 then iv else map2 (+) iv (state_at w st 64))"
  using that [of "state_at w st (min r 64)" "if r \<le> 64 then iv else map2 (+) iv (state_at w st 64)"] assms
  by (simp add: fill_rows_nth)

lemma fill_block_shape:
  assumes "length iv = 8" "r < ROWS_PER_BLOCK"
  obtains s hs where "length s = 8" "length hs = 8" "fill_block block iv ! r = sha_row r (message_schedule (block_words block)) s hs"
    "hs = (if r \<le> 64 then iv else map2 (+) iv (compress_block_native block iv))"
  using fill_row_shape [OF assms(1,1,2), of "message_schedule (block_words block)"]
  by (metis fill_block_def compress_block_native_def)

lemma fill_blocks_shape:
  assumes "length iv = 8" "i < ROWS_PER_BLOCK * length blocks"
  obtains b r w s hs where "i = ROWS_PER_BLOCK * b + r" "b < length blocks" "r < ROWS_PER_BLOCK" "length s = 8" "length hs = 8"
    "fill_blocks blocks iv ! i = sha_row r w s hs"
    "hs = sha256_chain iv (take (if r \<le> 64 then b else Suc b) blocks)"
proof -
  define b r where "b = i div ROWS_PER_BLOCK" and "r = i mod ROWS_PER_BLOCK"
  have i: "i = ROWS_PER_BLOCK * b + r" "b < length blocks" "r < ROWS_PER_BLOCK"
    using assms(2) by (simp_all add: b_def r_def ROWS_PER_BLOCK_def less_mult_imp_div_less mult.commute)
  let ?iv = "sha256_chain iv (take b blocks)"
  obtain s hs where "length s = 8" "length hs = 8" "fill_block (blocks ! b) ?iv ! r = sha_row r (message_schedule (block_words (blocks ! b))) s hs"
    "hs = (if r \<le> 64 then ?iv else map2 (+) ?iv (compress_block_native (blocks ! b) ?iv))"
    using fill_block_shape [of ?iv r "blocks ! b"] i(3) assms(1) length_sha256_chain by metis
  moreover have "map2 (+) ?iv (compress_block_native (blocks ! b) ?iv) = sha256_chain iv (take (Suc b) blocks)"
    using i(2) by (simp add: sha256_chain_def take_Suc_conv_app_nth)
  ultimately show ?thesis
    using that [OF i, of s hs "message_schedule (block_words (blocks ! b))"] fill_blocks_nth [OF i(2,3), of iv] i(1) by simp
qed


lemma sha_row_width: "i < ROWS_PER_BLOCK * length blocks \<Longrightarrow> length iv = 8 \<Longrightarrow> length (fill_blocks blocks iv ! i) = WIDTH"
  by (rule fill_blocks_shape [of iv i blocks]) (simp_all add: length_sha_row)

lemma sha256_rows_facts:
  assumes "blocks \<noteq> []"
  shows "\<forall>row \<in> set (sha256_rows blocks). length row = WIDTH"
    "ROWS_PER_BLOCK * length blocks \<le> length (sha256_rows blocks)"
    "i < ROWS_PER_BLOCK * length blocks \<Longrightarrow> sha256_rows blocks ! i = fill_blocks blocks sha_IV ! i"
    "ROWS_PER_BLOCK * length blocks \<le> i \<Longrightarrow> i < length (sha256_rows blocks) \<Longrightarrow>
       sha256_rows blocks ! i = fill_blocks blocks sha_IV ! (ROWS_PER_BLOCK * length blocks - 1)"
proof -
  let ?rows = "fill_blocks blocks sha_IV"
  have l: "length ?rows = ROWS_PER_BLOCK * length blocks" by (rule length_fill_blocks)
  have pos: "0 < ROWS_PER_BLOCK * length blocks" using assms by (simp add: ROWS_PER_BLOCK_def)
  have IV: "length sha_IV = 8" by (simp add: sha_IV_def)
  have w: "\<forall>i < length ?rows. length (?rows ! i) = WIDTH" using sha_row_width [OF _ IV] l by simp
  have ne: "?rows \<noteq> []" using l pos by auto
  have "\<forall>row \<in> set ?rows. length row = WIDTH" using w by (auto simp: in_set_conv_nth)
  moreover have "last ?rows \<in> set ?rows" using ne by (rule last_in_set)
  ultimately show "\<forall>row \<in> set (sha256_rows blocks). length row = WIDTH"
    by (auto simp: sha256_rows_def Let_def)
  show "ROWS_PER_BLOCK * length blocks \<le> length (sha256_rows blocks)" by (simp add: sha256_rows_def Let_def l)
  show "i < ROWS_PER_BLOCK * length blocks \<Longrightarrow> sha256_rows blocks ! i = ?rows ! i"
    by (simp add: sha256_rows_def Let_def l nth_append)
  show "ROWS_PER_BLOCK * length blocks \<le> i \<Longrightarrow> i < length (sha256_rows blocks) \<Longrightarrow>
       sha256_rows blocks ! i = ?rows ! (ROWS_PER_BLOCK * length blocks - 1)"
    using last_conv_nth [OF ne] by (simp add: sha256_rows_def Let_def l nth_append)
qed

lemma fill_block_boundary:
  assumes "length iv = 8" "length blocks = n" "b < n" "row = ROWS_PER_BLOCK * b + 127"
    and nxt: "nxt = fill_blocks blocks iv ! (Suc row) \<and> Suc b < n \<or> nxt = fill_blocks blocks iv ! row"
    and row': "row' mod ROWS_PER_BLOCK = 127 \<or> n \<le> row' div ROWS_PER_BLOCK"
  shows "zeros (eval_sha256_constraints (fill_blocks blocks iv ! row) nxt row' n)"
proof -
  let ?iv = "\<lambda>b. sha256_chain iv (take b blocks)" and ?w = "\<lambda>b. message_schedule (block_words (blocks ! b))"
  have l: "length (?iv b) = 8" for b using assms(1) by (simp add: length_sha256_chain)
  have "127 < ROWS_PER_BLOCK" "0 < ROWS_PER_BLOCK" by (simp_all add: ROWS_PER_BLOCK_def)
  note r = this
  obtain s hs where c: "length s = 8" "length hs = 8" "fill_blocks blocks iv ! row = sha_row 127 (?w b) s hs"
    "hs = map2 (+) (?iv b) (compress_block_native (blocks ! b) (?iv b))"
    using fill_block_shape [OF l r(1), of "blocks ! b" b] fill_blocks_nth [of b blocks 127 iv] assms(2-4) r(1) by auto
  have hs: "hs = ?iv (Suc b)" using c(4) assms(2,3) by (simp add: sha256_chain_def take_Suc_conv_app_nth)
  show ?thesis
  proof (cases "nxt = fill_blocks blocks iv ! row")
    case True
    then show ?thesis using sha_row_last [OF c(1,2,1) _ row', of nxt "?w b" "?w b"] c(3) by simp
  next
    case False
    then have b: "Suc b < n" "nxt = fill_blocks blocks iv ! (ROWS_PER_BLOCK * Suc b + 0)"
      using nxt assms(4) by (auto simp: ROWS_PER_BLOCK_def)
    obtain s' hs' where c': "length s' = 8" "length hs' = 8" "nxt = sha_row 0 (?w (Suc b)) s' hs'" "hs' = ?iv (Suc b)"
      using fill_block_shape [OF l r(2), of "blocks ! Suc b" "Suc b"] fill_blocks_nth [of "Suc b" blocks 0 iv] b assms(2) r(2) by auto
    then show ?thesis using sha_row_last [OF c(1,2) c'(1) _ row', of nxt "?w (Suc b)" "?w b"] c(3) hs by simp
  qed
qed

lemma sha256_rows_step:
  assumes ne: "blocks \<noteq> []" and row: "Suc row < length (sha256_rows blocks)"
  shows "zeros (eval_sha256_constraints (sha256_rows blocks ! row) (sha256_rows blocks ! Suc row) row (length blocks))"
proof -
  let ?n = "length blocks" and ?f = "fill_blocks blocks sha_IV"
  note rows = sha256_rows_facts [OF ne]
  have IV: "length sha_IV = 8" by (simp add: sha_IV_def)
  define last_row where "last_row = ROWS_PER_BLOCK * ?n - 1"
  have last: "last_row = ROWS_PER_BLOCK * (?n - 1) + 127" "?n - 1 < ?n"
    using ne by (cases blocks; simp add: last_row_def ROWS_PER_BLOCK_def)+
  show ?thesis
  proof (cases "row < ROWS_PER_BLOCK * ?n")
    case False
    then have "sha256_rows blocks ! row = ?f ! last_row" "sha256_rows blocks ! Suc row = ?f ! last_row"
      using rows(4) row by (simp_all add: last_row_def)
    moreover have "?n \<le> row div ROWS_PER_BLOCK" using False by (simp add: less_eq_div_iff_mult_less_eq ROWS_PER_BLOCK_def mult.commute)
    moreover note fill_block_boundary [OF IV refl last(2,1) disjI2 [OF refl] disjI2]
    ultimately show ?thesis by (simp only:)
  next
    case True
    define b r where "b = row div ROWS_PER_BLOCK" and "r = row mod ROWS_PER_BLOCK"
    have i: "row = ROWS_PER_BLOCK * b + r" "b < ?n" "r < ROWS_PER_BLOCK"
      using True by (simp_all add: b_def r_def ROWS_PER_BLOCK_def less_mult_imp_div_less mult.commute)
    show ?thesis
    proof (cases "r = 127")
      case True
      have row': "row = ROWS_PER_BLOCK * b + 127" "row mod ROWS_PER_BLOCK = 127"
        using i(1) r_def [symmetric] unfolding True .
      have "sha256_rows blocks ! Suc row = ?f ! Suc row \<and> Suc b < ?n \<or> sha256_rows blocks ! Suc row = ?f ! row"
      proof (cases "Suc b < ?n")
        case True
        then have "Suc row < ROWS_PER_BLOCK * ?n" using row'(1) by (simp add: ROWS_PER_BLOCK_def)
        then show ?thesis using rows(3) True by simp
      next
        case False
        then have "row = last_row" using i(2) last(1) row'(1) by (auto simp: not_less_eq less_Suc_eq_le intro: le_antisym)
        then show ?thesis using rows(4) [of "Suc row"] row by (simp add: last_row_def)
      qed
      then show ?thesis
        unfolding rows(3) [OF \<open>row < ROWS_PER_BLOCK * ?n\<close>]
        by (rule fill_block_boundary [OF IV refl i(2) row'(1) _ disjI1 [OF row'(2)]])
    next
      case False
      then have r: "r < 127" using i(3) by (simp add: ROWS_PER_BLOCK_def)
      then have s: "Suc row < ROWS_PER_BLOCK * ?n" "Suc row = ROWS_PER_BLOCK * b + Suc r" "Suc r < ROWS_PER_BLOCK"
        using i by (simp_all add: ROWS_PER_BLOCK_def)
      let ?iv = "sha256_chain sha_IV (take b blocks)"
      let ?b = "fill_block (blocks ! b) ?iv"
      have "length ?iv = 8" using IV by (simp only: length_sha256_chain)
      then have "zeros (eval_sha256_constraints (?b ! r) (?b ! Suc r) row ?n)"
        unfolding fill_block_def
        by (rule fill_rows_step [OF length_block_words refl _ _ r r_def [symmetric]]) (simp_all only: IV length_sha256_chain i(2) b_def [symmetric])
      moreover have "sha256_rows blocks ! row = ?b ! r" "sha256_rows blocks ! Suc row = ?b ! Suc r"
        using rows(3) [OF \<open>row < ROWS_PER_BLOCK * ?n\<close>] rows(3) [OF s(1)] fill_blocks_nth [OF i(2,3), of sha_IV]
          fill_blocks_nth [OF i(2) s(3), of sha_IV] by (simp_all only: i(1) [symmetric] s(2) [symmetric])
      ultimately show ?thesis by (simp only:)
    qed
  qed
qed


lemma into_bigint_fu32: "ucast (word_of_int (Rep_gf (fu32 x)) :: u64) = x"
proof -
  have u: "uint x < 4294967296" using unsigned_less [of x] by simp
  have "fu32 x = of_int (int (unat x))" unfolding fu32_def by (simp only: of_int_of_nat_eq)
  also have "int (unat x) = uint x" by simp
  finally have f: "fu32 x = of_int (uint x)" .
  have "uint x mod MODULUS = uint x" using u by (intro mod_pos_pos_trivial) (simp_all add: MODULUS_def)
  then have "Rep_gf (fu32 x) = uint x" unfolding f by (metis gf.of_int_eq gf.Rep_Abs_mod)
  moreover have "(word_of_int (uint x) :: u64) = ucast x" by simp
  moreover have "(ucast (ucast x :: u64) :: u32) = x" by (rule bit_word_eqI) (simp add: bit_ucast_iff)
  ultimately show ?thesis by (simp only:)
qed

lemma sha256_trace_built:
  "\<exists>blocks trace. pad_message_to_blocks message = Some blocks \<and>
     build_sha256_trace_multi message = Some (trace, length blocks) \<and>
     sha256_trace_valid trace (length blocks) \<and>
     asserted_digest trace (length blocks) = concat (map be32 (sha256_chain sha_IV blocks))"
proof -
  obtain blocks where pad: "pad_message_to_blocks message = Some blocks" and ne: "blocks \<noteq> []"
    using padding_total by blast
  let ?rows = "sha256_rows blocks" and ?n = "length blocks"
  note rows = sha256_rows_facts [OF ne]
  note cols = trace_columns_facts [OF rows(1)]
  have "build_sha256_trace_multi message = Some (trace_columns ?rows, ?n)"
    using pad by (simp add: build_sha256_trace_multi_def)
  moreover have "sha256_trace_valid (trace_columns ?rows) ?n"
    unfolding sha256_trace_valid_def cols(1) list_all_iff
    using cols(2) sha256_rows_step [OF ne] by simp
  moreover have "asserted_digest (trace_columns ?rows) ?n = concat (map be32 (sha256_chain sha_IV blocks))"
  proof -
    define row where "row = ROWS_PER_BLOCK * (?n - 1) + 65"
    have r: "65 < ROWS_PER_BLOCK" "?n - 1 < ?n" using ne by (simp_all add: ROWS_PER_BLOCK_def)
    have row_less: "row < ROWS_PER_BLOCK * ?n"
      using length_greater_0_conv [of blocks] ne unfolding row_def ROWS_PER_BLOCK_def by linarith
    have IV: "length sha_IV = 8" by (simp add: sha_IV_def)
    let ?iv = "sha256_chain sha_IV (take (?n - 1) blocks)" and ?b = "blocks ! (?n - 1)"
    have "length ?iv = 8" using IV by (simp only: length_sha256_chain)
    then obtain s hs where c: "length s = 8" "length hs = 8"
      "fill_block ?b ?iv ! 65 = sha_row 65 (message_schedule (block_words ?b)) s hs"
      "hs = map2 (+) ?iv (compress_block_native ?b ?iv)"
      using fill_block_shape [OF _ r(1), of ?iv ?b] by auto
    have hs: "hs = sha256_chain sha_IV blocks"
      using c(4) ne by (cases blocks rule: rev_cases) (simp_all add: sha256_chain_def)
    have cell: "trace_columns ?rows ! (OFF_H0 + k) ! row = fu32 (hs ! k)" if "k < 8" for k
      using cols(3) [of "OFF_H0 + k" row] rows(2,3) row_less fill_blocks_nth [OF r(2,1), of sha_IV] c(3) that
        sha_row_cells(2) [OF c(1,2) that] by (simp add: WIDTH_def row_def)
    have "map (\<lambda>k. be32 (ucast (word_of_int (Rep_gf (trace_columns ?rows ! (OFF_H0 + k) ! row)) :: u64))) [0..<8] = map (\<lambda>k. be32 (hs ! k)) [0..<8]"
      by (rule map_cong) (simp_all only: cell into_bigint_fu32 set_upt atLeastLessThan_iff)
    also have "\<dots> = map be32 hs" using c(2) by (metis map_nth map_map comp_apply map_cong)
    finally show ?thesis by (simp only: asserted_digest_def Let_def row_def [symmetric] hs)
  qed
  ultimately show ?thesis using pad by blast
qed

text \<open>C13: For every message the built trace satisfies all 766 constraints on every transition but the wrap,
  and the digest that \<open>prove_ds_ksk_binding\<close> reads from it is the big-endian SHA-256 chain of
  the padded message from the standard initial value.\<close>

theorem sha256_air_complete:
  "\<exists>blocks trace. pad_message_to_blocks message = Some blocks \<and>
     build_sha256_trace_multi message = Some (trace, length blocks) \<and>
     sha256_trace_valid trace (length blocks) \<and>
     asserted_digest trace (length blocks) = concat (map be32 (sha256_chain sha_IV blocks))"
  by (rule sha256_trace_built)


section \<open>One block\<close>

text \<open>C12: Soundness of one block. If the first 65 transitions of block \<open>b\<close> satisfy the constraints, the
  state cells of its first row are the words \<open>iv\<close> and the hash cells the words \<open>hs\<close>, and the
  hash cells of row 65 are words \<open>dg\<close>, then the message cells of rows 0 to 15 are 16 words whose
  compression from \<open>iv\<close>, added to \<open>hs\<close>, is \<open>dg\<close>.\<close>

theorem sha256_air_sound:
  assumes "block_ok rows b n_blocks" "state_row (block_row rows b 0) iv"
    and "map (\<lambda>k. block_row rows b 0 ! (OFF_H0 + k)) [0..<8] = map fu32 hs"
    and "map (\<lambda>k. block_row rows b 65 ! (OFF_H0 + k)) [0..<8] = map fu32 dg"
  shows "\<exists>m. length m = 16 \<and> map (\<lambda>r. block_row rows b r ! OFF_W) [0..<16] = map fu32 m \<and>
    dg = map2 (+) hs (state_at (message_schedule m) iv 64)"
proof -
  have l: "length hs = 8" "length dg = 8" using assms(3,4) by (metis length_map length_upt diff_zero)+
  have "\<forall>k < 8. block_row rows b 0 ! (OFF_H0 + k) = fu32 (hs ! k)" "\<forall>k < 8. block_row rows b 65 ! (OFF_H0 + k) = fu32 (dg ! k)"
    using assms(3,4) l unfolding list_eq_iff_nth_eq by simp_all
  then obtain m where m: "length m = 16" "\<And>r. r < 16 \<Longrightarrow> block_row rows b r ! OFF_W = fu32 (m ! r)"
    "dg = map2 (+) hs (state_at (message_schedule m) iv 64)"
    using block_digest [OF assms(1,2)] l by metis
  then show ?thesis by (intro exI [of _ m]) (simp add: list_eq_iff_nth_eq)
qed

lemma fill_rows_block_ok:
  assumes "length m = 16" "length st = 8" "length iv = 8"
  shows "block_ok (\<lambda>i. fill_rows (message_schedule m) st iv ! i) 0 1"
  using fill_rows_step [OF assms(1) refl assms(2,3), where n_blocks = 1]
  by (simp add: block_ok_def ROWS_PER_BLOCK_def)

lemma fill_rows_cells:
  assumes "length m = 16" "length st = 8" "length iv = 8" and rows: "rows = fill_rows (message_schedule m) st iv"
  shows "map (\<lambda>r. rows ! r ! OFF_W) [0..<16] = map fu32 m"
    "map (\<lambda>k. rows ! 0 ! k) [0..<8] = map fu32 st"
    "map (\<lambda>k. rows ! 0 ! (OFF_H0 + k)) [0..<8] = map fu32 iv"
    "map (\<lambda>k. rows ! 65 ! (OFF_H0 + k)) [0..<8] = map fu32 (map2 (+) iv (state_at (message_schedule m) st 64))"
proof -
  let ?w = "message_schedule m"
  have R: "k < 128 \<Longrightarrow> k < ROWS_PER_BLOCK" for k by (simp add: ROWS_PER_BLOCK_def)
  have pre: "?w ! t = m ! t" if "t < 16" for t
  proof -
    have "(schedule_next ^^ k) m ! t = m ! t \<and> length ((schedule_next ^^ k) m) = 16 + k" for k
      by (induction k) (use that assms(1) in \<open>simp_all add: schedule_next_def Let_def nth_append\<close>)
    then show ?thesis by (simp add: message_schedule_def)
  qed
  have "rows ! r ! OFF_W = fu32 (m ! r)" if "r < 16" for r
    using sha_row_cells(4) [OF _ assms(3), of "state_at ?w st r" r ?w] that pre [OF that] assms(2)
    by (simp add: rows fill_rows_nth R w_back_def)
  then show "map (\<lambda>r. rows ! r ! OFF_W) [0..<16] = map fu32 m" using assms(1) by (simp add: list_eq_iff_nth_eq)
  have st: "state_at ?w st 0 = st" by (simp add: state_at_def)
  have r0: "rows ! 0 = sha_row 0 ?w st iv" by (simp add: rows fill_rows_nth R st)
  show "map (\<lambda>k. rows ! 0 ! k) [0..<8] = map fu32 st"
    using sha_row_cells(1) [OF assms(2,3)] assms(2) by (simp add: r0 list_eq_iff_nth_eq)
  show "map (\<lambda>k. rows ! 0 ! (OFF_H0 + k)) [0..<8] = map fu32 iv"
    using sha_row_cells(2) [OF assms(2,3)] assms(3) by (simp add: r0 list_eq_iff_nth_eq)
  let ?dg = "map2 (+) iv (state_at ?w st 64)"
  have r65: "rows ! 65 = sha_row 65 ?w (state_at ?w st 64) ?dg" by (simp add: rows fill_rows_nth R)
  show "map (\<lambda>k. rows ! 65 ! (OFF_H0 + k)) [0..<8] = map fu32 ?dg"
    using sha_row_cells(2) [of "state_at ?w st 64" ?dg _ 65 ?w] assms(2,3) by (simp add: r65 list_eq_iff_nth_eq)
qed

lemma state_row_fu32: "map (\<lambda>k. row ! k) [0..<8] = map fu32 st \<Longrightarrow> length st = 8 \<Longrightarrow> state_row row st"
  by (simp add: state_row_def list_eq_iff_nth_eq)

lemma length_sha_IV: "length sha_IV = 8"
  by (simp add: sha_IV_def)

lemma sha256_air_sound_witness:
  "\<exists>m. length m = 16 \<and> map (\<lambda>r. block_row (\<lambda>i. fill_rows (message_schedule (replicate 16 0)) sha_IV sha_IV ! i) 0 r ! OFF_W) [0..<16] = map fu32 m \<and>
    map2 (+) sha_IV (state_at (message_schedule (replicate 16 0)) sha_IV 64) = map2 (+) sha_IV (state_at (message_schedule m) sha_IV 64)"
proof (rule sha256_air_sound)
  have l: "length (replicate 16 (0 :: u32)) = 16" by simp
  note cells = fill_rows_cells [OF l length_sha_IV length_sha_IV refl]
  show "block_ok (\<lambda>i. fill_rows (message_schedule (replicate 16 0)) sha_IV sha_IV ! i) 0 1"
    by (rule fill_rows_block_ok [OF l length_sha_IV length_sha_IV])
  show "state_row (block_row (\<lambda>i. fill_rows (message_schedule (replicate 16 0)) sha_IV sha_IV ! i) 0 0) sha_IV"
    using state_row_fu32 [OF cells(2) length_sha_IV] by (simp only: block_row_def mult_0_right add_0)
  show "map (\<lambda>k. block_row (\<lambda>i. fill_rows (message_schedule (replicate 16 0)) sha_IV sha_IV ! i) 0 0 ! (OFF_H0 + k)) [0..<8] = map fu32 sha_IV"
    using cells(3) by (simp only: block_row_def mult_0_right add_0)
  show "map (\<lambda>k. block_row (\<lambda>i. fill_rows (message_schedule (replicate 16 0)) sha_IV sha_IV ! i) 0 65 ! (OFF_H0 + k)) [0..<8] =
      map fu32 (map2 (+) sha_IV (state_at (message_schedule (replicate 16 0)) sha_IV 64))"
    using cells(4) by (simp only: block_row_def mult_0_right add_0)
qed

section \<open>The start of a block\<close>

text \<open>A round can be undone, so every final state has an initial state.\<close>

lemma sha_round_onto:
  assumes "length s' = 8"
  obtains s where "length s = 8" "sha_round k w s = s'"
proof -
  obtain a' b' c' d' e' f' g' h' where s': "s' = [a', b', c', d', e', f', g', h']" by (rule length_8_cases [OF assms])
  define t2 where "t2 = big_sigma0 b' + maj b' c' d'"
  define h where "h = a' - t2 - (big_sigma1 f' + ch f' g' h' + k + w)"
  have "sha_round k w [b', c', d', e' - (a' - t2), f', g', h', h] = s'"
    by (simp add: s' Let_def h_def t2_def algebra_simps)
  then show ?thesis using that [of "[b', c', d', e' - (a' - t2), f', g', h', h]"] by simp
qed

lemma state_at_onto: "length s' = 8 \<Longrightarrow> \<exists>st. length st = 8 \<and> state_at w st t = s'"
proof (induction t arbitrary: s')
  case (Suc t)
  obtain s where "length s = 8" "sha_round (sha_K ! t) (w ! t) s = s'" by (rule sha_round_onto [OF Suc.prems])
  then show ?case using Suc.IH [of s] by (auto simp: state_at_Suc)
qed (simp add: state_at_def)

text \<open>C24: Nothing ties the state cells of a block's first row to its hash cells, nor either to the initial
  value. For every 16-word message, every 8-word hash at the first row and every 8-word
  digest there is a one-block trace that satisfies all constraints on all transitions but
  the wrap and shows that message, that hash and that digest; and for every message and
  digest there is one whose state cells start at the standard initial value.\<close>

theorem sha256_any_digest:
  assumes "length m = 16" "length hs = 8" "length dg = 8"
  shows "(\<exists>rows. length rows = ROWS_PER_BLOCK \<and> sha256_trace_valid (trace_columns rows) 1 \<and>
      map (\<lambda>r. rows ! r ! OFF_W) [0..<16] = map fu32 m \<and>
      map (\<lambda>k. rows ! 0 ! (OFF_H0 + k)) [0..<8] = map fu32 hs \<and>
      map (\<lambda>k. rows ! 65 ! (OFF_H0 + k)) [0..<8] = map fu32 dg) \<and>
    (\<exists>rows. length rows = ROWS_PER_BLOCK \<and> sha256_trace_valid (trace_columns rows) 1 \<and>
      map (\<lambda>r. rows ! r ! OFF_W) [0..<16] = map fu32 m \<and>
      map (\<lambda>k. rows ! 0 ! k) [0..<8] = map fu32 sha_IV \<and>
      map (\<lambda>k. rows ! 65 ! (OFF_H0 + k)) [0..<8] = map fu32 dg)"
proof -
  let ?w = "message_schedule m"
  have valid: "sha256_trace_valid (trace_columns (fill_rows ?w st iv)) 1" if l: "length st = 8" "length iv = 8" for st iv
  proof -
    have "\<forall>row \<in> set (fill_rows ?w st iv). length row = WIDTH"
      using l by (auto simp: fill_rows_def length_sha_row)
    note cols = trace_columns_facts [OF this]
    have "zeros (eval_sha256_constraints (fill_rows ?w st iv ! r) (fill_rows ?w st iv ! Suc r) r 1)" if "r < 127" for r
      using fill_rows_step [OF assms(1) refl l that, of r 1] that by (simp add: ROWS_PER_BLOCK_def)
    then show ?thesis unfolding sha256_trace_valid_def cols(1) list_all_iff
      using cols(2) by (simp add: ROWS_PER_BLOCK_def)
  qed
  have diff: "map2 (+) hs (map2 (-) dg hs) = dg" if "length hs = 8" for hs :: "u32 list"
    using that assms(3) by (simp add: list_eq_iff_nth_eq)
  obtain st where st: "length st = 8" "state_at ?w st 64 = map2 (-) dg hs"
    using state_at_onto [of "map2 (-) dg hs" ?w 64] assms(2,3) by auto
  note first = fill_rows_cells [OF assms(1) st(1) assms(2) refl]
  define iv where "iv = map2 (-) dg (state_at ?w sha_IV 64)"
  have iv: "length iv = 8" by (simp add: iv_def assms(3) length_sha_IV)
  have "map2 (+) iv (state_at ?w sha_IV 64) = dg"
    using assms(3) length_sha_IV by (simp add: iv_def list_eq_iff_nth_eq)
  note second = fill_rows_cells [OF assms(1) length_sha_IV iv refl, unfolded this]
  show ?thesis
    using valid [OF st(1) assms(2)] first(1,3) first(4) [unfolded st(2) diff [OF assms(2)]]
      valid [OF length_sha_IV iv] second(1,2,4) length_fill_rows by blast
qed

lemma sha256_any_digest_witness:
  "\<exists>rows. length rows = ROWS_PER_BLOCK \<and> sha256_trace_valid (trace_columns rows) 1 \<and>
    map (\<lambda>r. rows ! r ! OFF_W) [0..<16] = map fu32 (replicate 16 0) \<and>
    map (\<lambda>k. rows ! 0 ! (OFF_H0 + k)) [0..<8] = map fu32 sha_IV \<and>
    map (\<lambda>k. rows ! 65 ! (OFF_H0 + k)) [0..<8] = map fu32 (replicate 8 0)"
proof -
  have "length (replicate 16 (0 :: u32)) = 16" "length (replicate 8 (0 :: u32)) = 8" by simp_all
  from sha256_any_digest [OF this(1) length_sha_IV this(2)] show ?thesis by blast
qed

text \<open>Every evaluation returns exactly the declared number of constraints, on every row and phase.\<close>

lemma eval_sha256_width: "length (eval_sha256_constraints cur nxt row n_blocks) = NUM_CONSTRAINTS"
  by (simp only: length_eval_sha256 NUM_CONSTRAINTS_def)

end
