(* ===== verification/Air_Workloads.thy ===== *)
theory Air_Workloads
  imports Sha256_Props
begin

text \<open>
  The AIR registry of \<open>deep_ali/src/air_workloads.rs\<close>: trace builders, constraint evaluators and the
  dispatch over \<open>AirType\<close>. A trace is a list of columns. Builders that run a machine row by row are
  \<open>iter_rows\<close> of their step and row functions. What the Ed25519 registry entry takes from its own
  AIR is the record \<open>ed_stub\<close>.
\<close>

section \<open>Traces\<close>

definition columns :: "nat \<Rightarrow> gf list list \<Rightarrow> gf list list" where
  "columns w rows = map (\<lambda>c. map (\<lambda>row. row ! c) rows) [0..<w]"

definition iter_rows :: "(nat \<Rightarrow> 's \<Rightarrow> 's) \<Rightarrow> (nat \<Rightarrow> 's \<Rightarrow> gf list) \<Rightarrow> 's \<Rightarrow> nat \<Rightarrow> gf list list" where
  "iter_rows step row init n = map (\<lambda>i. row i (fold step [0..<i] init)) [0..<n]"

section \<open>Fibonacci\<close>

definition fib_step :: "nat \<Rightarrow> gf \<times> gf \<Rightarrow> gf \<times> gf" where
  "fib_step i = (\<lambda>(a, b). (b, a + b))"

definition fib_row :: "nat \<Rightarrow> gf \<times> gf \<Rightarrow> gf list" where
  "fib_row i = (\<lambda>(a, b). [a, b])"

definition build_fibonacci_trace :: "nat \<Rightarrow> gf list list" where
  "build_fibonacci_trace n = columns 2 (iter_rows fib_step fib_row (1, 1) n)"

definition eval_fibonacci_constraints :: "gf list \<Rightarrow> gf list \<Rightarrow> gf list" where
  "eval_fibonacci_constraints cur nxt = [nxt ! 1 - cur ! 0 - cur ! 1]"

section \<open>Range check\<close>

definition age_range_row :: "nat \<Rightarrow> gf list" where
  "age_range_row i = [of_bool (odd i), of_bool (odd (i div 2))]"

definition build_age_range_trace :: "nat \<Rightarrow> gf list list" where
  "build_age_range_trace n = columns 2 (iter_rows (\<lambda>_. id) (\<lambda>i _. age_range_row i) () n)"

definition eval_age_range_constraints :: "gf list \<Rightarrow> gf list" where
  "eval_age_range_constraints cur = [cur ! 0 * (1 - cur ! 0), cur ! 1 * (1 - cur ! 1)]"

section \<open>Poseidon chain\<close>

definition poseidon_round_constant :: "nat \<Rightarrow> nat \<Rightarrow> gf" where
  "poseidon_round_constant row col =
     felt ((word_of_nat row * 0x9E3779B97F4A7C15 + word_of_nat col) * 0x6C62272E07BB0142)"

definition mds_4x4 :: "nat \<Rightarrow> nat \<Rightarrow> gf" where
  "mds_4x4 i j = inverse (of_nat (i + 1) + of_nat (4 + j + 1))"

definition poseidon_step :: "nat \<Rightarrow> gf list \<Rightarrow> gf list" where
  "poseidon_step row state = map (\<lambda>j. \<Sum>k\<leftarrow>[0..<4]. mds_4x4 j k *
     (let s = state ! k + poseidon_round_constant row k; sq = s * s; cu = sq * s; fo = sq * sq in fo * cu)) [0..<4]"

definition poseidon_row :: "nat \<Rightarrow> gf list \<Rightarrow> gf list" where
  "poseidon_row row state =
     (let s = \<lambda>j. state ! j + poseidon_round_constant row j; sq = \<lambda>j. s j * s j
      in map (\<lambda>j. state ! j) [0..<4] @ map sq [0..<4] @ map (\<lambda>j. sq j * s j) [0..<4] @ map (\<lambda>j. sq j * sq j) [0..<4])"

definition build_poseidon_chain_trace :: "nat \<Rightarrow> gf list list" where
  "build_poseidon_chain_trace n = columns 16 (iter_rows poseidon_step poseidon_row [1, 2, 3, 4] n)"

definition eval_poseidon_constraints :: "gf list \<Rightarrow> gf list \<Rightarrow> nat \<Rightarrow> gf list" where
  "eval_poseidon_constraints cur nxt row =
     (let s = \<lambda>j. cur ! j + poseidon_round_constant row j; sq = \<lambda>j. cur ! (4 + j); cu = \<lambda>j. cur ! (8 + j); fo = \<lambda>j. cur ! (12 + j)
      in map (\<lambda>j. nxt ! j - (\<Sum>k\<leftarrow>[0..<4]. mds_4x4 j k * fo k * cu k)) [0..<4] @
         map (\<lambda>j. sq j - s j * s j) [0..<4] @ map (\<lambda>j. cu j - sq j * s j) [0..<4] @ map (\<lambda>j. fo j - sq j * sq j) [0..<4])"

section \<open>Register machine\<close>

fun register_step :: "nat \<Rightarrow> gf list \<Rightarrow> gf list" where
  "register_step i [p0, p1, p2, p3, p4, p5, p6, p7] =
     [p0 * p1 + p2, p1 * p2 + p3, p2 * p3 + p4, p3 * p4 + p5, p4 * p5 + p6, p5 * p6 + p7, p6 * p7 + p0,
      p0 * p4 + p1 * p5 + p2 * p6 + p3 * p7]"
| "register_step i r = r"

definition build_register_machine_trace :: "nat \<Rightarrow> gf list list" where
  "build_register_machine_trace n = columns 8 (iter_rows register_step (\<lambda>_ r. r) (map (\<lambda>i. of_nat (i + 1)) [0..<8]) n)"

definition eval_register_constraints :: "gf list \<Rightarrow> gf list \<Rightarrow> gf list" where
  "eval_register_constraints r nxt =
     [nxt ! 0 - (r ! 0 * r ! 1 + r ! 2), nxt ! 1 - (r ! 1 * r ! 2 + r ! 3), nxt ! 2 - (r ! 2 * r ! 3 + r ! 4),
      nxt ! 3 - (r ! 3 * r ! 4 + r ! 5), nxt ! 4 - (r ! 4 * r ! 5 + r ! 6), nxt ! 5 - (r ! 5 * r ! 6 + r ! 7),
      nxt ! 6 - (r ! 6 * r ! 7 + r ! 0), nxt ! 7 - (r ! 0 * r ! 4 + r ! 1 * r ! 5 + r ! 2 * r ! 6 + r ! 3 * r ! 7)]"

section \<open>Cairo\<close>

definition cairo_row :: "nat \<Rightarrow> gf list" where
  "cairo_row i = (let init_pc = 0; init_ap = 100; op0 = of_nat (i + 1); op1 = of_nat (i + 2)
     in [init_pc + of_nat i, init_ap + of_nat i, init_ap, op0, op1, op0 * op1, op0 * op1, 0])"

definition build_cairo_simple_trace :: "nat \<Rightarrow> gf list list" where
  "build_cairo_simple_trace n = columns 8 (iter_rows (\<lambda>_. id) (\<lambda>i _. cairo_row i) () n)"

definition eval_cairo_simple_constraints :: "gf list \<Rightarrow> gf list \<Rightarrow> gf list" where
  "eval_cairo_simple_constraints cur nxt =
     [nxt ! 0 - cur ! 0 - 1, nxt ! 1 - cur ! 1 - 1, nxt ! 2 - cur ! 2, cur ! 6 - cur ! 3 * cur ! 4]"

section \<open>Hash rollup\<close>

definition leaf_at :: "u64 list \<Rightarrow> nat \<Rightarrow> gf" where
  "leaf_at leaves i = (if i < length leaves then felt (leaves ! i) else 0)"

definition rollup_step :: "u64 list \<Rightarrow> nat \<Rightarrow> gf \<Rightarrow> gf" where
  "rollup_step leaves i s = s * s + leaf_at leaves i"

definition rollup_row :: "u64 list \<Rightarrow> nat \<Rightarrow> gf \<Rightarrow> gf list" where
  "rollup_row leaves i s = [of_nat i, leaf_at leaves i, s, s * s]"

definition build_hash_rollup_trace :: "nat \<Rightarrow> u64 list \<Rightarrow> gf list list" where
  "build_hash_rollup_trace n leaves = columns 4 (iter_rows (rollup_step leaves) (rollup_row leaves) 0 n)"

definition eval_hash_rollup_constraints :: "gf list \<Rightarrow> gf list \<Rightarrow> gf list" where
  "eval_hash_rollup_constraints cur nxt =
     [nxt ! 0 - cur ! 0 - 1, cur ! 3 - cur ! 2 * cur ! 2, nxt ! 2 - cur ! 3 - cur ! 1]"

definition default_rollup_leaves :: "nat \<Rightarrow> u64 list" where
  "default_rollup_leaves n = map (\<lambda>i. word_of_nat i * 0x9E3779B97F4A7C15) [0..<n]"

definition compute_hash_rollup_final_state :: "nat \<Rightarrow> u64 list \<Rightarrow> u64" where
  "compute_hash_rollup_final_state n leaves = word_of_int (Rep_gf (fold (rollup_step leaves) [0..<n] 0))"

section \<open>NSEC3 chain\<close>

definition put_cell :: "nat \<Rightarrow> nat \<Rightarrow> gf \<Rightarrow> gf list list \<Rightarrow> gf list list" where
  "put_cell c r x cols = cols[c := (cols ! c)[r := x]]"

definition put_record :: "nat \<Rightarrow> u64 list \<Rightarrow> u64 list \<Rightarrow> gf list list \<Rightarrow> gf list list" where
  "put_record i owner nxt cols = fold (\<lambda>k cols.
     put_cell (4 + k) i (felt (nxt ! k)) (put_cell k i (felt (owner ! k)) cols)) [0..<4] cols"

definition build_nsec3_chain_trace :: "nat \<Rightarrow> (u64 list \<times> u64 list) list \<Rightarrow> gf list list option" where
  "build_nsec3_chain_trace n_trace chain =
     (if \<not> is_power_of_two n_trace then None else
      let cols = replicate 8 (replicate n_trace 0);
          cols = fold (\<lambda>(i, owner, nxt). put_record i owner nxt) (enumerate 0 (take n_trace chain)) cols
      in if length chain < n_trace then
          let prev_next = (if chain \<noteq> [] then snd (last chain) else [0, 0, 0, 0]);
              cols = fold (\<lambda>i. put_record i prev_next prev_next) [length chain..<n_trace] cols
          in Some (fold (\<lambda>k cols. put_cell (4 + k) (n_trace - 1) (cols ! k ! 0) cols) [0..<4] cols)
        else Some cols)"

definition eval_nsec3_chain_constraints :: "gf list \<Rightarrow> gf list \<Rightarrow> gf list" where
  "eval_nsec3_chain_constraints cur nxt = [nxt ! 0 - cur ! 4, nxt ! 1 - cur ! 5, nxt ! 2 - cur ! 6, nxt ! 3 - cur ! 7]"

definition default_nsec3_chain :: "nat \<Rightarrow> (u64 list \<times> u64 list) list" where
  "default_nsec3_chain n =
     (let owners = map (\<lambda>i. [word_of_nat i * 0x0123456789ABCDEF, word_of_nat i * 0xFEDCBA9876543210,
        word_of_nat i * 0xDEADBEEFCAFEBABE, word_of_nat i * 0x9E3779B97F4A7C15]) [0..<n]
      in map (\<lambda>i. (owners ! i, owners ! ((i + 1) mod n))) [0..<n])"

section \<open>The registry\<close>

datatype air_type = Fibonacci | PoseidonChain | RegisterMachine | CairoSimple | AgeRange32 | MerklePath
  | HashRollup | Nsec3Chain | Sha256DsKsk | Ed25519ZskKsk

record ed_stub =
  ed_width :: nat
  ed_constraints :: nat
  ed_eval :: "gf list \<Rightarrow> gf list \<Rightarrow> nat \<Rightarrow> gf list"
  ed_trace :: "nat \<Rightarrow> gf list list option"

fun air_label :: "air_type \<Rightarrow> string" where
  "air_label Fibonacci = ''fib_w2_d2''"
| "air_label PoseidonChain = ''poseidon_w16_d2''"
| "air_label RegisterMachine = ''regmach_w8_d2''"
| "air_label CairoSimple = ''cairo_simple_w8_d2''"
| "air_label AgeRange32 = ''age_range32_w2_d2''"
| "air_label MerklePath = ''merkle_path_w16_d2''"
| "air_label HashRollup = ''hash_rollup_w4_d2''"
| "air_label Nsec3Chain = ''nsec3_chain_w8_d1''"
| "air_label Sha256DsKsk = ''sha256_dsksk_w756_d2''"
| "air_label Ed25519ZskKsk = ''ed25519_zskksk_v16_k8''"

fun air_width :: "ed_stub \<Rightarrow> air_type \<Rightarrow> nat" where
  "air_width ed Fibonacci = 2"
| "air_width ed PoseidonChain = 16"
| "air_width ed RegisterMachine = 8"
| "air_width ed CairoSimple = 8"
| "air_width ed AgeRange32 = 2"
| "air_width ed MerklePath = 16"
| "air_width ed HashRollup = 4"
| "air_width ed Nsec3Chain = 8"
| "air_width ed Sha256DsKsk = WIDTH"
| "air_width ed Ed25519ZskKsk = ed_width ed"

definition max_constraint_degree :: "air_type \<Rightarrow> nat" where
  "max_constraint_degree air = 2"

fun num_constraints :: "ed_stub \<Rightarrow> air_type \<Rightarrow> nat" where
  "num_constraints ed Fibonacci = 1"
| "num_constraints ed PoseidonChain = 16"
| "num_constraints ed RegisterMachine = 8"
| "num_constraints ed CairoSimple = 4"
| "num_constraints ed AgeRange32 = 2"
| "num_constraints ed MerklePath = 16"
| "num_constraints ed HashRollup = 3"
| "num_constraints ed Nsec3Chain = 4"
| "num_constraints ed Sha256DsKsk = NUM_CONSTRAINTS"
| "num_constraints ed Ed25519ZskKsk = ed_constraints ed"

definition all_airs :: "air_type list" where
  "all_airs = [Fibonacci, PoseidonChain, RegisterMachine, CairoSimple, AgeRange32, MerklePath, HashRollup,
     Nsec3Chain, Sha256DsKsk, Ed25519ZskKsk]"

definition build_sha256_dsksk_trace :: "nat \<Rightarrow> gf list list option" where
  "build_sha256_dsksk_trace n_trace =
     (if n_trace < ROWS_PER_BLOCK \<or> \<not> is_power_of_two n_trace then None else do {
        blocks \<leftarrow> pad_message_to_blocks [];
        let single = build_sha256_trace (blocks ! 0);
        Some (map (\<lambda>col. col @ replicate (n_trace - length col) (last col)) single) })"

fun build_air_trace :: "ed_stub \<Rightarrow> air_type \<Rightarrow> nat \<Rightarrow> gf list list option" where
  "build_air_trace ed Fibonacci n = Some (build_fibonacci_trace n)"
| "build_air_trace ed PoseidonChain n = Some (build_poseidon_chain_trace n)"
| "build_air_trace ed RegisterMachine n = Some (build_register_machine_trace n)"
| "build_air_trace ed CairoSimple n = Some (build_cairo_simple_trace n)"
| "build_air_trace ed AgeRange32 n = Some (build_age_range_trace n)"
| "build_air_trace ed MerklePath n = Some (build_poseidon_chain_trace n)"
| "build_air_trace ed HashRollup n = Some (build_hash_rollup_trace n (default_rollup_leaves n))"
| "build_air_trace ed Nsec3Chain n = build_nsec3_chain_trace n (default_nsec3_chain n)"
| "build_air_trace ed Sha256DsKsk n = build_sha256_dsksk_trace n"
| "build_air_trace ed Ed25519ZskKsk n = ed_trace ed n"

definition build_execution_trace :: "ed_stub \<Rightarrow> air_type \<Rightarrow> nat \<Rightarrow> gf list list option" where
  "build_execution_trace ed air n_trace = (if n_trace < 2 then None else build_air_trace ed air n_trace)"

fun evaluate_constraints :: "ed_stub \<Rightarrow> air_type \<Rightarrow> gf list \<Rightarrow> gf list \<Rightarrow> nat \<Rightarrow> gf list" where
  "evaluate_constraints ed Fibonacci cur nxt row = eval_fibonacci_constraints cur nxt"
| "evaluate_constraints ed PoseidonChain cur nxt row = eval_poseidon_constraints cur nxt row"
| "evaluate_constraints ed RegisterMachine cur nxt row = eval_register_constraints cur nxt"
| "evaluate_constraints ed CairoSimple cur nxt row = eval_cairo_simple_constraints cur nxt"
| "evaluate_constraints ed AgeRange32 cur nxt row = eval_age_range_constraints cur"
| "evaluate_constraints ed MerklePath cur nxt row = eval_poseidon_constraints cur nxt row"
| "evaluate_constraints ed HashRollup cur nxt row = eval_hash_rollup_constraints cur nxt"
| "evaluate_constraints ed Nsec3Chain cur nxt row = eval_nsec3_chain_constraints cur nxt"
| "evaluate_constraints ed Sha256DsKsk cur nxt row = eval_sha256_constraints cur nxt row 1"
| "evaluate_constraints ed Ed25519ZskKsk cur nxt row = ed_eval ed cur nxt row"

end
