(* ===== verification/Air_Props.thy ===== *)
theory Air_Props
  imports Air_Workloads
begin

text \<open>
  The registry's traces satisfy their constraints. The builders that iterate a machine are one
  interface, \<open>iterated_air\<close>, interpreted on the five of them; the NSEC3 builder is
  characterised cell by cell, which gives exactly what its constraints say of a chain.
\<close>

section \<open>Valid traces\<close>

definition air_row_ok :: "ed_stub \<Rightarrow> air_type \<Rightarrow> gf list list \<Rightarrow> nat \<Rightarrow> nat \<Rightarrow> bool" where
  "air_row_ok ed air trace r r' \<longleftrightarrow> zeros (evaluate_constraints ed air (trace_row trace r) (trace_row trace r') r)"

text \<open>All transitions but the wrap; and with the wrap.\<close>

definition air_trace_valid :: "ed_stub \<Rightarrow> air_type \<Rightarrow> gf list list \<Rightarrow> bool" where
  "air_trace_valid ed air trace \<longleftrightarrow> list_all (\<lambda>r. air_row_ok ed air trace r (Suc r)) [0..<length (hd trace) - 1]"

definition air_trace_cyclic :: "ed_stub \<Rightarrow> air_type \<Rightarrow> gf list list \<Rightarrow> bool" where
  "air_trace_cyclic ed air trace \<longleftrightarrow> (let n = length (hd trace)
     in list_all (\<lambda>r. air_row_ok ed air trace r ((r + 1) mod n)) [0..<n])"

definition trace_shape :: "nat \<Rightarrow> nat \<Rightarrow> gf list list \<Rightarrow> bool" where
  "trace_shape w n trace \<longleftrightarrow> length trace = w \<and> list_all (\<lambda>col. length col = n) trace"

lemma trace_shape_hd: "trace_shape w n trace \<Longrightarrow> 0 < w \<Longrightarrow> length (hd trace) = n"
  by (cases trace) (simp_all add: trace_shape_def)

lemma columns_facts:
  assumes "\<forall>row \<in> set rows. length row = w"
  shows "trace_shape w (length rows) (columns w rows)"
    "r < length rows \<Longrightarrow> trace_row (columns w rows) r = rows ! r"
proof -
  show "trace_shape w (length rows) (columns w rows)" by (simp add: trace_shape_def columns_def list_all_iff)
  assume "r < length rows"
  then show "trace_row (columns w rows) r = rows ! r"
    using assms by (intro nth_equalityI) (simp_all add: trace_row_def columns_def)
qed

section \<open>Machines run row by row\<close>

lemma iter_rows_facts [simp]:
  "length (iter_rows step row init n) = n"
  "r < n \<Longrightarrow> iter_rows step row init n ! r = row r (fold step [0..<r] init)"
  by (simp_all add: iter_rows_def)

locale iterated_air =
  fixes step :: "nat \<Rightarrow> 's \<Rightarrow> 's" and row :: "nat \<Rightarrow> 's \<Rightarrow> gf list" and init :: 's
    and w :: nat and state_ok :: "'s \<Rightarrow> bool" and eval :: "gf list \<Rightarrow> gf list \<Rightarrow> nat \<Rightarrow> gf list"
  assumes init_ok: "state_ok init" and step_ok: "state_ok s \<Longrightarrow> state_ok (step i s)"
    and width: "state_ok s \<Longrightarrow> length (row i s) = w"
    and transition: "state_ok s \<Longrightarrow> zeros (eval (row i s) (row (Suc i) (step i s)) i)"
begin

lemma reached_ok: "state_ok (fold step [0..<i] init)"
  by (induction i) (simp_all add: init_ok step_ok)

lemma shape: "trace_shape w n (columns w (iter_rows step row init n))"
  using columns_facts(1) [of "iter_rows step row init n" w] by (simp add: iter_rows_def width reached_ok)

lemma rows_satisfied:
  assumes "Suc r < n"
  shows "zeros (eval (trace_row (columns w (iter_rows step row init n)) r) (trace_row (columns w (iter_rows step row init n)) (Suc r)) r)"
proof -
  have "\<forall>x \<in> set (iter_rows step row init n). length x = w" by (simp add: iter_rows_def width reached_ok)
  note nth = columns_facts(2) [OF this]
  have "trace_row (columns w (iter_rows step row init n)) r = row r (fold step [0..<r] init)"
    "trace_row (columns w (iter_rows step row init n)) (Suc r) = row (Suc r) (step r (fold step [0..<r] init))"
    using assms by (simp_all add: nth)
  then show ?thesis by (simp add: transition reached_ok)
qed

end

lemma list_4: "length s = 4 \<Longrightarrow> \<exists>a b c d. s = [a, b, c, d]"
  by (auto simp: length_Suc_conv numeral_eq_Suc)

lemma upt_4: "[0..<4] = [0, 1, 2, 3 :: nat]"
  by (simp add: upt_rec)

interpretation fibonacci: iterated_air fib_step fib_row "(1, 1)" 2 "\<lambda>_. True" "\<lambda>cur nxt _. eval_fibonacci_constraints cur nxt"
  by unfold_locales (auto simp: fib_step_def fib_row_def eval_fibonacci_constraints_def)

interpretation age_range: iterated_air "\<lambda>_. id" "\<lambda>i _. age_range_row i" "()" 2 "\<lambda>_. True" "\<lambda>cur _ _. eval_age_range_constraints cur"
  by unfold_locales (auto simp: age_range_row_def eval_age_range_constraints_def)

lemma poseidon_row_nth:
  assumes "j < 4"
  shows "poseidon_row r s ! j = s ! j"
    "poseidon_row r s ! (4 + j) = (s ! j + poseidon_round_constant r j) * (s ! j + poseidon_round_constant r j)"
    "poseidon_row r s ! (8 + j) = poseidon_row r s ! (4 + j) * (s ! j + poseidon_round_constant r j)"
    "poseidon_row r s ! (12 + j) = poseidon_row r s ! (4 + j) * poseidon_row r s ! (4 + j)"
  using assms by (simp_all add: poseidon_row_def Let_def nth_append)

lemma poseidon_transition:
  "zeros (eval_poseidon_constraints (poseidon_row i s) (poseidon_row (Suc i) (poseidon_step i s)) i)"
proof -
  have sum: "poseidon_step i s ! j = (\<Sum>k\<leftarrow>[0..<4]. mds_4x4 j k * poseidon_row i s ! (12 + k) * poseidon_row i s ! (8 + k))"
    if "j < 4" for j
  proof -
    have "mds_4x4 j k * (let s = s ! k + poseidon_round_constant i k; sq = s * s; cu = sq * s; fo = sq * sq in fo * cu) =
        mds_4x4 j k * poseidon_row i s ! (12 + k) * poseidon_row i s ! (8 + k)" if "k < 4" for k
      using that by (simp add: Let_def poseidon_row_nth mult.assoc)
    then have "map (\<lambda>k. mds_4x4 j k * (let s = s ! k + poseidon_round_constant i k; sq = s * s; cu = sq * s; fo = sq * sq in fo * cu)) [0..<4] =
        map (\<lambda>k. mds_4x4 j k * poseidon_row i s ! (12 + k) * poseidon_row i s ! (8 + k)) [0..<4]"
      by (intro map_cong refl) (simp only: set_upt atLeastLessThan_iff)
    then show ?thesis using that by (simp only: poseidon_step_def nth_map length_upt nth_upt diff_zero add_0)
  qed
  show ?thesis
    unfolding eval_poseidon_constraints_def Let_def
    by (simp add: sum poseidon_row_nth(1,2)) (simp add: poseidon_row_nth)
qed

interpretation poseidon: iterated_air poseidon_step poseidon_row "[1, 2, 3, 4]" 16 "\<lambda>s. length s = 4" eval_poseidon_constraints
  by unfold_locales (simp_all add: poseidon_step_def poseidon_row_def Let_def poseidon_transition [unfolded poseidon_step_def poseidon_row_def Let_def] del: upt_rec_numeral)

interpretation registers: iterated_air register_step "\<lambda>_ r. r" "map (\<lambda>i. of_nat (i + 1)) [0..<8]" 8 "\<lambda>s. length s = 8"
  "\<lambda>cur nxt _. eval_register_constraints cur nxt"
proof unfold_locales
  fix s :: "gf list" and i
  assume "length s = 8"
  then obtain a b c d e f g h where "s = [a, b, c, d, e, f, g, h]" by (auto simp: length_Suc_conv numeral_eq_Suc)
  then show "length (register_step i s) = 8" "zeros (eval_register_constraints s (register_step i s))"
    by (simp_all add: eval_register_constraints_def)
qed simp_all

interpretation cairo: iterated_air "\<lambda>_. id" "\<lambda>i _. cairo_row i" "()" 8 "\<lambda>_. True" "\<lambda>cur nxt _. eval_cairo_simple_constraints cur nxt"
  by unfold_locales (auto simp: cairo_row_def eval_cairo_simple_constraints_def Let_def)

interpretation rollup: iterated_air "rollup_step leaves" "rollup_row leaves" 0 4 "\<lambda>_. True" "\<lambda>cur nxt _. eval_hash_rollup_constraints cur nxt"
  for leaves
  by unfold_locales (auto simp: rollup_step_def rollup_row_def eval_hash_rollup_constraints_def)

section \<open>The cells of the NSEC3 trace\<close>

definition cell :: "gf list list \<Rightarrow> nat \<Rightarrow> nat \<Rightarrow> gf" where
  "cell cols c r = cols ! c ! r"

lemma put_cell_shape [simp]: "trace_shape w n (put_cell c r x cols) \<longleftrightarrow> trace_shape w n cols"
  by (cases "c < length cols")
    (auto simp: put_cell_def trace_shape_def list_all_length nth_list_update)

lemma put_cell_cell:
  "trace_shape 8 n cols \<Longrightarrow> c < 8 \<Longrightarrow> r < n \<Longrightarrow> cell (put_cell c r x cols) c' r' = (if c' = c \<and> r' = r then x else cell cols c' r')"
  by (auto simp: put_cell_def trace_shape_def list_all_length nth_list_update cell_def)

lemma less_8: "c < 8 \<longleftrightarrow> c = 0 \<or> c = 1 \<or> c = 2 \<or> c = 3 \<or> c = 4 \<or> c = 5 \<or> c = 6 \<or> c = (7 :: nat)"
  by auto

lemma put_record_shape [simp]: "trace_shape w n (put_record i p q cols) \<longleftrightarrow> trace_shape w n cols"
  by (simp add: put_record_def upt_4)

lemma put_record_cell:
  assumes "trace_shape 8 n cols" "i < n" "length p = 4" "length q = 4" "c < 8"
  shows "cell (put_record i p q cols) c r = (if r = i then felt ((p @ q) ! c) else cell cols c r)"
  using list_4 [OF assms(3)] list_4 [OF assms(4)] assms(1,2,5)
  by (auto simp: put_record_def upt_4 put_cell_cell less_8)

lemma put_chain_cell:
  assumes "trace_shape 8 n cols" "j + length xs \<le> n" "\<forall>(p, q) \<in> set xs. length p = 4 \<and> length q = 4" "c < 8"
  defines "cols' \<equiv> fold (\<lambda>(i, p, q). put_record i p q) (enumerate j xs) cols"
  shows "trace_shape 8 n cols' \<and> cell cols' c r =
    (if j \<le> r \<and> r < j + length xs then felt ((fst (xs ! (r - j)) @ snd (xs ! (r - j))) ! c) else cell cols c r)"
  using assms(1-3) unfolding cols'_def
proof (induction xs arbitrary: j cols)
  case (Cons x xs)
  obtain p q where x: "x = (p, q)" by (cases x)
  have "trace_shape 8 n (put_record j p q cols)" using Cons.prems(1) by simp
  from Cons.IH [OF this, of "Suc j"] Cons.prems show ?case
    using put_record_cell [OF Cons.prems(1), of j p q c r] assms(4)
    by (auto simp: x nth_Cons' Suc_diff_le not_less less_Suc_eq_le)
qed auto

lemma put_padding_cell:
  fixes a b :: nat
  assumes "trace_shape 8 n cols" "b \<le> n" "length p = 4" "c < 8"
  defines "cols' \<equiv> fold (\<lambda>i. put_record i p p) [a..<b] cols"
  shows "trace_shape 8 n cols' \<and> cell cols' c r = (if a \<le> r \<and> r < b then felt ((p @ p) ! c) else cell cols c r)"
  using assms(2) unfolding cols'_def
proof (induction b)
  case (Suc b)
  show ?case
  proof (cases "a \<le> b")
    case True
    have sh: "trace_shape 8 n (fold (\<lambda>i. put_record i p p) [a..<b] cols)" using Suc by simp
    show ?thesis using Suc put_record_cell [OF sh, of b p p c r] assms(3,4) True by (auto simp: less_Suc_eq)
  qed (use assms(1) in auto)
qed (use assms(1) in simp)

lemma close_wrap_cell:
  assumes "trace_shape 8 n cols" "0 < n" "c < 8"
  defines "cols' \<equiv> fold (\<lambda>k cols. put_cell (4 + k) (n - 1) (cols ! k ! 0) cols) [0..<4] cols"
  shows "trace_shape 8 n cols'" "cell cols' c r = (if 4 \<le> c \<and> r = n - 1 then cell cols (c - 4) 0 else cell cols c r)"
proof -
  have e: "cols ! k ! 0 = cell cols k 0" for cols :: "gf list list" and k by (simp add: cell_def)
  show "trace_shape 8 n cols'" using assms(1) by (simp add: cols'_def upt_4)
  show "cell cols' c r = (if 4 \<le> c \<and> r = n - 1 then cell cols (c - 4) 0 else cell cols c r)"
    using assms(1-3) by (auto simp: cols'_def upt_4 e put_cell_cell less_8)
qed


text \<open>Row \<open>r\<close> of the built trace: the record, or the padding record with the last cell bent to the first owner.\<close>

definition nsec3_cell :: "nat \<Rightarrow> (u64 list \<times> u64 list) list \<Rightarrow> nat \<Rightarrow> nat \<Rightarrow> gf" where
  "nsec3_cell n chain c r =
     (if length chain < n \<and> 4 \<le> c \<and> r = n - 1 then felt (fst (hd chain) ! (c - 4))
      else if r < length chain then felt ((fst (chain ! r) @ snd (chain ! r)) ! c)
      else felt (snd (last chain) ! (c mod 4)))"

lemma nsec3_trace_cells:
  assumes n: "is_power_of_two n" and chain: "chain \<noteq> []" "\<forall>(p, q) \<in> set chain. length p = 4 \<and> length q = 4"
    and le: "length chain \<le> n"
  shows "\<exists>t. build_nsec3_chain_trace n chain = Some t \<and> trace_shape 8 n t \<and>
    (\<forall>c < 8. \<forall>r < n. cell t c r = nsec3_cell n chain c r)"
proof -
  define t0 where "t0 = replicate 8 (replicate n (0 :: gf))"
  define t1 where "t1 = fold (\<lambda>(i, p, q). put_record i p q) (enumerate 0 chain) t0"
  define pn where "pn = snd (last chain)"
  define t2 where "t2 = fold (\<lambda>i. put_record i pn pn) [length chain..<n] t1"
  define t3 where "t3 = fold (\<lambda>k cols. put_cell (4 + k) (n - 1) (cols ! k ! 0) cols) [0..<4] t2"
  have npos: "0 < n" "0 < length chain" using chain(1) le by (cases chain; simp)+
  have s0: "trace_shape 8 n t0" by (simp add: t0_def trace_shape_def list_all_iff)
  have pn: "length pn = 4" using bspec [OF chain(2) last_in_set [OF chain(1)]] by (simp add: pn_def case_prod_beta)
  have t1: "trace_shape 8 n t1" "r < length chain \<Longrightarrow> cell t1 c r = felt ((fst (chain ! r) @ snd (chain ! r)) ! c)"
    if "c < 8" for c r
    using put_chain_cell [OF s0 _ chain(2) that, of 0 r] le by (simp_all add: t1_def)
  have s1: "trace_shape 8 n t1" by (rule t1(1) [of 0]) simp
  have t2: "trace_shape 8 n t2" "cell t2 c r = (if length chain \<le> r \<and> r < n then felt ((pn @ pn) ! c) else cell t1 c r)"
    if "c < 8" for c r
    using put_padding_cell [OF s1 le_refl pn that, of "length chain" r] by (simp_all add: t2_def)
  have s2: "trace_shape 8 n t2" by (rule t2(1) [of 0]) simp
  have two: "(pn @ pn) ! c = pn ! (c mod 4)" if "c < 8" for c
    using pn that by (auto simp: nth_append less_8)
  have old: "cell t2 c r = (if r < length chain then felt ((fst (chain ! r) @ snd (chain ! r)) ! c) else felt (pn ! (c mod 4)))"
    if "c < 8" "r < n" for c r
    using that by (simp add: t2(2) t1(2) two not_less)
  have first: "length (fst (chain ! 0)) = 4" using chain by (cases chain) auto
  have hd: "cell t2 c 0 = felt (fst (hd chain) ! c)" if "c < 4" for c
    using old [of c 0] that npos chain(1) first by (simp add: hd_conv_nth nth_append)
  show ?thesis
  proof (cases "length chain < n")
    case True
    have "build_nsec3_chain_trace n chain = Some t3"
      using n True chain(1) by (simp add: build_nsec3_chain_trace_def Let_def t3_def t2_def t1_def t0_def pn_def)
    moreover have "cell t3 c r = nsec3_cell n chain c r" if "c < 8" "r < n" for c r
      using close_wrap_cell(2) [OF s2 npos(1) that(1), folded t3_def, of r] old [OF that] hd [of "c - 4"] that True
      by (auto simp: nsec3_cell_def pn_def)
    ultimately show ?thesis using close_wrap_cell(1) [OF s2 npos(1), of 0, folded t3_def] by auto
  next
    case False
    then have "length chain = n" using le by simp
    then have "build_nsec3_chain_trace n chain = Some t1"
      using n by (simp add: build_nsec3_chain_trace_def Let_def t1_def t0_def)
    moreover have "cell t1 c r = nsec3_cell n chain c r" if "c < 8" "r < n" for c r
      using t1(2) [OF that(1)] that \<open>length chain = n\<close> by (simp add: nsec3_cell_def)
    ultimately show ?thesis using s1 by auto
  qed
qed

text \<open>Limbs are field elements: a link holds when the limbs agree modulo the field characteristic.\<close>

definition limbs_cong :: "u64 list \<Rightarrow> u64 list \<Rightarrow> bool" where
  "limbs_cong p q \<longleftrightarrow> (\<forall>k < 4. uint (p ! k) mod MODULUS = uint (q ! k) mod MODULUS)"

lemma felt_eq_iff: "felt x = felt y \<longleftrightarrow> uint x mod MODULUS = uint y mod MODULUS"
  unfolding felt_def gf_of_nat_eq_iff by simp

lemma limbs_cong_felt: "limbs_cong p q \<longleftrightarrow> (\<forall>k < 4. felt (p ! k) = felt (q ! k))"
  by (simp add: limbs_cong_def felt_eq_iff)

lemma less_4: "(\<forall>k < 4. P k) \<longleftrightarrow> P 0 \<and> P 1 \<and> P 2 \<and> P (3 :: nat)"
  by (auto simp: numeral_eq_Suc less_Suc_eq)

lemma nsec3_row_ok:
  assumes "trace_shape 8 n t" "r < n" "r' < n"
  shows "air_row_ok ed Nsec3Chain t r r' \<longleftrightarrow> (\<forall>k < 4. cell t k r' = cell t (4 + k) r)"
proof -
  have "trace_row t x ! c = cell t c x" if "c < 8" for c x
    using assms(1) that by (simp add: trace_row_def trace_shape_def cell_def)
  then show ?thesis by (simp add: air_row_ok_def eval_nsec3_chain_constraints_def less_4)
qed

lemma nsec3_link:
  assumes chain: "chain \<noteq> []" "\<forall>(p, q) \<in> set chain. length p = 4 \<and> length q = 4"
    and le: "length chain \<le> n" and r: "r < n"
  shows "(\<forall>k < 4. nsec3_cell n chain k ((r + 1) mod n) = nsec3_cell n chain (4 + k) r) \<longleftrightarrow>
    (Suc r < length chain \<longrightarrow> limbs_cong (fst (chain ! Suc r)) (snd (chain ! r))) \<and>
    (Suc r = n \<and> length chain = n \<longrightarrow> limbs_cong (fst (hd chain)) (snd (last chain)))"
proof -
  have l: "length (fst (chain ! i)) = 4" "length (snd (chain ! i)) = 4" if "i < length chain" for i
    using chain(2) nth_mem [OF that] by (force simp: case_prod_beta)+
  have hd: "hd chain = chain ! 0" "0 < length chain" using chain(1) by (simp_all add: hd_conv_nth)
  have last: "last chain = chain ! (length chain - 1)" using chain(1) by (simp add: last_conv_nth)
  have own: "nsec3_cell n chain k i = (if i < length chain then felt (fst (chain ! i) ! k) else felt (snd (last chain) ! k))"
    if "k < 4" for k i
    using that l by (simp add: nsec3_cell_def nth_append)
  have nxt: "nsec3_cell n chain (4 + k) r = (if length chain < n \<and> Suc r = n then felt (fst (chain ! 0) ! k)
      else if r < length chain then felt (snd (chain ! r) ! k) else felt (snd (last chain) ! k))" if "k < 4" for k
    using that l r by (auto simp: nsec3_cell_def nth_append hd)
  consider (wrap) "Suc r = n" | (inner) "Suc r < n" using r by linarith
  then show ?thesis
  proof cases
    case wrap
    then have "(r + 1) mod n = 0" by simp
    then show ?thesis using wrap le hd last own nxt by (auto simp: limbs_cong_felt)
  next
    case inner
    then have m: "(r + 1) mod n = Suc r" by simp
    show ?thesis
    proof (cases "Suc r = length chain")
      case True
      then have "last chain = chain ! r" using last by (metis diff_Suc_1)
      then show ?thesis using inner m own nxt True by auto
    qed (use inner m own nxt in \<open>auto simp: limbs_cong_felt\<close>)
  qed
qed

text \<open>C20: What the NSEC3 constraints say of a chain. All constraints hold on all rows of the built trace, the
  wrap included, exactly when every record's next hash agrees with its successor's owner hash
  limb by limb modulo the field characteristic and, only if the chain fills the trace, the
  last record's next hash agrees likewise with the first owner hash. A chain shorter than
  the trace is never checked to be closed.\<close>

theorem nsec3_constraints_iff:
  assumes "is_power_of_two n" "chain \<noteq> []" "\<forall>(p, q) \<in> set chain. length p = 4 \<and> length q = 4" "length chain \<le> n"
  shows "\<exists>t. build_nsec3_chain_trace n chain = Some t \<and>
    (air_trace_cyclic ed Nsec3Chain t \<longleftrightarrow>
      (\<forall>i. Suc i < length chain \<longrightarrow> limbs_cong (fst (chain ! Suc i)) (snd (chain ! i))) \<and>
      (length chain = n \<longrightarrow> limbs_cong (fst (hd chain)) (snd (last chain))))"
proof -
  obtain t where t: "build_nsec3_chain_trace n chain = Some t" "trace_shape 8 n t"
    "\<forall>c < 8. \<forall>r < n. cell t c r = nsec3_cell n chain c r" using nsec3_trace_cells [OF assms] by blast
  have n: "0 < n" using assms(2,4) by (cases chain) simp_all
  have "air_trace_cyclic ed Nsec3Chain t \<longleftrightarrow> (\<forall>r < n. air_row_ok ed Nsec3Chain t r ((r + 1) mod n))"
    using trace_shape_hd [OF t(2)] by (auto simp: air_trace_cyclic_def list_all_iff)
  also have "\<dots> \<longleftrightarrow> (\<forall>r < n. \<forall>k < 4. nsec3_cell n chain k ((r + 1) mod n) = nsec3_cell n chain (4 + k) r)"
    using nsec3_row_ok [OF t(2)] t(3) n by simp
  also have "\<dots> \<longleftrightarrow> (\<forall>r < n. (Suc r < length chain \<longrightarrow> limbs_cong (fst (chain ! Suc r)) (snd (chain ! r))) \<and>
      (Suc r = n \<and> length chain = n \<longrightarrow> limbs_cong (fst (hd chain)) (snd (last chain))))"
    using nsec3_link [OF assms(2-4)] by simp
  also have "\<dots> \<longleftrightarrow> (\<forall>i. Suc i < length chain \<longrightarrow> limbs_cong (fst (chain ! Suc i)) (snd (chain ! i))) \<and>
      (length chain = n \<longrightarrow> limbs_cong (fst (hd chain)) (snd (last chain)))"
  proof (intro iffI conjI allI impI)
    fix i assume a: "Suc i < length chain" "\<forall>r < n. (Suc r < length chain \<longrightarrow> limbs_cong (fst (chain ! Suc r)) (snd (chain ! r))) \<and>
      (Suc r = n \<and> length chain = n \<longrightarrow> limbs_cong (fst (hd chain)) (snd (last chain)))"
    then have "i < n" using assms(4) by simp
    then show "limbs_cong (fst (chain ! Suc i)) (snd (chain ! i))" using a by blast
  next
    assume a: "length chain = n" "\<forall>r < n. (Suc r < length chain \<longrightarrow> limbs_cong (fst (chain ! Suc r)) (snd (chain ! r))) \<and>
      (Suc r = n \<and> length chain = n \<longrightarrow> limbs_cong (fst (hd chain)) (snd (last chain)))"
    obtain r where "n = Suc r" using n by (cases n) simp_all
    then show "limbs_cong (fst (hd chain)) (snd (last chain))" using a by blast
  qed blast+
  finally show ?thesis using t(1) by blast
qed

definition no_ed :: ed_stub where
  "no_ed = \<lparr>ed_width = 0, ed_constraints = 0, ed_eval = \<lambda>_ _ _. [], ed_trace = \<lambda>_. None\<rparr>"

text \<open>An open chain of one record, next hash 1 and owner hash 0, in a trace of two rows.\<close>

lemma nsec3_constraints_iff_witness:
  "\<exists>t. build_nsec3_chain_trace 2 [([0, 0, 0, 0], [1, 0, 0, 0])] = Some t \<and> air_trace_cyclic no_ed Nsec3Chain t"
proof -
  have "is_power_of_two 2" using is_power_of_two_pow [of 1] by simp
  from nsec3_constraints_iff [OF this, of "[([0, 0, 0, 0], [1, 0, 0, 0])]" no_ed] show ?thesis by simp
qed

section \<open>The registry\<close>

lemma default_chain_shape:
  "length (default_nsec3_chain n) = n" "\<forall>(p, q) \<in> set (default_nsec3_chain n). length p = 4 \<and> length q = 4"
  by (auto simp: default_nsec3_chain_def Let_def)

lemma default_chain_linked:
  "Suc i < n \<Longrightarrow> fst (default_nsec3_chain n ! Suc i) = snd (default_nsec3_chain n ! i)"
  by (simp add: default_nsec3_chain_def Let_def)

lemma nsec3_default_valid:
  assumes "is_power_of_two n" "2 \<le> n"
  shows "\<exists>t. build_nsec3_chain_trace n (default_nsec3_chain n) = Some t \<and> trace_shape 8 n t \<and> air_trace_valid ed Nsec3Chain t"
proof -
  let ?c = "default_nsec3_chain n"
  have ne: "?c \<noteq> []" using assms(2) default_chain_shape(1) [of n] by (metis list.size(3) not_numeral_le_zero)
  obtain t where t: "build_nsec3_chain_trace n ?c = Some t" "trace_shape 8 n t" "\<forall>c < 8. \<forall>r < n. cell t c r = nsec3_cell n ?c c r"
    using nsec3_trace_cells [OF assms(1) ne default_chain_shape(2)] default_chain_shape(1) [of n] by auto
  have "air_row_ok ed Nsec3Chain t r (Suc r)" if "Suc r < n" for r
  proof -
    have "\<forall>k < 4. nsec3_cell n ?c k (Suc r) = nsec3_cell n ?c (4 + k) r"
      using nsec3_link [OF ne default_chain_shape(2), of n r] default_chain_linked [OF that] that default_chain_shape(1) [of n]
      by (simp add: limbs_cong_def)
    then show ?thesis using nsec3_row_ok [OF t(2), of r "Suc r"] t(3) that by simp
  qed
  then show ?thesis using t trace_shape_hd [OF t(2)] by (auto simp: air_trace_valid_def list_all_iff)
qed

lemma fill_block_width: "length iv = 8 \<Longrightarrow> \<forall>row \<in> set (fill_block block iv). length row = WIDTH"
  by (auto simp: fill_block_def fill_rows_def length_sha_row)

lemma sha256_registry_valid:
  assumes "is_power_of_two n" "ROWS_PER_BLOCK \<le> n"
  shows "\<exists>t. build_sha256_dsksk_trace n = Some t \<and> trace_shape WIDTH n t \<and> air_trace_valid ed Sha256DsKsk t"
proof -
  obtain blocks where blocks: "pad_message_to_blocks [] = Some blocks" using padding_total by blast
  let ?f = "fill_block (blocks ! 0) sha_IV"
  define rows where "rows = ?f @ replicate (n - ROWS_PER_BLOCK) (?f ! 127)"
  have l: "length ?f = ROWS_PER_BLOCK" by (simp add: fill_block_def)
  have pos: "127 < ROWS_PER_BLOCK" by (simp add: ROWS_PER_BLOCK_def)
  have w: "\<forall>row \<in> set rows. length row = WIDTH"
    using fill_block_width [OF length_sha_IV, of "blocks ! 0"] nth_mem [of 127 ?f] l pos by (auto simp: rows_def)
  have len: "length rows = n" using assms(2) l by (simp add: rows_def)
  have col: "last (map (\<lambda>row. row ! c) ?f) = ?f ! 127 ! c" "length (map (\<lambda>row. row ! c) ?f) = ROWS_PER_BLOCK" for c
  proof -
    have "?f \<noteq> []" using l pos by auto
    then show "last (map (\<lambda>row. row ! c) ?f) = ?f ! 127 ! c"
      using last_conv_nth [of ?f] l by (simp add: last_map ROWS_PER_BLOCK_def)
  qed (simp add: l)
  have "build_sha256_dsksk_trace n = Some (columns WIDTH rows)"
    using assms blocks col
    by (simp add: build_sha256_dsksk_trace_def build_sha256_trace_def trace_columns_def columns_def rows_def map_replicate_const)
  moreover note columns_facts [OF w]
  moreover have "zeros (eval_sha256_constraints (rows ! r) (rows ! Suc r) r 1)" if "Suc r < n" for r
  proof (cases "r < 127")
    case True
    have "zeros (eval_sha256_constraints (?f ! r) (?f ! Suc r) r 1)"
      unfolding fill_block_def
      by (rule fill_rows_step [OF length_block_words refl length_sha_IV length_sha_IV True])
        (use True in \<open>simp_all add: ROWS_PER_BLOCK_def\<close>)
    then show ?thesis using True l pos by (simp add: rows_def nth_append ROWS_PER_BLOCK_def)
  next
    case False
    obtain s hs where sh: "length s = 8" "length hs = 8" "?f ! 127 = sha_row 127 (message_schedule (block_words (blocks ! 0))) s hs"
      using fill_block_shape [OF length_sha_IV pos] by metis
    have "rows ! r = ?f ! 127" "rows ! Suc r = ?f ! 127"
      using False l that by (cases "r = 127"; simp add: rows_def nth_append ROWS_PER_BLOCK_def)+
    moreover have "r mod ROWS_PER_BLOCK = 127 \<or> 1 \<le> r div ROWS_PER_BLOCK"
      using False by (cases "r = 127") (simp_all add: ROWS_PER_BLOCK_def less_eq_div_iff_mult_less_eq)
    ultimately show ?thesis using sha_row_last [OF sh(1,2,1) disjI1 [OF refl]] sh(3) by simp
  qed
  ultimately show ?thesis
    using trace_shape_hd [of WIDTH n "columns WIDTH rows"] len
    by (auto simp: air_trace_valid_def air_row_ok_def list_all_iff WIDTH_def)
qed

lemma iterated_valid:
  assumes "trace_shape w n t" "0 < w"
    and "\<And>r. Suc r < n \<Longrightarrow> zeros (evaluate_constraints ed air (trace_row t r) (trace_row t (Suc r)) r)"
  shows "air_trace_valid ed air t"
  using trace_shape_hd [OF assms(1,2)] assms(3) by (auto simp: air_trace_valid_def air_row_ok_def list_all_iff)

text \<open>C21: Every registry entry but the Ed25519 one builds, for every admissible height, a trace of the declared
  width and height that satisfies its constraints on every transition but the wrap.\<close>

theorem registry_traces_valid:
  assumes "air \<noteq> Ed25519ZskKsk" "2 \<le> n"
    and "air = Nsec3Chain \<or> air = Sha256DsKsk \<Longrightarrow> is_power_of_two n" "air = Sha256DsKsk \<Longrightarrow> ROWS_PER_BLOCK \<le> n"
  shows "\<exists>t. build_execution_trace ed air n = Some t \<and> trace_shape (air_width ed air) n t \<and> air_trace_valid ed air t"
proof -
  have "\<exists>t. build_air_trace ed air n = Some t \<and> trace_shape (air_width ed air) n t \<and> air_trace_valid ed air t"
  proof (cases air)
    case Fibonacci
    then show ?thesis using fibonacci.shape fibonacci.rows_satisfied
      by (auto simp: build_fibonacci_trace_def intro!: iterated_valid [OF fibonacci.shape])
  next
    case PoseidonChain
    then show ?thesis using poseidon.shape poseidon.rows_satisfied
      by (auto simp: build_poseidon_chain_trace_def intro!: iterated_valid [OF poseidon.shape])
  next
    case MerklePath
    then show ?thesis using poseidon.shape poseidon.rows_satisfied
      by (auto simp: build_poseidon_chain_trace_def intro!: iterated_valid [OF poseidon.shape])
  next
    case RegisterMachine
    have "air_trace_valid ed RegisterMachine (build_register_machine_trace n)"
      unfolding build_register_machine_trace_def using registers.rows_satisfied
      by (intro iterated_valid [OF registers.shape]) (simp_all only: evaluate_constraints.simps zero_less_numeral)
    then show ?thesis using registers.shape [of n, folded build_register_machine_trace_def] RegisterMachine by simp
  next
    case CairoSimple
    then show ?thesis using cairo.shape cairo.rows_satisfied
      by (auto simp: build_cairo_simple_trace_def intro!: iterated_valid [OF cairo.shape])
  next
    case AgeRange32
    then show ?thesis using age_range.shape age_range.rows_satisfied
      by (auto simp: build_age_range_trace_def intro!: iterated_valid [OF age_range.shape])
  next
    case HashRollup
    then show ?thesis using rollup.shape rollup.rows_satisfied
      by (auto simp: build_hash_rollup_trace_def intro!: iterated_valid [OF rollup.shape])
  next
    case Nsec3Chain
    then show ?thesis using nsec3_default_valid [OF _ assms(2), of ed] assms(3) by simp
  next
    case Sha256DsKsk
    then show ?thesis using sha256_registry_valid [of n ed] assms(3,4) by simp
  qed (use assms(1) in simp)
  then show ?thesis using assms(2) by (simp add: build_execution_trace_def)
qed

lemma registry_traces_valid_witness:
  "\<exists>t. build_execution_trace no_ed HashRollup 2 = Some t \<and> trace_shape (air_width no_ed HashRollup) 2 t \<and>
     air_trace_valid no_ed HashRollup t"
  by (rule registry_traces_valid) simp_all

section \<open>Evaluators read only declared columns\<close>

definition agree :: "nat \<Rightarrow> gf list \<Rightarrow> gf list \<Rightarrow> bool" where
  "agree w xs ys \<longleftrightarrow> (\<forall>c < w. xs ! c = ys ! c)"

lemma agreeD: "agree w xs ys \<Longrightarrow> c < w \<Longrightarrow> xs ! c = ys ! c"
  by (simp add: agree_def)

lemma pack_agree: "agree 756 cur cur' \<Longrightarrow> off + 31 < 756 \<Longrightarrow> pack cur off = pack cur' off"
  unfolding pack_def by (intro arg_cong [of _ _ sum_list] map_cong refl) (simp add: agreeD)

lemma sigma_agree:
  assumes "agree 756 cur cur'" "inp + 31 < 756" "off_t + 31 < 756" "off_bit + 31 < 756" "off_w < 756"
    and "\<And>i. i < 32 \<Longrightarrow> third i = third' i"
  shows "sigma_cons cur inp off_t off_bit off_w r1 r2 third = sigma_cons cur' inp off_t off_bit off_w r1 r2 third'"
proof -
  have m: "inp + (i + r) mod 32 < 756" for i r
    using assms(2) mod_less_divisor [of 32 "i + r"] by linarith
  show ?thesis
    unfolding sigma_cons_def using assms pack_agree [OF assms(1)]
    by (intro arg_cong2 [of _ _ _ _ append] map_cong refl) (simp_all add: agreeD [OF assms(1)] agreeD [OF assms(1) m] del: upt_rec_numeral)
qed

lemma third_agree:
  assumes "agree 756 cur cur'" "inp + 31 < 756"
  shows "rot_bit cur inp r3 i = rot_bit cur' inp r3 i" "shift_bit cur inp r3 i = shift_bit cur' inp r3 i"
proof -
  have m: "inp + (i + r) mod 32 < 756" for i r
    using assms(2) mod_less_divisor [of 32 "i + r"] by linarith
  show "rot_bit cur inp r3 i = rot_bit cur' inp r3 i" "shift_bit cur inp r3 i = shift_bit cur' inp r3 i"
    using assms m by (simp_all add: rot_bit_def shift_bit_def agreeD)
qed

lemma blocks_agree:
  assumes "agree 756 cur cur'" "agree 756 nxt nxt'"
  shows "bit_cons cur = bit_cons cur'" "decomposition_cons cur = decomposition_cons cur'"
    "ch_cons cur = ch_cons cur'" "maj_cons cur = maj_cons cur'" "t1_cons cur k = t1_cons cur' k" "t2_cons cur = t2_cons cur'"
    "shift_cons b cur nxt = shift_cons b cur' nxt'" "new_state_cons b cur nxt = new_state_cons b cur' nxt'"
    "h_cons b cur nxt = h_cons b cur' nxt'" "window_cons cur nxt = window_cons cur' nxt'"
    "schedule_cons b cur nxt = schedule_cons b cur' nxt'"
proof -
  note a = agreeD [OF assms(1)] agreeD [OF assms(2)] pack_agree [OF assms(1)]
  show "bit_cons cur = bit_cons cur'"
    unfolding bit_cons_def by (intro arg_cong [of _ _ concat] map_cong refl) (auto simp: a del: upt_rec_numeral)
  show "maj_cons cur = maj_cons cur'"
    unfolding maj_cons_def
    by (intro arg_cong2 [of _ _ _ _ append] arg_cong [of _ _ concat] map_cong refl) (simp_all add: a del: upt_rec_numeral)
  show "ch_cons cur = ch_cons cur'"
    unfolding ch_cons_def by (intro arg_cong2 [of _ _ _ _ append] map_cong refl) (simp_all add: a del: upt_rec_numeral)
  show "h_cons b cur nxt = h_cons b cur' nxt'"
    unfolding h_cons_def by (intro if_cong map_cong refl) (simp_all add: a del: upt_rec_numeral)
  show "window_cons cur nxt = window_cons cur' nxt'"
    unfolding window_cons_def by (intro arg_cong2 [of _ _ _ _ append] map_cong refl) (simp_all add: a del: upt_rec_numeral)
qed (simp_all add: agreeD [OF assms(1)] agreeD [OF assms(2)] pack_agree [OF assms(1)]
      decomposition_cons_def t1_cons_def t2_cons_def shift_cons_def new_state_cons_def schedule_cons_def Let_def)

lemma eval_sha256_agree:
  assumes "agree 756 cur cur'" "agree 756 nxt nxt'"
  shows "eval_sha256_constraints cur nxt row n_blocks = eval_sha256_constraints cur' nxt' row n_blocks"
  unfolding eval_sha256_constraints_def Let_def
  by (intro arg_cong2 [of _ _ _ _ append] blocks_agree [OF assms] sigma_agree [OF assms(1)] third_agree [OF assms(1)]) simp_all

lemma eval_poseidon_agree:
  assumes "agree 16 cur cur'" "agree 16 nxt nxt'"
  shows "eval_poseidon_constraints cur nxt row = eval_poseidon_constraints cur' nxt' row"
  unfolding eval_poseidon_constraints_def Let_def
  by (intro arg_cong2 [of _ _ _ _ append] map_cong refl arg_cong2 [of _ _ _ _ minus] arg_cong [of _ _ sum_list])
     (simp_all add: agreeD [OF assms(1)] agreeD [OF assms(2)] del: upt_rec_numeral)

text \<open>C23: Every evaluator but the Ed25519 one fits its declaration: it returns the declared number of values and
  reads no cell beyond the declared width, so rows that agree on the declared columns have the
  same constraint values.\<close>

theorem registry_entries_typed:
  assumes "air \<noteq> Ed25519ZskKsk" "\<forall>c < air_width ed air. cur ! c = cur' ! c \<and> nxt ! c = nxt' ! c"
  shows "evaluate_constraints ed air cur nxt row = evaluate_constraints ed air cur' nxt' row \<and>
    length (evaluate_constraints ed air cur nxt row) = num_constraints ed air"
proof
  have a: "agree (air_width ed air) cur cur'" "agree (air_width ed air) nxt nxt'" using assms(2) by (simp_all add: agree_def)
  show "evaluate_constraints ed air cur nxt row = evaluate_constraints ed air cur' nxt' row"
    using assms(1) a agreeD [OF a(1)] agreeD [OF a(2)]
    by (cases air) (simp_all add: eval_fibonacci_constraints_def eval_poseidon_agree eval_register_constraints_def
      eval_cairo_simple_constraints_def eval_age_range_constraints_def eval_hash_rollup_constraints_def
      eval_nsec3_chain_constraints_def eval_sha256_agree WIDTH_def)
  show "length (evaluate_constraints ed air cur nxt row) = num_constraints ed air"
    using assms(1)
    by (cases air) (simp_all add: eval_fibonacci_constraints_def eval_poseidon_constraints_def eval_register_constraints_def
      eval_cairo_simple_constraints_def eval_age_range_constraints_def eval_hash_rollup_constraints_def
      eval_nsec3_chain_constraints_def length_eval_sha256 NUM_CONSTRAINTS_def Let_def)
qed

lemma registry_entries_typed_witness:
  "evaluate_constraints no_ed HashRollup [1, 2, 3, 9, 5] [2, 0, 11, 121] 0 =
     evaluate_constraints no_ed HashRollup [1, 2, 3, 9] [2, 0, 11, 121, 7] 0 \<and>
   length (evaluate_constraints no_ed HashRollup [1, 2, 3, 9, 5] [2, 0, 11, 121] 0) = num_constraints no_ed HashRollup"
  by (rule registry_entries_typed) (simp_all add: less_Suc_eq numeral_eq_Suc)

end
