(* ===== verification/Air_Merge.thy ===== *)
theory Air_Merge
  imports Air_Props Gold_Tower
begin

text \<open>
  The composition of AIR constraints into one codeword: \<open>lde_trace_columns\<close> of
  \<open>deep_ali/src/trace_import.rs\<close> and \<open>poly_div_zh\<close>, \<open>deep_ali_merge_general\<close>, \<open>deep_ali_merge_sha256\<close>
  and \<open>deep_ali_merge_per_row_no_layout\<close> of \<open>deep_ali/src/lib.rs\<close>, over the transforms of \<open>Gold_Tower\<close>.
  How the crate is built is the record \<open>build_cfg\<close>: debug assertions, the feature \<open>parallel\<close>, the
  number of threads. \<open>None\<close> is a panic or an error.
\<close>

section \<open>Domains\<close>

text \<open>A domain of size n is that of the next power of two; both transforms pad their input to it.\<close>

definition resize :: "nat \<Rightarrow> gf list \<Rightarrow> gf list" where
  "resize n xs = take n xs @ replicate (n - length xs) 0"

definition domain_ok :: "nat \<Rightarrow> bool" where
  "domain_ok n \<longleftrightarrow> next_power_of_two n \<le> 2 ^ TWO_ADICITY"

definition dom_fft :: "nat \<Rightarrow> gf list \<Rightarrow> gf list" where
  "dom_fft n xs = gold_fft (resize (next_power_of_two n) xs)"

definition dom_ifft :: "nat \<Rightarrow> gf list \<Rightarrow> gf list" where
  "dom_ifft n xs = gold_ifft (resize (next_power_of_two n) xs)"

definition lde_trace_columns :: "gf list list \<Rightarrow> nat \<Rightarrow> nat \<Rightarrow> gf list list option" where
  "lde_trace_columns cols trace_len blow =
     (if cols = [] then None
      else if \<not> list_all (\<lambda>col. length col = trace_len) cols then None
      else if \<not> is_power_of_two trace_len then None
      else if blow < 2 \<or> \<not> is_power_of_two blow then None
      else let n0 = trace_len * blow
        in if \<not> (domain_ok trace_len \<and> domain_ok n0) then None
           else Some (map (\<lambda>col. dom_fft n0 (resize n0 (dom_ifft trace_len col))) cols))"

section \<open>Division by the vanishing polynomial\<close>

record build_cfg =
  debug_assertions :: bool
  parallel_feature :: bool
  num_threads :: nat

definition or0 :: "gf list \<Rightarrow> nat \<Rightarrow> gf" where
  "or0 q k = (if k < length q then q ! k else 0)"

definition zh_loop :: "gf list \<Rightarrow> nat \<Rightarrow> gf list" where
  "zh_loop dividend m = (let n = length dividend
     in fold (\<lambda>k q. q[k - m := dividend ! k + or0 q k]) (rev [m..<n]) (replicate (n - m) 0))"

definition poly_div_zh :: "build_cfg \<Rightarrow> gf list \<Rightarrow> nat \<Rightarrow> gf list option" where
  "poly_div_zh cfg dividend m =
     (let n = length dividend
      in if n \<le> m then (if debug_assertions cfg \<and> \<not> list_all (\<lambda>c. c = 0) dividend then None else Some [0])
         else let q = zh_loop dividend m
           in if debug_assertions cfg \<and> \<not> list_all (\<lambda>k. dividend ! k + or0 q k = 0) [0..<min m n] then None else Some q)"

section \<open>Merging the constraints\<close>

definition enable_parallel :: "build_cfg \<Rightarrow> nat \<Rightarrow> bool" where
  "enable_parallel cfg len \<longleftrightarrow> parallel_feature cfg \<and> 4096 \<le> len \<and> 1 < num_threads cfg"

text \<open>Steps 3 to 5 of every merge: coefficients, division, evaluation.\<close>

definition compose :: "build_cfg \<Rightarrow> gf list \<Rightarrow> nat \<Rightarrow> gf list option" where
  "compose cfg phi_eval n_trace = (let n = length phi_eval
     in if \<not> domain_ok n then None
        else map_option (\<lambda>c. dom_fft n (resize n c)) (poly_div_zh cfg (dom_ifft n phi_eval) n_trace))"

definition lde_row :: "gf list list \<Rightarrow> nat \<Rightarrow> gf list" where
  "lde_row lde i = map (\<lambda>col. col ! i) lde"

definition constraint_values :: "(gf list \<Rightarrow> gf list \<Rightarrow> nat \<Rightarrow> gf list) \<Rightarrow> gf list list \<Rightarrow> nat \<Rightarrow> nat \<Rightarrow> nat \<Rightarrow> gf list" where
  "constraint_values eval lde n blow i = eval (lde_row lde i) (lde_row lde ((i + blow) mod n)) (i div blow)"

definition evaluate_all_constraints_on_lde ::
  "(gf list \<Rightarrow> gf list \<Rightarrow> nat \<Rightarrow> gf list) \<Rightarrow> gf list list \<Rightarrow> nat \<Rightarrow> nat \<Rightarrow> nat \<Rightarrow> gf list list" where
  "evaluate_all_constraints_on_lde eval lde k n blow =
     map (\<lambda>j. map (\<lambda>i. constraint_values eval lde n blow i ! j) [0..<n]) [0..<k]"

definition combine :: "gf list \<Rightarrow> gf list list \<Rightarrow> nat \<Rightarrow> gf list" where
  "combine coeffs evals n = map (\<lambda>i. \<Sum>j\<leftarrow>[0..<length coeffs]. coeffs ! j * evals ! j ! i) [0..<n]"

text \<open>Step 2 as the two merges have it: the sum is computed in the parallel branch, or in the code that is only
  compiled without the feature \<open>parallel\<close>.\<close>

definition phi_of :: "build_cfg \<Rightarrow> gf list \<Rightarrow> gf list list \<Rightarrow> nat \<Rightarrow> gf list" where
  "phi_of cfg coeffs evals n =
     (let phi_eval = replicate n 0;
          phi_eval = (if enable_parallel cfg n then combine coeffs evals n else phi_eval)
      in if parallel_feature cfg then phi_eval else combine coeffs evals n)"

record composition_info =
  phi_degree_bound :: nat
  quotient_degree_bound :: nat
  ci_num_constraints :: nat
  ci_max_constraint_degree :: nat
  ci_trace_width :: nat

definition composition_info_of :: "nat \<Rightarrow> nat \<Rightarrow> nat \<Rightarrow> nat \<Rightarrow> composition_info" where
  "composition_info_of max_deg n_trace k w = \<lparr>phi_degree_bound = max_deg * n_trace,
     quotient_degree_bound = max_deg * n_trace - n_trace, ci_num_constraints = k,
     ci_max_constraint_degree = max_deg, ci_trace_width = w\<rparr>"

definition merge_shape_ok :: "gf list list \<Rightarrow> gf list \<Rightarrow> nat \<Rightarrow> nat \<Rightarrow> nat \<Rightarrow> bool" where
  "merge_shape_ok lde coeffs w k n \<longleftrightarrow> length lde = w \<and> length coeffs = k \<and> list_all (\<lambda>col. length col = n) lde"

definition deep_ali_merge_general ::
  "build_cfg \<Rightarrow> ed_stub \<Rightarrow> gf list list \<Rightarrow> gf list \<Rightarrow> air_type \<Rightarrow> nat \<Rightarrow> nat \<Rightarrow> (gf list \<times> composition_info) option" where
  "deep_ali_merge_general cfg ed lde coeffs air n_trace blow =
     (let w = air_width ed air; k = num_constraints ed air; n = n_trace * blow
      in if \<not> merge_shape_ok lde coeffs w k n then None else do {
        let evals = evaluate_all_constraints_on_lde (evaluate_constraints ed air) lde k n blow;
        c_eval \<leftarrow> compose cfg (phi_of cfg coeffs evals n) n_trace;
        Some (c_eval, composition_info_of (max_constraint_degree air) n_trace k w) })"

definition deep_ali_merge_sha256 ::
  "build_cfg \<Rightarrow> gf list list \<Rightarrow> gf list \<Rightarrow> nat \<Rightarrow> nat \<Rightarrow> nat \<Rightarrow> (gf list \<times> composition_info) option" where
  "deep_ali_merge_sha256 cfg lde coeffs n_trace blow n_blocks =
     (let n = n_trace * blow
      in if \<not> merge_shape_ok lde coeffs WIDTH NUM_CONSTRAINTS n then None else do {
        let evals = evaluate_all_constraints_on_lde (\<lambda>cur nxt row. eval_sha256_constraints cur nxt row n_blocks)
          lde NUM_CONSTRAINTS n blow;
        c_eval \<leftarrow> compose cfg (phi_of cfg coeffs evals n) n_trace;
        Some (c_eval, composition_info_of 2 n_trace NUM_CONSTRAINTS WIDTH) })"

text \<open>The merge of the sub-AIRs gates the last trace row and sums in either branch; \<open>n_trace - 1\<close> underflows
  for an empty trace, which a debug build notices.\<close>

definition eval_gated :: "(gf list \<Rightarrow> gf list \<Rightarrow> nat \<Rightarrow> gf list) \<Rightarrow> gf list list \<Rightarrow> gf list \<Rightarrow> nat \<Rightarrow> nat \<Rightarrow> nat \<Rightarrow> gf" where
  "eval_gated eval_per_row lde coeffs n_trace blow i =
     (if n_trace - 1 \<le> i div blow then 0
      else \<Sum>j\<leftarrow>[0..<length coeffs]. coeffs ! j * constraint_values eval_per_row lde (n_trace * blow) blow i ! j)"

definition deep_ali_merge_per_row_no_layout ::
  "build_cfg \<Rightarrow> gf list list \<Rightarrow> gf list \<Rightarrow> nat \<Rightarrow> nat \<Rightarrow> nat \<Rightarrow> nat \<Rightarrow> (gf list \<Rightarrow> gf list \<Rightarrow> nat \<Rightarrow> gf list)
    \<Rightarrow> (gf list \<times> composition_info) option" where
  "deep_ali_merge_per_row_no_layout cfg lde coeffs n_trace blow w k eval_per_row =
     (let n = n_trace * blow
      in if \<not> merge_shape_ok lde coeffs w k n \<or> debug_assertions cfg \<and> n_trace = 0 then None else do {
        c_eval \<leftarrow> compose cfg (map (eval_gated eval_per_row lde coeffs n_trace blow) [0..<n]) n_trace;
        Some (c_eval, composition_info_of 2 n_trace k w) })"

text \<open>The combination coefficients of \<open>swarm-dns/src/prover.rs\<close>.\<close>

definition comb_coeffs :: "nat \<Rightarrow> gf list" where
  "comb_coeffs num = map (\<lambda>i. of_nat (i + 1)) [0..<num]"

section \<open>Division\<close>

lemma length_zh_fold:
  "length (fold (\<lambda>k q. q[k - m := dividend ! k + or0 q k]) ks q) = length q"
  by (induction ks arbitrary: q) simp_all

lemma length_zh_loop [simp]: "length (zh_loop dividend m) = length dividend - m"
  by (simp add: zh_loop_def Let_def length_zh_fold)

lemma zh_fold_nth:
  assumes "0 < m" "m \<le> j" "j \<le> n" "length q = n - m" "n = length dividend"
  defines "q' \<equiv> fold (\<lambda>k q. q[k - m := dividend ! k + or0 q k]) (rev [j..<n]) q"
  shows "\<forall>k. j \<le> k \<and> k < n \<longrightarrow> q' ! (k - m) = dividend ! k + or0 q' k"
  using assms(2,3) unfolding q'_def
proof (induction "n - j" arbitrary: j)
  case (Suc d)
  let ?step = "\<lambda>k q. q[k - m := dividend ! k + or0 q k]"
  let ?q = "fold ?step (rev [Suc j..<n]) q"
  have j: "j < n" using Suc.hyps(2) by simp
  then have eq: "fold ?step (rev [j..<n]) q = ?q[j - m := dividend ! j + or0 ?q j]"
    by (simp add: upt_conv_Cons)
  have l: "length ?q = n - m" using assms(4) by (simp add: length_zh_fold)
  have IH: "\<forall>k. Suc j \<le> k \<and> k < n \<longrightarrow> ?q ! (k - m) = dividend ! k + or0 ?q k"
    using Suc.hyps(1) [of "Suc j"] Suc.hyps(2) Suc.prems by simp
  show ?case
  proof (intro allI impI)
    fix k assume k: "j \<le> k \<and> k < n"
    have r: "or0 (?q[j - m := x]) k = or0 ?q k" for x
      using assms(1) k Suc.prems(1) l by (auto simp: or0_def nth_list_update)
    have "(?q[j - m := x]) ! (k - m) = (if k = j then x else ?q ! (k - m))" for x
      using k Suc.prems(1) l j by (auto simp: nth_list_update)
    then show "fold ?step (rev [j..<n]) q ! (k - m) = dividend ! k + or0 (fold ?step (rev [j..<n]) q) k"
      unfolding eq r using IH k by (cases "k = j") simp_all
  qed
qed auto

lemma zh_loop_nth:
  assumes "0 < m" "m \<le> k" "k < length dividend"
  shows "zh_loop dividend m ! (k - m) = dividend ! k + or0 (zh_loop dividend m) k"
  using zh_fold_nth [OF assms(1) le_refl, of "length dividend" "replicate (length dividend - m) 0" dividend] assms
  by (simp add: zh_loop_def Let_def)

text \<open>Division with remainder, as a polynomial identity.\<close>

definition zh_rem :: "gf list \<Rightarrow> nat \<Rightarrow> nat \<Rightarrow> gf" where
  "zh_rem dividend m k = dividend ! k + or0 (zh_loop dividend m) k"

lemma sum_or0: "length q \<le> N \<Longrightarrow> (\<Sum>k < N. or0 q k * x ^ k) = (\<Sum>k < length q. q ! k * x ^ k)"
proof -
  assume "length q \<le> N"
  then have "(\<Sum>k < length q. or0 q k * x ^ k) = (\<Sum>k < N. or0 q k * x ^ k)"
    by (intro sum.mono_neutral_left) (auto simp: or0_def)
  then show ?thesis by (simp add: or0_def)
qed

lemma zh_division:
  assumes m: "0 < m" "m \<le> length dividend"
  defines "q \<equiv> zh_loop dividend m" and "n \<equiv> length dividend"
  shows "(\<Sum>k < n. dividend ! k * x ^ k) =
    (\<Sum>j < n - m. q ! j * x ^ j) * (x ^ m - 1) + (\<Sum>k < m. zh_rem dividend m k * x ^ k)"
proof -
  have lq: "length q = n - m" by (simp add: q_def n_def)
  have hi: "dividend ! (m + j) = q ! j - or0 q (m + j)" if "j < n - m" for j
    using zh_loop_nth [OF m(1), of "m + j" dividend] that by (simp add: q_def n_def)
  have split: "(\<Sum>k < n. f k) = (\<Sum>k < m. f k) + (\<Sum>j < n - m. f (m + j))" for f :: "nat \<Rightarrow> gf"
  proof -
    have "(\<Sum>k < n. f k) = (\<Sum>k = 0..<m. f k) + (\<Sum>k = m..<n. f k)"
      using m(2) by (simp add: n_def lessThan_atLeast0 sum.atLeastLessThan_concat)
    also have "(\<Sum>k = m..<n. f k) = (\<Sum>j = 0..<n - m. f (m + j))"
      using sum.shift_bounds_nat_ivl [of f 0 m "n - m"] m(2) by (simp add: n_def add.commute)
    finally show ?thesis by (simp add: lessThan_atLeast0)
  qed
  have "(\<Sum>k < n. dividend ! k * x ^ k) = (\<Sum>k < m. dividend ! k * x ^ k) + (\<Sum>j < n - m. (q ! j - or0 q (m + j)) * x ^ (m + j))"
    unfolding split by (simp add: hi)
  also have "(\<Sum>j < n - m. (q ! j - or0 q (m + j)) * x ^ (m + j)) =
      x ^ m * (\<Sum>j < n - m. q ! j * x ^ j) - (\<Sum>j < n - m. or0 q (m + j) * x ^ (m + j))"
    by (simp add: sum_subtractf sum_distrib_left power_add algebra_simps)
  also have "(\<Sum>j < n - m. or0 q (m + j) * x ^ (m + j)) = (\<Sum>k < n. or0 q k * x ^ k) - (\<Sum>k < m. or0 q k * x ^ k)"
    unfolding split [of "\<lambda>k. or0 q k * x ^ k"] by simp
  also have "(\<Sum>k < n. or0 q k * x ^ k) = (\<Sum>j < n - m. q ! j * x ^ j)"
    using sum_or0 [of q n x] lq by simp
  finally show ?thesis
    by (simp add: zh_rem_def q_def [symmetric] ring_distribs sum.distrib)
qed

end
