(* ===== verification/Merge_Props.thy ===== *)
theory Merge_Props
  imports Air_Merge
begin

text \<open>
  What the composed codeword says of a trace: it is an exact quotient if and only if the linear
  combination of the constraints vanishes on every row, the wrap included; and two ways in which
  the composition of a wrong trace goes unnoticed.
\<close>

section \<open>The quotient\<close>

lemma resize_id [simp]: "length xs = n \<Longrightarrow> resize n xs = xs"
  by (simp add: resize_def)

lemma length_resize [simp]: "length (resize n xs) = n"
  by (simp add: resize_def)

lemma resize_nth: "j < n \<Longrightarrow> resize n xs ! j = or0 xs j"
  by (simp add: resize_def or0_def nth_append)

lemma domain_ok_pow: "k \<le> 32 \<Longrightarrow> domain_ok (2 ^ k)"
proof -
  assume "k \<le> 32"
  then have "(2 :: nat) ^ k \<le> 2 ^ 32" by (rule power_increasing) simp
  then show ?thesis by (simp only: domain_ok_def next_power_of_two_pow TWO_ADICITY_def)
qed

lemma dom_fft_nth:
  assumes "k \<le> 32" "gold_gen (2 ^ k) = Some g" "length xs \<le> 2 ^ k" "i < 2 ^ k"
  shows "dom_fft (2 ^ k) (resize (2 ^ k) xs) ! i = (\<Sum>j < length xs. xs ! j * (g ^ i) ^ j)"
proof -
  have "dom_fft (2 ^ k) (resize (2 ^ k) xs) ! i = (\<Sum>j < 2 ^ k. resize (2 ^ k) xs ! j * g ^ (i * j))"
    using assms gold_fft_eq [of "resize (2 ^ k) xs" g] by (simp add: dom_fft_def)
  also have "\<dots> = (\<Sum>j < 2 ^ k. or0 xs j * (g ^ i) ^ j)" by (intro sum.cong) (simp_all add: resize_nth power_mult)
  finally show ?thesis using sum_or0 [OF assms(3)] by simp
qed

lemma length_dom_fft: "k \<le> 32 \<Longrightarrow> length (dom_fft (2 ^ k) xs) = 2 ^ k"
  using gold_gen_pow [of k] by (simp add: dom_fft_def gold_fft_def)

lemma power_zero_sum:
  assumes p: "prim_root h (2 ^ a)" "a \<le> 32" and z: "\<And>j. j < 2 ^ a \<Longrightarrow> (\<Sum>k < 2 ^ a. r k * (h ^ j) ^ k) = 0" and l: "l < 2 ^ a"
  shows "r l = (0 :: gf)"
proof -
  have "(\<Sum>i < 2 ^ a. 0 * inverse h ^ (i * l)) = of_nat (2 ^ a) * r l"
    by (rule dft_inversion [OF p(1) l, of "\<lambda>_. 0" r]) (simp add: z power_mult)
  then have "of_nat (2 ^ a) * r l = 0" by simp
  then show ?thesis using gf_pow2_nonzero [OF p(2)] by (simp only: mult_eq_0_iff) simp
qed

text \<open>The quotient is exact if and only if the combined constraints vanish on the trace domain. Division
  drops the remainder: a release build returns a codeword in any case, a debug build panics
  exactly when the remainder is not zero. Here the trace has \<open>2 ^ a\<close> rows, the domain \<open>2 ^ (a + b)\<close>
  points, and row j of the trace is point \<open>j * 2 ^ b\<close>.\<close>

lemma quotient_exact:
  assumes "a + b \<le> 32" "0 < b" "length phi = 2 ^ (a + b)" "gold_gen (2 ^ (a + b)) = Some g"
  shows "\<exists>c. length c = 2 ^ (a + b) \<and>
    compose cfg phi (2 ^ a) = (if debug_assertions cfg \<and> (\<exists>j < 2 ^ a. phi ! (j * 2 ^ b) \<noteq> 0) then None else Some c) \<and>
    ((\<forall>i < 2 ^ (a + b). c ! i * ((g ^ i) ^ 2 ^ a - 1) = phi ! i) \<longleftrightarrow> (\<forall>j < 2 ^ a. phi ! (j * 2 ^ b) = 0))"
proof -
  define n m where "n = (2 :: nat) ^ (a + b)" and "m = (2 :: nat) ^ a"
  note nm = n_def [symmetric] m_def [symmetric]
  have mn: "n = m * 2 ^ b" "0 < m" by (simp_all add: n_def m_def power_add)
  have mn: "n = m * 2 ^ b" "m < n" "0 < m"
    using mn power_strict_increasing [of a "a + b" "2 :: nat"] assms(2) by (simp_all add: n_def m_def)
  define p where "p = gold_ifft phi"
  define q where "q = zh_loop p m"
  define R where "R = (\<lambda>x. \<Sum>k < m. zh_rem p m k * x ^ k)"
  define c where "c = dom_fft n (resize n q)"
  have lp: "length p = n" using length_gold_ifft [OF assms(1,3)] by (simp add: p_def n_def)
  have lq: "length q = n - m" by (simp add: q_def lp)
  have prim: "prim_root g n" using gold_gen_prim [OF assms(1,4)] by (simp add: n_def)
  have lc: "length c = n" using length_dom_fft [OF assms(1)] by (simp add: c_def n_def)
  have phi: "phi ! i = c ! i * ((g ^ i) ^ m - 1) + R (g ^ i)" if "i < n" for i
  proof -
    have "phi ! i = (\<Sum>l < n. p ! l * (g ^ i) ^ l)"
      using gold_ifft_interpolates [OF assms(1,4,3)] that by (simp add: p_def n_def power_mult)
    also have "\<dots> = (\<Sum>j < n - m. q ! j * (g ^ i) ^ j) * ((g ^ i) ^ m - 1) + R (g ^ i)"
      using zh_division [of m p "g ^ i"] mn lp by (simp add: q_def R_def)
    also have "(\<Sum>j < n - m. q ! j * (g ^ i) ^ j) = c ! i"
      using dom_fft_nth [OF assms(1,4), of q i] that lq by (simp add: c_def n_def)
    finally show ?thesis .
  qed
  have h: "prim_root (g ^ 2 ^ b) m" using root_of_power(2) [of g m "2 ^ b"] prim mn by simp
  have vanish: "phi ! (j * 2 ^ b) = R ((g ^ 2 ^ b) ^ j)" if "j < m" for j
  proof -
    have "(g ^ (j * 2 ^ b)) ^ m = (g ^ n) ^ j" by (simp only: power_mult [symmetric] mn(1)) (simp add: mult_ac)
    then have "(g ^ (j * 2 ^ b)) ^ m = 1" using prim by (simp add: prim_root_def)
    moreover have "g ^ (j * 2 ^ b) = (g ^ 2 ^ b) ^ j" by (simp only: power_mult [symmetric] mult.commute)
    ultimately show ?thesis using phi [of "j * 2 ^ b"] that mn(1) by simp
  qed
  have rem0: "(\<forall>k < m. zh_rem p m k = 0) \<longleftrightarrow> (\<forall>j < m. phi ! (j * 2 ^ b) = 0)"
  proof
    show "\<forall>k < m. zh_rem p m k = 0 \<Longrightarrow> \<forall>j < m. phi ! (j * 2 ^ b) = 0" using vanish by (simp add: R_def)
    assume "\<forall>j < m. phi ! (j * 2 ^ b) = 0"
    then have "(\<Sum>k < 2 ^ a. zh_rem p m k * ((g ^ 2 ^ b) ^ j) ^ k) = 0" if "j < 2 ^ a" for j
      using vanish [of j] that by (simp add: R_def m_def)
    then show "\<forall>k < m. zh_rem p m k = 0" using power_zero_sum [OF h [unfolded m_def]] assms(1) by (simp add: m_def)
  qed
  have "compose cfg phi m = (if debug_assertions cfg \<and> (\<exists>k < m. zh_rem p m k \<noteq> 0) then None else Some c)"
  proof -
    have "dom_ifft n phi = p" using assms(3) by (simp add: dom_ifft_def p_def n_def)
    moreover have "list_all (\<lambda>k. p ! k + or0 (zh_loop p m) k = 0) [0..<min m n] \<longleftrightarrow> (\<forall>k < m. zh_rem p m k = 0)"
      using mn(2) by (auto simp: list_all_iff zh_rem_def)
    ultimately show ?thesis
      using domain_ok_pow [OF assms(1)] assms(3) mn(2) lp
      by (simp add: compose_def poly_div_zh_def Let_def n_def [symmetric] q_def [symmetric] c_def)
  qed
  moreover have "(\<forall>i < n. c ! i * ((g ^ i) ^ m - 1) = phi ! i) \<longleftrightarrow> (\<forall>j < m. phi ! (j * 2 ^ b) = 0)"
  proof
    assume c: "\<forall>i < n. c ! i * ((g ^ i) ^ m - 1) = phi ! i"
    show "\<forall>j < m. phi ! (j * 2 ^ b) = 0"
    proof (intro allI impI)
      fix j assume j: "j < m"
      then have i: "j * 2 ^ b < n" using mn(1) by simp
      have "(g ^ (j * 2 ^ b)) ^ m = (g ^ n) ^ j" by (simp only: power_mult [symmetric] mn(1)) (simp add: mult_ac)
      then have "(g ^ (j * 2 ^ b)) ^ m = 1" using prim by (simp add: prim_root_def)
      then show "phi ! (j * 2 ^ b) = 0" using c i by (metis diff_self mult_zero_right)
    qed
  next
    assume "\<forall>j < m. phi ! (j * 2 ^ b) = 0"
    then have "R x = 0" for x using rem0 by (simp add: R_def)
    then show "\<forall>i < n. c ! i * ((g ^ i) ^ m - 1) = phi ! i" using phi by simp
  qed
  moreover have "(\<exists>k < m. zh_rem p m k \<noteq> 0) \<longleftrightarrow> (\<exists>j < m. phi ! (j * 2 ^ b) \<noteq> 0)" using rem0 by blast
  ultimately show ?thesis unfolding nm using lc by (intro exI [of _ c]) (simp only: simp_thms)
qed

section \<open>Low-degree extension\<close>

lemma lde_defined:
  assumes "a + b \<le> 32" "0 < b" "trace_shape w (2 ^ a) trace" "0 < w"
  shows "lde_trace_columns trace (2 ^ a) (2 ^ b) =
    Some (map (\<lambda>col. dom_fft (2 ^ (a + b)) (resize (2 ^ (a + b)) (dom_ifft (2 ^ a) col))) trace)"
proof -
  have "\<not> (2 :: nat) ^ b < 2" using power_increasing [of 1 b "2 :: nat"] assms(2) by simp
  moreover have "trace \<noteq> []" using assms(3,4) by (auto simp: trace_shape_def)
  ultimately show ?thesis
    using assms(3) domain_ok_pow [of a] domain_ok_pow [OF assms(1)] assms(1)
    by (simp add: lde_trace_columns_def trace_shape_def Let_def flip: power_add)
qed

text \<open>On the trace domain the extension has the cells of the trace.\<close>

lemma lde_nth:
  assumes "a + b \<le> 32" "length col = 2 ^ a" "j < 2 ^ a"
  shows "dom_fft (2 ^ (a + b)) (resize (2 ^ (a + b)) (dom_ifft (2 ^ a) col)) ! (j * 2 ^ b) = col ! j"
proof -
  have a: "a \<le> 32" using assms(1) by simp
  obtain g h where g: "gold_gen (2 ^ (a + b)) = Some g" and h: "gold_gen (2 ^ a) = Some h"
    and hg: "h = g ^ 2 ^ b"
  proof -
    have e: "(2 :: nat) ^ (32 - a) = 2 ^ (32 - (a + b)) * 2 ^ b" using assms(1) by (simp flip: power_add)
    show ?thesis
      using that [OF gold_gen_pow [OF assms(1)] gold_gen_pow [OF a]] unfolding e by (simp only: power_mult)
  qed
  have l: "length (gold_ifft col) = 2 ^ a" by (rule length_gold_ifft [OF a assms(2)])
  have i: "j * 2 ^ b < 2 ^ (a + b)" using assms(3) by (simp add: power_add)
  have "dom_fft (2 ^ (a + b)) (resize (2 ^ (a + b)) (dom_ifft (2 ^ a) col)) ! (j * 2 ^ b) =
      (\<Sum>k < 2 ^ a. gold_ifft col ! k * (g ^ (j * 2 ^ b)) ^ k)"
    using dom_fft_nth [OF assms(1) g _ i, of "gold_ifft col"] l assms(2) by (simp add: dom_ifft_def power_add)
  also have "\<dots> = (\<Sum>k < 2 ^ a. gold_ifft col ! k * h ^ (j * k))"
    by (simp add: hg flip: power_mult) (simp add: mult_ac)
  also have "\<dots> = col ! j" by (rule gold_ifft_interpolates [OF a h assms(2,3)])
  finally show ?thesis .
qed

lemma lde_row_trace_row:
  assumes "a + b \<le> 32" "0 < b" "trace_shape w (2 ^ a) trace" "0 < w" "lde_trace_columns trace (2 ^ a) (2 ^ b) = Some lde"
    and "j < 2 ^ a"
  shows "lde_row lde (j * 2 ^ b) = trace_row trace j"
  using lde_defined [OF assms(1-4)] lde_nth [OF assms(1) _ assms(6)] assms(3,5)
  by (auto simp: lde_row_def trace_row_def trace_shape_def list_all_iff)

lemma lde_shape:
  assumes "a + b \<le> 32" "0 < b" "trace_shape w (2 ^ a) trace" "0 < w" "lde_trace_columns trace (2 ^ a) (2 ^ b) = Some lde"
  shows "length lde = w" "list_all (\<lambda>col. length col = 2 ^ (a + b)) lde"
  using lde_defined [OF assms(1-4)] length_dom_fft [OF assms(1)] assms(3,5)
  by (auto simp: trace_shape_def list_all_iff)

section \<open>Merges\<close>

definition row_combination :: "ed_stub \<Rightarrow> air_type \<Rightarrow> gf list \<Rightarrow> gf list list \<Rightarrow> nat \<Rightarrow> gf" where
  "row_combination ed air coeffs trace r = (\<Sum>j\<leftarrow>[0..<length coeffs]. coeffs ! j *
     evaluate_constraints ed air (trace_row trace r) (trace_row trace ((r + 1) mod length (hd trace))) r ! j)"

lemma combine_on_trace:
  assumes ab: "a + b \<le> 32" "0 < b" and sh: "trace_shape w (2 ^ a) trace" "0 < w"
    and lde: "lde_trace_columns trace (2 ^ a) (2 ^ b) = Some lde" and j: "j < 2 ^ a"
  shows "combine coeffs (evaluate_all_constraints_on_lde (evaluate_constraints ed air) lde (length coeffs) (2 ^ (a + b)) (2 ^ b)) (2 ^ (a + b))
    ! (j * 2 ^ b) = row_combination ed air coeffs trace j"
proof -
  let ?n = "(2 :: nat) ^ (a + b)"
  have i: "j * 2 ^ b < ?n" using j by (simp add: power_add)
  have wrap: "(j * 2 ^ b + 2 ^ b) mod ?n = (j + 1) mod 2 ^ a * 2 ^ b"
  proof -
    have "(j * 2 ^ b + 2 ^ b) mod ?n = ((j + 1) * 2 ^ b) mod (2 ^ a * 2 ^ b)" by (simp add: power_add add.commute)
    then show ?thesis by (simp only: mod_mult_mult2)
  qed
  have "(j + 1) mod 2 ^ a < 2 ^ a" by simp
  then have c: "constraint_values (evaluate_constraints ed air) lde ?n (2 ^ b) (j * 2 ^ b) =
      evaluate_constraints ed air (trace_row trace j) (trace_row trace ((j + 1) mod 2 ^ a)) j"
    unfolding constraint_values_def wrap
    using lde_row_trace_row [OF ab sh lde j] lde_row_trace_row [OF ab sh lde, of "(j + 1) mod 2 ^ a"] by simp
  have "evaluate_all_constraints_on_lde (evaluate_constraints ed air) lde (length coeffs) ?n (2 ^ b) ! k ! (j * 2 ^ b) =
      constraint_values (evaluate_constraints ed air) lde ?n (2 ^ b) (j * 2 ^ b) ! k" if "k < length coeffs" for k
    using that i by (simp add: evaluate_all_constraints_on_lde_def)
  then have "map (\<lambda>k. coeffs ! k * evaluate_all_constraints_on_lde (evaluate_constraints ed air) lde (length coeffs) ?n (2 ^ b) ! k ! (j * 2 ^ b)) [0..<length coeffs] =
      map (\<lambda>k. coeffs ! k * evaluate_constraints ed air (trace_row trace j) (trace_row trace ((j + 1) mod length (hd trace))) j ! k) [0..<length coeffs]"
    using trace_shape_hd [OF sh] by (simp add: c)
  then show ?thesis using i by (simp only: combine_def row_combination_def nth_map length_upt nth_upt diff_zero add_0)
qed

lemma merge_exact:
  assumes "a + b \<le> 32" "0 < b" "0 < air_width ed air" "trace_shape (air_width ed air) (2 ^ a) trace"
    and "length coeffs = num_constraints ed air" "parallel_feature cfg \<Longrightarrow> enable_parallel cfg (2 ^ (a + b))"
    and "gold_gen (2 ^ (a + b)) = Some g"
  shows "\<exists>lde phi c info. lde_trace_columns trace (2 ^ a) (2 ^ b) = Some lde \<and>
    phi = combine coeffs (evaluate_all_constraints_on_lde (evaluate_constraints ed air) lde (length coeffs) (2 ^ (a + b)) (2 ^ b)) (2 ^ (a + b)) \<and>
    deep_ali_merge_general cfg ed lde coeffs air (2 ^ a) (2 ^ b) =
      (if debug_assertions cfg \<and> (\<exists>r < 2 ^ a. row_combination ed air coeffs trace r \<noteq> 0) then None else Some (c, info)) \<and>
    ((\<forall>i < 2 ^ (a + b). c ! i * ((g ^ i) ^ 2 ^ a - 1) = phi ! i) \<longleftrightarrow> (\<forall>r < 2 ^ a. row_combination ed air coeffs trace r = 0))"
proof -
  obtain lde where lde: "lde_trace_columns trace (2 ^ a) (2 ^ b) = Some lde" using lde_defined [OF assms(1,2,4,3)] by blast
  define phi where "phi = combine coeffs (evaluate_all_constraints_on_lde (evaluate_constraints ed air) lde (length coeffs) (2 ^ (a + b)) (2 ^ b)) (2 ^ (a + b))"
  have rows: "phi ! (j * 2 ^ b) = row_combination ed air coeffs trace j" if "j < 2 ^ a" for j
    unfolding phi_def by (rule combine_on_trace [OF assms(1,2,4,3) lde that])
  have len: "length phi = 2 ^ (a + b)" by (simp add: phi_def combine_def)
  obtain c where c: "compose cfg phi (2 ^ a) = (if debug_assertions cfg \<and> (\<exists>j < 2 ^ a. phi ! (j * 2 ^ b) \<noteq> 0) then None else Some c)"
    "(\<forall>i < 2 ^ (a + b). c ! i * ((g ^ i) ^ 2 ^ a - 1) = phi ! i) \<longleftrightarrow> (\<forall>j < 2 ^ a. phi ! (j * 2 ^ b) = 0)"
    using quotient_exact [OF assms(1,2) len assms(7), of cfg] by blast
  have eq: "(\<exists>j < 2 ^ a. phi ! (j * 2 ^ b) \<noteq> 0) \<longleftrightarrow> (\<exists>r < 2 ^ a. row_combination ed air coeffs trace r \<noteq> 0)"
    "(\<forall>j < 2 ^ a. phi ! (j * 2 ^ b) = 0) \<longleftrightarrow> (\<forall>r < 2 ^ a. row_combination ed air coeffs trace r = 0)"
    using rows by auto
  have n: "(2 :: nat) ^ a * 2 ^ b = 2 ^ (a + b)" by (simp only: power_add)
  have ph: "phi_of cfg coeffs (evaluate_all_constraints_on_lde (evaluate_constraints ed air) lde (num_constraints ed air) (2 ^ (a + b)) (2 ^ b)) (2 ^ (a + b)) = phi"
    using assms(6) by (simp add: phi_of_def phi_def assms(5) Let_def)
  have ok: "merge_shape_ok lde coeffs (air_width ed air) (num_constraints ed air) (2 ^ (a + b))"
    using lde_shape [OF assms(1,2,4,3) lde] assms(5) by (simp add: merge_shape_ok_def)
  have "deep_ali_merge_general cfg ed lde coeffs air (2 ^ a) (2 ^ b) =
      map_option (\<lambda>c. (c, composition_info_of (max_constraint_degree air) (2 ^ a) (num_constraints ed air) (air_width ed air))) (compose cfg phi (2 ^ a))"
    unfolding deep_ali_merge_general_def Let_def n using ok ph
    by (cases "compose cfg phi (2 ^ a)") (simp_all add: combine_def)
  then have merge: "deep_ali_merge_general cfg ed lde coeffs air (2 ^ a) (2 ^ b) =
      (if debug_assertions cfg \<and> (\<exists>r < 2 ^ a. row_combination ed air coeffs trace r \<noteq> 0) then None
       else Some (c, composition_info_of (max_constraint_degree air) (2 ^ a) (num_constraints ed air) (air_width ed air)))"
    using c(1) unfolding eq(1) by simp
  show ?thesis using lde phi_def merge c(2) [unfolded eq(2)] by blast
qed

text \<open>C19: End to end for the registry, in a build without the feature \<open>parallel\<close>, or with it on a domain of at
  least 4096 points and with at least two threads (elsewhere such a build does not compute the
  linear combination, see \<open>parallel_merge_ignores_trace\<close>): the merge of an extended trace returns a
  codeword whose product with the vanishing polynomial is the combined constraint polynomial if
  and only if the linear combination of the constraints is zero on every row, the wrap included;
  a debug build panics exactly otherwise.\<close>

theorem deep_ali_merge_iff:
  assumes "a + b \<le> 32" "0 < b" "0 < air_width ed air" "trace_shape (air_width ed air) (2 ^ a) trace"
    and "length coeffs = num_constraints ed air" "parallel_feature cfg \<Longrightarrow> enable_parallel cfg (2 ^ (a + b))"
    and "gold_gen (2 ^ (a + b)) = Some g"
  shows "\<exists>lde phi c info. lde_trace_columns trace (2 ^ a) (2 ^ b) = Some lde \<and>
    phi = combine coeffs (evaluate_all_constraints_on_lde (evaluate_constraints ed air) lde (length coeffs) (2 ^ (a + b)) (2 ^ b)) (2 ^ (a + b)) \<and>
    deep_ali_merge_general cfg ed lde coeffs air (2 ^ a) (2 ^ b) =
      (if debug_assertions cfg \<and> (\<exists>r < 2 ^ a. row_combination ed air coeffs trace r \<noteq> 0) then None else Some (c, info)) \<and>
    ((\<forall>i < 2 ^ (a + b). c ! i * ((g ^ i) ^ 2 ^ a - 1) = phi ! i) \<longleftrightarrow> (\<forall>r < 2 ^ a. row_combination ed air coeffs trace r = 0))"
  by (rule merge_exact) (fact assms)+

lemma deep_ali_merge_iff_witness:
  "\<exists>lde c info. lde_trace_columns [[0], [0]] 1 2 = Some lde \<and>
     deep_ali_merge_general \<lparr>debug_assertions = True, parallel_feature = False, num_threads = 1\<rparr> no_ed lde [1] Fibonacci 1 2 = Some (c, info)"
proof -
  let ?cfg = "\<lparr>debug_assertions = True, parallel_feature = False, num_threads = 1\<rparr>"
  obtain g where g: "gold_gen (2 ^ (0 + 1)) = Some g" using gold_gen_pow [of 1] by auto
  have z: "row_combination no_ed Fibonacci [1] [[0], [0]] 0 = 0"
    by (simp add: row_combination_def trace_row_def eval_fibonacci_constraints_def)
  have sh: "trace_shape (air_width no_ed Fibonacci) (2 ^ 0) [[0], [0]]" by (simp add: trace_shape_def)
  from deep_ali_merge_iff [OF _ _ _ sh _ _ g, of "[1]" ?cfg] z show ?thesis
    by (auto simp: power_0)
qed

section \<open>Wrong traces that compose\<close>

lemma zero_transforms:
  assumes "k \<le> 32"
  shows "dom_ifft (2 ^ k) (replicate (2 ^ k) 0) = replicate (2 ^ k) 0" "dom_fft (2 ^ k) (replicate (2 ^ k) 0) = replicate (2 ^ k) 0"
  using gold_gen_pow [OF assms]
  by (simp_all add: dom_ifft_def dom_fft_def gold_ifft_def gold_fft_def list_eq_iff_nth_eq)

lemma zh_loop_zero: "zh_loop (replicate n 0) m = replicate (n - m) 0"
proof -
  have "fold (\<lambda>k q. q[k - m := replicate n 0 ! k + or0 q k]) ks (replicate (n - m) 0) = replicate (n - m) (0 :: gf)"
    if "\<forall>k \<in> set ks. k < n" for ks
    using that
  proof (induction ks)
    case (Cons k ks)
    have "(replicate (n - m) (0 :: gf))[k - m := replicate n 0 ! k + or0 (replicate (n - m) 0) k] = replicate (n - m) 0"
      using Cons.prems by (intro nth_equalityI) (auto simp: or0_def nth_list_update)
    then show ?case using Cons by simp
  qed simp
  then show ?thesis by (simp add: zh_loop_def)
qed

lemma compose_zero:
  assumes "k \<le> 32"
  shows "compose cfg (replicate (2 ^ k) 0) m = Some (replicate (2 ^ k) 0)"
proof -
  have z: "or0 (replicate l 0) i = 0" for l i by (simp add: or0_def)
  have "\<exists>l. l \<le> 2 ^ k \<and> poly_div_zh cfg (replicate (2 ^ k) 0) m = Some (replicate l 0)"
  proof (cases "2 ^ k \<le> m")
    case True
    then show ?thesis by (intro exI [of _ 1]) (simp add: poly_div_zh_def list_all_iff)
  next
    case False
    then show ?thesis by (intro exI [of _ "2 ^ k - m"]) (simp add: poly_div_zh_def zh_loop_zero list_all_iff z Let_def)
  qed
  moreover have "resize (2 ^ k) (replicate l 0) = replicate (2 ^ k) 0" if "l \<le> 2 ^ k" for l
    using that by (simp add: resize_def flip: replicate_add)
  ultimately show ?thesis
    using domain_ok_pow [OF assms] zero_transforms [OF assms] by (auto simp: compose_def)
qed

text \<open>A crate built with the feature \<open>parallel\<close> computes the linear combination only on domains of at least 4096
  points and with at least two threads. Otherwise both merges return the zero codeword for
  every trace of the right shape, in debug builds too.\<close>

lemma parallel_merge_ignores_trace:
  assumes "parallel_feature cfg" "n_trace * blow < 4096 \<or> num_threads cfg \<le> 1" "n_trace * blow = 2 ^ k" "k \<le> 32"
  shows "(merge_shape_ok lde coeffs (air_width ed air) (num_constraints ed air) (n_trace * blow) \<longrightarrow>
      (\<exists>info. deep_ali_merge_general cfg ed lde coeffs air n_trace blow = Some (replicate (n_trace * blow) 0, info))) \<and>
    (merge_shape_ok lde coeffs WIDTH NUM_CONSTRAINTS (n_trace * blow) \<longrightarrow>
      (\<exists>info. deep_ali_merge_sha256 cfg lde coeffs n_trace blow n_blocks = Some (replicate (n_trace * blow) 0, info)))"
proof -
  have "\<not> enable_parallel cfg (n_trace * blow)" using assms(2) by (auto simp: enable_parallel_def)
  then have "phi_of cfg coeffs evals (2 ^ k) = replicate (2 ^ k) 0" for evals
    using assms(1,3) by (simp add: phi_of_def)
  then show ?thesis
    unfolding deep_ali_merge_general_def deep_ali_merge_sha256_def Let_def assms(3)
    by (simp add: compose_zero [OF assms(4)])
qed

lemma parallel_merge_ignores_trace_witness:
  "\<exists>info. deep_ali_merge_general \<lparr>debug_assertions = True, parallel_feature = True, num_threads = 8\<rparr> no_ed
     [[1, 2], [3, 4]] [1] Fibonacci 1 2 = Some (replicate (1 * 2) 0, info)"
proof -
  have "merge_shape_ok [[1, 2], [3, 4]] [1] (air_width no_ed Fibonacci) (num_constraints no_ed Fibonacci) (1 * 2)"
    by (simp add: merge_shape_ok_def)
  then show ?thesis
    using parallel_merge_ignores_trace [of "\<lparr>debug_assertions = True, parallel_feature = True, num_threads = 8\<rparr>" 1 2 1] by auto
qed

text \<open>An NSEC3 chain of which every link but the closing one is broken.\<close>

definition gap_chain :: "nat \<Rightarrow> (u64 list \<times> u64 list) list" where
  "gap_chain n = map (\<lambda>i. (if i = 0 then [0, 1, 0, 0] else [2, 0, word_of_nat i, 0],
     [0, 1, word_of_nat ((i + 1) mod n), 0])) [0..<n]"

lemma gap_chain_facts:
  assumes "0 < n"
  shows "length (gap_chain n) = n" "gap_chain n \<noteq> []" "\<forall>(p, q) \<in> set (gap_chain n). length p = 4 \<and> length q = 4"
    "fst (hd (gap_chain n)) = [0, 1, 0, 0]" "snd (last (gap_chain n)) = [0, 1, 0, 0]"
  using assms by (auto simp: gap_chain_def hd_map last_map Suc_diff_1)

lemma gap_cells:
  assumes "r < n" "k < 4"
  shows "nsec3_cell n (gap_chain n) k r = felt (fst (gap_chain n ! r) ! k)"
    "nsec3_cell n (gap_chain n) (4 + k) r = felt (snd (gap_chain n ! r) ! k)"
proof -
  have l: "length (gap_chain n) = n" using assms(1) by (simp add: gap_chain_def)
  have "length (fst (gap_chain n ! r)) = 4" using assms(1) by (simp add: gap_chain_def)
  then show "nsec3_cell n (gap_chain n) k r = felt (fst (gap_chain n ! r) ! k)"
    "nsec3_cell n (gap_chain n) (4 + k) r = felt (snd (gap_chain n ! r) ! k)"
    using assms l by (simp_all add: nsec3_cell_def nth_append)
qed

lemma felt_small: "felt 0 = 0" "felt 1 = 1" "felt 2 = 2"
  by (simp_all add: felt_def)

lemma gap_rows:
  assumes t: "trace_shape 8 n t" "\<forall>c < 8. \<forall>r < n. cell t c r = nsec3_cell n (gap_chain n) c r" and r: "r < n"
  shows "row_combination ed Nsec3Chain (comb_coeffs 4) t r = 0"
    "Suc r < n \<Longrightarrow> \<not> air_row_ok ed Nsec3Chain t r (Suc r)"
proof -
  have nth: "trace_row t x ! c = cell t c x" if "c < 8" for c x
    using t(1) that by (simp add: trace_row_def trace_shape_def cell_def)
  have cells: "trace_row t x ! k = felt (fst (gap_chain n ! x) ! k)" "trace_row t x ! (4 + k) = felt (snd (gap_chain n ! x) ! k)"
    if "x < n" "k < 4" for x k
    using nth t(2) gap_cells [OF that] that by simp_all
  have c4: "trace_row t x ! 4 = felt (snd (gap_chain n ! x) ! 0)" "trace_row t x ! 5 = felt (snd (gap_chain n ! x) ! 1)"
    "trace_row t x ! 6 = felt (snd (gap_chain n ! x) ! 2)" "trace_row t x ! 7 = felt (snd (gap_chain n ! x) ! 3)" if "x < n" for x
    using cells(2) [OF that, of 0] cells(2) [OF that, of 1] cells(2) [OF that, of 2] cells(2) [OF that, of 3] by simp_all
  define r' where "r' = (r + 1) mod n"
  have g: "snd (gap_chain n ! r) = [0, 1, word_of_nat (r'), 0]" using r by (simp add: gap_chain_def r'_def)
  have m: "r' < n" using r by (simp add: r'_def)
  have g': "fst (gap_chain n ! (r')) = (if r' = 0 then [0, 1, 0, 0] else [2, 0, word_of_nat (r'), 0])"
    using m by (simp add: gap_chain_def)
  have ev: "eval_nsec3_chain_constraints (trace_row t r) (trace_row t (r')) =
      (if r' = 0 then [0, 0, 0, 0] else [2, - 1, 0, 0])"
    unfolding eval_nsec3_chain_constraints_def
    using cells(1) [OF m, of 0] cells(1) [OF m, of 1] cells(1) [OF m, of 2] cells(1) [OF m, of 3] c4 [OF r]
    by (simp add: g g' felt_small numeral_3_eq_3 numeral_2_eq_2)
  show "row_combination ed Nsec3Chain (comb_coeffs 4) t r = 0"
    unfolding row_combination_def evaluate_constraints.simps trace_shape_hd [OF t(1) zero_less_numeral] ev [unfolded r'_def]
    by (simp add: comb_coeffs_def upt_4 numeral_3_eq_3 numeral_2_eq_2 del: upt_rec_numeral)
  assume s: "Suc r < n"
  then have "eval_nsec3_chain_constraints (trace_row t r) (trace_row t (Suc r)) = [2, - 1, 0, 0]" using ev by (simp add: r'_def)
  then show "\<not> air_row_ok ed Nsec3Chain t r (Suc r)" by (simp add: air_row_ok_def)
qed

text \<open>C22: The combination coefficients are the constants 1, 2, 3 and 4, so violations can cancel. There is an NSEC3
  chain that fills the trace, whose last record points to the first, and of which every other
  link is broken, so that every row but the last violates the constraints; yet the combination
  vanishes on every row and the merge returns a codeword, even in a debug build.\<close>

theorem constant_coefficients_cancel:
  assumes "a + b \<le> 32" "0 < b" "parallel_feature cfg \<Longrightarrow> enable_parallel cfg (2 ^ (a + b))"
  shows "\<exists>chain t lde c info. length chain = 2 ^ a \<and> snd (last chain) = fst (hd chain) \<and>
    build_nsec3_chain_trace (2 ^ a) chain = Some t \<and>
    (\<forall>r. Suc r < 2 ^ a \<longrightarrow> \<not> air_row_ok ed Nsec3Chain t r (Suc r)) \<and>
    lde_trace_columns t (2 ^ a) (2 ^ b) = Some lde \<and>
    deep_ali_merge_general cfg ed lde (comb_coeffs (num_constraints ed Nsec3Chain)) Nsec3Chain (2 ^ a) (2 ^ b) = Some (c, info)"
proof -
  let ?c = "gap_chain (2 ^ a)"
  have n: "0 < (2 :: nat) ^ a" by simp
  note gc = gap_chain_facts [OF n]
  obtain t where t: "build_nsec3_chain_trace (2 ^ a) ?c = Some t" "trace_shape 8 (2 ^ a) t"
    "\<forall>c < 8. \<forall>r < 2 ^ a. cell t c r = nsec3_cell (2 ^ a) ?c c r"
    using nsec3_trace_cells [OF is_power_of_two_pow gc(2,3), of a] gc(1) by auto
  note rows = gap_rows [OF t(2,3)]
  obtain g where g: "gold_gen (2 ^ (a + b)) = Some g" using gold_gen_pow [OF assms(1)] by blast
  have sh: "trace_shape (air_width ed Nsec3Chain) (2 ^ a) t" using t(2) by simp
  have len: "length (comb_coeffs (num_constraints ed Nsec3Chain)) = num_constraints ed Nsec3Chain" by (simp add: comb_coeffs_def)
  obtain lde c info where m: "lde_trace_columns t (2 ^ a) (2 ^ b) = Some lde"
    "deep_ali_merge_general cfg ed lde (comb_coeffs (num_constraints ed Nsec3Chain)) Nsec3Chain (2 ^ a) (2 ^ b) =
      (if debug_assertions cfg \<and> (\<exists>r < 2 ^ a. row_combination ed Nsec3Chain (comb_coeffs (num_constraints ed Nsec3Chain)) t r \<noteq> 0)
       then None else Some (c, info))"
    using merge_exact [OF assms(1,2) _ sh len assms(3) g] by auto
  have z: "\<not> (\<exists>r < 2 ^ a. row_combination ed Nsec3Chain (comb_coeffs (num_constraints ed Nsec3Chain)) t r \<noteq> 0)"
    using rows(1) by simp
  have "deep_ali_merge_general cfg ed lde (comb_coeffs (num_constraints ed Nsec3Chain)) Nsec3Chain (2 ^ a) (2 ^ b) = Some (c, info)"
    using m(2) z by simp
  moreover have "\<forall>r. Suc r < 2 ^ a \<longrightarrow> \<not> air_row_ok ed Nsec3Chain t r (Suc r)" using rows(2) by simp
  ultimately show ?thesis using t(1) m(1) gc(1,4,5) by metis
qed

lemma constant_coefficients_cancel_witness:
  "\<exists>chain t lde c info. length chain = 2 ^ 3 \<and> snd (last chain) = fst (hd chain) \<and>
    build_nsec3_chain_trace (2 ^ 3) chain = Some t \<and>
    (\<forall>r. Suc r < 2 ^ 3 \<longrightarrow> \<not> air_row_ok no_ed Nsec3Chain t r (Suc r)) \<and>
    lde_trace_columns t (2 ^ 3) (2 ^ 5) = Some lde \<and>
    deep_ali_merge_general \<lparr>debug_assertions = True, parallel_feature = False, num_threads = 1\<rparr> no_ed lde
      (comb_coeffs (num_constraints no_ed Nsec3Chain)) Nsec3Chain (2 ^ 3) (2 ^ 5) = Some (c, info)"
  by (rule constant_coefficients_cancel) simp_all

end
