(* ===== verification/Stark_Prover.thy ===== *)
theory Stark_Prover
  imports Merge_Props Fri_Props Signature_Bindings Concrete
begin

text \<open>
  The provers of \<open>swarm-dns/src/prover.rs\<close> from end to end: trace, low-degree extension, composition,
  FRI proof, self-verification. \<open>deep_stark\<close> is the prover behind the record \<open>'p stark\<close> of the
  swarm's theories; \<open>prove_nsec3_completeness\<close> and \<open>prove_ds_ksk_binding\<close> are the other two that are
  built on the base field. What they depend on beside their arguments is the record \<open>prover_env\<close>:
  the hash of the trees, the extension field, the build, the Ed25519 registry entry and the proof
  serialisation. \<open>None\<close> is a panic.
\<close>

section \<open>Composition, proof, self-verification\<close>

record 'e prover_env =
  pe_hasher :: hasher
  pe_tower :: "(gf, 'e) tower"
  pe_build :: build_cfg
  pe_ed :: ed_stub
  pe_ser :: "(gf, 'e) deep_fri_proof \<Rightarrow> bytes"

text \<open>\<open>lde_trace_columns\<close> and \<open>deep_ali_merge_general\<close> with the coefficients of \<open>comb_coeffs\<close>.\<close>

definition compose_trace :: "'e prover_env \<Rightarrow> air_type \<Rightarrow> nat \<Rightarrow> gf list list \<Rightarrow> gf list option" where
  "compose_trace V air n_trace trace = do {
     lde \<leftarrow> lde_trace_columns trace n_trace blowup;
     (c_eval, _) \<leftarrow> deep_ali_merge_general (pe_build V) (pe_ed V) lde (comb_coeffs (num_constraints (pe_ed V) air)) air n_trace blowup;
     Some c_eval }"

definition prove_codeword :: "'e :: field prover_env \<Rightarrow> gf list \<Rightarrow> nat \<Rightarrow> deep_fri_params \<Rightarrow> (gf, 'e) deep_fri_proof option" where
  "prove_codeword V c_eval n0 params = do {
     omega \<leftarrow> gold_gen n0;
     deep_fri_prove (pe_hasher V) (pe_tower V) c_eval omega n0 params }"

definition verify_proof :: "'e :: field prover_env \<Rightarrow> deep_fri_params \<Rightarrow> (gf, 'e) deep_fri_proof \<Rightarrow> bool" where
  "verify_proof V params proof \<longleftrightarrow> deep_fri_verify (pe_hasher V) (pe_tower V) params proof = Some True"

section \<open>The prover of shards and rollups\<close>

definition rollup_codeword :: "'e prover_env \<Rightarrow> u64 list \<Rightarrow> gf list option" where
  "rollup_codeword V leaves = (let n_trace = length leaves
     in compose_trace V HashRollup n_trace (build_hash_rollup_trace n_trace leaves))"

definition deep_stark :: "'e :: field prover_env \<Rightarrow> (bytes \<Rightarrow> (gf, 'e) deep_fri_proof option) \<Rightarrow> (gf, 'e) deep_fri_proof option stark" where
  "deep_stark V deser =
     \<lparr>stark_prove = \<lambda>leaves params. do {
        c_eval \<leftarrow> rollup_codeword V leaves;
        prove_codeword V c_eval (length leaves * blowup) params },
      fri_verify = \<lambda>params p. (case p of None \<Rightarrow> False | Some proof \<Rightarrow> verify_proof V params proof),
      root_f0_of = \<lambda>p. (case p of None \<Rightarrow> [] | Some proof \<Rightarrow> pf_root_f0 proof),
      proof_ser = \<lambda>p. (case p of None \<Rightarrow> [] | Some proof \<Rightarrow> pe_ser V proof),
      proof_deser = \<lambda>b. map_option Some (deser b)\<rparr>"

section \<open>NSEC3 completeness\<close>

record nsec3_record =
  owner_hash :: bytes
  next_hash :: bytes

record nsec3_output =
  nx_pi_hash :: bytes
  nx_chain_root :: bytes
  nx_record_count :: nat
  nx_n_trace :: nat
  nx_root_f0 :: bytes
  nx_proof_blob :: bytes

definition nsec3_chain_root :: "ext \<Rightarrow> bytes \<Rightarrow> nsec3_record list \<Rightarrow> bytes" where
  "nsec3_chain_root E salt records = sha3_256_parts E
     ([ascii ''DNS-NSEC3-CHAIN-ROOT-V1'', salt, le64 (word_of_nat (length records))] @
      concat (map (\<lambda>r. [owner_hash r, next_hash r]) records))"

definition nsec3_pi_hash :: "ext \<Rightarrow> bytes \<Rightarrow> nat \<Rightarrow> bytes \<Rightarrow> bytes \<Rightarrow> bytes \<Rightarrow> bytes" where
  "nsec3_pi_hash E salt count chain_root root_f0 fs_binding = sha3_256_parts E
     [ascii ''DNS-NSEC3-PIHASH-V1'', salt, le64 (word_of_nat count), chain_root, root_f0, fs_binding]"

definition nsec3_codeword :: "'e prover_env \<Rightarrow> nsec3_record list \<Rightarrow> gf list option" where
  "nsec3_codeword V records = do {
     let chain = map (\<lambda>r. (pack_hash_to_leaves (owner_hash r), pack_hash_to_leaves (next_hash r))) records;
     let n_trace = next_pow2 (length records);
     trace \<leftarrow> build_nsec3_chain_trace n_trace chain;
     compose_trace V Nsec3Chain n_trace trace }"

definition prove_nsec3_completeness ::
  "ext \<Rightarrow> 'e :: field prover_env \<Rightarrow> nsec3_record list \<Rightarrow> bytes \<Rightarrow> bytes \<Rightarrow> ldt_mode \<Rightarrow> nsec3_output option" where
  "prove_nsec3_completeness E V records salt fs_binding ldt =
     (if records = [] \<or> next_hash (last records) \<noteq> owner_hash (hd records) then None else do {
        let n_trace = next_pow2 (length records);
        let n0 = n_trace * blowup;
        c_eval \<leftarrow> nsec3_codeword V records;
        params \<leftarrow> build_params n0 fs_binding ldt;
        proof \<leftarrow> prove_codeword V c_eval n0 params;
        if \<not> verify_proof V params proof then None else do {
          let chain_root = nsec3_chain_root E salt records;
          Some \<lparr>nx_pi_hash = nsec3_pi_hash E salt (length records) chain_root (pf_root_f0 proof) fs_binding,
            nx_chain_root = chain_root, nx_record_count = length records, nx_n_trace = n_trace,
            nx_root_f0 = pf_root_f0 proof, nx_proof_blob = pe_ser V proof\<rparr> } })"

section \<open>DS to KSK binding\<close>

record ds_ksk_output =
  dk_pi_hash :: bytes
  dk_asserted_digest :: bytes
  dk_n_blocks :: nat
  dk_n_trace :: nat
  dk_root_f0 :: bytes
  dk_proof_blob :: bytes

definition ds_ksk_codeword :: "'e prover_env \<Rightarrow> gf list list \<Rightarrow> nat \<Rightarrow> gf list option" where
  "ds_ksk_codeword V trace n_blocks = do {
     let n_trace = length (hd trace);
     lde \<leftarrow> lde_trace_columns trace n_trace blowup;
     (c_eval, _) \<leftarrow> deep_ali_merge_sha256 (pe_build V) lde (comb_coeffs NUM_CONSTRAINTS) n_trace blowup n_blocks;
     Some c_eval }"

definition prove_ds_ksk_binding ::
  "ext \<Rightarrow> 'e :: field prover_env \<Rightarrow> bytes \<Rightarrow> bytes \<Rightarrow> bytes \<Rightarrow> ldt_mode \<Rightarrow> ds_ksk_output option" where
  "prove_ds_ksk_binding E V dnskey_bytes parent_ds_hash fs_binding ldt = do {
     (trace, n_blocks) \<leftarrow> build_sha256_trace_multi dnskey_bytes;
     let n_trace = length (hd trace);
     if \<not> is_power_of_two n_trace \<or> length trace \<noteq> WIDTH then None else do {
       let digest = asserted_digest trace n_blocks;
       let n0 = n_trace * blowup;
       c_eval \<leftarrow> ds_ksk_codeword V trace n_blocks;
       params \<leftarrow> build_params n0 fs_binding ldt;
       proof \<leftarrow> prove_codeword V c_eval n0 params;
       if \<not> verify_proof V params proof then None else
         Some \<lparr>dk_pi_hash = ds_ksk_pi_hash E dnskey_bytes parent_ds_hash digest (pf_root_f0 proof) fs_binding,
           dk_asserted_digest = digest, dk_n_blocks = n_blocks, dk_n_trace = n_trace,
           dk_root_f0 = pf_root_f0 proof, dk_proof_blob = pe_ser V proof\<rparr> } }"

section \<open>Every word is proved\<close>

definition env_ok :: "'e :: field prover_env \<Rightarrow> bool" where
  "env_ok V \<longleftrightarrow> tower_ok (pe_tower V) 32 \<and> base_ok (pe_tower V)"

lemma codeword_proved:
  assumes V: "env_ok V" and k: "0 < k" "k \<le> 32" and c: "length c = 2 ^ k"
    and prm: "build_params (2 ^ k) fs ldt = Some prm"
    and z: "z_good (pe_hasher V) (pe_tower V) prm (2 ^ k) c"
  shows "\<exists>proof. prove_codeword V c (2 ^ k) prm = Some proof \<and> verify_proof V prm proof"
proof -
  obtain g where g: "gold_gen (2 ^ k) = Some g" using gold_gen_pow [OF k(2)] by blast
  obtain Ls where Ls: "folds_fully prm k Ls" using build_params_folds_fully [OF prm k(1)] by blast
  show ?thesis
    using honest_run_accepted [OF _ _ Ls k(2) c z, of g] V g by (auto simp: env_ok_def prove_codeword_def verify_proof_def)
qed

text \<open>A release build composes every trace of the right shape.\<close>

lemma length_phi_of [simp]: "length (phi_of cfg coeffs evals n) = n"
  by (simp add: phi_of_def combine_def Let_def)

lemma compose_release:
  assumes "\<not> debug_assertions cfg" "length phi = 2 ^ (a + 5)" "a + 5 \<le> 32"
  shows "\<exists>c. compose cfg phi (2 ^ a) = Some c \<and> length c = 2 ^ (a + 5)"
proof -
  obtain g where g: "gold_gen (2 ^ (a + 5)) = Some g" using gold_gen_pow [OF assms(3)] by blast
  show ?thesis using quotient_exact [OF assms(3) _ assms(2) g, of cfg] assms(1) by auto
qed

lemma length_comb_coeffs [simp]: "length (comb_coeffs n) = n"
  by (simp add: comb_coeffs_def)

lemma blowup_pow: "2 ^ a * blowup = 2 ^ (a + 5)" "blowup = 2 ^ 5"
  by (simp_all add: blowup_def power_add)

lemma compose_trace_release:
  assumes "\<not> debug_assertions (pe_build V)" "trace_shape (air_width (pe_ed V) air) (2 ^ a) trace" "0 < air_width (pe_ed V) air"
    and "a + 5 \<le> 32"
  shows "\<exists>c. compose_trace V air (2 ^ a) trace = Some c \<and> length c = 2 ^ (a + 5)"
proof -
  obtain lde where lde: "lde_trace_columns trace (2 ^ a) (2 ^ 5) = Some lde"
    using lde_defined [OF assms(4) _ assms(2,3)] by auto
  have "merge_shape_ok lde (comb_coeffs (num_constraints (pe_ed V) air)) (air_width (pe_ed V) air) (num_constraints (pe_ed V) air) (2 ^ (a + 5))"
    using lde_shape [OF assms(4) _ assms(2,3) lde] by (simp add: merge_shape_ok_def)
  moreover obtain c where "compose (pe_build V) (phi_of (pe_build V) (comb_coeffs (num_constraints (pe_ed V) air))
      (evaluate_all_constraints_on_lde (evaluate_constraints (pe_ed V) air) lde (num_constraints (pe_ed V) air) (2 ^ (a + 5)) (2 ^ 5)) (2 ^ (a + 5))) (2 ^ a) = Some c"
    "length c = 2 ^ (a + 5)" using compose_release [OF assms(1) length_phi_of assms(4)] by blast
  ultimately show ?thesis
    using lde unfolding compose_trace_def deep_ali_merge_general_def blowup_pow(2) Let_def power_add [symmetric] by simp
qed

lemma nsec3_codeword_release:
  assumes V: "\<not> debug_assertions (pe_build V)" and r: "records \<noteq> []" "\<forall>r \<in> set records. length (owner_hash r) = 32 \<and> length (next_hash r) = 32"
    and n: "next_pow2 (length records) = 2 ^ a" "a + 5 \<le> 32"
  shows "\<exists>c. nsec3_codeword V records = Some c \<and> length c = 2 ^ (a + 5)"
proof -
  let ?chain = "map (\<lambda>r. (pack_hash_to_leaves (owner_hash r), pack_hash_to_leaves (next_hash r))) records"
  have "length records \<le> 2 ^ a" using next_pow2_spec [of "length records"] n(1) by auto
  then obtain t where "build_nsec3_chain_trace (2 ^ a) ?chain = Some t" "trace_shape 8 (2 ^ a) t"
    using nsec3_trace_cells [OF is_power_of_two_pow, of ?chain a] r by (auto simp: length_pack_hash_to_leaves)
  moreover from this obtain c where "compose_trace V Nsec3Chain (2 ^ a) t = Some c" "length c = 2 ^ (a + 5)"
    using compose_trace_release [OF V _ _ n(2), of Nsec3Chain t] by auto
  ultimately show ?thesis by (simp add: nsec3_codeword_def n(1) Let_def)
qed

text \<open>C17: The NSEC3 prover of a release build proves every record list whose last record points to the first, and
  refuses exactly the others (and the empty list): whether the links between consecutive records
  hold makes no difference. The challenge on the composed codeword is assumed good.\<close>

theorem nsec3_prover_ignores_links:
  assumes V: "env_ok V" "\<not> debug_assertions (pe_build V)"
    and r: "\<forall>r \<in> set records. length (owner_hash r) = 32 \<and> length (next_hash r) = 32" "next_pow2 (length records) * blowup \<le> 2 ^ 32"
    and z: "\<And>c prm. nsec3_codeword V records = Some c \<Longrightarrow> build_params (length c) fs ldt = Some prm \<Longrightarrow>
      z_good (pe_hasher V) (pe_tower V) prm (length c) c"
  shows "(\<exists>out. prove_nsec3_completeness E V records salt fs ldt = Some out) \<longleftrightarrow>
    records \<noteq> [] \<and> next_hash (last records) = owner_hash (hd records)"
proof
  show "\<exists>out. prove_nsec3_completeness E V records salt fs ldt = Some out \<Longrightarrow>
    records \<noteq> [] \<and> next_hash (last records) = owner_hash (hd records)"
    by (auto simp: prove_nsec3_completeness_def split: if_splits)
  assume c: "records \<noteq> [] \<and> next_hash (last records) = owner_hash (hd records)"
  obtain a where a: "next_pow2 (length records) = 2 ^ a" using next_pow2_spec by blast
  then have le: "a + 5 \<le> 32" using r(2) power_increasing_iff [of "2 :: nat" "a + 5" 32] unfolding a blowup_pow(1) by (simp only: numeral_One [symmetric] num.distinct)
  obtain w where w: "nsec3_codeword V records = Some w" "length w = 2 ^ (a + 5)"
    using nsec3_codeword_release [OF V(2) _ r(1) a le] c by blast
  obtain prm where prm: "build_params (2 ^ (a + 5)) fs ldt = Some prm"
    using build_params_defined [of "length records" fs ldt] unfolding a blowup_pow(1) by blast
  show "\<exists>out. prove_nsec3_completeness E V records salt fs ldt = Some out"
    using codeword_proved [OF V(1) _ le w(2) prm z [OF w(1), unfolded w(2), OF prm]] c w prm
    unfolding prove_nsec3_completeness_def a blowup_pow(1) Let_def by auto
qed


section \<open>Witness environment\<close>

text \<open>A release build over the base field with the hash of the other witnesses.\<close>

definition toy_env :: "bool \<Rightarrow> gf prover_env" where
  "toy_env par = \<lparr>pe_hasher = toy_hasher, pe_tower = gold_tower (\<lambda>_. 0),
     pe_build = \<lparr>debug_assertions = False, parallel_feature = par, num_threads = 1\<rparr>, pe_ed = no_ed, pe_ser = \<lambda>_. []\<rparr>"

lemma toy_env_ok: "env_ok (toy_env par)" "\<not> debug_assertions (pe_build (toy_env par))"
  using gold_tower_ok [of "\<lambda>_. 0"] by (simp_all add: env_ok_def toy_env_def)

lemma toy_gold_challenge:
  "safe_field_challenge toy_hasher (gold_tower rng) tr (ascii ''z_fp3'' @ ascii ''/c'' @ ascii (decimal 0)) = 25392"
proof -
  have "char_of (48 :: nat) = CHR ''0''" by (simp add: char_of_eq_iff)
  then have "challenge_bytes toy_hasher tr (ascii ''z_fp3'' @ ascii ''/c'' @ ascii (decimal 0)) = [0x30, 0x63]"
    by (simp add: challenge_bytes_def toy_hasher_def ascii_def decimal.simps)
  moreover have "rchunks7 [0x30, 0x63 :: 8 word] = [[0x30, 0x63]]"
    by (simp add: rchunks7.simps)
  ultimately show ?thesis
    by (simp add: safe_field_challenge_def gold_tower_def of_le_bytes_def)
qed

lemma toy_env_good:
  assumes "stir prm"
  shows "z_good (pe_hasher (toy_env par)) (pe_tower (toy_env par)) prm n f0"
proof -
  have "(25392 :: gf) \<noteq> 0" using gf_of_nat_small [of 25392 0] by (auto simp: MODULUS_def)
  then show ?thesis
    using toy_gold_challenge assms
    by (auto simp: z_good_def challenge_ext_def toy_env_def gold_tower_def bind_eq_Some_conv)
qed

lemma build_params_stir: "build_params n0 fs Stir = Some prm \<Longrightarrow> stir prm"
  by (auto simp: build_params_def)

lemma nsec3_prover_ignores_links_witness:
  "\<exists>out. prove_nsec3_completeness toy_ext (toy_env False)
     [\<lparr>owner_hash = replicate 32 1, next_hash = replicate 32 2\<rparr>, \<lparr>owner_hash = replicate 32 9, next_hash = replicate 32 1\<rparr>]
     [] [] Stir = Some out"
proof -
  have "next_pow2 2 * blowup \<le> 2 ^ 32" by (simp add: next_pow2_def next_power_of_two_def np2_from.simps blowup_def)
  then show ?thesis
    by (subst nsec3_prover_ignores_links [OF toy_env_ok]) (simp_all add: numeral_2_eq_2 toy_env_good build_params_stir)
qed

section \<open>DS to KSK binding\<close>

lemma sha256_built_shape:
  assumes "build_sha256_trace_multi message = Some (trace, n_blocks)"
  shows "\<exists>a. trace_shape WIDTH (2 ^ a) trace"
proof -
  obtain blocks where b: "pad_message_to_blocks message = Some blocks" "blocks \<noteq> []" using padding_total by blast
  then have t: "trace = trace_columns (sha256_rows blocks)" using assms by (simp add: build_sha256_trace_multi_def)
  have "fill_blocks blocks sha_IV \<noteq> []" using b(2) length_fill_blocks [of blocks sha_IV] by (auto simp: ROWS_PER_BLOCK_def)
  obtain m where m: "next_power_of_two (length (fill_blocks blocks sha_IV)) = 2 ^ m" "length (fill_blocks blocks sha_IV) \<le> 2 ^ m"
    using np2_from_spec [of 0 "length (fill_blocks blocks sha_IV)"] by (auto simp: next_power_of_two_def)
  have "max (2 ^ m) ROWS_PER_BLOCK = 2 ^ max m 7"
    using power_increasing_iff [of "2 :: nat" m 7] by (simp add: ROWS_PER_BLOCK_def max_def)
  then have "length (sha256_rows blocks) = 2 ^ max m 7"
    using m by (simp add: sha256_rows_def Let_def)
  then show ?thesis by (intro exI [of _ "max m 7"]) (simp add: t trace_shape_def trace_columns_def list_all_iff)
qed

lemma ds_ksk_codeword_release:
  assumes "\<not> debug_assertions (pe_build V)" "trace_shape WIDTH (2 ^ a) trace" "a + 5 \<le> 32"
  shows "\<exists>c. ds_ksk_codeword V trace n_blocks = Some c \<and> length c = 2 ^ (a + 5)"
proof -
  have w: "0 < WIDTH" by (simp add: WIDTH_def)
  obtain lde where lde: "lde_trace_columns trace (2 ^ a) (2 ^ 5) = Some lde" using lde_defined [OF assms(3) _ assms(2) w] by auto
  have "merge_shape_ok lde (comb_coeffs NUM_CONSTRAINTS) WIDTH NUM_CONSTRAINTS (2 ^ (a + 5))"
    using lde_shape [OF assms(3) _ assms(2) w lde] by (simp add: merge_shape_ok_def)
  moreover obtain c where "compose (pe_build V) (phi_of (pe_build V) (comb_coeffs NUM_CONSTRAINTS)
      (evaluate_all_constraints_on_lde (\<lambda>cur nxt row. eval_sha256_constraints cur nxt row n_blocks) lde NUM_CONSTRAINTS (2 ^ (a + 5)) (2 ^ 5))
      (2 ^ (a + 5))) (2 ^ a) = Some c" "length c = 2 ^ (a + 5)"
    using compose_release [OF assms(1) length_phi_of assms(3)] by blast
  ultimately show ?thesis
    using lde
    unfolding ds_ksk_codeword_def deep_ali_merge_sha256_def trace_shape_hd [OF assms(2) w] blowup_pow(2) Let_def power_add [symmetric]
    by simp
qed

text \<open>The DS prover of a release build proves every DNSKEY for every parent DS hash. The digest it asserts is the
  SHA-256 chain of the padded DNSKEY and is not compared with the parent's hash, which only goes
  into the public input hash. The challenge on the composed codeword is assumed good.\<close>

lemma ds_prover_asserts_digest:
  assumes V: "env_ok V" "\<not> debug_assertions (pe_build V)"
    and t: "build_sha256_trace_multi dnskey = Some (trace, n_blocks)" "length (hd trace) * blowup \<le> 2 ^ 32"
    and z: "\<And>c prm. ds_ksk_codeword V trace n_blocks = Some c \<Longrightarrow> build_params (length c) fs ldt = Some prm \<Longrightarrow>
      z_good (pe_hasher V) (pe_tower V) prm (length c) c"
  shows "\<exists>blocks out. pad_message_to_blocks dnskey = Some blocks \<and> prove_ds_ksk_binding E V dnskey parent fs ldt = Some out \<and>
    dk_asserted_digest out = concat (map be32 (sha256_chain sha_IV blocks)) \<and> dk_n_blocks out = length blocks \<and>
    dk_pi_hash out = ds_ksk_pi_hash E dnskey parent (dk_asserted_digest out) (dk_root_f0 out) fs"
proof -
  have w: "0 < WIDTH" by (simp add: WIDTH_def)
  obtain a where a: "trace_shape WIDTH (2 ^ a) trace" using sha256_built_shape [OF t(1)] by blast
  note hd = trace_shape_hd [OF a w]
  have le: "a + 5 \<le> 32" using t(2) power_increasing_iff [of "2 :: nat" "a + 5" 32] unfolding hd blowup_pow(1) by (simp only: numeral_One [symmetric] num.distinct)
  obtain blocks where b: "pad_message_to_blocks dnskey = Some blocks" "n_blocks = length blocks"
    "asserted_digest trace n_blocks = concat (map be32 (sha256_chain sha_IV blocks))"
    using sha256_trace_built [of dnskey] t(1) by auto
  obtain c where c: "ds_ksk_codeword V trace n_blocks = Some c" "length c = 2 ^ (a + 5)"
    using ds_ksk_codeword_release [OF V(2) a le] by blast
  obtain prm where prm: "build_params (2 ^ (a + 5)) fs ldt = Some prm"
    using make_schedule_defined [OF is_power_of_two_pow, of "a + 5" ldt] by (auto simp: build_params_def)
  obtain pf where "prove_codeword V c (2 ^ (a + 5)) prm = Some pf" "verify_proof V prm pf"
    using codeword_proved [OF V(1) _ le c(2) prm z [OF c(1), unfolded c(2), OF prm]] by auto
  then show ?thesis
    using t(1) b c(1) prm a unfolding prove_ds_ksk_binding_def
    by (simp add: hd blowup_pow(1) Let_def trace_shape_def)
qed

lemma empty_message_block: "map_option length (pad_message_to_blocks []) = Some 1"
proof -
  obtain blocks z where b: "pad_message_to_blocks [] = Some blocks" "z < 64" "blocks \<noteq> []" "list_all (\<lambda>b. length b = 64) blocks"
    "concat blocks = [0x80] @ replicate z 0 @ be_bytes 8 (word_of_nat 0 :: u64)"
    using padding_blocks [of "[]"] by auto
  have "length (concat blocks) = 64 * length blocks" using b(4) by (induction blocks) simp_all
  then have "64 * length blocks = 9 + z" by (simp add: b(5))
  moreover have "0 < length blocks" using b(3) by simp
  ultimately have "length blocks = 1" using b(2) by linarith
  then show ?thesis using b(1) by simp
qed

lemma ds_prover_asserts_digest_witness:
  "\<exists>blocks out. pad_message_to_blocks [] = Some blocks \<and>
     prove_ds_ksk_binding toy_ext (toy_env False) [] [1, 2, 3] [] Stir = Some out \<and>
     dk_asserted_digest out = concat (map be32 (sha256_chain sha_IV blocks)) \<and> dk_n_blocks out = length blocks \<and>
     dk_pi_hash out = ds_ksk_pi_hash toy_ext [] [1, 2, 3] (dk_asserted_digest out) (dk_root_f0 out) []"
proof -
  obtain blocks where b: "pad_message_to_blocks [] = Some blocks" "length blocks = 1" using empty_message_block by auto
  let ?t = "trace_columns (sha256_rows blocks)"
  have "length (fill_blocks blocks sha_IV) = 2 ^ 7" by (simp add: length_fill_blocks b(2) ROWS_PER_BLOCK_def)
  then have "length (sha256_rows blocks) = 128"
    using next_power_of_two_pow [of 7] by (simp add: sha256_rows_def Let_def ROWS_PER_BLOCK_def)
  then have "length (hd ?t) = 128" by (simp add: trace_columns_def hd_map WIDTH_def)
  moreover have "build_sha256_trace_multi [] = Some (?t, length blocks)" using b(1) by (simp add: build_sha256_trace_multi_def)
  ultimately show ?thesis
    using ds_prover_asserts_digest [OF toy_env_ok, of "[]" ?t "length blocks" False "[]" Stir]
    by (simp add: blowup_def toy_env_good build_params_stir)
qed

section \<open>Shards\<close>

lemma rollup_codeword_release:
  assumes "\<not> debug_assertions (pe_build V)" "length leaves = 2 ^ a" "a + 5 \<le> 32"
  shows "\<exists>c. rollup_codeword V leaves = Some c \<and> length c = 2 ^ (a + 5)"
  using compose_trace_release [OF assms(1) _ _ assms(3), of HashRollup] rollup.shape [of "2 ^ a" leaves]
  by (simp add: rollup_codeword_def assms(2) build_hash_rollup_trace_def Let_def)

lemma length_pad_leaves [simp]: "length (pad_leaves n xs) = n"
  by (simp add: pad_leaves_def)

text \<open>What the prover of a shard commits to: the leaves of its trace.\<close>

definition shard_leaves :: "ext \<Rightarrow> bytes \<Rightarrow> dns_record list \<Rightarrow> u64 list" where
  "shard_leaves E salt records = (let active = concat (map (pack_hash_to_leaves \<circ> leaf_hash E salt) records)
     in pad_leaves (next_pow2 (length active)) active)"

lemma prove_inner_shard_eq:
  "prove_inner_shard E S salt records fs ldt = do {
     root \<leftarrow> compute_merkle_root E salt records;
     let leaves = shard_leaves E salt records;
     params \<leftarrow> build_params (usize_mul (length leaves) blowup) fs ldt;
     let pf = stark_prove S leaves params;
     if \<not> fri_verify S params pf then None else
       Some \<lparr>is_pi_hash = inner_pi_hash E salt (length records) root (root_f0_of S pf) fs, is_merkle_root = root,
         is_record_count = length records, is_n_trace = length leaves, is_root_f0 = root_f0_of S pf,
         is_proof_blob = proof_ser S pf\<rparr> }"
  by (simp add: prove_inner_shard_def compute_merkle_root_def shard_leaves_def Let_def comp_def
      split: option.splits Option.bind_split)

lemma shard_leaves_pow: "\<exists>a. length (shard_leaves E salt records) = 2 ^ a"
proof -
  let ?active = "concat (map (pack_hash_to_leaves \<circ> leaf_hash E salt) records)"
  have "length (shard_leaves E salt records) = next_pow2 (length ?active)" by (simp add: shard_leaves_def Let_def)
  then show ?thesis using next_pow2_spec [of "length ?active"] by auto
qed

lemma inner_shard_proved:
  assumes V: "env_ok V" "\<not> debug_assertions (pe_build V)"
    and r: "records \<noteq> []" "length (shard_leaves E salt records) * blowup \<le> 2 ^ 32"
    and z: "\<And>c prm. rollup_codeword V (shard_leaves E salt records) = Some c \<Longrightarrow> build_params (length c) fs ldt = Some prm \<Longrightarrow>
      z_good (pe_hasher V) (pe_tower V) prm (length c) c"
  shows "\<exists>out. prove_inner_shard E (deep_stark V deser) salt records fs ldt = Some out"
proof -
  obtain a where a: "length (shard_leaves E salt records) = 2 ^ a" using shard_leaves_pow by blast
  have le: "a + 5 \<le> 32" using r(2) power_increasing_iff [of "2 :: nat" "a + 5" 32] unfolding a blowup_pow(1) by (simp only: numeral_One [symmetric] num.distinct)
  then have a64: "a + 5 < 64" by simp
  obtain c where c: "rollup_codeword V (shard_leaves E salt records) = Some c" "length c = 2 ^ (a + 5)"
    using rollup_codeword_release [OF V(2) a le] by blast
  obtain prm where prm: "build_params (2 ^ (a + 5)) fs ldt = Some prm"
    using make_schedule_defined [OF is_power_of_two_pow, of "a + 5" ldt] by (auto simp: build_params_def)
  obtain pf where "prove_codeword V c (2 ^ (a + 5)) prm = Some pf" "verify_proof V prm pf"
    using codeword_proved [OF V(1) _ le c(2) prm z [OF c(1), unfolded c(2), OF prm]] by auto
  then show ?thesis
    using c(1) prm r(1) unfolding prove_inner_shard_eq
    by (simp add: a blowup_pow(1) usize_mul_blowup_pow(2) [OF a64] Let_def deep_stark_def compute_merkle_root_eq)
qed

text \<open>C18: A worker of a release build returns a result for every non-empty shard whose domain the field has, if the
  challenge on the composed codeword under the shard's own binding is good (it lies outside the
  domain): composing, proving and verifying its own proof end without a panic.\<close>

theorem worker_returns_result:
  assumes V: "env_ok V" "\<not> debug_assertions (pe_build V)"
    and r: "sp_records spec \<noteq> []" "length (shard_leaves E (sp_zone_salt spec) (sp_records spec)) * blowup \<le> 2 ^ 32"
    and z: "\<And>c prm. rollup_codeword V (shard_leaves E (sp_zone_salt spec) (sp_records spec)) = Some c \<Longrightarrow>
      build_params (length c) (shard_fs_binding E (sp_authority_pk_hash spec) (sp_job_id spec) (sp_shard_id spec) (sp_shard_nonce spec))
        (sp_ldt spec) = Some prm \<Longrightarrow> z_good (pe_hasher V) (pe_tower V) prm (length c) c"
  shows "\<exists>res. handle_assign E (deep_stark V deser) rnd a b kp spec = Some res \<and> sr_shard_id res = sp_shard_id spec"
proof -
  let ?fs = "shard_fs_binding E (sp_authority_pk_hash spec) (sp_job_id spec) (sp_shard_id spec) (sp_shard_nonce spec)"
  obtain out where "prove_inner_shard E (deep_stark V deser) (sp_zone_salt spec) (sp_records spec) ?fs (sp_ldt spec) = Some out"
    using inner_shard_proved [OF V r, of ?fs "sp_ldt spec" deser] z by blast
  then show ?thesis by (simp add: handle_assign_def Let_def)
qed

lemma rollup_codeword_ignores_leaves:
  assumes V: "parallel_feature (pe_build V)" "2 ^ a * blowup < 4096 \<or> num_threads (pe_build V) \<le> 1"
    and l: "length leaves = 2 ^ a" "length leaves' = 2 ^ a"
  shows "rollup_codeword V leaves = rollup_codeword V leaves'"
proof (cases "a + 5 \<le> 32")
  case True
  have "rollup_codeword V ls = Some (replicate (2 ^ a * blowup) 0)" if ls: "length ls = 2 ^ a" for ls
  proof -
    let ?t = "build_hash_rollup_trace (2 ^ a) ls" and ?k = "num_constraints (pe_ed V) HashRollup"
    have t: "trace_shape 4 (2 ^ a) ?t" using rollup.shape [of "2 ^ a" ls] by (simp add: build_hash_rollup_trace_def)
    obtain lde where lde: "lde_trace_columns ?t (2 ^ a) (2 ^ 5) = Some lde" using lde_defined [OF True _ t] by auto
    have "merge_shape_ok lde (comb_coeffs ?k) (air_width (pe_ed V) HashRollup) ?k (2 ^ a * blowup)"
      using lde_shape [OF True _ t _ lde] unfolding blowup_pow(1) by (simp add: merge_shape_ok_def)
    then obtain info where "deep_ali_merge_general (pe_build V) (pe_ed V) lde (comb_coeffs ?k) HashRollup (2 ^ a) blowup =
        Some (replicate (2 ^ a * blowup) 0, info)"
      using parallel_merge_ignores_trace [OF V blowup_pow(1) True] by blast
    then show ?thesis using lde unfolding blowup_pow(2) [symmetric] by (simp add: rollup_codeword_def compose_trace_def ls Let_def)
  qed
  then show ?thesis using l by simp
next
  case False
  have "\<not> (2 :: nat) ^ (a + 5) \<le> 2 ^ 32" using False by (subst power_increasing_iff) simp_all
  then have "\<not> domain_ok (2 ^ a * blowup)" unfolding blowup_pow(1) domain_ok_def next_power_of_two_pow TWO_ADICITY_def .
  then show ?thesis by (simp add: rollup_codeword_def compose_trace_def lde_trace_columns_def l Let_def)
qed

lemma inner_shard_fields:
  assumes "prove_inner_shard E S salt records fs ldt = Some out"
  shows "\<exists>prm. build_params (usize_mul (is_n_trace out) blowup) fs ldt = Some prm \<and> is_n_trace out = length (shard_leaves E salt records) \<and>
    is_proof_blob out = proof_ser S (stark_prove S (shard_leaves E salt records) prm) \<and>
    is_root_f0 out = root_f0_of S (stark_prove S (shard_leaves E salt records) prm)"
  using assms by (auto simp: prove_inner_shard_eq Let_def bind_eq_Some_conv split: if_splits)

lemma length_shard_leaves_1:
  assumes "sha3_len_ok E"
  shows "length (shard_leaves E salt [r]) = 8"
proof -
  have "length (pack_hash_to_leaves (leaf_hash E salt r)) = 4"
    using assms by (simp add: length_pack_hash_to_leaves leaf_hash_def sha3_256_parts_def length_sha3)
  moreover have "next_pow2 4 = 8" by (simp add: next_pow2_def next_power_of_two_def np2_from.simps)
  ultimately show ?thesis by (simp add: shard_leaves_def Let_def)
qed

definition demo_record :: dns_record where
  "demo_record = \<lparr>domain = [97], record_type = 1, ttl = 60, rdata = [10, 0, 0, 1]\<rparr>"

lemma worker_returns_result_witness:
  "\<exists>res. handle_assign toy_ext (deep_stark (toy_env False) (\<lambda>_. None)) [] 0 0 (keygen toy_ext L1 [3])
     \<lparr>sp_shard_id = 7, sp_zone_salt = [1], sp_authority_pk_hash = [], sp_job_id = [], sp_shard_nonce = [], sp_ldt = Stir,
      sp_records = [demo_record]\<rparr> = Some res \<and> sr_shard_id res = 7"
  using worker_returns_result [OF toy_env_ok, where E = toy_ext and spec = "\<lparr>sp_shard_id = 7, sp_zone_salt = [1],
    sp_authority_pk_hash = [], sp_job_id = [], sp_shard_nonce = [], sp_ldt = Stir, sp_records = [demo_record]\<rparr>"]
  by (simp add: length_shard_leaves_1 [OF toy_sha3_len] blowup_def toy_env_good build_params_stir)

text \<open>C16: With the feature \<open>parallel\<close>, on shards whose domain has less than 4096 points or with one thread, the proof does
  not depend on the records: any two shards with the same trace height and binding have the same
  proof and f0 root, which only the Merkle root beside them tells apart.\<close>

theorem small_shard_proofs_equal:
  assumes "parallel_feature (pe_build V)" "is_n_trace out * blowup < 4096 \<or> num_threads (pe_build V) \<le> 1"
    and "prove_inner_shard E (deep_stark V deser) salt records fs ldt = Some out"
    and "prove_inner_shard E (deep_stark V deser) salt' records' fs ldt = Some out'" "is_n_trace out' = is_n_trace out"
  shows "is_proof_blob out' = is_proof_blob out \<and> is_root_f0 out' = is_root_f0 out"
proof -
  let ?l = "shard_leaves E salt records" and ?l' = "shard_leaves E salt' records'"
  obtain prm prm' where f: "build_params (usize_mul (is_n_trace out) blowup) fs ldt = Some prm" "is_n_trace out = length ?l"
      "is_proof_blob out = proof_ser (deep_stark V deser) (stark_prove (deep_stark V deser) ?l prm)"
      "is_root_f0 out = root_f0_of (deep_stark V deser) (stark_prove (deep_stark V deser) ?l prm)"
    and f': "build_params (usize_mul (is_n_trace out') blowup) fs ldt = Some prm'" "is_n_trace out' = length ?l'"
      "is_proof_blob out' = proof_ser (deep_stark V deser) (stark_prove (deep_stark V deser) ?l' prm')"
      "is_root_f0 out' = root_f0_of (deep_stark V deser) (stark_prove (deep_stark V deser) ?l' prm')"
    using inner_shard_fields [OF assms(3)] inner_shard_fields [OF assms(4)] by blast
  obtain a where "length ?l = 2 ^ a" using shard_leaves_pow by blast
  then have "rollup_codeword V ?l = rollup_codeword V ?l'"
    using rollup_codeword_ignores_leaves [OF assms(1), of a ?l ?l'] assms(2,5) f(2) f'(2) by simp
  moreover have "length ?l' = length ?l" using f(2) f'(2) assms(5) by simp
  ultimately have "stark_prove (deep_stark V deser) ?l prm = stark_prove (deep_stark V deser) ?l' prm"
    by (simp add: deep_stark_def)
  moreover have "prm' = prm" using f(1) f'(1) assms(5) by simp
  ultimately show ?thesis using f(3,4) f'(3,4) by simp
qed

lemma small_shard_proofs_equal_witness:
  "\<exists>out out'. prove_inner_shard toy_ext (deep_stark (toy_env True) (\<lambda>_. None)) [1] [demo_record] [] Stir = Some out \<and>
     prove_inner_shard toy_ext (deep_stark (toy_env True) (\<lambda>_. None)) [2] [demo_record] [] Stir = Some out' \<and>
     is_merkle_root out' \<noteq> is_merkle_root out \<and> is_proof_blob out' = is_proof_blob out \<and> is_root_f0 out' = is_root_f0 out"
proof -
  let ?S = "deep_stark (toy_env True) (\<lambda>_. None)"
  have "\<exists>out. prove_inner_shard toy_ext ?S [x] [demo_record] [] Stir = Some out" for x
    by (rule inner_shard_proved [OF toy_env_ok])
       (simp_all add: length_shard_leaves_1 [OF toy_sha3_len] blowup_def toy_env_good build_params_stir)
  then obtain out out' where o: "prove_inner_shard toy_ext ?S [1] [demo_record] [] Stir = Some out"
    "prove_inner_shard toy_ext ?S [2] [demo_record] [] Stir = Some out'" by blast
  have "is_n_trace out = 8" "is_n_trace out' = 8"
    using inner_shard_fields [OF o(1)] inner_shard_fields [OF o(2)] length_shard_leaves_1 [OF toy_sha3_len] by auto
  moreover have "is_merkle_root out \<noteq> is_merkle_root out'"
  proof -
    have "compute_merkle_root toy_ext [1] [demo_record] = Some (is_merkle_root out)"
      "compute_merkle_root toy_ext [2] [demo_record] = Some (is_merkle_root out')"
      using o by (auto simp: prove_inner_shard_eq Let_def bind_eq_Some_conv split: if_splits)
    moreover have "leaf_hash toy_ext [1] demo_record \<noteq> leaf_hash toy_ext [2] demo_record"
      by (simp add: leaf_hash_def sha3_256_parts_def toy_ext_def pad32_def ascii_def)
    ultimately show ?thesis by (simp add: compute_merkle_root_eq)
  qed
  ultimately show ?thesis
    using o small_shard_proofs_equal [OF _ _ o] by (intro exI [of _ out] exI [of _ out']) (auto simp: toy_env_def)
qed

end
