(* ===== verification/Ml_Dsa.thy ===== *)
theory Ml_Dsa
  imports Externals
begin

text \<open>
  The native arithmetic of ML-DSA in \<open>deep_ali\<close>: the parameters of \<open>ml_dsa.rs\<close>, the field of
  \<open>ml_dsa_field.rs\<close>, \<open>Decompose\<close> and the hints of \<open>ml_dsa_decompose.rs\<close>, the norm check of
  \<open>ml_dsa_norm_check.rs\<close>. The Cargo feature that selects the parameter set is the argument of type
  \<open>mldsa_set\<close>. Values are \<open>u32\<close> words; the signed 32- and 64-bit intermediate results, which stay
  far below their bounds, are integers. The debug assertions that an argument is below \<open>Q\<close> are
  hypotheses of the lemmas.
\<close>

section \<open>Parameters\<close>

definition MLQ :: u32 where "MLQ = 8380417"
definition MLN :: nat where "MLN = 256"
definition MLD :: nat where "MLD = 13"

fun ml_L :: "mldsa_set \<Rightarrow> nat" where
  "ml_L MlDsa44 = 4" | "ml_L MlDsa65 = 5" | "ml_L MlDsa87 = 7"

fun ml_K :: "mldsa_set \<Rightarrow> nat" where
  "ml_K MlDsa44 = 4" | "ml_K MlDsa65 = 6" | "ml_K MlDsa87 = 8"

fun ml_ETA :: "mldsa_set \<Rightarrow> nat" where
  "ml_ETA MlDsa44 = 2" | "ml_ETA MlDsa65 = 4" | "ml_ETA MlDsa87 = 2"

fun ml_TAU :: "mldsa_set \<Rightarrow> nat" where
  "ml_TAU MlDsa44 = 39" | "ml_TAU MlDsa65 = 49" | "ml_TAU MlDsa87 = 60"

definition ml_BETA :: "mldsa_set \<Rightarrow> nat" where "ml_BETA m = ml_TAU m * ml_ETA m"

fun ml_GAMMA1 :: "mldsa_set \<Rightarrow> u32" where
  "ml_GAMMA1 MlDsa44 = 131072" | "ml_GAMMA1 MlDsa65 = 524288" | "ml_GAMMA1 MlDsa87 = 524288"

fun ml_GAMMA2_DIV :: "mldsa_set \<Rightarrow> u32" where
  "ml_GAMMA2_DIV MlDsa44 = 88" | "ml_GAMMA2_DIV MlDsa65 = 32" | "ml_GAMMA2_DIV MlDsa87 = 32"

definition ml_GAMMA2 :: "mldsa_set \<Rightarrow> u32" where "ml_GAMMA2 m = (MLQ - 1) div ml_GAMMA2_DIV m"

fun ml_OMEGA :: "mldsa_set \<Rightarrow> nat" where
  "ml_OMEGA MlDsa44 = 80" | "ml_OMEGA MlDsa65 = 55" | "ml_OMEGA MlDsa87 = 75"

fun ml_C_TILDE_BYTES :: "mldsa_set \<Rightarrow> nat" where
  "ml_C_TILDE_BYTES MlDsa44 = 32" | "ml_C_TILDE_BYTES MlDsa65 = 48" | "ml_C_TILDE_BYTES MlDsa87 = 64"

fun ml_PUBLIC_KEY_BYTES :: "mldsa_set \<Rightarrow> nat" where
  "ml_PUBLIC_KEY_BYTES MlDsa44 = 1312" | "ml_PUBLIC_KEY_BYTES MlDsa65 = 1952" | "ml_PUBLIC_KEY_BYTES MlDsa87 = 2592"

fun ml_SIGNATURE_BYTES :: "mldsa_set \<Rightarrow> nat" where
  "ml_SIGNATURE_BYTES MlDsa44 = 2420" | "ml_SIGNATURE_BYTES MlDsa65 = 3309" | "ml_SIGNATURE_BYTES MlDsa87 = 4627"

fun ml_Z_BITS_PER_COEF :: "mldsa_set \<Rightarrow> nat" where
  "ml_Z_BITS_PER_COEF MlDsa44 = 18" | "ml_Z_BITS_PER_COEF MlDsa65 = 20" | "ml_Z_BITS_PER_COEF MlDsa87 = 20"

fun ml_W1_BITS_PER_COEF :: "mldsa_set \<Rightarrow> nat" where
  "ml_W1_BITS_PER_COEF MlDsa44 = 6" | "ml_W1_BITS_PER_COEF MlDsa65 = 4" | "ml_W1_BITS_PER_COEF MlDsa87 = 4"

section \<open>The field\<close>

definition mul_q :: "u32 \<Rightarrow> u32 \<Rightarrow> u32" where
  "mul_q a b = (let prod = (ucast a :: u64) * ucast b in ucast (prod mod ucast MLQ))"

definition add_q :: "u32 \<Rightarrow> u32 \<Rightarrow> u32" where
  "add_q a b = (let s = a + b in if s \<ge> MLQ then s - MLQ else s)"

definition sub_q :: "u32 \<Rightarrow> u32 \<Rightarrow> u32" where
  "sub_q a b = (if a \<ge> b then a - b else a + MLQ - b)"

definition neg_q :: "u32 \<Rightarrow> u32" where
  "neg_q a = (if a = 0 then 0 else MLQ - a)"

definition from_signed :: "int \<Rightarrow> u32" where
  "from_signed x = (if x \<ge> 0 then word_of_int x else word_of_int (x + uint MLQ))"

definition to_signed :: "u32 \<Rightarrow> int" where
  "to_signed x = (if x > MLQ div 2 then uint x - uint MLQ else uint x)"

section \<open>Decompose and hints\<close>

definition NUM_R1_VALUES :: "mldsa_set \<Rightarrow> u32" where
  "NUM_R1_VALUES m = (MLQ - 1) div (2 * ml_GAMMA2 m)"

definition lift_signed :: "int \<Rightarrow> u32" where
  "lift_signed x = (if x \<ge> 0 then word_of_int x else word_of_int (x + uint MLQ))"

definition decompose :: "mldsa_set \<Rightarrow> u32 \<Rightarrow> u32 \<times> u32" where
  "decompose m r =
     (let two_g2 = 2 * ml_GAMMA2 m;
          r_mod = r mod two_g2;
          r0_signed = (if r_mod > ml_GAMMA2 m then uint r_mod - uint two_g2 else uint r_mod);
          r1 = word_of_int ((uint r - r0_signed) div uint two_g2)
      in if r1 = NUM_R1_VALUES m then (0, lift_signed (r0_signed - 1)) else (r1, lift_signed r0_signed))"

definition high_bits :: "mldsa_set \<Rightarrow> u32 \<Rightarrow> u32" where "high_bits m r = fst (decompose m r)"

definition low_bits :: "mldsa_set \<Rightarrow> u32 \<Rightarrow> u32" where "low_bits m r = snd (decompose m r)"

definition make_hint :: "mldsa_set \<Rightarrow> u32 \<Rightarrow> u32 \<Rightarrow> bool" where
  "make_hint m z r \<longleftrightarrow> high_bits m r \<noteq> high_bits m ((r + z) mod MLQ)"

definition use_hint :: "mldsa_set \<Rightarrow> bool \<Rightarrow> u32 \<Rightarrow> u32" where
  "use_hint m h r =
     (let (r1, r0_lifted) = decompose m r
      in if \<not> h then r1
         else let r0_signed = (if r0_lifted > MLQ div 2 then uint r0_lifted - uint MLQ else uint r0_lifted)
           in if r0_signed > 0 then (r1 + 1) mod NUM_R1_VALUES m
              else if r1 = 0 then NUM_R1_VALUES m - 1 else r1 - 1)"

section \<open>The norm check\<close>

definition Z_BOUND :: "mldsa_set \<Rightarrow> u32" where
  "Z_BOUND m = ml_GAMMA1 m - word_of_nat (ml_BETA m)"

definition coeff_in_norm :: "u32 \<Rightarrow> u32 \<Rightarrow> bool" where
  "coeff_in_norm c bound \<longleftrightarrow> (let centred = (if c > MLQ div 2 then uint c - uint MLQ else uint c) in \<bar>centred\<bar> < uint bound)"

definition poly_in_norm :: "u32 list \<Rightarrow> u32 \<Rightarrow> bool" where
  "poly_in_norm poly bound \<longleftrightarrow> list_all (\<lambda>c. coeff_in_norm c bound) poly"

section \<open>The operations are those of the integers modulo q\<close>

definition canon :: "u32 \<Rightarrow> bool" where "canon a \<longleftrightarrow> uint a < 8380417"

lemma uint_MLQ [simp]: "uint MLQ = 8380417"
  by (simp add: MLQ_def)

lemma uint_word_of_int_small: "0 \<le> x \<Longrightarrow> x < 2 ^ 32 \<Longrightarrow> uint (word_of_int x :: u32) = x"
  by (simp add: unsigned_of_int take_bit_int_eq_self)

lemma canonD: "canon a \<Longrightarrow> 0 \<le> uint a \<and> uint a < 8380417"
  by (simp add: canon_def)

lemma uint_add_q:
  assumes "canon a" "canon b"
  shows "uint (add_q a b) = (uint a + uint b) mod 8380417" "canon (add_q a b)"
proof -
  have s: "uint (a + b) = uint a + uint b"
    using canonD [OF assms(1)] canonD [OF assms(2)] by (simp add: uint_word_ariths)
  have d: "MLQ \<le> a + b \<Longrightarrow> uint (a + b - MLQ) = uint a + uint b - 8380417"
    using s by (subst uint_sub_if') (simp add: word_le_def)
  show "uint (add_q a b) = (uint a + uint b) mod 8380417"
  proof (cases "MLQ \<le> a + b")
    case True
    then have "8380417 \<le> uint a + uint b" using s by (simp add: word_le_def)
    moreover have "uint a + uint b - 8380417 < 8380417" using canonD [OF assms(1)] canonD [OF assms(2)] by linarith
    ultimately have "(uint a + uint b) mod 8380417 = uint a + uint b - 8380417"
      using minus_mod_self2 [of "uint a + uint b" 8380417] mod_pos_pos_trivial [of "uint a + uint b - 8380417" 8380417] by simp
    then show ?thesis using True d by (simp add: add_q_def Let_def)
  next
    case False
    then show ?thesis using s by (simp add: add_q_def Let_def word_le_def)
  qed
  then show "canon (add_q a b)" by (simp add: canon_def)
qed

lemma uint_sub_q:
  assumes "canon a" "canon b"
  shows "uint (sub_q a b) = (uint a - uint b) mod 8380417" "canon (sub_q a b)"
proof -
  note c = canonD [OF assms(1)] canonD [OF assms(2)]
  show "uint (sub_q a b) = (uint a - uint b) mod 8380417"
  proof (cases "b \<le> a")
    case True
    then have "uint (a - b) = uint a - uint b" by (subst uint_sub_if') (simp add: word_le_def)
    moreover have "0 \<le> uint a - uint b" using True by (simp add: word_le_def)
    moreover have "uint a - uint b < 8380417" using c by linarith
    ultimately show ?thesis using True mod_pos_pos_trivial [of "uint a - uint b" 8380417] by (simp add: sub_q_def)
  next
    case False
    have s: "uint (a + MLQ) = uint a + 8380417" using c by (simp add: uint_word_ariths)
    moreover have "uint b \<le> uint (a + MLQ)" unfolding s using c by linarith
    ultimately have u: "uint (a + MLQ - b) = uint a + 8380417 - uint b" by (subst uint_sub_if') simp
    have "uint a - uint b < 0" using False by (simp add: word_le_def)
    moreover have "0 \<le> uint a - uint b + 8380417" using c by linarith
    ultimately have "(uint a - uint b) mod 8380417 = uint a - uint b + 8380417"
      using mod_add_self2 [of "uint a - uint b" 8380417] mod_pos_pos_trivial [of "uint a - uint b + 8380417" 8380417] by simp
    then show ?thesis using False u by (simp add: sub_q_def)
  qed
  then show "canon (sub_q a b)" by (simp add: canon_def)
qed

lemma uint_mul_q:
  assumes "canon a" "canon b"
  shows "uint (mul_q a b) = (uint a * uint b) mod 8380417" "canon (mul_q a b)"
proof -
  have "uint a * uint b \<le> 8380417 * 8380417" using canonD [OF assms(1)] canonD [OF assms(2)] by (intro mult_mono) simp_all
  then have p: "uint ((ucast a :: u64) * ucast b) = uint a * uint b"
    using canonD [OF assms(1)] canonD [OF assms(2)] by (simp add: uint_word_ariths unsigned_ucast_eq take_bit_int_eq_self)
  have m: "uint ((ucast a * ucast b :: u64) mod ucast MLQ) = uint a * uint b mod 8380417"
    by (simp add: uint_mod p MLQ_def)
  have "uint a * uint b mod 8380417 < 8380417" by simp
  then show u: "uint (mul_q a b) = (uint a * uint b) mod 8380417"
    by (simp add: mul_q_def Let_def unsigned_ucast_eq m take_bit_int_eq_self)
  show "canon (mul_q a b)" by (simp add: canon_def u)
qed

section \<open>Decompose over the integers\<close>

definition gam :: "mldsa_set \<Rightarrow> int" where "gam m = uint (ml_GAMMA2 m)"
definition nr1 :: "mldsa_set \<Rightarrow> int" where "nr1 m = uint (NUM_R1_VALUES m)"

lemma gam_nr1: "gam m = 95232 \<and> nr1 m = 44 \<or> gam m = 261888 \<and> nr1 m = 16"
  by (cases m) (simp_all add: gam_def nr1_def NUM_R1_VALUES_def ml_GAMMA2_def MLQ_def)

lemma gam_facts: "0 < gam m" "0 < nr1 m" "nr1 m < 45" "gam m < 261889" "2 * gam m * nr1 m = 8380416"
  using gam_nr1 [of m] by auto

text \<open>The nearest multiple of \<open>2 * gam\<close> and the distance to it.\<close>

definition hi :: "mldsa_set \<Rightarrow> int \<Rightarrow> int" where "hi m x = (x + gam m - 1) div (2 * gam m)"
definition lo :: "mldsa_set \<Rightarrow> int \<Rightarrow> int" where "lo m x = x - hi m x * (2 * gam m)"

lemma hi_lo: "x = hi m x * (2 * gam m) + lo m x" "- gam m < lo m x" "lo m x \<le> gam m"
proof -
  have "x + gam m - 1 = hi m x * (2 * gam m) + (x + gam m - 1) mod (2 * gam m)" by (simp only: hi_def div_mult_mod_eq)
  moreover have "0 \<le> (x + gam m - 1) mod (2 * gam m)" "(x + gam m - 1) mod (2 * gam m) < 2 * gam m"
    using gam_facts(1) [of m] by simp_all
  ultimately show "- gam m < lo m x" "lo m x \<le> gam m" unfolding lo_def by linarith+
qed (simp add: lo_def)

lemma hi_unique:
  assumes "x = k * (2 * gam m) + s" "- gam m < s" "s \<le> gam m"
  shows "hi m x = k" "lo m x = s"
proof -
  have x: "x + gam m - 1 = (s + gam m - 1) + k * (2 * gam m)" using assms(1) by simp
  have "(s + gam m - 1) div (2 * gam m) = 0" using assms(2,3) by (intro div_pos_pos_trivial) linarith+
  moreover have nz: "2 * gam m \<noteq> 0" using gam_facts(1) [of m] by simp
  ultimately show "hi m x = k" unfolding hi_def x div_mult_self1 [OF nz] by simp
  then show "lo m x = s" using assms(1) by (simp add: lo_def)
qed

lemma lo_top: "hi m x = nr1 m \<Longrightarrow> x = 8380416 + lo m x"
  using gam_nr1 [of m] hi_lo(1) [of x m] by auto

lemma hi_bounds: "0 \<le> x \<Longrightarrow> x < 8380417 \<Longrightarrow> 0 \<le> hi m x \<and> hi m x \<le> nr1 m"
  using gam_nr1 [of m] by (auto simp: hi_def)

lemma uint_two_gamma2: "uint (2 * ml_GAMMA2 m) = 2 * gam m"
  using gam_facts(1,4) [of m] by (simp add: gam_def uint_word_ariths)

text \<open>The values before the snap.\<close>

lemma pre_snap:
  shows "(if r mod (2 * ml_GAMMA2 m) > ml_GAMMA2 m then uint (r mod (2 * ml_GAMMA2 m)) - uint (2 * ml_GAMMA2 m)
      else uint (r mod (2 * ml_GAMMA2 m))) = lo m (uint r)"
    and "(uint r - lo m (uint r)) div uint (2 * ml_GAMMA2 m) = hi m (uint r)"
proof -
  define t where "t = uint r mod (2 * gam m)"
  define s where "s = (if t > gam m then t - 2 * gam m else t)"
  have g: "0 < gam m" by (rule gam_facts)
  have t: "0 \<le> t" "t < 2 * gam m" using g by (simp_all add: t_def)
  have u: "uint r = (uint r div (2 * gam m) + (if t > gam m then 1 else 0)) * (2 * gam m) + s"
    using mult_div_mod_eq [of "2 * gam m" "uint r"] unfolding s_def t_def by (auto simp: algebra_simps)
  then have hl: "lo m (uint r) = s" using t by (auto intro!: hi_unique simp: s_def)
  have "(r mod (2 * ml_GAMMA2 m) > ml_GAMMA2 m) \<longleftrightarrow> t > gam m"
    by (simp add: word_less_def uint_mod uint_two_gamma2 t_def gam_def)
  then show "(if r mod (2 * ml_GAMMA2 m) > ml_GAMMA2 m then uint (r mod (2 * ml_GAMMA2 m)) - uint (2 * ml_GAMMA2 m)
      else uint (r mod (2 * ml_GAMMA2 m))) = lo m (uint r)"
    by (simp add: uint_mod uint_two_gamma2 hl s_def t_def [symmetric])
  show "(uint r - lo m (uint r)) div uint (2 * ml_GAMMA2 m) = hi m (uint r)"
    using g by (simp add: uint_two_gamma2 lo_def)
qed

lemma hi_snap:
  assumes "canon r"
  shows "(word_of_int (hi m (uint r)) = NUM_R1_VALUES m) \<longleftrightarrow> hi m (uint r) = nr1 m"
proof -
  have "0 \<le> hi m (uint r)" "hi m (uint r) \<le> nr1 m" using hi_bounds canonD [OF assms] by blast+
  then show ?thesis using gam_facts(3) [of m] by (auto simp: nr1_def word_uint_eq_iff uint_word_of_int_small)
qed

lemma decompose_eq:
  assumes "canon r"
  shows "decompose m r = (if hi m (uint r) = nr1 m then (0, lift_signed (lo m (uint r) - 1))
    else (word_of_int (hi m (uint r)), lift_signed (lo m (uint r))))"
  by (simp only: decompose_def Let_def pre_snap hi_snap [OF assms])

text \<open>The centred residue of a lifted value.\<close>

lemma uint_lift_signed:
  assumes "- 4190208 \<le> x" "x \<le> 4190208"
  shows "uint (lift_signed x) = (if x \<ge> 0 then x else x + 8380417)"
proof (cases "x \<ge> 0")
  case True
  then show ?thesis using uint_word_of_int_small [of x] assms by (simp add: lift_signed_def)
next
  case False
  then show ?thesis using uint_word_of_int_small [of "x + 8380417"] assms by (simp add: lift_signed_def)
qed

lemma to_signed_lift:
  assumes "- 4190208 \<le> x" "x \<le> 4190208"
  shows "to_signed (lift_signed x) = x" "canon (lift_signed x)"
proof -
  have d: "uint (MLQ div 2) = 4190208" by (simp add: MLQ_def)
  show "to_signed (lift_signed x) = x" "canon (lift_signed x)"
    using assms d by (auto simp: to_signed_def uint_lift_signed canon_def word_less_def)
qed

lemma lift_to_signed: "canon r \<Longrightarrow> lift_signed (to_signed r) = r"
proof -
  assume "canon r"
  moreover have d: "uint (MLQ div 2) = 4190208" by (simp add: MLQ_def)
  ultimately show ?thesis by (auto simp: to_signed_def lift_signed_def canon_def word_less_def)
qed

lemma decompose_values:
  assumes "canon r" "decompose m r = (r1, r0)"
  shows "uint r1 = hi m (uint r) mod nr1 m" "to_signed r0 = (if hi m (uint r) = nr1 m then lo m (uint r) - 1 else lo m (uint r))"
    "canon r0"
proof -
  have b: "0 \<le> hi m (uint r)" "hi m (uint r) \<le> nr1 m" using hi_bounds canonD [OF assms(1)] by blast+
  note l = hi_lo(2,3) [of m "uint r"] gam_facts [of m]
  have "to_signed (lift_signed (lo m (uint r))) = lo m (uint r)" "canon (lift_signed (lo m (uint r)))"
    "to_signed (lift_signed (lo m (uint r) - 1)) = lo m (uint r) - 1" "canon (lift_signed (lo m (uint r) - 1))"
    using l(1,2,6) by (auto intro!: to_signed_lift)
  then show "to_signed r0 = (if hi m (uint r) = nr1 m then lo m (uint r) - 1 else lo m (uint r))" "canon r0"
    using assms(2) by (auto simp: decompose_eq [OF assms(1)] split: if_splits)
  show "uint r1 = hi m (uint r) mod nr1 m"
    using assms(2) b l(5) by (auto simp: decompose_eq [OF assms(1)] uint_word_of_int_small split: if_splits)
qed

text \<open>What \<open>decompose\<close> computes, for all three parameter sets: the high part is below \<open>NUM_R1_VALUES\<close>, the low part is
  within gamma2 of zero, and together they make up the argument modulo q.\<close>

lemma decompose_spec:
  assumes "uint r < uint MLQ" "decompose m r = (r1, r0)"
  shows "r1 < NUM_R1_VALUES m \<and> \<bar>to_signed r0\<bar> \<le> uint (ml_GAMMA2 m) \<and>
    uint r = (uint r1 * uint (2 * ml_GAMMA2 m) + to_signed r0) mod uint MLQ"
proof -
  have c: "canon r" using assms(1) by (simp add: canon_def)
  note v = decompose_values [OF c assms(2)] and h = hi_lo(1) [of "uint r" m] hi_lo(2,3) [of m "uint r"] and g = gam_facts [of m]
  have b: "0 \<le> hi m (uint r)" "hi m (uint r) \<le> nr1 m" using hi_bounds canonD [OF c] by blast+
  have "uint r1 < nr1 m" using v(1) g(2) by simp
  then have "r1 < NUM_R1_VALUES m" by (simp add: word_less_def nr1_def)
  moreover have "\<bar>to_signed r0\<bar> \<le> gam m \<and> uint r = (uint r1 * (2 * gam m) + to_signed r0) mod 8380417"
  proof (cases "hi m (uint r) = nr1 m")
    case True
    then have r: "uint r = 8380416 + lo m (uint r)" by (rule lo_top)
    then have "lo m (uint r) \<le> 0" using canonD [OF c] by linarith
    moreover have "uint r = (lo m (uint r) - 1) mod 8380417"
      using r canonD [OF c] mod_add_self2 [of "lo m (uint r) - 1" 8380417] mod_pos_pos_trivial [of "uint r" 8380417] by simp
    ultimately show ?thesis using True v(1,2) h(2) by simp
  next
    case False
    then have "uint r1 = hi m (uint r)" using v(1) b by simp
    then have "uint r1 * (2 * gam m) + to_signed r0 = uint r" using False v(2) h(1) by simp
    then show ?thesis using False v(2) h(2,3) canonD [OF c] by simp
  qed
  ultimately show ?thesis by (simp add: uint_two_gamma2 gam_def)
qed

lemma decompose_spec_witness:
  "\<exists>r1 r0. decompose MlDsa44 8380000 = (r1, r0) \<and> r1 < NUM_R1_VALUES MlDsa44 \<and> \<bar>to_signed r0\<bar> \<le> uint (ml_GAMMA2 MlDsa44) \<and>
    uint (8380000 :: u32) = (uint r1 * uint (2 * ml_GAMMA2 MlDsa44) + to_signed r0) mod uint MLQ"
proof -
  obtain r1 r0 where d: "decompose MlDsa44 8380000 = (r1, r0)" by (cases "decompose MlDsa44 8380000")
  show ?thesis using d decompose_spec [OF _ d] by (intro exI [of _ r1] exI [of _ r0]) simp
qed

section \<open>Hints\<close>

lemma uint_high_bits: "canon r \<Longrightarrow> uint (high_bits m r) = hi m (uint r) mod nr1 m"
  using decompose_values(1) [of r m] by (cases "decompose m r") (simp add: high_bits_def)

lemma low_bits_pos:
  assumes "canon r"
  shows "0 < to_signed (low_bits m r) \<longleftrightarrow> hi m (uint r) \<noteq> nr1 m \<and> 0 < lo m (uint r)"
proof -
  have v: "to_signed (low_bits m r) = (if hi m (uint r) = nr1 m then lo m (uint r) - 1 else lo m (uint r))"
    using decompose_values(2) [OF assms] by (cases "decompose m r") (simp add: low_bits_def)
  show ?thesis
  proof (cases "hi m (uint r) = nr1 m")
    case True
    then have "lo m (uint r) \<le> 0" using lo_top [of m "uint r"] canonD [OF assms] by simp
    then show ?thesis using v True by simp
  qed (simp add: v)
qed

lemma uint_use_hint:
  assumes "canon r"
  shows "uint (use_hint m h r) =
    (if \<not> h then hi m (uint r) mod nr1 m
     else if hi m (uint r) \<noteq> nr1 m \<and> 0 < lo m (uint r) then (hi m (uint r) + 1) mod nr1 m
     else (hi m (uint r) - 1) mod nr1 m)"
proof -
  obtain r1 r0 where d: "decompose m r = (r1, r0)" by (cases "decompose m r")
  note v = decompose_values [OF assms d] and g = gam_facts [of m]
  have b: "0 \<le> hi m (uint r)" "hi m (uint r) \<le> nr1 m" using hi_bounds canonD [OF assms] by blast+
  have r: "uint r < 8380417" using canonD [OF assms] by blast
  define k where "k = hi m (uint r)"
  have pos: "0 < to_signed r0 \<longleftrightarrow> k \<noteq> nr1 m \<and> 0 < lo m (uint r)"
    using low_bits_pos [OF assms, of m] by (simp add: low_bits_def d k_def)
  have n: "uint (NUM_R1_VALUES m) = nr1 m" by (simp add: nr1_def)
  have lt: "uint r1 < nr1 m" using v(1) g(2) by simp
  have up: "uint ((r1 + 1) mod NUM_R1_VALUES m) = (uint r1 + 1) mod nr1 m"
    using lt g(3) by (simp add: uint_mod n uint_word_ariths)
  have down: "uint (if r1 = 0 then NUM_R1_VALUES m - 1 else r1 - 1) = (uint r1 - 1) mod nr1 m"
  proof (cases "uint r1 = 0")
    case True
    then have z: "r1 = 0" by (simp add: word_uint_eq_iff)
    have "uint (NUM_R1_VALUES m - 1) = nr1 m - 1" using n g(2) by (subst uint_sub_if') simp
    moreover have "(- 1) mod nr1 m = nr1 m - 1" using g(2) by (simp add: zmod_minus1)
    ultimately show ?thesis using z by simp
  next
    case False
    then have "r1 \<noteq> 0" "1 \<le> uint r1" using uint_ge_0 [of r1] by (auto simp: word_uint_eq_iff order_le_less)
    moreover from this have "uint (r1 - 1) = uint r1 - 1" by (subst uint_sub_if') simp
    ultimately show ?thesis using lt by simp
  qed
  have sgn: "(if r0 > MLQ div 2 then uint r0 - uint MLQ else uint r0) = to_signed r0" by (simp add: to_signed_def)
  have "uint (use_hint m h r) = (if \<not> h then uint r1 else if 0 < to_signed r0 then (uint r1 + 1) mod nr1 m else (uint r1 - 1) mod nr1 m)"
    unfolding use_hint_def d Let_def prod.case sgn using down by (auto simp: up)
  then show ?thesis using v(1) pos unfolding k_def by (simp only: mod_add_left_eq mod_diff_left_eq)
qed

text \<open>A shift by at most \<open>gam\<close> moves the high part by at most one, in the direction of the low part's sign.\<close>

lemma hi_shift:
  assumes "\<bar>z\<bar> \<le> gam m"
  shows "hi m (x + z) = hi m x \<or> (hi m (x + z) = hi m x + 1 \<and> 0 < lo m x) \<or> (hi m (x + z) = hi m x - 1 \<and> lo m x \<le> 0)"
proof -
  have x: "x + z = hi m x * (2 * gam m) + (lo m x + z)" using hi_lo(1) [of x m] by simp
  note l = hi_lo(2,3) [of m x] and g = gam_facts(1) [of m]
  consider "lo m x + z > gam m" | "lo m x + z \<le> - gam m" | "- gam m < lo m x + z \<and> lo m x + z \<le> gam m" by linarith
  then show ?thesis
  proof cases
    case 1
    have "x + z = (hi m x + 1) * (2 * gam m) + (lo m x + z - 2 * gam m)" using x by (simp add: algebra_simps)
    then have "hi m (x + z) = hi m x + 1" by (rule hi_unique) (use 1 l assms in linarith)+
    then show ?thesis using 1 assms by linarith
  next
    case 2
    have "x + z = (hi m x - 1) * (2 * gam m) + (lo m x + z + 2 * gam m)" using x by (simp add: algebra_simps)
    then have "hi m (x + z) = hi m x - 1" by (rule hi_unique) (use 2 l assms in linarith)+
    then show ?thesis using 2 assms by linarith
  next
    case 3
    then show ?thesis using hi_unique(1) [OF x] by blast
  qed
qed

text \<open>C31: Hints do what they are for, for all three parameter sets: if z is within gamma2 of zero, the hint computed from z and r
  makes \<open>use_hint\<close> return the high bits of r + z.\<close>

theorem use_hint_recovers:
  assumes "uint r < uint MLQ" "uint z < uint MLQ" "\<bar>to_signed z\<bar> \<le> uint (ml_GAMMA2 m)"
  shows "use_hint m (make_hint m z r) r = high_bits m ((r + z) mod MLQ)"
proof -
  define r' where "r' = (r + z) mod MLQ"
  define x y where "x = uint r" and "y = to_signed z"
  have c: "canon r" "canon z" using assms(1,2) by (simp_all add: canon_def)
  have "uint (r + z) = uint r + uint z" using canonD [OF c(1)] canonD [OF c(2)] by (simp add: uint_word_ariths)
  then have "uint r' = (uint r + uint z) mod 8380417" by (simp add: r'_def uint_mod)
  also have "\<dots> = (x + y) mod 8380417"
    unfolding x_def y_def to_signed_def using mod_diff_right_eq [of "uint r + uint z" 8380417 8380417]
    by (simp add: add_diff_eq)
  finally have r': "uint r' = (x + y) mod 8380417" .
  have c': "canon r'" unfolding canon_def r' by simp
  have x: "0 \<le> x" "x < 8380417" using canonD [OF c(1)] by (simp_all add: x_def)
  have y: "\<bar>y\<bar> \<le> gam m" using assms(3) by (simp add: y_def gam_def)
  note g = gam_facts [of m]
  let ?n = "nr1 m"
  have hb: "uint (high_bits m r) = hi m x mod ?n" "uint (high_bits m r') = hi m (uint r') mod ?n"
    using uint_high_bits c(1) c' by (simp_all add: x_def)
  have mh: "make_hint m z r \<longleftrightarrow> high_bits m r \<noteq> high_bits m r'" by (simp add: make_hint_def r'_def)
  show ?thesis
  proof (cases "make_hint m z r")
    case False
    then have "high_bits m r = high_bits m r'" using mh by simp
    moreover have "use_hint m False r = high_bits m r" by (simp add: use_hint_def high_bits_def split: prod.splits)
    ultimately show ?thesis using False by (simp add: r'_def)
  next
    case True
    then have ne: "hi m x mod ?n \<noteq> hi m (uint r') mod ?n" using mh hb by (auto simp: word_uint_eq_iff)
    have b: "0 \<le> hi m x" "hi m x \<le> ?n" using hi_bounds x by blast+
    have top: "8380416 - gam m < v \<Longrightarrow> v < 8380417 \<Longrightarrow> hi m v = ?n" for v
      using hi_unique(1) [of v ?n m "v - 8380416"] g(5) by (simp add: mult.commute [of ?n])
    have low: "0 \<le> v \<Longrightarrow> v \<le> gam m \<Longrightarrow> hi m v = 0" for v
      using hi_unique(1) [of v 0 m v] g(1) by simp
    have inside: "0 \<le> x + y \<and> x + y < 8380417"
    proof (rule ccontr)
      assume n: "\<not> (0 \<le> x + y \<and> x + y < 8380417)"
      then consider "x + y < 0" | "8380417 \<le> x + y" by linarith
      then show False
      proof cases
        case 1
        have "(x + y + 8380417) mod 8380417 = x + y + 8380417" using 1 x y g(4) by (intro mod_pos_pos_trivial) linarith+
        then have "uint r' = x + y + 8380417" using r' by simp
        then have "hi m (uint r') = ?n" using 1 x y by (intro top) linarith+
        moreover have "hi m x = 0" using 1 x y by (intro low) linarith+
        ultimately show False using ne by simp
      next
        case 2
        have "(x + y - 8380417) mod 8380417 = x + y - 8380417" using 2 x y g(4) by (intro mod_pos_pos_trivial) linarith+
        then have "uint r' = x + y - 8380417" using r' minus_mod_self2 [of "x + y" 8380417] by simp
        then have "hi m (uint r') = 0" using 2 x y by (intro low) linarith+
        moreover have "hi m x = ?n" using 2 x y by (intro top) linarith+
        ultimately show False using ne by simp
      qed
    qed
    then have u: "uint r' = x + y" using r' by simp
    have b': "0 \<le> hi m (x + y)" "hi m (x + y) \<le> ?n" using hi_bounds inside by blast+
    have "uint (use_hint m True r) = hi m (x + y) mod ?n"
      using hi_shift [OF y, of x] ne b b' uint_use_hint [OF c(1), of m True] unfolding u x_def [symmetric] by auto
    then have "use_hint m True r = high_bits m r'" using hb(2) u by (simp add: word_uint_eq_iff)
    then show ?thesis using True by (simp add: r'_def)
  qed
qed

lemma use_hint_recovers_witness:
  "use_hint MlDsa65 (make_hint MlDsa65 8118529 300000) 300000 = high_bits MlDsa65 ((300000 + 8118529) mod MLQ)"
  by (rule use_hint_recovers) (simp_all add: to_signed_def ml_GAMMA2_def MLQ_def)

end
