(* ===== verification/Ml_Dsa_Ntt.thy ===== *)
theory Ml_Dsa_Ntt
  imports Ml_Dsa "HOL-Library.Numeral_Type"
begin

text \<open>
  The number-theoretic transform of ML-DSA (\<open>ml_dsa_ntt.rs\<close>): the table of root powers, the forward and
  inverse transforms as the loops of the source on a list of 256 words, the pointwise product. They are
  shown to be inverse to each other and to multiply in Z_q[X] / (X^256 + 1).
\<close>

unbundle bit_operations_syntax

section \<open>The code\<close>

definition ML_ZETA :: u64 where "ML_ZETA = 1753"

fun br8_loop :: "nat \<Rightarrow> u32 \<Rightarrow> u32 \<Rightarrow> u32" where
  "br8_loop 0 x r = r"
| "br8_loop (Suc n) x r = br8_loop n (drop_bit 1 x) (push_bit 1 r OR (x AND 1))"

definition br8 :: "u32 \<Rightarrow> u32" where "br8 x = br8_loop 8 x 0"

function zeta_loop :: "u64 \<Rightarrow> u64 \<Rightarrow> u64 \<Rightarrow> u64" where
  "zeta_loop acc base e =
     (if e > 0 then zeta_loop (if e AND 1 = 1 then acc * base mod ucast MLQ else acc) (base * base mod ucast MLQ) (drop_bit 1 e)
      else acc)"
  by auto
termination
  by (relation "measure (\<lambda>(acc, base, e). unat e)") (auto simp: drop_bit_eq_div unat_div word_gt_0 unat_gt_0)

declare zeta_loop.simps [simp del]

definition compute_zetas :: "u32 list" where
  "compute_zetas = map (\<lambda>i. ucast (zeta_loop 1 ML_ZETA (ucast (br8 (word_of_nat i))))) [0..<256]"

definition ntt_butterfly :: "u32 \<Rightarrow> nat \<Rightarrow> nat \<Rightarrow> u32 list \<Rightarrow> u32 list" where
  "ntt_butterfly zeta len j a =
     (let t = mul_q zeta (a ! (j + len)); a = a[j + len := sub_q (a ! j) t] in a[j := add_q (a ! j) t])"

text \<open>The loop over \<open>start\<close>; that \<open>len\<close> is positive is the condition of the loop around it.\<close>

function ntt_starts :: "u32 list \<Rightarrow> nat \<Rightarrow> nat \<Rightarrow> nat \<Rightarrow> u32 list \<Rightarrow> nat \<times> u32 list" where
  "ntt_starts zetas len start k a =
     (if start < 256 \<and> 0 < len
      then ntt_starts zetas len (start + 2 * len) (k + 1) (fold (ntt_butterfly (zetas ! (k + 1)) len) [start..<start + len] a)
      else (k, a))"
  by auto
termination
  by (relation "measure (\<lambda>(zetas, len, start, k, a). 256 - start)") auto

declare ntt_starts.simps [simp del]

function ntt_lens :: "u32 list \<Rightarrow> nat \<Rightarrow> nat \<Rightarrow> u32 list \<Rightarrow> u32 list" where
  "ntt_lens zetas len k a =
     (if len > 0 then (let (k, a) = ntt_starts zetas len 0 k a in ntt_lens zetas (len div 2) k a) else a)"
  by auto
termination
  by (relation "measure (\<lambda>(zetas, len, k, a). len)") auto

declare ntt_lens.simps [simp del]

definition ntt :: "u32 list \<Rightarrow> u32 list" where
  "ntt a = ntt_lens compute_zetas 128 0 a"

definition inv_butterfly :: "u32 \<Rightarrow> nat \<Rightarrow> nat \<Rightarrow> u32 list \<Rightarrow> u32 list" where
  "inv_butterfly zeta len j a =
     (let t = a ! j; a = a[j := add_q t (a ! (j + len))] in a[j + len := mul_q zeta (sub_q t (a ! (j + len)))])"

function inv_starts :: "u32 list \<Rightarrow> nat \<Rightarrow> nat \<Rightarrow> nat \<Rightarrow> u32 list \<Rightarrow> nat \<times> u32 list" where
  "inv_starts zetas len start k a =
     (if start < 256 \<and> 0 < len
      then inv_starts zetas len (start + 2 * len) (k - 1) (fold (inv_butterfly (MLQ - zetas ! (k - 1)) len) [start..<start + len] a)
      else (k, a))"
  by auto
termination
  by (relation "measure (\<lambda>(zetas, len, start, k, a). 256 - start)") auto

declare inv_starts.simps [simp del]

function inv_lens :: "u32 list \<Rightarrow> nat \<Rightarrow> nat \<Rightarrow> u32 list \<Rightarrow> u32 list" where
  "inv_lens zetas len k a =
     (if len < 256 \<and> 0 < len then (let (k, a) = inv_starts zetas len 0 k a in inv_lens zetas (2 * len) k a) else a)"
  by auto
termination
  by (relation "measure (\<lambda>(zetas, len, k, a). 256 - len)") auto

declare inv_lens.simps [simp del]

definition N_INV :: u32 where "N_INV = 8347681"

definition ntt_inv :: "u32 list \<Rightarrow> u32 list" where
  "ntt_inv a = map (\<lambda>v. mul_q v N_INV) (inv_lens compute_zetas 1 256 a)"

definition ntt_pointwise_mul :: "u32 list \<Rightarrow> u32 list \<Rightarrow> u32 list" where
  "ntt_pointwise_mul a b = map (\<lambda>i. mul_q (a ! i) (b ! i)) [0..<256]"

section \<open>The integers modulo q\<close>

typedef zq = "{0 ..< 8380417 :: int}"
  by (rule exI [of _ 0]) simp

instantiation zq :: "{zero, one, plus, times, uminus, minus}"
begin

definition zero_zq_def: "0 = Abs_zq 0"
definition one_zq_def: "1 = Abs_zq 1"
definition plus_zq_def: "x + y = Abs_zq ((Rep_zq x + Rep_zq y) mod 8380417)"
definition times_zq_def: "x * y = Abs_zq ((Rep_zq x * Rep_zq y) mod 8380417)"
definition minus_zq_def: "x - y = Abs_zq ((Rep_zq x - Rep_zq y) mod 8380417)"
definition uminus_zq_def: "- x = Abs_zq ((- Rep_zq x) mod 8380417)"

instance ..

end

interpretation zq: mod_type 8380417 Rep_zq Abs_zq
  by (rule mod_type.intro)
    (simp_all add: type_definition_zq zero_zq_def one_zq_def plus_zq_def times_zq_def minus_zq_def uminus_zq_def)

instance zq :: comm_ring_1
  by (rule zq.comm_ring_1)

interpretation zq: mod_ring 8380417 Rep_zq Abs_zq ..

lemma zq_of_int_eq_iff: "(of_int a :: zq) = of_int b \<longleftrightarrow> a mod 8380417 = b mod 8380417"
  by (metis zq.Rep_Abs_mod zq.of_int_eq)

definition zq_of :: "u32 \<Rightarrow> zq" where "zq_of x = of_int (uint x)"

lemma zq_of_mod: "uint x = y mod 8380417 \<Longrightarrow> zq_of x = of_int y"
  unfolding zq_of_def zq_of_int_eq_iff by simp

lemma zq_of_ops:
  assumes "canon a" "canon b"
  shows "zq_of (add_q a b) = zq_of a + zq_of b" "zq_of (sub_q a b) = zq_of a - zq_of b" "zq_of (mul_q a b) = zq_of a * zq_of b"
  using zq_of_mod [OF uint_add_q(1) [OF assms]] zq_of_mod [OF uint_sub_q(1) [OF assms]] zq_of_mod [OF uint_mul_q(1) [OF assms]]
  by (simp_all add: zq_of_def)

lemma zq_of_inj: "canon a \<Longrightarrow> canon b \<Longrightarrow> zq_of a = zq_of b \<Longrightarrow> a = b"
  unfolding zq_of_def zq_of_int_eq_iff by (simp add: canon_def word_uint_eq_iff)

section \<open>The table\<close>

lemma zeta_loop_value:
  assumes "uint acc < 8380417" "uint base < 8380417"
  shows "uint (zeta_loop acc base e) = uint acc * uint base ^ unat e mod 8380417"
  using assms
proof (induction acc base e rule: zeta_loop.induct)
  case (1 acc base e)
  show ?case
  proof (cases "e > 0")
    case False
    then show ?thesis using 1(2) by (subst zeta_loop.simps) (simp add: word_gt_0)
  next
    case True
    define a' where "a' = (if e AND 1 = 1 then acc * base mod ucast MLQ else acc)"
    define b' where "b' = base * base mod ucast MLQ"
    have small: "uint x * uint y < 2 ^ 64" if "uint x < 8380417" "uint y < 8380417" for x y :: u64
    proof -
      have "uint x * uint y \<le> 8380417 * 8380417" using that by (intro mult_mono) simp_all
      then show ?thesis by simp
    qed
    have m: "uint (x * y mod ucast MLQ) = uint x * uint y mod 8380417" if "uint x < 8380417" "uint y < 8380417" for x y :: u64
      using small [OF that] by (simp add: uint_mod uint_word_ariths MLQ_def)
    have odd: "(e AND 1 = 1) \<longleftrightarrow> odd (unat e)"
      by (simp add: and_one_eq word_unat_eq_iff unat_mod odd_iff_mod_2_eq_one)
    have a': "uint a' = (if odd (unat e) then uint acc * uint base mod 8380417 else uint acc)"
      using m [OF 1(2,3)] by (simp add: a'_def odd)
    have b': "uint b' = uint base * uint base mod 8380417" using m [OF 1(3,3)] by (simp add: b'_def)
    have d: "unat (drop_bit 1 e) = unat e div 2" by (simp add: drop_bit_eq_div unat_div)
    have "uint (zeta_loop acc base e) = uint (zeta_loop a' b' (drop_bit 1 e))"
      using True by (subst zeta_loop.simps) (simp add: a'_def b'_def)
    also have "\<dots> = uint a' * uint b' ^ (unat e div 2) mod 8380417"
      using 1(1) [OF True] a' b' 1(2) by (simp add: a'_def b'_def d [simplified])
    also have "\<dots> = uint a' * (uint base * uint base) ^ (unat e div 2) mod 8380417"
      unfolding b' by (metis mod_mult_right_eq power_mod)
    also have "\<dots> = uint acc * uint base ^ unat e mod 8380417"
    proof (cases "odd (unat e)")
      case True
      then obtain n where n: "unat e = Suc (2 * n)" by (auto elim: oddE)
      show ?thesis unfolding a' n by (simp add: mod_simps power_mult power2_eq_square mult.assoc flip: power_mult_distrib)
    next
      case False
      then obtain n where n: "unat e = 2 * n" by (auto elim: evenE)
      show ?thesis unfolding a' n by (simp add: power_mult power2_eq_square)
    qed
    finally show ?thesis .
  qed
qed

text \<open>Bit reversal as a number.\<close>

fun brn :: "nat \<Rightarrow> nat \<Rightarrow> nat" where
  "brn 0 x = 0"
| "brn (Suc n) x = brn n (x div 2) + (x mod 2) * 2 ^ n"

lemma br8_loop_brn:
  assumes "unat r < 2 ^ m" "m + n \<le> 31"
  shows "unat (br8_loop n x r) = unat r * 2 ^ n + brn n (unat x)"
  using assms
proof (induction n x r arbitrary: m rule: br8_loop.induct)
  case (2 n x r)
  have lt: "2 * unat r + 1 < 2 ^ Suc m" using 2(2) by simp
  have "(2 :: nat) ^ Suc m \<le> 2 ^ 31" using 2(3) by (intro power_increasing) simp_all
  then have b: "2 * unat r + 1 < 2 ^ 31" using lt by simp
  have "push_bit 1 r OR (x AND 1) = push_bit 1 r + (x AND 1)"
    by (rule disjunctive_add [symmetric]) (auto simp only: bit_push_bit_iff bit_and_iff bit_1_iff)
  then have u: "unat (push_bit 1 r OR (x AND 1)) = 2 * unat r + unat x mod 2"
    using b by (simp add: push_bit_eq_mult and_one_eq unat_word_ariths unat_mod)
  have "unat (push_bit 1 r OR (x AND 1)) < 2 ^ Suc m" unfolding u using lt by linarith
  then have "unat (br8_loop n (drop_bit 1 x) (push_bit 1 r OR (x AND 1))) =
      (2 * unat r + unat x mod 2) * 2 ^ n + brn n (unat (drop_bit 1 x))"
    using 2(1) [of "Suc m"] 2(3) u by simp
  moreover have "unat (drop_bit 1 x) = unat x div 2" by (simp add: drop_bit_eq_div unat_div)
  ultimately have "unat (br8_loop n (drop_bit 1 x) (push_bit 1 r OR (x AND 1))) =
      (2 * unat r + unat x mod 2) * 2 ^ n + brn n (unat x div 2)" by (simp only:)
  then show ?case unfolding br8_loop.simps brn.simps power_Suc by (simp only: algebra_simps)
qed simp

lemma unat_br8: "k < 256 \<Longrightarrow> unat (br8 (word_of_nat k)) = brn 8 k"
  using br8_loop_brn [of 0 0 8 "word_of_nat k"] by (simp add: br8_def unat_of_nat)

lemma brn_0 [simp]: "brn n 0 = 0"
  by (induction n) simp_all

lemma brn_Suc_small: "x < 2 ^ n \<Longrightarrow> brn (Suc n) x = 2 * brn n x"
proof (induction n arbitrary: x)
  case (Suc n)
  have "brn (Suc n) (x div 2) = 2 * brn n (x div 2)" using Suc.prems by (intro Suc.IH) simp
  then show ?case by simp
qed simp

lemma brn8_halves: "k < 256 \<Longrightarrow> 2 * brn 8 k = brn 8 (k div 2) + (k mod 2) * 256"
  using brn_Suc_small [of "k div 2" 7] brn.simps(2) [of 7 k] by (simp del: brn.simps)

lemma brn8_mirror:
  "d < 8 \<Longrightarrow> b < 2 ^ d \<Longrightarrow> brn 8 (2 ^ d + b) + brn 8 (2 * 2 ^ d - 1 - b) = 256"
proof (induction d arbitrary: b)
  case 0
  then show ?case using brn8_halves [of 1] by (simp del: brn.simps)
next
  case (Suc d)
  have "(2 :: nat) ^ Suc d \<le> 2 ^ 7" using Suc.prems(1) by (intro power_increasing) simp_all
  then have s: "2 ^ Suc d + b < 256" "2 * 2 ^ Suc d - 1 - b < (256 :: nat)" using Suc.prems(2) by simp_all
  define p :: nat where "p = 2 ^ d"
  have b: "b < 2 * p" using Suc.prems(2) by (simp add: p_def)
  have "4 * p - 1 - b = 2 * (2 * p - 1 - b div 2) + (1 - b mod 2)"
    using b mult_div_mod_eq [of 2 b] by linarith
  moreover have "x = 2 * y + e \<Longrightarrow> e < 2 \<Longrightarrow> x div 2 = y \<and> x mod 2 = e" for x y e :: nat by auto
  ultimately have "(4 * p - 1 - b) div 2 = 2 * p - 1 - b div 2" "(4 * p - 1 - b) mod 2 = 1 - b mod 2" by (meson less_imp_diff_less one_less_numeral_iff semiring_norm(76))+
  moreover have "(2 * p + b) div 2 = p + b div 2" "(2 * p + b) mod 2 = b mod 2" by simp_all
  moreover have "b mod 2 + (1 - b mod 2) = 1" by simp
  ultimately have h: "(2 ^ Suc d + b) div 2 = 2 ^ d + b div 2" "(2 * 2 ^ Suc d - 1 - b) div 2 = 2 * 2 ^ d - 1 - b div 2"
    "(2 ^ Suc d + b) mod 2 + (2 * 2 ^ Suc d - 1 - b) mod 2 = 1"
    by (simp_all add: p_def)
  have "2 * (brn 8 (2 ^ Suc d + b) + brn 8 (2 * 2 ^ Suc d - 1 - b)) =
      brn 8 (2 ^ d + b div 2) + brn 8 (2 * 2 ^ d - 1 - b div 2) +
      ((2 ^ Suc d + b) mod 2 + (2 * 2 ^ Suc d - 1 - b) mod 2) * 256"
    using brn8_halves [OF s(1)] brn8_halves [OF s(2)] h(1,2) by (simp del: brn.simps)
  also have "\<dots> = 512" using Suc h(3) by (simp del: brn.simps)
  finally show ?case by (simp del: brn.simps)
qed

definition zeta_q :: zq where "zeta_q = of_int 1753"

definition zpow :: "nat \<Rightarrow> zq" where "zpow k = zeta_q ^ brn 8 k"

lemma zeta_256: "zeta_q ^ 256 = - 1"
proof -
  have sq:
    "(of_int 1753 :: zq) * of_int 1753 = of_int 3073009"
    "(of_int 3073009 :: zq) * of_int 3073009 = of_int 3602218"
    "(of_int 3602218 :: zq) * of_int 3602218 = of_int 5010068"
    "(of_int 5010068 :: zq) * of_int 5010068 = of_int 7778734"
    "(of_int 7778734 :: zq) * of_int 7778734 = of_int 5178923"
    "(of_int 5178923 :: zq) * of_int 5178923 = of_int 3765607"
    "(of_int 3765607 :: zq) * of_int 3765607 = of_int 4808194"
    "(of_int 4808194 :: zq) * of_int 4808194 = of_int 8380416"
    unfolding of_int_mult [symmetric] zq_of_int_eq_iff by simp_all
  have dbl: "x ^ (2 * n) = x ^ n * x ^ n" for x :: zq and n by (simp only: mult_2 power_add)
  have "zeta_q ^ 256 = zeta_q ^ (2 * (2 * (2 * (2 * (2 * (2 * (2 * (2 * 1))))))))" by simp
  also have "\<dots> = of_int 8380416" unfolding dbl power_one_right zeta_q_def sq ..
  also have "\<dots> = of_int (- 1)" unfolding zq_of_int_eq_iff by simp
  finally show ?thesis by simp
qed

lemma length_zetas: "length compute_zetas = 256"
  by (simp add: compute_zetas_def)

lemma zetas_value:
  assumes "k < 256"
  shows "canon (compute_zetas ! k)" "zq_of (compute_zetas ! k) = zpow k"
proof -
  have z: "uint (ML_ZETA) = 1753" by (simp add: ML_ZETA_def)
  have e: "unat (ucast (br8 (word_of_nat k)) :: u64) = brn 8 k"
    
  proof -
    have "unat (br8 (word_of_nat k)) < 2 ^ LENGTH(32)" by (rule unsigned_less)
    then have "unat (br8 (word_of_nat k)) < 2 ^ 64" by simp
    then show ?thesis using unat_br8 [OF assms] by (simp add: unsigned_ucast_eq take_bit_nat_eq_self del: brn.simps)
  qed
  have u: "uint (zeta_loop 1 ML_ZETA (ucast (br8 (word_of_nat k)))) = 1753 ^ brn 8 k mod 8380417"
    using zeta_loop_value [of 1 ML_ZETA "ucast (br8 (word_of_nat k))"] by (simp only: z e) simp
  have lt: "1753 ^ brn 8 k mod 8380417 < (8380417 :: int)" by simp
  have v: "uint (compute_zetas ! k) = 1753 ^ brn 8 k mod 8380417"
    using assms lt by (simp add: compute_zetas_def unsigned_ucast_eq u take_bit_int_eq_self del: brn.simps)
  show "canon (compute_zetas ! k)" unfolding canon_def v by simp
  show "zq_of (compute_zetas ! k) = zpow k" using zq_of_mod [OF v] by (simp add: zpow_def zeta_q_def del: brn.simps)
qed

text \<open>The root at node k of the binary tree: squares of powers are roots of the parent.\<close>

definition node_root :: "nat \<Rightarrow> zq" where
  "node_root k = (if odd k then - zpow (k div 2) else zpow (k div 2))"

lemma zpow_square: "k < 256 \<Longrightarrow> zpow k * zpow k = node_root k"
proof -
  assume k: "k < 256"
  have "zpow k * zpow k = zeta_q ^ (2 * brn 8 k)" by (simp only: zpow_def mult_2 power_add)
  also have "\<dots> = zpow (k div 2) * (zeta_q ^ 256) ^ (k mod 2)"
    by (simp only: brn8_halves [OF k] power_add zpow_def mult.commute [of "k mod 2"] power_mult)
  finally show ?thesis by (auto simp: zeta_256 node_root_def odd_iff_mod_2_eq_one)
qed

lemma node_root_square: "1 \<le> k \<Longrightarrow> k < 512 \<Longrightarrow> node_root k * node_root k = node_root (k div 2)"
  using zpow_square [of "k div 2"] by (auto simp: node_root_def)

lemma zpow_mirror: "d < 8 \<Longrightarrow> b < 2 ^ d \<Longrightarrow> zpow (2 ^ d + b) * zpow (2 * 2 ^ d - 1 - b) = - 1"
  by (simp only: zpow_def power_add [symmetric] brn8_mirror zeta_256)

section \<open>One layer\<close>

definition carr :: "u32 list \<Rightarrow> bool" where "carr a \<longleftrightarrow> length a = 256 \<and> (\<forall>i < 256. canon (a ! i))"

lemma carrD: "carr a \<Longrightarrow> length a = 256" "carr a \<Longrightarrow> i < 256 \<Longrightarrow> canon (a ! i)"
  by (simp_all add: carr_def)

lemma carr_update: "carr a \<Longrightarrow> canon x \<Longrightarrow> carr (a[i := x])"
  by (cases "i < 256") (auto simp: carr_def nth_list_update)

definition val :: "u32 list \<Rightarrow> nat \<Rightarrow> zq" where "val a i = zq_of (a ! i)"

lemma val_update: "carr a \<Longrightarrow> i < 256 \<Longrightarrow> j < 256 \<Longrightarrow> val (a[i := x]) j = (if j = i then zq_of x else val a j)"
  by (simp add: val_def carr_def nth_list_update)

text \<open>What a butterfly does: it replaces the values at j and \<open>j + len\<close> by functions f and g of them.\<close>

definition is_butterfly :: "(nat \<Rightarrow> u32 list \<Rightarrow> u32 list) \<Rightarrow> nat \<Rightarrow> (zq \<Rightarrow> zq \<Rightarrow> zq) \<Rightarrow> (zq \<Rightarrow> zq \<Rightarrow> zq) \<Rightarrow> bool" where
  "is_butterfly B len f g \<longleftrightarrow> (\<forall>a j. carr a \<and> j + len < 256 \<longrightarrow> carr (B j a) \<and>
     (\<forall>i < 256. val (B j a) i =
       (if i = j then f (val a j) (val a (j + len)) else if i = j + len then g (val a j) (val a (j + len)) else val a i)))"

lemma ntt_butterfly:
  assumes "canon zeta" "0 < len"
  shows "is_butterfly (ntt_butterfly zeta len) len (\<lambda>x y. x + zq_of zeta * y) (\<lambda>x y. x - zq_of zeta * y)"
  unfolding is_butterfly_def
proof (intro allI impI)
  fix a j assume h: "carr a \<and> j + len < 256"
  have c: "canon (a ! j)" "canon (a ! (j + len))" using h carrD(2) by auto
  define t where "t = mul_q zeta (a ! (j + len))"
  have t: "canon t" "zq_of t = zq_of zeta * val a (j + len)"
    using uint_mul_q(2) [OF assms(1) c(2)] zq_of_ops(3) [OF assms(1) c(2)] by (simp_all add: t_def val_def)
  define a1 where "a1 = a[j + len := sub_q (a ! j) t]"
  have a1: "carr a1" "a1 ! j = a ! j" using carr_update uint_sub_q(2) [OF c(1) t(1)] assms h by (auto simp: a1_def)
  have e: "ntt_butterfly zeta len j a = a1[j := add_q (a ! j) t]" using a1(2) by (simp add: ntt_butterfly_def Let_def t_def a1_def)
  have "carr (ntt_butterfly zeta len j a)" unfolding e using carr_update a1(1) uint_add_q(2) [OF c(1) t(1)] by blast
  moreover have "val (ntt_butterfly zeta len j a) i =
      (if i = j then val a j + zq_of zeta * val a (j + len)
       else if i = j + len then val a j - zq_of zeta * val a (j + len) else val a i)" if "i < 256" for i
    using that h unfolding e
    by (simp add: val_update a1(1)) (simp add: a1_def val_update zq_of_ops c t val_def [of a j])
  ultimately show "carr (ntt_butterfly zeta len j a) \<and> (\<forall>i < 256. val (ntt_butterfly zeta len j a) i =
      (if i = j then val a j + zq_of zeta * val a (j + len)
       else if i = j + len then val a j - zq_of zeta * val a (j + len) else val a i))" by blast
qed

lemma inv_butterfly:
  assumes "canon zeta" "0 < len"
  shows "is_butterfly (inv_butterfly zeta len) len (\<lambda>x y. x + y) (\<lambda>x y. zq_of zeta * (x - y))"
  unfolding is_butterfly_def
proof (intro allI impI)
  fix a j assume h: "carr a \<and> j + len < 256"
  have c: "canon (a ! j)" "canon (a ! (j + len))" using h carrD(2) by auto
  define a1 where "a1 = a[j := add_q (a ! j) (a ! (j + len))]"
  have a1: "carr a1" "a1 ! (j + len) = a ! (j + len)" using carr_update uint_add_q(2) [OF c] assms h by (auto simp: a1_def)
  define d where "d = sub_q (a ! j) (a ! (j + len))"
  have d: "canon d" "zq_of d = val a j - val a (j + len)"
    using uint_sub_q(2) [OF c] zq_of_ops(2) [OF c] by (simp_all add: d_def val_def)
  have e: "inv_butterfly zeta len j a = a1[j + len := mul_q zeta d]" using a1(2) by (simp add: inv_butterfly_def Let_def d_def a1_def)
  have "carr (inv_butterfly zeta len j a)" unfolding e using carr_update a1(1) uint_mul_q(2) [OF assms(1) d(1)] by blast
  moreover have "val (inv_butterfly zeta len j a) i =
      (if i = j then val a j + val a (j + len)
       else if i = j + len then zq_of zeta * (val a j - val a (j + len)) else val a i)" if "i < 256" for i
    using that h assms(2) unfolding e
    by (simp add: val_update a1(1)) (simp add: a1_def val_update zq_of_ops c d assms(1) val_def [of a j] val_def [of a "j + len"])
  ultimately show "carr (inv_butterfly zeta len j a) \<and> (\<forall>i < 256. val (inv_butterfly zeta len j a) i =
      (if i = j then val a j + val a (j + len)
       else if i = j + len then zq_of zeta * (val a j - val a (j + len)) else val a i))" by blast
qed

lemma block_val:
  assumes "carr a" "is_butterfly B len f g" "start + 2 * len \<le> 256" "n \<le> len"
  shows "carr (fold B [start..<start + n] a) \<and>
    (\<forall>i < 256. val (fold B [start..<start + n] a) i =
      (if start \<le> i \<and> i < start + n then f (val a i) (val a (i + len))
       else if start + len \<le> i \<and> i < start + len + n then g (val a (i - len)) (val a i) else val a i))"
  using assms(4)
proof (induction n)
  case 0
  then show ?case using assms(1) by auto
next
  case (Suc n)
  define b where "b = fold B [start..<start + n] a"
  have b: "carr b" "\<And>i. i < 256 \<Longrightarrow> val b i = (if start \<le> i \<and> i < start + n then f (val a i) (val a (i + len))
       else if start + len \<le> i \<and> i < start + len + n then g (val a (i - len)) (val a i) else val a i)"
    using Suc by (simp_all add: b_def)
  have s: "fold B [start..<start + Suc n] a = B (start + n) b"
    by (simp add: b_def)
  have j: "start + n + len < 256" using Suc.prems assms(3) by simp
  have v: "carr (B (start + n) b)" "\<And>i. i < 256 \<Longrightarrow> val (B (start + n) b) i = (if i = start + n then f (val b (start + n)) (val b (start + n + len))
      else if i = start + n + len then g (val b (start + n)) (val b (start + n + len)) else val b i)"
    using assms(2) b(1) j unfolding is_butterfly_def by blast+
  have "val b (start + n) = val a (start + n)" "val b (start + n + len) = val a (start + n + len)"
    using b(2) [of "start + n"] b(2) [of "start + n + len"] j Suc.prems by auto
  then show ?case unfolding s using v(1) v(2) b(2) Suc.prems j by (auto simp: less_Suc_eq)
qed

text \<open>The two halves of block b of \<open>2 * len\<close> values.\<close>

definition lower :: "nat \<Rightarrow> u32 list \<Rightarrow> nat \<Rightarrow> nat \<Rightarrow> zq" where "lower len a b j = val a (2 * len * b + j)"
definition upper :: "nat \<Rightarrow> u32 list \<Rightarrow> nat \<Rightarrow> nat \<Rightarrow> zq" where "upper len a b j = val a (2 * len * b + len + j)"

lemma block_index:
  assumes "2 * len * m = (256 :: nat)" "b < m" "j < 2 * len"
  shows "2 * len * b + j < 256" "2 * len * c \<le> 2 * len * b + j \<and> 2 * len * b + j < 2 * len * c + 2 * len \<longleftrightarrow> b = c"
proof -
  have "Suc b * (2 * len) \<le> m * (2 * len)" using assms(2) by (intro mult_le_mono1) simp
  then have "2 * len * b + 2 * len \<le> 256" using assms(1) by (simp add: algebra_simps)
  then show "2 * len * b + j < 256" using assms(3) by linarith
  have le: "2 * len * x + 2 * len \<le> 2 * len * y" if "x < y" for x y
    using mult_le_mono2 [of "Suc x" y "2 * len"] that by simp
  from le [of b c] le [of c b] show "2 * len * c \<le> 2 * len * b + j \<and> 2 * len * b + j < 2 * len * c + 2 * len \<longleftrightarrow> b = c"
    using assms(3) by (cases b c rule: linorder_cases) auto
qed

lemma block_halves:
  assumes "carr a" "is_butterfly B len f g" "2 * len * m = 256" "c < m"
  defines "r \<equiv> fold B [2 * len * c..<2 * len * c + len] a"
  shows "carr r"
    and "b < m \<Longrightarrow> j < len \<Longrightarrow> lower len r b j = (if b = c then f (lower len a b j) (upper len a b j) else lower len a b j)"
    and "b < m \<Longrightarrow> j < len \<Longrightarrow> upper len r b j = (if b = c then g (lower len a b j) (upper len a b j) else upper len a b j)"
proof -
  have "Suc c * (2 * len) \<le> m * (2 * len)" using assms(4) by (intro mult_le_mono1) simp
  then have s: "2 * len * c + 2 * len \<le> 256" using assms(3) by (simp add: algebra_simps)
  note v = block_val [OF assms(1,2) s order_refl, folded r_def]
  show "carr r" using v by blast
  show "lower len r b j = (if b = c then f (lower len a b j) (upper len a b j) else lower len a b j)" if "b < m" "j < len"
  proof -
    note i = block_index(1) [OF assms(3) that(1), of j] block_index(2) [OF assms(3) that(1), of j c]
    have "2 * len * b + j < 256" using i(1) that by simp
    then show ?thesis using v i(2) that by (auto simp: lower_def upper_def add.assoc add.commute [of j])
  qed
  show "upper len r b j = (if b = c then g (lower len a b j) (upper len a b j) else upper len a b j)" if "b < m" "j < len"
  proof -
    note i = block_index(1) [OF assms(3) that(1), of "len + j"] block_index(2) [OF assms(3) that(1), of "len + j" c]
    have "2 * len * b + len + j < 256" using i(1) that by (simp add: add.assoc)
    then show ?thesis using v i(2) that by (auto simp: lower_def upper_def add.assoc)
  qed
qed

lemma ntt_starts_halves:
  assumes "carr a" "2 * len * m = 256" "c \<le> m" "k0 + m < 256"
  shows "\<exists>r. ntt_starts compute_zetas len (2 * len * c) (k0 + c) a = (k0 + m, r) \<and> carr r \<and>
    (\<forall>b < m. \<forall>j < len.
      lower len r b j = (if c \<le> b then lower len a b j + zpow (k0 + 1 + b) * upper len a b j else lower len a b j) \<and>
      upper len r b j = (if c \<le> b then lower len a b j - zpow (k0 + 1 + b) * upper len a b j else upper len a b j))"
  using assms(1,3)
proof (induction "m - c" arbitrary: c a)
  case 0
  then have "c = m" by simp
  then show ?case using 0 assms(2) by (subst ntt_starts.simps) (simp add: mult.commute)
next
  case (Suc x)
  then have c: "c < m" by simp
  have len: "0 < len" using assms(2) by (cases len) simp_all
  have st: "2 * len * c < 256" using block_index(1) [OF assms(2) c, of 0] len by simp
  have z: "canon (compute_zetas ! (k0 + c + 1))" "zq_of (compute_zetas ! (k0 + c + 1)) = zpow (k0 + 1 + c)"
    using zetas_value [of "k0 + c + 1"] c assms(4) by simp_all
  define r where "r = fold (ntt_butterfly (compute_zetas ! (k0 + c + 1)) len) [2 * len * c..<2 * len * c + len] a"
  note h = block_halves [OF Suc.prems(1) ntt_butterfly [OF z(1) len] assms(2) c, folded r_def, unfolded z(2)]
  have u: "ntt_starts compute_zetas len (2 * len * c) (k0 + c) a = ntt_starts compute_zetas len (2 * len * Suc c) (k0 + Suc c) r"
    using st len by (subst ntt_starts.simps) (simp add: r_def add.commute [of "2 * len"])
  have x: "x = m - Suc c" using Suc.hyps(2) by simp
  obtain r' where r': "ntt_starts compute_zetas len (2 * len * Suc c) (k0 + Suc c) r = (k0 + m, r')" "carr r'"
    "\<forall>b < m. \<forall>j < len.
      lower len r' b j = (if Suc c \<le> b then lower len r b j + zpow (k0 + 1 + b) * upper len r b j else lower len r b j) \<and>
      upper len r' b j = (if Suc c \<le> b then lower len r b j - zpow (k0 + 1 + b) * upper len r b j else upper len r b j)"
    using Suc.hyps(1) [OF x h(1) Suc_leI [OF c]] by blast
  show ?case unfolding u r'(1) using r'(2,3) h(2,3) by (intro exI [of _ r']) (auto simp: Suc_le_eq)
qed

text \<open>A layer: from block length \<open>2 * len\<close> to \<open>len\<close>.\<close>

definition layer_rel :: "nat \<Rightarrow> nat \<Rightarrow> u32 list \<Rightarrow> u32 list \<Rightarrow> bool" where
  "layer_rel len m a r \<longleftrightarrow> (\<forall>b < m. \<forall>j < len. lower len r b j = lower len a b j + zpow (m + b) * upper len a b j \<and>
     upper len r b j = lower len a b j - zpow (m + b) * upper len a b j)"

lemma ntt_layer:
  assumes "carr a" "2 * len * m = 256"
  shows "\<exists>r. ntt_lens compute_zetas len (m - 1) a = ntt_lens compute_zetas (len div 2) (2 * m - 1) r \<and> carr r \<and> layer_rel len m a r"
proof -
  have len: "0 < len" and m: "0 < m" using assms(2) by (cases len; cases m; simp)+
  have "m \<le> len * m" using len by (cases len) simp_all
  moreover have "2 * (len * m) = 256" using assms(2) by (simp only: mult.assoc)
  ultimately have "m - 1 + m < 256" using m by linarith
  then obtain r where r: "ntt_starts compute_zetas len (2 * len * 0) (m - 1 + 0) a = (m - 1 + m, r)" "carr r"
    "\<forall>b < m. \<forall>j < len. lower len r b j = lower len a b j + zpow (m - 1 + 1 + b) * upper len a b j \<and>
      upper len r b j = lower len a b j - zpow (m - 1 + 1 + b) * upper len a b j"
    using ntt_starts_halves [OF assms, of 0 "m - 1"] by auto
  have "ntt_lens compute_zetas len (m - 1) a = ntt_lens compute_zetas (len div 2) (2 * m - 1) r"
    using r(1) len m by (subst ntt_lens.simps) (simp add: mult_2)
  then show ?thesis using r m by (intro exI [of _ r]) (simp add: layer_rel_def)
qed

section \<open>The inverse layers\<close>

lemma zpow_nonzero: "zpow k \<noteq> 0"
proof
  assume "zpow k = 0"
  then have "(zeta_q ^ 256) ^ brn 8 k = 0"
    by (simp only: zpow_def power_mult [symmetric] mult.commute [of 256]) (simp only: power_mult, simp)
  then show False by (simp add: zeta_256 uminus_power_if del: brn.simps split: if_splits)
qed

lemma inv_zeta:
  assumes "k < 256"
  shows "canon (MLQ - compute_zetas ! k)" "zq_of (MLQ - compute_zetas ! k) = - zpow k"
proof -
  note z = zetas_value [OF assms]
  have "compute_zetas ! k \<noteq> 0" using z(2) zpow_nonzero [of k] by (auto simp: zq_of_def)
  then have nz: "uint (compute_zetas ! k) \<noteq> 0" by (simp add: word_uint_eq_iff)
  have u: "uint (MLQ - compute_zetas ! k) = 8380417 - uint (compute_zetas ! k)"
    using canonD [OF z(1)] by (subst uint_sub_if') simp
  show "canon (MLQ - compute_zetas ! k)" using nz canonD [OF z(1)] unfolding canon_def u by linarith
  have "zq_of (MLQ - compute_zetas ! k) = of_int (8380417 - uint (compute_zetas ! k))" by (simp only: zq_of_def u)
  also have "\<dots> = of_int (- uint (compute_zetas ! k))"
    unfolding zq_of_int_eq_iff using mod_add_self2 [of "- uint (compute_zetas ! k)" 8380417] by simp
  finally show "zq_of (MLQ - compute_zetas ! k) = - zpow k" using z(2) by (simp add: zq_of_def)
qed

lemma inv_starts_halves:
  assumes "carr a" "2 * len * m = 256" "c \<le> m"
  shows "\<exists>r. inv_starts compute_zetas len (2 * len * c) (2 * m - c) a = (m, r) \<and> carr r \<and>
    (\<forall>b < m. \<forall>j < len.
      lower len r b j = (if c \<le> b then lower len a b j + upper len a b j else lower len a b j) \<and>
      upper len r b j = (if c \<le> b then - zpow (2 * m - 1 - b) * (lower len a b j - upper len a b j) else upper len a b j))"
  using assms(1,3)
proof (induction "m - c" arbitrary: c a)
  case 0
  then have "c = m" by simp
  then show ?case using 0 assms(2) by (subst inv_starts.simps) (simp add: mult.commute mult_2)
next
  case (Suc x)
  then have c: "c < m" by simp
  have len: "0 < len" using assms(2) by (cases len) simp_all
  have st: "2 * len * c < 256" using block_index(1) [OF assms(2) c, of 0] len by simp
  have "m \<le> len * m" using len by (cases len) simp_all
  moreover have "2 * (len * m) = 256" using assms(2) by (simp only: mult.assoc)
  ultimately have k: "2 * m - 1 - c < 256" using c by linarith
  have kc: "2 * m - c - 1 = 2 * m - 1 - c" "2 * m - 1 - c = 2 * m - Suc c" by simp_all
  define r where "r = fold (inv_butterfly (MLQ - compute_zetas ! (2 * m - 1 - c)) len) [2 * len * c..<2 * len * c + len] a"
  note h = block_halves [OF Suc.prems(1) inv_butterfly [OF inv_zeta(1) [OF k] len] assms(2) c, folded r_def, unfolded inv_zeta(2) [OF k]]
  have u: "inv_starts compute_zetas len (2 * len * c) (2 * m - c) a = inv_starts compute_zetas len (2 * len * Suc c) (2 * m - Suc c) r"
    using st len by (subst inv_starts.simps) (simp add: r_def add.commute [of "2 * len"])
  have x: "x = m - Suc c" using Suc.hyps(2) by simp
  obtain r' where r': "inv_starts compute_zetas len (2 * len * Suc c) (2 * m - Suc c) r = (m, r')" "carr r'"
    "\<forall>b < m. \<forall>j < len.
      lower len r' b j = (if Suc c \<le> b then lower len r b j + upper len r b j else lower len r b j) \<and>
      upper len r' b j = (if Suc c \<le> b then - zpow (2 * m - 1 - b) * (lower len r b j - upper len r b j) else upper len r b j)"
    using Suc.hyps(1) [OF x h(1) Suc_leI [OF c]] by blast
  show ?case unfolding u r'(1) using r'(2,3) h(2,3) by (intro exI [of _ r']) (auto simp: Suc_le_eq)
qed

lemma halves_cover:
  assumes "2 * len * m = 256" "\<And>b j. b < m \<Longrightarrow> j < len \<Longrightarrow> P (2 * len * b + j) \<and> P (2 * len * b + len + j)" "i < 256"
  shows "P (i :: nat)"
proof -
  define b j where "b = i div (2 * len)" and "j = i mod (2 * len)"
  have len: "0 < len" using assms(1) by (cases len) simp_all
  have i: "i = 2 * len * b + j" by (simp add: b_def j_def)
  have "i < m * (2 * len)" using assms(3) by (simp only: mult.commute [of m] assms(1))
  then have b: "b < m" unfolding b_def by (rule less_mult_imp_div_less)
  have j: "j < 2 * len" using len by (simp add: j_def)
  show ?thesis
  proof (cases "j < len")
    case True
    then show ?thesis using assms(2) [OF b True] i by simp
  next
    case False
    then have "j - len < len" "i = 2 * len * b + len + (j - len)" using i j by simp_all
    then show ?thesis using assms(2) [OF b, of "j - len"] by simp
  qed
qed

text \<open>An inverse layer undoes a layer up to a factor 2.\<close>

definition scaled :: "zq \<Rightarrow> u32 list \<Rightarrow> u32 list \<Rightarrow> bool" where
  "scaled c a r \<longleftrightarrow> carr r \<and> (\<forall>i < 256. val r i = c * val a i)"

lemma inv_layer:
  assumes "carr a" "2 * len * m = 256" "m = 2 ^ d" "layer_rel len m a r" "scaled s r r'"
  shows "\<exists>a'. inv_lens compute_zetas len (2 * m) r' = inv_lens compute_zetas (2 * len) m a' \<and> scaled (2 * s) a a'"
proof -
  have len: "0 < len" and m: "0 < m" using assms(2) by (cases len; cases m; simp)+
  have "len \<le> len * m" using m by (cases m) simp_all
  moreover have "2 * (len * m) = 256" using assms(2) by (simp only: mult.assoc)
  moreover have "m \<le> len * m" using len by (cases len) simp_all
  ultimately have l: "len < 256" "m \<le> 128" by linarith+
  have "(2 :: nat) ^ d < 2 ^ 8" using l(2) assms(3) by simp
  then have d: "d < 8" by (rule power_less_imp_less_exp [rotated]) simp
  have c: "carr r'" using assms(5) by (simp add: scaled_def)
  obtain q where q: "inv_starts compute_zetas len 0 (2 * m) r' = (m, q)" "carr q"
    "\<forall>b < m. \<forall>j < len. lower len q b j = lower len r' b j + upper len r' b j \<and>
      upper len q b j = - zpow (2 * m - 1 - b) * (lower len r' b j - upper len r' b j)"
    using inv_starts_halves [OF c assms(2), of 0] by auto
  have "inv_lens compute_zetas len (2 * m) r' = inv_lens compute_zetas (2 * len) m q"
    using q(1) len l(1) by (subst inv_lens.simps) simp
  moreover have halves: "lower len q b j = 2 * s * lower len a b j \<and> upper len q b j = 2 * s * upper len a b j" if h: "b < m" "j < len" for b j
  proof -
    have i: "2 * len * b + j < 256" "2 * len * b + len + j < 256"
      using block_index(1) [OF assms(2) h(1), of j] block_index(1) [OF assms(2) h(1), of "len + j"] h(2) by (simp_all add: add.assoc)
    then have r': "lower len r' b j = s * lower len r b j" "upper len r' b j = s * upper len r b j"
      using assms(5) by (simp_all add: scaled_def lower_def upper_def)
    have r: "lower len r b j = lower len a b j + zpow (m + b) * upper len a b j"
      "upper len r b j = lower len a b j - zpow (m + b) * upper len a b j" using assms(4) h by (simp_all add: layer_rel_def)
    have q': "lower len q b j = lower len r' b j + upper len r' b j"
      "upper len q b j = - zpow (2 * m - 1 - b) * (lower len r' b j - upper len r' b j)" using q(3) h by blast+
    have z: "zpow (m + b) * zpow (2 * m - 1 - b) = - 1" using zpow_mirror [OF d, of b] h(1) by (simp add: assms(3))
    have "- zpow (2 * m - 1 - b) * (s * (lower len a b j + zpow (m + b) * upper len a b j) -
        s * (lower len a b j - zpow (m + b) * upper len a b j)) =
      - (zpow (m + b) * zpow (2 * m - 1 - b)) * (2 * s * upper len a b j)" by (simp add: algebra_simps)
    also have "\<dots> = 2 * s * upper len a b j" by (simp only: z) simp
    finally have "upper len q b j = 2 * s * upper len a b j" unfolding q' r' r .
    moreover have "lower len q b j = 2 * s * lower len a b j" unfolding q' r' r by (simp add: algebra_simps)
    ultimately show ?thesis by blast
  qed
  have "val q i = 2 * s * val a i" if "i < 256" for i
    by (rule halves_cover [OF assms(2) _ that]) (rule halves [unfolded lower_def upper_def])
  ultimately show ?thesis using q(2) by (intro exI [of _ q]) (simp add: scaled_def)
qed

section \<open>The transforms are inverse to each other\<close>

lemma inv_lens_ntt_lens:
  assumes "carr a" "n \<le> 8"
  shows "\<exists>a'. inv_lens compute_zetas 1 256 (ntt_lens compute_zetas (2 ^ n div 2) (2 ^ (8 - n) - 1) a) =
      inv_lens compute_zetas (2 ^ n) (2 ^ (8 - n)) a' \<and> scaled (2 ^ n) a a'"
  using assms
proof (induction n arbitrary: a)
  case 0
  have "ntt_lens compute_zetas 0 255 a = a" by (subst ntt_lens.simps) simp
  then show ?case using 0 by (intro exI [of _ a]) (simp add: scaled_def)
next
  case (Suc n)
  define m :: nat where "m = 2 ^ (7 - n)"
  have e: "8 - n = Suc (7 - n)" using Suc.prems(2) by simp
  then have m2: "(2 :: nat) ^ (8 - n) = 2 * m" by (simp add: m_def)
  have "2 * 2 ^ n * m = (2 :: nat) ^ (Suc n + (7 - n))" by (simp add: m_def power_add)
  also have "\<dots> = 256" using Suc.prems(2) by simp
  finally have lm: "2 * 2 ^ n * m = (256 :: nat)" .
  obtain r where r: "ntt_lens compute_zetas (2 ^ n) (m - 1) a = ntt_lens compute_zetas (2 ^ n div 2) (2 * m - 1) r"
    "carr r" "layer_rel (2 ^ n) m a r"
    using ntt_layer [OF Suc.prems(1) lm] by blast
  obtain r' where r': "inv_lens compute_zetas 1 256 (ntt_lens compute_zetas (2 ^ n div 2) (2 ^ (8 - n) - 1) r) =
      inv_lens compute_zetas (2 ^ n) (2 ^ (8 - n)) r'" "scaled (2 ^ n) r r'"
    using Suc.IH [OF r(2)] Suc.prems(2) by auto
  obtain a' where a': "inv_lens compute_zetas (2 ^ n) (2 * m) r' = inv_lens compute_zetas (2 * 2 ^ n) m a'" "scaled (2 * 2 ^ n) a a'"
    using inv_layer [OF Suc.prems(1) lm m_def r(3) r'(2)] by blast
  have "2 ^ Suc n div 2 = (2 :: nat) ^ n" "8 - Suc n = 7 - n" by simp_all
  then show ?case using r(1) r'(1) a' unfolding m2 m_def [symmetric] by (intro exI [of _ a']) (simp add: m_def [symmetric])
qed

lemma ntt_inv_ntt:
  assumes "carr a"
  shows "ntt_inv (ntt a) = a"
proof -
  obtain a' where a': "inv_lens compute_zetas 1 256 (ntt a) = inv_lens compute_zetas 256 1 a'" "scaled 256 a a'"
    using inv_lens_ntt_lens [OF assms, of 8] by (auto simp: ntt_def)
  have e: "inv_lens compute_zetas 1 256 (ntt a) = a'" unfolding a'(1) by (subst inv_lens.simps) simp
  have c: "carr a'" using a'(2) by (simp add: scaled_def)
  have ni: "canon N_INV" by (simp add: canon_def N_INV_def)
  have one: "of_int 256 * zq_of N_INV = 1"
  proof -
    have "of_int (256 * 8347681) = (of_int 1 :: zq)" unfolding zq_of_int_eq_iff by simp
    then show ?thesis by (simp only: of_int_mult of_int_1 zq_of_def N_INV_def) simp
  qed
  have "mul_q (a' ! i) N_INV = a ! i" if i: "i < 256" for i
  proof (rule zq_of_inj)
    have ci: "canon (a' ! i)" using carrD(2) [OF c i] .
    show "canon (mul_q (a' ! i) N_INV)" by (rule uint_mul_q(2) [OF ci ni])
    show "canon (a ! i)" by (rule carrD(2) [OF assms i])
    have "zq_of (mul_q (a' ! i) N_INV) = (of_int 256 * zq_of (a ! i)) * zq_of N_INV"
      using a'(2) i zq_of_ops(3) [OF ci ni] by (simp add: scaled_def val_def)
    also have "\<dots> = zq_of (a ! i) * (of_int 256 * zq_of N_INV)" by (simp only: mult.assoc mult.left_commute)
    finally show "zq_of (mul_q (a' ! i) N_INV) = zq_of (a ! i)" unfolding one by simp
  qed
  then show ?thesis unfolding ntt_inv_def e
    using carrD(1) [OF c] carrD(1) [OF assms] by (intro nth_equalityI) simp_all
qed

section \<open>The forward transform evaluates at the roots\<close>

text \<open>The value of block b (of length \<open>len\<close>) as a polynomial at x.\<close>

definition block_eval :: "nat \<Rightarrow> u32 list \<Rightarrow> nat \<Rightarrow> zq \<Rightarrow> zq" where
  "block_eval len a b x = (\<Sum>j < len. val a (len * b + j) * x ^ j)"

lemma sum_split: "(\<Sum>j < m + n. (F j :: zq)) = (\<Sum>j < m. F j) + (\<Sum>j < n. F (m + j))" for m n :: nat
  by (induction n) (simp_all add: add.assoc)

lemma layer_eval:
  assumes "layer_rel len m a r" "b < m"
  shows "x ^ len = zpow (m + b) \<Longrightarrow> block_eval len r (2 * b) x = block_eval (2 * len) a b x"
    and "x ^ len = - zpow (m + b) \<Longrightarrow> block_eval len r (2 * b + 1) x = block_eval (2 * len) a b x"
proof -
  have A: "block_eval (2 * len) a b x = (\<Sum>j < len. (lower len a b j + x ^ len * upper len a b j) * x ^ j)"
    unfolding block_eval_def mult_2 sum_split
    by (simp add: lower_def upper_def sum.distrib power_add algebra_simps mult_2 flip: mult_2_right)
  have L: "block_eval len r (2 * b) x = (\<Sum>j < len. lower len r b j * x ^ j)"
    by (simp add: block_eval_def lower_def mult.commute mult.left_commute)
  have U: "block_eval len r (2 * b + 1) x = (\<Sum>j < len. upper len r b j * x ^ j)"
    by (simp add: block_eval_def upper_def algebra_simps)
  show "x ^ len = zpow (m + b) \<Longrightarrow> block_eval len r (2 * b) x = block_eval (2 * len) a b x"
    unfolding A L using assms by (simp add: layer_rel_def)
  show "x ^ len = - zpow (m + b) \<Longrightarrow> block_eval len r (2 * b + 1) x = block_eval (2 * len) a b x"
    unfolding A U using assms by (simp add: layer_rel_def)
qed

lemma node_root_pow: "k < 512 \<Longrightarrow> 2 ^ n \<le> k \<Longrightarrow> node_root k ^ 2 ^ n = node_root (k div 2 ^ n)"
proof (induction n)
  case (Suc n)
  have le: "2 ^ n \<le> k" using Suc.prems(2) by simp
  have "1 \<le> k div 2 ^ n" using div_le_mono [OF le, of "2 ^ n"] by simp
  moreover have "k div 2 ^ n < 512" using Suc.prems(1) div_le_dividend [of k "2 ^ n"] by linarith
  ultimately have "node_root (k div 2 ^ n) * node_root (k div 2 ^ n) = node_root (k div 2 ^ n div 2)" by (rule node_root_square)
  moreover have "k div 2 ^ n div 2 = k div 2 ^ Suc n" by (simp only: div_mult2_eq power_Suc2)
  moreover have "node_root k ^ 2 ^ Suc n = node_root k ^ 2 ^ n * node_root k ^ 2 ^ n" by (simp add: mult_2 power_add)
  ultimately show ?case using Suc.IH [OF Suc.prems(1) le] by simp
qed simp

lemma ntt_lens_eval:
  assumes "carr a" "n \<le> 8"
  defines "r \<equiv> ntt_lens compute_zetas (2 ^ n div 2) (2 ^ (8 - n) - 1) a"
  shows "carr r \<and> (\<forall>b < 2 ^ (8 - n). \<forall>i < 2 ^ n. val r (2 ^ n * b + i) = block_eval (2 ^ n) a b (node_root (256 + 2 ^ n * b + i)))"
  using assms(1,2) unfolding r_def
proof (induction n arbitrary: a)
  case 0
  have "ntt_lens compute_zetas 0 255 a = a" by (subst ntt_lens.simps) simp
  then show ?case using 0 by (simp add: block_eval_def)
next
  case (Suc n)
  define m :: nat where "m = 2 ^ (7 - n)"
  have e: "8 - n = Suc (7 - n)" using Suc.prems(2) by simp
  then have m2: "(2 :: nat) ^ (8 - n) = 2 * m" by (simp add: m_def)
  have "2 * 2 ^ n * m = (2 :: nat) ^ (Suc n + (7 - n))" by (simp add: m_def power_add)
  also have "\<dots> = 256" using Suc.prems(2) by simp
  finally have lm: "2 * 2 ^ n * m = (256 :: nat)" .
  obtain q where q: "ntt_lens compute_zetas (2 ^ n) (m - 1) a = ntt_lens compute_zetas (2 ^ n div 2) (2 * m - 1) q"
    "carr q" "layer_rel (2 ^ n) m a q"
    using ntt_layer [OF Suc.prems(1) lm] by blast
  define r where "r = ntt_lens compute_zetas (2 ^ n div 2) (2 * m - 1) q"
  have ih: "carr r" "\<And>b i. b < 2 * m \<Longrightarrow> i < 2 ^ n \<Longrightarrow> val r (2 ^ n * b + i) = block_eval (2 ^ n) q b (node_root (256 + 2 ^ n * b + i))"
    using Suc.IH [OF q(2)] Suc.prems(2) unfolding m2 r_def by auto
  have pw: "node_root (256 + 2 ^ n * c + i) ^ 2 ^ n = node_root (2 * m + c)" if "c < 2 * m" "i < 2 ^ n" for c i
  proof -
    have k: "256 + 2 ^ n * c + i = 2 ^ n * (2 * m + c) + i" using lm by (simp add: algebra_simps)
    have "Suc c * 2 ^ n \<le> 2 * m * 2 ^ n" using that(1) by (intro mult_le_mono1) simp
    then have "256 + 2 ^ n * c + i < 512" using that(2) lm by (simp add: algebra_simps)
    moreover have "2 ^ n \<le> 256 + 2 ^ n * c + i"
    proof -
      have "2 ^ n \<le> 2 ^ n * (2 * m + c)" using that(1) by simp
      then show ?thesis unfolding k by linarith
    qed
    ultimately have "node_root (256 + 2 ^ n * c + i) ^ 2 ^ n = node_root ((256 + 2 ^ n * c + i) div 2 ^ n)" by (rule node_root_pow)
    also have "(256 + 2 ^ n * c + i) div 2 ^ n = 2 * m + c" unfolding k using that(2) by simp
    finally show ?thesis .
  qed
  have root: "node_root (2 * m + 2 * b) = zpow (m + b)" "node_root (2 * m + (2 * b + 1)) = - zpow (m + b)" for b
    by (simp_all add: node_root_def)
  have "val r (2 ^ Suc n * b + i) = block_eval (2 ^ Suc n) a b (node_root (256 + 2 ^ Suc n * b + i))" if h: "b < m" "i < 2 ^ Suc n" for b i
  proof (cases "i < 2 ^ n")
    case True
    have x: "2 ^ Suc n * b + i = 2 ^ n * (2 * b) + i" "256 + 2 ^ Suc n * b + i = 256 + 2 ^ n * (2 * b) + i" by simp_all
    have "2 * b < 2 * m" using h(1) by simp
    then show ?thesis unfolding x
      using ih(2) [of "2 * b" i] layer_eval(1) [OF q(3) h(1)] pw [of "2 * b" i] True root(1) by simp
  next
    case False
    define i' where "i' = i - 2 ^ n"
    have i': "i' < 2 ^ n" "i = 2 ^ n + i'" using h(2) False by (simp_all add: i'_def)
    have x: "2 ^ Suc n * b + i = 2 ^ n * (2 * b + 1) + i'" "256 + 2 ^ Suc n * b + i = 256 + 2 ^ n * (2 * b + 1) + i'"
      unfolding i'(2) by (simp_all add: algebra_simps)
    have "2 * b + 1 < 2 * m" using h(1) by simp
    then show ?thesis unfolding x
      using ih(2) [of "2 * b + 1" i'] layer_eval(2) [OF q(3) h(1)] pw [of "2 * b + 1" i'] i'(1) root(2) by simp
  qed
  moreover have "ntt_lens compute_zetas (2 ^ Suc n div 2) (2 ^ (8 - Suc n) - 1) a = r" using q(1) by (simp add: r_def m_def)
  ultimately show ?case using ih(1) by (simp add: m_def)
qed

lemma ntt_val:
  assumes "carr a"
  shows "carr (ntt a)" "i < 256 \<Longrightarrow> val (ntt a) i = (\<Sum>j < 256. val a j * node_root (256 + i) ^ j)"
  using ntt_lens_eval [OF assms, of 8] by (simp_all add: ntt_def block_eval_def)

lemma node_root_256:
  assumes "i < 256"
  shows "node_root (256 + i) ^ 256 = - 1"
proof -
  have "node_root (256 + i) ^ 2 ^ 8 = node_root ((256 + i) div 2 ^ 8)" by (rule node_root_pow) (use assms in simp_all)
  also have "(256 + i) div 2 ^ 8 = 1" using assms by simp
  finally show ?thesis by (simp add: node_root_def zpow_def)
qed

section \<open>Multiplication\<close>

text \<open>The coefficient of \<open>X^k\<close> in the product modulo \<open>X^256 + 1\<close>.\<close>

definition negacyclic :: "u32 list \<Rightarrow> u32 list \<Rightarrow> nat \<Rightarrow> int" where
  "negacyclic a b k = (\<Sum>i < 256. if i \<le> k then uint (a ! i) * uint (b ! (k - i)) else - (uint (a ! i) * uint (b ! (256 + k - i))))"

lemma of_int_negacyclic:
  "(of_int (negacyclic a b k) :: zq) =
    (\<Sum>i < 256. if i \<le> k then val a i * val b (k - i) else - (val a i * val b (256 + k - i)))"
  unfolding negacyclic_def of_int_sum by (rule sum.cong) (simp_all add: val_def zq_of_def)

lemma eval_negacyclic:
  assumes "(x :: zq) ^ 256 = - 1"
  shows "(\<Sum>k < 256. of_int (negacyclic a b k) * x ^ k) = (\<Sum>i < 256. val a i * x ^ i) * (\<Sum>j < 256. val b j * x ^ j)"
proof -
  have inner: "(\<Sum>k < 256. (if i \<le> k then val a i * val b (k - i) else - (val a i * val b (256 + k - i))) * x ^ k) =
      val a i * x ^ i * (\<Sum>j < 256. val b j * x ^ j)" if i: "i < 256" for i
  proof -
    obtain n where n: "256 = i + n" using i less_imp_add_positive by metis
    have neg: "- (x ^ k) = x ^ (256 + k)" for k using assms by (simp add: power_add)
    have "(\<Sum>k < i + n. (if i \<le> k then val a i * val b (k - i) else - (val a i * val b (i + n + k - i))) * x ^ k) =
        (\<Sum>k < i. val a i * val b (n + k) * - (x ^ k)) + (\<Sum>k < n. val a i * val b k * x ^ (i + k))"
      unfolding sum_split by (intro arg_cong2 [where f = "(+)"] sum.cong) (simp_all add: add.assoc)
    also have "(\<Sum>k < i. val a i * val b (n + k) * - (x ^ k)) = val a i * x ^ i * (\<Sum>k < i. val b (n + k) * x ^ (n + k))"
      unfolding neg n sum_distrib_left by (rule sum.cong) (simp_all add: power_add mult_ac)
    also have "(\<Sum>k < n. val a i * val b k * x ^ (i + k)) = val a i * x ^ i * (\<Sum>k < n. val b k * x ^ k)"
      unfolding sum_distrib_left by (rule sum.cong) (simp_all add: power_add mult_ac)
    finally have "(\<Sum>k < i + n. (if i \<le> k then val a i * val b (k - i) else - (val a i * val b (i + n + k - i))) * x ^ k) =
        val a i * x ^ i * (\<Sum>j < n + i. val b j * x ^ j)"
      unfolding sum_split by (simp add: algebra_simps)
    then show ?thesis unfolding n [symmetric] add.commute [of n i] .
  qed
  have "(\<Sum>k < 256. of_int (negacyclic a b k) * x ^ k) =
      (\<Sum>i < 256. \<Sum>k < 256. (if i \<le> k then val a i * val b (k - i) else - (val a i * val b (256 + k - i))) * x ^ k)"
    unfolding of_int_negacyclic sum_distrib_right by (rule sum.swap)
  also have "\<dots> = (\<Sum>i < 256. val a i * x ^ i * (\<Sum>j < 256. val b j * x ^ j))" by (rule sum.cong) (simp_all add: inner)
  finally show ?thesis by (simp add: sum_distrib_right)
qed

lemma ntt_multiply:
  assumes "carr a" "carr b"
  shows "ntt_inv (ntt_pointwise_mul (ntt a) (ntt b)) = map (\<lambda>k. word_of_int (negacyclic a b k mod 8380417)) [0..<256]"
proof -
  define c :: "u32 list" where "c = map (\<lambda>k. word_of_int (negacyclic a b k mod 8380417)) [0..<256]"
  have ck: "uint (c ! k) = negacyclic a b k mod 8380417" if "k < 256" for k
  proof -
    have "0 \<le> negacyclic a b k mod 8380417" "negacyclic a b k mod 8380417 < 8380417" by simp_all
    then have "uint (word_of_int (negacyclic a b k mod 8380417) :: u32) = negacyclic a b k mod 8380417"
      by (intro uint_word_of_int_small) simp_all
    then show ?thesis using that by (simp add: c_def)
  qed
  have c: "carr c" unfolding carr_def canon_def by (simp add: ck) (simp add: c_def)
  have vc: "val c k = of_int (negacyclic a b k)" if "k < 256" for k
    unfolding val_def by (rule zq_of_mod [OF ck [OF that]])
  note na = ntt_val [OF assms(1)] and nb = ntt_val [OF assms(2)] and nc = ntt_val [OF c]
  have "ntt_pointwise_mul (ntt a) (ntt b) = ntt c"
  proof (rule nth_equalityI)
    show "length (ntt_pointwise_mul (ntt a) (ntt b)) = length (ntt c)" using carrD(1) [OF nc(1)] by (simp add: ntt_pointwise_mul_def)
    fix i assume "i < length (ntt_pointwise_mul (ntt a) (ntt b))"
    then have i: "i < 256" by (simp add: ntt_pointwise_mul_def)
    note ca = carrD(2) [OF na(1) i] and cb = carrD(2) [OF nb(1) i]
    let ?x = "node_root (256 + i)"
    have "zq_of (mul_q (ntt a ! i) (ntt b ! i)) = val (ntt a) i * val (ntt b) i" using zq_of_ops(3) [OF ca cb] by (simp add: val_def)
    also have "\<dots> = (\<Sum>k < 256. of_int (negacyclic a b k) * ?x ^ k)"
      unfolding na(2) [OF i] nb(2) [OF i] eval_negacyclic [OF node_root_256 [OF i]] ..
    also have "\<dots> = val (ntt c) i" unfolding nc(2) [OF i] by (rule sum.cong) (simp_all add: vc)
    finally have "zq_of (mul_q (ntt a ! i) (ntt b ! i)) = zq_of (ntt c ! i)" by (simp add: val_def)
    then have "mul_q (ntt a ! i) (ntt b ! i) = ntt c ! i" by (intro zq_of_inj uint_mul_q(2) [OF ca cb] carrD(2) [OF nc(1) i])
    then show "ntt_pointwise_mul (ntt a) (ntt b) ! i = ntt c ! i" using i by (simp add: ntt_pointwise_mul_def)
  qed
  then show ?thesis using ntt_inv_ntt [OF c] by (simp add: c_def)
qed

lemma carrI: "length a = 256 \<Longrightarrow> \<forall>x \<in> set a. x < MLQ \<Longrightarrow> carr a"
  by (auto simp: carr_def canon_def word_less_def)

text \<open>C36: The inverse transform undoes the transform on every list of 256 residues, and the transform maps residues to residues.\<close>

theorem ntt_roundtrip:
  assumes "length a = 256" "\<forall>x \<in> set a. x < MLQ"
  shows "ntt_inv (ntt a) = a \<and> length (ntt a) = 256 \<and> (\<forall>x \<in> set (ntt a). x < MLQ)"
  using ntt_inv_ntt [OF carrI [OF assms]] ntt_val(1) [OF carrI [OF assms]]
  by (auto simp: carr_def canon_def word_less_def in_set_conv_nth)

lemma ntt_roundtrip_witness: "ntt_inv (ntt (replicate 256 12345)) = replicate 256 12345"
  using ntt_roundtrip [of "replicate 256 12345"] by (simp add: MLQ_def)

text \<open>C35: Multiplying two transformed polynomials value by value and transforming back gives their product modulo \<open>X^256 + 1\<close>, for
  all polynomials with coefficients below q.\<close>

theorem ntt_multiplies:
  assumes "length a = 256" "\<forall>x \<in> set a. x < MLQ" "length b = 256" "\<forall>x \<in> set b. x < MLQ"
  shows "ntt_inv (ntt_pointwise_mul (ntt a) (ntt b)) =
    map (\<lambda>k. word_of_int ((\<Sum>i < 256. if i \<le> k then uint (a ! i) * uint (b ! (k - i))
      else - (uint (a ! i) * uint (b ! (256 + k - i)))) mod uint MLQ)) [0..<256]"
  using ntt_multiply [OF carrI [OF assms(1,2)] carrI [OF assms(3,4)]] by (simp add: negacyclic_def)

lemma ntt_multiplies_witness:
  "length (ntt_inv (ntt_pointwise_mul (ntt (replicate 256 3)) (ntt (replicate 256 5)))) = 256"
  by (subst ntt_multiplies) (simp_all add: MLQ_def)

end
