(* ===== verification/Ml_Dsa_Air.thy ===== *)
theory Ml_Dsa_Air
  imports Ml_Dsa Air_Props
begin

text \<open>
  The per-row AIRs of ML-DSA in \<open>deep_ali\<close>: field operations (\<open>ml_dsa_field_air.rs\<close>), the norm check
  (\<open>ml_dsa_norm_check_air.rs\<close>), \<open>Decompose\<close> (\<open>ml_dsa_decompose_air.rs\<close>), \<open>UseHint\<close>
  (\<open>ml_dsa_use_hint_air.rs\<close>) and \<open>w1Encode\<close> (\<open>ml_dsa_w1_encode_air.rs\<close>): row builders, constraint
  evaluators, and what the constraints say. Each \<open>fill_trace\<close> is modelled on a zeroed trace, as
  every caller passes it.
\<close>

section \<open>Range bits\<close>

definition bit_con :: "gf \<Rightarrow> gf" where "bit_con b = b * (b - 1)"

definition bits_sum :: "gf list \<Rightarrow> nat \<Rightarrow> nat \<Rightarrow> gf" where
  "bits_sum cur off n = (\<Sum>i\<leftarrow>[0..<n]. cur ! (off + i) * pow2 i)"

text \<open>The loop that checks n bits and compares their sum with a cell.\<close>

definition range_cons :: "gf list \<Rightarrow> nat \<Rightarrow> nat \<Rightarrow> gf \<Rightarrow> gf list" where
  "range_cons cur off n x = map (\<lambda>i. bit_con (cur ! (off + i))) [0..<n] @ [bits_sum cur off n - x]"

definition range_cells :: "u32 \<Rightarrow> nat \<Rightarrow> gf list" where
  "range_cells x n = map (\<lambda>i. of_bool (bit x i)) [0..<n]"

definition fill_air :: "nat \<Rightarrow> nat \<Rightarrow> gf list list \<Rightarrow> gf list \<Rightarrow> gf list list option" where
  "fill_air width n_trace rows padding =
     (if length rows \<le> n_trace then Some (columns width (rows @ replicate (n_trace - length rows) padding)) else None)"

section \<open>Field operations\<close>

datatype field_op = OpNop | OpAdd u32 u32 | OpSub u32 u32 | OpMul u32 u32

fun selector_index :: "field_op \<Rightarrow> nat" where
  "selector_index OpNop = 0"
| "selector_index (OpAdd a b) = 1"
| "selector_index (OpSub a b) = 2"
| "selector_index (OpMul a b) = 3"

fun op_operands :: "field_op \<Rightarrow> u32 \<times> u32" where
  "op_operands OpNop = (0, 0)"
| "op_operands (OpAdd a b) = (a, b)"
| "op_operands (OpSub a b) = (a, b)"
| "op_operands (OpMul a b) = (a, b)"

fun op_evaluate :: "field_op \<Rightarrow> u32 \<times> int" where
  "op_evaluate OpNop = (0, 0)"
| "op_evaluate (OpAdd a b) = (let s = uint a + uint b; k = (if s \<ge> uint MLQ then 1 else 0) in (word_of_int (s - k * uint MLQ), k))"
| "op_evaluate (OpSub a b) = (if a \<ge> b then (a - b, 0) else (a + MLQ - b, 1))"
| "op_evaluate (OpMul a b) = (let prod = uint a * uint b in (word_of_int (prod mod uint MLQ), prod div uint MLQ))"

definition field_row :: "field_op \<Rightarrow> gf list" where
  "field_row op = (let (a, b) = op_operands op; (c, k) = op_evaluate op
     in map (\<lambda>s. of_bool (s = selector_index op)) [0..<4] @
        [fu32 a, fu32 b, fu32 c, if k \<ge> 0 then of_int k else - of_int (- k)] @ range_cells c 23)"

definition field_nop_row :: "gf list" where
  "field_nop_row = [1, 0, 0, 0] @ replicate 27 0"

definition field_fill_trace :: "nat \<Rightarrow> field_op list \<Rightarrow> gf list list option" where
  "field_fill_trace n_trace ops = fill_air 31 n_trace (map field_row ops) field_nop_row"

definition field_eval_per_row :: "gf list \<Rightarrow> gf list" where
  "field_eval_per_row cur = (let a = cur ! 4; b = cur ! 5; c = cur ! 6; k = cur ! 7; q = fu32 MLQ
     in map (\<lambda>s. bit_con (cur ! s)) [0..<4] @
        [(\<Sum>s\<leftarrow>[0..<4]. cur ! s) - 1,
         cur ! 1 * (a + b - c - k * q) + cur ! 2 * (a - b - c + k * q) + cur ! 3 * (a * b - c - k * q) + cur ! 0 * (a + b + c)] @
        range_cons cur 8 23 c)"

section \<open>Norm check\<close>

fun norm_bits :: "mldsa_set \<Rightarrow> nat" where
  "norm_bits MlDsa44 = 17" | "norm_bits MlDsa65 = 20" | "norm_bits MlDsa87 = 20"

definition norm_row :: "mldsa_set \<Rightarrow> u32 \<Rightarrow> u32 \<Rightarrow> gf list" where
  "norm_row m bound c =
     (let (sign, abs_val) = (if c > MLQ div 2 then (1, MLQ - c) else (0, c));
          slack = word_of_int (max (uint bound - 1 - uint abs_val) 0)
      in [fu32 c, sign, fu32 abs_val, fu32 slack] @ range_cells abs_val (norm_bits m) @ range_cells slack (norm_bits m))"

definition norm_fill_trace :: "mldsa_set \<Rightarrow> nat \<Rightarrow> u32 list \<Rightarrow> u32 \<Rightarrow> gf list list option" where
  "norm_fill_trace m n_trace coeffs bound = fill_air (4 + 2 * norm_bits m) n_trace (map (norm_row m bound) coeffs)
     (replicate (4 + 2 * norm_bits m) 0)"

definition norm_eval_per_row :: "mldsa_set \<Rightarrow> u32 \<Rightarrow> gf list \<Rightarrow> gf list" where
  "norm_eval_per_row m bound cur = (let c = cur ! 0; sign = cur ! 1; abs_v = cur ! 2; slack = cur ! 3; q = fu32 MLQ
     in [bit_con sign] @ range_cons cur 4 (norm_bits m) abs_v @ range_cons cur (4 + norm_bits m) (norm_bits m) slack @
        [(1 - sign) * abs_v + sign * (q - abs_v) - c, slack + abs_v + 1 - fu32 bound])"

section \<open>Decompose\<close>

fun r1_bits :: "mldsa_set \<Rightarrow> nat" where
  "r1_bits MlDsa44 = 6" | "r1_bits MlDsa65 = 4" | "r1_bits MlDsa87 = 4"

fun r0_abs_bits :: "mldsa_set \<Rightarrow> nat" where
  "r0_abs_bits MlDsa44 = 17" | "r0_abs_bits MlDsa65 = 18" | "r0_abs_bits MlDsa87 = 18"

definition decompose_row :: "mldsa_set \<Rightarrow> u32 \<Rightarrow> gf list" where
  "decompose_row m r =
     (let two_g2 = 2 * ml_GAMMA2 m;
          (r1, r0) = decompose m r;
          (sign, abs_val) = (if r0 > MLQ div 2 then (1, MLQ - r0) else (0, r0));
          r_mod = r mod two_g2;
          r0_pre_signed = (if r_mod > ml_GAMMA2 m then uint r_mod - uint two_g2 else uint r_mod);
          r1_pre = word_of_int ((uint r - r0_pre_signed) div uint two_g2);
          snap = of_bool (r1_pre = NUM_R1_VALUES m)
      in [fu32 r, fu32 r1, fu32 r0, sign, fu32 abs_val, snap] @ range_cells r1 (r1_bits m) @ range_cells abs_val (r0_abs_bits m))"

definition decompose_fill_trace :: "mldsa_set \<Rightarrow> nat \<Rightarrow> u32 list \<Rightarrow> gf list list option" where
  "decompose_fill_trace m n_trace values = fill_air (6 + r1_bits m + r0_abs_bits m) n_trace (map (decompose_row m) values)
     (replicate (6 + r1_bits m + r0_abs_bits m) 0)"

definition decompose_eval_per_row :: "mldsa_set \<Rightarrow> gf list \<Rightarrow> gf list" where
  "decompose_eval_per_row m cur =
     (let r = cur ! 0; r1 = cur ! 1; r0 = cur ! 2; r0_sign = cur ! 3; r0_abs = cur ! 4; snap = cur ! 5; q = fu32 MLQ
      in range_cons cur 6 (r1_bits m) r1 @ range_cons cur (6 + r1_bits m) (r0_abs_bits m) r0_abs @
         [bit_con r0_sign, bit_con snap, (1 - r0_sign) * r0_abs + r0_sign * (q - r0_abs) - r0,
          r1 * fu32 (2 * ml_GAMMA2 m) + r0 + (snap - r0_sign) * q - r, 0])"

section \<open>UseHint\<close>

definition hint_M :: "mldsa_set \<Rightarrow> u32" where "hint_M m = (MLQ - 1) div (2 * ml_GAMMA2 m)"

fun hint_bits :: "mldsa_set \<Rightarrow> nat" where
  "hint_bits MlDsa44 = 6" | "hint_bits MlDsa65 = 4" | "hint_bits MlDsa87 = 4"

definition air_use_hint :: "mldsa_set \<Rightarrow> u32 \<Rightarrow> bool \<Rightarrow> bool \<Rightarrow> u32 \<times> bool \<times> bool" where
  "air_use_hint m r1 r0_sign h =
     (let delta = (if \<not> h then 0 else if r0_sign then 1 else - 1); unwrapped = uint r1 + delta
      in if unwrapped < 0 then (hint_M m - 1, True, False)
         else if unwrapped \<ge> uint (hint_M m) then (0, False, True)
         else (word_of_int unwrapped, False, False))"

definition use_hint_row :: "mldsa_set \<Rightarrow> u32 \<times> bool \<times> bool \<Rightarrow> gf list" where
  "use_hint_row m = (\<lambda>(r1, r0_sign, h).
     (let (adjusted, wrap_pos, wrap_neg) = air_use_hint m r1 r0_sign h;
          delta = (if \<not> h then 0 else if r0_sign then 1 else 0 - 1);
          slack = hint_M m - 1 - adjusted
      in [fu32 r1, of_bool r0_sign, of_bool h, delta, of_bool wrap_pos, of_bool wrap_neg, fu32 adjusted] @
         range_cells adjusted (hint_bits m) @ [fu32 slack] @ replicate (6 - hint_bits m) 0 @ range_cells slack (hint_bits m)))"

definition use_hint_padding :: "mldsa_set \<Rightarrow> gf list" where
  "use_hint_padding m = replicate (7 + hint_bits m) 0 @ [fu32 (hint_M m - 1)] @ replicate (6 - hint_bits m) 0 @
     range_cells (hint_M m - 1) (hint_bits m)"

definition use_hint_fill_trace :: "mldsa_set \<Rightarrow> nat \<Rightarrow> (u32 \<times> bool \<times> bool) list \<Rightarrow> gf list list option" where
  "use_hint_fill_trace m n_trace inputs = fill_air (14 + hint_bits m) n_trace (map (use_hint_row m) inputs) (use_hint_padding m)"

definition use_hint_eval_per_row :: "mldsa_set \<Rightarrow> gf list \<Rightarrow> gf list" where
  "use_hint_eval_per_row m cur =
     (let r1 = cur ! 0; r0_sign = cur ! 1; h = cur ! 2; delta = cur ! 3; wrap_pos = cur ! 4; wrap_neg = cur ! 5;
          adj = cur ! 6; slack = cur ! (7 + hint_bits m); big_m = fu32 (hint_M m)
      in [bit_con h, bit_con r0_sign, delta - h * (2 * r0_sign - 1), bit_con wrap_pos, bit_con wrap_neg, wrap_pos * wrap_neg,
          adj - r1 - delta - big_m * wrap_pos + big_m * wrap_neg] @
         map (\<lambda>b. bit_con (cur ! (7 + b))) [0..<hint_bits m] @ [adj - bits_sum cur 7 (hint_bits m)] @
         map (\<lambda>b. bit_con (cur ! (14 + b))) [0..<hint_bits m] @ [slack - bits_sum cur 14 (hint_bits m)] @
         [adj + slack + 1 - big_m])"

section \<open>w1Encode\<close>

definition w1_row :: "u32 \<Rightarrow> gf list" where
  "w1_row c = fu32 c # range_cells c 7"

definition w1_fill_trace :: "nat \<Rightarrow> u32 list \<Rightarrow> gf list list option" where
  "w1_fill_trace n_trace coeffs = fill_air 8 n_trace (map w1_row coeffs) (replicate 8 0)"

definition w1_eval_per_row :: "gf list \<Rightarrow> gf list" where
  "w1_eval_per_row cur = range_cons cur 1 7 (cur ! 0)"

section \<open>Bits and numbers\<close>

lemma bit_con_0 [simp]: "bit_con b = 0 \<longleftrightarrow> b = 0 \<or> b = 1"
  by (auto simp: bit_con_def)

lemma bits_sum_Suc: "bits_sum cur off (Suc n) = bits_sum cur off n + cur ! (off + n) * 2 ^ n"
  by (simp add: bits_sum_def pow2_def)

lemma bits_sum_value:
  "\<forall>i < n. cur ! (off + i) = 0 \<or> cur ! (off + i) = 1 \<Longrightarrow> \<exists>v. bits_sum cur off n = of_int v \<and> 0 \<le> v \<and> v < 2 ^ n"
proof (induction n)
  case (Suc n)
  then obtain v where v: "bits_sum cur off n = of_int v" "0 \<le> v" "v < 2 ^ n" by auto
  have "cur ! (off + n) = 0 \<or> cur ! (off + n) = 1" using Suc.prems by simp
  then show ?case
  proof
    assume "cur ! (off + n) = 0"
    then show ?thesis using v by (intro exI [of _ v]) (simp add: bits_sum_Suc)
  next
    assume "cur ! (off + n) = 1"
    then show ?thesis using v by (intro exI [of _ "v + 2 ^ n"]) (simp add: bits_sum_Suc)
  qed
qed (auto simp: bits_sum_def intro: exI [of _ 0])

text \<open>A satisfied range check says that the cell is a small number.\<close>

lemma range_value:
  assumes "zeros (range_cons cur off n x)"
  shows "\<exists>v. x = of_int v \<and> 0 \<le> v \<and> v < 2 ^ n"
  using bits_sum_value [of n cur off] assms by (auto simp: range_cons_def zeros_def)

lemma length_range_cells [simp]: "length (range_cells x n) = n"
  by (simp add: range_cells_def)

lemma range_cells_sum:
  assumes "\<And>i. i < n \<Longrightarrow> cur ! (off + i) = range_cells x n ! i"
  shows "bits_sum cur off n = of_nat (unat (take_bit n x))"
proof -
  have "k \<le> n \<Longrightarrow> bits_sum cur off k = of_int (take_bit k (uint x))" for k
  proof (induction k)
    case (Suc k)
    have "take_bit (Suc k) (uint x) = take_bit k (uint x) + of_bool (bit x k) * 2 ^ k"
      using bit_imp_le_length [of x k] by (auto simp: take_bit_Suc_from_most bit_uint_iff)
    then show ?case using Suc assms [of k] by (simp add: bits_sum_Suc range_cells_def)
  qed (simp add: bits_sum_def)
  from this [of n] have "bits_sum cur off n = of_int (uint (take_bit n x))" by (simp add: unsigned_take_bit_eq)
  then show ?thesis by simp
qed

lemma range_satisfied:
  assumes "\<And>i. i < n \<Longrightarrow> cur ! (off + i) = range_cells x n ! i" "uint x < 2 ^ n"
  shows "zeros (range_cons cur off n (fu32 x))" "bits_sum cur off n = fu32 x"
proof -
  have "take_bit n x = x" using assms(2) by (simp add: word_uint_eq_iff unsigned_take_bit_eq take_bit_int_eq_self)
  then show s: "bits_sum cur off n = fu32 x" using range_cells_sum [of n cur off x] assms(1) by (simp add: fu32_def)
  show "zeros (range_cons cur off n (fu32 x))"
    using s assms(1) by (auto simp: range_cons_def zeros_def range_cells_def)
qed

lemma fu32_of_int: "fu32 x = of_int (uint x)"
  by (simp add: fu32_def)

section \<open>The field gate\<close>

lemma gf_MLQ_nonzero: "(fu32 MLQ :: gf) \<noteq> 0"
  using gf_of_int_small [of 8380417 0] by (auto simp: fu32_of_int MODULUS_def)

text \<open>A gate row with selector \<open>sel\<close>, operands and result as given, satisfies all constraints as soon as the
  witness cell solves the gate's equation.\<close>

definition gate_row :: "nat \<Rightarrow> u32 \<Rightarrow> u32 \<Rightarrow> u32 \<Rightarrow> gf \<Rightarrow> gf list" where
  "gate_row sel a b c k = map (\<lambda>s. of_bool (s = sel)) [0..<4] @ [fu32 a, fu32 b, fu32 c, k] @ range_cells c 23"

lemma gate_row_nth:
  "s < 4 \<Longrightarrow> gate_row sel a b c k ! s = of_bool (s = sel)"
  "gate_row sel a b c k ! 4 = fu32 a" "gate_row sel a b c k ! 5 = fu32 b" "gate_row sel a b c k ! 6 = fu32 c"
  "gate_row sel a b c k ! 7 = k" "i < 23 \<Longrightarrow> gate_row sel a b c k ! (8 + i) = range_cells c 23 ! i"
  by (simp_all add: gate_row_def nth_append)

lemma gate_row_satisfied:
  assumes "sel < 4" "uint c < 2 ^ 23"
    and "sel = 1 \<Longrightarrow> fu32 a + fu32 b - fu32 c - k * fu32 MLQ = 0"
    and "sel = 2 \<Longrightarrow> fu32 a - fu32 b - fu32 c + k * fu32 MLQ = 0"
    and "sel = 3 \<Longrightarrow> fu32 a * fu32 b - fu32 c - k * fu32 MLQ = 0"
    and "sel = 0 \<Longrightarrow> fu32 a + fu32 b + fu32 c = 0"
  shows "zeros (field_eval_per_row (gate_row sel a b c k))"
proof -
  have s: "sel = 0 \<or> sel = 1 \<or> sel = 2 \<or> sel = 3" using assms(1) by auto
  have r: "zeros (range_cons (gate_row sel a b c k) 8 23 (fu32 c))"
    using range_satisfied(1) [of 23 "gate_row sel a b c k" 8 c] gate_row_nth(6) assms(2) by simp
  show ?thesis
    unfolding field_eval_per_row_def Let_def using s r assms(3-6)
    by (auto simp: gate_row_nth upt_4 simp del: upt_rec_numeral)
qed

lemma field_row_gate:
  assumes "op_operands op = (a, b)" "op_evaluate op = (c, k)" "0 \<le> k"
  shows "field_row op = gate_row (selector_index op) a b c (of_int k)"
  using assms by (simp add: field_row_def gate_row_def)

text \<open>The result and the reduction witness of an operation on canonical operands.\<close>

lemma op_evaluate_add:
  assumes "canon a" "canon b" "op_evaluate (OpAdd a b) = (x, k)"
  shows "canon x \<and> 0 \<le> k \<and> uint a + uint b - uint x - k * 8380417 = 0"
proof -
  note c = canonD [OF assms(1)] canonD [OF assms(2)]
  have k: "k = (if uint a + uint b \<ge> 8380417 then 1 else 0)" and x: "x = word_of_int (uint a + uint b - k * 8380417)"
    using assms(3) by (auto simp: Let_def split: if_splits)
  have "0 \<le> uint a + uint b - k * 8380417" "uint a + uint b - k * 8380417 < 8380417" using c unfolding k by auto
  then have "uint x = uint a + uint b - k * 8380417" unfolding x by (intro uint_word_of_int_small) simp_all
  then show ?thesis using c unfolding canon_def k by auto
qed

lemma op_evaluate_sub:
  assumes "canon a" "canon b" "op_evaluate (OpSub a b) = (x, k)"
  shows "canon x \<and> 0 \<le> k \<and> uint a - uint b - uint x + k * 8380417 = 0"
proof (cases "b \<le> a")
  case True
  then have "uint (a - b) = uint a - uint b" by (subst uint_sub_if') (simp add: word_le_def)
  moreover have "uint a - uint b < 8380417" using canonD [OF assms(1)] canonD [OF assms(2)] by linarith
  ultimately show ?thesis using assms(3) True by (auto simp: canon_def)
next
  case False
  note c = canonD [OF assms(1)] canonD [OF assms(2)]
  have s: "uint (a + MLQ) = uint a + 8380417" using c by (simp add: uint_word_ariths)
  moreover have "uint b \<le> uint (a + MLQ)" unfolding s using c by linarith
  ultimately have u: "uint (a + MLQ - b) = uint a + 8380417 - uint b" by (subst uint_sub_if') simp
  have xk: "x = a + MLQ - b" "k = 1" using assms(3) False by simp_all
  have "uint a < uint b" using False by (simp add: word_le_def)
  then show ?thesis unfolding xk canon_def u by simp
qed

lemma op_evaluate_mul:
  assumes "op_evaluate (OpMul a b) = (x, k)"
  shows "canon x \<and> 0 \<le> k \<and> uint a * uint b - uint x - k * 8380417 = 0"
proof -
  have m: "0 \<le> uint a * uint b mod 8380417" "uint a * uint b mod 8380417 < 8380417" by simp_all
  then have "uint (word_of_int (uint a * uint b mod 8380417) :: u32) = uint a * uint b mod 8380417"
    by (intro uint_word_of_int_small) simp_all
  then have "uint x = uint a * uint b mod 8380417" "k = uint a * uint b div 8380417" using assms by (auto simp: Let_def)
  then show ?thesis
    using m by (simp add: canon_def pos_imp_zdiv_nonneg_iff minus_mod_eq_div_mult)
qed

text \<open>Rows of operations on canonical operands satisfy the constraints.\<close>

lemma field_row_satisfied:
  assumes "op_operands op = (a, b)" "canon a" "canon b"
  shows "zeros (field_eval_per_row (field_row op))"
proof -
  have small: "canon x \<Longrightarrow> uint x < 2 ^ 23" for x by (simp add: canon_def)
  obtain x k where e: "op_evaluate op = (x, k)" by (cases "op_evaluate op")
  have eq: "op = OpAdd a b \<Longrightarrow> canon x \<and> 0 \<le> k \<and> uint a + uint b - uint x - k * 8380417 = 0"
    "op = OpSub a b \<Longrightarrow> canon x \<and> 0 \<le> k \<and> uint a - uint b - uint x + k * 8380417 = 0"
    "op = OpMul a b \<Longrightarrow> canon x \<and> 0 \<le> k \<and> uint a * uint b - uint x - k * 8380417 = 0"
    "op = OpNop \<Longrightarrow> canon x \<and> 0 \<le> k \<and> a = 0 \<and> b = 0 \<and> x = 0"
    using op_evaluate_add [OF assms(2,3), of x k] op_evaluate_sub [OF assms(2,3), of x k] op_evaluate_mul [of a b x k] e assms(1)
    by (simp_all del: op_evaluate.simps(2-4)) (auto simp: canon_def)
  have op: "op = OpAdd a b \<or> op = OpSub a b \<or> op = OpMul a b \<or> op = OpNop" using assms(1) by (cases op) simp_all
  then have k: "0 \<le> k" and x: "canon x" using eq by blast+
  have lift: "(of_int y :: gf) = 0" if "y = 0" for y using that by simp
  have "zeros (field_eval_per_row (gate_row (selector_index op) a b x (of_int k)))"
  proof (rule gate_row_satisfied [OF _ small [OF x]])
    show "selector_index op < 4" by (cases op) simp_all
    show "fu32 a + fu32 b - fu32 x - of_int k * fu32 MLQ = 0" if "selector_index op = 1"
    proof -
      have "op = OpAdd a b" using that assms(1) by (cases op) simp_all
      then have "uint a + uint b - uint x - k * 8380417 = 0" using eq(1) by blast
      from lift [OF this] show ?thesis by (simp add: fu32_of_int)
    qed
    show "fu32 a - fu32 b - fu32 x + of_int k * fu32 MLQ = 0" if "selector_index op = 2"
    proof -
      have "op = OpSub a b" using that assms(1) by (cases op) simp_all
      then have "uint a - uint b - uint x + k * 8380417 = 0" using eq(2) by blast
      from lift [OF this] show ?thesis by (simp add: fu32_of_int)
    qed
    show "fu32 a * fu32 b - fu32 x - of_int k * fu32 MLQ = 0" if "selector_index op = 3"
    proof -
      have "op = OpMul a b" using that assms(1) by (cases op) simp_all
      then have "uint a * uint b - uint x - k * 8380417 = 0" using eq(3) by blast
      from lift [OF this] show ?thesis by (simp add: fu32_of_int)
    qed
    show "fu32 a + fu32 b + fu32 x = 0" if "selector_index op = 0"
    proof -
      have "op = OpNop" using that by (cases op) simp_all
      then show ?thesis using eq(4) by (simp add: fu32_of_int)
    qed
  qed
  then show ?thesis using field_row_gate [OF assms(1) e k] by simp
qed

text \<open>The gate constraints accept honest rows, and every other result as well: whatever the operands of an addition,
  subtraction or multiplication and whatever number below 2^23 is put in the result cell, some
  value of the unchecked reduction witness makes the row satisfy all constraints.\<close>

lemma field_air_any_result:
  assumes "op_operands op = (a, b)"
  shows "(canon a \<and> canon b \<longrightarrow> zeros (field_eval_per_row (field_row op))) \<and>
    (op \<noteq> OpNop \<and> uint c < 2 ^ 23 \<longrightarrow> (\<exists>row. zeros (field_eval_per_row row) \<and>
      (\<forall>s < 4. row ! s = of_bool (s = selector_index op)) \<and> row ! 4 = fu32 a \<and> row ! 5 = fu32 b \<and> row ! 6 = fu32 c))"
proof (intro conjI impI)
  show "canon a \<and> canon b \<Longrightarrow> zeros (field_eval_per_row (field_row op))" using field_row_satisfied [OF assms] by blast
  assume h: "op \<noteq> OpNop \<and> uint c < 2 ^ 23"
  define k where "k = (if selector_index op = 1 then (fu32 a + fu32 b - fu32 c) / fu32 MLQ
    else if selector_index op = 2 then - (fu32 a - fu32 b - fu32 c) / fu32 MLQ else (fu32 a * fu32 b - fu32 c) / fu32 MLQ)"
  have "selector_index op \<noteq> 0" "selector_index op < 4" using h by (cases op; simp)+
  then have "zeros (field_eval_per_row (gate_row (selector_index op) a b c k))"
    using h by (intro gate_row_satisfied) (simp_all add: k_def gf_MLQ_nonzero)
  then show "\<exists>row. zeros (field_eval_per_row row) \<and> (\<forall>s < 4. row ! s = of_bool (s = selector_index op)) \<and>
      row ! 4 = fu32 a \<and> row ! 5 = fu32 b \<and> row ! 6 = fu32 c"
    by (intro exI [of _ "gate_row (selector_index op) a b c k"]) (simp add: gate_row_nth)
qed

lemma field_air_any_result_witness:
  "\<exists>row. zeros (field_eval_per_row row) \<and> (\<forall>s < 4. row ! s = of_bool (s = 3)) \<and>
     row ! 4 = fu32 2 \<and> row ! 5 = fu32 3 \<and> row ! 6 = fu32 7"
  using field_air_any_result [of "OpMul 2 3" 2 3 7] by simp

section \<open>The norm check\<close>

lemma norm_bits_small: "(2 :: int) ^ norm_bits m \<le> 1048576"
  by (cases m) simp_all

lemma of_int_eqI_small:
  assumes "(of_int a :: gf) - of_int b = 0" "\<bar>a - b\<bar> < 1000000000000"
  shows "a = b"
  using assms by (intro gf_of_int_small) (simp_all add: MODULUS_def)

lemma uint_half_q: "uint (MLQ div 2) = 4190208"
  by (simp add: MLQ_def)

lemma coeff_in_norm_uint:
  "coeff_in_norm c b \<longleftrightarrow> (if uint c > 4190208 then \<bar>uint c - 8380417\<bar> else uint c) < uint b"
  by (simp add: coeff_in_norm_def Let_def word_less_def uint_half_q)

lemma norm_air_sound:
  assumes "canon c" "uint b \<le> 2 ^ norm_bits m" "zeros (norm_eval_per_row m b row)" "row ! 0 = fu32 c"
  shows "coeff_in_norm c b"
proof -
  have z: "zeros (range_cons row 4 (norm_bits m) (row ! 2))"
    "zeros (range_cons row (4 + norm_bits m) (norm_bits m) (row ! 3))" "row ! 1 = 0 \<or> row ! 1 = 1"
    "(1 - row ! 1) * row ! 2 + row ! 1 * (fu32 MLQ - row ! 2) - fu32 c = 0" "row ! 3 + row ! 2 + 1 - fu32 b = 0"
    using assms(3,4) by (simp_all add: norm_eval_per_row_def Let_def)
  obtain v where v: "row ! 2 = of_int v" "0 \<le> v" "v < 2 ^ norm_bits m" using range_value [OF z(1)] by blast
  obtain w where w: "row ! 3 = of_int w" "0 \<le> w" "w < 2 ^ norm_bits m" using range_value [OF z(2)] by blast
  note n = norm_bits_small [of m] and c = canonD [OF assms(1)]
  have b: "0 \<le> uint b" by simp
  have "(of_int (w + v + 1) :: gf) - of_int (uint b) = 0" using z(5) by (simp add: v(1) w(1) fu32_of_int)
  then have wv: "w + v + 1 = uint b"
    by (rule of_int_eqI_small) (use v(2,3) w(2,3) n b assms(2) in linarith)
  show ?thesis
  proof (cases "row ! 1 = 0")
    case True
    then have "(of_int v :: gf) - of_int (uint c) = 0" using z(4) by (simp add: v(1) fu32_of_int)
    then have "v = uint c" by (rule of_int_eqI_small) (use v(2,3) n c in linarith)
    then show ?thesis using v w wv n by (simp add: coeff_in_norm_uint)
  next
    case False
    then have "row ! 1 = 1" using z(3) by simp
    then have "(of_int (8380417 - v) :: gf) - of_int (uint c) = 0" using z(4) by (simp add: v(1) fu32_of_int)
    then have "8380417 - v = uint c" by (rule of_int_eqI_small) (use v(2,3) n c in linarith)
    then show ?thesis using v w wv n c by (simp add: coeff_in_norm_uint)
  qed
qed

lemma norm_row_complete:
  assumes "canon c" "uint b \<le> 2 ^ norm_bits m" "coeff_in_norm c b"
  shows "zeros (norm_eval_per_row m b (norm_row m b c))"
proof -
  define neg where "neg \<longleftrightarrow> MLQ div 2 < c"
  define a where "a = (if neg then MLQ - c else c)"
  define w where "w = (word_of_int (max (uint b - 1 - uint a) 0) :: u32)"
  define row where "row = norm_row m b c"
  let ?n = "norm_bits m"
  note c = canonD [OF assms(1)] and n = norm_bits_small [of m]
  have d: "uint (MLQ - c) = 8380417 - uint c" using c by (subst uint_sub_if') simp
  have a: "uint a = (if neg then 8380417 - uint c else uint c)" by (simp add: a_def d)
  have lt: "uint a < uint b" using assms(3) c by (auto simp: coeff_in_norm_uint a neg_def word_less_def uint_half_q split: if_splits)
  have "uint b - 1 - uint a < 4294967296" using lt assms(2) n uint_ge_0 [of a] by linarith
  then have w: "uint w = uint b - 1 - uint a" using lt unfolding w_def by (subst uint_word_of_int_small) simp_all
  have rng: "uint w < 2 ^ ?n" "uint a < 2 ^ ?n" using w lt assms(2) uint_ge_0 [of a] by linarith+
  have row: "row = [fu32 c, of_bool neg, fu32 a, fu32 w] @ range_cells a ?n @ range_cells w ?n"
    by (simp add: row_def norm_row_def Let_def neg_def a_def w_def split: if_splits)
  have "zeros (range_cons row 4 ?n (fu32 a))"
    by (rule range_satisfied) (use rng in \<open>simp_all add: row nth_append\<close>)
  moreover have "zeros (range_cons row (4 + ?n) ?n (fu32 w))"
    by (rule range_satisfied) (use rng in \<open>simp_all add: row nth_append\<close>)
  moreover have "row ! 0 = fu32 c" "row ! 1 = of_bool neg" "row ! 2 = fu32 a" "row ! 3 = fu32 w" by (simp_all add: row)
  moreover have "fu32 w + fu32 a + 1 - fu32 b = 0" by (simp add: fu32_of_int w)
  moreover have "(1 - of_bool neg) * fu32 a + of_bool neg * (fu32 MLQ - fu32 a) - fu32 c = 0"
    by (simp add: fu32_of_int a)
  ultimately show ?thesis by (simp add: norm_eval_per_row_def Let_def row_def)
qed

lemma length_norm_row: "length (norm_row m b c) = 4 + 2 * norm_bits m" "norm_row m b c ! 0 = fu32 c"
  by (simp_all add: norm_row_def Let_def split: prod.splits)

text \<open>C33: The norm constraints say exactly what the native check computes: for a coefficient below q and a bound that fits the
  range bits, the row of that coefficient can be completed to one that satisfies all constraints iff the
  centred absolute value is below the bound, and then the row builder writes such a row.\<close>

theorem norm_air_iff:
  assumes "uint c < uint MLQ" "uint b \<le> 2 ^ norm_bits m"
  shows "((\<exists>row. zeros (norm_eval_per_row m b row) \<and> row ! 0 = fu32 c) \<longleftrightarrow> coeff_in_norm c b) \<and>
    (zeros (norm_eval_per_row m b (norm_row m b c)) \<longleftrightarrow> coeff_in_norm c b)"
proof (rule conjI)
  have c: "canon c" using assms(1) by (simp add: canon_def)
  show "(\<exists>row. zeros (norm_eval_per_row m b row) \<and> row ! 0 = fu32 c) \<longleftrightarrow> coeff_in_norm c b"
    using norm_air_sound [OF c assms(2)] norm_row_complete [OF c assms(2)] length_norm_row(2) [of m b c] by blast
  show "zeros (norm_eval_per_row m b (norm_row m b c)) \<longleftrightarrow> coeff_in_norm c b"
    using norm_air_sound [OF c assms(2) _ length_norm_row(2)] norm_row_complete [OF c assms(2)] by blast
qed

lemma norm_air_iff_witness:
  "zeros (norm_eval_per_row MlDsa44 (Z_BOUND MlDsa44) (norm_row MlDsa44 (Z_BOUND MlDsa44) 8380000))"
  using norm_air_iff [of 8380000 "Z_BOUND MlDsa44" MlDsa44]
  by (simp add: coeff_in_norm_uint Z_BOUND_def ml_BETA_def)

section \<open>Decompose\<close>

lemma decompose_bits: "(2 :: int) ^ r1_bits m \<le> 64" "(2 :: int) ^ r0_abs_bits m \<le> 262144" "gam m < 2 ^ r0_abs_bits m" "nr1 m \<le> 2 ^ r1_bits m"
  "(2 :: int) ^ r1_bits m < 2 ^ 32"
  using gam_nr1 [of m] by (cases m; simp add: gam_def nr1_def NUM_R1_VALUES_def ml_GAMMA2_def MLQ_def)+

lemma fu32_two_gamma2: "fu32 (2 * ml_GAMMA2 m) = of_int (2 * gam m)"
  by (simp only: fu32_of_int uint_two_gamma2)

text \<open>The cells of a row that decomposes r into \<open>r1\<close> and the signed low part s.\<close>

definition decompose_cells :: "mldsa_set \<Rightarrow> u32 \<Rightarrow> u32 \<Rightarrow> int \<Rightarrow> bool \<Rightarrow> gf list" where
  "decompose_cells m r r1 s snap =
     [fu32 r, fu32 r1, of_int (if s < 0 then s + 8380417 else s), of_bool (s < 0), of_int \<bar>s\<bar>, of_bool snap] @
     range_cells r1 (r1_bits m) @ range_cells (word_of_int \<bar>s\<bar>) (r0_abs_bits m)"

lemma decompose_cells_satisfied:
  assumes "uint r1 < 2 ^ r1_bits m" "\<bar>s\<bar> < 2 ^ r0_abs_bits m" "uint r = uint r1 * (2 * gam m) + s + of_bool snap * 8380417"
  shows "zeros (decompose_eval_per_row m (decompose_cells m r r1 s snap))"
proof -
  define row where "row = decompose_cells m r r1 s snap"
  have "\<bar>s\<bar> < 4294967296" using assms(2) decompose_bits(2) [of m] by linarith
  then have a: "uint (word_of_int \<bar>s\<bar> :: u32) = \<bar>s\<bar>" by (intro uint_word_of_int_small) simp_all
  have nth: "row ! 0 = fu32 r" "row ! 1 = fu32 r1" "row ! 2 = of_int (if s < 0 then s + 8380417 else s)" "row ! 3 = of_bool (s < 0)"
    "row ! 4 = fu32 (word_of_int \<bar>s\<bar>)" "row ! 5 = of_bool snap" by (simp_all add: row_def decompose_cells_def fu32_of_int a)
  have "zeros (range_cons row 6 (r1_bits m) (fu32 r1))"
    by (rule range_satisfied) (use assms(1) in \<open>simp_all add: row_def decompose_cells_def nth_append\<close>)
  moreover have "zeros (range_cons row (6 + r1_bits m) (r0_abs_bits m) (fu32 (word_of_int \<bar>s\<bar>)))"
    by (rule range_satisfied) (use assms(2) a in \<open>simp_all add: row_def decompose_cells_def nth_append\<close>)
  moreover have "(1 - of_bool (s < 0)) * fu32 (word_of_int \<bar>s\<bar>) + of_bool (s < 0) * (fu32 MLQ - fu32 (word_of_int \<bar>s\<bar>)) -
      of_int (if s < 0 then s + 8380417 else s) = 0"
    by (simp add: fu32_of_int a)
  moreover have "fu32 r1 * of_int (2 * gam m) + of_int (if s < 0 then s + 8380417 else s) +
      (of_bool snap - of_bool (s < 0)) * fu32 MLQ - fu32 r = 0"
    using assms(3) by (simp add: fu32_of_int)
  ultimately show ?thesis unfolding decompose_eval_per_row_def Let_def row_def [symmetric] nth fu32_two_gamma2 by simp
qed

lemma decompose_air_sound:
  assumes "canon r" "zeros (decompose_eval_per_row m row)" "row ! 0 = fu32 r" "row ! 1 = fu32 r1"
  shows "uint r1 < 2 ^ r1_bits m \<and>
    (\<exists>s snap. \<bar>s\<bar> < 2 ^ r0_abs_bits m \<and> uint r = uint r1 * (2 * gam m) + s + of_bool snap * 8380417)"
proof -
  have z: "zeros (range_cons row 6 (r1_bits m) (row ! 1))" "zeros (range_cons row (6 + r1_bits m) (r0_abs_bits m) (row ! 4))"
    "row ! 3 = 0 \<or> row ! 3 = 1" "row ! 5 = 0 \<or> row ! 5 = 1" "(1 - row ! 3) * row ! 4 + row ! 3 * (fu32 MLQ - row ! 4) - row ! 2 = 0"
    "row ! 1 * fu32 (2 * ml_GAMMA2 m) + row ! 2 + (row ! 5 - row ! 3) * fu32 MLQ - row ! 0 = 0"
    using assms(2) by (simp_all add: decompose_eval_per_row_def Let_def)
  obtain v where v: "row ! 1 = of_int v" "0 \<le> v" "v < 2 ^ r1_bits m" using range_value [OF z(1)] by blast
  obtain a where a: "row ! 4 = of_int a" "0 \<le> a" "a < 2 ^ r0_abs_bits m" using range_value [OF z(2)] by blast
  note b = decompose_bits [of m] and g = gam_facts [of m] and c = canonD [OF assms(1)]
  have u: "0 \<le> uint r1" "uint r1 < 4294967296" using uint_bounded [of r1] by simp_all
  have "(of_int v :: gf) - of_int (uint r1) = 0" using v(1) assms(4) by (simp add: fu32_of_int)
  then have v1: "v = uint r1" by (rule of_int_eqI_small) (use u v(2,3) b(1) in linarith)
  define s where "s = (if row ! 3 = 0 then a else - a)"
  define snap where "snap \<longleftrightarrow> row ! 5 = 1"
  have "row ! 2 = (1 - row ! 3) * of_int a + row ! 3 * (fu32 MLQ - of_int a)" using z(5) by (simp only: right_minus_eq a(1))
  then have r0: "row ! 2 - row ! 3 * fu32 MLQ = of_int s" using z(3) by (auto simp: s_def)
  have sn: "row ! 5 = of_bool snap" using z(4) by (auto simp: snap_def)
  have "row ! 1 * fu32 (2 * ml_GAMMA2 m) + (row ! 2 - row ! 3 * fu32 MLQ) + row ! 5 * fu32 MLQ - row ! 0 = 0"
    using z(6) by (simp add: algebra_simps)
  then have "(of_int (v * (2 * gam m) + s + of_bool snap * 8380417) :: gf) - of_int (uint r) = 0"
    unfolding r0 sn v(1) fu32_two_gamma2 assms(3) by (simp add: fu32_of_int)
  moreover have ob: "0 \<le> of_bool snap * (8380417 :: int)" "of_bool snap * (8380417 :: int) \<le> 8380417" by simp_all
  moreover have "0 \<le> v * (2 * gam m)" "v * (2 * gam m) \<le> 64 * 600000"
    using v(2,3) b(1) g(1,4) by (simp, intro mult_mono) simp_all
  moreover have "\<bar>s\<bar> < 2 ^ r0_abs_bits m" using a(2,3) by (simp add: s_def)
  ultimately have "v * (2 * gam m) + s + of_bool snap * 8380417 = uint r"
    using b(2) c ob by (intro of_int_eqI_small) linarith+
  then show ?thesis using v1 v(3) \<open>\<bar>s\<bar> < 2 ^ r0_abs_bits m\<close> by (intro conjI exI [of _ s] exI [of _ snap]) simp_all
qed

lemma uint_high_low:
  assumes "canon r"
  shows "uint (high_bits m r) < 2 ^ r1_bits m" "\<bar>to_signed (low_bits m r)\<bar> < 2 ^ r0_abs_bits m"
    "uint r = uint (high_bits m r) * (2 * gam m) + to_signed (low_bits m r) + of_bool (hi m (uint r) = nr1 m) * 8380417"
proof -
  obtain r1 r0 where d: "decompose m r = (r1, r0)" by (cases "decompose m r")
  note v = decompose_values [OF assms d] and h = hi_lo(1) [of "uint r" m] hi_lo(2,3) [of m "uint r"] and g = gam_facts [of m]
    and b = decompose_bits [of m] and c = canonD [OF assms]
  have hb: "high_bits m r = r1" "low_bits m r = r0" by (simp_all add: high_bits_def low_bits_def d)
  have "0 \<le> uint r1" "uint r1 < nr1 m" using v(1) g(2) by simp_all
  then show "uint (high_bits m r) < 2 ^ r1_bits m" unfolding hb using b(4) by linarith
  have k: "0 \<le> hi m (uint r)" "hi m (uint r) \<le> nr1 m" using hi_bounds c by blast+
  have top: "hi m (uint r) = nr1 m \<Longrightarrow> uint r = 8380416 + lo m (uint r)" by (rule lo_top)
  show "\<bar>to_signed (low_bits m r)\<bar> < 2 ^ r0_abs_bits m"
    unfolding hb v(2) using h(2,3) b(3) top c by (cases "hi m (uint r) = nr1 m") auto
  show "uint r = uint (high_bits m r) * (2 * gam m) + to_signed (low_bits m r) + of_bool (hi m (uint r) = nr1 m) * 8380417"
  proof (cases "hi m (uint r) = nr1 m")
    case True
    then show ?thesis unfolding hb v(1,2) using top by simp
  next
    case False
    then show ?thesis unfolding hb v(1,2) using k h(1) by simp
  qed
qed

text \<open>The row builder writes the cells of the native decomposition.\<close>

lemma decompose_row_cells:
  assumes "canon r"
  shows "decompose_row m r = decompose_cells m r (high_bits m r) (to_signed (low_bits m r)) (hi m (uint r) = nr1 m)"
proof -
  obtain r1 r0 where d: "decompose m r = (r1, r0)" by (cases "decompose m r")
  have c0: "canon r0" by (rule decompose_values(3) [OF assms d])
  have hb: "high_bits m r = r1" "low_bits m r = r0" by (simp_all add: high_bits_def low_bits_def d)
  note c = canonD [OF c0]
  have m0: "uint (MLQ - r0) = 8380417 - uint r0" using c by (subst uint_sub_if') simp
  have neg: "to_signed r0 < 0 \<longleftrightarrow> r0 > MLQ div 2" using c by (auto simp: to_signed_def word_less_def uint_half_q)
  have a: "(word_of_int \<bar>to_signed r0\<bar> :: u32) = (if r0 > MLQ div 2 then MLQ - r0 else r0)"
    "\<bar>to_signed r0\<bar> = uint (if r0 > MLQ div 2 then MLQ - r0 else r0)"
    using c m0 by (auto simp: to_signed_def word_less_def uint_half_q word_uint_eq_iff uint_word_of_int_small)
  have r0: "(if r0 > MLQ div 2 then to_signed r0 + 8380417 else to_signed r0) = uint r0"
    by (simp add: to_signed_def)
  show ?thesis
    unfolding decompose_row_def decompose_cells_def Let_def pre_snap hi_snap [OF assms] hb d prod.case neg r0 a
    by (simp add: fu32_of_int)
qed

lemma decompose_row_satisfied:
  assumes "canon r"
  shows "zeros (decompose_eval_per_row m (decompose_row m r))"
  unfolding decompose_row_cells [OF assms] by (rule decompose_cells_satisfied) (rule uint_high_low [OF assms])+

text \<open>C34: What the decompose constraints pin down. The row builder's row satisfies them, with the native high bits; but for an
  input r they are satisfied by every high part that fits its range bits as soon as the rest of r
  (up to one subtraction of q) fits the range bits of the low part, which are wider than gamma2.\<close>

theorem decompose_air_iff:
  assumes "uint r < uint MLQ"
  shows "zeros (decompose_eval_per_row m (decompose_row m r)) \<and> decompose_row m r ! 1 = fu32 (high_bits m r) \<and>
    ((\<exists>row. zeros (decompose_eval_per_row m row) \<and> row ! 0 = fu32 r \<and> row ! 1 = fu32 r1) \<longleftrightarrow>
      uint r1 < 2 ^ r1_bits m \<and>
      (\<exists>snap \<in> {0, 1}. \<bar>uint r - uint r1 * uint (2 * ml_GAMMA2 m) - snap * uint MLQ\<bar> < 2 ^ r0_abs_bits m))"
proof (intro conjI iffI)
  have c: "canon r" using assms by (simp add: canon_def)
  show "zeros (decompose_eval_per_row m (decompose_row m r))" by (rule decompose_row_satisfied [OF c])
  show "decompose_row m r ! 1 = fu32 (high_bits m r)" unfolding decompose_row_cells [OF c] by (simp add: decompose_cells_def)
  show "uint r1 < 2 ^ r1_bits m"
    if "\<exists>row. zeros (decompose_eval_per_row m row) \<and> row ! 0 = fu32 r \<and> row ! 1 = fu32 r1"
    using that decompose_air_sound [OF c] by blast
  show "\<exists>snap \<in> {0, 1}. \<bar>uint r - uint r1 * uint (2 * ml_GAMMA2 m) - snap * uint MLQ\<bar> < 2 ^ r0_abs_bits m"
    if row: "\<exists>row. zeros (decompose_eval_per_row m row) \<and> row ! 0 = fu32 r \<and> row ! 1 = fu32 r1"
  proof -
    obtain s snap where s: "\<bar>s\<bar> < 2 ^ r0_abs_bits m" "uint r = uint r1 * (2 * gam m) + s + of_bool snap * 8380417"
      using row decompose_air_sound [OF c] by blast
    have "uint r - uint r1 * uint (2 * ml_GAMMA2 m) - of_bool snap * uint MLQ = s" using s(2) by (simp add: uint_two_gamma2)
    then show ?thesis using s(1) by (cases snap) (auto intro: bexI [of _ "of_bool snap"])
  qed
  show "\<exists>row. zeros (decompose_eval_per_row m row) \<and> row ! 0 = fu32 r \<and> row ! 1 = fu32 r1"
    if rhs: "uint r1 < 2 ^ r1_bits m \<and>
      (\<exists>snap \<in> {0, 1}. \<bar>uint r - uint r1 * uint (2 * ml_GAMMA2 m) - snap * uint MLQ\<bar> < 2 ^ r0_abs_bits m)"
  proof -
    obtain k :: int where k: "k \<in> {0, 1}" "\<bar>uint r - uint r1 * uint (2 * ml_GAMMA2 m) - k * uint MLQ\<bar> < 2 ^ r0_abs_bits m"
      using rhs by blast
    define s where "s = uint r - uint r1 * uint (2 * ml_GAMMA2 m) - k * uint MLQ"
    have "zeros (decompose_eval_per_row m (decompose_cells m r r1 s (k = 1)))"
      by (rule decompose_cells_satisfied) (use rhs k in \<open>auto simp: s_def uint_two_gamma2\<close>)
    then show ?thesis by (intro exI [of _ "decompose_cells m r r1 s (k = 1)"]) (simp add: decompose_cells_def)
  qed
qed

text \<open>For ML-DSA-44 and r = 60000 the constraints accept the high part 1, where the native one is 0.\<close>

lemma decompose_air_iff_witness:
  "high_bits MlDsa44 60000 = 0 \<and>
   (\<exists>row. zeros (decompose_eval_per_row MlDsa44 row) \<and> row ! 0 = fu32 60000 \<and> row ! 1 = fu32 1)"
  using decompose_air_iff [of 60000 MlDsa44 1]
  by (simp add: high_bits_def decompose_def ml_GAMMA2_def MLQ_def NUM_R1_VALUES_def)

section \<open>UseHint\<close>

lemma hint_M_nr1: "uint (hint_M m) = nr1 m"
  by (simp add: hint_M_def nr1_def NUM_R1_VALUES_def)

lemma hint_bits_enough: "nr1 m \<le> 2 ^ hint_bits m" "(2 :: int) ^ hint_bits m \<le> 64"
  using gam_nr1 [of m] by (cases m; simp add: gam_def nr1_def NUM_R1_VALUES_def ml_GAMMA2_def MLQ_def)+

definition hint_delta :: "bool \<Rightarrow> bool \<Rightarrow> int" where
  "hint_delta s h = (if \<not> h then 0 else if s then 1 else - 1)"

lemma air_use_hint_mod:
  assumes "uint r1 < nr1 m"
  shows "uint (fst (air_use_hint m r1 s h)) = (uint r1 + hint_delta s h) mod nr1 m"
    and "uint (fst (air_use_hint m r1 s h)) = uint r1 + hint_delta s h +
      nr1 m * of_bool (fst (snd (air_use_hint m r1 s h))) - nr1 m * of_bool (snd (snd (air_use_hint m r1 s h)))"
    and "\<not> (fst (snd (air_use_hint m r1 s h)) \<and> snd (snd (air_use_hint m r1 s h)))"
proof -
  define x where "x = uint r1 + hint_delta s h"
  note g = gam_facts(2,3) [of m]
  have u: "0 \<le> uint r1" by simp
  have d: "- 1 \<le> hint_delta s h" "hint_delta s h \<le> 1" by (simp_all add: hint_delta_def)
  have m1: "uint (hint_M m - 1) = nr1 m - 1" using g by (subst uint_sub_if') (simp add: hint_M_nr1)
  have e: "air_use_hint m r1 s h = (if x < 0 then (hint_M m - 1, True, False)
      else if x \<ge> nr1 m then (0, False, True) else (word_of_int x, False, False))"
    by (simp add: air_use_hint_def Let_def x_def hint_delta_def hint_M_nr1)
  consider "x = - 1" | "0 \<le> x" "x < nr1 m" | "x = nr1 m" using u d assms unfolding x_def by linarith
  then have "uint (fst (air_use_hint m r1 s h)) = x mod nr1 m \<and>
    uint (fst (air_use_hint m r1 s h)) = x + nr1 m * of_bool (fst (snd (air_use_hint m r1 s h))) -
      nr1 m * of_bool (snd (snd (air_use_hint m r1 s h))) \<and>
    \<not> (fst (snd (air_use_hint m r1 s h)) \<and> snd (snd (air_use_hint m r1 s h)))"
  proof cases
    case 1
    then show ?thesis unfolding e using g by (simp add: m1 zmod_minus1)
  next
    case 2
    then show ?thesis unfolding e using g by (simp add: uint_word_of_int_small)
  next
    case 3
    then show ?thesis unfolding e using g by simp
  qed
  then show "uint (fst (air_use_hint m r1 s h)) = (uint r1 + hint_delta s h) mod nr1 m"
    and "uint (fst (air_use_hint m r1 s h)) = uint r1 + hint_delta s h +
      nr1 m * of_bool (fst (snd (air_use_hint m r1 s h))) - nr1 m * of_bool (snd (snd (air_use_hint m r1 s h)))"
    and "\<not> (fst (snd (air_use_hint m r1 s h)) \<and> snd (snd (air_use_hint m r1 s h)))"
    unfolding x_def by blast+
qed

lemma use_hint_constraints:
  "zeros (use_hint_eval_per_row m row) \<longleftrightarrow>
    bit_con (row ! 2) = 0 \<and> bit_con (row ! 1) = 0 \<and> row ! 3 = row ! 2 * (2 * row ! 1 - 1) \<and> bit_con (row ! 4) = 0 \<and>
    bit_con (row ! 5) = 0 \<and> row ! 4 * row ! 5 = 0 \<and>
    row ! 6 - row ! 0 - row ! 3 - fu32 (hint_M m) * row ! 4 + fu32 (hint_M m) * row ! 5 = 0 \<and>
    zeros (range_cons row 7 (hint_bits m) (row ! 6)) \<and> zeros (range_cons row 14 (hint_bits m) (row ! (7 + hint_bits m))) \<and>
    row ! 6 + row ! (7 + hint_bits m) + 1 - fu32 (hint_M m) = 0"
proof -
  have sw: "(a :: gf) - b = 0 \<longleftrightarrow> b - a = 0" for a b by auto
  show ?thesis
    unfolding use_hint_eval_per_row_def Let_def range_cons_def
    by (simp only: zeros_simps append.simps sw [of "row ! 6" "bits_sum row 7 (hint_bits m)"]
        sw [of "row ! (7 + hint_bits m)" "bits_sum row 14 (hint_bits m)"]) auto
qed

lemma use_hint_air_sound:
  assumes "uint r1 < nr1 m" "zeros (use_hint_eval_per_row m row)" "row ! 0 = fu32 r1" "row ! 1 = of_bool s" "row ! 2 = of_bool h"
  shows "row ! 6 = of_int ((uint r1 + hint_delta s h) mod nr1 m)"
proof -
  note z = assms(2) [unfolded use_hint_constraints] and g = gam_facts(2,3) [of m] and b = hint_bits_enough(2) [of m]
  obtain v where v: "row ! 6 = of_int v" "0 \<le> v" "v < 2 ^ hint_bits m" using z range_value by blast
  obtain w where w: "row ! (7 + hint_bits m) = of_int w" "0 \<le> w" "w < 2 ^ hint_bits m" using z range_value by blast
  have u: "0 \<le> uint r1" by simp
  have "(of_int (v + w + 1) :: gf) - of_int (nr1 m) = 0"
    using z by (simp add: v(1) w(1) fu32_of_int hint_M_nr1)
  then have vw: "v + w + 1 = nr1 m" by (rule of_int_eqI_small) (use v w b g in linarith)
  define p where "p \<longleftrightarrow> row ! 4 = 1"
  define q where "q \<longleftrightarrow> row ! 5 = 1"
  have pq: "row ! 4 = of_bool p" "row ! 5 = of_bool q" using z by (auto simp: p_def q_def)
  have "row ! 3 = of_bool h * (2 * of_bool s - 1)" using z unfolding assms(4,5) by blast
  then have d3: "row ! 3 = of_int (hint_delta s h)" by (simp add: hint_delta_def)
  have "row ! 6 - row ! 0 - row ! 3 - fu32 (hint_M m) * row ! 4 + fu32 (hint_M m) * row ! 5 = 0" using z by blast
  then have "(of_int (v - uint r1 - hint_delta s h - nr1 m * of_bool p + nr1 m * of_bool q) :: gf) - of_int 0 = 0"
    unfolding pq v(1) d3 assms(3) fu32_of_int hint_M_nr1 by simp
  moreover have d: "- 1 \<le> hint_delta s h" "hint_delta s h \<le> 1" by (simp_all add: hint_delta_def)
  moreover have "0 \<le> nr1 m * of_bool p" "nr1 m * of_bool p \<le> 45" "0 \<le> nr1 m * of_bool q" "nr1 m * of_bool q \<le> 45"
    using g by simp_all
  ultimately have "v - uint r1 - hint_delta s h - nr1 m * of_bool p + nr1 m * of_bool q = 0"
    using v b u assms(1) g by (intro of_int_eqI_small) linarith+
  then have "uint r1 + hint_delta s h = v + nr1 m * (of_bool q - of_bool p)" by (simp add: algebra_simps)
  then have "(uint r1 + hint_delta s h) mod nr1 m = v mod nr1 m" by simp
  also have "\<dots> = v" using v(2) w(2) vw by simp
  finally show ?thesis using v(1) by simp
qed

lemma use_hint_row_complete:
  assumes "uint r1 < nr1 m"
  shows "zeros (use_hint_eval_per_row m (use_hint_row m (r1, s, h)))"
    and "use_hint_row m (r1, s, h) ! 0 = fu32 r1" "use_hint_row m (r1, s, h) ! 1 = of_bool s" "use_hint_row m (r1, s, h) ! 2 = of_bool h"
    and "use_hint_row m (r1, s, h) ! 6 = fu32 (fst (air_use_hint m r1 s h))"
proof -
  obtain adj p q where e: "air_use_hint m r1 s h = (adj, p, q)" by (cases "air_use_hint m r1 s h") auto
  define row where "row = use_hint_row m (r1, s, h)"
  let ?n = "hint_bits m"
  note a = air_use_hint_mod [OF assms, of s h, unfolded e fst_conv snd_conv] and g = gam_facts(2,3) [of m] and b = hint_bits_enough [of m]
  define slack where "slack = hint_M m - 1 - adj"
  have al: "0 \<le> uint adj" "uint adj < nr1 m" using a(1) g by simp_all
  have "uint (hint_M m - 1) = nr1 m - 1" using g by (subst uint_sub_if') (simp add: hint_M_nr1)
  then have sl: "uint slack = nr1 m - 1 - uint adj" using al unfolding slack_def by (subst uint_sub_if') simp
  have n6: "?n \<le> 6" by (cases m) simp_all
  have row: "row = [fu32 r1, of_bool s, of_bool h, if \<not> h then 0 else if s then 1 else 0 - 1, of_bool p, of_bool q, fu32 adj] @
      range_cells adj ?n @ [fu32 slack] @ replicate (6 - ?n) 0 @ range_cells slack ?n"
    by (simp only: row_def use_hint_row_def e Let_def prod.case slack_def)
  have nth: "row ! 0 = fu32 r1" "row ! 1 = of_bool s" "row ! 2 = of_bool h" "row ! 3 = of_int (hint_delta s h)" "row ! 4 = of_bool p"
    "row ! 5 = of_bool q" "row ! 6 = fu32 adj" "row ! (7 + ?n) = fu32 slack"
    by (simp_all add: row hint_delta_def nth_append)
  have rng: "uint adj < 2 ^ ?n" "uint slack < 2 ^ ?n" using al sl b by linarith+
  have r1: "zeros (range_cons row 7 ?n (fu32 adj))"
    by (rule range_satisfied) (use rng in \<open>simp_all add: row nth_append\<close>)
  have nth2: "row ! (14 + i) = range_cells slack ?n ! i" if "i < ?n" for i
    using that n6 by (auto simp: row nth_append)
  have r2: "zeros (range_cons row 14 ?n (fu32 slack))" by (rule range_satisfied(1)) (simp_all add: nth2 rng)
  have d: "of_int (hint_delta s h) = of_bool h * (2 * of_bool s - 1 :: gf)" by (simp add: hint_delta_def)
  have eq1: "fu32 adj - fu32 r1 - of_int (hint_delta s h) - fu32 (hint_M m) * of_bool p + fu32 (hint_M m) * of_bool q = 0"
    unfolding fu32_of_int hint_M_nr1 a(2) by (cases p; cases q; simp)
  have eq2: "fu32 adj + fu32 slack + 1 - fu32 (hint_M m) = 0" by (simp add: fu32_of_int hint_M_nr1 sl)
  have "of_bool p * (of_bool q :: gf) = 0" using a(3) by simp
  then show "zeros (use_hint_eval_per_row m (use_hint_row m (r1, s, h)))"
    unfolding row_def [symmetric] use_hint_constraints nth using d r1 r2 eq1 eq2 by simp
  show "use_hint_row m (r1, s, h) ! 0 = fu32 r1" "use_hint_row m (r1, s, h) ! 1 = of_bool s" "use_hint_row m (r1, s, h) ! 2 = of_bool h"
    "use_hint_row m (r1, s, h) ! 6 = fu32 (fst (air_use_hint m r1 s h))"
    using nth e by (simp_all add: row_def del: One_nat_def)
qed

lemma use_hint_native:
  assumes "canon r"
  shows "uint (use_hint m h r) = (uint (high_bits m r) + hint_delta (0 < to_signed (low_bits m r)) h) mod nr1 m"
  unfolding uint_use_hint [OF assms] uint_high_bits [OF assms] low_bits_pos [OF assms] hint_delta_def
  by (auto simp: mod_simps)

text \<open>C32: The hint constraints compute the native \<open>use_hint\<close>: with the high bits of r, the sign of its low bits and the hint in
  their cells, a field element of the result cell extends to a row that satisfies all constraints
  exactly when it is the number the native code returns, and the row builder's row is such a row.\<close>

theorem use_hint_air_iff:
  assumes "uint r < uint MLQ" "r1 = high_bits m r" "s \<longleftrightarrow> 0 < to_signed (low_bits m r)"
  shows "zeros (use_hint_eval_per_row m (use_hint_row m (r1, s, h))) \<and>
    ((\<exists>row. zeros (use_hint_eval_per_row m row) \<and> row ! 0 = fu32 r1 \<and> row ! 1 = of_bool s \<and> row ! 2 = of_bool h \<and>
      row ! 6 = adj) \<longleftrightarrow> adj = fu32 (use_hint m h r))"
proof (intro conjI iffI)
  have c: "canon r" using assms(1) by (simp add: canon_def)
  have r1: "uint r1 < nr1 m" using uint_high_bits [OF c, of m] gam_facts(2) [of m] by (simp add: assms(2))
  note n = use_hint_native [OF c, of m h, folded assms(2) assms(3) [symmetric]]
  show "zeros (use_hint_eval_per_row m (use_hint_row m (r1, s, h)))" by (rule use_hint_row_complete(1) [OF r1])
  show "adj = fu32 (use_hint m h r)"
    if "\<exists>row. zeros (use_hint_eval_per_row m row) \<and> row ! 0 = fu32 r1 \<and> row ! 1 = of_bool s \<and> row ! 2 = of_bool h \<and> row ! 6 = adj"
  proof -
    have "adj = of_int ((uint r1 + hint_delta s h) mod nr1 m)" using that use_hint_air_sound [OF r1] by blast
    then show ?thesis using n assms(3) by (simp add: fu32_of_int)
  qed
  show "\<exists>row. zeros (use_hint_eval_per_row m row) \<and> row ! 0 = fu32 r1 \<and> row ! 1 = of_bool s \<and> row ! 2 = of_bool h \<and> row ! 6 = adj"
    if a: "adj = fu32 (use_hint m h r)"
  proof -
    have "uint (fst (air_use_hint m r1 s h)) = uint (use_hint m h r)" using air_use_hint_mod(1) [OF r1, of s h] n assms(3) by simp
    then have "fst (air_use_hint m r1 s h) = use_hint m h r" by (simp add: word_uint_eq_iff)
    then show ?thesis using use_hint_row_complete [OF r1, of s h] a by (intro exI [of _ "use_hint_row m (r1, s, h)"]) simp
  qed
qed

lemma use_hint_air_iff_witness:
  "(\<exists>row. zeros (use_hint_eval_per_row MlDsa44 row) \<and> row ! 0 = fu32 (high_bits MlDsa44 300000) \<and>
      row ! 1 = of_bool (0 < to_signed (low_bits MlDsa44 300000)) \<and> row ! 2 = 1 \<and> row ! 6 = fu32 (use_hint MlDsa44 True 300000)) \<and>
   \<not> (\<exists>row. zeros (use_hint_eval_per_row MlDsa44 row) \<and> row ! 0 = fu32 (high_bits MlDsa44 300000) \<and>
      row ! 1 = of_bool (0 < to_signed (low_bits MlDsa44 300000)) \<and> row ! 2 = 1 \<and> row ! 6 = fu32 (use_hint MlDsa44 True 300000) + 1)"
  using use_hint_air_iff [OF _ refl refl, of 300000 MlDsa44 True] by simp

end
