(* ===== verification/Ml_Dsa_Codec.thy ===== *)
theory Ml_Dsa_Codec
  imports Ml_Dsa
begin

text \<open>
  Decoding and sampling of ML-DSA (\<open>ml_dsa_codec.rs\<close>, \<open>ml_dsa_sample_in_ball.rs\<close>,
  \<open>ml_dsa_w1_encode.rs\<close>): keys, signatures and hints from bytes, rejection sampling of the matrix
  and of the challenge polynomial. SHAKE is a parameter, a function from the absorbed bytes to an
  endless stream of bytes; a sampling loop on a stream that never has an acceptable value does not
  return, which is \<open>None\<close>.
\<close>

unbundle bit_operations_syntax

section \<open>Sizes\<close>

definition T1_BYTES_PER_POLY :: nat where "T1_BYTES_PER_POLY = MLN * 10 div 8"
definition Z_BYTES_PER_POLY :: "mldsa_set \<Rightarrow> nat" where "Z_BYTES_PER_POLY m = MLN * ml_Z_BITS_PER_COEF m div 8"
definition HINT_BYTES :: "mldsa_set \<Rightarrow> nat" where "HINT_BYTES m = ml_OMEGA m + ml_K m"
definition Z_BYTES_PER_GROUP :: "mldsa_set \<Rightarrow> nat" where "Z_BYTES_PER_GROUP m = 4 * ml_Z_BITS_PER_COEF m div 8"
definition Z_GROUPS :: nat where "Z_GROUPS = MLN div 4"

section \<open>Decoding\<close>

definition slice :: "nat \<Rightarrow> nat \<Rightarrow> 'a list \<Rightarrow> 'a list" where
  "slice off n xs = take n (drop off xs)"

definition t1_bits :: "bytes \<Rightarrow> u64" where
  "t1_bits c = ucast (c ! 0) OR push_bit 8 (ucast (c ! 1)) OR push_bit 16 (ucast (c ! 2)) OR push_bit 24 (ucast (c ! 3)) OR
     push_bit 32 (ucast (c ! 4))"

definition decode_t1_poly :: "bytes \<Rightarrow> u32 list" where
  "decode_t1_poly packed = concat (map (\<lambda>g. let bits = t1_bits (slice (g * 5) 5 packed)
     in map (\<lambda>j. ucast (drop_bit (j * 10) bits AND 0x3FF)) [0..<4]) [0..<64])"

definition decode_pk :: "mldsa_set \<Rightarrow> bytes \<Rightarrow> (bytes \<times> u32 list list) option" where
  "decode_pk m pk =
     (if length pk \<noteq> ml_PUBLIC_KEY_BYTES m then None
      else Some (slice 0 32 pk, map (\<lambda>k. decode_t1_poly (slice (32 + k * T1_BYTES_PER_POLY) T1_BYTES_PER_POLY pk)) [0..<ml_K m]))"

definition z_bits :: "mldsa_set \<Rightarrow> bytes \<Rightarrow> 128 word" where
  "z_bits m c = fold (\<lambda>i bits. bits OR push_bit (i * 8) (ucast (c ! i))) [0..<Z_BYTES_PER_GROUP m] 0"

definition z_lift :: "mldsa_set \<Rightarrow> u32 \<Rightarrow> u32" where
  "z_lift m raw = (let z_signed = uint (ml_GAMMA1 m) - uint raw
     in if z_signed \<ge> 0 then word_of_int z_signed else word_of_int (z_signed + uint MLQ))"

definition decode_z_poly :: "mldsa_set \<Rightarrow> bytes \<Rightarrow> u32 list" where
  "decode_z_poly m packed =
     (let mask = push_bit (ml_Z_BITS_PER_COEF m) 1 - 1 :: u32
      in concat (map (\<lambda>g. let bits = z_bits m (slice (g * Z_BYTES_PER_GROUP m) (Z_BYTES_PER_GROUP m) packed)
           in map (\<lambda>j. z_lift m (ucast (drop_bit (j * ml_Z_BITS_PER_COEF m) bits AND ucast mask))) [0..<4]) [0..<Z_GROUPS]))"

text \<open>The loop over the positions of one polynomial, and the loop over the polynomials.\<close>

fun hint_positions :: "bytes \<Rightarrow> int \<Rightarrow> bool list \<Rightarrow> bool list option" where
  "hint_positions [] prev row = Some row"
| "hint_positions (p # ps) prev row =
     (if uint p \<le> prev then None else hint_positions ps (uint p) (row[unat p := True]))"

fun hint_rows :: "mldsa_set \<Rightarrow> bytes \<Rightarrow> nat list \<Rightarrow> nat \<Rightarrow> (nat \<times> bool list list) option" where
  "hint_rows m packed [] idx = Some (idx, [])"
| "hint_rows m packed (k # ks) idx =
     (let upper = unat (packed ! (ml_OMEGA m + k))
      in if upper < idx \<or> upper > ml_OMEGA m then None
         else case hint_positions (slice idx (upper - idx) packed) (- 1) (replicate MLN False) of
             None \<Rightarrow> None
           | Some row \<Rightarrow> (case hint_rows m packed ks upper of None \<Rightarrow> None | Some (idx, rows) \<Rightarrow> Some (idx, row # rows)))"

definition decode_hint :: "mldsa_set \<Rightarrow> bytes \<Rightarrow> bool list list option" where
  "decode_hint m packed =
     (case hint_rows m packed [0..<ml_K m] 0 of
        None \<Rightarrow> None
      | Some (idx, h) \<Rightarrow> if list_all (\<lambda>b. b = 0) (slice idx (ml_OMEGA m - idx) packed) then Some h else None)"

definition decode_signature :: "mldsa_set \<Rightarrow> bytes \<Rightarrow> (bytes \<times> u32 list list \<times> bool list list) option" where
  "decode_signature m sig =
     (if length sig \<noteq> ml_SIGNATURE_BYTES m then None
      else let c_tilde = slice 0 (ml_C_TILDE_BYTES m) sig;
               z_off = ml_C_TILDE_BYTES m;
               z = map (\<lambda>l. decode_z_poly m (slice (z_off + l * Z_BYTES_PER_POLY m) (Z_BYTES_PER_POLY m) sig)) [0..<ml_L m];
               h_off = z_off + ml_L m * Z_BYTES_PER_POLY m
           in case decode_hint m (slice h_off (HINT_BYTES m) sig) of None \<Rightarrow> None | Some h \<Rightarrow> Some (c_tilde, z, h))"

definition t1_times_2d :: "u32 list list \<Rightarrow> u32 list list" where
  "t1_times_2d t1 = map (map (push_bit MLD)) t1"

section \<open>Sampling\<close>

type_synonym xof = "bytes \<Rightarrow> nat \<Rightarrow> byte"

definition coeff_from_three_bytes :: "(nat \<Rightarrow> byte) \<Rightarrow> nat \<Rightarrow> u32" where
  "coeff_from_three_bytes s pos =
     (let b2 = s (pos + 2) AND 0x7F in push_bit 16 (ucast b2) OR push_bit 8 (ucast (s (pos + 1))) OR ucast (s pos))"

partial_function (option) rej_loop :: "(nat \<Rightarrow> byte) \<Rightarrow> nat \<Rightarrow> u32 list \<Rightarrow> u32 list option" where
  "rej_loop s pos out =
     (if length out < MLN
      then let z = coeff_from_three_bytes s pos in rej_loop s (pos + 3) (if z < MLQ then out @ [z] else out)
      else Some out)"

definition rej_ntt_poly :: "xof \<Rightarrow> bytes \<Rightarrow> byte \<Rightarrow> byte \<Rightarrow> u32 list option" where
  "rej_ntt_poly shake128 rho col row = rej_loop (shake128 (rho @ [col] @ [row])) 0 []"

definition expand_a :: "xof \<Rightarrow> mldsa_set \<Rightarrow> bytes \<Rightarrow> u32 list list list option" where
  "expand_a shake128 m rho = those (map (\<lambda>r. those (map (\<lambda>c. rej_ntt_poly shake128 rho (word_of_nat c) (word_of_nat r)) [0..<ml_L m])) [0..<ml_K m])"

partial_function (option) ball_index :: "(nat \<Rightarrow> byte) \<Rightarrow> nat \<Rightarrow> nat \<Rightarrow> (nat \<times> nat) option" where
  "ball_index s i pos = (let b = unat (s pos) in if b \<le> i then Some (b, pos + 1) else ball_index s i (pos + 1))"

fun ball_loop :: "(nat \<Rightarrow> byte) \<Rightarrow> nat list \<Rightarrow> u64 \<Rightarrow> nat \<Rightarrow> u32 list \<Rightarrow> u32 list option" where
  "ball_loop s [] signs pos c = Some c"
| "ball_loop s (i # is) signs pos c =
     (case ball_index s i pos of
        None \<Rightarrow> None
      | Some (j, pos) \<Rightarrow>
          let c = c[i := c ! j]; c = c[j := (if signs AND 1 = 0 then 1 else MLQ - 1)]
          in ball_loop s is (drop_bit 1 signs) pos c)"

definition sample_in_ball :: "xof \<Rightarrow> mldsa_set \<Rightarrow> bytes \<Rightarrow> u32 list option" where
  "sample_in_ball shake256 m c_tilde =
     (let s = shake256 c_tilde; signs = of_le_bytes (map s [0..<8])
      in ball_loop s [MLN - ml_TAU m..<MLN] signs 8 (replicate MLN 0))"

section \<open>Packing of the high parts\<close>

definition W1_BITS :: nat where "W1_BITS = 7"
definition W1_BYTES :: nat where "W1_BYTES = (MLN * W1_BITS + 7) div 8"

definition w1_put_bit :: "u32 \<Rightarrow> nat \<Rightarrow> nat \<times> bytes \<Rightarrow> nat \<times> bytes" where
  "w1_put_bit c k = (\<lambda>(bit_pos, out). let byte_idx = drop_bit 3 bit_pos; bit_idx = take_bit 3 bit_pos
     in (bit_pos + 1, out[byte_idx := out ! byte_idx OR push_bit bit_idx (ucast (drop_bit k c AND 1))]))"

definition w1_encode :: "u32 list \<Rightarrow> bytes" where
  "w1_encode coeffs = snd (fold (\<lambda>c. fold (w1_put_bit c) [0..<W1_BITS]) coeffs (0, replicate W1_BYTES 0))"

section \<open>Packed groups determine their bytes\<close>

lemma length_slice [simp]: "off + n \<le> length xs \<Longrightarrow> length (slice off n xs) = n"
  by (simp add: slice_def)

lemma slice_nth: "off + n \<le> length xs \<Longrightarrow> i < n \<Longrightarrow> slice off n xs ! i = xs ! (off + i)"
  by (simp add: slice_def)

lemma slice_eqI:
  assumes "\<And>i. i < n \<Longrightarrow> xs ! (off + i) = ys ! (off + i)" "off + n \<le> length xs" "off + n \<le> length ys"
  shows "slice off n xs = slice off n ys"
  using assms by (intro nth_equalityI) (simp_all add: slice_nth)

lemma bit_or_bytes:
  "bit (fold (\<lambda>i bits. bits OR push_bit (i * 8) (ucast (c ! i))) [0..<n] 0 :: 'a::len word) k \<longleftrightarrow>
     k < LENGTH('a) \<and> k div 8 < n \<and> bit (c ! (k div 8) :: byte) (k mod 8)"
proof (induction n)
  case (Suc n)
  have "bit (push_bit (n * 8) (ucast (c ! n)) :: 'a word) k \<longleftrightarrow> k < LENGTH('a) \<and> k div 8 = n \<and> bit (c ! (k div 8)) (k mod 8)"
  proof (cases "k div 8 = n")
    case True
    then have "k = n * 8 + k mod 8" by (metis div_mult_mod_eq)
    then show ?thesis using True by (auto simp: bit_simps minus_div_mult_eq_mod)
  next
    case False
    have "\<not> bit (c ! n) (k - n * 8)" if "n * 8 \<le> k"
    proof
      assume "bit (c ! n) (k - n * 8)"
      then have "k - n * 8 < 8" using bit_imp_le_length [of "c ! n" "k - n * 8"] by simp
      then have "k div 8 = n" using that by (intro div_nat_eqI) simp_all
      then show False using False by simp
    qed
    then show ?thesis using False by (auto simp: bit_simps)
  qed
  then show ?case using Suc by (auto simp: bit_simps less_Suc_eq)
qed simp

lemma t1_bits_fold: "t1_bits c = fold (\<lambda>i bits. bits OR push_bit (i * 8) (ucast (c ! i))) [0..<5] 0"
  by (simp add: t1_bits_def eval_nat_numeral or.assoc)

text \<open>Equal fields of a group mean equal bytes.\<close>

lemma group_bytes_eq:
  fixes x y :: "'a::len word"
  assumes "\<And>k. bit x k \<longleftrightarrow> k < LENGTH('a) \<and> k div 8 < n \<and> bit (c ! (k div 8) :: byte) (k mod 8)"
    and "\<And>k. bit y k \<longleftrightarrow> k < LENGTH('a) \<and> k div 8 < n \<and> bit (d ! (k div 8) :: byte) (k mod 8)"
    and "8 * n \<le> LENGTH('a)" "8 * n = 4 * w" "0 < w"
    and "\<And>j i. j < 4 \<Longrightarrow> i < w \<Longrightarrow> bit x (j * w + i) = bit y (j * w + i)"
    and "i < n"
  shows "c ! i = d ! i"
proof (rule bit_eqI)
  fix b assume "possible_bit TYPE(byte) b"
  then have b: "b < 8" by simp
  define k where "k = 8 * i + b"
  have k: "k div 8 = i" "k mod 8 = b" "k < 8 * n" using b assms(7) by (simp_all add: k_def)
  have "k div w < 4" using k(3) assms(4,5) by (simp add: less_mult_imp_div_less)
  moreover have "k mod w < w" using assms(5) by simp
  ultimately have "bit x (k div w * w + k mod w) = bit y (k div w * w + k mod w)" by (rule assms(6))
  then have "bit x k = bit y k" by simp
  then show "bit (c ! i) b = bit (d ! i) b" using assms(1-3) k assms(7) by auto
qed

lemma z_facts: "ml_Z_BITS_PER_COEF m = 18 \<and> ml_GAMMA1 m = 131072 \<and> Z_BYTES_PER_GROUP m = 9 \<and> Z_BYTES_PER_POLY m = 576 \<or>
    ml_Z_BITS_PER_COEF m = 20 \<and> ml_GAMMA1 m = 524288 \<and> Z_BYTES_PER_GROUP m = 10 \<and> Z_BYTES_PER_POLY m = 640"
  by (cases m) (simp_all add: Z_BYTES_PER_GROUP_def Z_BYTES_PER_POLY_def MLN_def)

lemma z_facts': "8 * Z_BYTES_PER_GROUP m = 4 * ml_Z_BITS_PER_COEF m" "Z_BYTES_PER_POLY m = 64 * Z_BYTES_PER_GROUP m"
  "uint (ml_GAMMA1 m) = 2 ^ (ml_Z_BITS_PER_COEF m - 1)" "0 < ml_Z_BITS_PER_COEF m" "ml_Z_BITS_PER_COEF m \<le> 20"
  "8 * Z_BYTES_PER_GROUP m \<le> 128"
  using z_facts [of m] by auto

text \<open>Lifting is injective on raw values of the field's width, and its values are centred residues.\<close>

lemma z_lift:
  assumes "uint raw < 2 ^ ml_Z_BITS_PER_COEF m"
  shows "to_signed (z_lift m raw) = uint (ml_GAMMA1 m) - uint raw" "canon (z_lift m raw)"
proof -
  have r: "0 \<le> uint raw" by simp
  have g: "0 < uint (ml_GAMMA1 m)" "uint (ml_GAMMA1 m) \<le> 524288" "(2 :: int) ^ ml_Z_BITS_PER_COEF m \<le> 1048576"
    using z_facts [of m] by auto
  have e: "z_lift m raw = lift_signed (uint (ml_GAMMA1 m) - uint raw)" by (simp add: z_lift_def lift_signed_def Let_def)
  have "- 4190208 \<le> uint (ml_GAMMA1 m) - uint raw" "uint (ml_GAMMA1 m) - uint raw \<le> 4190208"
    using g assms r by linarith+
  then show "to_signed (z_lift m raw) = uint (ml_GAMMA1 m) - uint raw" "canon (z_lift m raw)"
    unfolding e by (simp_all add: to_signed_lift)
qed

lemma groups_eq:
  assumes "length p = 64 * n" "length q = 64 * n" "0 < n"
    and "\<And>g i. g < 64 \<Longrightarrow> i < n \<Longrightarrow> slice (g * n) n p ! i = slice (g * n) n q ! i"
  shows "p = q"
proof (rule nth_equalityI)
  fix k assume "k < length p"
  then have k: "k < 64 * n" using assms(1) by simp
  define g i where "g = k div n" and "i = k mod n"
  have g: "g < 64" unfolding g_def using k by (intro less_mult_imp_div_less) simp
  have i: "i < n" "k = g * n + i" using assms(3) by (simp_all add: i_def g_def)
  have "Suc g * n \<le> 64 * n" using g by (intro mult_le_mono1) simp
  then have "g * n + n \<le> 64 * n" by simp
  then show "p ! k = q ! k" using assms(4) [OF g i(1)] i assms(1,2) by (simp add: slice_nth)
qed (simp add: assms)

lemma concat_groups_eq:
  assumes "concat (map f [0..<n]) = concat (map g [0..<n])" "\<And>i. length (f i) = length (g i)" "i < n"
  shows "f i = g i"
proof -
  have "map f [0..<n] = map g [0..<n]"
    using assms(1) by (rule concat_injective) (auto simp: assms(2) zip_map_map zip_same_conv_map)
  then show ?thesis using assms(3) by (simp add: map_eq_conv)
qed

definition z_raw :: "mldsa_set \<Rightarrow> 128 word \<Rightarrow> nat \<Rightarrow> u32" where
  "z_raw m bits j = take_bit (ml_Z_BITS_PER_COEF m) (ucast (drop_bit (j * ml_Z_BITS_PER_COEF m) bits))"

lemma decode_z_poly_raw:
  "decode_z_poly m packed = concat (map (\<lambda>g.
     map (\<lambda>j. z_lift m (z_raw m (z_bits m (slice (g * Z_BYTES_PER_GROUP m) (Z_BYTES_PER_GROUP m) packed)) j)) [0..<4]) [0..<64])"
proof -
  have mask: "push_bit n 1 - 1 = (mask n :: u32)" for n by (simp add: mask_eq_exp_minus_1 push_bit_eq_mult)
  have "ucast (drop_bit (j * ml_Z_BITS_PER_COEF m) bits AND ucast (push_bit (ml_Z_BITS_PER_COEF m) 1 - 1 :: u32)) = z_raw m bits j" for j bits
    unfolding z_raw_def mask by (rule bit_word_eqI) (auto simp: bit_simps)
  then show ?thesis by (simp add: decode_z_poly_def Let_def Z_GROUPS_def MLN_def)
qed

lemma uint_z_raw: "uint (z_raw m bits j) < 2 ^ ml_Z_BITS_PER_COEF m"
  by (simp add: z_raw_def unsigned_take_bit_eq)

lemma bit_z_raw: "i < ml_Z_BITS_PER_COEF m \<Longrightarrow> bit (z_raw m bits j) i = bit bits (j * ml_Z_BITS_PER_COEF m + i)"
  using z_facts'(5) [of m] bit_imp_le_length [of bits "j * ml_Z_BITS_PER_COEF m + i"] by (auto simp: z_raw_def bit_simps)

lemma decode_z_poly_inj:
  assumes "decode_z_poly m p = decode_z_poly m q" "length p = Z_BYTES_PER_POLY m" "length q = Z_BYTES_PER_POLY m"
  shows "p = q"
proof (rule groups_eq)
  let ?n = "Z_BYTES_PER_GROUP m" and ?w = "ml_Z_BITS_PER_COEF m"
  note z = z_facts' [of m]
  show "length p = 64 * ?n" "length q = 64 * ?n" using assms(2,3) z(2) by simp_all
  show "0 < ?n" using z(1,4) by simp
  fix g i :: nat assume h: "g < 64" "i < ?n"
  define x y where "x = z_bits m (slice (g * ?n) ?n p)" and "y = z_bits m (slice (g * ?n) ?n q)"
  have "map (\<lambda>j. z_lift m (z_raw m x j)) [0..<4] = map (\<lambda>j. z_lift m (z_raw m y j)) [0..<4]"
    unfolding x_def y_def by (rule concat_groups_eq [OF assms(1) [unfolded decode_z_poly_raw] _ h(1)]) simp
  then have lift: "z_lift m (z_raw m x j) = z_lift m (z_raw m y j)" if "j < 4" for j using that by (simp only: map_eq_conv) simp
  have "z_raw m x j = z_raw m y j" if "j < 4" for j
  proof -
    have "uint (ml_GAMMA1 m) - uint (z_raw m x j) = uint (ml_GAMMA1 m) - uint (z_raw m y j)"
      using arg_cong [OF lift [OF that], of to_signed] by (simp only: z_lift(1) [OF uint_z_raw])
    then have "uint (z_raw m x j) = uint (z_raw m y j)" by linarith
    then show ?thesis by (simp only: word_uint_eq_iff)
  qed
  then have "bit x (j * ?w + i) = bit y (j * ?w + i)" if "j < 4" "i < ?w" for j i
    using that bit_z_raw [of i m x j] bit_z_raw [of i m y j] by simp
  then show "slice (g * ?n) ?n p ! i = slice (g * ?n) ?n q ! i"
    using z(1,4,6) h(2) bit_or_bytes [of "slice (g * ?n) ?n p" ?n, where 'a = 128] bit_or_bytes [of "slice (g * ?n) ?n q" ?n, where 'a = 128]
    by (intro group_bytes_eq [of x ?n "slice (g * ?n) ?n p" y "slice (g * ?n) ?n q" ?w i]) (simp_all add: x_def y_def z_bits_def)
qed

lemma decode_z_poly_values:
  "x \<in> set (decode_z_poly m packed) \<Longrightarrow> canon x \<and> - uint (ml_GAMMA1 m) < to_signed x \<and> to_signed x \<le> uint (ml_GAMMA1 m)"
  "length (decode_z_poly m packed) = 256"
proof -
  assume "x \<in> set (decode_z_poly m packed)"
  then obtain bits j where x: "x = z_lift m (z_raw m bits j)" by (auto simp: decode_z_poly_raw)
  have "0 \<le> uint (z_raw m bits j)" "uint (z_raw m bits j) < 2 * uint (ml_GAMMA1 m)"
    using uint_z_raw [of m bits j] z_facts [of m] by auto
  then show "canon x \<and> - uint (ml_GAMMA1 m) < to_signed x \<and> to_signed x \<le> uint (ml_GAMMA1 m)"
    unfolding x using z_lift [OF uint_z_raw, of m bits j] by simp
next
  show "length (decode_z_poly m packed) = 256" by (simp add: decode_z_poly_raw length_concat comp_def sum_list_triv)
qed

section \<open>Hints\<close>

lemma hint_positions_spec:
  assumes "hint_positions ps prev row = Some row'" "length row = 256"
  shows "length row' = 256 \<and> sorted_wrt (<) (map uint ps) \<and> (\<forall>p \<in> set ps. prev < uint p) \<and>
    (\<forall>i < 256. row' ! i \<longleftrightarrow> row ! i \<or> i \<in> unat ` set ps)"
  using assms
proof (induction ps prev row rule: hint_positions.induct)
  case (2 p ps prev row)
  then have h: "prev < uint p" "hint_positions ps (uint p) (row[unat p := True]) = Some row'" by (simp_all split: if_splits)
  have "\<not> uint p \<le> prev" using h(1) by simp
  then have ih: "length row' = 256 \<and> sorted_wrt (<) (map uint ps) \<and> (\<forall>q \<in> set ps. uint p < uint q) \<and>
      (\<forall>i < 256. row' ! i \<longleftrightarrow> row[unat p := True] ! i \<or> i \<in> unat ` set ps)"
    using 2(1) h(2) 2(3) by simp
  have "row[unat p := True] ! i \<longleftrightarrow> row ! i \<or> i = unat p" if "i < 256" for i
    using that 2(3) by (cases "unat p = i") auto
  then show ?case using ih h(1) by (auto 0 3)
qed simp

text \<open>A row determines the positions it was read from.\<close>

lemma hint_positions_inj:
  assumes "hint_positions ps (- 1) (replicate MLN False) = Some row" "hint_positions qs (- 1) (replicate MLN False) = Some row"
  shows "ps = qs"
proof -
  have p: "length row = 256 \<and> sorted_wrt (<) (map uint ps) \<and> (\<forall>i < 256. row ! i \<longleftrightarrow> i \<in> unat ` set ps)"
    using hint_positions_spec [OF assms(1)] by (simp add: MLN_def)
  have q: "sorted_wrt (<) (map uint qs) \<and> (\<forall>i < 256. row ! i \<longleftrightarrow> i \<in> unat ` set qs)"
    using hint_positions_spec [OF assms(2)] by (simp add: MLN_def)
  have mem: "x \<in> set rs \<longleftrightarrow> row ! unat x" if "\<forall>i < 256. row ! i \<longleftrightarrow> i \<in> unat ` set rs" for x and rs :: bytes
  proof -
    have "unat x < 256" using unsigned_less [of x, where 'a = nat] by simp
    then have "row ! unat x \<longleftrightarrow> unat x \<in> unat ` set rs" using that by blast
    also have "\<dots> \<longleftrightarrow> x \<in> set rs" by (rule inj_image_mem_iff) (simp add: inj_def word_unat_eq_iff)
    finally show ?thesis by blast
  qed
  have "set ps = set qs" using mem [of ps] mem [of qs] p q by blast
  then have "set (map uint ps) = set (map uint qs)" by simp
  then have "map uint ps = map uint qs"
    using p q by (intro sorted_distinct_set_unique) (simp_all add: strict_sorted_iff)
  then show ?thesis by (rule map_injective) (simp add: inj_def word_uint_eq_iff)
qed

definition row_weight :: "bool list \<Rightarrow> nat" where "row_weight row = length (filter id row)"

lemma hint_positions_weight:
  assumes "hint_positions ps (- 1) (replicate MLN False) = Some row"
  shows "row_weight row = length ps"
proof -
  have p: "length row = 256" "sorted_wrt (<) (map uint ps)" "\<forall>i < 256. row ! i \<longleftrightarrow> i \<in> unat ` set ps"
    using hint_positions_spec [OF assms] by (simp_all add: MLN_def)
  have lt: "unat x < 256" for x :: byte using unsigned_less [of x, where 'a = nat] by simp
  have "row_weight row = card {i. i < 256 \<and> row ! i}" by (simp add: row_weight_def length_filter_conv_card p(1))
  also have "{i. i < 256 \<and> row ! i} = unat ` set ps" using p(3) lt by auto
  also have "card (unat ` set ps) = card (set ps)" by (rule card_image) (simp add: inj_on_def word_unat_eq_iff)
  also have "\<dots> = length ps" using p(2) by (metis distinct_card distinct_map strict_sorted_iff)
  finally show ?thesis .
qed

lemma hint_rows_inj:
  assumes "hint_rows m p ks idx = Some (n, rows)" "hint_rows m q ks idx = Some (n', rows)" "idx \<le> ml_OMEGA m"
    and "ml_OMEGA m \<le> length p" "ml_OMEGA m \<le> length q"
  shows "n = n' \<and> idx \<le> n \<and> n \<le> ml_OMEGA m \<and> n = idx + sum_list (map row_weight rows) \<and>
    slice idx (n - idx) p = slice idx (n - idx) q \<and> (\<forall>k \<in> set ks. p ! (ml_OMEGA m + k) = q ! (ml_OMEGA m + k))"
  using assms
proof (induction ks arbitrary: idx rows)
  case Nil
  then show ?case by (simp add: slice_def)
next
  case (Cons k ks)
  define u where "u = unat (p ! (ml_OMEGA m + k))"
  define v where "v = unat (q ! (ml_OMEGA m + k))"
  obtain row rest where row: "rows = row # rest" using Cons.prems(1) by (auto simp: Let_def split: if_splits option.splits)
  have u: "idx \<le> u" "u \<le> ml_OMEGA m" "hint_positions (slice idx (u - idx) p) (- 1) (replicate MLN False) = Some row"
    "hint_rows m p ks u = Some (n, rest)"
    using Cons.prems(1) unfolding row by (auto simp: Let_def u_def split: if_splits option.splits)
  have v: "idx \<le> v" "v \<le> ml_OMEGA m" "hint_positions (slice idx (v - idx) q) (- 1) (replicate MLN False) = Some row"
    "hint_rows m q ks v = Some (n', rest)"
    using Cons.prems(2) unfolding row by (auto simp: Let_def v_def split: if_splits option.splits)
  have e: "slice idx (u - idx) p = slice idx (v - idx) q" by (rule hint_positions_inj [OF u(3) v(3)])
  have "length (slice idx (u - idx) p) = u - idx" "length (slice idx (v - idx) q) = v - idx"
    using u(1,2) v(1,2) Cons.prems(4,5) by simp_all
  then have uv: "u = v" and w: "row_weight row = u - idx"
    using e u(1) v(1) hint_positions_weight [OF u(3)] by simp_all
  have b: "p ! (ml_OMEGA m + k) = q ! (ml_OMEGA m + k)" using uv by (simp add: u_def v_def word_unat_eq_iff)
  have ih: "n = n' \<and> u \<le> n \<and> n \<le> ml_OMEGA m \<and> n = u + sum_list (map row_weight rest) \<and> slice u (n - u) p = slice u (n - u) q \<and>
      (\<forall>k \<in> set ks. p ! (ml_OMEGA m + k) = q ! (ml_OMEGA m + k))"
    using Cons.IH [OF u(4) v(4) [folded uv] u(2) Cons.prems(4,5)] .
  have cat: "slice idx (n - idx) xs = slice idx (u - idx) xs @ slice u (n - u) xs" for xs :: bytes
  proof -
    have n: "n - idx = (u - idx) + (n - u)" using ih u(1) by simp
    show ?thesis unfolding slice_def n take_add using u(1) by simp
  qed
  show ?case using ih e uv b w u(1) unfolding cat row by auto
qed

lemma decode_hint_inj:
  assumes "decode_hint m p = Some h" "decode_hint m q = Some h" "length p = HINT_BYTES m" "length q = HINT_BYTES m"
  shows "p = q" "sum_list (map row_weight h) \<le> ml_OMEGA m"
proof -
  have len: "ml_OMEGA m \<le> length p" "ml_OMEGA m \<le> length q" "0 \<le> ml_OMEGA m" using assms(3,4) by (simp_all add: HINT_BYTES_def)
  obtain n where n: "hint_rows m p [0..<ml_K m] 0 = Some (n, h)" "list_all (\<lambda>b. b = 0) (slice n (ml_OMEGA m - n) p)"
    using assms(1) by (auto simp: decode_hint_def split: option.splits if_splits)
  obtain n' where n': "hint_rows m q [0..<ml_K m] 0 = Some (n', h)" "list_all (\<lambda>b. b = 0) (slice n' (ml_OMEGA m - n') q)"
    using assms(2) by (auto simp: decode_hint_def split: option.splits if_splits)
  note r = hint_rows_inj [OF n(1) n'(1) len(3,1,2)]
  then show "sum_list (map row_weight h) \<le> ml_OMEGA m" by simp
  have nn: "n = n'" "n \<le> ml_OMEGA m" "slice 0 n p = slice 0 n q" "\<forall>k < ml_K m. p ! (ml_OMEGA m + k) = q ! (ml_OMEGA m + k)"
    using r by auto
  show "p = q"
  proof (rule nth_equalityI)
    fix i assume "i < length p"
    then have i: "i < ml_OMEGA m + ml_K m" using assms(3) by (simp add: HINT_BYTES_def)
    consider "i < n" | "n \<le> i" "i < ml_OMEGA m" | "ml_OMEGA m \<le> i" by linarith
    then show "p ! i = q ! i"
    proof cases
      case 1
      then have "slice 0 n p ! i = slice 0 n q ! i" using nn(3) by simp
      then show ?thesis using 1 nn(2) len by (simp add: slice_nth)
    next
      case 2
      have "slice n (ml_OMEGA m - n) xs ! (i - n) = xs ! i" if "ml_OMEGA m \<le> length xs" for xs :: bytes
        using that 2 by (simp add: slice_nth)
      moreover have "slice n (ml_OMEGA m - n) xs ! (i - n) \<in> set (slice n (ml_OMEGA m - n) xs)" if "ml_OMEGA m \<le> length xs" for xs :: bytes
        using that 2 by (intro nth_mem) simp
      ultimately have "p ! i = 0" "q ! i = 0" using n(2) n'(2) nn(1) len unfolding list_all_iff by metis+
      then show ?thesis by simp
    next
      case 3
      then have "i = ml_OMEGA m + (i - ml_OMEGA m)" "i - ml_OMEGA m < ml_K m" using i by simp_all
      then show ?thesis using nn(4) by metis
    qed
  qed (simp add: assms(3,4))
qed

section \<open>Signatures and keys\<close>

lemma signature_size:
  "ml_SIGNATURE_BYTES m = ml_C_TILDE_BYTES m + ml_L m * Z_BYTES_PER_POLY m + HINT_BYTES m"
  "ml_PUBLIC_KEY_BYTES m = 32 + ml_K m * T1_BYTES_PER_POLY"
  by (cases m; simp add: Z_BYTES_PER_POLY_def HINT_BYTES_def MLN_def T1_BYTES_PER_POLY_def)+

text \<open>A list is determined by a head, equally long slices and a tail.\<close>

lemma slices_eq:
  assumes "length xs = h + k * n + t" "length ys = h + k * n + t" "slice 0 h xs = slice 0 h ys"
    and "\<And>i. i < k \<Longrightarrow> slice (h + i * n) n xs = slice (h + i * n) n ys" "slice (h + k * n) t xs = slice (h + k * n) t ys"
  shows "xs = ys"
proof (rule nth_equalityI)
  fix j assume "j < length xs"
  then have j: "j < h + k * n + t" using assms(1) by simp
  consider "j < h" | "h \<le> j" "j < h + k * n" | "h + k * n \<le> j" by linarith
  then show "xs ! j = ys ! j"
  proof cases
    case 1
    then have "slice 0 h xs ! j = slice 0 h ys ! j" using assms(3) by simp
    then show ?thesis using 1 assms(1,2) by (simp add: slice_nth)
  next
    case 2
    then have n: "0 < n" by (cases n) simp_all
    define i r where "i = (j - h) div n" and "r = (j - h) mod n"
    have r: "r < n" "j = h + i * n + r" using n 2(1) by (simp_all add: r_def i_def)
    have i: "i < k" unfolding i_def using 2 by (intro less_mult_imp_div_less) linarith
    have "Suc i * n \<le> k * n" using i by (intro mult_le_mono1) simp
    then have l: "h + i * n + n \<le> h + k * n + t" by simp
    have "slice (h + i * n) n xs ! r = slice (h + i * n) n ys ! r" using assms(4) [OF i] by simp
    then show ?thesis using r l assms(1,2) by (simp add: slice_nth)
  next
    case 3
    then have "slice (h + k * n) t xs ! (j - (h + k * n)) = slice (h + k * n) t ys ! (j - (h + k * n))" using assms(5) by simp
    then show ?thesis using 3 j assms(1,2) by (simp add: slice_nth)
  qed
qed (simp add: assms)

lemma decode_signature_inj:
  assumes "decode_signature m s = Some (c, z, h)" "decode_signature m s' = Some (c, z, h)"
  shows "s = s'" "(\<Sum>row\<leftarrow>h. row_weight row) \<le> ml_OMEGA m"
proof -
  let ?c = "ml_C_TILDE_BYTES m" and ?n = "Z_BYTES_PER_POLY m" and ?t = "HINT_BYTES m"
  have l: "length s = ?c + ml_L m * ?n + ?t" "length s' = ?c + ml_L m * ?n + ?t"
    using assms by (auto simp: decode_signature_def signature_size(1) split: if_splits)
  have d: "slice 0 ?c s = c" "slice 0 ?c s' = c"
    "map (\<lambda>l. decode_z_poly m (slice (?c + l * ?n) ?n s)) [0..<ml_L m] = z"
    "map (\<lambda>l. decode_z_poly m (slice (?c + l * ?n) ?n s')) [0..<ml_L m] = z"
    "decode_hint m (slice (?c + ml_L m * ?n) ?t s) = Some h" "decode_hint m (slice (?c + ml_L m * ?n) ?t s') = Some h"
    using assms by (auto simp: decode_signature_def Let_def split: if_splits option.splits)
  note hint = decode_hint_inj [OF d(5,6)]
  have hl: "length (slice (?c + ml_L m * ?n) ?t s) = ?t" "length (slice (?c + ml_L m * ?n) ?t s') = ?t" using l by simp_all
  show "(\<Sum>row\<leftarrow>h. row_weight row) \<le> ml_OMEGA m" by (rule hint(2) [OF hl])
  show "s = s'"
  proof (rule slices_eq [OF l])
    show "slice 0 ?c s = slice 0 ?c s'" using d(1,2) by simp
    show "slice (?c + ml_L m * ?n) ?t s = slice (?c + ml_L m * ?n) ?t s'" by (rule hint(1) [OF hl])
    fix i assume i: "i < ml_L m"
    have "Suc i * ?n \<le> ml_L m * ?n" using i by (intro mult_le_mono1) simp
    then have b: "?c + i * ?n + ?n \<le> ?c + ml_L m * ?n + ?t" by simp
    have "map (\<lambda>l. decode_z_poly m (slice (?c + l * ?n) ?n s)) [0..<ml_L m] = map (\<lambda>l. decode_z_poly m (slice (?c + l * ?n) ?n s')) [0..<ml_L m]"
      using d(3,4) by simp
    then have "decode_z_poly m (slice (?c + i * ?n) ?n s) = decode_z_poly m (slice (?c + i * ?n) ?n s')"
      using i by (simp only: map_eq_conv) simp
    then show "slice (?c + i * ?n) ?n s = slice (?c + i * ?n) ?n s'"
      by (rule decode_z_poly_inj) (use b l in simp_all)
  qed
qed

lemma hint_rows_length: "hint_rows m p ks idx = Some (n, rows) \<Longrightarrow> length rows = length ks \<and> (\<forall>row \<in> set rows. length row = 256)"
proof (induction ks arbitrary: idx rows)
  case (Cons k ks)
  then show ?case
    using hint_positions_spec [of _ "- 1" "replicate MLN False"] by (fastforce simp: Let_def MLN_def split: if_splits option.splits)
qed simp

text \<open>C37: Signature decoding is canonical: no two byte strings decode to the same challenge, response and hint (with fewer than the
  required bytes, unsorted positions or padding that is not zero the decoder returns \<open>None\<close>); a decoded
  response has the level's shape, canonical coefficients within gamma1 of zero, and the hint at most
  omega ones.\<close>

theorem decode_signature_canonical:
  assumes "decode_signature m s = Some (c, z, h)"
  shows "(decode_signature m s' = Some (c, z, h) \<longrightarrow> s' = s) \<and> length c = ml_C_TILDE_BYTES m \<and> length z = ml_L m \<and>
    (\<forall>p \<in> set z. length p = MLN \<and> (\<forall>x \<in> set p. x < MLQ \<and> \<bar>to_signed x\<bar> \<le> uint (ml_GAMMA1 m))) \<and>
    length h = ml_K m \<and> (\<forall>row \<in> set h. length row = MLN) \<and> (\<Sum>row\<leftarrow>h. length (filter id row)) \<le> ml_OMEGA m"
proof (intro conjI impI ballI)
  show "s' = s" if "decode_signature m s' = Some (c, z, h)" using decode_signature_inj(1) [OF assms that] by simp
  show "(\<Sum>row\<leftarrow>h. length (filter id row)) \<le> ml_OMEGA m" using decode_signature_inj(2) [OF assms assms] by (simp add: row_weight_def)
  have l: "length s = ml_SIGNATURE_BYTES m" using assms by (auto simp: decode_signature_def split: if_splits)
  show "length c = ml_C_TILDE_BYTES m"
    using assms l by (auto simp: decode_signature_def Let_def signature_size(1) split: if_splits option.splits)
  have z: "z = map (\<lambda>l. decode_z_poly m (slice (ml_C_TILDE_BYTES m + l * Z_BYTES_PER_POLY m) (Z_BYTES_PER_POLY m) s)) [0..<ml_L m]"
    using assms by (auto simp: decode_signature_def Let_def split: if_splits option.splits)
  show "length z = ml_L m" by (simp add: z)
  show "length p = MLN" if "p \<in> set z" for p using that by (auto simp: z decode_z_poly_values(2) MLN_def)
  show "x < MLQ" "\<bar>to_signed x\<bar> \<le> uint (ml_GAMMA1 m)" if "p \<in> set z" "x \<in> set p" for p x
    using that decode_z_poly_values(1) [of x m] by (force simp: z canon_def word_less_def)+
  obtain packed n where "hint_rows m packed [0..<ml_K m] 0 = Some (n, h)"
    using assms by (auto simp: decode_signature_def decode_hint_def Let_def split: if_splits option.splits)
  from hint_rows_length [OF this] show "length h = ml_K m" "\<And>row. row \<in> set h \<Longrightarrow> length row = MLN" by (simp_all add: MLN_def)
qed

lemma slice_replicate: "off + n \<le> k \<Longrightarrow> slice off n (replicate k x) = replicate n x"
  by (simp add: slice_def)

lemma hint_rows_zeros:
  "\<forall>k \<in> set ks. ml_OMEGA m + k < n \<Longrightarrow>
     hint_rows m (replicate n 0) ks 0 = Some (0, replicate (length ks) (replicate MLN False))"
  by (induction ks) (simp_all add: slice_def)

lemma decode_zeros: "decode_signature m (replicate (ml_SIGNATURE_BYTES m) 0) \<noteq> None"
proof -
  have s: "slice (ml_C_TILDE_BYTES m + ml_L m * Z_BYTES_PER_POLY m) (HINT_BYTES m) (replicate (ml_SIGNATURE_BYTES m) (0 :: byte)) =
      replicate (HINT_BYTES m) 0"
    by (rule slice_replicate) (simp add: signature_size(1))
  have "decode_hint m (replicate (HINT_BYTES m) 0) \<noteq> None"
    using hint_rows_zeros [of "[0..<ml_K m]" m "HINT_BYTES m"]
    by (simp add: decode_hint_def HINT_BYTES_def slice_replicate list_all_iff)
  then show ?thesis unfolding decode_signature_def Let_def length_replicate s by (auto split: option.splits)
qed

lemma decode_signature_canonical_witness:
  "\<exists>c z h. decode_signature MlDsa44 (replicate (ml_SIGNATURE_BYTES MlDsa44) 0) = Some (c, z, h) \<and> length z = 4 \<and>
     (\<Sum>row\<leftarrow>h. length (filter id row)) \<le> 80"
proof -
  obtain c z h where d: "decode_signature MlDsa44 (replicate (ml_SIGNATURE_BYTES MlDsa44) 0) = Some (c, z, h)"
    using decode_zeros [of MlDsa44] by (auto simp del: ml_SIGNATURE_BYTES.simps)
  have "length z = ml_L MlDsa44" "(\<Sum>row\<leftarrow>h. length (filter id row)) \<le> ml_OMEGA MlDsa44"
    using decode_signature_canonical [OF d] by blast+
  then show ?thesis using d by (intro exI [of _ c] exI [of _ z] exI [of _ h]) (simp del: ml_SIGNATURE_BYTES.simps)
qed

lemma decode_t1_poly_inj:
  assumes "decode_t1_poly p = decode_t1_poly q" "length p = T1_BYTES_PER_POLY" "length q = T1_BYTES_PER_POLY"
  shows "p = q"
proof (rule groups_eq)
  show "length p = 64 * 5" "length q = 64 * 5" "(0 :: nat) < 5" using assms(2,3) by (simp_all add: T1_BYTES_PER_POLY_def MLN_def)
  fix g i :: nat assume h: "g < 64" "i < 5"
  define x y where "x = t1_bits (slice (g * 5) 5 p)" and "y = t1_bits (slice (g * 5) 5 q)"
  have "map (\<lambda>j. ucast (drop_bit (j * 10) x AND 0x3FF) :: u32) [0..<4] = map (\<lambda>j. ucast (drop_bit (j * 10) y AND 0x3FF)) [0..<4]"
    unfolding x_def y_def by (rule concat_groups_eq [OF assms(1) [unfolded decode_t1_poly_def Let_def] _ h(1)]) simp
  then have f: "(ucast (drop_bit (j * 10) x AND 0x3FF) :: u32) = ucast (drop_bit (j * 10) y AND 0x3FF)" if "j < 4" for j
    using that by (simp only: map_eq_conv) simp
  have m: "(0x3FF :: u64) = mask 10" by (simp add: mask_eq_exp_minus_1)
  have "bit (ucast (drop_bit (j * 10) z AND 0x3FF) :: u32) i \<longleftrightarrow> bit z (j * 10 + i)" if "j < 4" "i < 10" for z :: u64 and j i
    using that unfolding m by (auto simp: bit_simps)
  then have "bit x (j * 10 + i) = bit y (j * 10 + i)" if "j < 4" "i < 10" for j i using f that by metis
  then show "slice (g * 5) 5 p ! i = slice (g * 5) 5 q ! i"
    using h(2) bit_or_bytes [of "slice (g * 5) 5 p" 5, where 'a = 64] bit_or_bytes [of "slice (g * 5) 5 q" 5, where 'a = 64]
    by (intro group_bytes_eq [of x 5 "slice (g * 5) 5 p" y "slice (g * 5) 5 q" 10 i]) (simp_all add: x_def y_def t1_bits_fold)
qed

text \<open>Public keys decode canonically as well.\<close>

lemma decode_pk_canonical:
  assumes "decode_pk m p = Some k" "decode_pk m q = Some k"
  shows "p = q"
proof (rule slices_eq [where h = 32 and k = "ml_K m" and n = T1_BYTES_PER_POLY and t = 0])
  show l: "length p = 32 + ml_K m * T1_BYTES_PER_POLY + 0" "length q = 32 + ml_K m * T1_BYTES_PER_POLY + 0"
    using assms by (auto simp: decode_pk_def signature_size(2) split: if_splits)
  have d: "slice 0 32 p = slice 0 32 q"
    "map (\<lambda>k. decode_t1_poly (slice (32 + k * T1_BYTES_PER_POLY) T1_BYTES_PER_POLY p)) [0..<ml_K m] =
     map (\<lambda>k. decode_t1_poly (slice (32 + k * T1_BYTES_PER_POLY) T1_BYTES_PER_POLY q)) [0..<ml_K m]"
    using assms by (auto simp: decode_pk_def split: if_splits)
  show "slice 0 32 p = slice 0 32 q" by (rule d(1))
  show "slice (32 + ml_K m * T1_BYTES_PER_POLY) 0 p = slice (32 + ml_K m * T1_BYTES_PER_POLY) 0 q" by (simp add: slice_def)
  fix i assume i: "i < ml_K m"
  have "Suc i * T1_BYTES_PER_POLY \<le> ml_K m * T1_BYTES_PER_POLY" using i by (intro mult_le_mono1) simp
  then have b: "32 + i * T1_BYTES_PER_POLY + T1_BYTES_PER_POLY \<le> 32 + ml_K m * T1_BYTES_PER_POLY + 0" by simp
  have "decode_t1_poly (slice (32 + i * T1_BYTES_PER_POLY) T1_BYTES_PER_POLY p) = decode_t1_poly (slice (32 + i * T1_BYTES_PER_POLY) T1_BYTES_PER_POLY q)"
    using d(2) i by (simp only: map_eq_conv) simp
  then show "slice (32 + i * T1_BYTES_PER_POLY) T1_BYTES_PER_POLY p = slice (32 + i * T1_BYTES_PER_POLY) T1_BYTES_PER_POLY q"
    by (rule decode_t1_poly_inj) (use b l in simp_all)
qed

section \<open>Sampling\<close>

lemma ball_index_returns:
  assumes "\<exists>q \<ge> p. unat (s q) \<le> i"
  shows "\<exists>j pos. ball_index s i p = Some (j, pos) \<and> j \<le> i"
proof -
  obtain q where q: "p \<le> q" "unat (s q) \<le> i" using assms by blast
  then show ?thesis
  proof (induction "q - p" arbitrary: p rule: less_induct)
    case less
    show ?case
    proof (cases "unat (s p) \<le> i")
      case True
      then show ?thesis by (subst ball_index.simps) (simp add: Let_def)
    next
      case False
      then have "p \<noteq> q" using less.prems(2) by auto
      then have "q - (p + 1) < q - p" "p + 1 \<le> q" using less.prems(1) by simp_all
      then have "\<exists>j pos. ball_index s i (p + 1) = Some (j, pos) \<and> j \<le> i" using less.hyps less.prems(2) by blast
      then show ?thesis using False by (subst ball_index.simps) (simp add: Let_def)
    qed
  qed
qed

definition pm_one :: "u32 \<Rightarrow> bool" where "pm_one x \<longleftrightarrow> x = 1 \<or> x = MLQ - 1"

text \<open>State of the sampling loop before position i: zeros from i on, n values, each plus or minus one.\<close>

definition ball_inv :: "nat \<Rightarrow> nat \<Rightarrow> u32 list \<Rightarrow> bool" where
  "ball_inv i n c \<longleftrightarrow> length c = 256 \<and> (\<forall>k < 256. i \<le> k \<longrightarrow> c ! k = 0) \<and> (\<forall>k < 256. c ! k = 0 \<or> pm_one (c ! k)) \<and>
     card {k. k < 256 \<and> c ! k \<noteq> 0} = n"

lemma ball_step:
  assumes "ball_inv i n c" "j \<le> i" "i < 256" "pm_one v"
  shows "ball_inv (Suc i) (Suc n) ((c[i := c ! j])[j := v])"
proof -
  define d where "d = (c[i := c ! j])[j := v]"
  have l: "length c = 256" using assms(1) by (simp add: ball_inv_def)
  have nth: "d ! k = (if k = j then v else if k = i then c ! j else c ! k)" if "k < 256" for k
    using that l assms(2,3) by (simp add: d_def nth_list_update)
  have v0: "v \<noteq> 0" using assms(4) by (auto simp: pm_one_def MLQ_def)
  have ci: "c ! i = 0" using assms(1,3) by (simp add: ball_inv_def)
  have fin: "finite {k. k < 256 \<and> c ! k \<noteq> 0}" by simp
  have "card {k. k < 256 \<and> d ! k \<noteq> 0} = Suc n"
  proof (cases "c ! j = 0")
    case True
    then have "{k. k < 256 \<and> d ! k \<noteq> 0} = insert j {k. k < 256 \<and> c ! k \<noteq> 0}"
      using nth v0 ci assms(2,3) by (auto split: if_splits)
    moreover have "j \<notin> {k. k < 256 \<and> c ! k \<noteq> 0}" using True by simp
    ultimately show ?thesis using assms(1) fin by (simp add: ball_inv_def)
  next
    case False
    then have "{k. k < 256 \<and> d ! k \<noteq> 0} = insert i {k. k < 256 \<and> c ! k \<noteq> 0}"
      using nth v0 ci assms(2,3) by (auto split: if_splits)
    moreover have "i \<notin> {k. k < 256 \<and> c ! k \<noteq> 0}" using ci by simp
    ultimately show ?thesis using assms(1) fin by (simp add: ball_inv_def)
  qed
  moreover have "length d = 256" using l by (simp add: d_def)
  ultimately show ?thesis using assms nth unfolding ball_inv_def d_def [symmetric] by auto
qed

lemma ball_loop_inv:
  assumes "ball_inv i n c" "i + k \<le> 256" "\<forall>p. \<exists>q \<ge> p. unat (s q) \<le> i"
  shows "\<exists>c'. ball_loop s [i..<i + k] signs pos c = Some c' \<and> ball_inv (i + k) (n + k) c'"
  using assms
proof (induction k arbitrary: i n c signs pos)
  case (Suc k)
  obtain j pos' where j: "ball_index s i pos = Some (j, pos')" "j \<le> i" using ball_index_returns [of pos s i] Suc.prems(3) by blast
  define c' where "c' = (c[i := c ! j])[j := (if signs AND 1 = 0 then 1 else MLQ - 1)]"
  have inv: "ball_inv (Suc i) (Suc n) c'"
    unfolding c'_def by (rule ball_step [OF Suc.prems(1) j(2)]) (use Suc.prems(2) in \<open>simp_all add: pm_one_def\<close>)
  have ex: "\<forall>p. \<exists>q \<ge> p. unat (s q) \<le> Suc i" using Suc.prems(3) le_SucI by blast
  have "Suc i + k \<le> 256" using Suc.prems(2) by simp
  then obtain d where d: "ball_loop s [Suc i..<Suc i + k] (drop_bit 1 signs) pos' c' = Some d" "ball_inv (Suc i + k) (Suc n + k) d"
    using Suc.IH [OF inv _ ex] by blast
  have "[i..<i + Suc k] = i # [Suc i..<Suc i + k]" by (simp add: upt_conv_Cons del: upt_Suc)
  then show ?case using d j by (simp add: Let_def c'_def)
qed simp

text \<open>C39: On every stream of bytes that never runs out of small ones, sampling returns a polynomial of 256 coefficients of which
  exactly tau are not zero, each 1 or q - 1.\<close>

theorem sample_in_ball_weight:
  assumes "\<forall>p. \<exists>q \<ge> p. unat (shake256 c_tilde q) \<le> 256 - ml_TAU m"
  shows "\<exists>c. sample_in_ball shake256 m c_tilde = Some c \<and> length c = MLN \<and> (\<forall>x \<in> set c. x \<in> {0, 1, MLQ - 1}) \<and>
    length (filter (\<lambda>x. x \<noteq> 0) c) = ml_TAU m"
proof -
  have t: "ml_TAU m \<le> 256" by (cases m) simp_all
  have "ball_inv (256 - ml_TAU m) 0 (replicate 256 0)" by (simp add: ball_inv_def)
  moreover have e: "256 - ml_TAU m + ml_TAU m = 256" using t by simp
  ultimately have "\<exists>c. ball_loop (shake256 c_tilde) [256 - ml_TAU m..<256] (of_le_bytes (map (shake256 c_tilde) [0..<8])) 8 (replicate 256 0) =
      Some c \<and> ball_inv 256 (ml_TAU m) c"
    using ball_loop_inv [OF _ _ assms, of 0 "replicate 256 0" "ml_TAU m", unfolded e] by simp
  then obtain c where c: "sample_in_ball shake256 m c_tilde = Some c" "ball_inv 256 (ml_TAU m) c"
    unfolding sample_in_ball_def Let_def MLN_def by blast
  then show ?thesis
    by (intro exI [of _ c]) (auto simp: ball_inv_def pm_one_def MLN_def length_filter_conv_card in_set_conv_nth)
qed

lemma sample_in_ball_weight_witness:
  "\<exists>c. sample_in_ball (\<lambda>_ _. 0) MlDsa44 [] = Some c \<and> length (filter (\<lambda>x. x \<noteq> 0) c) = 39"
  using sample_in_ball_weight [of "\<lambda>_ _. 0" "[]" MlDsa44] by auto

text \<open>The matrix sampler keeps the first 256 acceptable candidates of the stream.\<close>

definition candidates :: "(nat \<Rightarrow> byte) \<Rightarrow> nat \<Rightarrow> nat \<Rightarrow> u32 list" where
  "candidates s pos n = filter (\<lambda>z. z < MLQ) (map (\<lambda>i. coeff_from_three_bytes s (pos + 3 * i)) [0..<n])"

lemma candidates_Suc:
  "candidates s pos (Suc n) = (let z = coeff_from_three_bytes s pos in (if z < MLQ then [z] else []) @ candidates s (pos + 3) n)"
  unfolding candidates_def upt_conv_Cons [OF zero_less_Suc] map_Suc_upt [symmetric] map_map
  by (simp add: Let_def comp_def add.assoc)

lemma rej_loop_spec:
  "length out \<le> MLN \<Longrightarrow> MLN \<le> length out + length (candidates s pos n) \<Longrightarrow>
     rej_loop s pos out = Some (take MLN (out @ candidates s pos n))"
proof (induction n arbitrary: pos out)
  case 0
  then have "length out = MLN" by (simp add: candidates_def)
  then show ?case by (subst rej_loop.simps) (simp add: candidates_def)
next
  case (Suc n)
  show ?case
  proof (cases "length out < MLN")
    case False
    then have "length out = MLN" using Suc.prems(1) by simp
    then show ?thesis by (subst rej_loop.simps) simp
  next
    case True
    define z where "z = coeff_from_three_bytes s pos"
    define out' where "out' = (if z < MLQ then out @ [z] else out)"
    have c: "out @ candidates s pos (Suc n) = out' @ candidates s (pos + 3) n" by (simp add: candidates_Suc Let_def out'_def z_def)
    then have l: "length out + length (candidates s pos (Suc n)) = length out' + length (candidates s (pos + 3) n)"
      by (metis length_append)
    have "length out' \<le> MLN" using True by (simp add: out'_def)
    moreover have "MLN \<le> length out' + length (candidates s (pos + 3) n)" using Suc.prems(2) unfolding l .
    ultimately have "rej_loop s (pos + 3) out' = Some (take MLN (out' @ candidates s (pos + 3) n))" by (rule Suc.IH)
    then show ?thesis unfolding c
      by (subst rej_loop.simps) (simp only: True if_True Let_def z_def [symmetric] out'_def [symmetric])
  qed
qed

text \<open>Packing writes bit after bit.\<close>

definition out_bit :: "bytes \<Rightarrow> nat \<Rightarrow> bool" where "out_bit out k = bit (out ! (k div 8)) (k mod 8)"

lemma w1_put_bit:
  assumes "length out = W1_BYTES" "p < 8 * W1_BYTES"
  obtains out' where "w1_put_bit c n (p, out) = (p + 1, out')" "length out' = W1_BYTES"
    "\<And>k. k < 8 * W1_BYTES \<Longrightarrow> out_bit out' k \<longleftrightarrow> out_bit out k \<or> k = p \<and> bit c n"
proof -
  define b where "b = p div 8"
  have b: "b < W1_BYTES" unfolding b_def using assms(2) by (intro less_mult_imp_div_less) simp
  define o2 where "o2 = out[b := out ! b OR push_bit (p mod 8) (ucast (drop_bit n c AND 1))]"
  have e: "w1_put_bit c n (p, out) = (p + 1, o2)"
    by (simp add: w1_put_bit_def Let_def o2_def b_def drop_bit_eq_div take_bit_eq_mod)
  have "out_bit o2 k \<longleftrightarrow> out_bit out k \<or> k = p \<and> bit c n" if k: "k < 8 * W1_BYTES" for k
  proof (cases "k div 8 = b")
    case True
    have m: "k mod 8 < 8" by simp
    have "(k mod 8 = p mod 8) \<longleftrightarrow> k = p" using True unfolding b_def by (metis div_mult_mod_eq)
    then have "bit (push_bit (p mod 8) (ucast (drop_bit n c AND 1)) :: byte) (k mod 8) \<longleftrightarrow> k = p \<and> bit c n"
      using m by (auto simp: bit_simps)
    then show ?thesis using True assms(1) b by (simp add: out_bit_def o2_def bit_or_iff)
  next
    case False
    then show ?thesis by (auto simp: out_bit_def o2_def b_def)
  qed
  then show thesis using that [OF e] assms(1) by (simp add: o2_def)
qed

lemma w1_coeff_bits:
  assumes "length out = W1_BYTES" "p + n \<le> 8 * W1_BYTES"
  obtains out' where "fold (w1_put_bit c) [0..<n] (p, out) = (p + n, out')" "length out' = W1_BYTES"
    "\<And>k. k < 8 * W1_BYTES \<Longrightarrow> out_bit out' k \<longleftrightarrow> out_bit out k \<or> p \<le> k \<and> k < p + n \<and> bit c (k - p)"
proof -
  have "\<exists>out'. fold (w1_put_bit c) [0..<n] (p, out) = (p + n, out') \<and> length out' = W1_BYTES \<and>
    (\<forall>k < 8 * W1_BYTES. out_bit out' k \<longleftrightarrow> out_bit out k \<or> p \<le> k \<and> k < p + n \<and> bit c (k - p))"
    using assms(2)
  proof (induction n)
    case 0
    then show ?case using assms(1) by auto
  next
    case (Suc n)
    then obtain o1 where o1: "fold (w1_put_bit c) [0..<n] (p, out) = (p + n, o1)" "length o1 = W1_BYTES"
      "\<forall>k < 8 * W1_BYTES. out_bit o1 k \<longleftrightarrow> out_bit out k \<or> p \<le> k \<and> k < p + n \<and> bit c (k - p)" by auto
    obtain o2 where o2: "w1_put_bit c n (p + n, o1) = (p + n + 1, o2)" "length o2 = W1_BYTES"
      "\<And>k. k < 8 * W1_BYTES \<Longrightarrow> out_bit o2 k \<longleftrightarrow> out_bit o1 k \<or> k = p + n \<and> bit c n"
      using w1_put_bit [OF o1(2), of "p + n" c n] Suc.prems by auto
    show ?case using o1 o2 by (intro exI [of _ o2]) (auto simp: less_Suc_eq)
  qed
  then show thesis using that by blast
qed

text \<open>Bit k of the packed bytes is bit \<open>k mod 7\<close> of coefficient \<open>k div 7\<close>.\<close>

lemma w1_encode_bits:
  assumes "length cs = MLN"
  shows "length (w1_encode cs) = W1_BYTES"
    and "k < 8 * W1_BYTES \<Longrightarrow> out_bit (w1_encode cs) k \<longleftrightarrow> bit (cs ! (k div 7)) (k mod 7)"
proof -
  let ?f = "\<lambda>c. fold (w1_put_bit c) [0..<W1_BITS]"
  have sz: "8 * W1_BYTES = 7 * 256" by (simp add: W1_BYTES_def MLN_def W1_BITS_def)
  have "\<exists>out. fold ?f (take n cs) (0, replicate W1_BYTES 0) = (7 * n, out) \<and> length out = W1_BYTES \<and>
    (\<forall>k < 8 * W1_BYTES. out_bit out k \<longleftrightarrow> k < 7 * n \<and> bit (cs ! (k div 7)) (k mod 7))" if "n \<le> 256" for n
    using that
  proof (induction n)
    case 0
    have "out_bit (replicate W1_BYTES 0) k = False" if "k < 8 * W1_BYTES" for k
    proof -
      have "k div 8 < W1_BYTES" using that by (intro less_mult_imp_div_less) simp
      then show ?thesis by (simp add: out_bit_def)
    qed
    then show ?case by simp
  next
    case (Suc n)
    then obtain o1 where o1: "fold ?f (take n cs) (0, replicate W1_BYTES 0) = (7 * n, o1)" "length o1 = W1_BYTES"
      "\<forall>k < 8 * W1_BYTES. out_bit o1 k \<longleftrightarrow> k < 7 * n \<and> bit (cs ! (k div 7)) (k mod 7)" by auto
    have n: "n < length cs" using Suc.prems assms by (simp add: MLN_def)
    have b: "7 * n + W1_BITS \<le> 8 * W1_BYTES" using Suc.prems by (simp add: sz W1_BITS_def)
    obtain o2 where o2: "?f (cs ! n) (7 * n, o1) = (7 * n + W1_BITS, o2)" "length o2 = W1_BYTES"
      "\<And>k. k < 8 * W1_BYTES \<Longrightarrow> out_bit o2 k \<longleftrightarrow> out_bit o1 k \<or> 7 * n \<le> k \<and> k < 7 * n + W1_BITS \<and> bit (cs ! n) (k - 7 * n)"
      using w1_coeff_bits [OF o1(2) b, of "cs ! n"] by metis
    have "out_bit o2 k \<longleftrightarrow> k < 7 * Suc n \<and> bit (cs ! (k div 7)) (k mod 7)" if "k < 8 * W1_BYTES" for k
    proof (cases "7 * n \<le> k \<and> k < 7 * Suc n")
      case True
      then have "k div 7 = n" by (intro div_nat_eqI) simp_all
      moreover from this have "k mod 7 = k - 7 * n" by (metis minus_mult_div_eq_mod)
      ultimately show ?thesis using True o1(3) o2(3) that by (simp add: W1_BITS_def)
    next
      case False
      then show ?thesis using o1(3) o2(3) [OF that] that by (auto simp: W1_BITS_def)
    qed
    then show ?case using o1(1) o2(1,2) n by (intro exI [of _ o2]) (simp add: take_Suc_conv_app_nth W1_BITS_def)
  qed
  from this [of 256] obtain out where out: "fold ?f cs (0, replicate W1_BYTES 0) = (7 * 256, out)" "length out = W1_BYTES"
    "\<forall>k < 8 * W1_BYTES. out_bit out k \<longleftrightarrow> bit (cs ! (k div 7)) (k mod 7)"
    using assms sz by (auto simp: MLN_def)
  then have "w1_encode cs = out" by (simp add: w1_encode_def)
  then show "length (w1_encode cs) = W1_BYTES" "k < 8 * W1_BYTES \<Longrightarrow> out_bit (w1_encode cs) k \<longleftrightarrow> bit (cs ! (k div 7)) (k mod 7)"
    using out by simp_all
qed

text \<open>So packing loses nothing of coefficients below 2^7.\<close>

lemma w1_encode_inj:
  assumes "length cs = MLN" "length ds = MLN" "\<forall>c \<in> set cs. uint c < 2 ^ W1_BITS" "\<forall>d \<in> set ds. uint d < 2 ^ W1_BITS"
    and "w1_encode cs = w1_encode ds"
  shows "cs = ds"
proof (rule nth_equalityI)
  fix i assume "i < length cs"
  then have i: "i < 256" "i < length cs" "i < length ds" using assms(1,2) by (simp_all add: MLN_def)
  show "cs ! i = ds ! i"
  proof (rule bit_word_eqI)
    fix b
    have hi: "\<not> bit x b" if "uint x < 2 ^ W1_BITS" "7 \<le> b" for x :: u32
    proof -
      have "take_bit 7 x = x" using that(1) by (simp add: word_uint_eq_iff unsigned_take_bit_eq take_bit_int_eq_self W1_BITS_def)
      then have "bit x b \<longleftrightarrow> bit (take_bit 7 x) b" by simp
      then show ?thesis using that(2) by (simp add: bit_take_bit_iff)
    qed
    show "bit (cs ! i) b \<longleftrightarrow> bit (ds ! i) b"
    proof (cases "b < 7")
      case True
      define k where "k = 7 * i + b"
      have k: "k div 7 = i" "k mod 7 = b" "k < 8 * W1_BYTES"
        using True i(1) by (simp_all add: k_def W1_BYTES_def MLN_def W1_BITS_def)
      show ?thesis using w1_encode_bits(2) [OF assms(1) k(3)] w1_encode_bits(2) [OF assms(2) k(3)] assms(5) k(1,2) by simp
    next
      case False
      then show ?thesis using hi assms(3,4) i by simp
    qed
  qed
qed (simp add: assms)

end
