(* ===== verification/Ml_Dsa_Rej.thy ===== *)
theory Ml_Dsa_Rej
  imports Ml_Dsa_Air Ml_Dsa_Codec
begin

text \<open>
  The rejection-sampling AIRs: one row per three bytes of the SHAKE stream
  (\<open>ml_dsa_rej_chunk_air.rs\<close>) and the running count of accepted candidates
  (\<open>ml_dsa_rej_count_air.rs\<close>), against the native sampler of \<open>Ml_Dsa_Codec\<close>.
\<close>

unbundle bit_operations_syntax

section \<open>One chunk\<close>

definition parse_chunk :: "byte \<Rightarrow> byte \<Rightarrow> byte \<Rightarrow> u32 \<times> bool \<times> u32" where
  "parse_chunk b0 b1 b2 =
     (let masked_b2 = b2 AND 0x7F;
          u = ucast b0 OR push_bit 8 (ucast b1) OR push_bit 16 (ucast masked_b2);
          accept = (u < MLQ);
          slack = (if accept then MLQ - 1 - u else u - MLQ)
      in (u, accept, slack))"

definition byte_cells :: "byte \<Rightarrow> gf list" where "byte_cells b = map (\<lambda>i. of_bool (bit b i)) [0..<8]"

definition chunk_row :: "byte \<times> byte \<times> byte \<Rightarrow> gf list" where
  "chunk_row = (\<lambda>(b0, b1, b2). let (u, accept, slack) = parse_chunk b0 b1 b2
     in byte_cells b0 @ byte_cells b1 @ byte_cells b2 @ [fu32 u, of_bool accept, fu32 slack] @ range_cells slack 23)"

definition chunk_fill_trace :: "nat \<Rightarrow> (byte \<times> byte \<times> byte) list \<Rightarrow> gf list list option" where
  "chunk_fill_trace n_trace chunks = fill_air 50 n_trace (map chunk_row chunks) (replicate 50 0)"

definition chunk_eval_per_row :: "gf list \<Rightarrow> gf list" where
  "chunk_eval_per_row cur =
     (let q = fu32 MLQ; accept = cur ! 25; u = cur ! 24; s = cur ! 26
      in map (\<lambda>b. bit_con (cur ! b)) [0..<24] @ [bit_con accept] @ map (\<lambda>b. bit_con (cur ! (27 + b))) [0..<23] @
         [s - bits_sum cur 27 23, u - bits_sum cur 0 23, u - q - s + 2 * s * accept + accept])"

section \<open>The count\<close>

fun count_rows :: "nat \<Rightarrow> (byte \<times> byte \<times> byte) list \<Rightarrow> gf list list" where
  "count_rows running [] = []"
| "count_rows running ((b0, b1, b2) # chunks) =
     (let (u, accept, s) = parse_chunk b0 b1 b2; running = (if accept then running + 1 else running)
      in (chunk_row (b0, b1, b2) @ [of_nat running]) # count_rows running chunks)"

definition count_accepted :: "(byte \<times> byte \<times> byte) list \<Rightarrow> nat" where
  "count_accepted chunks = length (filter (\<lambda>(b0, b1, b2). fst (snd (parse_chunk b0 b1 b2))) chunks)"

definition count_fill_trace :: "nat \<Rightarrow> (byte \<times> byte \<times> byte) list \<Rightarrow> gf list list option" where
  "count_fill_trace n_trace chunks =
     fill_air 51 n_trace (count_rows 0 chunks) (replicate 50 0 @ [of_nat (count_accepted chunks)])"

definition count_eval_per_row :: "gf list \<Rightarrow> gf list \<Rightarrow> nat \<Rightarrow> gf list" where
  "count_eval_per_row cur nxt row =
     (let chunk_view = map (\<lambda>c. cur ! c) [0..<50]
      in chunk_eval_per_row chunk_view @ [if row = 0 then cur ! 50 - cur ! 25 else 0] @ [nxt ! 50 - cur ! 50 - nxt ! 25])"

section \<open>A chunk row decides the candidate\<close>

lemma candidate_fold:
  "coeff_from_three_bytes s pos =
     fold (\<lambda>i bits. bits OR push_bit (i * 8) (ucast ([s pos, s (pos + 1), s (pos + 2) AND 0x7F] ! i))) [0..<3] 0"
proof -
  have "[0..<3] = [0, 1, 2 :: nat]" by (simp add: upt_rec)
  then have f: "fold (\<lambda>i bits. bits OR push_bit (i * 8) (ucast ([s pos, s (pos + 1), s (pos + 2) AND 0x7F] ! i))) [0..<3] 0 =
      (ucast (s pos) OR push_bit 8 (ucast (s (pos + 1)))) OR (push_bit 16 (ucast (s (pos + 2) AND 0x7F)) :: u32)" by simp
  show ?thesis unfolding f coeff_from_three_bytes_def Let_def
    by (rule bit_word_eqI) (auto simp only: bit_or_iff)
qed

lemma bit_candidate:
  "bit (coeff_from_three_bytes s pos) k \<longleftrightarrow> k < 23 \<and> bit (s (pos + k div 8)) (k mod 8)"
proof -
  have m: "(0x7F :: byte) = mask 7" by (simp add: mask_eq_exp_minus_1)
  have b: "bit (coeff_from_three_bytes s pos) k \<longleftrightarrow>
      k < 32 \<and> k div 8 < 3 \<and> bit ([s pos, s (pos + 1), s (pos + 2) AND 0x7F] ! (k div 8)) (k mod 8)"
    unfolding candidate_fold by (subst bit_or_bytes) simp
  consider "k div 8 = 0" | "k div 8 = 1" | "k div 8 = 2" | "3 \<le> k div 8" by linarith
  then show ?thesis
  proof cases
    case 3
    have "k = 16 + k mod 8" using mult_div_mod_eq [of 8 k] 3 by simp
    then have "k < 23 \<longleftrightarrow> k mod 8 < 7" "k < 32" by linarith+
    then show ?thesis unfolding b using 3 by (auto simp: m bit_simps)
  qed (auto simp: b)
qed

lemma candidate_small: "uint (coeff_from_three_bytes s pos) < 2 ^ 23"
proof -
  have "take_bit 23 (coeff_from_three_bytes s pos) = coeff_from_three_bytes s pos"
    by (rule bit_word_eqI) (auto simp: bit_take_bit_iff bit_candidate)
  then have "uint (coeff_from_three_bytes s pos) = take_bit 23 (uint (coeff_from_three_bytes s pos))"
    by (metis unsigned_take_bit_eq)
  then show ?thesis by (metis take_bit_int_less_exp)
qed

lemma parse_chunk_candidate:
  "parse_chunk (s pos) (s (pos + 1)) (s (pos + 2)) =
     (let u = coeff_from_three_bytes s pos in (u, u < MLQ, if u < MLQ then MLQ - 1 - u else u - MLQ))"
  by (simp add: parse_chunk_def coeff_from_three_bytes_def Let_def or.commute or.left_commute)

lemma chunk_constraints:
  "zeros (chunk_eval_per_row cur) \<longleftrightarrow> (\<forall>b < 24. bit_con (cur ! b) = 0) \<and> bit_con (cur ! 25) = 0 \<and>
     zeros (range_cons cur 27 23 (cur ! 26)) \<and> cur ! 24 = bits_sum cur 0 23 \<and>
     cur ! 24 - fu32 MLQ - cur ! 26 + 2 * cur ! 26 * cur ! 25 + cur ! 25 = 0"
proof -
  have sw: "(a :: gf) - b = 0 \<longleftrightarrow> b - a = 0" for a b by auto
  show ?thesis
    unfolding chunk_eval_per_row_def Let_def range_cons_def
    by (simp only: zeros_simps append.simps sw [of "cur ! 26" "bits_sum cur 27 23"]) auto
qed

lemma chunk_row_sound:
  assumes "zeros (chunk_eval_per_row cur)" "\<And>i. i < 24 \<Longrightarrow> cur ! i = of_bool (bit (s (pos + i div 8)) (i mod 8))"
  shows "cur ! 24 = fu32 (coeff_from_three_bytes s pos)" "cur ! 25 = of_bool (coeff_from_three_bytes s pos < MLQ)"
proof -
  define u where "u = coeff_from_three_bytes s pos"
  note z = assms(1) [unfolded chunk_constraints]
  have "cur ! (0 + i) = range_cells u 23 ! i" if "i < 23" for i
    using assms(2) [of i] that by (simp add: range_cells_def u_def bit_candidate)
  then have "bits_sum cur 0 23 = fu32 u" by (rule range_satisfied(2)) (simp_all add: u_def candidate_small [simplified])
  then show c24: "cur ! 24 = fu32 (coeff_from_three_bytes s pos)" using z by (simp add: u_def)
  obtain v where v: "cur ! 26 = of_int v" "0 \<le> v" "v < 2 ^ 23" using z range_value by blast
  have us: "uint u < 8388608" "0 \<le> uint u" using candidate_small [of s pos] by (simp_all add: u_def)
  have "cur ! 24 - fu32 MLQ - cur ! 26 + 2 * cur ! 26 * cur ! 25 + cur ! 25 = 0" using z by blast
  then have e: "fu32 u - fu32 MLQ - of_int v + 2 * of_int v * cur ! 25 + cur ! 25 = 0" unfolding c24 v(1) u_def .
  have lt: "u < MLQ \<longleftrightarrow> uint u < 8380417" by (simp add: word_less_def)
  have "cur ! 25 = 0 \<or> cur ! 25 = 1" using z by simp
  then have "cur ! 25 = of_bool (u < MLQ)"
  proof
    assume a: "cur ! 25 = 0"
    then have "(of_int (uint u) :: gf) - of_int (8380417 + v) = 0" using e by (simp add: fu32_of_int algebra_simps)
    then have "uint u = 8380417 + v" by (rule of_int_eqI_small) (use us v(2) v(3) [simplified] in linarith)
    then show ?thesis using a v(2) lt by simp
  next
    assume a: "cur ! 25 = 1"
    then have "(of_int (uint u) :: gf) - of_int (8380416 - v) = 0" using e by (simp add: fu32_of_int algebra_simps)
    then have "uint u = 8380416 - v" by (rule of_int_eqI_small) (use us v(2) v(3) [simplified] in linarith)
    then show ?thesis using a v(2) lt by simp
  qed
  then show "cur ! 25 = of_bool (coeff_from_three_bytes s pos < MLQ)" by (simp add: u_def)
qed

lemma chunk_view: "i < 50 \<Longrightarrow> map (\<lambda>c. cur ! c) [0..<50] ! i = cur ! i"
  by simp

lemma count_rows_sound:
  assumes "\<And>r. r < n \<Longrightarrow> zeros (count_eval_per_row (rows ! r) (rows ! Suc r) r)"
    and "\<And>r i. r < n \<Longrightarrow> i < 24 \<Longrightarrow> rows ! r ! i = of_bool (bit (s (3 * r + i div 8)) (i mod 8))"
    and "r < n"
  shows "rows ! r ! 24 = fu32 (coeff_from_three_bytes s (3 * r)) \<and> rows ! r ! 25 = of_bool (coeff_from_three_bytes s (3 * r) < MLQ) \<and>
    rows ! r ! 50 = of_nat (length (candidates s 0 (Suc r)))"
proof -
  have c: "rows ! r ! 24 = fu32 (coeff_from_three_bytes s (3 * r))" "rows ! r ! 25 = of_bool (coeff_from_three_bytes s (3 * r) < MLQ)"
    if "r < n" for r
  proof -
    define cur where "cur = map (\<lambda>c. rows ! r ! c) [0..<50]"
    have z: "zeros (chunk_eval_per_row cur)" using assms(1) [OF that] by (simp add: count_eval_per_row_def Let_def cur_def)
    have b: "cur ! i = of_bool (bit (s (3 * r + i div 8)) (i mod 8))" if "i < 24" for i
      using assms(2) [OF \<open>r < n\<close> that] that by (simp add: cur_def)
    show "rows ! r ! 24 = fu32 (coeff_from_three_bytes s (3 * r))" "rows ! r ! 25 = of_bool (coeff_from_three_bytes s (3 * r) < MLQ)"
      using chunk_row_sound [OF z b] by (simp_all add: cur_def)
  qed
  have "rows ! r ! 50 = of_nat (length (candidates s 0 (Suc r)))"
    using assms(3)
  proof (induction r)
    case 0
    have "rows ! 0 ! 50 = rows ! 0 ! 25" using assms(1) [OF 0] by (simp add: count_eval_per_row_def Let_def)
    then show ?case using c(2) [OF 0] by (simp add: candidates_def)
  next
    case (Suc r)
    then have r: "r < n" by simp
    have "rows ! Suc r ! 50 = rows ! r ! 50 + rows ! Suc r ! 25"
      using assms(1) [OF r] by (simp add: count_eval_per_row_def Let_def algebra_simps)
    then show ?case using c(2) [OF Suc.prems] Suc.IH [OF r] by (simp add: candidates_def)
  qed
  then show ?thesis using c [OF assms(3)] by blast
qed

text \<open>C38: Rows that satisfy the chunk and count constraints and hold the bits of a SHAKE stream run the native sampler: the cells of
  row r are the r-th candidate, its verdict and the number of candidates accepted so far, and if the
  count reaches 256 in the last row the native sampler returns the accepted candidates of the rows.\<close>

theorem rejection_air_sound:
  assumes "0 < n" "n < 2 ^ 32" "\<And>r. r < n \<Longrightarrow> zeros (count_eval_per_row (rows ! r) (rows ! Suc r) r)"
    and "\<And>r i. r < n \<Longrightarrow> i < 24 \<Longrightarrow> rows ! r ! i = of_bool (bit (shake128 (rho @ [col] @ [row]) (3 * r + i div 8)) (i mod 8))"
  shows "(\<forall>r < n. let z = coeff_from_three_bytes (shake128 (rho @ [col] @ [row])) (3 * r) in
      rows ! r ! 24 = fu32 z \<and> rows ! r ! 25 = of_bool (z < MLQ) \<and>
      rows ! r ! 50 = of_nat (length (filter (\<lambda>z. z < MLQ)
        (map (\<lambda>r. coeff_from_three_bytes (shake128 (rho @ [col] @ [row])) (3 * r)) [0..<Suc r])))) \<and>
    (rows ! (n - 1) ! 50 = 256 \<longrightarrow> rej_ntt_poly shake128 rho col row =
      Some (filter (\<lambda>z. z < MLQ) (map (\<lambda>r. coeff_from_three_bytes (shake128 (rho @ [col] @ [row])) (3 * r)) [0..<n])))"
proof -
  define s where "s = shake128 (rho @ [col] @ [row])"
  have c: "rows ! r ! 24 = fu32 (coeff_from_three_bytes s (3 * r)) \<and> rows ! r ! 25 = of_bool (coeff_from_three_bytes s (3 * r) < MLQ) \<and>
    rows ! r ! 50 = of_nat (length (candidates s 0 (Suc r)))" if "r < n" for r
    unfolding s_def by (rule count_rows_sound [OF assms(3,4) that])
  have "rej_ntt_poly shake128 rho col row = Some (candidates s 0 n)" if e: "rows ! (n - 1) ! 50 = 256"
  proof -
    have "(of_nat (length (candidates s 0 n)) :: gf) = of_nat 256" using c [of "n - 1"] e assms(1) by simp
    moreover have "length (candidates s 0 n) \<le> n" unfolding candidates_def by (rule order_trans [OF length_filter_le]) simp
    ultimately have l: "length (candidates s 0 n) = 256"
      using assms(2) by (intro gf_of_nat_small) (simp_all add: MODULUS_def)
    have "rej_loop s 0 [] = Some (take MLN ([] @ candidates s 0 n))"
      by (rule rej_loop_spec) (simp_all add: l MLN_def)
    then show ?thesis using l by (simp add: rej_ntt_poly_def s_def MLN_def)
  qed
  then show ?thesis using c unfolding Let_def s_def [symmetric] by (auto simp: candidates_def)
qed

section \<open>The trace builder\<close>

lemma length_chunk_row [simp]: "length (chunk_row c) = 50"
  by (simp add: chunk_row_def byte_cells_def Let_def split: prod.splits)

lemma chunk_row_bits: "i < 24 \<Longrightarrow> chunk_row (b0, b1, b2) ! i = of_bool (bit ([b0, b1, b2] ! (i div 8)) (i mod 8))"
proof -
  assume i: "i < 24"
  consider "i < 8" | "8 \<le> i" "i < 16" | "16 \<le> i" by linarith
  then show ?thesis
  proof cases
    case 2
    then have "i - 8 < 8" "i div 8 = 1" "i mod 8 = i - 8" by (auto intro: div_nat_eqI mod_nat_eqI)
    then show ?thesis using 2 by (simp add: chunk_row_def Let_def byte_cells_def nth_append split: prod.splits)
  next
    case 3
    then have "\<not> i - 8 < 8" "i - 16 < 8" "i div 8 = 2" "i mod 8 = i - 16" using i by (auto intro: div_nat_eqI mod_nat_eqI)
    then show ?thesis using i 3 by (simp add: chunk_row_def Let_def byte_cells_def nth_append split: prod.splits)
  qed (simp add: chunk_row_def Let_def byte_cells_def nth_append split: prod.splits)
qed

lemma chunk_row_complete: "zeros (chunk_eval_per_row (chunk_row (b0, b1, b2)))"
proof -
  define s :: "nat \<Rightarrow> byte" where "s i = [b0, b1, b2] ! i" for i
  define u where "u = coeff_from_three_bytes s 0"
  define slack where "slack = (if u < MLQ then MLQ - 1 - u else u - MLQ)"
  define row where "row = chunk_row (b0, b1, b2)"
  have pc: "parse_chunk b0 b1 b2 = (u, u < MLQ, slack)"
    using parse_chunk_candidate [of s 0] by (simp add: s_def u_def slack_def Let_def)
  have us: "uint u < 8388608" "0 \<le> uint u" using candidate_small [of s 0] by (simp_all add: u_def)
  have lt: "u < MLQ \<longleftrightarrow> uint u < 8380417" by (simp add: word_less_def)
  have q1: "uint (MLQ - 1) = 8380416" by (simp add: MLQ_def)
  have sl: "uint slack = (if u < MLQ then 8380416 - uint u else uint u - 8380417)"
  proof (cases "u < MLQ")
    case True
    then have "uint (MLQ - 1 - u) = 8380416 - uint u" using lt q1 by (subst uint_sub_if') simp
    then show ?thesis using True by (simp add: slack_def)
  next
    case False
    then have "uint (u - MLQ) = uint u - 8380417" using lt by (subst uint_sub_if') simp
    then show ?thesis using False by (simp add: slack_def)
  qed
  have nth: "row ! 24 = fu32 u" "row ! 25 = of_bool (u < MLQ)" "row ! 26 = fu32 slack"
    "\<And>i. i < 23 \<Longrightarrow> row ! (27 + i) = range_cells slack 23 ! i"
    by (simp_all add: row_def chunk_row_def pc byte_cells_def nth_append)
  have bits: "\<And>i. i < 24 \<Longrightarrow> row ! i = of_bool (bit (s (i div 8)) (i mod 8))"
    unfolding row_def s_def by (rule chunk_row_bits)
  have "uint slack < 2 ^ 23"
  proof (cases "u < MLQ")
    case True
    have "8380416 - uint u < 8388608" using us by linarith
    then show ?thesis using True sl by simp
  next
    case False
    have "uint u - 8380417 < 8388608" using us by linarith
    then show ?thesis using False sl by simp
  qed
  then have r: "zeros (range_cons row 27 23 (fu32 slack))" by (intro range_satisfied(1)) (simp_all add: nth)
  have "row ! (0 + i) = range_cells u 23 ! i" if "i < 23" for i
    using bits [of i] that by (simp add: range_cells_def u_def bit_candidate)
  then have b: "bits_sum row 0 23 = fu32 u" by (rule range_satisfied(2)) (simp_all add: us)
  have "fu32 u - fu32 MLQ - fu32 slack + 2 * fu32 slack * of_bool (u < MLQ) + of_bool (u < MLQ) = 0"
    by (simp add: fu32_of_int sl)
  then show ?thesis using r b bits unfolding row_def [symmetric] chunk_constraints nth by simp
qed

lemma count_rows_nth:
  "r < length chunks \<Longrightarrow> length (count_rows k chunks) = length chunks \<and>
     count_rows k chunks ! r = chunk_row (chunks ! r) @ [of_nat (k + count_accepted (take (Suc r) chunks))]"
proof (induction k chunks arbitrary: r rule: count_rows.induct)
  case (2 k b0 b1 b2 chunks)
  obtain u accept s where p: "parse_chunk b0 b1 b2 = (u, accept, s)" by (cases "parse_chunk b0 b1 b2") auto
  show ?case
  proof (cases r)
    case 0
    show ?thesis
    proof (cases chunks)
      case Nil
      then show ?thesis using 0 by (simp add: p count_accepted_def)
    next
      case (Cons c cs)
      then have "length (count_rows (if accept then k + 1 else k) chunks) = length chunks" using 2(1) [OF p [symmetric] refl refl refl, of 0] by simp
      then show ?thesis using 0 by (cases accept) (simp_all add: p count_accepted_def)
    qed
  next
    case (Suc r')
    then have "length (count_rows (if accept then k + 1 else k) chunks) = length chunks \<and>
      count_rows (if accept then k + 1 else k) chunks ! r' =
        chunk_row (chunks ! r') @ [of_nat ((if accept then k + 1 else k) + count_accepted (take (Suc r') chunks))]"
      using 2(1) [OF p [symmetric] refl refl refl, of r'] 2(2) by simp
    then show ?thesis using Suc by (cases accept) (simp_all add: p count_accepted_def)
  qed
qed simp

text \<open>The rows of the chunks satisfy the constraints; zero padding rows violate the range gate.\<close>

lemma count_rows_complete:
  assumes "Suc r < length chunks"
  shows "zeros (count_eval_per_row (count_rows 0 chunks ! r) (count_rows 0 chunks ! Suc r) r)"
proof -
  let ?c = "\<lambda>r. count_rows 0 chunks ! r"
  have n: "?c r = chunk_row (chunks ! r) @ [of_nat (count_accepted (take (Suc r) chunks))]"
    "?c (Suc r) = chunk_row (chunks ! Suc r) @ [of_nat (count_accepted (take (Suc (Suc r)) chunks))]"
    using count_rows_nth [of r chunks 0] count_rows_nth [of "Suc r" chunks 0] assms by simp_all
  have view: "map (\<lambda>c. ?c r ! c) [0..<50] = chunk_row (chunks ! r)"
    unfolding n by (intro nth_equalityI) (simp_all add: nth_append)
  obtain b0 b1 b2 where b: "chunks ! r = (b0, b1, b2)" by (cases "chunks ! r") auto
  have acc: "chunk_row c ! 25 = of_bool (fst (snd (parse_chunk (fst c) (fst (snd c)) (snd (snd c)))))" for c
    by (simp add: chunk_row_def Let_def byte_cells_def nth_append split: prod.splits)
  have step: "count_accepted (take (Suc j) chunks) =
      count_accepted (take j chunks) + of_bool (fst (snd (parse_chunk (fst (chunks ! j)) (fst (snd (chunks ! j))) (snd (snd (chunks ! j))))))"
    if "j < length chunks" for j
    using that by (cases "chunks ! j") (simp add: count_accepted_def take_Suc_conv_app_nth)
  have "count_accepted [] = 0" by (simp add: count_accepted_def)
  moreover have cells: "?c r ! 50 = of_nat (count_accepted (take (Suc r) chunks))" "?c r ! 25 = chunk_row (chunks ! r) ! 25"
    "?c (Suc r) ! 50 = of_nat (count_accepted (take (Suc (Suc r)) chunks))" "?c (Suc r) ! 25 = chunk_row (chunks ! Suc r) ! 25"
    unfolding n by (simp_all add: nth_append)
  ultimately show ?thesis
    using chunk_row_complete [of b0 b1 b2] step [OF Suc_lessD [OF assms]] step [OF assms]
    unfolding count_eval_per_row_def Let_def view cells acc b by (cases "r = 0") simp_all
qed

lemma chunk_padding_violates: "\<not> zeros (chunk_eval_per_row (replicate 50 0))"
  using gf_MLQ_nonzero by (simp add: chunk_eval_per_row_def Let_def)

lemma rejection_air_sound_witness:
  "count_rows 0 (replicate 257 (0, 0, 0)) ! 99 ! 50 = 100 \<and> rej_ntt_poly (\<lambda>_ _. 0) [] 0 0 = Some (replicate 256 0)"
proof -
  let ?rows = "count_rows 0 (replicate 257 (0, 0, 0))" and ?s = "\<lambda>_. 0 :: byte"
  have z: "zeros (count_eval_per_row (?rows ! r) (?rows ! Suc r) r)" if "r < 256" for r
    using that by (intro count_rows_complete) simp
  have n: "?rows ! r = chunk_row (0, 0, 0) @ [of_nat (count_accepted (replicate (Suc r) (0, 0, 0)))]" if "r < 256" for r
    using count_rows_nth [of r "replicate 257 (0, 0, 0)" 0] that by (simp add: min_def del: replicate_Suc)
  have b: "?rows ! r ! i = of_bool (bit ((\<lambda>_ _. 0 :: byte) ([] @ [0] @ [0]) (3 * r + i div 8)) (i mod 8))" if "r < 256" "i < 24" for r i
    using that chunk_row_bits [of i 0 0 0] less_mult_imp_div_less [of i 3 8]
    by (simp add: n nth_append nth_Cons split: nat.splits del: replicate_Suc)
  have c: "coeff_from_three_bytes ?s p = 0" for p by (simp add: coeff_from_three_bytes_def)
  have f: "filter (\<lambda>z. z < MLQ) (map (\<lambda>r. coeff_from_three_bytes ?s (3 * r)) [0..<k]) = replicate k 0" for k
    by (simp add: c MLQ_def map_replicate_const)
  note air = rejection_air_sound [of 256 ?rows "\<lambda>_ _. 0" "[]" 0 0, OF _ _ z b, unfolded f Let_def]
  have cnt: "?rows ! r ! 50 = of_nat (Suc r)" if "r < 256" for r
    using air that by (simp del: replicate_Suc of_nat_Suc)
  have "?rows ! (256 - 1) ! 50 = 256" using cnt [of 255] by simp
  then have "rej_ntt_poly (\<lambda>_ _. 0) [] 0 0 = Some (replicate 256 0)" using air by (simp del: replicate_Suc)
  moreover have "?rows ! 99 ! 50 = 100" using cnt [of 99] by simp
  ultimately show ?thesis by (intro conjI)
qed

end
