(* ===== verification/Bignum.thy ===== *)
theory Bignum
  imports Prelude
begin

text \<open>
  Numbers as lists of little-endian bytes and of little-endian 64-bit limbs: their values, the way a buffer
  of bytes is read as limbs and written back, and the bounds the carry and borrow loops of the
  big-integer code share.
\<close>

unbundle bit_operations_syntax

type_synonym u128 = "128 word"

named_theorems limb_simps "values of limb lists"

lemma unat_byte_less: "unat (b :: byte) < 256"
  using unsigned_less [of b, where 'a = nat] by simp

lemma unat_limb_less: "unat (w :: u64) < 2 ^ 64"
  using unsigned_less [of w, where 'a = nat] by simp

lemma unat_ucast_128 [simp]: "unat (ucast (w :: u64) :: u128) = unat w"
proof -
  have "unat w < 2 ^ 128" by (rule order_less_le_trans [OF unat_limb_less]) simp
  then show ?thesis by (simp add: unsigned_ucast_eq take_bit_nat_eq_self)
qed

lemma unat_ucast_64: "unat (ucast (w :: u128) :: u64) = unat w mod 2 ^ 64"
  by (simp add: unsigned_ucast_eq take_bit_eq_mod)

lemma unat_drop_bit: "unat (drop_bit k (w :: 'a::len word)) = unat w div 2 ^ k"
  by (subst unsigned_drop_bit_eq) (simp only: take_bit_nat_eq_self [OF unsigned_less] drop_bit_eq_div)

lemma bit_small_limb: "unat (c :: 'a::len word) \<le> 1 \<Longrightarrow> bit c m \<Longrightarrow> m = 0"
proof -
  assume "unat c \<le> 1" "bit c m"
  then have "c = 0 \<or> c = 1"
    by (metis le_0_eq less_one linorder_neqE_nat not_less unat_0 unat_1 unsigned_word_eqI)
  with \<open>bit c m\<close> show "m = 0" by (auto simp: bit_1_iff)
qed

primrec bytes_val :: "bytes \<Rightarrow> nat" where
  "bytes_val [] = 0"
| "bytes_val (b # bs) = unat b + 256 * bytes_val bs"

primrec limbs_val :: "u64 list \<Rightarrow> nat" where
  "limbs_val [] = 0"
| "limbs_val (w # ws) = unat w + 2 ^ 64 * limbs_val ws"

lemma bytes_val_append: "bytes_val (xs @ ys) = bytes_val xs + 256 ^ length xs * bytes_val ys"
  by (induction xs) (simp_all add: algebra_simps)

lemma bytes_val_less: "bytes_val bs < 256 ^ length bs"
proof (induction bs)
  case (Cons b bs)
  with unat_byte_less [of b] show ?case by simp
qed simp

lemma bytes_val_inject: "length xs = length ys \<Longrightarrow> bytes_val xs = bytes_val ys \<Longrightarrow> xs = ys"
proof (induction xs ys rule: list_induct2)
  case (Cons x xs y ys)
  have l: "unat x < 256" "unat y < 256" by (rule unat_byte_less)+
  have e: "unat x + 256 * bytes_val xs = unat y + 256 * bytes_val ys" using Cons.prems by simp
  have "unat x = unat y" using arg_cong [OF e, of "\<lambda>v. v mod 256"] l by simp
  moreover have "bytes_val xs = bytes_val ys" using e calculation by simp
  ultimately show ?case using Cons.IH by (simp add: unsigned_word_eqI)
qed simp

lemma limbs_val_append: "limbs_val (xs @ ys) = limbs_val xs + 2 ^ (64 * length xs) * limbs_val ys"
  by (induction xs) (simp_all add: algebra_simps power_add)

lemma limbs_val_less: "limbs_val ws < 2 ^ (64 * length ws)"
proof (induction ws)
  case (Cons w ws)
  have "unat w < 2 ^ 64" by (rule unat_limb_less)
  moreover have "limbs_val ws + 1 \<le> 2 ^ (64 * length ws)" using Cons by simp
  then have "2 ^ 64 * (limbs_val ws + 1) \<le> 2 ^ 64 * 2 ^ (64 * length ws)" by (rule mult_le_mono2)
  ultimately show ?case by (simp add: power_add)
qed simp

lemma limbs_val_take_Suc [limb_simps]:
  "k < length a \<Longrightarrow> limbs_val (take (Suc k) a) = limbs_val (take k a) + 2 ^ (64 * k) * unat (a ! k)"
  by (simp add: take_Suc_conv_app_nth limbs_val_append)

lemma limbs_val_drop [limb_simps]:
  "k < length a \<Longrightarrow> limbs_val (drop k a) = unat (a ! k) + 2 ^ 64 * limbs_val (drop (Suc k) a)"
  by (simp add: Cons_nth_drop_Suc [symmetric])

lemma limbs_val_zeros [simp]: "limbs_val (replicate n 0) = 0"
  by (induction n) simp_all

subsection \<open>Bytes and limbs\<close>

lemma le_bytes_Suc: "le_bytes (Suc n) (w :: 'a::len word) = ucast w # le_bytes n (drop_bit 8 w)"
proof -
  have "[0..<Suc n] = 0 # map Suc [0..<n]" by (simp add: map_Suc_upt upt_conv_Cons del: upt_Suc)
  then show ?thesis by (simp add: le_bytes_def drop_bit_drop_bit add.commute)
qed

lemma bytes_val_le_bytes: "bytes_val (le_bytes n (w :: 'a::len word)) = take_bit (8 * n) (unat w)"
proof (induction n arbitrary: w)
  case 0
  show ?case by (simp add: le_bytes_def)
next
  case (Suc n)
  have u: "unat (drop_bit 8 w) = unat w div 256"
    using unat_drop_bit [of 8 w] by simp
  have m: "unat (ucast w :: byte) = unat w mod 256" by (simp add: unsigned_ucast_eq take_bit_eq_mod)
  have "take_bit (8 * Suc n) (unat w) = unat w mod 256 + 256 * (unat w div 256 mod 2 ^ (8 * n))"
    by (simp add: take_bit_eq_mod power_add mod_mult2_eq)
  then show ?case using Suc [of "drop_bit 8 w"] by (simp add: le_bytes_Suc u m take_bit_eq_mod)
qed

lemma bytes_val_le64 [simp]: "bytes_val (le64 w) = unat w"
proof -
  have "unat w < 2 ^ (8 * 8)" using unat_limb_less [of w] by simp
  then show ?thesis by (simp only: bytes_val_le_bytes take_bit_nat_eq_self)
qed

lemma le_bytes_of_le_bytes:
  assumes "length bs = n" and "8 * n \<le> LENGTH('a::len)"
  shows "le_bytes n (of_le_bytes bs :: 'a word) = bs"
proof (rule nth_equalityI)
  show "length (le_bytes n (of_le_bytes bs :: 'a word)) = length bs" using assms by simp
next
  fix k assume "k < length (le_bytes n (of_le_bytes bs :: 'a word))"
  then have k: "k < n" by simp
  let ?f = "\<lambda>i (b::byte). push_bit (8 * i) (ucast b) :: 'a word"
  show "le_bytes n (of_le_bytes bs :: 'a word) ! k = bs ! k"
  proof (rule bit_word_eqI)
    fix j assume "j < LENGTH(8)"
    then have j: "j < 8" by simp
    then have l: "8 * k + j < LENGTH('a)" using k assms(2) by linarith
    have "bit (le_bytes n (of_le_bytes bs :: 'a word) ! k) j
        \<longleftrightarrow> (\<exists>(i, b) \<in> set (enumerate 0 bs). bit (?f i b) (8 * k + j))"
      unfolding bit_le_bytes [OF k j] of_le_bytes_def by (rule bit_foldr_or)
    also have "\<dots> \<longleftrightarrow> (\<exists>i < n. 8 * i \<le> 8 * k + j \<and> bit (bs ! i) (8 * k + j - 8 * i))"
      using assms(1) l by (fastforce simp: in_set_enumerate_eq bit_push_bit_iff bit_ucast_iff)
    also have "\<dots> \<longleftrightarrow> bit (bs ! k) j"
    proof
      assume "\<exists>i < n. 8 * i \<le> 8 * k + j \<and> bit (bs ! i) (8 * k + j - 8 * i)"
      then obtain i where i: "8 * i \<le> 8 * k + j" "bit (bs ! i) (8 * k + j - 8 * i)" by blast
      then have "8 * k + j - 8 * i < 8" using bit_imp_le_length [of "bs ! i"] by simp
      then have "i = k" using i(1) j by linarith
      then show "bit (bs ! k) j" using i by simp
    next
      assume "bit (bs ! k) j"
      then show "\<exists>i < n. 8 * i \<le> 8 * k + j \<and> bit (bs ! i) (8 * k + j - 8 * i)" using k by auto
    qed
    finally show "bit (le_bytes n (of_le_bytes bs :: 'a word) ! k) j = bit (bs ! k) j" .
  qed
qed

lemma unat_of_le_bytes:
  assumes "length bs = 8"
  shows "unat (of_le_bytes bs :: u64) = bytes_val bs"
  using bytes_val_le64 [of "of_le_bytes bs"] le_bytes_of_le_bytes [of bs 8, where 'a = 64] assms by simp

text \<open>\<open>u64::from_le_bytes(b[8 * k..8 * (k + 1)])\<close> for the first \<open>n\<close> words, and \<open>to_le_bytes\<close> of each.\<close>

definition limbs_of_bytes :: "nat \<Rightarrow> bytes \<Rightarrow> u64 list" where
  "limbs_of_bytes n b = map (\<lambda>k. of_le_bytes (take 8 (drop (8 * k) b))) [0..<n]"

definition bytes_of_limbs :: "u64 list \<Rightarrow> bytes" where
  "bytes_of_limbs x = concat (map le64 x)"

lemma length_limbs_of_bytes [simp]: "length (limbs_of_bytes n b) = n"
  by (simp add: limbs_of_bytes_def)

lemma length_bytes_of_limbs [simp]: "length (bytes_of_limbs x) = 8 * length x"
  by (induction x) (simp_all add: bytes_of_limbs_def)

lemma bytes_val_of_limbs: "bytes_val (bytes_of_limbs x) = limbs_val x"
  by (induction x) (simp_all add: bytes_of_limbs_def bytes_val_append)

lemma limbs_val_of_bytes: "8 * n \<le> length b \<Longrightarrow> limbs_val (limbs_of_bytes n b) = bytes_val (take (8 * n) b)"
proof (induction n)
  case 0
  show ?case by (simp add: limbs_of_bytes_def)
next
  case (Suc n)
  have l: "limbs_of_bytes (Suc n) b = limbs_of_bytes n b @ [of_le_bytes (take 8 (drop (8 * n) b))]"
    by (simp add: limbs_of_bytes_def)
  have t: "take (8 * Suc n) b = take (8 * n) b @ take 8 (drop (8 * n) b)"
    by (metis add.commute mult_Suc_right take_add)
  have "(256::nat) ^ (8 * n) = 2 ^ (64 * n)" using power_mult [of "2::nat" 8 "8 * n"] by simp
  then show ?case using Suc unat_of_le_bytes [of "take 8 (drop (8 * n) b)"]
    by (simp only: l t limbs_val_append bytes_val_append) simp
qed

end
