(* ===== verification/Ed25519_Scalar.thy ===== *)
theory Ed25519_Scalar
  imports Bignum
begin

text \<open>
  The scalar arithmetic of the native Ed25519 verifier (\<open>ed25519_scalar.rs\<close>): comparison, subtraction and
  shifts of 256- and 512-bit numbers in 64-bit limbs, the test that a scalar is below the group order L
  and the shift-and-subtract reduction of a 64-byte digest modulo L. A buffer is a list of the length the
  Rust array has.
\<close>

unbundle bit_operations_syntax

section \<open>The code\<close>

definition L_BYTES :: bytes where
  "L_BYTES = [0xed, 0xd3, 0xf5, 0x5c, 0x1a, 0x63, 0x12, 0x58, 0xd6, 0x9c, 0xf7, 0xa2, 0xde, 0xf9, 0xde, 0x14,
     0, 0, 0, 0, 0, 0, 0, 0, 0, 0, 0, 0, 0, 0, 0, 0x10]"

definition L_LIMBS :: "u64 list" where
  "L_LIMBS = [0x5812631a5cf5d3ed, 0x14def9dea2f79cd6, 0, 0x1000000000000000]"

definition u256_to_bytes :: "u64 list \<Rightarrow> bytes" where "u256_to_bytes x = bytes_of_limbs x"

definition u256_from_bytes :: "bytes \<Rightarrow> u64 list" where "u256_from_bytes b = limbs_of_bytes 4 b"

definition u512_from_bytes :: "bytes \<Rightarrow> u64 list" where "u512_from_bytes b = limbs_of_bytes 8 b"

fun ge_limbs :: "nat list \<Rightarrow> u64 list \<Rightarrow> u64 list \<Rightarrow> bool" where
  "ge_limbs [] a b = True"
| "ge_limbs (i # is) a b = (if a ! i \<noteq> b ! i then a ! i > b ! i else ge_limbs is a b)"

definition ge_512 :: "u64 list \<Rightarrow> u64 list \<Rightarrow> bool" where "ge_512 a b = ge_limbs (rev [0..<8]) a b"

definition ge_256 :: "u64 list \<Rightarrow> u64 list \<Rightarrow> bool" where "ge_256 a b = ge_limbs (rev [0..<4]) a b"

definition sub_step :: "u64 list \<Rightarrow> nat \<Rightarrow> u64 list \<times> u128 \<Rightarrow> u64 list \<times> u128" where
  "sub_step b i = (\<lambda>(a, borrow).
     let lhs = ucast (a ! i) :: u128; rhs = ucast (b ! i) + borrow
     in if lhs \<ge> rhs then (a[i := ucast (lhs - rhs)], 0)
        else (a[i := ucast (lhs + push_bit 64 1 - rhs)], 1))"

definition sub_512_in_place :: "u64 list \<Rightarrow> u64 list \<Rightarrow> u64 list" where
  "sub_512_in_place a b = fst (fold (sub_step b) [0..<8] (a, 0))"

definition shr1_step :: "nat \<Rightarrow> u64 list \<times> u64 \<Rightarrow> u64 list \<times> u64" where
  "shr1_step i = (\<lambda>(a, carry). (a[i := drop_bit 1 (a ! i) OR push_bit 63 carry], a ! i AND 1))"

definition shr1_512 :: "u64 list \<Rightarrow> u64 list" where
  "shr1_512 a = fst (fold shr1_step (rev [0..<8]) (a, 0))"

definition shl1_step :: "nat \<Rightarrow> u64 list \<times> u64 \<Rightarrow> u64 list \<times> u64" where
  "shl1_step i = (\<lambda>(a, carry). (a[i := push_bit 1 (a ! i) OR carry], drop_bit 63 (a ! i)))"

definition shl1_512 :: "u64 list \<Rightarrow> u64 list" where
  "shl1_512 a = fst (fold shl1_step [0..<8] (a, 0))"

definition is_canonical :: "bytes \<Rightarrow> bool" where
  "is_canonical s \<longleftrightarrow> \<not> ge_256 (u256_from_bytes s) L_LIMBS"

definition reduce_step :: "u64 list \<times> u64 list \<Rightarrow> u64 list \<times> u64 list" where
  "reduce_step = (\<lambda>(x, l_shifted).
     (if ge_512 x l_shifted then sub_512_in_place x l_shifted else x, shr1_512 l_shifted))"

definition reduce_mod_l_wide :: "bytes \<Rightarrow> bytes" where
  "reduce_mod_l_wide input =
     (let x = u512_from_bytes input;
          l_shifted = (shl1_512 ^^ 259) (L_LIMBS @ [0, 0, 0, 0]);
          (x, l_shifted) = (reduce_step ^^ 260) (x, l_shifted)
      in u256_to_bytes [x ! 0, x ! 1, x ! 2, x ! 3])"

definition scalar_bytes_to_bits_le :: "bytes \<Rightarrow> bool list" where
  "scalar_bytes_to_bits_le bytes = concat (map (\<lambda>byte. map (\<lambda>b. drop_bit b byte AND 1 = 1) [0..<8]) bytes)"

section \<open>The loops on values\<close>

definition ed_L :: nat where "ed_L = 2 ^ 252 + 27742317777372353535851937790883648493"

lemma limbs_val_L: "limbs_val L_LIMBS = ed_L"
  by (simp add: L_LIMBS_def ed_L_def)

lemma bytes_val_L: "bytes_val L_BYTES = ed_L"
  by (simp add: L_BYTES_def ed_L_def)

lemma ge_limbs_iff:
  "n \<le> length a \<Longrightarrow> n \<le> length b \<Longrightarrow> ge_limbs (rev [0..<n]) a b \<longleftrightarrow> limbs_val (take n b) \<le> limbs_val (take n a)"
proof (induction n)
  case (Suc n)
  let ?m = "2 ^ (64 * n) :: nat"
  have low: "limbs_val (take n a) < ?m" "limbs_val (take n b) < ?m"
    using limbs_val_less [of "take n a"] limbs_val_less [of "take n b"] Suc.prems by simp_all
  have eq: "a ! n = b ! n \<longleftrightarrow> unat (a ! n) = unat (b ! n)" by (auto intro: unsigned_word_eqI)
  have gt: "a ! n > b ! n \<longleftrightarrow> unat (b ! n) < unat (a ! n)" by (simp add: word_less_nat_alt)
  have step: "x < ?m \<Longrightarrow> u < v \<Longrightarrow> x + ?m * u < y + ?m * v" for x y u v
  proof -
    assume "x < ?m" "u < v"
    then have "?m * (u + 1) \<le> ?m * v" by (intro mult_le_mono2) simp
    then show ?thesis using \<open>x < ?m\<close> by (simp add: algebra_simps)
  qed
  show ?case
  proof (cases "unat (a ! n)" "unat (b ! n)" rule: linorder_cases)
    case less
    from step [OF low(1) less, of "limbs_val (take n b)"] less Suc show ?thesis
      by (simp add: limb_simps eq gt)
  next
    case equal
    with Suc show ?thesis by (simp add: limb_simps eq)
  next
    case greater
    from step [OF low(2) greater, of "limbs_val (take n a)"] greater Suc show ?thesis
      by (simp add: limb_simps eq gt)
  qed
qed simp

lemma ge_512_iff: "length a = 8 \<Longrightarrow> length b = 8 \<Longrightarrow> ge_512 a b \<longleftrightarrow> limbs_val b \<le> limbs_val a"
  using ge_limbs_iff [of 8 a b] by (simp add: ge_512_def del: upt_Suc)

lemma ge_256_iff: "length a = 4 \<Longrightarrow> length b = 4 \<Longrightarrow> ge_256 a b \<longleftrightarrow> limbs_val b \<le> limbs_val a"
  using ge_limbs_iff [of 4 a b] by (simp add: ge_256_def del: upt_Suc)

lemma sub_step_spec:
  assumes br: "br = 0 \<or> br = (1 :: u128)" and i: "i < length a" and s: "sub_step b i (a, br) = (a', br')"
  shows "\<exists>w. a' = a[i := w] \<and> (br' = 0 \<or> br' = 1) \<and> unat w + unat (b ! i) + unat br = unat (a ! i) + unat br' * 2 ^ 64"
proof -
  let ?x = "unat (a ! i)" and ?y = "unat (b ! i) + unat br"
  have lx: "?x < 2 ^ 64" and ly: "?y \<le> 2 ^ 64"
    using unat_limb_less [of "a ! i"] unat_limb_less [of "b ! i"] br by auto
  have rhs: "unat ((ucast (b ! i) :: u128) + br) = ?y"
    using ly by (simp add: unat_word_ariths)
  have cmp: "(ucast (a ! i) :: u128) \<ge> ucast (b ! i) + br \<longleftrightarrow> ?y \<le> ?x"
    by (simp add: word_le_nat_alt rhs)
  have pb: "unat (push_bit 64 1 :: u128) = 2 ^ 64" by simp
  have sum: "unat ((ucast (a ! i) :: u128) + push_bit 64 1) = ?x + 2 ^ 64"
    using lx by (simp add: unat_word_ariths)
  show ?thesis
  proof (cases "?y \<le> ?x")
    case True
    then have "unat ((ucast (a ! i) :: u128) - (ucast (b ! i) + br)) = ?x - ?y"
      using cmp by (simp add: unat_sub rhs)
    then show ?thesis using s True lx cmp
      by (auto simp: sub_step_def Let_def unat_ucast_64)
  next
    case False
    have "ucast (b ! i) + br \<le> (ucast (a ! i) :: u128) + push_bit 64 1"
      by (simp only: word_le_nat_alt rhs sum) (use ly in simp)
    then have "unat ((ucast (a ! i) :: u128) + push_bit 64 1 - (ucast (b ! i) + br)) = ?x + 2 ^ 64 - ?y"
      by (simp only: unat_sub rhs sum)
    then show ?thesis using s False lx ly cmp
      by (auto simp: sub_step_def Let_def unat_ucast_64)
  qed
qed

lemma sub_loop:
  assumes "n \<le> length a" and "length b = length a"
  shows "\<exists>a' br. fold (sub_step b) [0..<n] (a, 0) = (a', br) \<and> length a' = length a \<and> drop n a' = drop n a
     \<and> (br = 0 \<or> br = 1)
     \<and> limbs_val (take n a') + limbs_val (take n b) = limbs_val (take n a) + unat br * 2 ^ (64 * n)"
  using assms(1)
proof (induction n)
  case 0
  show ?case by simp
next
  case (Suc n)
  then obtain a' br where f: "fold (sub_step b) [0..<n] (a, 0) = (a', br)" and l: "length a' = length a"
    and d: "drop n a' = drop n a" and br: "br = 0 \<or> br = 1"
    and v: "limbs_val (take n a') + limbs_val (take n b) = limbs_val (take n a) + unat br * 2 ^ (64 * n)"
    by auto
  obtain a'' br' where s: "sub_step b n (a', br) = (a'', br')" by fastforce
  have an: "a' ! n = a ! n" using arg_cong [OF d, of hd] Suc.prems l by (simp add: hd_drop_conv_nth)
  obtain w where w: "a'' = a'[n := w]" "br' = 0 \<or> br' = 1"
      "unat w + unat (b ! n) + unat br = unat (a ! n) + unat br' * 2 ^ 64"
    using sub_step_spec [OF br _ s] Suc.prems l an by auto
  have d': "drop (Suc n) a'' = drop (Suc n) a"
    using d w(1) by (metis drop_Suc drop_update_cancel lessI tl_drop)
  have "2 ^ (64 * n) * (unat w + unat (b ! n) + unat br) = 2 ^ (64 * n) * (unat (a ! n) + unat br' * 2 ^ 64)"
    using w(3) by simp
  then have "limbs_val (take (Suc n) a'') + limbs_val (take (Suc n) b)
      = limbs_val (take (Suc n) a) + unat br' * 2 ^ (64 * Suc n)"
    using v w(1) l Suc.prems assms(2) by (simp add: limb_simps power_add algebra_simps)
  then show ?case using f s l d' w(1,2) by simp
qed

lemma sub_512_val:
  assumes "length a = 8" "length b = 8" "limbs_val b \<le> limbs_val a"
  shows "length (sub_512_in_place a b) = 8" "limbs_val (sub_512_in_place a b) = limbs_val a - limbs_val b"
proof -
  obtain a' br where f: "fold (sub_step b) [0..<8] (a, 0) = (a', br)" "length a' = 8" "br = 0 \<or> br = (1 :: u128)"
      and v: "limbs_val a' + limbs_val b = limbs_val a + unat br * 2 ^ (64 * 8)"
    using sub_loop [of 8 a b] assms by (auto simp del: upt_Suc)
  have "limbs_val a' < 2 ^ (64 * 8)" using limbs_val_less [of a'] f by simp
  then have "br = 0" using v f(3) assms(3) by auto
  then show "length (sub_512_in_place a b) = 8" "limbs_val (sub_512_in_place a b) = limbs_val a - limbs_val b"
    using f v by (simp_all add: sub_512_in_place_def del: upt_Suc)
qed

lemma double_mod_limb: "2 * x mod 2 ^ 64 = 2 * (x mod 2 ^ 63 :: nat)"
  using mult_mod_right [of 2 x "2 ^ 63"] by simp

lemma shl_split: "2 * x mod 2 ^ 64 + x div 2 ^ 63 * 2 ^ 64 = 2 * (x :: nat)"
proof -
  have "2 * a + b * 2 ^ 64 = 2 * (b * 2 ^ 63 + a)" for a b :: nat by simp
  then have "2 * x mod 2 ^ 64 + x div 2 ^ 63 * 2 ^ 64 = 2 * (x div 2 ^ 63 * 2 ^ 63 + x mod 2 ^ 63)"
    by (simp only: double_mod_limb)
  then show ?thesis by (simp only: div_mult_mod_eq)
qed

lemma unat_push_or:
  fixes w c :: u64
  assumes "unat c \<le> 1"
  shows "unat (push_bit 1 w OR c) = 2 * unat w mod 2 ^ 64 + unat c"
proof -
  have "push_bit 1 w AND c = 0"
  proof (rule bit_word_eqI)
    fix m
    show "bit (push_bit 1 w AND c) m = bit (0 :: u64) m"
      using bit_small_limb [OF assms, of m] by (auto simp only: bit_and_iff bit_push_bit_iff bit_0_eq bot_apply bot_bool_def)
  qed
  then have "push_bit 1 w OR c = push_bit 1 w + c" by (simp only: disjunctive_add_eq_or)
  moreover have "unat (push_bit 1 w) = 2 * unat w mod 2 ^ 64" by (simp add: push_bit_eq_mult unat_word_ariths mult.commute)
  moreover have "a < 2 ^ 63 \<Longrightarrow> 2 * a + unat c < 2 ^ 64" for a using assms by simp
  then have "2 * unat w mod 2 ^ 64 + unat c < 2 ^ 64" by (simp only: double_mod_limb mod_less_divisor zero_less_numeral zero_less_power)
  ultimately show ?thesis by (simp add: unat_word_ariths)
qed

lemma shl1_loop:
  assumes "n \<le> length a"
  shows "\<exists>a' c. fold shl1_step [0..<n] (a, 0) = (a', c) \<and> length a' = length a \<and> drop n a' = drop n a
     \<and> unat c \<le> 1 \<and> limbs_val (take n a') + unat c * 2 ^ (64 * n) = 2 * limbs_val (take n a)"
  using assms
proof (induction n)
  case 0
  show ?case by simp
next
  case (Suc n)
  then obtain a' c where f: "fold shl1_step [0..<n] (a, 0) = (a', c)" and l: "length a' = length a"
    and d: "drop n a' = drop n a" and c: "unat c \<le> 1"
    and v: "limbs_val (take n a') + unat c * 2 ^ (64 * n) = 2 * limbs_val (take n a)"
    by auto
  have an: "a' ! n = a ! n" using arg_cong [OF d, of hd] Suc.prems l by (simp add: hd_drop_conv_nth)
  let ?w = "push_bit 1 (a ! n) OR c" and ?c = "drop_bit 63 (a ! n)"
  have c': "unat ?c = unat (a ! n) div 2 ^ 63"
    by (rule unat_drop_bit)
  have w: "unat ?w + unat ?c * 2 ^ 64 = 2 * unat (a ! n) + unat c"
    unfolding unat_push_or [OF c] c' using shl_split [of "unat (a ! n)"] by simp
  have c1: "unat ?c \<le> 1" using c' unat_limb_less [of "a ! n"] by simp
  have d': "drop (Suc n) (a'[n := ?w]) = drop (Suc n) a"
    using d by (metis drop_Suc drop_update_cancel lessI tl_drop)
  have "2 ^ (64 * n) * (unat ?w + unat ?c * 2 ^ 64) = 2 ^ (64 * n) * (2 * unat (a ! n) + unat c)"
    using w by simp
  then have "limbs_val (take (Suc n) (a'[n := ?w])) + unat ?c * 2 ^ (64 * Suc n) = 2 * limbs_val (take (Suc n) a)"
    using v l Suc.prems by (simp add: limb_simps power_add algebra_simps)
  moreover have "fold shl1_step [0..<Suc n] (a, 0) = (a'[n := ?w], ?c)"
    using f an by (simp add: shl1_step_def)
  ultimately show ?case using l d' c1 by (intro exI conjI) (simp_all only: length_list_update)
qed

lemma shl1_512_val:
  assumes "length a = 8" "2 * limbs_val a < 2 ^ 512"
  shows "length (shl1_512 a) = 8" "limbs_val (shl1_512 a) = 2 * limbs_val a"
proof -
  obtain a' c where f: "fold shl1_step [0..<8] (a, 0) = (a', c)" "length a' = 8"
      and v: "limbs_val a' + unat c * 2 ^ (64 * 8) = 2 * limbs_val a"
    using shl1_loop [of 8 a] assms by (auto simp del: upt_Suc)
  have "unat c = 0" using v assms(2) by (cases "unat c") simp_all
  then show "length (shl1_512 a) = 8" "limbs_val (shl1_512 a) = 2 * limbs_val a"
    using f v by (simp_all add: shl1_512_def del: upt_Suc)
qed

lemma unat_shr_or:
  fixes w c :: u64
  assumes "unat c \<le> 1"
  shows "unat (drop_bit 1 w OR push_bit 63 c) = unat w div 2 + unat c * 2 ^ 63"
proof -
  have "drop_bit 1 w AND push_bit 63 c = 0"
  proof (rule bit_word_eqI)
    fix m
    have "bit w (1 + m) \<Longrightarrow> m \<noteq> 63" using bit_imp_le_length [of w "1 + m"] by auto
    then show "bit (drop_bit 1 w AND push_bit 63 c) m = bit (0 :: u64) m"
      using bit_small_limb [OF assms, of "m - 63"] by (auto simp: bit_and_iff bit_push_bit_iff bit_drop_bit_eq)
  qed
  then have "drop_bit 1 w OR push_bit 63 c = drop_bit 1 w + push_bit 63 c" by (simp only: disjunctive_add_eq_or)
  moreover have "unat (drop_bit 1 w) = unat w div 2"
    using unat_drop_bit [of 1 w] by simp
  moreover have "unat (push_bit 63 c) = unat c * 2 ^ 63"
    using assms by (simp add: push_bit_eq_mult unat_word_ariths)
  moreover have "unat w div 2 < 2 ^ 63" using unat_limb_less [of w] by simp
  ultimately show ?thesis using assms by (simp add: unat_word_ariths)
qed


lemma shr1_loop:
  assumes "n \<le> length a"
  shows "\<exists>a' c. fold shr1_step (rev [n..<length a]) (a, 0) = (a', c) \<and> length a' = length a \<and> take n a' = take n a
     \<and> unat c \<le> 1 \<and> 2 * limbs_val (drop n a') + unat c = limbs_val (drop n a)"
  using assms
proof (induction "length a - n" arbitrary: n)
  case 0
  then show ?case by simp
next
  case (Suc m)
  then have n: "n < length a" by simp
  have u: "rev [n..<length a] = rev [Suc n..<length a] @ [n]" using n by (simp add: upt_conv_Cons)
  obtain a' c where f: "fold shr1_step (rev [Suc n..<length a]) (a, 0) = (a', c)" and l: "length a' = length a"
    and d: "take (Suc n) a' = take (Suc n) a" and c: "unat c \<le> 1"
    and v: "2 * limbs_val (drop (Suc n) a') + unat c = limbs_val (drop (Suc n) a)"
    using Suc.hyps(1) [of "Suc n"] Suc.hyps(2) n by (auto simp: Suc_diff_Suc [symmetric])
  have an: "a' ! n = a ! n" using arg_cong [OF d, of "\<lambda>x. x ! n"] by simp
  let ?w = "drop_bit 1 (a ! n) OR push_bit 63 c" and ?c = "a ! n AND 1"
  have c': "unat ?c = unat (a ! n) mod 2" by (simp add: and_one_eq unat_mod_distrib)
  have "unat ?w = unat (a ! n) div 2 + unat c * 2 ^ 63" by (rule unat_shr_or [OF c])
  then have "2 * unat ?w + unat ?c = unat (a ! n) + unat c * 2 ^ 64" using c' by simp
  then have "2 * limbs_val (drop n (a'[n := ?w])) + unat ?c = limbs_val (drop n a)"
    using v l n by (simp add: limb_simps algebra_simps)
  moreover have "take n (a'[n := ?w]) = take n a"
    using d by (metis le_refl take_update_cancel min.absorb1 less_imp_le lessI take_take)
  moreover have "fold shr1_step (rev [n..<length a]) (a, 0) = (a'[n := ?w], ?c)"
    using f an by (simp add: u shr1_step_def)
  moreover have "unat ?c \<le> 1" using c' by simp
  ultimately show ?case using l by (intro exI conjI) (simp_all only: length_list_update)
qed

lemma shr1_512_val:
  assumes "length a = 8"
  shows "length (shr1_512 a) = 8" "limbs_val (shr1_512 a) = limbs_val a div 2"
proof -
  obtain a' c where f: "fold shr1_step (rev [0..<8]) (a, 0) = (a', c)" "length a' = 8" "unat c \<le> 1"
      and v: "2 * limbs_val a' + unat c = limbs_val a"
    using shr1_loop [of 0 a] assms by (auto simp del: upt_Suc)
  then show "length (shr1_512 a) = 8" "limbs_val (shr1_512 a) = limbs_val a div 2"
    by (simp_all add: shr1_512_def del: upt_Suc)
qed

section \<open>Reduction modulo the group order\<close>

lemma shl1_iterate:
  "k \<le> 259 \<Longrightarrow> length ((shl1_512 ^^ k) (L_LIMBS @ [0, 0, 0, 0])) = 8
     \<and> limbs_val ((shl1_512 ^^ k) (L_LIMBS @ [0, 0, 0, 0])) = ed_L * 2 ^ k"
proof (induction k)
  case 0
  show ?case by (simp add: limbs_val_append limbs_val_L) (simp add: L_LIMBS_def)
next
  case (Suc k)
  let ?l = "(shl1_512 ^^ k) (L_LIMBS @ [0, 0, 0, 0])"
  have "ed_L * 2 ^ Suc k \<le> ed_L * 2 ^ 259" using Suc.prems by (intro mult_le_mono2 power_increasing) simp_all
  also have "\<dots> < 2 ^ 512" by (simp add: ed_L_def)
  finally have "2 * limbs_val ?l < 2 ^ 512" using Suc by (simp add: mult.commute mult.left_commute)
  with Suc show ?case by (simp add: shl1_512_val)
qed

lemma reduce_iterate:
  assumes x: "length x = 8" and l: "length l = 8" "limbs_val l = ed_L * 2 ^ 259"
  shows "k \<le> 260 \<Longrightarrow> (\<exists>x' l'. (reduce_step ^^ k) (x, l) = (x', l') \<and> length x' = 8 \<and> length l' = 8
     \<and> limbs_val l' = ed_L * 2 ^ 259 div 2 ^ k \<and> limbs_val x' mod ed_L = limbs_val x mod ed_L
     \<and> limbs_val x' * 2 ^ k < ed_L * 2 ^ 260)"
proof (induction k)
  case 0
  have "limbs_val x < 2 ^ 512" using limbs_val_less [of x] x by simp
  also have "\<dots> < ed_L * 2 ^ 260" by (simp add: ed_L_def)
  finally show ?case using x l by simp
next
  case (Suc k)
  then obtain x' l' where s: "(reduce_step ^^ k) (x, l) = (x', l')" "length x' = 8" "length l' = 8"
      and v: "limbs_val l' = ed_L * 2 ^ 259 div 2 ^ k" "limbs_val x' mod ed_L = limbs_val x mod ed_L"
      and b: "limbs_val x' * 2 ^ k < ed_L * 2 ^ 260"
    by auto
  have k: "k \<le> 259" using Suc.prems by simp
  have pw: "(2::nat) ^ (259 - k) * 2 ^ k = 2 ^ 259" using k by (simp flip: power_add)
  have "ed_L * 2 ^ 259 = ed_L * 2 ^ (259 - k) * 2 ^ k" by (simp only: pw mult.assoc)
  then have lk: "limbs_val l' = ed_L * 2 ^ (259 - k)" by (simp only: v(1) nonzero_mult_div_cancel_right power_not_zero zero_neq_numeral [symmetric] not_False_eq_True)
  define y where "y = (if ge_512 x' l' then sub_512_in_place x' l' else x')"
  have r: "length y = 8 \<and> limbs_val y = (if limbs_val l' \<le> limbs_val x' then limbs_val x' - limbs_val l' else limbs_val x')"
    using s sub_512_val by (simp add: ge_512_iff y_def)
  have "limbs_val y mod ed_L = limbs_val x' mod ed_L"
    using r lk by (auto simp: mod_mult_self2 le_mod_geq dest: le_Suc_ex)
  moreover have "limbs_val y * 2 ^ Suc k < ed_L * 2 ^ 260"
  proof (cases "limbs_val l' \<le> limbs_val x'")
    case True
    then have "limbs_val y * 2 ^ k + limbs_val l' * 2 ^ k = limbs_val x' * 2 ^ k"
      using r by (simp flip: distrib_right)
    moreover have "limbs_val l' * 2 ^ k = ed_L * 2 ^ 259" unfolding lk using pw by simp
    ultimately show ?thesis using b by simp
  next
    case False
    then have "limbs_val y * 2 ^ k < limbs_val l' * 2 ^ k" using r by simp
    also have "\<dots> = ed_L * 2 ^ 259" unfolding lk using pw by simp
    finally show ?thesis by simp
  qed
  moreover have "limbs_val (shr1_512 l') = ed_L * 2 ^ 259 div 2 ^ Suc k"
    using s v(1) shr1_512_val [of l'] by (simp add: div_mult2_eq [symmetric] mult.commute)
  moreover have "(reduce_step ^^ Suc k) (x, l) = (y, shr1_512 l')" using s by (simp add: reduce_step_def y_def)
  moreover have "limbs_val y mod ed_L = limbs_val x mod ed_L" using calculation(1) v(2) by (rule trans)
  ultimately show ?case using r shr1_512_val(1) [OF s(3)] by (intro exI [of _ y] exI [of _ "shr1_512 l'"] conjI) blast+
qed


text \<open>C40: Reducing a 64-byte digest returns the 32 little-endian bytes of its value modulo the order L of the
  prime-order subgroup: no overflow or borrow is lost, and the remainder is canonical.\<close>

theorem reduce_mod_l_wide_spec:
  assumes "length input = 64"
  shows "length (reduce_mod_l_wide input) = 32 \<and> bytes_val (reduce_mod_l_wide input) = bytes_val input mod ed_L"
proof -
  let ?x = "u512_from_bytes input" and ?l = "(shl1_512 ^^ 259) (L_LIMBS @ [0, 0, 0, 0])"
  have x: "length ?x = 8" "limbs_val ?x = bytes_val input"
    using assms limbs_val_of_bytes [of 8 input] by (simp_all add: u512_from_bytes_def)
  have l: "length ?l = 8" "limbs_val ?l = ed_L * 2 ^ 259" using shl1_iterate [of 259] by simp_all
  obtain x' l' where r: "(reduce_step ^^ 260) (?x, ?l) = (x', l')" "length x' = 8"
      "limbs_val x' mod ed_L = bytes_val input mod ed_L" "limbs_val x' * 2 ^ 260 < ed_L * 2 ^ 260"
    using reduce_iterate [OF x(1) l, of 260] x(2) by auto
  have lt: "limbs_val x' < ed_L" using r(4) by simp
  have t: "x' = take 4 x' @ drop 4 x'" by simp
  have "limbs_val x' = limbs_val (take 4 x') + 2 ^ 256 * limbs_val (drop 4 x')"
    by (subst t, subst limbs_val_append) (simp add: r(2))
  moreover have "ed_L < 2 ^ 256" by (simp add: ed_L_def)
  ultimately have v: "limbs_val (take 4 x') = limbs_val x'" using lt by (cases "limbs_val (drop 4 x')") simp_all
  have four: "[x' ! 0, x' ! 1, x' ! 2, x' ! 3] = take 4 x'"
    using r(2) by (intro nth_equalityI) (auto simp: less_Suc_eq numeral_eq_Suc nth_Cons split: nat.splits)
  have out: "reduce_mod_l_wide input = bytes_of_limbs (take 4 x')"
    unfolding reduce_mod_l_wide_def Let_def r(1) by (simp only: prod.case u256_to_bytes_def four)
  show ?thesis using r(2,3) lt v by (simp add: out bytes_val_of_limbs)
qed

lemma bytes_val_zeros [simp]: "bytes_val (replicate n 0) = 0"
  by (induction n) simp_all

lemma reduce_mod_l_wide_spec_witness:
  "reduce_mod_l_wide (L_BYTES @ replicate 32 0) = replicate 32 0"
proof -
  have l: "length (L_BYTES @ replicate 32 0) = 64" by (simp add: L_BYTES_def)
  have "bytes_val (L_BYTES @ replicate 32 0) = ed_L" by (simp only: bytes_val_append bytes_val_zeros bytes_val_L)
  then show ?thesis using reduce_mod_l_wide_spec [OF l] by (intro bytes_val_inject) simp_all
qed

text \<open>A scalar is accepted exactly when its value is below the group order.\<close>

lemma is_canonical_iff:
  assumes "length s = 32"
  shows "is_canonical s \<longleftrightarrow> bytes_val s < ed_L"
proof -
  have "length L_LIMBS = 4" by (simp add: L_LIMBS_def)
  then have "ge_256 (u256_from_bytes s) L_LIMBS \<longleftrightarrow> ed_L \<le> bytes_val s"
    using ge_256_iff [of "u256_from_bytes s" L_LIMBS] limbs_val_of_bytes [of 4 s] assms
    by (simp add: u256_from_bytes_def limbs_val_L)
  then show ?thesis by (auto simp: is_canonical_def)
qed

end
