(* ===== verification/Spec2Isabelle.thy ===== *)
theory Spec2Isabelle
  imports Swarm_Props Dns_Chain_Props Merkle_Compact Fri_Props Gold_Tower Stark_Prover Ml_Dsa_Ntt Ml_Dsa_Rej Ed25519_Scalar
begin

text \<open>
  \<^bold>\<open>A model of stark-stir-swarm.\<close>

  A controller (\<open>swarm-ctrl\<close>) splits a DNS zone into shards, has every shard proved by \<open>k\<close>
  workers (\<open>swarm-worker\<close>), votes on what they return, aggregates the shards' public input
  hashes in an outer proof, signs a digest and writes a bundle; \<open>swarm-verify\<close> checks a bundle
  offline. What a worker proves is built by \<open>swarm-dns\<close> on \<open>deep_ali\<close>: an AIR trace, its
  composition into one codeword, a FRI or STIR proof over Merkle commitments.

  \<^bold>\<open>The swarm\<close>, in the order of the data flow:

  \<^item> \<open>Prelude\<close>: bytes, words, little- and big-endian codecs, hash maps as association lists.
  \<^item> \<open>Externals\<close>: third-party code as the record \<open>ext\<close> (SHA-2, SHA-3, hex, ML-DSA), NIST levels
    and authority keys (\<open>dns_authority.rs\<close>), the STARK boundary as the record \<open>'p stark\<close>.
  \<^item> \<open>Proto_Messages\<close>: \<open>swarm-proto\<close> messages, digests and frames.
  \<^item> \<open>Dns_Zone\<close>: \<open>dns.rs\<close> records and Merkle tree, \<open>split_evenly\<close>.
  \<^item> \<open>Shard_Prover\<close>: \<open>prover.rs\<close> parameters, inner and outer proofs, \<open>handle_assign\<close>.
  \<^item> \<open>Signature_Bindings\<close>: \<open>prover.rs\<close> DS and ZSK bindings.
  \<^item> \<open>Dns_Chain\<close>, \<open>Dns_Chain_Props\<close>: \<open>prover.rs\<close> DNS record chain bundles and their sets.
  \<^item> \<open>Ensemble\<close>, \<open>Roster_Session\<close>, \<open>Conn_Limiter\<close>, \<open>Zone_Job\<close>: the controller's vote, sessions,
    connection limiter and orchestrator.  The sessions, the accept loop and the zone job are
    step relations; \<open>Zone_Job_Safety\<close>, \<open>Zone_Job_Run\<close> and \<open>Zone_Job_Log\<close> prove the invariant of
    the job, of its start and of its log of effects.
  \<^item> \<open>Bundle\<close>, \<open>Bundle_Verify\<close>: writing and verifying a bundle, receipt audits.
  \<^item> \<open>Concrete\<close>: a concrete instance of \<open>ext\<close> and \<open>'p stark\<close>, used by witnesses only.
  \<^item> \<open>Zone_Job_Props\<close>, \<open>Bundle_Props\<close>, \<open>Swarm_Props\<close>: the properties.

  \<^bold>\<open>The proof system\<close>, from the commitments up:

  \<^item> \<open>Merkle_Channel\<close>, \<open>Merkle_Props\<close>, \<open>Merkle_Compact\<close>: \<open>merkle/src/lib.rs\<close>, the commitment
    tree, its openings and their binding, and the compact tree as a refinement of the full one.
  \<^item> \<open>Fri_Algebra\<close>, \<open>Fri_Protocol\<close>, \<open>Fri_Prover\<close>, \<open>Fri_Verifier\<close>: \<open>deep_ali/src/fri.rs\<close>, its
    transforms and folds, transcript and proof format, prover and verifier in both modes.
    \<open>Fri_Fft\<close> and \<open>Fri_Interp\<close> relate transforms and folds to polynomials; \<open>Fri_Run\<close>,
    \<open>Fri_Queries\<close>, \<open>Fri_Classic\<close>, \<open>Fri_Complete\<close> and \<open>Fri_Accept\<close> follow an honest run through
    the prover and the verifier; \<open>Fri_Props\<close> holds the properties.
  \<^item> \<open>Goldilocks\<close>, \<open>Gold_Tower\<close>: the base field (\<open>ark-goldilocks\<close>) as a type with a \<open>field\<close>
    instance and the bottom of \<open>tower_field.rs\<close>.
  \<^item> \<open>Sha256_Air\<close>, \<open>Sha256_Trace\<close>: \<open>sha256_air.rs\<close>, hash, constraints and trace; \<open>Sha256_Sound\<close>,
    \<open>Sha256_Complete\<close>, \<open>Sha256_Props\<close>: soundness, completeness and what is left free.
  \<^item> \<open>Air_Workloads\<close>, \<open>Air_Props\<close>: the AIR registry of \<open>air_workloads.rs\<close>.
  \<^item> \<open>Air_Merge\<close>, \<open>Merge_Props\<close>: low-degree extension (\<open>trace_import.rs\<close>) and the merges of
    \<open>deep_ali/src/lib.rs\<close>; when the composed codeword is an exact quotient.
  \<^item> \<open>Stark_Prover\<close>: the provers of \<open>prover.rs\<close> end to end. \<open>deep_stark\<close> is the instance of
    \<open>'p stark\<close> that \<open>Shard_Prover\<close> and the swarm abstract from; the NSEC3 and DS provers.
  \<^item> \<open>Ml_Dsa\<close>: the native ML-DSA arithmetic (\<open>ml_dsa.rs\<close>, \<open>ml_dsa_field.rs\<close>, \<open>ml_dsa_decompose.rs\<close>,
    \<open>ml_dsa_norm_check.rs\<close>) for the three parameter sets; \<open>Ml_Dsa_Ntt\<close>: \<open>ml_dsa_ntt.rs\<close>, shown to
    multiply polynomials; \<open>Ml_Dsa_Codec\<close>: decoding, sampling and packing (\<open>ml_dsa_codec.rs\<close>,
    \<open>ml_dsa_sample_in_ball.rs\<close>, \<open>ml_dsa_w1_encode.rs\<close>).
  \<^item> \<open>Ml_Dsa_Air\<close>, \<open>Ml_Dsa_Rej\<close>: the row AIRs that claim to check this arithmetic and the rejection
    sampling; which of them pin down the native result and which do not.
  \<^item> \<open>Bignum\<close>, \<open>Ed25519_Scalar\<close>: numbers as lists of bytes and 64-bit limbs, and the scalar
    arithmetic of the native Ed25519 verifier (\<open>ed25519_scalar.rs\<close>) on them.

  \<^bold>\<open>Interfaces.\<close>  \<open>safe_system\<close> (a step relation with an invariant) is interpreted on the
  controller's sessions, the accept loop and the zone job; \<open>inclusion_scheme\<close> (build, path,
  verify) on the zone tree and the commitment tree; \<open>iterated_air\<close> (a machine run row by row
  whose rows satisfy an evaluator) on five machines of the registry; the ring and field laws
  of \<open>gf\<close> come from the library's \<open>mod_ring\<close>.

  \<^bold>\<open>Conventions.\<close>  A hash map is an association list with distinct keys whose order is the
  iteration order of the map; steps \<open>rehash\<close> let it change arbitrarily.  What a task observes of
  others (roster snapshots, clocks, results of channel sends) is input of its step.  Lengths of
  vectors in memory are natural numbers; the domain sizes that are derived from the counts of a
  bundle use the wrapping 64-bit \<open>usize\<close> arithmetic of a release build (\<open>usize_mul\<close>,
  \<open>next_pow2_usize\<close>), where a debug build would panic; worker ids, shard ids, counts on the wire
  and in bundles keep their width.  \<open>f64\<close> timings are opaque bit patterns, the limiter's tokens
  are reals.  All recursion is total; no fuel is needed.
  Panics and early returns are \<open>None\<close>, a job status or an error value.

  The hash of the trees is the record \<open>hasher\<close>, an extension field with its embedding is the
  record \<open>('f, 'e) tower\<close> over any two fields, the Ed25519 registry entry is the record \<open>ed_stub\<close>,
  and how \<open>deep_ali\<close> was compiled (debug assertions, feature \<open>parallel\<close>, threads) is the record
  \<open>build_cfg\<close>. A FRI challenge that hits the domain or is zero makes the code panic or fail, so
  completeness of FRI is stated for the other challenges.

  \<^bold>\<open>Not modelled.\<close>  Sockets, TLS, files, argument parsing and logging; the CBOR, JSON and hex
  codecs and the hash and signature implementations (parameters); the arithmetic of the
  extension fields above the base (the record \<open>tower\<close>); the Ed25519, SHA-512, Keccak and RSA AIRs,
  the ML-DSA AIRs of the transforms and of SHAKE with their orchestration, and the
  merges of these layouts, which are much larger than the SHA-256 one; soundness calculators and benchmarks, which are floating point.
\<close>

end
